(* ===== verification/CPrelude.thy ===== *)
theory CPrelude
  imports Main "HOL-Library.Word" "HOL-Library.Monad_Syntax"
begin

text \<open>
  Vocabulary the component theories share: the C integers of the 32-bit Windows build, byte
  strings, raw memory blocks with bounds-checked accesses, and a few generic lemmas.

  Conventions.  A C operation whose behaviour the C standard leaves undefined on some input
  (an access outside a block, a use of a freed object) is a function into
  \<open>option\<close>; \<open>None\<close> is that undefined behaviour, and a theorem that says the operation returns
  \<open>Some\<close> is a memory-safety statement.  The C return codes (\<open>0\<close>, \<open>-1\<close>, \<open>NULL\<close>) are part of the
  returned value.  A C \<open>int\<close> is an \<open>int\<close> kept in range by \<open>c_int\<close>, which is applied to the result
  of every addition, subtraction, multiplication and shift the code does at that type.
\<close>

named_theorems wf_simps \<open>unfolding rules of the well-formedness predicates\<close>
named_theorems safe_intros \<open>an operation returns on a well-formed argument\<close>

section \<open>C integers\<close>

definition c_int :: "int \<Rightarrow> int" where
  "c_int x = (x + 2147483648) mod 4294967296 - 2147483648"

abbreviation INT_MAX :: int where
  "INT_MAX \<equiv> 2147483647"

definition is_int :: "int \<Rightarrow> bool" where
  "is_int x \<longleftrightarrow> - 2147483648 \<le> x \<and> x \<le> INT_MAX"

definition c_uint :: "int \<Rightarrow> int" where
  "c_uint x = x mod 4294967296"

lemma c_int_id [simp]: "is_int x \<Longrightarrow> c_int x = x"
  by (simp add: c_int_def is_int_def)

lemma c_int_range: "is_int (c_int x)"
  by (simp add: c_int_def is_int_def)

lemma c_int_bounds: "- 2147483648 \<le> c_int x" "c_int x \<le> INT_MAX"
  using c_int_range [of x] by (auto simp: is_int_def)

lemma c_int_eq: "- 2147483648 \<le> x \<Longrightarrow> x \<le> INT_MAX \<Longrightarrow> c_int x = x"
  by (simp add: is_int_def)

lemma c_int_wrap: "INT_MAX < x \<Longrightarrow> x \<le> 4294967295 \<Longrightarrow> c_int x < 0"
proof -
  assume x: "INT_MAX < x" "x \<le> 4294967295"
  have "(x + 2147483648) mod 4294967296 = (x + 2147483648 - 4294967296) mod 4294967296"
    by (rule minus_mod_self2 [symmetric])
  also have "\<dots> = x + 2147483648 - 4294967296"
    using x by (intro mod_pos_pos_trivial) auto
  finally show ?thesis using x by (simp add: c_int_def)
qed

definition json_max :: "int \<Rightarrow> int \<Rightarrow> int" where
  "json_max a b = (if a > b then a else b)"

definition json_min :: "int \<Rightarrow> int \<Rightarrow> int" where
  "json_min a b = (if a < b then a else b)"

section \<open>Bytes and memory blocks\<close>

text \<open>A byte of memory that was never written is \<open>None\<close>.\<close>

type_synonym block = "char option list"

abbreviation NUL :: char where
  "NUL \<equiv> CHR 0x00"

definition realloc_block :: "block \<Rightarrow> int \<Rightarrow> block" where
  "realloc_block b n = take (nat n) b @ replicate (nat n - length b) None"

definition memcpy_to :: "block \<Rightarrow> int \<Rightarrow> char list \<Rightarrow> int \<Rightarrow> block option" where
  "memcpy_to dst off src n =
     (if 0 \<le> n \<and> n \<le> int (length src) \<and> 0 \<le> off \<and> off + n \<le> int (length dst)
      then Some (take (nat off) dst @ map Some (take (nat n) src) @ drop (nat off + nat n) dst)
      else None)"

definition store_byte :: "block \<Rightarrow> int \<Rightarrow> char \<Rightarrow> block option" where
  "store_byte b i c =
     (if 0 \<le> i \<and> i < int (length b) then Some (b[nat i := Some c]) else None)"

lemma length_realloc_block [simp]: "length (realloc_block b n) = nat n"
  by (simp add: realloc_block_def)

lemma take_realloc_block: "int k \<le> n \<Longrightarrow> k \<le> length b \<Longrightarrow> take k (realloc_block b n) = take k b"
  by (simp add: realloc_block_def)

lemma length_memcpy_to: "memcpy_to dst off src n = Some d \<Longrightarrow> length d = length dst"
  by (auto simp: memcpy_to_def split: if_splits)

lemma length_store_byte: "store_byte b i c = Some d \<Longrightarrow> length d = length b"
  by (auto simp: store_byte_def split: if_splits)

section \<open>Generic lemmas\<close>

lemma bind_eq_Some_iff [simp]:
  "(m \<bind> f) = Some y \<longleftrightarrow> (\<exists>x. m = Some x \<and> f x = Some y)"
  by (cases m) auto

lemma bind_some [simp]: "Some x \<bind> f = f x"
  by simp

lemma nth_take_drop_update:
  "i < length xs \<Longrightarrow> take i xs @ [x] = take (Suc i) (xs[i := x])"
  by (simp add: take_Suc_conv_app_nth)

lemma map_the_Some [simp]: "map (the \<circ> Some) xs = xs"
  by (simp add: comp_def)

lemma list_all_Some_conv: "\<forall>x\<in>set xs. x \<noteq> None \<Longrightarrow> map Some (map the xs) = xs"
  by (induction xs) auto

lemma list_all2_right: "list_all2 P xs ys \<Longrightarrow> (\<And>x y. P x y \<Longrightarrow> Q y) \<Longrightarrow> \<forall>y\<in>set ys. Q y"
  by (induction rule: list_all2_induct) auto

text \<open>Characters as numbers, the view of C's \<open>unsigned char\<close>.\<close>

definition uchar :: "char \<Rightarrow> int" where
  "uchar c = of_char c"

lemma uchar_range: "0 \<le> uchar c" "uchar c < 256"
proof -
  have "uchar c = int (of_char c)" by (simp only: uchar_def of_nat_of_char)
  then show "0 \<le> uchar c" "uchar c < 256" by simp_all
qed

lemma uchar_inject [simp]: "uchar a = uchar b \<longleftrightarrow> a = b"
  by (simp add: uchar_def)

lemma char_of_uchar [simp]: "char_of (uchar c) = c"
  by (simp add: uchar_def)

section \<open>Decimal text\<close>

definition digit_char :: "int \<Rightarrow> char" where
  "digit_char d = ''0123456789'' ! nat d"

function digits :: "int \<Rightarrow> char list" where
  "digits n = (if n < 10 then [digit_char (n mod 10)] else digits (n div 10) @ [digit_char (n mod 10)])"
  by pat_completeness auto
termination by (relation "measure nat") auto

declare digits.simps [simp del]

text \<open>\<^verbatim>\<open>%d\<close> of \<^verbatim>\<open>printf\<close> and of \<^verbatim>\<open>sscanf\<close>.\<close>

definition int_text :: "int \<Rightarrow> char list" where
  "int_text i = (if i < 0 then CHR ''-'' # digits (- i) else digits i)"

section \<open>Loops over a list\<close>

text \<open>A loop whose body may fail: it stops at the first failure.\<close>

fun foldM :: "('s \<Rightarrow> 'e \<Rightarrow> 's option) \<Rightarrow> 's \<Rightarrow> 'e list \<Rightarrow> 's option" where
  "foldM f s [] = Some s"
| "foldM f s (x # xs) = f s x \<bind> (\<lambda>t. foldM f t xs)"

lemma foldM_append: "foldM f s (xs @ ys) = foldM f s xs \<bind> (\<lambda>t. foldM f t ys)"
  by (induction xs arbitrary: s) auto

lemma foldM_cong: "(\<And>s x. x \<in> set xs \<Longrightarrow> f s x = g s x) \<Longrightarrow> foldM f s xs = foldM g s xs"
  by (induction xs arbitrary: s) (auto intro!: Option.bind_cong)

lemma foldM_mono [partial_function_mono]:
  assumes "\<And>s x. mono_option (\<lambda>f. b f s x)"
  shows "mono_option (\<lambda>f. foldM (b f) s xs)"
proof (induction xs arbitrary: s)
  case Nil
  show ?case by (simp add: monotone_def flat_ord_def fun_ord_def)
next
  case (Cons x xs)
  show ?case unfolding foldM.simps by (rule bind_mono [OF assms Cons.IH])
qed

end
