(* ===== verification/PrintBuf.thy ===== *)
theory PrintBuf
  imports CPrelude
begin

text \<open>
  The growable output buffer of json-c (\<^verbatim>\<open>json-c/printbuf.c\<close>, \<^verbatim>\<open>json-c/printbuf.h\<close>).
  A buffer owns a block of \<open>psize\<close> bytes, of which the first \<open>bpos\<close> are the text printed so far.
  Allocations take a flag that says whether the C library grants them.
  The operations are followed by the invariant \<open>pb_wf\<close>, the effect of every operation on the text,
  and the interface \<open>append_sink\<close> that the printers and the tokener use.
\<close>

section \<open>Operations\<close>

record printbuf =
  buf :: block
  bpos :: int
  psize :: int

definition printbuf_new :: "bool \<Rightarrow> bool \<Rightarrow> printbuf option" where
  "printbuf_new ok1 ok2 =
     (if \<not> ok1 then None
      else if \<not> ok2 then None
      else Some \<lparr>buf = replicate 32 None, bpos = 0, psize = 32\<rparr>)"

text \<open>
  \<open>printbuf_memappend\<close> returns the buffer and the C return value; \<open>None\<close> is an access outside the
  block.  The flag is the outcome of \<^verbatim>\<open>realloc\<close>.
\<close>

definition printbuf_memappend :: "bool \<Rightarrow> printbuf \<Rightarrow> char list \<Rightarrow> int \<Rightarrow> (printbuf \<times> int) option" where
  "printbuf_memappend ok p data n =
     (let grow = (c_int (psize p - bpos p) \<le> n);
          new_size = json_max (c_int (psize p * 2)) (c_int (c_int (bpos p + n) + 8))
      in if grow \<and> \<not> ok then Some (p, - 1)
         else
           (let q = (if grow then p\<lparr>psize := new_size, buf := realloc_block (buf p) new_size\<rparr> else p)
            in do {
              b \<leftarrow> memcpy_to (buf q) (bpos q) data n;
              let pos = c_int (bpos q + n);
              b' \<leftarrow> store_byte b pos NUL;
              Some (q\<lparr>buf := b', bpos := pos\<rparr>, n)
            }))"

text \<open>The macro \<^verbatim>\<open>printbuf_memappend_fast\<close> of the header, used by the tokener.\<close>

definition printbuf_memappend_fast :: "bool \<Rightarrow> printbuf \<Rightarrow> char list \<Rightarrow> int \<Rightarrow> printbuf option" where
  "printbuf_memappend_fast ok p data n =
     (if c_int (psize p - bpos p) > n
      then do {
        b \<leftarrow> memcpy_to (buf p) (bpos p) data n;
        let pos = c_int (bpos p + n);
        b' \<leftarrow> store_byte b pos NUL;
        Some (p\<lparr>buf := b', bpos := pos\<rparr>)
      }
      else map_option fst (printbuf_memappend ok p data n))"

text \<open>
  \<open>vasprintf\<close>: the replacement for the missing library function; \<open>msg\<close> is what the format and its
  arguments print.  The result is the allocated text, or \<open>None\<close> for the return value \<open>-1\<close>.
\<close>

definition vasprintf :: "bool \<Rightarrow> char list \<Rightarrow> char list option" where
  "vasprintf ok msg = (if \<not> ok then None else Some msg)"

text \<open>
  \<open>sprintbuf\<close>: the stack buffer holds 128 bytes; \<^verbatim>\<open>vsnprintf\<close> gives \<open>-1\<close> on a longer text and 128 on
  a text of exactly 128 bytes, and both go through \<open>vasprintf\<close>.
\<close>

definition vsnprintf128 :: "char list \<Rightarrow> int" where
  "vsnprintf128 msg = (if length msg > 128 then - 1 else int (length msg))"

definition sprintbuf :: "bool \<Rightarrow> bool \<Rightarrow> printbuf \<Rightarrow> char list \<Rightarrow> (printbuf \<times> int) option" where
  "sprintbuf ok1 ok2 p msg =
     (let n = vsnprintf128 msg
      in if n = - 1 \<or> n > 127
         then (case vasprintf ok1 msg of
                 None \<Rightarrow> Some (p, - 1)
               | Some t \<Rightarrow> do {
                   (q, _) \<leftarrow> printbuf_memappend ok2 p t (int (length t));
                   Some (q, int (length t))
                 })
         else do {
           (q, _) \<leftarrow> printbuf_memappend ok2 p msg n;
           Some (q, n)
         })"

definition printbuf_reset :: "printbuf \<Rightarrow> printbuf option" where
  "printbuf_reset p = do {
     b \<leftarrow> store_byte (buf p) 0 NUL;
     Some (p\<lparr>buf := b, bpos := 0\<rparr>)
   }"

section \<open>Invariant and text\<close>

text \<open>
  The block has the recorded size, the position is inside it, and every byte below the position
  has been written.
\<close>

definition pb_wf :: "printbuf \<Rightarrow> bool" where
  "pb_wf p \<longleftrightarrow> psize p = int (length (buf p)) \<and> psize p \<le> INT_MAX \<and>
     0 \<le> bpos p \<and> bpos p < psize p \<and> None \<notin> set (take (nat (bpos p)) (buf p))"

definition pb_text :: "printbuf \<Rightarrow> char list" where
  "pb_text p = map the (take (nat (bpos p)) (buf p))"

text \<open>The text is followed by a terminator, so that the block is a C string.\<close>

definition pb_terminated :: "printbuf \<Rightarrow> bool" where
  "pb_terminated p \<longleftrightarrow> buf p ! nat (bpos p) = Some NUL"

text \<open>There is room for \<open>n\<close> more bytes below the largest C integer.\<close>

definition pb_room :: "printbuf \<Rightarrow> nat \<Rightarrow> bool" where
  "pb_room p n \<longleftrightarrow> pb_wf p \<and> bpos p + int n + 8 \<le> INT_MAX"

lemma length_pb_text: "pb_wf p \<Longrightarrow> length (pb_text p) = nat (bpos p)"
  by (auto simp: pb_text_def pb_wf_def)

lemma pb_room_mono: "pb_room p n \<Longrightarrow> m \<le> n \<Longrightarrow> pb_room p m"
  by (simp add: pb_room_def)

lemma pb_room_wf: "pb_room p n \<Longrightarrow> pb_wf p"
  by (simp add: pb_room_def)

lemma printbuf_new_wf:
  "printbuf_new ok1 ok2 = Some p \<Longrightarrow> pb_wf p \<and> pb_text p = [] \<and> pb_room p 2147483639"
  by (auto simp: printbuf_new_def pb_wf_def pb_text_def pb_room_def split: if_splits)

text \<open>The heart of an append: copy, move the position, terminate.\<close>

lemma append_core:
  assumes wf: "psize q = int (length (buf q))" "psize q \<le> INT_MAX" "0 \<le> bpos q"
    "None \<notin> set (take (nat (bpos q)) (buf q))"
    and room: "bpos q + int (length data) < psize q"
  shows "\<exists>b b'. memcpy_to (buf q) (bpos q) data (int (length data)) = Some b \<and>
     store_byte b (bpos q + int (length data)) NUL = Some b' \<and>
     (let r = q\<lparr>buf := b', bpos := bpos q + int (length data)\<rparr> in
        pb_wf r \<and> pb_text r = map the (take (nat (bpos q)) (buf q)) @ data \<and> pb_terminated r)"
proof -
  let ?k = "nat (bpos q)" and ?n = "length data"
  let ?b = "take ?k (buf q) @ map Some data @ drop (?k + ?n) (buf q)"
  have len: "length ?b = length (buf q)" and k: "?k + ?n < length (buf q)"
    using wf room by auto
  have b: "memcpy_to (buf q) (bpos q) data (int ?n) = Some ?b"
    using wf room by (simp add: memcpy_to_def)
  let ?b' = "?b[?k + ?n := Some NUL]"
  have pos: "nat (bpos q + int ?n) = ?k + ?n" using wf by simp
  have b': "store_byte ?b (bpos q + int ?n) NUL = Some ?b'"
    using wf room k len by (simp add: store_byte_def pos)
  have tk: "take (?k + ?n) ?b' = take ?k (buf q) @ map Some data"
    using k by simp
  show ?thesis
    by (intro exI [of _ ?b] exI [of _ ?b'] conjI b b')
      (use wf room k len tk in \<open>auto simp: Let_def pb_wf_def pb_text_def pb_terminated_def pos\<close>)
qed

text \<open>The size the buffer grows to; both terms of the maximum may win, the first may wrap.\<close>

lemma new_size_big:
  assumes "pb_wf p" "bpos p + n + 8 \<le> INT_MAX" "0 \<le> n"
  defines "ns \<equiv> json_max (c_int (psize p * 2)) (c_int (c_int (bpos p + n) + 8))"
  shows "bpos p + n + 8 \<le> ns" "ns \<le> INT_MAX" "2 * psize p \<le> INT_MAX \<Longrightarrow> 2 * psize p \<le> ns"
proof -
  have e: "c_int (c_int (bpos p + n) + 8) = bpos p + n + 8"
    using assms(1-3) by (simp add: pb_wf_def c_int_eq)
  have m: "c_int (psize p * 2) \<le> INT_MAX" by (rule c_int_bounds)
  show "bpos p + n + 8 \<le> ns" "ns \<le> INT_MAX"
    using assms(2) m by (auto simp: ns_def e json_max_def)
  assume "2 * psize p \<le> INT_MAX"
  then have "c_int (psize p * 2) = 2 * psize p"
    using assms(1) by (simp add: pb_wf_def c_int_eq)
  then show "2 * psize p \<le> ns" by (simp add: ns_def json_max_def)
qed

lemma memappend_ok:
  assumes room: "pb_room p (length data)"
  shows "\<exists>q. printbuf_memappend True p data (int (length data)) = Some (q, int (length data)) \<and>
     pb_wf q \<and> pb_terminated q \<and> pb_text q = pb_text p @ data \<and>
     bpos q = bpos p + int (length data)"
proof -
  let ?n = "int (length data)"
  define ns where "ns = json_max (c_int (psize p * 2)) (c_int (c_int (bpos p + ?n) + 8))"
  define q where "q = (if psize p - bpos p \<le> ?n
    then p\<lparr>psize := ns, buf := realloc_block (buf p) ns\<rparr> else p)"
  have wf: "pb_wf p" and lim: "bpos p + ?n + 8 \<le> INT_MAX"
    using room by (auto simp: pb_room_def)
  have ns: "bpos p + ?n + 8 \<le> ns" "ns \<le> INT_MAX"
    using new_size_big [OF wf lim] by (simp_all add: ns_def)
  have grow: "c_int (psize p - bpos p) = psize p - bpos p"
    and pos: "c_int (bpos p + ?n) = bpos p + ?n"
    using wf lim by (auto simp: pb_wf_def intro!: c_int_eq)
  have bq: "bpos q = bpos p" and tk: "take (nat (bpos p)) (buf q) = take (nat (bpos p)) (buf p)"
    using wf ns by (auto simp: q_def pb_wf_def take_realloc_block)
  have q: "psize q = int (length (buf q))" "psize q \<le> INT_MAX" "0 \<le> bpos q"
    "None \<notin> set (take (nat (bpos q)) (buf q))" "bpos q + ?n < psize q"
    using wf ns tk by (auto simp: pb_wf_def q_def)
  obtain b b' where b: "memcpy_to (buf q) (bpos q) data ?n = Some b"
    and b': "store_byte b (bpos q + ?n) NUL = Some b'"
    and r: "let r = q\<lparr>buf := b', bpos := bpos q + ?n\<rparr> in
        pb_wf r \<and> pb_text r = map the (take (nat (bpos q)) (buf q)) @ data \<and> pb_terminated r"
    using append_core [OF q(1-4) q(5)] by blast
  have "printbuf_memappend True p data ?n =
    (do { b \<leftarrow> memcpy_to (buf q) (bpos q) data ?n;
          b' \<leftarrow> store_byte b (c_int (bpos q + ?n)) NUL;
          Some (q\<lparr>buf := b', bpos := c_int (bpos q + ?n)\<rparr>, ?n) })"
    unfolding printbuf_memappend_def Let_def grow ns_def [symmetric] q_def by simp
  then have "printbuf_memappend True p data ?n = Some (q\<lparr>buf := b', bpos := bpos q + ?n\<rparr>, ?n)"
    using b b' by (simp add: bq pos)
  then show ?thesis
    using r unfolding Let_def bq by (auto simp: tk pb_text_def)
qed

text \<open>A refused allocation leaves the buffer and its text as they were.\<close>

lemma memappend_refused:
  "c_int (psize p - bpos p) \<le> n \<Longrightarrow> printbuf_memappend False p data n = Some (p, - 1)"
  by (simp add: printbuf_memappend_def)

text \<open>The block never shrinks, and doubles when it grows and the doubled size is an \<^verbatim>\<open>int\<close>.\<close>

lemma memappend_growth:
  assumes "pb_room p (length data)" "2 * psize p \<le> INT_MAX"
    and "printbuf_memappend True p data (int (length data)) = Some (q, r)"
  shows "if psize p - bpos p \<le> int (length data) then 2 * psize p \<le> psize q else psize q = psize p"
proof -
  have wf: "pb_wf p" and lim: "bpos p + int (length data) + 8 \<le> INT_MAX"
    using assms(1) by (auto simp: pb_room_def)
  have grow: "c_int (psize p - bpos p) = psize p - bpos p"
    using wf by (auto simp: pb_wf_def intro!: c_int_eq)
  show ?thesis
    using assms(3) new_size_big(3) [OF wf lim _ assms(2)]
    by (auto simp: printbuf_memappend_def Let_def grow split: if_splits)
qed

section \<open>One append operation\<close>

text \<open>
  The three ways the sources append text, seen as functions of the text alone: the function, the
  macro and the formatted print.  They have the same effect on the buffer.
\<close>

definition pb_append :: "printbuf \<Rightarrow> char list \<Rightarrow> printbuf option" where
  "pb_append p x = map_option fst (printbuf_memappend True p x (int (length x)))"

definition pb_fast :: "printbuf \<Rightarrow> char list \<Rightarrow> printbuf option" where
  "pb_fast p x = printbuf_memappend_fast True p x (int (length x))"

definition pb_print :: "printbuf \<Rightarrow> char list \<Rightarrow> printbuf option" where
  "pb_print p x = map_option fst (sprintbuf True True p x)"

lemma option_case_bind: "map_option g (m \<bind> f) = m \<bind> (\<lambda>x. map_option g (f x))"
  by (cases m) auto

lemma fast_eq_memappend:
  "printbuf_memappend_fast True p data n = map_option fst (printbuf_memappend True p data n)"
  by (simp add: printbuf_memappend_fast_def printbuf_memappend_def Let_def option_case_bind
      cong: if_cong)

lemma pb_fast_eq [simp]: "pb_fast p x = pb_append p x"
  by (simp add: pb_fast_def pb_append_def fast_eq_memappend)

lemma sprintbuf_eq:
  "sprintbuf True True p msg =
     printbuf_memappend True p msg (int (length msg)) \<bind> (\<lambda>(q, _). Some (q, int (length msg)))"
  by (cases "128 < length msg"; cases "printbuf_memappend True p msg (int (length msg))")
    (auto simp: sprintbuf_def vsnprintf128_def vasprintf_def Let_def)

lemma pb_print_eq [simp]: "pb_print p x = pb_append p x"
  by (cases "printbuf_memappend True p x (int (length x))")
    (auto simp: pb_print_def pb_append_def sprintbuf_eq)

lemma pb_append_room:
  assumes "pb_room p (length x + k)"
  shows "\<exists>q. pb_append p x = Some q \<and> pb_text q = pb_text p @ x \<and> pb_room q k \<and> pb_terminated q"
proof -
  have "pb_room p (length x)" using assms by (rule pb_room_mono) simp
  from memappend_ok [OF this] show ?thesis
    using assms by (auto simp: pb_append_def pb_room_def)
qed

lemma printbuf_reset_ok:
  assumes "pb_wf p"
  shows "\<exists>q. printbuf_reset p = Some q \<and> pb_text q = [] \<and> pb_room q 2147483639 \<and> pb_terminated q"
  using assms by (auto simp: printbuf_reset_def store_byte_def pb_wf_def pb_room_def pb_text_def
      pb_terminated_def)

section \<open>The interface of a text sink\<close>

text \<open>
  What a printer needs of its output: appending extends the text, as long as the room it was
  promised lasts.
\<close>

locale append_sink =
  fixes app :: "'s \<Rightarrow> char list \<Rightarrow> 's option"
    and text_of :: "'s \<Rightarrow> char list"
    and room :: "'s \<Rightarrow> nat \<Rightarrow> bool"
  assumes app_room: "room s (length x + k) \<Longrightarrow>
      \<exists>t. app s x = Some t \<and> text_of t = text_of s @ x \<and> room t k"
    and room_less: "room s n \<Longrightarrow> m \<le> n \<Longrightarrow> room s m"
begin

lemma foldM_room:
  "room s (length (concat xs) + k) \<Longrightarrow>
     \<exists>t. foldM app s xs = Some t \<and> text_of t = text_of s @ concat xs \<and> room t k"
proof (induction xs arbitrary: s)
  case Nil
  then show ?case by simp
next
  case (Cons x xs)
  from Cons.prems have "room s (length x + (length (concat xs) + k))"
    by (simp add: add.assoc)
  then obtain t where t: "app s x = Some t" "text_of t = text_of s @ x"
    "room t (length (concat xs) + k)"
    using app_room by blast
  with Cons.IH [OF t(3)] show ?case by auto
qed

lemma foldM_text:
  "room s (length (concat xs) + k) \<Longrightarrow> foldM app s xs = Some t \<Longrightarrow>
     text_of t = text_of s @ concat xs \<and> room t k"
  using foldM_room by fastforce

end

interpretation pbs: append_sink pb_append pb_text pb_room
  by unfold_locales (use pb_append_room in blast, rule pb_room_mono)

section \<open>What a buffer promises\<close>

text \<open>
  C22: A new buffer to which any pieces of text are appended, by the function or by the macro, holds
  exactly their concatenation: every copy stays inside the block through every growth, and the block
  keeps its invariant, as long as the text and its slack fit a C \<^verbatim>\<open>int\<close>.
\<close>

theorem printbuf_appends:
  assumes "printbuf_new True True = Some p" "int (length (concat xs)) + 8 \<le> INT_MAX"
  shows "\<exists>q. foldM pb_append p xs = Some q \<and> foldM pb_fast p xs = Some q \<and>
    pb_wf q \<and> pb_text q = concat xs"
proof -
  have "pb_text p = []" "pb_room p (length (concat xs) + 0)"
    using printbuf_new_wf [OF assms(1)] assms(2) by (auto intro: pb_room_mono)
  then obtain q where "foldM pb_append p xs = Some q" "pb_text q = concat xs" "pb_room q 0"
    using pbs.foldM_room by (metis append_Nil)
  moreover have "foldM pb_fast p xs = foldM pb_append p xs" for p
    by (induction xs arbitrary: p) auto
  ultimately show ?thesis using pb_room_wf by auto
qed

theorem printbuf_appends_witness:
  "\<exists>p q. printbuf_new True True = Some p \<and>
     foldM pb_append p [''some text that is longer '', ''than the thirty-two bytes of a new block''] = Some q \<and>
     pb_text q = ''some text that is longer than the thirty-two bytes of a new block''"
proof -
  obtain p where p: "printbuf_new True True = Some p" by (simp add: printbuf_new_def)
  show ?thesis
    using printbuf_appends [OF p, of "[''some text that is longer '', ''than the thirty-two bytes of a new block'']"] p
    by auto
qed

text \<open>
  The formatted print appends the whole message whatever its length, through the stack buffer
  when it is below 128 bytes and through the heap otherwise, and returns that length; if the heap
  refuses the long message nothing is printed and -1 is returned.
\<close>

theorem sprintbuf_prints:
  assumes "pb_room p (length msg)"
  shows "(\<exists>q. sprintbuf True True p msg = Some (q, int (length msg)) \<and> pb_wf q \<and> pb_terminated q \<and>
      pb_text q = pb_text p @ msg) \<and>
    sprintbuf False True p msg = (if length msg < 128 then sprintbuf True True p msg else Some (p, - 1))"
  using memappend_ok [OF assms]
  by (auto simp: sprintbuf_eq) (auto simp: sprintbuf_def vsnprintf128_def vasprintf_def Let_def)

theorem sprintbuf_prints_witness:
  "\<exists>p q. printbuf_new True True = Some p \<and> sprintbuf True True p (replicate 128 CHR ''x'') = Some (q, 128) \<and>
     pb_text q = replicate 128 CHR ''x'' \<and> sprintbuf False True p (replicate 128 CHR ''x'') = Some (p, - 1)"
proof -
  obtain p where p: "printbuf_new True True = Some p" by (simp add: printbuf_new_def)
  then have "pb_room p 128" "pb_text p = []" using printbuf_new_wf [OF p] pb_room_mono by auto
  then show ?thesis using sprintbuf_prints [of p "replicate 128 CHR ''x''"] p by auto
qed

end
