(* ===== verification/ArrayList.thy ===== *)
theory ArrayList
  imports CPrelude
begin

text \<open>
  The growable pointer array of json-c (\<^verbatim>\<open>json-c/arraylist.c\<close>).  An element is a pointer, \<open>None\<close>
  for \<^verbatim>\<open>NULL\<close>.  The callback \<^verbatim>\<open>free_fn\<close> is not run here: an operation returns the list of the
  elements it hands to the callback, in order, and the owner of the list (\<open>JsonObject\<close>) runs it.
\<close>

section \<open>Operations\<close>

record 'a array_list =
  array :: "'a option list"
  alen :: int
  asize :: int

definition ARRAY_LIST_DEFAULT_SIZE :: int where
  "ARRAY_LIST_DEFAULT_SIZE = 32"

definition array_list_new :: "bool \<Rightarrow> bool \<Rightarrow> 'a array_list option" where
  "array_list_new ok1 ok2 =
     (if \<not> ok1 then None
      else if \<not> ok2 then None
      else Some \<lparr>array = replicate (nat ARRAY_LIST_DEFAULT_SIZE) None, alen = 0,
                 asize = ARRAY_LIST_DEFAULT_SIZE\<rparr>)"

text \<open>A read of the array; \<open>None\<close> is a read outside the block.\<close>

definition arr_read :: "'a option list \<Rightarrow> int \<Rightarrow> 'a option option" where
  "arr_read xs i = (if 0 \<le> i \<and> i < int (length xs) then Some (xs ! nat i) else None)"

fun free_loop :: "'a option list \<Rightarrow> int \<Rightarrow> nat \<Rightarrow> 'a list option" where
  "free_loop xs i 0 = Some []"
| "free_loop xs i (Suc k) = do {
     e \<leftarrow> arr_read xs i;
     rest \<leftarrow> free_loop xs (c_int (i + 1)) k;
     Some ((case e of None \<Rightarrow> [] | Some v \<Rightarrow> [v]) @ rest)
   }"

definition array_list_free :: "'a array_list \<Rightarrow> 'a list option" where
  "array_list_free arr = free_loop (array arr) 0 (nat (alen arr))"

definition array_list_get_idx :: "'a array_list \<Rightarrow> int \<Rightarrow> 'a option option" where
  "array_list_get_idx arr i =
     (if i \<ge> alen arr then Some None else arr_read (array arr) i)"

text \<open>
  The growth of the array.  The byte count of \<^verbatim>\<open>realloc\<close> is taken modulo the 32-bit \<^verbatim>\<open>size_t\<close>; the
  new cells are set to zero, which fails when the granted block is too short.
\<close>

definition realloc_cells :: "int \<Rightarrow> nat" where
  "realloc_cells n = nat (c_uint (n * 4)) div 4"

definition array_list_expand_internal :: "bool \<Rightarrow> 'a array_list \<Rightarrow> int \<Rightarrow> ('a array_list \<times> int) option" where
  "array_list_expand_internal ok arr mx =
     (if mx < asize arr then Some (arr, 0)
      else
        (let new_size = json_max (c_int (asize arr * 2)) mx
         in if \<not> ok then Some (arr, - 1)
            else if realloc_cells new_size < nat new_size then None
            else Some (arr\<lparr>array := take (nat (asize arr)) (array arr) @
                              replicate (nat (new_size - asize arr)) None,
                           asize := new_size\<rparr>, 0)))"

text \<open>The result: the list, the elements handed to \<^verbatim>\<open>free_fn\<close>, and the return code.\<close>

definition array_list_put_idx ::
  "bool \<Rightarrow> 'a array_list \<Rightarrow> int \<Rightarrow> 'a option \<Rightarrow> ('a array_list \<times> 'a list \<times> int) option" where
  "array_list_put_idx ok arr idx data = do {
     (arr1, r) \<leftarrow> array_list_expand_internal ok arr idx;
     if r \<noteq> 0 then Some (arr1, [], - 1)
     else do {
       old \<leftarrow> arr_read (array arr1) idx;
       let arr2 = arr1\<lparr>array := (array arr1)[nat idx := data]\<rparr>;
       let arr3 = (if alen arr2 \<le> idx then arr2\<lparr>alen := c_int (idx + 1)\<rparr> else arr2);
       Some (arr3, (case old of None \<Rightarrow> [] | Some v \<Rightarrow> [v]), 0)
     }
   }"

definition array_list_add :: "bool \<Rightarrow> 'a array_list \<Rightarrow> 'a option \<Rightarrow> ('a array_list \<times> 'a list \<times> int) option" where
  "array_list_add ok arr data = array_list_put_idx ok arr (alen arr) data"

definition array_list_length :: "'a array_list \<Rightarrow> int" where
  "array_list_length arr = alen arr"

section \<open>Invariant and contents\<close>

text \<open>Above the length every cell is \<^verbatim>\<open>NULL\<close>; the block has the recorded size.\<close>

definition al_wf :: "'a array_list \<Rightarrow> bool" where
  "al_wf a \<longleftrightarrow> asize a = int (length (array a)) \<and> 32 \<le> asize a \<and> asize a < 2 ^ 30 \<and>
     0 \<le> alen a \<and> alen a \<le> asize a \<and> (\<forall>j. nat (alen a) \<le> j \<and> j < length (array a) \<longrightarrow> array a ! j = None)"

definition al_list :: "'a array_list \<Rightarrow> 'a option list" where
  "al_list a = take (nat (alen a)) (array a)"

lemma al_new_wf: "array_list_new ok1 ok2 = Some a \<Longrightarrow> al_wf a \<and> al_list a = []"
  by (auto simp: array_list_new_def al_wf_def al_list_def ARRAY_LIST_DEFAULT_SIZE_def
      split: if_splits)

lemma length_al_list: "al_wf a \<Longrightarrow> length (al_list a) = nat (alen a)"
  by (auto simp: al_wf_def al_list_def)

text \<open>The specification of \<open>array_list_put_idx\<close>: pad with \<^verbatim>\<open>NULL\<close> up to the index and store.\<close>

definition put_spec :: "'a option list \<Rightarrow> nat \<Rightarrow> 'a option \<Rightarrow> 'a option list" where
  "put_spec xs i d = (xs @ replicate (Suc i - length xs) None)[i := d]"

lemma realloc_cells_small: "0 \<le> n \<Longrightarrow> n < 2 ^ 30 \<Longrightarrow> realloc_cells n = nat n"
  by (simp add: realloc_cells_def c_uint_def nat_mult_distrib)

lemma expand_wf:
  assumes wf: "al_wf a" and mx: "mx < 2 * asize a" "2 * asize a < 2 ^ 30"
  shows "\<exists>b. array_list_expand_internal True a mx = Some (b, 0) \<and> al_wf b \<and> mx < asize b \<and>
     alen b = alen a \<and> al_list b = al_list a \<and> asize a \<le> asize b"
proof (cases "mx < asize a")
  case True
  then show ?thesis using wf by (simp add: array_list_expand_internal_def)
next
  case False
  have sz: "c_int (asize a * 2) = 2 * asize a"
    using wf mx by (simp add: al_wf_def c_int_eq)
  have ns: "json_max (c_int (asize a * 2)) mx = 2 * asize a"
    using mx sz by (simp add: json_max_def)
  have len: "length (array a) = nat (asize a)" using wf by (simp add: al_wf_def)
  let ?b = "a\<lparr>array := array a @ replicate (nat (asize a)) None, asize := 2 * asize a\<rparr>"
  have "array_list_expand_internal True a mx = Some (?b, 0)"
    using False ns mx wf len by (simp add: array_list_expand_internal_def realloc_cells_small al_wf_def)
  moreover have "al_wf ?b" "al_list ?b = al_list a"
    using wf mx len by (auto simp: al_wf_def al_list_def nth_append)
  ultimately show ?thesis using wf mx by (auto simp: al_wf_def)
qed

section \<open>Effect of a store\<close>

lemma store_spec:
  assumes wf: "al_wf b" and i: "0 \<le> idx" "idx < asize b"
  defines "n \<equiv> (if alen b \<le> idx then idx + 1 else alen b)"
  shows "take (nat n) ((array b)[nat idx := d]) = put_spec (al_list b) (nat idx) d" (is ?t)
    and "al_wf (b\<lparr>array := (array b)[nat idx := d], alen := n\<rparr>)" (is ?w)
proof -
  let ?l = "nat (alen b)" and ?i = "nat idx"
  have len: "?l \<le> length (array b)" "?i < length (array b)"
    using wf i by (auto simp: al_wf_def)
  have above: "array b ! j = None" if "?l \<le> j" "j < length (array b)" for j
    using wf that by (simp add: al_wf_def)
  have nn: "nat n = max ?l (Suc ?i)"
    using i wf by (auto simp: n_def al_wf_def)
  show ?t
  proof (rule nth_equalityI)
    show "length (take (nat n) ((array b)[?i := d])) = length (put_spec (al_list b) ?i d)"
      using len by (simp add: nn put_spec_def al_list_def min_def max_def)
    fix j assume "j < length (take (nat n) ((array b)[?i := d]))"
    then have j: "j < max ?l (Suc ?i)" "j < length (array b)"
      by (simp_all add: nn)
    then show "take (nat n) ((array b)[?i := d]) ! j = put_spec (al_list b) ?i d ! j"
      using len above [of j] unfolding nn
      by (auto simp: put_spec_def al_list_def nth_append nth_list_update max_def split: if_splits)
  qed
  show ?w
    using wf i above by (auto simp: al_wf_def n_def nth_list_update)
qed

text \<open>The elements a store at \<open>i\<close> hands to the callback.\<close>

definition freed_at :: "'a option list \<Rightarrow> nat \<Rightarrow> 'a list" where
  "freed_at xs i = (if i < length xs then (case xs ! i of None \<Rightarrow> [] | Some v \<Rightarrow> [v]) else [])"

lemma al_read:
  assumes "al_wf b" "0 \<le> idx" "idx < asize b"
  shows "arr_read (array b) idx =
    Some (if nat idx < length (al_list b) then al_list b ! nat idx else None)"
proof -
  have "nat idx < length (array b)" "int (length (array b)) = asize b"
    using assms by (auto simp: al_wf_def)
  moreover have "nat (alen b) \<le> nat idx \<Longrightarrow> array b ! nat idx = None"
    using assms by (auto simp: al_wf_def)
  ultimately show ?thesis
    using assms by (auto simp: arr_read_def al_list_def not_less)
qed

lemma put_idx_ok:
  assumes wf: "al_wf a" and i: "0 \<le> idx" "idx < 2 * asize a" and lim: "2 * asize a < 2 ^ 30"
  shows "\<exists>b. array_list_put_idx True a idx d = Some (b, freed_at (al_list a) (nat idx), 0) \<and> al_wf b \<and>
     al_list b = put_spec (al_list a) (nat idx) d"
proof -
  obtain b where b: "array_list_expand_internal True a idx = Some (b, 0)" "al_wf b"
    "idx < asize b" "alen b = alen a" "al_list b = al_list a"
    using expand_wf [OF wf i(2) lim] by blast
  let ?n = "if alen b \<le> idx then idx + 1 else alen b"
  let ?c = "b\<lparr>array := (array b)[nat idx := d], alen := ?n\<rparr>"
  have n: "c_int (idx + 1) = idx + 1"
    using i lim by (intro c_int_eq) auto
  have "array_list_put_idx True a idx d = Some (?c, freed_at (al_list a) (nat idx), 0)"
    using b(1,3,5) al_read [OF b(2) i(1) b(3)]
    by (simp add: array_list_put_idx_def freed_at_def n Let_def)
  moreover have "al_list ?c = put_spec (al_list a) (nat idx) d" "al_wf ?c"
    using store_spec [OF b(2) i(1) b(3)] b(5) by (simp_all add: al_list_def)
  ultimately show ?thesis by blast
qed

text \<open>Outside that range the store leaves the block: the growth makes room for \<open>idx\<close> cells only.\<close>

lemma put_idx_out:
  assumes wf: "al_wf a" and i: "idx < 0 \<or> 2 * asize a \<le> idx" and lim: "2 * asize a < 2 ^ 30"
  shows "array_list_put_idx True a idx d = None"
proof (cases "idx < 0")
  case True
  then show ?thesis
    using wf by (simp add: array_list_put_idx_def array_list_expand_internal_def arr_read_def al_wf_def)
next
  case False
  have sz: "c_int (asize a * 2) = 2 * asize a"
    using wf lim by (simp add: al_wf_def c_int_eq)
  have ns: "json_max (c_int (asize a * 2)) idx = idx"
    using i False sz by (simp add: json_max_def)
  have sz: "asize a = int (length (array a))" and "asize a \<le> idx"
    using i False wf by (auto simp: al_wf_def)
  with ns show ?thesis
    by (simp add: array_list_put_idx_def array_list_expand_internal_def arr_read_def Let_def)
qed

lemma put_idx_safe_iff:
  assumes "al_wf a" "2 * asize a < 2 ^ 30"
  shows "array_list_put_idx True a idx d \<noteq> None \<longleftrightarrow> 0 \<le> idx \<and> idx < 2 * asize a"
  using put_idx_ok [OF assms(1) _ _ assms(2), of idx d] put_idx_out [OF assms(1) _ assms(2), of idx d]
  by fastforce

lemma add_ok:
  assumes wf: "al_wf a" and lim: "2 * asize a < 2 ^ 30"
  shows "\<exists>b. array_list_add True a d = Some (b, [], 0) \<and> al_wf b \<and> al_list b = al_list a @ [d]"
proof -
  have i: "0 \<le> alen a" "alen a < 2 * asize a" using wf by (auto simp: al_wf_def)
  have "freed_at (al_list a) (nat (alen a)) = []"
    "put_spec (al_list a) (nat (alen a)) d = al_list a @ [d]"
    using length_al_list [OF wf] by (simp_all add: freed_at_def put_spec_def list_update_append)
  then show ?thesis
    using put_idx_ok [OF wf i lim, of d] by (simp add: array_list_add_def)
qed

text \<open>Reads: past the end \<^verbatim>\<open>NULL\<close>, inside the element; a negative index leaves the block.\<close>

lemma get_idx_wf:
  assumes "al_wf a"
  shows "array_list_get_idx a i =
    (if i < 0 then None
     else Some (if i < alen a then al_list a ! nat i else None))"
  using assms by (auto simp: array_list_get_idx_def arr_read_def al_wf_def al_list_def)

lemma free_loop_drop:
  "int (j + k) \<le> INT_MAX \<Longrightarrow> j + k \<le> length xs \<Longrightarrow>
     free_loop xs (int j) k = Some (List.map_filter id (take k (drop j xs)))"
proof (induction k arbitrary: j)
  case 0
  then show ?case by (simp add: List.map_filter_def)
next
  case (Suc k)
  have "c_int (int j + 1) = int (Suc j)" using Suc.prems by (simp add: c_int_eq)
  moreover have "take (Suc k) (drop j xs) = xs ! j # take k (drop (Suc j) xs)"
    using Suc.prems by (simp add: Cons_nth_drop_Suc [symmetric])
  ultimately show ?case
    using Suc.IH [of "Suc j"] Suc.prems
    by (auto simp: arr_read_def List.map_filter_def split: option.splits)
qed

lemma free_ok: "al_wf a \<Longrightarrow> array_list_free a = Some (List.map_filter id (al_list a))"
  using free_loop_drop [of 0 "nat (alen a)" "array a"]
  by (auto simp: array_list_free_def al_list_def al_wf_def)

section \<open>The interface of a growing array\<close>

text \<open>
  What the owner of a list relies on when it only appends and reads: as long as the room it was
  promised lasts, an append adds one element at the end and a read gives the element.
\<close>

locale growing_array =
  fixes add :: "'s \<Rightarrow> 'e \<Rightarrow> 's option"
    and get :: "'s \<Rightarrow> int \<Rightarrow> 'e option"
    and contents :: "'s \<Rightarrow> 'e list"
    and room :: "'s \<Rightarrow> nat \<Rightarrow> bool"
  assumes add_room: "room s (Suc k) \<Longrightarrow>
      \<exists>t. add s x = Some t \<and> contents t = contents s @ [x] \<and> room t k"
    and get_room: "room s k \<Longrightarrow> i < length (contents s) \<Longrightarrow> get s (int i) = Some (contents s ! i)"
begin

lemma adds_room:
  "room s (length xs + k) \<Longrightarrow> \<exists>t. foldM add s xs = Some t \<and> contents t = contents s @ xs \<and> room t k"
proof (induction xs arbitrary: s)
  case Nil
  then show ?case by simp
next
  case (Cons x xs)
  then obtain t where "add s x = Some t" "contents t = contents s @ [x]" "room t (length xs + k)"
    using add_room [of s "length xs + k" x] by auto
  with Cons.IH [of t] show ?case by auto
qed

lemma get_adds:
  assumes "room s (length xs + k)" "foldM add s xs = Some t" "i < length (contents s @ xs)"
  shows "get t (int i) = Some ((contents s @ xs) ! i)"
  using adds_room [OF assms(1)] assms(2,3) get_room [of t k i] by auto

end

text \<open>The array never has more than twice the cells it needs, which bounds the growth.\<close>

definition al_room :: "'a array_list \<Rightarrow> nat \<Rightarrow> bool" where
  "al_room a n \<longleftrightarrow> al_wf a \<and> (asize a = 32 \<or> asize a \<le> 2 * alen a) \<and> alen a + int n \<le> 2 ^ 27"

definition al_add :: "'a array_list \<Rightarrow> 'a option \<Rightarrow> 'a array_list option" where
  "al_add a x = map_option fst (array_list_add True a x)"

lemma add_tight:
  assumes wf: "al_wf a" and lim: "2 * asize a < 2 ^ 30" and b: "array_list_add True a x = Some (b, r)"
  shows "alen b = alen a + 1 \<and> (asize b = asize a \<or> alen a = asize a \<and> asize b = 2 * asize a)"
proof -
  have sz: "c_int (asize a * 2) = 2 * asize a" "c_int (alen a + 1) = alen a + 1"
    using wf lim by (simp_all add: al_wf_def c_int_eq)
  show ?thesis
  proof (cases "alen a < asize a")
    case True
    then show ?thesis using b sz
      by (auto simp: array_list_add_def array_list_put_idx_def array_list_expand_internal_def Let_def)
  next
    case False
    then have e: "alen a = asize a" using wf by (simp add: al_wf_def)
    have "json_max (2 * asize a) (asize a) = 2 * asize a"
      using wf by (simp add: al_wf_def json_max_def)
    then show ?thesis using b sz False e wf lim
      by (auto simp: array_list_add_def array_list_put_idx_def array_list_expand_internal_def Let_def
          al_wf_def split: if_splits)
  qed
qed

lemma al_add_room:
  assumes "al_room a (Suc k)"
  shows "\<exists>b. al_add a x = Some b \<and> al_list b = al_list a @ [x] \<and> al_room b k"
proof -
  have wf: "al_wf a" and lim: "2 * asize a < 2 ^ 30"
    using assms by (auto simp: al_room_def)
  obtain b where b: "array_list_add True a x = Some (b, [], 0)" "al_wf b" "al_list b = al_list a @ [x]"
    using add_ok [OF wf lim] by blast
  then show ?thesis
    using add_tight [OF wf lim b(1)] assms by (auto simp: al_add_def al_room_def)
qed

lemma al_get_room: "al_room a k \<Longrightarrow> i < length (al_list a) \<Longrightarrow> array_list_get_idx a (int i) = Some (al_list a ! i)"
  using length_al_list [of a] by (auto simp: al_room_def get_idx_wf)

interpretation al: growing_array al_add array_list_get_idx al_list al_room
  by unfold_locales (fact al_add_room, fact al_get_room)

section \<open>What a list promises\<close>

text \<open>
  C20: From an empty list, any number of appends up to \<open>2 ^ 27\<close> succeeds through every doubling of the
  array, none of them releases anything, and reading any index gives the element appended there.
\<close>

theorem array_list_appends:
  assumes "array_list_new True True = Some a" "length xs \<le> 2 ^ 27" "i < length xs"
  shows "\<exists>b. foldM al_add a xs = Some b \<and> al_list b = xs \<and> array_list_length b = int (length xs) \<and>
    array_list_get_idx b (int i) = Some (xs ! i)"
proof -
  have a: "al_room a (length xs + 0)" "al_list a = []"
    using al_new_wf [OF assms(1)] assms(1,2)
    by (auto simp: al_room_def array_list_new_def ARRAY_LIST_DEFAULT_SIZE_def)
  obtain b where b: "foldM al_add a xs = Some b" "al_list b = xs" "al_room b 0"
    using al.adds_room [OF a(1)] a(2) by auto
  moreover have "alen b = int (length xs)"
    using length_al_list [of b] b(2,3) by (auto simp: al_room_def al_wf_def)
  ultimately show ?thesis
    using al.get_adds [OF a(1) b(1), of i] a(2) assms(3) by (simp add: array_list_length_def)
qed

theorem array_list_appends_witness:
  "\<exists>a b. array_list_new True True = Some a \<and> foldM al_add a (replicate 100 (Some (7::nat))) = Some b \<and>
     array_list_get_idx b 99 = Some (Some 7)"
  using array_list_appends [OF _ , of _ "replicate 100 (Some (7::nat))" 99]
  by (fastforce simp: array_list_new_def)

text \<open>
  C21: A store at an index stays inside the array exactly when the index is non-negative and below
  twice the allocated size: the growth makes room for \<^verbatim>\<open>idx\<close> cells, one too few, when the doubled size
  does not reach past the index.  A store that stays inside pads the list with null up to the index
  and hands the element it replaces to the release callback.
\<close>

theorem array_list_put_idx_safe:
  assumes "al_wf a" "2 * asize a < 2 ^ 30"
  shows "if 0 \<le> idx \<and> idx < 2 * asize a
    then (\<exists>b. array_list_put_idx True a idx d = Some (b, freed_at (al_list a) (nat idx), 0) \<and> al_wf b \<and>
           al_list b = put_spec (al_list a) (nat idx) d)
    else array_list_put_idx True a idx d = None"
  using put_idx_ok [OF assms(1) _ _ assms(2)] put_idx_out [OF assms(1) _ assms(2)] by (simp add: not_less) force

theorem array_list_put_idx_safe_witness:
  "\<exists>a. array_list_new True True = Some (a :: nat array_list) \<and>
     array_list_put_idx True a 64 (Some 1) = None \<and>
     (\<exists>b. array_list_put_idx True a 63 (Some 1) = Some (b, [], 0) \<and>
        al_list b = replicate 63 None @ [Some 1])"
proof -
  obtain a :: "nat array_list" where a: "array_list_new True True = Some a" "asize a = 32"
    by (simp add: array_list_new_def ARRAY_LIST_DEFAULT_SIZE_def)
  show ?thesis
    using array_list_put_idx_safe [of a 64 "Some 1"] array_list_put_idx_safe [of a 63 "Some 1"]
      al_new_wf [OF a(1)] a
    by (auto simp: put_spec_def freed_at_def list_update_append numeral_eq_Suc)
qed

end
