(* ===== verification/LinkHash.thy ===== *)
theory LinkHash
  imports CPrelude "HOL-Library.Multiset"
begin

unbundle bit_operations_syntax

text \<open>
  The linked hash table of json-c (\<^verbatim>\<open>json-c/linkhash.c\<close>, \<^verbatim>\<open>json-c/linkhash.h\<close>): open addressing
  with linear probing, tombstones, and a doubly linked list through the slots that keeps the
  entries in insertion order.  A pointer to a slot is its index.  The loops of the code that have
  no bound of their own (\<^verbatim>\<open>while (1)\<close>) are partial functions: \<open>None\<close> is a run that does not
  return, or that leaves the table's block.

  The callback \<^verbatim>\<open>free_fn\<close> is not run here: the operations that call it return the entries they
  hand to it, in order, and the owner of the table (\<open>JsonObject\<close>) runs it on them.
\<close>

section \<open>Data\<close>

datatype 'k slot_key = LH_EMPTY | LH_FREED | LH_KEY 'k

record ('k, 'v) lh_entry =
  ek :: "'k slot_key"
  ev :: "'v option"
  enext :: "nat option"
  eprev :: "nat option"

record ('k, 'v) lh_table =
  lsize :: nat
  count :: nat
  collisions :: int
  resizes :: int
  lookups :: int
  inserts :: int
  deletes :: int
  head :: "nat option"
  tail :: "nat option"
  table :: "('k, 'v) lh_entry list"
  has_free_fn :: bool
  hash_fn :: "'k \<Rightarrow> int"
  equal_fn :: "'k \<Rightarrow> 'k \<Rightarrow> bool"

section \<open>Hash functions\<close>

definition LH_PRIME :: "32 word" where
  "LH_PRIME = 0x9e370001"

definition lh_ptr_hash :: "32 word \<Rightarrow> int" where
  "lh_ptr_hash k = uint (drop_bit 4 (k * LH_PRIME))"

definition lh_ptr_equal :: "32 word \<Rightarrow> 32 word \<Rightarrow> bool" where
  "lh_ptr_equal k1 k2 \<longleftrightarrow> k1 = k2"

text \<open>\<^verbatim>\<open>char\<close> is signed: a byte above 127 is sign-extended before it is added.\<close>

definition schar_word :: "char \<Rightarrow> 32 word" where
  "schar_word c = (if uchar c < 128 then word_of_int (uchar c) else word_of_int (uchar c - 256))"

fun lh_char_hash_loop :: "32 word \<Rightarrow> char list \<Rightarrow> 32 word" where
  "lh_char_hash_loop h [] = h"
| "lh_char_hash_loop h (c # cs) = lh_char_hash_loop (h * 129 + schar_word c + LH_PRIME) cs"

definition lh_char_hash :: "char list \<Rightarrow> int" where
  "lh_char_hash k = uint (lh_char_hash_loop 0 k)"

definition lh_char_equal :: "char list \<Rightarrow> char list \<Rightarrow> bool" where
  "lh_char_equal k1 k2 \<longleftrightarrow> k1 = k2"

section \<open>Operations\<close>

definition empty_entry :: "('k, 'v) lh_entry" where
  "empty_entry = \<lparr>ek = LH_EMPTY, ev = None, enext = None, eprev = None\<rparr>"

text \<open>
  The allocations end the process when refused (\<^verbatim>\<open>lh_abort\<close>), so a run that goes on had them granted, and only such
  runs are modelled.  That is also why \<open>lsize\<close> and \<open>count\<close> are natural numbers: an entry takes at least 16 bytes, so
  the array of a table has fewer than \<open>2 ^ 28\<close> entries in 32 bits of address space, and neither the
  \<^verbatim>\<open>int\<close>s \<^verbatim>\<open>size\<close> and \<^verbatim>\<open>count\<close> nor the \<^verbatim>\<open>t->size * 2\<close> of a growth overflow before \<^verbatim>\<open>calloc\<close> refuses.  A
  table of the model that is larger than that stands for no run of the program.
\<close>

definition lh_table_new ::
  "nat \<Rightarrow> bool \<Rightarrow> ('k \<Rightarrow> int) \<Rightarrow> ('k \<Rightarrow> 'k \<Rightarrow> bool) \<Rightarrow> ('k, 'v) lh_table" where
  "lh_table_new sz ff hf eq =
     \<lparr>lsize = sz, count = 0, collisions = 0, resizes = 0, lookups = 0, inserts = 0, deletes = 0,
      head = None, tail = None, table = replicate sz empty_entry,
      has_free_fn = ff, hash_fn = hf, equal_fn = eq\<rparr>"

definition lh_kchar_table_new :: "nat \<Rightarrow> bool \<Rightarrow> (char list, 'v) lh_table" where
  "lh_kchar_table_new sz ff = lh_table_new sz ff lh_char_hash lh_char_equal"

definition lh_kptr_table_new :: "nat \<Rightarrow> bool \<Rightarrow> (32 word, 'v) lh_table" where
  "lh_kptr_table_new sz ff = lh_table_new sz ff lh_ptr_hash lh_ptr_equal"

definition entry_at :: "('k, 'v) lh_entry list \<Rightarrow> nat \<Rightarrow> ('k, 'v) lh_entry option" where
  "entry_at tb n = (if n < length tb then Some (tb ! n) else None)"

definition next_slot :: "nat \<Rightarrow> nat \<Rightarrow> nat" where
  "next_slot sz n = (if Suc n = sz then 0 else Suc n)"

text \<open>The probe of an insertion: the first slot from \<open>n\<close> on that is empty or freed.\<close>

partial_function (option) probe_free ::
  "('k, 'v) lh_entry list \<Rightarrow> nat \<Rightarrow> nat \<Rightarrow> int \<Rightarrow> (nat \<times> int) option" where
  "probe_free tb sz n coll = do {
     e \<leftarrow> entry_at tb n;
     if ek e = LH_EMPTY \<or> ek e = LH_FREED then Some (n, coll)
     else probe_free tb sz (next_slot sz n) (c_int (coll + 1))
   }"

declare probe_free.simps [code]

definition upd_entry ::
  "('k, 'v) lh_entry list \<Rightarrow> nat \<Rightarrow> (('k, 'v) lh_entry \<Rightarrow> ('k, 'v) lh_entry) \<Rightarrow> ('k, 'v) lh_entry list option" where
  "upd_entry tb n f = (if n < length tb then Some (tb[n := f (tb ! n)]) else None)"

text \<open>The insertion after the load check: lines 130 to 153 of the source.\<close>

definition lh_insert_slot :: "('k, 'v) lh_table \<Rightarrow> 'k \<Rightarrow> 'v option \<Rightarrow> ('k, 'v) lh_table option" where
  "lh_insert_slot t k v =
     (if lsize t = 0 then None
      else do {
        let h = hash_fn t k;
        (n, coll) \<leftarrow> probe_free (table t) (lsize t) (nat (h mod int (lsize t))) (collisions t);
        tb1 \<leftarrow> upd_entry (table t) n (\<lambda>e. e\<lparr>ek := LH_KEY k, ev := v\<rparr>);
        let t1 = t\<lparr>collisions := coll, count := count t + 1\<rparr>;
        if head t = None
        then do {
          tb2 \<leftarrow> upd_entry tb1 n (\<lambda>e. e\<lparr>enext := None, eprev := None\<rparr>);
          Some (t1\<lparr>table := tb2, head := Some n, tail := Some n\<rparr>)
        }
        else do {
          lst \<leftarrow> tail t;
          tb2 \<leftarrow> upd_entry tb1 lst (\<lambda>e. e\<lparr>enext := Some n\<rparr>);
          tb3 \<leftarrow> upd_entry tb2 n (\<lambda>e. e\<lparr>eprev := Some lst, enext := None\<rparr>);
          Some (t1\<lparr>table := tb3, tail := Some n\<rparr>)
        }
      })"

text \<open>
  The load test \<^verbatim>\<open>t->count > t->size * 0.66\<close>.  The double nearest to 0.66 is above it, and the
  rounding of a product below \<open>2 ^ 31\<close> does not cross an integer, so the test is the rational one.
\<close>

definition lh_overloaded :: "('k, 'v) lh_table \<Rightarrow> bool" where
  "lh_overloaded t \<longleftrightarrow> 100 * count t > 66 * lsize t"

text \<open>The entries in list order, read along the \<^verbatim>\<open>next\<close> pointers.\<close>

partial_function (option) walk ::
  "('k, 'v) lh_entry list \<Rightarrow> nat option \<Rightarrow> ('k slot_key \<times> 'v option) list option" where
  "walk tb p = (case p of
     None \<Rightarrow> Some []
   | Some n \<Rightarrow> do {
       e \<leftarrow> entry_at tb n;
       rest \<leftarrow> walk tb (enext e);
       Some ((ek e, ev e) # rest)
     })"

declare walk.simps [code]

text \<open>
  The copy loop of a resize, over the insertion it calls.  The key of a chained slot is handed to
  the insertion as it is; a chained slot with a marker in place of a key does not occur.
\<close>

fun copy_entries ::
  "(('k, 'v) lh_table \<Rightarrow> 'k \<Rightarrow> 'v option \<Rightarrow> ('k, 'v) lh_table option) \<Rightarrow>
   ('k slot_key \<times> 'v option) list \<Rightarrow> ('k, 'v) lh_table \<Rightarrow> ('k, 'v) lh_table option" where
  "copy_entries ins [] t = Some t"
| "copy_entries ins ((LH_KEY k, v) # es) t = ins t k v \<bind> copy_entries ins es"
| "copy_entries ins (_ # es) t = None"

definition resize_by ::
  "(('k, 'v) lh_table \<Rightarrow> 'k \<Rightarrow> 'v option \<Rightarrow> ('k, 'v) lh_table option) \<Rightarrow>
   ('k, 'v) lh_table \<Rightarrow> nat \<Rightarrow> ('k, 'v) lh_table option" where
  "resize_by ins t new_size = do {
     es \<leftarrow> walk (table t) (head t);
     new_t \<leftarrow> copy_entries ins es (lh_table_new new_size False (hash_fn t) (equal_fn t));
     Some (t\<lparr>table := table new_t, lsize := new_size, head := head new_t, tail := tail new_t,
             resizes := c_int (resizes t + 1)\<rparr>)
   }"

lemma copy_entries_mono [partial_function_mono]:
  assumes "\<And>t k v. mono_option (\<lambda>f. ins f t k v)"
  shows "mono_option (\<lambda>f. copy_entries (ins f) es t)"
proof (induction es arbitrary: t)
  case Nil
  show ?case by (simp add: monotone_def flat_ord_def fun_ord_def)
next
  case (Cons e es)
  obtain a v where e: "e = (a, v)" by (cases e)
  show ?case
  proof (cases a)
    case (LH_KEY k)
    show ?thesis unfolding e LH_KEY copy_entries.simps
      by (rule bind_mono [OF assms Cons.IH])
  qed (simp_all add: e monotone_def flat_ord_def)
qed

lemma resize_by_mono [partial_function_mono]:
  assumes "\<And>t k v. mono_option (\<lambda>f. ins f t k v)"
  shows "mono_option (\<lambda>f. resize_by (ins f) t n)"
  unfolding resize_by_def
  by (intro bind_mono copy_entries_mono assms option.const_mono)

partial_function (option) lh_table_insert ::
  "('k, 'v) lh_table \<Rightarrow> 'k \<Rightarrow> 'v option \<Rightarrow> ('k, 'v) lh_table option" where
  "lh_table_insert t k v =
     (let t1 = t\<lparr>inserts := c_int (inserts t + 1)\<rparr>
      in (if lh_overloaded t1 then resize_by (\<lambda>t k v. lh_table_insert t k v) t1 (lsize t1 * 2) else Some t1)
           \<bind> (\<lambda>t2. lh_insert_slot t2 k v))"

declare lh_table_insert.simps [code]

definition lh_table_resize :: "('k, 'v) lh_table \<Rightarrow> nat \<Rightarrow> ('k, 'v) lh_table option" where
  "lh_table_resize t new_size = resize_by lh_table_insert t new_size"

text \<open>The entries a whole-table release hands to the callback.\<close>

definition lh_table_free :: "('k, 'v) lh_table \<Rightarrow> ('k slot_key \<times> 'v option) list option" where
  "lh_table_free t = do {
     es \<leftarrow> walk (table t) (head t);
     Some (if has_free_fn t then es else [])
   }"

partial_function (option) probe_key ::
  "('k \<Rightarrow> 'k \<Rightarrow> bool) \<Rightarrow> ('k, 'v) lh_entry list \<Rightarrow> nat \<Rightarrow> 'k \<Rightarrow> nat \<Rightarrow> nat option option" where
  "probe_key eq tb sz k n = do {
     e \<leftarrow> entry_at tb n;
     (case ek e of
        LH_EMPTY \<Rightarrow> Some None
      | LH_FREED \<Rightarrow> probe_key eq tb sz k (next_slot sz n)
      | LH_KEY k' \<Rightarrow> if eq k' k then Some (Some n) else probe_key eq tb sz k (next_slot sz n))
   }"

declare probe_key.simps [code]

text \<open>The slot of a key, if it has one, and the table with its lookup counter advanced.\<close>

definition lh_table_lookup_entry ::
  "('k, 'v) lh_table \<Rightarrow> 'k \<Rightarrow> (('k, 'v) lh_table \<times> nat option) option" where
  "lh_table_lookup_entry t k =
     (if lsize t = 0 then None
      else do {
        r \<leftarrow> probe_key (equal_fn t) (table t) (lsize t) k (nat (hash_fn t k mod int (lsize t)));
        Some (t\<lparr>lookups := c_int (lookups t + 1)\<rparr>, r)
      })"

definition lh_table_lookup ::
  "('k, 'v) lh_table \<Rightarrow> 'k \<Rightarrow> (('k, 'v) lh_table \<times> 'v option) option" where
  "lh_table_lookup t k = do {
     (t1, r) \<leftarrow> lh_table_lookup_entry t k;
     (case r of
        None \<Rightarrow> Some (t1, None)
      | Some n \<Rightarrow> do { e \<leftarrow> entry_at (table t1) n; Some (t1, ev e) })
   }"

text \<open>
  The removal of a slot, given by its index: the table, the entries handed to the callback, and
  the return code.  A pointer below the block has a negative index.
\<close>

definition lh_table_delete_entry ::
  "('k, 'v) lh_table \<Rightarrow> int \<Rightarrow> (('k, 'v) lh_table \<times> ('k \<times> 'v option) list \<times> int) option" where
  "lh_table_delete_entry t i =
     (if i < 0 then Some (t, [], - 2)
      else do {
        let n = nat i;
        e \<leftarrow> entry_at (table t) n;
        (case ek e of
           LH_EMPTY \<Rightarrow> Some (t, [], - 1)
         | LH_FREED \<Rightarrow> Some (t, [], - 1)
         | LH_KEY k \<Rightarrow> do {
             let freed = (if has_free_fn t then [(k, ev e)] else []);
             tb1 \<leftarrow> upd_entry (table t) n (\<lambda>e. e\<lparr>ev := None, ek := LH_FREED\<rparr>);
             (tb2, hd', tl') \<leftarrow>
               (if tail t = Some n \<and> head t = Some n then Some (tb1, None, None)
                else if head t = Some n then do {
                  nx \<leftarrow> enext (tb1 ! n);
                  tb2 \<leftarrow> upd_entry tb1 nx (\<lambda>e. e\<lparr>eprev := None\<rparr>);
                  Some (tb2, Some nx, tail t)
                }
                else if tail t = Some n then do {
                  pv \<leftarrow> eprev (tb1 ! n);
                  tb2 \<leftarrow> upd_entry tb1 pv (\<lambda>e. e\<lparr>enext := None\<rparr>);
                  Some (tb2, head t, Some pv)
                }
                else do {
                  pv \<leftarrow> eprev (tb1 ! n);
                  tb2 \<leftarrow> upd_entry tb1 pv (\<lambda>e. e\<lparr>enext := enext (tb1 ! n)\<rparr>);
                  nx \<leftarrow> enext (tb2 ! n);
                  tb3 \<leftarrow> upd_entry tb2 nx (\<lambda>e. e\<lparr>eprev := eprev (tb2 ! n)\<rparr>);
                  Some (tb3, head t, tail t)
                });
             tb4 \<leftarrow> upd_entry tb2 n (\<lambda>e. e\<lparr>enext := None, eprev := None\<rparr>);
             Some (t\<lparr>count := count t - 1, table := tb4, head := hd', tail := tl'\<rparr>, freed, 0)
           })
      })"

definition lh_table_delete ::
  "('k, 'v) lh_table \<Rightarrow> 'k \<Rightarrow> (('k, 'v) lh_table \<times> ('k \<times> 'v option) list \<times> int) option" where
  "lh_table_delete t k = do {
     (t1, r) \<leftarrow> lh_table_lookup_entry t k;
     (case r of
        None \<Rightarrow> Some (t1, [], - 1)
      | Some n \<Rightarrow> lh_table_delete_entry t1 (int n))
   }"

section \<open>Probe sequences\<close>

lemma nat_mod_length [simp]: "nat (h mod int (length xs)) < length xs \<longleftrightarrow> xs \<noteq> []"
  by (cases xs) (simp_all add: nat_less_iff del: of_nat_Suc)

lemma next_slot_mod: "n < sz \<Longrightarrow> next_slot sz n = Suc n mod sz"
  by (auto simp: next_slot_def)

lemma next_slot_less: "n < sz \<Longrightarrow> next_slot sz n < sz"
  by (auto simp: next_slot_def)

lemma slot_shift: "n < sz \<Longrightarrow> (next_slot sz n + d) mod sz = (n + Suc d) mod sz"
  by (simp add: next_slot_mod mod_add_left_eq)

text \<open>Every slot is met within one turn around the table.\<close>

lemma slot_reached: "(n::nat) < sz \<Longrightarrow> i < sz \<Longrightarrow> \<exists>d < sz. (n + d) mod sz = i"
  by (rule exI [of _ "(i + (sz - n)) mod sz"]) (simp add: mod_add_right_eq)

definition is_free :: "('k, 'v) lh_entry \<Rightarrow> bool" where
  "is_free e \<longleftrightarrow> ek e = LH_EMPTY \<or> ek e = LH_FREED"

lemma is_free_iff: "is_free e \<longleftrightarrow> (\<nexists>k. ek e = LH_KEY k)"
  by (cases "ek e") (auto simp: is_free_def)

lemma probe_free_dist:
  "n < length tb \<Longrightarrow> \<forall>d'<d. \<not> is_free (tb ! ((n + d') mod length tb)) \<Longrightarrow>
   is_free (tb ! ((n + d) mod length tb)) \<Longrightarrow>
   \<exists>c'. probe_free tb (length tb) n c = Some ((n + d) mod length tb, c')"
proof (induction d arbitrary: n c)
  case 0
  then show ?case
    by (simp add: probe_free.simps [of tb "length tb" n] entry_at_def is_free_def)
next
  case (Suc d)
  have "\<not> is_free (tb ! n)" using Suc.prems(1,2) by (metis add_0_right mod_less zero_less_Suc)
  then have "probe_free tb (length tb) n c =
      probe_free tb (length tb) (next_slot (length tb) n) (c_int (c + 1))"
    using Suc.prems(1) by (simp add: probe_free.simps [of tb "length tb" n] entry_at_def is_free_def)
  moreover have "\<exists>c'. probe_free tb (length tb) (next_slot (length tb) n) (c_int (c + 1)) =
      Some ((next_slot (length tb) n + d) mod length tb, c')"
    using Suc.prems by (intro Suc.IH) (auto simp: slot_shift next_slot_less simp del: add_Suc_right)
  ultimately show ?case using Suc.prems(1) by (simp add: slot_shift del: add_Suc_right)
qed

lemma probe_free_ok:
  assumes "n < length tb" "e \<in> set tb" "is_free e"
  shows "\<exists>d c'. probe_free tb (length tb) n c = Some ((n + d) mod length tb, c') \<and>
    is_free (tb ! ((n + d) mod length tb)) \<and> (\<forall>d'<d. \<not> is_free (tb ! ((n + d') mod length tb)))"
proof -
  let ?P = "\<lambda>d. is_free (tb ! ((n + d) mod length tb))"
  obtain i where "i < length tb" "tb ! i = e" using assms(2) by (auto simp: in_set_conv_nth)
  then obtain d where "?P d" using slot_reached [OF assms(1)] assms(3) by metis
  then have "?P (LEAST d. ?P d)" "\<forall>d'<(LEAST d. ?P d). \<not> ?P d'"
    by (rule LeastI, metis not_less_Least)
  then show ?thesis using probe_free_dist [OF assms(1)] by blast
qed

text \<open>On a table with no free slot the insertion probe does not return.\<close>

lemma probe_free_full:
  assumes "\<forall>e\<in>set tb. \<not> is_free e"
  shows "probe_free tb sz n c = None"
proof (rule ccontr)
  assume "probe_free tb sz n c \<noteq> None"
  then obtain r where ret: "probe_free tb sz n c = Some r" by blast
  have "fst r < length tb \<and> is_free (tb ! fst r)"
    by (rule probe_free.raw_induct [where P = "\<lambda>tb sz n c r. fst r < length tb \<and> is_free (tb ! fst r)",
          OF _ ret])
      (auto simp: entry_at_def is_free_def split: if_splits)
  then show False using assms by auto
qed

lemma probe_key_step:
  assumes "n < length tb" "ek (tb ! n) \<noteq> LH_EMPTY" "\<And>k'. ek (tb ! n) = LH_KEY k' \<Longrightarrow> \<not> eq k' k"
  shows "probe_key eq tb sz k n = probe_key eq tb sz k (next_slot sz n)"
  using assms by (cases "ek (tb ! n)") (simp_all add: probe_key.simps [of eq tb sz k n] entry_at_def)

text \<open>The lookup stops at the first slot that is empty or holds the key.\<close>

lemma probe_key_dist:
  "n < length tb \<Longrightarrow>
   \<forall>d'<d. ek (tb ! ((n + d') mod length tb)) \<notin> {LH_EMPTY, LH_KEY k} \<Longrightarrow>
   ek (tb ! ((n + d) mod length tb)) \<in> {LH_EMPTY, LH_KEY k} \<Longrightarrow>
   probe_key (=) tb (length tb) k n =
     Some (if ek (tb ! ((n + d) mod length tb)) = LH_EMPTY then None else Some ((n + d) mod length tb))"
proof (induction d arbitrary: n)
  case 0
  then show ?case by (auto simp: probe_key.simps [of "(=)" tb "length tb" k n] entry_at_def)
next
  case (Suc d)
  have "ek (tb ! n) \<notin> {LH_EMPTY, LH_KEY k}"
    using Suc.prems(1,2) by (metis add_0_right mod_less zero_less_Suc)
  then have "probe_key (=) tb (length tb) k n = probe_key (=) tb (length tb) k (next_slot (length tb) n)"
    using Suc.prems(1) by (intro probe_key_step) auto
  also have "\<dots> = Some (if ek (tb ! ((next_slot (length tb) n + d) mod length tb)) = LH_EMPTY then None
      else Some ((next_slot (length tb) n + d) mod length tb))"
    using Suc.prems by (intro Suc.IH) (auto simp: slot_shift next_slot_less simp del: add_Suc_right)
  finally show ?case using Suc.prems(1) by (simp add: slot_shift del: add_Suc_right)
qed

text \<open>With no empty slot and no slot that holds the key, the lookup does not return.\<close>

lemma probe_key_full:
  assumes "\<forall>e\<in>set tb. ek e \<noteq> LH_EMPTY" "\<forall>e\<in>set tb. \<forall>k'. ek e = LH_KEY k' \<longrightarrow> \<not> eq k' k"
  shows "probe_key eq tb sz k n = None"
proof (rule ccontr)
  assume "probe_key eq tb sz k n \<noteq> None"
  then obtain r where ret: "probe_key eq tb sz k n = Some r" by blast
  let ?P = "\<lambda>eq tb k. \<exists>e\<in>set tb. ek e = LH_EMPTY \<or> (\<exists>k'. ek e = LH_KEY k' \<and> eq k' k)"
  have "?P eq tb k"
    by (rule probe_key.raw_induct [where P = "\<lambda>eq tb sz k n r. ?P eq tb k", OF _ ret])
      (auto simp: entry_at_def split: if_splits slot_key.splits)
  then show False using assms by auto
qed

section \<open>The linked list\<close>

text \<open>\<open>chain f p xs\<close>: following \<open>f\<close> from the pointer \<open>p\<close> visits exactly \<open>xs\<close>.\<close>

fun chain :: "(nat \<Rightarrow> nat option) \<Rightarrow> nat option \<Rightarrow> nat list \<Rightarrow> bool" where
  "chain f p [] \<longleftrightarrow> p = None"
| "chain f p (i # xs) \<longleftrightarrow> p = Some i \<and> chain f (f i) xs"

lemma chain_cong: "(\<And>i. i \<in> set xs \<Longrightarrow> f i = g i) \<Longrightarrow> chain f p xs \<longleftrightarrow> chain g p xs"
  by (induction xs arbitrary: p) auto

lemma chain_snoc:
  "chain f p xs \<Longrightarrow> xs \<noteq> [] \<Longrightarrow> distinct xs \<Longrightarrow> n \<notin> set xs \<Longrightarrow>
   (\<And>i. i \<in> set xs \<Longrightarrow> i \<noteq> last xs \<Longrightarrow> g i = f i) \<Longrightarrow> g (last xs) = Some n \<Longrightarrow> g n = None \<Longrightarrow>
   chain g p (xs @ [n])"
proof (induction xs arbitrary: p)
  case (Cons i xs)
  show ?case
  proof (cases "xs = []")
    case True
    then show ?thesis using Cons.prems by simp
  next
    case False
    then have "i \<noteq> last xs" using Cons.prems(3) by (metis distinct.simps(2) last_in_set)
    then have "g i = f i" using Cons.prems(5) [of i] False by simp
    then show ?thesis using Cons False by simp
  qed
qed simp

lemma chain_remove:
  "chain f p (xs @ n # ys) \<Longrightarrow> xs \<noteq> [] \<Longrightarrow> distinct (xs @ n # ys) \<Longrightarrow>
   (\<And>i. i \<in> set xs \<union> set ys \<Longrightarrow> i \<noteq> last xs \<Longrightarrow> g i = f i) \<Longrightarrow> g (last xs) = f n \<Longrightarrow>
   chain g p (xs @ ys)"
proof (induction xs arbitrary: p)
  case (Cons i xs)
  show ?case
  proof (cases "xs = []")
    case True
    have "chain g (f n) ys \<longleftrightarrow> chain f (f n) ys"
      using Cons.prems True by (intro chain_cong) auto
    then show ?thesis using Cons.prems True by simp
  next
    case False
    then have "i \<noteq> last xs" using Cons.prems(3) by (metis append_Cons distinct.simps(2) last_in_set set_append UnI1)
    then have "g i = f i" using Cons.prems(4) [of i] False by simp
    then show ?thesis using Cons False by simp
  qed
qed simp

lemma chain_last: "chain f p (xs @ [i]) \<Longrightarrow> f i = None"
  by (induction xs arbitrary: p) auto

lemma chain_next: "chain f p (xs @ i # j # ys) \<Longrightarrow> f i = Some j"
  by (induction xs arbitrary: p) auto

lemma chain_head: "chain f p xs \<Longrightarrow> p = (if xs = [] then None else Some (hd xs))"
  by (cases xs) auto

section \<open>The invariant\<close>

definition reaches :: "('k, 'v) lh_entry list \<Rightarrow> nat \<Rightarrow> nat \<Rightarrow> bool" where
  "reaches tb n i \<longleftrightarrow> (\<exists>d. (n + d) mod length tb = i \<and>
     (\<forall>d'<d. ek (tb ! ((n + d') mod length tb)) \<noteq> LH_EMPTY))"

abbreviation home :: "('k, 'v) lh_table \<Rightarrow> 'k \<Rightarrow> nat" where
  "home t k \<equiv> nat (hash_fn t k mod int (lsize t))"

definition key_at :: "('k, 'v) lh_entry list \<Rightarrow> nat \<Rightarrow> 'k" where
  "key_at tb i = (case ek (tb ! i) of LH_KEY k \<Rightarrow> k)"

text \<open>
  The list \<open>ord\<close> of occupied slots is the doubly linked list; the count is its length; every key
  is found by probing from its home slot without meeting an empty one; keys are pairwise distinct
  and compared by equality, as in both kinds of table the library makes.
\<close>

definition lh_inv :: "('k, 'v) lh_table \<Rightarrow> nat list \<Rightarrow> bool" where
  "lh_inv t ord \<longleftrightarrow>
     lsize t = length (table t) \<and> 0 < lsize t \<and> equal_fn t = (=) \<and> distinct ord \<and>
     (\<forall>i. i \<in> set ord \<longleftrightarrow> i < length (table t) \<and> (\<exists>k. ek (table t ! i) = LH_KEY k)) \<and>
     chain (\<lambda>i. enext (table t ! i)) (head t) ord \<and>
     chain (\<lambda>i. eprev (table t ! i)) (tail t) (rev ord) \<and>
     count t = length ord \<and>
     (\<forall>i\<in>set ord. reaches (table t) (home t (key_at (table t) i)) i) \<and>
     inj_on (key_at (table t)) (set ord)"

definition entry_of :: "('k, 'v) lh_entry list \<Rightarrow> nat \<Rightarrow> 'k \<times> 'v option" where
  "entry_of tb i = (key_at tb i, ev (tb ! i))"

text \<open>The abstraction: the association list of the entries in insertion order.\<close>

definition lh_abs :: "('k, 'v) lh_table \<Rightarrow> ('k \<times> 'v option) list \<Rightarrow> bool" where
  "lh_abs t al \<longleftrightarrow> (\<exists>ord. lh_inv t ord \<and> al = map (entry_of (table t)) ord)"

text \<open>What no operation changes, and the absence of tombstones.\<close>

definition same_cfg :: "('k, 'v) lh_table \<Rightarrow> ('k, 'v) lh_table \<Rightarrow> bool" where
  "same_cfg t u \<longleftrightarrow> hash_fn u = hash_fn t \<and> equal_fn u = equal_fn t \<and> has_free_fn u = has_free_fn t"

definition lh_clean :: "('k, 'v) lh_table \<Rightarrow> bool" where
  "lh_clean t \<longleftrightarrow> (\<forall>e\<in>set (table t). ek e \<noteq> LH_FREED)"

lemma key_at_simp: "ek (tb ! i) = LH_KEY k \<Longrightarrow> key_at tb i = k"
  by (simp add: key_at_def)

lemma same_cfg_refl [simp]: "same_cfg t t"
  by (simp add: same_cfg_def)

lemma same_cfg_trans: "same_cfg t u \<Longrightarrow> same_cfg u v \<Longrightarrow> same_cfg t v"
  by (simp add: same_cfg_def)

text \<open>The parts of the invariant the proofs take one at a time.\<close>

lemma lh_inv_size: "lh_inv t ord \<Longrightarrow> lsize t = length (table t) \<and> 0 < length (table t)"
  by (auto simp: lh_inv_def)

lemma lh_inv_eq: "lh_inv t ord \<Longrightarrow> equal_fn t = (=)"
  by (simp add: lh_inv_def)

lemma lh_inv_key: "lh_inv t ord \<Longrightarrow> i \<in> set ord \<Longrightarrow> ek (table t ! i) = LH_KEY (key_at (table t) i)"
  by (auto simp: lh_inv_def key_at_def)

lemma lh_inv_bound: "lh_inv t ord \<Longrightarrow> i \<in> set ord \<Longrightarrow> i < length (table t)"
  by (simp add: lh_inv_def)

lemma lh_inv_occ: "lh_inv t ord \<Longrightarrow> i < length (table t) \<Longrightarrow> ek (table t ! i) = LH_KEY k \<Longrightarrow> i \<in> set ord"
  by (simp add: lh_inv_def)

lemma lh_inv_inj: "lh_inv t ord \<Longrightarrow> inj_on (key_at (table t)) (set ord)"
  by (simp add: lh_inv_def)

lemma lh_inv_reach: "lh_inv t ord \<Longrightarrow> i \<in> set ord \<Longrightarrow>
    reaches (table t) (home t (key_at (table t) i)) i"
  unfolding lh_inv_def by blast

lemma lh_inv_chains:
  assumes "lh_inv t ord"
  shows "chain (\<lambda>i. enext (table t ! i)) (head t) ord" "chain (\<lambda>i. eprev (table t ! i)) (tail t) (rev ord)"
    "distinct ord"
  using assms by (simp_all add: lh_inv_def)

lemma lh_inv_home: "lh_inv t ord \<Longrightarrow> home t k < length (table t)"
  by (auto simp: lh_inv_def)

lemma lh_abs_distinct:
  assumes "lh_abs t al"
  shows "distinct (map fst al)"
proof -
  obtain ord where inv: "lh_inv t ord" and al: "al = map (entry_of (table t)) ord"
    using assms by (auto simp: lh_abs_def)
  have "map fst al = map (key_at (table t)) ord" by (simp add: al entry_of_def)
  then show ?thesis
    using lh_inv_inj [OF inv] lh_inv_chains(3) [OF inv] by (simp add: distinct_map)
qed

lemma lh_abs_count: "lh_abs t al \<Longrightarrow> count t = length al"
  by (auto simp: lh_abs_def lh_inv_def)

lemma lh_new_abs: "0 < sz \<Longrightarrow> lh_abs (lh_table_new sz ff hf (=)) []"
  by (auto simp: lh_abs_def lh_inv_def lh_table_new_def empty_entry_def)

lemma lh_new_clean: "lh_clean (lh_table_new sz ff hf eq)"
  by (simp add: lh_clean_def lh_table_new_def empty_entry_def)

text \<open>Following the list gives the entries.\<close>

lemma walk_chain:
  "chain (\<lambda>i. enext (tb ! i)) p xs \<Longrightarrow> \<forall>i\<in>set xs. i < length tb \<Longrightarrow>
     walk tb p = Some (map (\<lambda>i. (ek (tb ! i), ev (tb ! i))) xs)"
  by (induction xs arbitrary: p) (simp_all add: walk.simps entry_at_def)

lemma walk_abs:
  assumes "lh_abs t al"
  shows "walk (table t) (head t) = Some (map (\<lambda>(k, v). (LH_KEY k, v)) al)"
proof -
  obtain ord where inv: "lh_inv t ord" and al: "al = map (entry_of (table t)) ord"
    using assms by (auto simp: lh_abs_def)
  have "walk (table t) (head t) = Some (map (\<lambda>i. (ek (table t ! i), ev (table t ! i))) ord)"
    using inv by (intro walk_chain) (auto simp: lh_inv_def)
  moreover have "map (\<lambda>i. (ek (table t ! i), ev (table t ! i))) ord = map (\<lambda>(k, v). (LH_KEY k, v)) al"
    using inv by (auto simp: al entry_of_def lh_inv_def key_at_def split: slot_key.splits)
  ultimately show ?thesis by simp
qed

section \<open>Lookup\<close>

lemma reaches_bound: "0 < length tb \<Longrightarrow> reaches tb n i \<Longrightarrow> i < length tb"
  by (auto simp: reaches_def)

lemma lookup_hit:
  assumes inv: "lh_inv t ord" and i: "i \<in> set ord"
  shows "probe_key (=) (table t) (lsize t) (key_at (table t) i) (home t (key_at (table t) i)) = Some (Some i)"
proof -
  let ?tb = "table t" and ?k = "key_at (table t) i"
  have sz: "lsize t = length ?tb" "0 < length ?tb" using lh_inv_size [OF inv] by auto
  have ki: "ek (?tb ! i) = LH_KEY ?k" by (rule lh_inv_key [OF inv i])
  obtain d where d: "(home t ?k + d) mod length ?tb = i"
    "\<forall>d'<d. ek (?tb ! ((home t ?k + d') mod length ?tb)) \<noteq> LH_EMPTY"
    using lh_inv_reach [OF inv i] unfolding reaches_def by blast
  let ?Q = "\<lambda>d. (home t ?k + d) mod length ?tb = i"
  define m where "m = (LEAST d. ?Q d)"
  have m: "?Q m" unfolding m_def by (rule LeastI [of ?Q, OF d(1)])
  have md: "m \<le> d" unfolding m_def by (rule Least_le [of ?Q, OF d(1)])
  have none: "ek (?tb ! ((home t ?k + d') mod length ?tb)) \<notin> {LH_EMPTY, LH_KEY ?k}" if "d' < m" for d'
  proof -
    let ?j = "(home t ?k + d') mod length ?tb"
    have "?j \<noteq> i" using not_less_Least [of d' ?Q] that unfolding m_def by blast
    moreover have "?j < length ?tb" using sz by simp
    ultimately have "ek (?tb ! ?j) \<noteq> LH_KEY ?k"
      using lh_inv_occ [OF inv] lh_inv_inj [OF inv] i key_at_simp by (metis inj_onD)
    moreover have "ek (?tb ! ?j) \<noteq> LH_EMPTY" using d(2) that md by simp
    ultimately show ?thesis by simp
  qed
  have "home t ?k < length ?tb" using sz by simp
  then have "probe_key (=) ?tb (length ?tb) ?k (home t ?k) =
     Some (if ek (?tb ! ((home t ?k + m) mod length ?tb)) = LH_EMPTY then None
           else Some ((home t ?k + m) mod length ?tb))"
    using none m ki by (intro probe_key_dist) auto
  then show ?thesis using m ki sz by simp
qed

lemma lookup_miss:
  assumes inv: "lh_inv t ord" and k: "k \<notin> key_at (table t) ` set ord"
    and e: "\<exists>e\<in>set (table t). ek e = LH_EMPTY"
  shows "probe_key (=) (table t) (lsize t) k (home t k) = Some None"
proof -
  let ?tb = "table t"
  have sz: "lsize t = length ?tb" "0 < length ?tb" using lh_inv_size [OF inv] by auto
  have hm: "home t k < length ?tb" by (rule lh_inv_home [OF inv])
  obtain i where i: "i < length ?tb" "ek (?tb ! i) = LH_EMPTY"
    using e by (metis in_set_conv_nth)
  let ?P = "\<lambda>d. ek (?tb ! ((home t k + d) mod length ?tb)) = LH_EMPTY"
  define m where "m = (LEAST d. ?P d)"
  have "\<exists>d. ?P d" using slot_reached [OF hm i(1)] i(2) by metis
  then have m: "?P m" unfolding m_def by (rule LeastI_ex)
  have "ek (?tb ! ((home t k + d') mod length ?tb)) \<notin> {LH_EMPTY, LH_KEY k}" if "d' < m" for d'
  proof -
    let ?j = "(home t k + d') mod length ?tb"
    have "?j < length ?tb" using sz by simp
    then have "ek (?tb ! ?j) \<noteq> LH_KEY k"
      using lh_inv_occ [OF inv] k key_at_simp by (metis imageI)
    then show ?thesis using not_less_Least [of d'] that unfolding m_def by blast
  qed
  then have "probe_key (=) ?tb (length ?tb) k (home t k) = Some (if ?P m then None
      else Some ((home t k + m) mod length ?tb))"
    using m by (intro probe_key_dist hm) auto
  then show ?thesis using m sz by simp
qed

text \<open>Statistics do not matter to the abstraction.\<close>

lemma lh_inv_stats [simp]:
  "lh_inv (t\<lparr>lookups := a\<rparr>) ord = lh_inv t ord"
  "lh_inv (t\<lparr>inserts := a\<rparr>) ord = lh_inv t ord"
  "lh_inv (t\<lparr>collisions := a\<rparr>) ord = lh_inv t ord"
  "lh_inv (t\<lparr>resizes := a\<rparr>) ord = lh_inv t ord"
  by (simp_all add: lh_inv_def)

lemma lh_abs_stats [simp]:
  "lh_abs (t\<lparr>lookups := a\<rparr>) al = lh_abs t al"
  "lh_abs (t\<lparr>inserts := a\<rparr>) al = lh_abs t al"
  by (simp_all add: lh_abs_def)

lemma lh_clean_stats [simp]:
  "lh_clean (t\<lparr>lookups := a\<rparr>) = lh_clean t"
  "lh_clean (t\<lparr>inserts := a\<rparr>) = lh_clean t"
  by (simp_all add: lh_clean_def)

definition has_empty :: "('k, 'v) lh_table \<Rightarrow> bool" where
  "has_empty t \<longleftrightarrow> (\<exists>e\<in>set (table t). ek e = LH_EMPTY)"

lemma keys_of_abs: "fst ` set (map (entry_of tb) ord) = key_at tb ` set ord"
  by (auto simp: entry_of_def image_image)

lemma lookup_entry_hit:
  assumes inv: "lh_inv t ord" and i: "i \<in> set ord"
  shows "lh_table_lookup_entry t (key_at (table t) i) =
    Some (t\<lparr>lookups := c_int (lookups t + 1)\<rparr>, Some i)"
  using lookup_hit [OF inv i] lh_inv_size [OF inv] lh_inv_eq [OF inv]
  by (simp add: lh_table_lookup_entry_def)

lemma lookup_entry_miss:
  assumes inv: "lh_inv t ord" and "k \<notin> key_at (table t) ` set ord" "has_empty t"
  shows "lh_table_lookup_entry t k = Some (t\<lparr>lookups := c_int (lookups t + 1)\<rparr>, None)"
  using lookup_miss [OF inv assms(2)] assms(3) lh_inv_size [OF inv] lh_inv_eq [OF inv]
  by (simp add: lh_table_lookup_entry_def has_empty_def)

lemma map_of_entry:
  assumes "lh_inv t ord" "i \<in> set ord"
  shows "map_of (map (entry_of (table t)) ord) (key_at (table t) i) = Some (ev (table t ! i))"
proof -
  have "distinct (map fst (map (entry_of (table t)) ord))"
    using assms(1) by (intro lh_abs_distinct [of t]) (auto simp: lh_abs_def)
  then show ?thesis using assms(2) by (intro map_of_is_SomeI) (auto simp: entry_of_def)
qed

lemma lookup_abs:
  assumes abs: "lh_abs t al" and h: "k \<in> fst ` set al \<or> has_empty t"
  shows "lh_table_lookup t k =
    Some (t\<lparr>lookups := c_int (lookups t + 1)\<rparr>, Option.bind (map_of al k) id)"
proof -
  obtain ord where inv: "lh_inv t ord" and al: "al = map (entry_of (table t)) ord"
    using abs by (auto simp: lh_abs_def)
  show ?thesis
  proof (cases "k \<in> fst ` set al")
    case True
    then obtain i where i: "i \<in> set ord" "k = key_at (table t) i"
      unfolding al keys_of_abs by blast
    show ?thesis
      using lookup_entry_hit [OF inv i(1)] map_of_entry [OF inv i(1)] lh_inv_bound [OF inv i(1)]
      by (simp add: lh_table_lookup_def i(2) al entry_at_def)
  next
    case False
    then have "map_of al k = None" by (simp add: map_of_eq_None_iff)
    moreover have "lh_table_lookup_entry t k = Some (t\<lparr>lookups := c_int (lookups t + 1)\<rparr>, None)"
      using False h unfolding al keys_of_abs by (intro lookup_entry_miss [OF inv]) auto
    ultimately show ?thesis by (simp add: lh_table_lookup_def)
  qed
qed

section \<open>Insertion\<close>

lemma reaches_mono:
  assumes "reaches tb n i" "length tb' = length tb" "0 < length tb"
    "\<And>j. j < length tb \<Longrightarrow> ek (tb ! j) \<noteq> LH_EMPTY \<Longrightarrow> ek (tb' ! j) \<noteq> LH_EMPTY"
  shows "reaches tb' n i"
  using assms unfolding reaches_def by (metis mod_less_divisor)

text \<open>
  The table after the key is stored in the free slot \<open>n\<close> and linked behind the tail: the same
  computation as in the code, with the two cases of an empty and a non-empty list joined.
\<close>

definition linked :: "('k, 'v) lh_table \<Rightarrow> nat \<Rightarrow> 'k \<Rightarrow> 'v option \<Rightarrow> ('k, 'v) lh_entry list" where
  "linked t n k v =
     (let tb1 = (table t)[n := (table t ! n)\<lparr>ek := LH_KEY k, ev := v\<rparr>];
          tb2 = (case tail t of None \<Rightarrow> tb1 | Some lst \<Rightarrow> tb1[lst := (tb1 ! lst)\<lparr>enext := Some n\<rparr>])
      in tb2[n := (tb2 ! n)\<lparr>eprev := tail t, enext := None\<rparr>])"

lemma length_linked [simp]: "length (linked t n k v) = length (table t)"
  by (simp add: linked_def Let_def split: option.splits)

lemma linked_nth:
  assumes "n < length (table t)" "tail t \<noteq> Some n" "\<And>lst. tail t = Some lst \<Longrightarrow> lst < length (table t)"
    "i < length (table t)"
  shows "ek (linked t n k v ! i) = (if i = n then LH_KEY k else ek (table t ! i))"
    "ev (linked t n k v ! i) = (if i = n then v else ev (table t ! i))"
    "enext (linked t n k v ! i) = (if i = n then None else if tail t = Some i then Some n else enext (table t ! i))"
    "eprev (linked t n k v ! i) = (if i = n then tail t else eprev (table t ! i))"
  using assms by (auto simp: linked_def Let_def nth_list_update split: option.splits)

lemma insert_slot_eq:
  assumes inv: "lh_inv t ord" and p: "probe_free (table t) (lsize t) (home t k) (collisions t) = Some (n, c)"
    and n: "n < length (table t)" "n \<notin> set ord"
  shows "\<exists>u. lh_insert_slot t k v = Some u \<and> table u = linked t n k v \<and> lsize u = lsize t \<and>
     count u = count t + 1 \<and> head u = (if ord = [] then Some n else head t) \<and> tail u = Some n \<and>
     same_cfg t u"
proof (cases "head t")
  case None
  then have ord: "ord = []" using lh_inv_chains(1) [OF inv] chain_head by (metis option.distinct(1))
  then have "tail t = None" using lh_inv_chains(2) [OF inv] by simp
  then show ?thesis
    using None p n lh_inv_size [OF inv] ord
    by (auto simp: lh_insert_slot_def upd_entry_def linked_def Let_def same_cfg_def
        intro!: arg_cong [where f = "list_update _ _"] lh_entry.equality)
next
  case (Some h)
  then have ne: "ord \<noteq> []" using lh_inv_chains(1) [OF inv] by auto
  then have lst: "tail t = Some (last ord)"
    using chain_head [OF lh_inv_chains(2) [OF inv]] by (simp add: hd_rev)
  have lo: "last ord < length (table t)" "last ord \<noteq> n"
    using lh_inv_bound [OF inv, of "last ord"] ne n by auto
  show ?thesis
    using Some lst p n lh_inv_size [OF inv] lo ne
    by (simp add: lh_insert_slot_def upd_entry_def linked_def Let_def same_cfg_def)
qed

text \<open>
  The effect of the slot insertion.  The last two parts are for the owner of the table: the slot is
  the first on the probe path of the key that is not in use, and no other slot changes its key.
\<close>

lemma insert_slot_inv:
  assumes inv: "lh_inv t ord" and k: "k \<notin> key_at (table t) ` set ord" and room: "count t < lsize t"
  shows "\<exists>u n. lh_insert_slot t k v = Some u \<and> lh_inv u (ord @ [n]) \<and> same_cfg t u \<and>
     lsize u = lsize t \<and>
     map (entry_of (table u)) (ord @ [n]) = map (entry_of (table t)) ord @ [(k, v)] \<and>
     (\<exists>d. (home t k + d) mod lsize t = n \<and> (\<forall>d'<d. (home t k + d') mod lsize t \<in> set ord)) \<and>
     (\<forall>i. i < length (table t) \<longrightarrow> i \<noteq> n \<longrightarrow> ek (table u ! i) = ek (table t ! i))"
proof -
  let ?tb = "table t"
  have sz: "lsize t = length ?tb" "0 < length ?tb" using lh_inv_size [OF inv] by auto
  have hm: "home t k < length ?tb" by (rule lh_inv_home [OF inv])
  have "\<exists>e\<in>set ?tb. is_free e"
  proof (rule ccontr)
    assume "\<not> ?thesis"
    then have "{..<length ?tb} \<subseteq> set ord"
      using lh_inv_occ [OF inv] by (fastforce simp: is_free_iff)
    then have "card {..<length ?tb} \<le> length ord"
      by (metis card_length card_mono finite_set le_trans)
    then show False using room sz inv by (simp add: lh_inv_def)
  qed
  then obtain d c where p: "probe_free ?tb (length ?tb) (home t k) (collisions t) =
      Some ((home t k + d) mod length ?tb, c)"
    and fr: "is_free (?tb ! ((home t k + d) mod length ?tb))"
    and occ: "\<forall>d'<d. \<not> is_free (?tb ! ((home t k + d') mod length ?tb))"
    using probe_free_ok [OF hm] by blast
  define n where "n = (home t k + d) mod length ?tb"
  have n: "n < length ?tb" "n \<notin> set ord"
    using sz fr lh_inv_key [OF inv] by (auto simp: n_def is_free_iff)
  have path: "(home t k + d') mod length ?tb \<in> set ord" if "d' < d" for d'
    using occ that lh_inv_occ [OF inv] sz by (auto simp: is_free_iff)
  obtain u where u: "lh_insert_slot t k v = Some u" "table u = linked t n k v" "lsize u = lsize t"
    "count u = count t + 1" "head u = (if ord = [] then Some n else head t)" "tail u = Some n" "same_cfg t u"
    using insert_slot_eq [OF inv _ n] p sz unfolding n_def by fastforce
  have tl: "tail t = (if ord = [] then None else Some (last ord))"
    using chain_head [OF lh_inv_chains(2) [OF inv]] by (simp add: hd_rev)
  have tb: "lst < length ?tb" "lst \<noteq> n" if "tail t = Some lst" for lst
    using tl n(2) lh_inv_bound [OF inv] that by (auto split: if_splits)
  then have tn: "tail t \<noteq> Some n" by blast
  have nth: "ek (linked t n k v ! i) = (if i = n then LH_KEY k else ek (?tb ! i))"
    "ev (linked t n k v ! i) = (if i = n then v else ev (?tb ! i))"
    "enext (linked t n k v ! i) = (if i = n then None else if tail t = Some i then Some n else enext (?tb ! i))"
    "eprev (linked t n k v ! i) = (if i = n then tail t else eprev (?tb ! i))"
    if "i < length ?tb" for i
    using linked_nth [OF n(1) tn tb(1) that] by simp_all
  have ords: "i < length ?tb" "i \<noteq> n" if "i \<in> set ord" for i
    using lh_inv_bound [OF inv that] n(2) that by auto
  have key: "key_at (linked t n k v) i = (if i = n then k else key_at ?tb i)" if "i < length ?tb" for i
    using nth(1) [OF that] by (simp add: key_at_def)
  have chn: "chain (\<lambda>i. enext (linked t n k v ! i)) (head u) (ord @ [n])"
  proof (cases "ord = []")
    case True
    then show ?thesis using u n(1) by (simp add: nth)
  next
    case False
    then show ?thesis
      using lh_inv_chains [OF inv] n ords tl u(5)
      by (auto simp: nth intro!: chain_snoc [where f = "\<lambda>i. enext (?tb ! i)"])
  qed
  have chp: "chain (\<lambda>i. eprev (linked t n k v ! i)) (tail u) (rev (ord @ [n]))"
  proof -
    have "chain (\<lambda>i. eprev (linked t n k v ! i)) (tail t) (rev ord) \<longleftrightarrow>
        chain (\<lambda>i. eprev (?tb ! i)) (tail t) (rev ord)"
      using ords by (intro chain_cong) (simp add: nth)
    then show ?thesis using lh_inv_chains(2) [OF inv] u(6) n(1) by (simp add: nth)
  qed
  have rch: "reaches (linked t n k v) (home t (key_at (linked t n k v) i)) i" if "i \<in> set (ord @ [n])" for i
  proof (cases "i = n")
    case True
    have "ek (linked t n k v ! ((home t k + d') mod length ?tb)) \<noteq> LH_EMPTY" if "d' < d" for d'
      using lh_inv_key [OF inv path [OF that]] sz by (simp add: nth)
    then show ?thesis
      using True n(1) key [OF n(1)] unfolding reaches_def length_linked n_def by auto
  next
    case False
    then have i: "i \<in> set ord" using that by simp
    have "reaches (linked t n k v) (home t (key_at ?tb i)) i"
      using sz by (intro reaches_mono [OF lh_inv_reach [OF inv i]]) (auto simp: nth)
    then show ?thesis using key ords [OF i] by simp
  qed
  have "lh_inv u (ord @ [n])"
    unfolding lh_inv_def u(2)
  proof (intro conjI)
    show "lsize u = length (linked t n k v)" "0 < lsize u" using u sz by simp_all
    show "equal_fn u = (=)" using u(7) lh_inv_eq [OF inv] by (simp add: same_cfg_def)
    show "distinct (ord @ [n])" using lh_inv_chains(3) [OF inv] n(2) by simp
    show "\<forall>i. (i \<in> set (ord @ [n])) = (i < length (linked t n k v) \<and> (\<exists>k'. ek (linked t n k v ! i) = LH_KEY k'))"
    proof
      fix i
      show "(i \<in> set (ord @ [n])) = (i < length (linked t n k v) \<and> (\<exists>k'. ek (linked t n k v ! i) = LH_KEY k'))"
      proof (cases "i < length ?tb")
        case True
        then show ?thesis
          using lh_inv_occ [OF inv True] lh_inv_key [OF inv, of i] by (cases "i = n") (auto simp: nth)
      qed (use n(1) lh_inv_bound [OF inv, of i] in auto)
    qed
    show "count u = length (ord @ [n])" using u(4) inv by (simp add: lh_inv_def)
    show "\<forall>i\<in>set (ord @ [n]). reaches (linked t n k v) (home u (key_at (linked t n k v) i)) i"
      using rch u(3,7) by (simp add: same_cfg_def)
    show "inj_on (key_at (linked t n k v)) (set (ord @ [n]))"
      using lh_inv_inj [OF inv] k n ords by (auto simp: inj_on_def key)
  qed (use chn chp in simp_all)
  moreover have "map (entry_of (table u)) (ord @ [n]) = map (entry_of ?tb) ord @ [(k, v)]"
    using ords n(1) by (simp add: u entry_of_def key nth)
  moreover have "\<forall>i. i < length ?tb \<longrightarrow> i \<noteq> n \<longrightarrow> ek (table u ! i) = ek (?tb ! i)"
    by (simp add: u nth)
  ultimately show ?thesis using u path sz by (metis n_def)
qed

lemma lh_inv_length: "lh_inv t ord \<Longrightarrow> length ord \<le> lsize t"
proof -
  assume inv: "lh_inv t ord"
  have "set ord \<subseteq> {..<length (table t)}" using lh_inv_bound [OF inv] by auto
  then have "card (set ord) \<le> length (table t)" using card_mono [OF finite_lessThan] by fastforce
  then show ?thesis
    using lh_inv_chains(3) [OF inv] lh_inv_size [OF inv] by (simp add: distinct_card)
qed

lemma insert_slot_abs:
  assumes abs: "lh_abs t al" and k: "k \<notin> fst ` set al" and room: "count t < lsize t"
  shows "\<exists>u. lh_insert_slot t k v = Some u \<and> lh_abs u (al @ [(k, v)]) \<and> same_cfg t u \<and>
     lsize u = lsize t \<and> (lh_clean t \<longrightarrow> lh_clean u)"
proof -
  obtain ord where inv: "lh_inv t ord" and al: "al = map (entry_of (table t)) ord"
    using abs by (auto simp: lh_abs_def)
  obtain u n where u: "lh_insert_slot t k v = Some u" "lh_inv u (ord @ [n])" "same_cfg t u"
    "lsize u = lsize t" "map (entry_of (table u)) (ord @ [n]) = al @ [(k, v)]"
    "\<forall>i. i < length (table t) \<longrightarrow> i \<noteq> n \<longrightarrow> ek (table u ! i) = ek (table t ! i)"
    using insert_slot_inv [OF inv _ room] k al keys_of_abs by metis
  have "lh_clean u" if "lh_clean t"
  proof -
    have "ek (table u ! i) \<noteq> LH_FREED" if i: "i < length (table u)" for i
    proof (cases "i = n")
      case True
      then show ?thesis using lh_inv_key [OF u(2), of n] by simp
    next
      case False
      have "i < length (table t)" using i u(4) lh_inv_size [OF inv] lh_inv_size [OF u(2)] by simp
      then show ?thesis using u(6) False \<open>lh_clean t\<close> by (auto simp: lh_clean_def)
    qed
    then show ?thesis by (auto simp: lh_clean_def in_set_conv_nth)
  qed
  then show ?thesis using u by (metis lh_abs_def)
qed

text \<open>Without a resize an insertion is the slot insertion.\<close>

lemma insert_light:
  "\<not> lh_overloaded t \<Longrightarrow>
     lh_table_insert t k v = lh_insert_slot (t\<lparr>inserts := c_int (inserts t + 1)\<rparr>) k v"
  by (simp add: lh_table_insert.simps lh_overloaded_def)

lemma insert_heavy:
  "lh_overloaded t \<Longrightarrow>
     lh_table_insert t k v = lh_table_resize (t\<lparr>inserts := c_int (inserts t + 1)\<rparr>) (2 * lsize t)
        \<bind> (\<lambda>u. lh_insert_slot u k v)"
  by (simp add: lh_table_insert.simps [of t] lh_overloaded_def lh_table_resize_def mult.commute)

lemma insert_light_abs:
  assumes abs: "lh_abs t al" and k: "k \<notin> fst ` set al" and l: "100 * length al \<le> 66 * lsize t"
  shows "\<exists>u. lh_table_insert t k v = Some u \<and> lh_abs u (al @ [(k, v)]) \<and> same_cfg t u \<and>
     lsize u = lsize t \<and> (lh_clean t \<longrightarrow> lh_clean u)"
proof -
  let ?t = "t\<lparr>inserts := c_int (inserts t + 1)\<rparr>"
  have sz: "0 < lsize t" using abs by (auto simp: lh_abs_def lh_inv_def)
  have "lh_abs ?t al" "count ?t < lsize ?t"
    using abs l sz lh_abs_count [OF abs] by simp_all
  from insert_slot_abs [OF this(1) k this(2), of v] show ?thesis
    using lh_abs_count [OF abs] l by (simp add: insert_light lh_overloaded_def same_cfg_def)
qed

lemma copy_entries_abs:
  "lh_abs t al \<Longrightarrow> lh_clean t \<Longrightarrow> distinct (map fst (al @ es)) \<Longrightarrow>
   100 * (length al + length es) \<le> 66 * lsize t + 100 \<Longrightarrow>
   \<exists>u. copy_entries lh_table_insert (map (\<lambda>(k, v). (LH_KEY k, v)) es) t = Some u \<and>
     lh_abs u (al @ es) \<and> lh_clean u \<and> same_cfg t u \<and> lsize u = lsize t"
proof (induction es arbitrary: t al)
  case Nil
  then show ?case by auto
next
  case (Cons e es)
  obtain k v where e: "e = (k, v)" by (cases e)
  have "k \<notin> fst ` set al" using Cons.prems(3) e by auto
  then obtain u where u: "lh_table_insert t k v = Some u" "lh_abs u (al @ [(k, v)])" "same_cfg t u"
    "lsize u = lsize t" "lh_clean u"
    using insert_light_abs [OF Cons.prems(1)] Cons.prems(2,4) by fastforce
  have "\<exists>w. copy_entries lh_table_insert (map (\<lambda>(k, v). (LH_KEY k, v)) es) u = Some w \<and>
     lh_abs w ((al @ [(k, v)]) @ es) \<and> lh_clean w \<and> same_cfg u w \<and> lsize w = lsize u"
    using Cons.prems u e by (intro Cons.IH) auto
  then show ?case using u e same_cfg_trans [OF u(3)] by auto
qed

lemma resize_abs:
  assumes abs: "lh_abs t al" and N: "0 < N" "100 * length al \<le> 66 * N + 100"
  shows "\<exists>u. lh_table_resize t N = Some u \<and> lh_abs u al \<and> lh_clean u \<and> same_cfg t u \<and> lsize u = N"
proof -
  let ?n = "lh_table_new N False (hash_fn t) (equal_fn t)"
  have eq: "equal_fn t = (=)" using abs by (auto simp: lh_abs_def lh_inv_def)
  have "\<exists>w. copy_entries lh_table_insert (map (\<lambda>(k, v). (LH_KEY k, v)) al) ?n = Some w \<and>
     lh_abs w ([] @ al) \<and> lh_clean w \<and> same_cfg ?n w \<and> lsize w = lsize ?n"
    using copy_entries_abs [of ?n "[]" al] lh_new_abs [OF N(1), of False "hash_fn t"] N(2)
      lh_abs_distinct [OF abs] eq lh_new_clean [of N False "hash_fn t" "equal_fn t"]
    by (simp add: lh_table_new_def)
  then obtain w where w: "copy_entries lh_table_insert (map (\<lambda>(k, v). (LH_KEY k, v)) al) ?n = Some w"
    "lh_abs w al" "lh_clean w" "same_cfg ?n w" "lsize w = N"
    by (auto simp: lh_table_new_def)
  let ?u = "t\<lparr>table := table w, lsize := N, head := head w, tail := tail w,
             resizes := c_int (resizes t + 1)\<rparr>"
  have cnt: "count w = count t" using lh_abs_count [OF w(2)] lh_abs_count [OF abs] by simp
  have "lh_table_resize t N = Some ?u"
    using w(1) walk_abs [OF abs] by (simp add: lh_table_resize_def resize_by_def)
  moreover have "lh_abs ?u al"
  proof -
    obtain ord where "lh_inv w ord" "al = map (entry_of (table w)) ord"
      using w(2) by (auto simp: lh_abs_def)
    then have "lh_inv ?u ord \<and> al = map (entry_of (table ?u)) ord"
      using w(4,5) cnt by (auto simp: lh_inv_def same_cfg_def lh_table_new_def)
    then show ?thesis unfolding lh_abs_def by blast
  qed
  ultimately show ?thesis using w(3) by (simp add: lh_clean_def same_cfg_def)
qed

lemma insert_abs:
  assumes abs: "lh_abs t al" and k: "k \<notin> fst ` set al"
  shows "\<exists>u. lh_table_insert t k v = Some u \<and> lh_abs u (al @ [(k, v)]) \<and> same_cfg t u \<and>
     lsize u = (if lh_overloaded t then 2 * lsize t else lsize t) \<and>
     (lh_clean t \<or> lh_overloaded t \<longrightarrow> lh_clean u) \<and>
     100 * count u \<le> 66 * lsize u + 100"
proof (cases "lh_overloaded t")
  case False
  then have "100 * length al \<le> 66 * lsize t"
    using lh_abs_count [OF abs] by (simp add: lh_overloaded_def)
  from insert_light_abs [OF abs k this, of v] show ?thesis
    using lh_abs_count False \<open>100 * length al \<le> 66 * lsize t\<close> by fastforce
next
  case True
  have len: "length al \<le> lsize t" "0 < lsize t"
    using abs lh_inv_length lh_inv_size by (fastforce simp: lh_abs_def)+
  let ?t = "t\<lparr>inserts := c_int (inserts t + 1)\<rparr>"
  obtain u where u: "lh_table_resize ?t (2 * lsize t) = Some u" "lh_abs u al" "lh_clean u"
    "same_cfg ?t u" "lsize u = 2 * lsize t"
    using resize_abs [of ?t al "2 * lsize t"] abs len by auto
  have "count u < lsize u" using u(5) lh_abs_count [OF u(2)] len by simp
  from insert_slot_abs [OF u(2) k this, of v]
  obtain w where w: "lh_insert_slot u k v = Some w" "lh_abs w (al @ [(k, v)])" "same_cfg u w"
    "lsize w = lsize u" "lh_clean w" using u(3) by blast
  have "same_cfg t w" using u(4) w(3) by (simp add: same_cfg_def)
  then show ?thesis
    using True u w len lh_abs_count [OF w(2)] by (simp add: insert_heavy)
qed

section \<open>Removal\<close>

lemma chain_ends:
  assumes inv: "lh_inv t (xs @ i # ys)"
  shows "enext (table t ! i) = (if ys = [] then None else Some (hd ys))"
    "eprev (table t ! i) = (if xs = [] then None else Some (last xs))"
    "head t = Some (hd (xs @ [i]))" "tail t = Some (last (i # ys))"
proof -
  note ch = lh_inv_chains [OF inv]
  show "enext (table t ! i) = (if ys = [] then None else Some (hd ys))"
    using ch(1) chain_last [of _ _ xs i] chain_next [of _ _ xs i "hd ys" "tl ys"] by (cases ys) auto
  have "chain (\<lambda>i. eprev (table t ! i)) (tail t) (rev ys @ i # rev xs)" using ch(2) by simp
  then show "eprev (table t ! i) = (if xs = [] then None else Some (last xs))"
    using chain_last [of _ _ "rev ys" i] chain_next [of _ _ "rev ys" i "last xs" "rev (butlast xs)"]
    by (cases xs rule: rev_cases) auto
  show "head t = Some (hd (xs @ [i]))" using chain_head [OF ch(1)] by (cases xs) auto
  show "tail t = Some (last (i # ys))" using chain_head [OF ch(2)] by (simp add: hd_append hd_rev)
qed

lemma delete_entry_eq:
  assumes inv: "lh_inv t (xs @ i # ys)"
  shows "\<exists>u. lh_table_delete_entry t (int i) =
      Some (u, if has_free_fn t then [entry_of (table t) i] else [], 0) \<and>
     length (table u) = length (table t) \<and> lsize u = lsize t \<and> same_cfg t u \<and> count u = count t - 1 \<and>
     head u = (if xs = [] then enext (table t ! i) else head t) \<and>
     tail u = (if ys = [] then eprev (table t ! i) else tail t) \<and>
     (\<forall>j < length (table t).
        ek (table u ! j) = (if j = i then LH_FREED else ek (table t ! j)) \<and>
        ev (table u ! j) = (if j = i then None else ev (table t ! j)) \<and>
        enext (table u ! j) = (if j = i then None else if xs \<noteq> [] \<and> j = last xs then enext (table t ! i) else enext (table t ! j)) \<and>
        eprev (table u ! j) = (if j = i then None else if ys \<noteq> [] \<and> j = hd ys then eprev (table t ! i) else eprev (table t ! j)))"
proof -
  let ?tb = "table t"
  have d: "distinct (xs @ i # ys)" by (rule lh_inv_chains(3) [OF inv])
  have b: "j < length ?tb" if "j \<in> set xs \<union> {i} \<union> set ys" for j
    using lh_inv_bound [OF inv] that by auto
  have i: "i < length ?tb" "ek (?tb ! i) = LH_KEY (key_at ?tb i)"
    using b lh_inv_key [OF inv] by auto
  have x: "last xs < length ?tb" "last xs \<noteq> i" if "xs \<noteq> []"
    using b d last_in_set [OF that] by auto
  have y: "hd ys < length ?tb" "hd ys \<noteq> i" if "ys \<noteq> []"
    using b d hd_in_set [OF that] by auto
  have xy: "last xs \<noteq> hd ys" if "xs \<noteq> []" "ys \<noteq> []"
    using d last_in_set [OF that(1)] hd_in_set [OF that(2)] by auto
  have hx: "hd (xs @ [i]) \<noteq> i" if "xs \<noteq> []" using d hd_in_set [OF that] that by auto
  have ly: "last (i # ys) \<noteq> i" if "ys \<noteq> []" using d last_in_set [OF that] that by auto
  note ends = chain_ends [OF inv]
  consider "xs = []" "ys = []" | "xs = []" "ys \<noteq> []" | "xs \<noteq> []" "ys = []" | "xs \<noteq> []" "ys \<noteq> []" by blast
  then show ?thesis
  proof cases
    case 1
    then show ?thesis using i ends
      by (simp add: lh_table_delete_entry_def entry_at_def upd_entry_def entry_of_def same_cfg_def
          nth_list_update Let_def)
  next
    case 2
    then show ?thesis using i ends y ly
      by (simp add: lh_table_delete_entry_def entry_at_def upd_entry_def entry_of_def same_cfg_def
          nth_list_update Let_def)
  next
    case 3
    then show ?thesis using i ends x hx
      by (simp add: lh_table_delete_entry_def entry_at_def upd_entry_def entry_of_def same_cfg_def
          nth_list_update Let_def)
  next
    case 4
    then show ?thesis using i ends x y hx ly xy
      by (simp add: lh_table_delete_entry_def entry_at_def upd_entry_def entry_of_def same_cfg_def
          nth_list_update Let_def)
  qed
qed

lemma delete_entry_inv:
  assumes inv: "lh_inv t (xs @ i # ys)"
  shows "\<exists>u. lh_table_delete_entry t (int i) =
      Some (u, if has_free_fn t then [entry_of (table t) i] else [], 0) \<and>
     lh_inv u (xs @ ys) \<and> same_cfg t u \<and> lsize u = lsize t \<and>
     map (entry_of (table u)) (xs @ ys) = map (entry_of (table t)) (xs @ ys) \<and>
     (\<forall>j < length (table t). ek (table u ! j) = (if j = i then LH_FREED else ek (table t ! j)))"
proof -
  let ?tb = "table t"
  obtain u where u: "lh_table_delete_entry t (int i) =
      Some (u, if has_free_fn t then [entry_of ?tb i] else [], 0)"
    and len: "length (table u) = length ?tb" and cfg: "lsize u = lsize t" "same_cfg t u" "count u = count t - 1"
    and ends: "head u = (if xs = [] then enext (?tb ! i) else head t)"
      "tail u = (if ys = [] then eprev (?tb ! i) else tail t)"
    and nth: "\<And>j. j < length ?tb \<Longrightarrow>
        ek (table u ! j) = (if j = i then LH_FREED else ek (?tb ! j)) \<and>
        ev (table u ! j) = (if j = i then None else ev (?tb ! j)) \<and>
        enext (table u ! j) = (if j = i then None else if xs \<noteq> [] \<and> j = last xs then enext (?tb ! i) else enext (?tb ! j)) \<and>
        eprev (table u ! j) = (if j = i then None else if ys \<noteq> [] \<and> j = hd ys then eprev (?tb ! i) else eprev (?tb ! j))"
    using delete_entry_eq [OF inv] by blast
  note ch = lh_inv_chains [OF inv]
  have b: "j < length ?tb \<and> j \<noteq> i" if "j \<in> set (xs @ ys)" for j
    using lh_inv_bound [OF inv, of j] ch(3) that by auto
  have ekn: "ek (table u ! j) = (if j = i then LH_FREED else ek (?tb ! j))" if "j < length ?tb" for j
    using nth [OF that] by blast
  then have key: "key_at (table u) j = key_at ?tb j" if "j < length ?tb" "j \<noteq> i" for j
    using that by (simp add: key_at_def)
  have chn: "chain (\<lambda>j. enext (table u ! j)) (head u) (xs @ ys)"
  proof (cases "xs = []")
    case True
    have "chain (\<lambda>j. enext (table u ! j)) (enext (?tb ! i)) ys \<longleftrightarrow>
        chain (\<lambda>j. enext (?tb ! j)) (enext (?tb ! i)) ys"
      using True nth b by (intro chain_cong) simp
    then show ?thesis using ch(1) True ends(1) by simp
  next
    case False
    have lx: "last xs \<in> set (xs @ ys)" using False by simp
    show ?thesis
    proof (rule chain_remove [where f = "\<lambda>j. enext (?tb ! j)" and n = i])
      show "chain (\<lambda>j. enext (?tb ! j)) (head u) (xs @ i # ys)"
        using ch(1) ends(1) False by simp
      show "distinct (xs @ i # ys)" by (rule ch(3))
      show "enext (table u ! last xs) = enext (?tb ! i)"
        using nth [of "last xs"] b [OF lx] False by simp
      fix j assume "j \<in> set xs \<union> set ys" "j \<noteq> last xs"
      then show "enext (table u ! j) = enext (?tb ! j)"
        using nth [of j] b [of j] by auto
    qed (rule False)
  qed
  have chp: "chain (\<lambda>j. eprev (table u ! j)) (tail u) (rev (xs @ ys))"
  proof (cases "ys = []")
    case True
    have "chain (\<lambda>j. eprev (table u ! j)) (eprev (?tb ! i)) (rev xs) \<longleftrightarrow>
        chain (\<lambda>j. eprev (?tb ! j)) (eprev (?tb ! i)) (rev xs)"
      using True nth b by (intro chain_cong) simp
    then show ?thesis using ch(2) True ends(2) by simp
  next
    case False
    have hd: "hd ys \<in> set (xs @ ys)" "last (rev ys) = hd ys" using False by (simp_all add: last_rev)
    have "chain (\<lambda>j. eprev (table u ! j)) (tail u) (rev ys @ rev xs)"
    proof (rule chain_remove [where f = "\<lambda>j. eprev (?tb ! j)" and n = i])
      show "chain (\<lambda>j. eprev (?tb ! j)) (tail u) (rev ys @ i # rev xs)"
        using ch(2) ends(2) False by simp
      show "distinct (rev ys @ i # rev xs)" using ch(3) by auto
      show "eprev (table u ! last (rev ys)) = eprev (?tb ! i)"
        using nth [of "hd ys"] b [OF hd(1)] False hd(2) by simp
      fix j assume "j \<in> set (rev ys) \<union> set (rev xs)" "j \<noteq> last (rev ys)"
      then show "eprev (table u ! j) = eprev (?tb ! j)"
        using nth [of j] b [of j] hd(2) by auto
    qed (use False in simp)
    then show ?thesis by simp
  qed
  have "lh_inv u (xs @ ys)"
    unfolding lh_inv_def
  proof (intro conjI)
    show "lsize u = length (table u)" "0 < lsize u" using cfg lh_inv_size [OF inv] len by simp_all
    show "equal_fn u = (=)" using cfg(2) lh_inv_eq [OF inv] by (simp add: same_cfg_def)
    show "distinct (xs @ ys)" using ch(3) by auto
    show "\<forall>j. (j \<in> set (xs @ ys)) = (j < length (table u) \<and> (\<exists>k. ek (table u ! j) = LH_KEY k))"
    proof
      fix j
      show "(j \<in> set (xs @ ys)) = (j < length (table u) \<and> (\<exists>k. ek (table u ! j) = LH_KEY k))"
      proof (cases "j < length ?tb")
        case True
        then show ?thesis
          using lh_inv_occ [OF inv True] lh_inv_key [OF inv, of j] nth [OF True] b [of j] len
          by (cases "j = i") auto
      qed (use b [of j] len in auto)
    qed
    show "count u = length (xs @ ys)" using cfg(3) inv by (simp add: lh_inv_def)
    show "\<forall>j\<in>set (xs @ ys). reaches (table u) (home u (key_at (table u) j)) j"
    proof
      fix j assume j: "j \<in> set (xs @ ys)"
      then have "reaches ?tb (home t (key_at ?tb j)) j" using lh_inv_reach [OF inv, of j] by auto
      then have "reaches (table u) (home t (key_at ?tb j)) j"
        by (rule reaches_mono) (use len lh_inv_size [OF inv] ekn in simp_all)
      then show "reaches (table u) (home u (key_at (table u) j)) j"
        using cfg key b [OF j] by (simp add: same_cfg_def)
    qed
    have "inj_on (key_at ?tb) (set (xs @ ys))"
      by (rule inj_on_subset [OF lh_inv_inj [OF inv]]) auto
    moreover have "key_at (table u) j = key_at ?tb j" if "j \<in> set (xs @ ys)" for j
      using key b [OF that] by blast
    ultimately show "inj_on (key_at (table u)) (set (xs @ ys))"
      using inj_on_cong [of "set (xs @ ys)" "key_at (table u)" "key_at ?tb"] by blast
  qed (use chn chp in simp_all)
  moreover have "map (entry_of (table u)) (xs @ ys) = map (entry_of ?tb) (xs @ ys)"
    using b key nth by (auto simp: entry_of_def)
  ultimately show ?thesis using u cfg nth by blast
qed

text \<open>Removal of a key: the entry leaves the list and goes to the callback.\<close>

definition without :: "'k \<Rightarrow> ('k \<times> 'v) list \<Rightarrow> ('k \<times> 'v) list" where
  "without k al = filter (\<lambda>(k', _). k' \<noteq> k) al"

lemma delete_abs_hit:
  assumes abs: "lh_abs t al" and k: "(k, v) \<in> set al"
  shows "\<exists>u. lh_table_delete t k = Some (u, if has_free_fn t then [(k, v)] else [], 0) \<and>
     lh_abs u (without k al) \<and> same_cfg t u \<and> lsize u = lsize t"
proof -
  obtain ord where inv: "lh_inv t ord" and al: "al = map (entry_of (table t)) ord"
    using abs by (auto simp: lh_abs_def)
  obtain i where i: "i \<in> set ord" "entry_of (table t) i = (k, v)" using k al by auto
  then have ki: "k = key_at (table t) i" by (simp add: entry_of_def)
  obtain xs ys where ord: "ord = xs @ i # ys" using i(1) by (meson split_list)
  let ?t = "t\<lparr>lookups := c_int (lookups t + 1)\<rparr>"
  obtain u where u: "lh_table_delete_entry ?t (int i) =
      Some (u, if has_free_fn ?t then [entry_of (table ?t) i] else [], 0)"
    "lh_inv u (xs @ ys)" "same_cfg ?t u" "lsize u = lsize ?t"
    "map (entry_of (table u)) (xs @ ys) = map (entry_of (table ?t)) (xs @ ys)"
    using delete_entry_inv [of ?t xs i ys] inv ord by auto
  have "lh_table_delete t k = Some (u, if has_free_fn t then [(k, v)] else [], 0)"
    using lookup_entry_hit [OF inv i(1)] u(1) i(2) ki by (simp add: lh_table_delete_def)
  moreover have "without k al = map (entry_of (table u)) (xs @ ys)"
  proof -
    have "k' \<noteq> k" if "(k', v') \<in> entry_of (table t) ` set (xs @ ys)" for k' v'
      using that lh_inv_inj [OF inv] lh_inv_chains(3) [OF inv] ord ki
      by (auto simp: entry_of_def inj_on_def)
    then have "filter (\<lambda>(k', _). k' \<noteq> k) (map (entry_of (table t)) (xs @ ys)) = map (entry_of (table t)) (xs @ ys)"
      by (intro filter_True) auto
    then show ?thesis using i(2) u(5) by (simp add: without_def al ord)
  qed
  ultimately show ?thesis using u by (auto simp: lh_abs_def same_cfg_def)
qed

lemma delete_abs_miss:
  assumes abs: "lh_abs t al" and k: "k \<notin> fst ` set al" "has_empty t"
  shows "lh_table_delete t k = Some (t\<lparr>lookups := c_int (lookups t + 1)\<rparr>, [], - 1)"
proof -
  obtain ord where inv: "lh_inv t ord" and al: "al = map (entry_of (table t)) ord"
    using abs by (auto simp: lh_abs_def)
  show ?thesis
    using lookup_entry_miss [OF inv _ k(2)] k(1) unfolding al keys_of_abs
    by (simp add: lh_table_delete_def)
qed

section \<open>Replacing a key\<close>

text \<open>
  A removal leaves a tombstone and the code never turns one back into an empty slot, so lookups
  of absent keys need an invariant: in a table without tombstones there is an empty slot as long
  as there are fewer entries than slots.  Removing a key and inserting it again, which is how a
  JSON object stores a field, reuses the tombstone: its slot is the first unused one on the path.
\<close>

lemma clean_has_empty:
  assumes "lh_abs t al" "lh_clean t" "length al < lsize t"
  shows "has_empty t"
proof (rule ccontr)
  assume no: "\<not> has_empty t"
  obtain ord where inv: "lh_inv t ord" and al: "al = map (entry_of (table t)) ord"
    using assms(1) by (auto simp: lh_abs_def)
  have "i \<in> set ord" if "i < length (table t)" for i
  proof (cases "ek (table t ! i)")
    case (LH_KEY k)
    then show ?thesis by (rule lh_inv_occ [OF inv that])
  qed (use no assms(2) that in \<open>auto simp: has_empty_def lh_clean_def\<close>)
  then have "{..<length (table t)} \<subseteq> set ord" by auto
  then have "card {..<length (table t)} \<le> card (set ord)" by (rule card_mono [OF finite_set])
  then show False using assms(3) lh_inv_chains(3) [OF inv] lh_inv_size [OF inv] al
    by (simp add: distinct_card)
qed

lemma reinsert_clean:
  assumes inv: "lh_inv t (xs @ i # ys)" and clean: "lh_clean t"
    and del: "lh_inv u (xs @ ys)" "same_cfg t u" "lsize u = lsize t"
    and eku: "\<forall>j < length (table t). ek (table u ! j) = (if j = i then LH_FREED else ek (table t ! j))"
    and ins: "lh_inv w ((xs @ ys) @ [n])" "lsize w = lsize u"
      "(home u (key_at (table t) i) + d) mod lsize u = n"
      "\<forall>d'<d. (home u (key_at (table t) i) + d') mod lsize u \<in> set (xs @ ys)"
      "\<forall>j. j < length (table u) \<longrightarrow> j \<noteq> n \<longrightarrow> ek (table w ! j) = ek (table u ! j)"
  shows "lh_clean w"
proof -
  let ?h = "home t (key_at (table t) i)" and ?sz = "length (table t)"
  have sz: "lsize t = ?sz" "0 < ?sz" "lsize u = ?sz" "length (table u) = ?sz" "length (table w) = ?sz"
    using lh_inv_size [OF inv] lh_inv_size [OF del(1)] lh_inv_size [OF ins(1)] del(3) ins(2) by auto
  have h: "home u (key_at (table t) i) = ?h" using del(2) sz by (simp add: same_cfg_def)
  have out: "i \<notin> set (xs @ ys)" "n \<notin> set (xs @ ys)"
    using lh_inv_chains(3) [OF inv] lh_inv_chains(3) [OF ins(1)] by auto
  obtain e where e: "(?h + e) mod ?sz = i" "\<forall>d'<e. ek (table t ! ((?h + d') mod ?sz)) \<noteq> LH_EMPTY"
    using lh_inv_reach [OF inv, of i] unfolding reaches_def by auto
  have "d \<le> e" using ins(4) e(1) out(1) sz unfolding h by (metis not_le)
  have "n = i"
  proof (cases "d = e")
    case True
    then show ?thesis using ins(3) e(1) sz unfolding h by simp
  next
    case False
    then have "ek (table t ! n) \<noteq> LH_EMPTY" using e(2) \<open>d \<le> e\<close> ins(3) sz unfolding h by auto
    moreover have n: "n < ?sz" using ins(3) sz unfolding h by auto
    ultimately obtain k where "ek (table t ! n) = LH_KEY k"
      using clean by (cases "ek (table t ! n)") (auto simp: lh_clean_def)
    then have "n \<in> set (xs @ i # ys)" by (rule lh_inv_occ [OF inv n])
    then show ?thesis using out(2) by auto
  qed
  have "ek (table w ! j) \<noteq> LH_FREED" if "j < ?sz" for j
  proof (cases "j = n")
    case True
    then show ?thesis using lh_inv_key [OF ins(1), of n] by simp
  next
    case False
    then have "ek (table w ! j) = ek (table t ! j)" using ins(5) eku that \<open>n = i\<close> sz by simp
    then show ?thesis using clean that by (auto simp: lh_clean_def)
  qed
  then show ?thesis using sz by (auto simp: lh_clean_def in_set_conv_nth)
qed

text \<open>The table of an object: clean, not small, and within the load factor.\<close>

definition lh_ok :: "('k, 'v) lh_table \<Rightarrow> ('k \<times> 'v option) list \<Rightarrow> bool" where
  "lh_ok t al \<longleftrightarrow> lh_abs t al \<and> lh_clean t \<and> 16 \<le> lsize t \<and> 100 * length al \<le> 66 * lsize t + 100"

definition lh_put ::
  "('k, 'v) lh_table \<Rightarrow> 'k \<Rightarrow> 'v option \<Rightarrow> (('k, 'v) lh_table \<times> ('k \<times> 'v option) list) option" where
  "lh_put t k v = do {
     (t1, freed, _) \<leftarrow> lh_table_delete t k;
     t2 \<leftarrow> lh_table_insert t1 k v;
     Some (t2, freed)
   }"

lemma lh_ok_abs: "lh_ok t al \<Longrightarrow> lh_abs t al"
  by (simp add: lh_ok_def)

lemma lh_ok_has_empty: "lh_ok t al \<Longrightarrow> has_empty t"
  by (rule clean_has_empty) (auto simp: lh_ok_def)

lemma lh_ok_new: "16 \<le> sz \<Longrightarrow> lh_ok (lh_table_new sz ff hf (=)) []"
  using lh_new_abs [of sz ff hf] by (simp add: lh_ok_def lh_new_clean) (simp add: lh_table_new_def)

lemma lh_ok_lookup:
  "lh_ok t al \<Longrightarrow> lh_table_lookup t k =
     Some (t\<lparr>lookups := c_int (lookups t + 1)\<rparr>, Option.bind (map_of al k) id)"
  by (intro lookup_abs lh_ok_abs) (auto dest: lh_ok_has_empty)

lemma without_absent: "k \<notin> fst ` set al \<Longrightarrow> without k al = al"
  unfolding without_def by (rule filter_True) force

lemma without_keys: "k \<notin> fst ` set (without k al)"
  by (auto simp: without_def)

lemma lh_put_new:
  assumes ok: "lh_ok t al" and k: "k \<notin> fst ` set al"
  shows "\<exists>u. lh_put t k v = Some (u, []) \<and> lh_ok u (al @ [(k, v)]) \<and> same_cfg t u"
proof -
  let ?t = "t\<lparr>lookups := c_int (lookups t + 1)\<rparr>"
  have "lh_table_delete t k = Some (?t, [], - 1)"
    by (rule delete_abs_miss [OF lh_ok_abs [OF ok] k lh_ok_has_empty [OF ok]])
  moreover have "lh_abs ?t al" using ok by (simp add: lh_ok_def)
  from insert_abs [OF this k, of v] obtain u where u: "lh_table_insert ?t k v = Some u"
    "lh_abs u (al @ [(k, v)])" "same_cfg ?t u" "lsize t \<le> lsize u" "lh_clean ?t \<longrightarrow> lh_clean u"
    "100 * count u \<le> 66 * lsize u + 100" by (auto split: if_splits)
  ultimately have "lh_put t k v = Some (u, [])" by (simp add: lh_put_def)
  moreover have "lh_ok u (al @ [(k, v)])"
    using u ok lh_abs_count [OF u(2)] by (simp add: lh_ok_def)
  ultimately show ?thesis using u(3) by (auto simp: same_cfg_def)
qed

lemma lh_put_old:
  assumes ok: "lh_ok t al" and k: "(k, v0) \<in> set al"
  shows "\<exists>u. lh_put t k v = Some (u, if has_free_fn t then [(k, v0)] else []) \<and>
    lh_ok u (without k al @ [(k, v)]) \<and> same_cfg t u"
proof -
  obtain ord where inv: "lh_inv t ord" and al: "al = map (entry_of (table t)) ord"
    using ok by (auto simp: lh_ok_def lh_abs_def)
  obtain i where i: "i \<in> set ord" "entry_of (table t) i = (k, v0)" using k al by auto
  then have ki: "k = key_at (table t) i" by (simp add: entry_of_def)
  obtain xs ys where ord: "ord = xs @ i # ys" using i(1) by (meson split_list)
  let ?t = "t\<lparr>lookups := c_int (lookups t + 1)\<rparr>"
  obtain u where u: "lh_table_delete_entry ?t (int i) =
      Some (u, if has_free_fn ?t then [entry_of (table ?t) i] else [], 0)"
    "lh_inv u (xs @ ys)" "same_cfg ?t u" "lsize u = lsize ?t"
    "\<forall>j < length (table t). ek (table u ! j) = (if j = i then LH_FREED else ek (table t ! j))"
    using delete_entry_inv [of ?t xs i ys] inv ord by auto
  have ku: "key_at (table u) ` set (xs @ ys) = key_at (table t) ` set (xs @ ys)"
  proof (rule image_cong [OF refl])
    fix j assume j: "j \<in> set (xs @ ys)"
    then have "j < length (table t)" "j \<noteq> i"
      using lh_inv_bound [OF inv, of j] lh_inv_chains(3) [OF inv] ord by auto
    then show "key_at (table u) j = key_at (table t) j" using u(5) by (simp add: key_at_def)
  qed
  have kn: "k \<notin> key_at (table u) ` set (xs @ ys)"
    using lh_inv_inj [OF inv] lh_inv_chains(3) [OF inv] ord unfolding ku ki by (auto simp: inj_on_def)
  have del: "lh_table_delete t k = Some (u, if has_free_fn t then [(k, v0)] else [], 0)"
    using lookup_entry_hit [OF inv i(1)] u(1) i(2) ki by (simp add: lh_table_delete_def)
  have absu: "lh_abs u (without k al)"
    using delete_abs_hit [OF lh_ok_abs [OF ok] k] del by auto
  obtain w where w: "lh_table_insert u k v = Some w" "lh_abs w (without k al @ [(k, v)])"
    "same_cfg u w" "lsize w = (if lh_overloaded u then 2 * lsize u else lsize u)"
    "lh_overloaded u \<longrightarrow> lh_clean w" "100 * count w \<le> 66 * lsize w + 100"
    using insert_abs [OF absu without_keys, of v] by blast
  have "lh_clean w"
  proof (cases "lh_overloaded u")
    case True
    then show ?thesis using w(5) by blast
  next
    case False
    let ?u = "u\<lparr>inserts := c_int (inserts u + 1)\<rparr>"
    have invu: "lh_inv ?u (xs @ ys)" using u(2) by simp
    have "count ?u < lsize ?u" using False u(2) by (auto simp: lh_overloaded_def lh_inv_def)
    moreover have "k \<notin> key_at (table ?u) ` set (xs @ ys)"
      using kn by simp
    ultimately obtain w' n d where n: "lh_insert_slot ?u k v = Some w'" "lh_inv w' ((xs @ ys) @ [n])"
      "lsize w' = lsize ?u" "(home ?u k + d) mod lsize ?u = n"
      "\<forall>d'<d. (home ?u k + d') mod lsize ?u \<in> set (xs @ ys)"
      "\<forall>j. j < length (table ?u) \<longrightarrow> j \<noteq> n \<longrightarrow> ek (table w' ! j) = ek (table ?u ! j)"
      using insert_slot_inv [OF invu, of k v] by blast
    have "w' = w" using n(1) w(1) insert_light [OF False] by simp
    moreover have "lh_clean w'"
      using reinsert_clean [of t xs i ys u w' n d] inv ord ok u n ki by (simp add: lh_ok_def same_cfg_def)
    ultimately show ?thesis by simp
  qed
  moreover have "lh_put t k v = Some (w, if has_free_fn t then [(k, v0)] else [])"
    using del w(1) by (simp add: lh_put_def)
  moreover have "lh_ok w (without k al @ [(k, v)])"
    using w u(4) ok \<open>lh_clean w\<close> lh_abs_count [OF w(2)] by (simp add: lh_ok_def)
  ultimately show ?thesis using u(3) w(3) by (auto simp: same_cfg_def)
qed

section \<open>The interface of a keyed store\<close>

text \<open>
  What the owner of a table relies on: storing under a key moves the entry of that key to the end
  and hands the one it displaces to the owner, and a lookup reads the association list.  A null
  value is what an absent key gives.
\<close>

definition displaced :: "'k \<Rightarrow> ('k \<times> 'v) list \<Rightarrow> ('k \<times> 'v) list" where
  "displaced k al = filter (\<lambda>e. fst e = k) al"

definition put_list :: "('k \<times> 'v) list \<Rightarrow> ('k \<times> 'v) list \<Rightarrow> ('k \<times> 'v) list" where
  "put_list al kvs = foldl (\<lambda>al (k, v). without k al @ [(k, v)]) al kvs"

fun puts ::
  "('t \<Rightarrow> 'k \<Rightarrow> 'v \<Rightarrow> ('t \<times> 'e list) option) \<Rightarrow> 't \<Rightarrow> ('k \<times> 'v) list \<Rightarrow> ('t \<times> 'e list) option" where
  "puts put t [] = Some (t, [])"
| "puts put t ((k, v) # kvs) = do {
     (t1, fr) \<leftarrow> put t k v;
     (t2, fr') \<leftarrow> puts put t1 kvs;
     Some (t2, fr @ fr')
   }"

lemma put_list_simps [simp]:
  "put_list al [] = al"
  "put_list al ((k, v) # kvs) = put_list (without k al @ [(k, v)]) kvs"
  by (simp_all add: put_list_def)

lemma map_of_without: "map_of (without k al) k' = (if k' = k then None else map_of al k')"
  by (induction al) (auto simp: without_def)

lemma map_of_put [simp]:
  "map_of (without k al @ [(k, v)]) k' = (if k' = k then Some v else map_of al k')"
  by (auto simp: map_of_without map_add_def split: option.split)

lemma map_of_put_list:
  "map_of (put_list al kvs) k = (case map_of (rev kvs) k of None \<Rightarrow> map_of al k | Some v \<Rightarrow> Some v)"
  by (induction kvs arbitrary: al) (auto simp: map_add_def map_of_without split: option.splits if_splits)

lemma mset_displaced: "mset (without k al) + mset (displaced k al) = mset al"
  unfolding without_def displaced_def
  by (induction al) auto

locale key_store =
  fixes put :: "'t \<Rightarrow> 'k \<Rightarrow> 'v option \<Rightarrow> ('t \<times> ('k \<times> 'v option) list) option"
    and get :: "'t \<Rightarrow> 'k \<Rightarrow> ('t \<times> 'v option) option"
    and ok :: "'t \<Rightarrow> ('k \<times> 'v option) list \<Rightarrow> bool"
    and owner :: "'t \<Rightarrow> bool"
  assumes put_ok: "ok t al \<Longrightarrow>
      \<exists>u. put t k v = Some (u, if owner t then displaced k al else []) \<and>
        ok u (without k al @ [(k, v)]) \<and> owner u = owner t"
    and get_ok: "ok t al \<Longrightarrow>
      \<exists>u. get t k = Some (u, Option.bind (map_of al k) id) \<and> ok u al \<and> owner u = owner t"
begin

lemma puts_ok:
  "ok t al \<Longrightarrow> \<exists>u fr. puts put t kvs = Some (u, fr) \<and> ok u (put_list al kvs) \<and> owner u = owner t \<and>
     (owner t \<longrightarrow> mset al + mset kvs = mset (put_list al kvs) + mset fr)"
proof (induction kvs arbitrary: t al)
  case Nil
  then show ?case by simp
next
  case (Cons kv kvs)
  obtain k v where kv: "kv = (k, v)" by (cases kv)
  obtain u where u: "put t k v = Some (u, if owner t then displaced k al else [])"
    "ok u (without k al @ [(k, v)])" "owner u = owner t"
    using put_ok [OF Cons.prems] by blast
  obtain w fr where w: "puts put u kvs = Some (w, fr)"
    "ok w (put_list (without k al @ [(k, v)]) kvs)" "owner w = owner u"
    "owner u \<longrightarrow> mset (without k al @ [(k, v)]) + mset kvs =
       mset (put_list (without k al @ [(k, v)]) kvs) + mset fr"
    using Cons.IH [OF u(2)] by blast
  have "mset al + mset (kv # kvs) = mset (without k al @ [(k, v)]) + mset kvs + mset (displaced k al)"
    using mset_displaced [of k al] by (simp add: kv)
  then show ?case using u w by (auto simp: kv)
qed

lemma get_puts:
  assumes "ok t al" "puts put t kvs = Some (u, fr)"
  shows "\<exists>w. get u k = Some (w, Option.bind (map_of (put_list al kvs) k) id) \<and> ok w (put_list al kvs)"
  using puts_ok [OF assms(1), of kvs] assms(2) get_ok by fastforce

end

lemma displaced_absent: "k \<notin> fst ` set al \<Longrightarrow> displaced k al = []"
  by (auto simp: displaced_def filter_empty_conv)

lemma displaced_present:
  "distinct (map fst al) \<Longrightarrow> (k, v) \<in> set al \<Longrightarrow> displaced k al = [(k, v)]"
  by (induction al) (auto simp: displaced_def filter_empty_conv image_iff)

lemma lh_put_ok:
  assumes "lh_ok t al"
  shows "\<exists>u. lh_put t k v = Some (u, if has_free_fn t then displaced k al else []) \<and>
    lh_ok u (without k al @ [(k, v)]) \<and> same_cfg t u"
proof (cases "k \<in> fst ` set al")
  case True
  then obtain v0 where "(k, v0) \<in> set al" by force
  then show ?thesis
    using lh_put_old [OF assms, of k v0 v]
    by (cases "has_free_fn t")
      (simp_all add: displaced_present [OF lh_abs_distinct [OF lh_ok_abs [OF assms]]])
next
  case False
  then show ?thesis
    using lh_put_new [OF assms False, of v] displaced_absent without_absent by fastforce
qed

lemma lh_ok_stats [simp]: "lh_ok (t\<lparr>lookups := n\<rparr>) al \<longleftrightarrow> lh_ok t al"
  by (simp add: lh_ok_def)

lemma lh_put_law:
  "lh_ok t al \<Longrightarrow> \<exists>u. lh_put t k v = Some (u, if has_free_fn t then displaced k al else []) \<and>
     lh_ok u (without k al @ [(k, v)]) \<and> has_free_fn u = has_free_fn t"
  using lh_put_ok [of t al k v] by (auto simp: same_cfg_def)

interpretation lh: key_store lh_put lh_table_lookup lh_ok has_free_fn
  by unfold_locales (rule lh_put_law, assumption, simp add: lh_ok_lookup)

section \<open>What a table promises\<close>

lemma lh_kchar_new_eq: "lh_kchar_table_new sz ff = lh_table_new sz ff lh_char_hash (=)"
  by (simp add: lh_kchar_table_new_def lh_char_equal_def [abs_def])

lemma walk_lh_abs: "lh_abs t al \<Longrightarrow> walk (table t) (head t) = Some (map (\<lambda>(k, v). (LH_KEY k, v)) al)"
  by (rule walk_abs)

text \<open>
  C17: On a new string table of at least 16 slots, any sequence of replacing stores (a delete of the
  key, then an insert) terminates inside the table's block, through every growth of the table, unless memory
  for the growth is refused, which ends the process.  A
  lookup of any key then returns the value of the last store under it, or null; following the
  \<^verbatim>\<open>next\<close> pointers meets the keys in the order of their last stores; and every entry stored is either
  still in the table or was handed to the release callback, each exactly once.
\<close>

theorem lh_puts_model:
  assumes "16 \<le> sz"
  shows "\<exists>u fr w. puts lh_put (lh_kchar_table_new sz True) kvs = Some (u, fr) \<and>
    lh_table_lookup u k = Some (w, Option.bind (map_of (rev kvs) k) id) \<and>
    walk (table u) (head u) = Some (map (\<lambda>(k, v). (LH_KEY k, v)) (put_list [] kvs)) \<and>
    mset kvs = mset (put_list [] kvs) + mset fr"
proof -
  have ok: "lh_ok (lh_kchar_table_new sz True) []"
    using lh_ok_new [OF assms] by (simp add: lh_kchar_new_eq)
  obtain u fr where u: "puts lh_put (lh_kchar_table_new sz True) kvs = Some (u, fr)"
    "lh_ok u (put_list [] kvs)" "mset kvs = mset (put_list [] kvs) + mset fr"
    using lh.puts_ok [OF ok, of kvs] by (auto simp: lh_kchar_new_eq lh_table_new_def)
  moreover have "map_of (put_list [] kvs) k = map_of (rev kvs) k"
    by (simp add: map_of_put_list split: option.split)
  ultimately show ?thesis
    using lh.get_puts [OF ok u(1), of k] walk_lh_abs [OF lh_ok_abs [OF u(2)]] by auto
qed

theorem lh_puts_model_witness:
  "\<exists>u fr w. puts lh_put (lh_kchar_table_new 16 True)
        [(''a'', Some (1::nat)), (''b'', Some 2), (''a'', Some 3)] = Some (u, fr) \<and>
    lh_table_lookup u ''a'' = Some (w, Some 3)"
  using lh_puts_model [of 16 "[(''a'', Some (1::nat)), (''b'', Some 2), (''a'', Some 3)]" "''a''"]
  by auto

text \<open>
  Inserting a key that the table does not hold terminates for every table that satisfies the
  invariant, grows it (to twice the size, tombstones dropped) exactly when it is more than 66 percent
  full, appends the entry at the end of the order, and keeps the load within the bound that makes
  the next probe find a free slot.
\<close>

theorem lh_table_insert_refines:
  assumes "lh_abs t al" "k \<notin> fst ` set al"
  shows "\<exists>u. lh_table_insert t k v = Some u \<and> lh_abs u (al @ [(k, v)]) \<and> same_cfg t u \<and>
    lsize u = (if lh_overloaded t then 2 * lsize t else lsize t) \<and>
    (lh_clean t \<or> lh_overloaded t \<longrightarrow> lh_clean u) \<and> 100 * count u \<le> 66 * lsize u + 100"
  by (rule insert_abs [OF assms])

theorem lh_table_insert_refines_witness:
  "\<exists>u. lh_table_insert (lh_kchar_table_new 16 True) ''x'' (Some (7::nat)) = Some u \<and>
     lh_abs u [(''x'', Some 7)] \<and> lsize u = 16"
  using lh_table_insert_refines [of "lh_kchar_table_new 16 True" "[]" "''x''" "Some (7::nat)"]
    lh_new_abs [of 16 True lh_char_hash]
  by (auto simp: lh_kchar_new_eq lh_overloaded_def lh_table_new_def)

text \<open>
  C18: Deleting a key the table holds removes exactly its entry from the order, relinks its
  neighbours, hands it to the callback when there is one, and returns 0; the table keeps its size.
  Deleting an absent key changes nothing but the lookup counter and returns -1, provided a slot is
  still marked empty.
\<close>

theorem lh_table_delete_refines:
  assumes "lh_abs t al"
  shows "((k, v) \<in> set al \<longrightarrow>
      (\<exists>u. lh_table_delete t k = Some (u, if has_free_fn t then [(k, v)] else [], 0) \<and>
        lh_abs u (without k al) \<and> same_cfg t u \<and> lsize u = lsize t)) \<and>
    (k \<notin> fst ` set al \<and> has_empty t \<longrightarrow>
      lh_table_delete t k = Some (t\<lparr>lookups := c_int (lookups t + 1)\<rparr>, [], - 1))"
  using delete_abs_hit [OF assms] delete_abs_miss [OF assms] by blast

lemma sample_table_abs:
  "\<exists>u. lh_table_insert (lh_kchar_table_new 16 True) ''x'' (Some (7::nat)) = Some u \<and>
     lh_abs u [(''x'', Some 7)] \<and> has_free_fn u"
  using insert_abs [of "lh_kchar_table_new 16 True" "[]" "''x''" "Some (7::nat)"]
    lh_new_abs [of 16 True lh_char_hash]
  by (auto simp: lh_kchar_new_eq lh_table_new_def same_cfg_def)

theorem lh_table_delete_refines_witness:
  "\<exists>t u. lh_table_insert (lh_kchar_table_new 16 True) ''x'' (Some (7::nat)) = Some t \<and>
     lh_table_delete t ''x'' = Some (u, [(''x'', Some 7)], 0) \<and> lh_abs u []"
proof -
  obtain t where t: "lh_table_insert (lh_kchar_table_new 16 True) ''x'' (Some (7::nat)) = Some t"
    "lh_abs t [(''x'', Some 7)]" "has_free_fn t" using sample_table_abs by blast
  then show ?thesis
    using lh_table_delete_refines [OF t(2), of "''x''" "Some 7"] by (auto simp: without_def)
qed

text \<open>
  Resizing a table to any size whose load stays within the bound terminates and keeps the
  entries, their order, the hash and equality functions; it leaves no tombstone behind.
\<close>

theorem lh_table_resize_refines:
  assumes "lh_abs t al" "0 < N" "100 * length al \<le> 66 * N + 100"
  shows "\<exists>u. lh_table_resize t N = Some u \<and> lh_abs u al \<and> lh_clean u \<and> same_cfg t u \<and> lsize u = N"
  by (rule resize_abs [OF assms])

theorem lh_table_resize_refines_witness:
  "\<exists>t u. lh_table_insert (lh_kchar_table_new 16 True) ''x'' (Some (7::nat)) = Some t \<and>
     lh_table_resize t 2 = Some u \<and> lh_abs u [(''x'', Some 7)] \<and> lsize u = 2"
proof -
  obtain t where t: "lh_table_insert (lh_kchar_table_new 16 True) ''x'' (Some (7::nat)) = Some t"
    "lh_abs t [(''x'', Some 7)]" using sample_table_abs by blast
  then show ?thesis using lh_table_resize_refines [OF t(2), of 2] by auto
qed

section \<open>Tombstones\<close>

text \<open>
  A deletion marks its slot \<^verbatim>\<open>LH_FREED\<close> and nothing but a resize turns such a mark back into
  \<^verbatim>\<open>LH_EMPTY\<close>, while the resize is triggered by the number of live entries alone.  \<open>churn\<close> is the
  client that adds a member and removes it again.
\<close>

fun churn :: "('k, 'v) lh_table \<Rightarrow> ('k \<times> 'v option) list \<Rightarrow> ('k, 'v) lh_table option" where
  "churn t [] = Some t"
| "churn t ((k, v) # kvs) = do {
     (t1, _) \<leftarrow> lh_put t k v;
     (t2, _) \<leftarrow> lh_table_delete t1 k;
     churn t2 kvs
   }"

lemma all_freed_lookup:
  assumes "map ek (table t) = replicate n LH_FREED"
  shows "lh_table_lookup_entry t k = None"
proof -
  have "\<forall>e\<in>set (table t). ek e = LH_FREED"
    using arg_cong [OF assms, of set] by (auto simp: set_replicate_conv_if split: if_splits)
  then have "probe_key (equal_fn t) (table t) (lsize t) k n = None" for n
    by (intro probe_key_full) auto
  then show ?thesis by (simp add: lh_table_lookup_entry_def)
qed

definition letters :: "(char list \<times> nat option) list" where
  "letters = map (\<lambda>c. ([c], Some 0)) ''abcdefghijklmnop''"

text \<open>
  C19: On the 16-slot table every new JSON object starts with, adding and removing sixteen members
  with one-letter names (one at a time, so that the table never holds more than one) leaves a table
  on which no lookup of any key returns, and neither does any store.
\<close>

theorem lh_tombstones_hang:
  "\<exists>t. churn (lh_kchar_table_new 16 True) letters = Some t \<and> count t = 0 \<and>
     (\<forall>k. lh_table_lookup t k = None) \<and> (\<forall>k v. lh_put t k v = None)"
proof -
  have "map_option (\<lambda>t. (map ek (table t), count t)) (churn (lh_kchar_table_new 16 True) letters) =
      Some (replicate 16 LH_FREED, 0)"
    by code_simp
  then obtain t where t: "churn (lh_kchar_table_new 16 True) letters = Some t"
    "map ek (table t) = replicate 16 LH_FREED" "count t = 0" by auto
  then show ?thesis
    by (simp add: lh_table_lookup_def lh_put_def lh_table_delete_def all_freed_lookup [OF t(2)])
qed

end
