(* ===== verification/JsonObject.thy ===== *)
theory JsonObject
  imports PrintBuf ArrayList LinkHash
begin

text \<open>
  The reference-counted JSON values of json-c (\<^verbatim>\<open>json-c/json_object.c\<close>): the heap of
  \<^verbatim>\<open>struct json_object\<close>s, construction, reference counting and release, member and element
  access, and printing.

  A pointer is \<open>None\<close> for \<^verbatim>\<open>NULL\<close> or \<open>Some\<close> of an address; an address is never reused, so a use of a
  freed object is an access at an unmapped address, which is \<open>None\<close>.  The tag \<^verbatim>\<open>o_type\<close> and the
  function pointers \<^verbatim>\<open>_delete\<close> and \<^verbatim>\<open>_to_json_string\<close> are set together with the member of the union
  and never change, so they are read off its constructor; an access to another member of the union
  is \<open>None\<close>.  The floating-point type is a parameter, with the C library's conversions in \<open>libc\<close>.
\<close>

section \<open>Data\<close>

datatype json_type =
    json_type_null | json_type_boolean | json_type_double | json_type_int
  | json_type_object | json_type_array | json_type_string

datatype 'd data =
    C_boolean int | C_double 'd | C_int int
  | C_object "(char list, nat) lh_table" | C_array "nat array_list" | C_string "char list"

record 'd json_object =
  ref_count :: int
  pb_of :: "printbuf option"
  o_of :: "'d data"

text \<open>\<open>refuse\<close>: the allocator grants no further objects.\<close>

record 'd heap =
  objs :: "nat \<Rightarrow> 'd json_object option"
  fresh :: nat
  refuse :: bool

type_synonym ptr = "nat option"

text \<open>
  What the C library does on doubles and on a decimal number that does not fit an \<^verbatim>\<open>int\<close>.  The bytes
  above 127 are negative \<^verbatim>\<open>char\<close>s, for which the standard does not define \<^verbatim>\<open>isspace\<close>: \<open>isspace_high\<close>
  gives \<open>None\<close> where the library does not say what the call does.
\<close>

record 'd libc =
  fmt_double :: "'d \<Rightarrow> char list"
  scan_double :: "char list \<Rightarrow> 'd option"
  trunc_double :: "'d \<Rightarrow> int"
  of_int_double :: "int \<Rightarrow> 'd"
  nonzero_double :: "'d \<Rightarrow> bool"
  scan_overflow :: "int \<Rightarrow> int"
  isspace_high :: "char \<Rightarrow> bool option"

definition JSON_OBJECT_DEF_HASH_ENTRIES :: nat where
  "JSON_OBJECT_DEF_HASH_ENTRIES = 16"

definition json_number_chars :: "char list" where
  "json_number_chars = ''0123456789.+-eE''"

definition json_hex_chars :: "char list" where
  "json_hex_chars = ''0123456789abcdef''"

section \<open>Library functions of C\<close>

definition white :: "char \<Rightarrow> bool" where
  "white c \<longleftrightarrow> uchar c = 32 \<or> 9 \<le> uchar c \<and> uchar c \<le> 13"

definition isspace :: "'d libc \<Rightarrow> char \<Rightarrow> bool option" where
  "isspace lc c = (if uchar c < 128 then Some (white c) else isspace_high lc c)"

definition is_digit :: "char \<Rightarrow> bool" where
  "is_digit c \<longleftrightarrow> 48 \<le> uchar c \<and> uchar c \<le> 57"

definition digit_value :: "char \<Rightarrow> int" where
  "digit_value c = uchar c - 48"

definition digits_value :: "char list \<Rightarrow> int" where
  "digits_value ds = foldl (\<lambda>n c. 10 * n + digit_value c) 0 ds"

text \<open>\<^verbatim>\<open>sscanf\<close> with \<^verbatim>\<open>%d\<close>, in the C locale.\<close>

definition scan_int :: "'d libc \<Rightarrow> char list \<Rightarrow> int option" where
  "scan_int lc s =
     (let t = dropWhile white s;
          neg = (t \<noteq> [] \<and> hd t = CHR ''-'');
          u = (if t \<noteq> [] \<and> (hd t = CHR ''-'' \<or> hd t = CHR ''+'') then tl t else t);
          ds = takeWhile is_digit u
      in if ds = [] then None
         else (let n = (if neg then - digits_value ds else digits_value ds)
               in Some (if is_int n then n else scan_overflow lc n)))"

text \<open>The C string at the start of a block.\<close>

fun read_cstr :: "block \<Rightarrow> char list option" where
  "read_cstr [] = None"
| "read_cstr (None # b) = None"
| "read_cstr (Some c # b) = (if c = NUL then Some [] else map_option ((#) c) (read_cstr b))"

definition strndup :: "char list \<Rightarrow> nat \<Rightarrow> char list" where
  "strndup s n = (let nn = (if length s < n then length s else n) in take nn s)"

section \<open>The heap\<close>

definition obj_at :: "'d heap \<Rightarrow> nat \<Rightarrow> 'd json_object option" where
  "obj_at h a = objs h a"

definition set_obj :: "'d heap \<Rightarrow> nat \<Rightarrow> 'd json_object \<Rightarrow> 'd heap" where
  "set_obj h a j = h\<lparr>objs := (objs h)(a \<mapsto> j)\<rparr>"

definition upd_data :: "'d heap \<Rightarrow> nat \<Rightarrow> 'd data \<Rightarrow> 'd heap option" where
  "upd_data h a d = do { j \<leftarrow> obj_at h a; Some (set_obj h a (j\<lparr>o_of := d\<rparr>)) }"

definition c_object :: "'d data \<Rightarrow> (char list, nat) lh_table option" where
  "c_object d = (case d of C_object t \<Rightarrow> Some t | _ \<Rightarrow> None)"

definition c_array :: "'d data \<Rightarrow> nat array_list option" where
  "c_array d = (case d of C_array t \<Rightarrow> Some t | _ \<Rightarrow> None)"

text \<open>The object and its address behind a pointer that the code dereferences.\<close>

definition deref :: "'d heap \<Rightarrow> ptr \<Rightarrow> (nat \<times> 'd json_object) option" where
  "deref h p = do { a \<leftarrow> p; j \<leftarrow> obj_at h a; Some (a, j) }"

section \<open>Construction\<close>

definition json_object_new :: "'d heap \<Rightarrow> 'd data \<Rightarrow> 'd heap \<times> ptr" where
  "json_object_new h d =
     (if refuse h then (h, None)
      else (h\<lparr>objs := (objs h)(fresh h \<mapsto> \<lparr>ref_count = 1, pb_of = None, o_of = d\<rparr>), fresh := Suc (fresh h)\<rparr>,
            Some (fresh h)))"

definition json_object_new_object :: "'d heap \<Rightarrow> 'd heap \<times> ptr" where
  "json_object_new_object h =
     json_object_new h (C_object (lh_kchar_table_new JSON_OBJECT_DEF_HASH_ENTRIES True))"

definition json_object_new_boolean :: "'d heap \<Rightarrow> int \<Rightarrow> 'd heap \<times> ptr" where
  "json_object_new_boolean h b = json_object_new h (C_boolean b)"

definition json_object_new_int :: "'d heap \<Rightarrow> int \<Rightarrow> 'd heap \<times> ptr" where
  "json_object_new_int h i = json_object_new h (C_int i)"

definition json_object_new_double :: "'d heap \<Rightarrow> 'd \<Rightarrow> 'd heap \<times> ptr" where
  "json_object_new_double h d = json_object_new h (C_double d)"

definition json_object_new_string :: "'d heap \<Rightarrow> char list \<Rightarrow> 'd heap \<times> ptr" where
  "json_object_new_string h s = json_object_new h (C_string s)"

definition json_object_new_string_len :: "'d heap \<Rightarrow> char list \<Rightarrow> nat \<Rightarrow> 'd heap \<times> ptr" where
  "json_object_new_string_len h s n = json_object_new h (C_string (strndup s n))"

text \<open>The list of a new array is not checked for \<^verbatim>\<open>NULL\<close>; its allocation is granted.\<close>

definition json_object_new_array :: "'d heap \<Rightarrow> 'd heap \<times> ptr" where
  "json_object_new_array h =
     json_object_new h (C_array (the (array_list_new True True)))"

section \<open>Reference counting and release\<close>

definition json_object_get :: "'d heap \<Rightarrow> ptr \<Rightarrow> ('d heap \<times> ptr) option" where
  "json_object_get h p =
     (case p of
        None \<Rightarrow> Some (h, None)
      | Some a \<Rightarrow> do {
          j \<leftarrow> obj_at h a;
          Some (set_obj h a (j\<lparr>ref_count := c_int (ref_count j + 1)\<rparr>), Some a)
        })"

definition json_object_generic_delete :: "'d heap \<Rightarrow> nat \<Rightarrow> 'd heap" where
  "json_object_generic_delete h a = h\<lparr>objs := (objs h)(a := None)\<rparr>"

text \<open>The callbacks of the containers, over the release function \<open>put\<close> they call.\<close>

definition json_object_lh_entry_free ::
  "('d heap \<Rightarrow> ptr \<Rightarrow> 'd heap option) \<Rightarrow> 'd heap \<Rightarrow> 'k \<times> ptr \<Rightarrow> 'd heap option" where
  "json_object_lh_entry_free put h ent = put h (snd ent)"

definition json_object_array_entry_free ::
  "('d heap \<Rightarrow> ptr \<Rightarrow> 'd heap option) \<Rightarrow> 'd heap \<Rightarrow> nat \<Rightarrow> 'd heap option" where
  "json_object_array_entry_free put h a = put h (Some a)"

definition json_object_object_delete ::
  "('d heap \<Rightarrow> ptr \<Rightarrow> 'd heap option) \<Rightarrow> 'd heap \<Rightarrow> nat \<Rightarrow> (char list, nat) lh_table \<Rightarrow> 'd heap option" where
  "json_object_object_delete put h a t = do {
     ents \<leftarrow> lh_table_free t;
     h1 \<leftarrow> foldM (json_object_lh_entry_free put) h ents;
     Some (json_object_generic_delete h1 a)
   }"

definition json_object_array_delete ::
  "('d heap \<Rightarrow> ptr \<Rightarrow> 'd heap option) \<Rightarrow> 'd heap \<Rightarrow> nat \<Rightarrow> nat array_list \<Rightarrow> 'd heap option" where
  "json_object_array_delete put h a arr = do {
     els \<leftarrow> array_list_free arr;
     h1 \<leftarrow> foldM (json_object_array_entry_free put) h els;
     Some (json_object_generic_delete h1 a)
   }"

definition json_object_string_delete :: "'d heap \<Rightarrow> nat \<Rightarrow> 'd heap" where
  "json_object_string_delete h a = json_object_generic_delete h a"

definition delete_of ::
  "('d heap \<Rightarrow> ptr \<Rightarrow> 'd heap option) \<Rightarrow> 'd heap \<Rightarrow> nat \<Rightarrow> 'd data \<Rightarrow> 'd heap option" where
  "delete_of put h a d =
     (case d of
        C_object t \<Rightarrow> json_object_object_delete put h a t
      | C_array arr \<Rightarrow> json_object_array_delete put h a arr
      | C_string s \<Rightarrow> Some (json_object_string_delete h a)
      | _ \<Rightarrow> Some (json_object_generic_delete h a))"

lemma delete_of_mono [partial_function_mono]:
  assumes "\<And>h p. mono_option (\<lambda>f. put f h p)"
  shows "mono_option (\<lambda>f. delete_of (put f) h a d)"
  unfolding delete_of_def json_object_object_delete_def json_object_array_delete_def
    json_object_lh_entry_free_def json_object_array_entry_free_def
  by (cases d) (simp, intro bind_mono foldM_mono assms option.const_mono)+

partial_function (option) json_object_put :: "'d heap \<Rightarrow> ptr \<Rightarrow> 'd heap option" where
  "json_object_put h p =
     (case p of
        None \<Rightarrow> Some h
      | Some a \<Rightarrow> obj_at h a \<bind> (\<lambda>j.
          let rc = c_int (ref_count j - 1);
              h1 = set_obj h a (j\<lparr>ref_count := rc\<rparr>)
          in if rc = 0 then delete_of (\<lambda>h p. json_object_put h p) h1 a (o_of j) else Some h1))"

declare json_object_put.simps [code]

section \<open>Members and elements\<close>

definition data_type :: "'d data \<Rightarrow> json_type" where
  "data_type d = (case d of
       C_boolean _ \<Rightarrow> json_type_boolean | C_double _ \<Rightarrow> json_type_double | C_int _ \<Rightarrow> json_type_int
     | C_object _ \<Rightarrow> json_type_object | C_array _ \<Rightarrow> json_type_array | C_string _ \<Rightarrow> json_type_string)"

definition json_object_is_type :: "'d heap \<Rightarrow> ptr \<Rightarrow> json_type \<Rightarrow> bool option" where
  "json_object_is_type h p ty = do { (a, j) \<leftarrow> deref h p; Some (data_type (o_of j) = ty) }"

definition json_object_get_type :: "'d heap \<Rightarrow> ptr \<Rightarrow> json_type option" where
  "json_object_get_type h p = do { (a, j) \<leftarrow> deref h p; Some (data_type (o_of j)) }"

definition json_object_get_object :: "'d heap \<Rightarrow> ptr \<Rightarrow> (char list, nat) lh_table option option" where
  "json_object_get_object h p =
     (case p of None \<Rightarrow> Some None
      | Some a \<Rightarrow> do { j \<leftarrow> obj_at h a; Some (case o_of j of C_object t \<Rightarrow> Some t | _ \<Rightarrow> None) })"

definition json_object_get_array :: "'d heap \<Rightarrow> ptr \<Rightarrow> nat array_list option option" where
  "json_object_get_array h p =
     (case p of None \<Rightarrow> Some None
      | Some a \<Rightarrow> do { j \<leftarrow> obj_at h a; Some (case o_of j of C_array t \<Rightarrow> Some t | _ \<Rightarrow> None) })"

text \<open>
  The removal inside a table runs the callback on the displaced entry; the release it triggers may
  change this object's reference count but not its table.
\<close>

definition json_object_object_del :: "'d heap \<Rightarrow> ptr \<Rightarrow> char list \<Rightarrow> 'd heap option" where
  "json_object_object_del h p key = do {
     (a, j) \<leftarrow> deref h p;
     t \<leftarrow> c_object (o_of j);
     (t1, freed, _) \<leftarrow> lh_table_delete t key;
     h1 \<leftarrow> foldM (json_object_lh_entry_free json_object_put) h freed;
     upd_data h1 a (C_object t1)
   }"

definition json_object_object_add :: "'d heap \<Rightarrow> ptr \<Rightarrow> char list \<Rightarrow> ptr \<Rightarrow> 'd heap option" where
  "json_object_object_add h p key val = do {
     (a, j) \<leftarrow> deref h p;
     t \<leftarrow> c_object (o_of j);
     (t1, freed, _) \<leftarrow> lh_table_delete t key;
     h1 \<leftarrow> foldM (json_object_lh_entry_free json_object_put) h freed;
     t2 \<leftarrow> lh_table_insert t1 key val;
     upd_data h1 a (C_object t2)
   }"

definition json_object_object_get :: "'d heap \<Rightarrow> ptr \<Rightarrow> char list \<Rightarrow> ('d heap \<times> ptr) option" where
  "json_object_object_get h p key = do {
     (a, j) \<leftarrow> deref h p;
     t \<leftarrow> c_object (o_of j);
     (t1, v) \<leftarrow> lh_table_lookup t key;
     h1 \<leftarrow> upd_data h a (C_object t1);
     Some (h1, v)
   }"

definition json_object_array_length :: "'d heap \<Rightarrow> ptr \<Rightarrow> int option" where
  "json_object_array_length h p = do {
     (a, j) \<leftarrow> deref h p;
     arr \<leftarrow> c_array (o_of j);
     Some (array_list_length arr)
   }"

definition json_object_array_add :: "'d heap \<Rightarrow> ptr \<Rightarrow> ptr \<Rightarrow> ('d heap \<times> int) option" where
  "json_object_array_add h p val = do {
     (a, j) \<leftarrow> deref h p;
     arr \<leftarrow> c_array (o_of j);
     (arr1, freed, r) \<leftarrow> array_list_add True arr val;
     h1 \<leftarrow> foldM (json_object_array_entry_free json_object_put) h freed;
     h2 \<leftarrow> upd_data h1 a (C_array arr1);
     Some (h2, r)
   }"

definition json_object_array_put_idx :: "'d heap \<Rightarrow> ptr \<Rightarrow> int \<Rightarrow> ptr \<Rightarrow> ('d heap \<times> int) option" where
  "json_object_array_put_idx h p idx val = do {
     (a, j) \<leftarrow> deref h p;
     arr \<leftarrow> c_array (o_of j);
     (arr1, freed, r) \<leftarrow> array_list_put_idx True arr idx val;
     h1 \<leftarrow> foldM (json_object_array_entry_free json_object_put) h freed;
     h2 \<leftarrow> upd_data h1 a (C_array arr1);
     Some (h2, r)
   }"

definition json_object_array_get_idx :: "'d heap \<Rightarrow> ptr \<Rightarrow> int \<Rightarrow> ptr option" where
  "json_object_array_get_idx h p idx = do {
     (a, j) \<leftarrow> deref h p;
     arr \<leftarrow> c_array (o_of j);
     array_list_get_idx arr idx
   }"

section \<open>Scalar accessors\<close>

definition json_object_get_boolean :: "'d libc \<Rightarrow> 'd heap \<Rightarrow> ptr \<Rightarrow> int option" where
  "json_object_get_boolean lc h p =
     (case p of None \<Rightarrow> Some 0
      | Some a \<Rightarrow> do {
          j \<leftarrow> obj_at h a;
          Some (case o_of j of
              C_boolean b \<Rightarrow> b
            | C_int i \<Rightarrow> of_bool (i \<noteq> 0)
            | C_double d \<Rightarrow> of_bool (nonzero_double lc d)
            | C_string s \<Rightarrow> of_bool (length s \<noteq> 0)
            | _ \<Rightarrow> 0)
        })"

definition json_object_get_int :: "'d libc \<Rightarrow> 'd heap \<Rightarrow> ptr \<Rightarrow> int option" where
  "json_object_get_int lc h p =
     (case p of None \<Rightarrow> Some 0
      | Some a \<Rightarrow> do {
          j \<leftarrow> obj_at h a;
          Some (case o_of j of
              C_int i \<Rightarrow> i
            | C_double d \<Rightarrow> trunc_double lc d
            | C_boolean b \<Rightarrow> b
            | C_string s \<Rightarrow> (case scan_int lc s of Some i \<Rightarrow> i | None \<Rightarrow> 0)
            | _ \<Rightarrow> 0)
        })"

definition json_object_get_double :: "'d libc \<Rightarrow> 'd heap \<Rightarrow> ptr \<Rightarrow> 'd option" where
  "json_object_get_double lc h p =
     (case p of None \<Rightarrow> Some (of_int_double lc 0)
      | Some a \<Rightarrow> do {
          j \<leftarrow> obj_at h a;
          Some (case o_of j of
              C_double d \<Rightarrow> d
            | C_int i \<Rightarrow> of_int_double lc i
            | C_boolean b \<Rightarrow> of_int_double lc b
            | C_string s \<Rightarrow> (case scan_double lc s of Some d \<Rightarrow> d | None \<Rightarrow> of_int_double lc 0)
            | _ \<Rightarrow> of_int_double lc 0)
        })"

section \<open>Printing\<close>

text \<open>The character of a C string at a position; the terminator ends it.\<close>

definition cstr_at :: "char list \<Rightarrow> nat \<Rightarrow> char" where
  "cstr_at s i = (if i < length s then s ! i else NUL)"

definition flush :: "printbuf \<Rightarrow> char list \<Rightarrow> nat \<Rightarrow> nat \<Rightarrow> printbuf option" where
  "flush pb s start pos =
     (if pos - start > 0 then pb_append pb (take (pos - start) (drop start s)) else Some pb)"

function json_escape_loop :: "printbuf \<Rightarrow> char list \<Rightarrow> nat \<Rightarrow> nat \<Rightarrow> printbuf option" where
  "json_escape_loop pb s start pos =
     (let c = cstr_at s pos
      in if c = NUL then flush pb s start pos
         else if c = CHR 0x08 \<or> c = CHR 0x0a \<or> c = CHR 0x0d \<or> c = CHR 0x09 \<or> c = CHR 0x22 \<or>
                 c = CHR 0x5c \<or> c = CHR ''/''
         then do {
           pb1 \<leftarrow> flush pb s start pos;
           pb2 \<leftarrow> pb_append pb1
             (if c = CHR 0x08 then [CHR 0x5c, CHR ''b'']
              else if c = CHR 0x0a then [CHR 0x5c, CHR ''n'']
              else if c = CHR 0x0d then [CHR 0x5c, CHR ''r'']
              else if c = CHR 0x09 then [CHR 0x5c, CHR ''t'']
              else if c = CHR 0x22 then [CHR 0x5c, CHR 0x22]
              else if c = CHR 0x5c then [CHR 0x5c, CHR 0x5c]
              else [CHR 0x5c, CHR ''/'']);
           json_escape_loop pb2 s (Suc pos) (Suc pos)
         }
         else if uchar c < 32
         then do {
           pb1 \<leftarrow> flush pb s start pos;
           pb2 \<leftarrow> pb_print pb1 ([CHR 0x5c, CHR ''u'', CHR ''0'', CHR ''0''] @
             [json_hex_chars ! nat (uchar c div 16), json_hex_chars ! nat (uchar c mod 16)]);
           json_escape_loop pb2 s (Suc pos) (Suc pos)
         }
         else json_escape_loop pb s start (Suc pos))"
  by pat_completeness auto
termination
  by (relation "measure (\<lambda>(pb, s, start, pos). length s - pos)")
    (auto simp: cstr_at_def split: if_splits)

declare json_escape_loop.simps [simp del]

definition json_escape_str :: "printbuf \<Rightarrow> char list \<Rightarrow> (printbuf \<times> int) option" where
  "json_escape_str pb s = do { pb1 \<leftarrow> json_escape_loop pb s 0 0; Some (pb1, 0) }"

definition json_object_boolean_to_json_string :: "int \<Rightarrow> printbuf \<Rightarrow> (printbuf \<times> int) option" where
  "json_object_boolean_to_json_string b pb =
     (if b \<noteq> 0 then sprintbuf True True pb ''true'' else sprintbuf True True pb ''false'')"

definition json_object_int_to_json_string :: "int \<Rightarrow> printbuf \<Rightarrow> (printbuf \<times> int) option" where
  "json_object_int_to_json_string i pb = sprintbuf True True pb (int_text i)"

definition json_object_double_to_json_string ::
  "'d libc \<Rightarrow> 'd \<Rightarrow> printbuf \<Rightarrow> (printbuf \<times> int) option" where
  "json_object_double_to_json_string lc d pb = sprintbuf True True pb (fmt_double lc d)"

definition json_object_string_to_json_string :: "char list \<Rightarrow> printbuf \<Rightarrow> (printbuf \<times> int) option" where
  "json_object_string_to_json_string s pb = do {
     pb1 \<leftarrow> pb_print pb [CHR 0x22];
     (pb2, _) \<leftarrow> json_escape_str pb1 s;
     pb3 \<leftarrow> pb_print pb2 [CHR 0x22];
     Some (pb3, 0)
   }"

text \<open>The container printers, over the function \<open>rec\<close> that prints a member.\<close>

definition print_value ::
  "(nat \<Rightarrow> printbuf \<Rightarrow> (printbuf \<times> int) option) \<Rightarrow> ptr \<Rightarrow> printbuf \<Rightarrow> printbuf option" where
  "print_value rec val pb =
     (case val of None \<Rightarrow> pb_print pb ''null'' | Some a \<Rightarrow> map_option fst (rec a pb))"

fun object_members ::
  "(nat \<Rightarrow> printbuf \<Rightarrow> (printbuf \<times> int) option) \<Rightarrow> nat \<Rightarrow> (char list slot_key \<times> ptr) list \<Rightarrow>
   printbuf \<Rightarrow> printbuf option" where
  "object_members rec i [] pb = Some pb"
| "object_members rec i ((LH_KEY key, val) # es) pb = do {
     pb1 \<leftarrow> (if i \<noteq> 0 then pb_print pb '','' else Some pb);
     pb2 \<leftarrow> pb_print pb1 [CHR '' '', CHR 0x22];
     (pb3, _) \<leftarrow> json_escape_str pb2 key;
     pb4 \<leftarrow> pb_print pb3 [CHR 0x22, CHR '':'', CHR '' ''];
     pb5 \<leftarrow> print_value rec val pb4;
     object_members rec (Suc i) es pb5
   }"
| "object_members rec i (_ # es) pb = None"

definition json_object_object_to_json_string ::
  "(nat \<Rightarrow> printbuf \<Rightarrow> (printbuf \<times> int) option) \<Rightarrow> (char list, nat) lh_table \<Rightarrow> printbuf \<Rightarrow>
   (printbuf \<times> int) option" where
  "json_object_object_to_json_string rec t pb = do {
     pb1 \<leftarrow> pb_print pb ''{'';
     es \<leftarrow> walk (table t) (head t);
     pb2 \<leftarrow> object_members rec 0 es pb1;
     sprintbuf True True pb2 '' }''
   }"

fun array_elements ::
  "(nat \<Rightarrow> printbuf \<Rightarrow> (printbuf \<times> int) option) \<Rightarrow> nat array_list \<Rightarrow> int \<Rightarrow> nat \<Rightarrow>
   printbuf \<Rightarrow> printbuf option" where
  "array_elements rec arr i 0 pb = Some pb"
| "array_elements rec arr i (Suc k) pb = do {
     pb1 \<leftarrow> (if i \<noteq> 0 then pb_print pb '', '' else pb_print pb '' '');
     val \<leftarrow> array_list_get_idx arr i;
     pb2 \<leftarrow> print_value rec val pb1;
     array_elements rec arr (c_int (i + 1)) k pb2
   }"

definition json_object_array_to_json_string ::
  "(nat \<Rightarrow> printbuf \<Rightarrow> (printbuf \<times> int) option) \<Rightarrow> nat array_list \<Rightarrow> printbuf \<Rightarrow>
   (printbuf \<times> int) option" where
  "json_object_array_to_json_string rec arr pb = do {
     pb1 \<leftarrow> pb_print pb ''['';
     pb2 \<leftarrow> array_elements rec arr 0 (nat (array_list_length arr)) pb1;
     sprintbuf True True pb2 '' ]''
   }"

definition to_json_string_of ::
  "'d libc \<Rightarrow> (nat \<Rightarrow> printbuf \<Rightarrow> (printbuf \<times> int) option) \<Rightarrow> 'd data \<Rightarrow> printbuf \<Rightarrow>
   (printbuf \<times> int) option" where
  "to_json_string_of lc rec d pb =
     (case d of
        C_boolean b \<Rightarrow> json_object_boolean_to_json_string b pb
      | C_double x \<Rightarrow> json_object_double_to_json_string lc x pb
      | C_int i \<Rightarrow> json_object_int_to_json_string i pb
      | C_object t \<Rightarrow> json_object_object_to_json_string rec t pb
      | C_array arr \<Rightarrow> json_object_array_to_json_string rec arr pb
      | C_string s \<Rightarrow> json_object_string_to_json_string s pb)"

lemma map_option_bind: "map_option g m = m \<bind> (\<lambda>x. Some (g x))"
  by (cases m) auto

lemma print_value_mono [partial_function_mono]:
  assumes "\<And>a pb. mono_option (\<lambda>f. rec f a pb)"
  shows "mono_option (\<lambda>f. print_value (rec f) val pb)"
  unfolding print_value_def map_option_bind
  by (cases val) (simp, intro bind_mono assms option.const_mono)+

lemma object_members_mono [partial_function_mono]:
  assumes "\<And>a pb. mono_option (\<lambda>f. rec f a pb)"
  shows "mono_option (\<lambda>f. object_members (rec f) i es pb)"
proof (induction es arbitrary: i pb)
  case Nil
  show ?case by (simp add: monotone_def flat_ord_def fun_ord_def)
next
  case (Cons e es)
  obtain k v where e: "e = (k, v)" by (cases e)
  show ?case
  proof (cases k)
    case (LH_KEY key)
    show ?thesis unfolding e LH_KEY object_members.simps case_prod_unfold
      by (intro bind_mono print_value_mono assms option.const_mono Cons.IH)
  qed (simp_all add: e monotone_def flat_ord_def fun_ord_def)
qed

lemma array_elements_mono [partial_function_mono]:
  assumes "\<And>a pb. mono_option (\<lambda>f. rec f a pb)"
  shows "mono_option (\<lambda>f. array_elements (rec f) arr i k pb)"
proof (induction k arbitrary: i pb)
  case 0
  show ?case by (simp add: monotone_def flat_ord_def fun_ord_def)
next
  case (Suc k)
  show ?case unfolding array_elements.simps
    by (intro bind_mono print_value_mono assms option.const_mono Suc.IH)
qed

lemma to_json_string_of_mono [partial_function_mono]:
  assumes "\<And>a pb. mono_option (\<lambda>f. rec f a pb)"
  shows "mono_option (\<lambda>f. to_json_string_of lc (rec f) d pb)"
  unfolding to_json_string_of_def json_object_object_to_json_string_def
    json_object_array_to_json_string_def
  by (cases d)
    (simp, intro bind_mono object_members_mono array_elements_mono assms option.const_mono)+

partial_function (option) print_object ::
  "'d libc \<Rightarrow> 'd heap \<Rightarrow> nat \<Rightarrow> printbuf \<Rightarrow> (printbuf \<times> int) option" where
  "print_object lc h a pb =
     obj_at h a \<bind> (\<lambda>j. to_json_string_of lc (\<lambda>a pb. print_object lc h a pb) (o_of j) pb)"

declare print_object.simps [code]

text \<open>The entry point: the text is read from the object's own buffer.\<close>

definition json_object_to_json_string ::
  "'d libc \<Rightarrow> 'd heap \<Rightarrow> ptr \<Rightarrow> ('d heap \<times> char list option) option" where
  "json_object_to_json_string lc h p =
     (case p of
        None \<Rightarrow> Some (h, Some ''null'')
      | Some a \<Rightarrow> do {
          j \<leftarrow> obj_at h a;
          (case pb_of j of
             None \<Rightarrow>
               (case printbuf_new (\<not> refuse h) (\<not> refuse h) of
                  None \<Rightarrow> Some (h, None)
                | Some pb \<Rightarrow> do {
                    (pb1, r) \<leftarrow> print_object lc h a pb;
                    let h1 = set_obj h a (j\<lparr>pb_of := Some pb1\<rparr>);
                    if r < 0 then Some (h1, None)
                    else do { s \<leftarrow> read_cstr (buf pb1); Some (h1, Some s) }
                  })
           | Some pb0 \<Rightarrow> do {
               pb \<leftarrow> printbuf_reset pb0;
               (pb1, r) \<leftarrow> print_object lc h a pb;
               let h1 = set_obj h a (j\<lparr>pb_of := Some pb1\<rparr>);
               if r < 0 then Some (h1, None)
               else do { s \<leftarrow> read_cstr (buf pb1); Some (h1, Some s) }
             })
        })"

definition json_object_get_string :: "'d libc \<Rightarrow> 'd heap \<Rightarrow> ptr \<Rightarrow> ('d heap \<times> char list option) option" where
  "json_object_get_string lc h p =
     (case p of
        None \<Rightarrow> Some (h, None)
      | Some a \<Rightarrow> do {
          j \<leftarrow> obj_at h a;
          (case o_of j of
             C_string s \<Rightarrow> Some (h, Some s)
           | _ \<Rightarrow> json_object_to_json_string lc h (Some a))
        })"

end
