(* ===== verification/JsonPrint.thy ===== *)
theory JsonPrint
  imports JsonObject
begin

text \<open>
  The text a JSON object is printed as.  \<open>jval\<close> is the value a pointer stands for, \<open>print_json\<close> the
  text of a value, \<open>rep\<close> relates the two in a heap (sharing allowed), and the main result says that
  the printer of \<open>JsonObject\<close> produces exactly that text inside its buffer.
\<close>

section \<open>Values and their text\<close>

datatype 'd jval =
    JNull | JBool int | JInt int | JDouble 'd | JString "char list"
  | JArray "'d jval list" | JObject "(char list \<times> 'd jval) list"

definition esc_char :: "char \<Rightarrow> char list" where
  "esc_char c =
     (if c = CHR 0x08 then [CHR 0x5c, CHR ''b'']
      else if c = CHR 0x0a then [CHR 0x5c, CHR ''n'']
      else if c = CHR 0x0d then [CHR 0x5c, CHR ''r'']
      else if c = CHR 0x09 then [CHR 0x5c, CHR ''t'']
      else if c = CHR 0x22 then [CHR 0x5c, CHR 0x22]
      else if c = CHR 0x5c then [CHR 0x5c, CHR 0x5c]
      else if c = CHR ''/'' then [CHR 0x5c, CHR ''/'']
      else if uchar c < 32 then
        [CHR 0x5c, CHR ''u'', CHR ''0'', CHR ''0'', json_hex_chars ! nat (uchar c div 16), json_hex_chars ! nat (uchar c mod 16)]
      else [c])"

definition esc :: "char list \<Rightarrow> char list" where
  "esc s = concat (map esc_char s)"

definition commas :: "char list \<Rightarrow> char list list \<Rightarrow> char list" where
  "commas sep xs = (case xs of [] \<Rightarrow> [] | x # xs \<Rightarrow> x @ concat (map ((@) sep) xs))"

fun print_json :: "'d libc \<Rightarrow> 'd jval \<Rightarrow> char list" where
  "print_json lc JNull = ''null''"
| "print_json lc (JBool b) = (if b \<noteq> 0 then ''true'' else ''false'')"
| "print_json lc (JInt i) = int_text i"
| "print_json lc (JDouble d) = fmt_double lc d"
| "print_json lc (JString s) = [CHR 0x22] @ esc s @ [CHR 0x22]"
| "print_json lc (JArray vs) =
     ''['' @ commas '','' (map (\<lambda>v. '' '' @ print_json lc v) vs) @ '' ]''"
| "print_json lc (JObject kvs) =
     ''{'' @ commas '',''
       (map (\<lambda>(k, v). [CHR '' '', CHR 0x22] @ esc k @ [CHR 0x22, CHR '':'', CHR '' ''] @ print_json lc v) kvs)
     @ '' }''"

section \<open>What a pointer stands for\<close>

inductive rep :: "'d heap \<Rightarrow> ptr \<Rightarrow> 'd jval \<Rightarrow> bool" for h where
  rep_null: "rep h None JNull"
| rep_bool: "obj_at h a = Some j \<Longrightarrow> o_of j = C_boolean b \<Longrightarrow> rep h (Some a) (JBool b)"
| rep_int: "obj_at h a = Some j \<Longrightarrow> o_of j = C_int i \<Longrightarrow> rep h (Some a) (JInt i)"
| rep_double: "obj_at h a = Some j \<Longrightarrow> o_of j = C_double d \<Longrightarrow> rep h (Some a) (JDouble d)"
| rep_string: "obj_at h a = Some j \<Longrightarrow> o_of j = C_string s \<Longrightarrow> NUL \<notin> set s \<Longrightarrow> rep h (Some a) (JString s)"
| rep_array: "obj_at h a = Some j \<Longrightarrow> o_of j = C_array arr \<Longrightarrow> al_wf arr \<Longrightarrow>
    list_all2 (rep h) (al_list arr) vs \<Longrightarrow> rep h (Some a) (JArray vs)"
| rep_object: "obj_at h a = Some j \<Longrightarrow> o_of j = C_object t \<Longrightarrow> lh_abs t al \<Longrightarrow>
    list_all2 (\<lambda>e kv. fst e = fst kv \<and> NUL \<notin> set (fst e) \<and> rep h (snd e) (snd kv)) al kvs \<Longrightarrow>
    rep h (Some a) (JObject kvs)"

section \<open>Escaping\<close>

lemma esc_append [simp]: "esc (s @ t) = esc s @ esc t"
  by (simp add: esc_def)

lemma esc_simps [simp]: "esc [] = []" "esc (c # s) = esc_char c @ esc s"
  by (simp_all add: esc_def)

definition plain :: "char \<Rightarrow> bool" where
  "plain c \<longleftrightarrow> 32 \<le> uchar c \<and> c \<noteq> CHR 0x22 \<and> c \<noteq> CHR 0x5c \<and> c \<noteq> CHR ''/''"

lemma esc_plain: "plain c \<Longrightarrow> esc_char c = [c]"
  by (auto simp: plain_def esc_char_def uchar_def)

lemma esc_all_plain: "list_all plain s \<Longrightarrow> esc s = s"
  by (induction s) (auto simp: esc_plain)

lemma flush_room:
  assumes "pb_room pb (length mid + k)"
  shows "\<exists>q. flush pb (pre @ mid @ post) (length pre) (length pre + length mid) = Some q \<and>
    pb_text q = pb_text pb @ mid \<and> pb_room q k \<and> (pb_terminated pb \<or> mid \<noteq> [] \<longrightarrow> pb_terminated q)"
  using pb_append_room [OF assms] assms by (cases "mid = []") (auto simp: flush_def)

text \<open>The two branches of the loop body that go on, by the character met.\<close>

lemma cstr_at_mid: "cstr_at (pre @ mid @ c # post) (length pre + length mid) = c"
  by (simp add: cstr_at_def nth_append)

lemma escape_loop_plain:
  assumes "plain c" "cstr_at s pos = c"
  shows "json_escape_loop pb s start pos = json_escape_loop pb s start (Suc pos)"
proof -
  have "c \<noteq> NUL" "\<not> uchar c < 32" "c \<noteq> CHR 0x08" "c \<noteq> CHR 0x0a" "c \<noteq> CHR 0x0d" "c \<noteq> CHR 0x09"
    "c \<noteq> CHR 0x22" "c \<noteq> CHR 0x5c" "c \<noteq> CHR ''/''"
    using assms(1) by (auto simp: plain_def uchar_def)
  then show ?thesis
    unfolding json_escape_loop.simps [of pb s start pos] assms(2) Let_def by simp
qed

lemma escape_loop_special:
  assumes "\<not> plain c" "c \<noteq> NUL" "cstr_at s pos = c"
  shows "json_escape_loop pb s start pos =
    flush pb s start pos \<bind> (\<lambda>p1. pb_append p1 (esc_char c) \<bind>
      (\<lambda>p2. json_escape_loop p2 s (Suc pos) (Suc pos)))"
proof (cases "c = CHR 0x08 \<or> c = CHR 0x0a \<or> c = CHR 0x0d \<or> c = CHR 0x09 \<or> c = CHR 0x22 \<or>
    c = CHR 0x5c \<or> c = CHR ''/''")
  case True
  then show ?thesis
    unfolding json_escape_loop.simps [of pb s start pos] assms(3) Let_def esc_char_def by auto
next
  case False
  then have "uchar c < 32" using assms(1) by (auto simp: plain_def)
  then show ?thesis using False assms(2)
    unfolding json_escape_loop.simps [of pb s start pos] assms(3) Let_def esc_char_def by simp
qed

lemma escape_loop_end:
  "NUL \<notin> set s \<Longrightarrow> json_escape_loop pb s start (length s) = flush pb s start (length s)"
  by (simp add: json_escape_loop.simps [of pb s start "length s"] cstr_at_def)

text \<open>
  The loop with the plain characters \<open>mid\<close> not yet copied appends them and the escaped rest.
\<close>

lemma escape_loop_room:
  assumes "NUL \<notin> set post" "pb_room pb (length mid + length (esc post) + k)"
  shows "\<exists>q. json_escape_loop pb (pre @ mid @ post) (length pre) (length pre + length mid) = Some q \<and>
    pb_text q = pb_text pb @ mid @ esc post \<and> pb_room q k \<and>
    (pb_terminated pb \<or> mid @ post \<noteq> [] \<longrightarrow> pb_terminated q)"
  using assms
proof (induction post arbitrary: pre mid pb)
  case Nil
  have "json_escape_loop pb (pre @ mid) (length pre) (length pre + length mid) =
      flush pb (pre @ mid) (length pre) (length pre + length mid)"
    by (simp add: json_escape_loop.simps [of pb "pre @ mid"] cstr_at_def)
  then show ?case using flush_room [of pb mid k pre "[]"] Nil by auto
next
  case (Cons c post)
  show ?case
  proof (cases "plain c")
    case True
    have "json_escape_loop pb (pre @ mid @ c # post) (length pre) (length pre + length mid) =
        json_escape_loop pb (pre @ (mid @ [c]) @ post) (length pre) (length pre + length (mid @ [c]))"
      using escape_loop_plain [OF True cstr_at_mid] by simp
    then show ?thesis
      using Cons.IH [of pb "mid @ [c]" pre] Cons.prems esc_plain [OF True] by auto
  next
    case False
    let ?k = "length (esc_char c) + (length (esc post) + k)"
    have "pb_room pb (length mid + ?k)" using Cons.prems(2) by (simp add: add.assoc)
    then obtain p1 where p1:
      "flush pb (pre @ mid @ c # post) (length pre) (length pre + length mid) = Some p1"
      "pb_text p1 = pb_text pb @ mid" "pb_room p1 ?k"
      using flush_room by blast
    obtain p2 where p2: "pb_append p1 (esc_char c) = Some p2" "pb_text p2 = pb_text p1 @ esc_char c"
      "pb_room p2 (length (esc post) + k)" "pb_terminated p2"
      using pb_append_room [OF p1(3)] by blast
    obtain q where q: "json_escape_loop p2 ((pre @ mid @ [c]) @ [] @ post) (length (pre @ mid @ [c]))
        (length (pre @ mid @ [c]) + length ([] :: char list)) = Some q"
      "pb_text q = pb_text p2 @ [] @ esc post" "pb_room q k" "pb_terminated q"
      using Cons.IH [of p2 "[]" "pre @ mid @ [c]"] Cons.prems(1) p2(3,4) by auto
    have "c \<noteq> NUL" using Cons.prems(1) by auto
    then have "json_escape_loop pb (pre @ mid @ c # post) (length pre) (length pre + length mid) =
        json_escape_loop p2 (pre @ mid @ c # post) (Suc (length pre + length mid)) (Suc (length pre + length mid))"
      using escape_loop_special [OF False _ cstr_at_mid] p1(1) p2(1) by simp
    then show ?thesis using q p1 p2 by simp
  qed
qed

section \<open>Printers\<close>

text \<open>\<open>prints f x\<close>: given the room, \<open>f\<close> appends exactly \<open>x\<close>.  Printers compose.\<close>

definition prints :: "(printbuf \<Rightarrow> printbuf option) \<Rightarrow> char list \<Rightarrow> bool" where
  "prints f x \<longleftrightarrow> (\<forall>pb k. pb_room pb (length x + k) \<longrightarrow>
     (\<exists>q. f pb = Some q \<and> pb_text q = pb_text pb @ x \<and> pb_room q k \<and>
        (pb_terminated pb \<or> x \<noteq> [] \<longrightarrow> pb_terminated q)))"

lemma prints_seq: "prints f x \<Longrightarrow> prints g y \<Longrightarrow> prints (\<lambda>pb. f pb \<bind> g) (x @ y)"
proof -
  assume f: "prints f x" and g: "prints g y"
  show "prints (\<lambda>pb. f pb \<bind> g) (x @ y)" unfolding prints_def
  proof (intro allI impI)
    fix pb k
    assume "pb_room pb (length (x @ y) + k)"
    then have "pb_room pb (length x + (length y + k))" by (simp add: add.assoc)
    then obtain p where p: "f pb = Some p" "pb_text p = pb_text pb @ x" "pb_room p (length y + k)"
      "pb_terminated pb \<or> x \<noteq> [] \<longrightarrow> pb_terminated p"
      using f unfolding prints_def by blast
    then obtain q where "g p = Some q" "pb_text q = pb_text p @ y" "pb_room q k"
      "pb_terminated p \<or> y \<noteq> [] \<longrightarrow> pb_terminated q"
      using g unfolding prints_def by blast
    then show "\<exists>q. f pb \<bind> g = Some q \<and> pb_text q = pb_text pb @ x @ y \<and> pb_room q k \<and>
        (pb_terminated pb \<or> x @ y \<noteq> [] \<longrightarrow> pb_terminated q)"
      using p by auto
  qed
qed

lemma prints_nothing: "prints Some []"
  by (simp add: prints_def)

lemma prints_append: "prints (\<lambda>pb. pb_append pb x) x"
  using pb_append_room by (fastforce simp: prints_def)

lemma prints_print: "prints (\<lambda>pb. pb_print pb x) x"
  by (simp add: prints_append)

lemma prints_escape: "NUL \<notin> set s \<Longrightarrow> prints (\<lambda>pb. map_option fst (json_escape_str pb s)) (esc s)"
  unfolding prints_def
proof (intro allI impI)
  fix pb k
  assume s: "NUL \<notin> set s" and "pb_room pb (length (esc s) + k)"
  then obtain q where "json_escape_loop pb s 0 0 = Some q" "pb_text q = pb_text pb @ esc s" "pb_room q k"
    "pb_terminated pb \<or> s \<noteq> [] \<longrightarrow> pb_terminated q"
    using escape_loop_room [of s pb "[]" k "[]"] by auto
  then show "\<exists>q. map_option fst (json_escape_str pb s) = Some q \<and> pb_text q = pb_text pb @ esc s \<and>
      pb_room q k \<and> (pb_terminated pb \<or> esc s \<noteq> [] \<longrightarrow> pb_terminated q)"
    by (cases s) (auto simp: json_escape_str_def)
qed

text \<open>A printer with a return code, which is not negative.\<close>

definition prints_rc :: "(printbuf \<Rightarrow> (printbuf \<times> int) option) \<Rightarrow> char list \<Rightarrow> bool" where
  "prints_rc f x \<longleftrightarrow> prints (\<lambda>pb. map_option fst (f pb)) x \<and> (\<forall>pb q r. f pb = Some (q, r) \<longrightarrow> 0 \<le> r)"

lemma prints_rc_prints: "prints_rc f x \<Longrightarrow> prints (\<lambda>pb. map_option fst (f pb)) x"
  by (simp add: prints_rc_def)

lemma sprintbuf_fst: "map_option fst (sprintbuf True True pb x) = pb_append pb x"
  using pb_print_eq [of pb x] unfolding pb_print_def .

lemma prints_rc_sprintbuf: "prints_rc (\<lambda>pb. sprintbuf True True pb x) x"
proof -
  have "0 \<le> r" if "sprintbuf True True pb x = Some (q, r)" for pb q r
    using that by (auto simp: sprintbuf_eq)
  then show ?thesis unfolding prints_rc_def sprintbuf_fst using prints_append by blast
qed

lemma prints_rc_seq:
  assumes "prints f x" "prints_rc g y"
  shows "prints_rc (\<lambda>pb. f pb \<bind> g) (x @ y)"
  using prints_seq [OF assms(1) prints_rc_prints [OF assms(2)]] assms(2)
  by (auto simp: prints_rc_def option_case_bind)

lemma bind_pair_fst: "(m \<bind> (\<lambda>(q, _). f q)) = map_option fst m \<bind> f"
  by (cases m) auto

text \<open>The separators, each before an element: what the loops of the containers append.\<close>

definition tail_commas :: "char list \<Rightarrow> char list list \<Rightarrow> char list" where
  "tail_commas sep xs = concat (map ((@) sep) xs)"

lemma commas_Cons: "commas sep (x # xs) = x @ tail_commas sep xs"
  by (simp add: commas_def tail_commas_def)

lemma tail_commas_simps [simp]:
  "tail_commas sep [] = []" "tail_commas sep (x # xs) = sep @ x @ tail_commas sep xs"
  by (simp_all add: tail_commas_def)

lemma prints_value:
  assumes "case p of None \<Rightarrow> x = ''null'' | Some a \<Rightarrow> prints_rc (rec a) x"
  shows "prints (print_value rec p) x"
  using assms prints_print [of "''null''"]
  by (cases p) (auto simp: print_value_def [abs_def] prints_rc_prints)

abbreviation member_text :: "char list \<Rightarrow> char list \<Rightarrow> char list" where
  "member_text k x \<equiv> [CHR '' '', CHR 0x22] @ esc k @ [CHR 0x22, CHR '':'', CHR '' ''] @ x"

lemma object_members_Cons:
  "object_members rec i ((LH_KEY k, v) # es) pb =
     (if i \<noteq> 0 then pb_print pb '','' else Some pb) \<bind> (\<lambda>pb.
       pb_print pb [CHR '' '', CHR 0x22] \<bind> (\<lambda>pb.
         map_option fst (json_escape_str pb k) \<bind> (\<lambda>pb.
           pb_print pb [CHR 0x22, CHR '':'', CHR '' ''] \<bind> (\<lambda>pb.
             print_value rec v pb \<bind> object_members rec (Suc i) es))))"
  by (simp add: bind_pair_fst)

lemma prints_member:
  assumes "NUL \<notin> set k" "prints (print_value rec v) x" "prints (object_members rec (Suc i) es) y"
  shows "prints (object_members rec i ((LH_KEY k, v) # es))
    ((if i \<noteq> 0 then '','' else []) @ member_text k x @ y)"
proof -
  have sep: "prints (\<lambda>pb. if i \<noteq> 0 then pb_print pb '','' else Some pb) (if i \<noteq> 0 then '','' else [])"
    using prints_print [of "'',''"] prints_nothing by (cases i) auto
  have "prints (object_members rec i ((LH_KEY k, v) # es))
    ((if i \<noteq> 0 then '','' else []) @ ([CHR '' '', CHR 0x22] @ (esc k @ ([CHR 0x22, CHR '':'', CHR '' ''] @ (x @ y)))))"
    unfolding object_members_Cons
    by (intro prints_seq sep prints_print prints_escape assms)
  then show ?thesis by simp
qed

lemma prints_members:
  assumes "list_all2 (\<lambda>e kx. fst e = fst kx \<and> NUL \<notin> set (fst e) \<and>
      prints (print_value rec (snd e)) (snd kx)) al kxs"
  shows "prints (object_members rec i (map (\<lambda>(k, v). (LH_KEY k, v)) al))
    (if i = 0 then commas '','' (map (\<lambda>(k, x). member_text k x) kxs)
     else tail_commas '','' (map (\<lambda>(k, x). member_text k x) kxs))"
  using assms
proof (induction al kxs arbitrary: i rule: list_all2_induct)
  case Nil
  then show ?case using prints_nothing by (simp add: commas_def)
next
  case (Cons e al kx kxs)
  obtain k v x where e: "e = (k, v)" "kx = (k, x)" using Cons.hyps(1) by (cases e; cases kx) auto
  show ?case
    using prints_member [of k rec v x i "map (\<lambda>(k, v). (LH_KEY k, v)) al"
        "tail_commas '','' (map (\<lambda>(k, x). member_text k x) kxs)"] Cons.IH [of "Suc i"] Cons.hyps(1)
    by (cases i) (simp_all add: e commas_Cons del: object_members.simps)
qed

lemma prints_object:
  assumes "lh_abs t al" "list_all2 (\<lambda>e kx. fst e = fst kx \<and> NUL \<notin> set (fst e) \<and>
      prints (print_value rec (snd e)) (snd kx)) al kxs"
  shows "prints_rc (json_object_object_to_json_string rec t)
    (''{'' @ commas '','' (map (\<lambda>(k, x). member_text k x) kxs) @ '' }'')"
proof -
  have "json_object_object_to_json_string rec t = (\<lambda>pb. pb_print pb ''{'' \<bind> (\<lambda>pb.
      object_members rec 0 (map (\<lambda>(k, v). (LH_KEY k, v)) al) pb \<bind> (\<lambda>pb. sprintbuf True True pb '' }'')))"
    using walk_abs [OF assms(1)] by (simp add: json_object_object_to_json_string_def [abs_def])
  moreover have "prints (object_members rec 0 (map (\<lambda>(k, v). (LH_KEY k, v)) al))
      (commas '','' (map (\<lambda>(k, x). member_text k x) kxs))"
    using prints_members [OF assms(2), of 0] by (simp only: refl if_True)
  ultimately show ?thesis
    by (simp only:) (intro prints_rc_seq prints_print prints_rc_sprintbuf)
qed

lemma prints_elements:
  assumes "list_all2 (\<lambda>p x. prints (print_value rec p) x) ps xs"
    and "\<forall>j < length ps. array_list_get_idx arr (i + int j) = Some (ps ! j)"
    and "0 \<le> i" "i + int (length ps) \<le> INT_MAX"
  shows "prints (array_elements rec arr i (length ps))
    (if i = 0 then commas '','' (map ((@) '' '') xs) else tail_commas '','' (map ((@) '' '') xs))"
  using assms
proof (induction ps xs arbitrary: i rule: list_all2_induct)
  case Nil
  then show ?case using prints_nothing by (simp add: commas_def)
next
  case (Cons p ps x xs)
  let ?sep = "if i \<noteq> 0 then '', '' else '' ''"
  have i: "c_int (i + 1) = i + 1" using Cons.prems by (intro c_int_eq) auto
  have get: "array_list_get_idx arr i = Some p"
    and rest: "\<forall>j < length ps. array_list_get_idx arr (i + 1 + int j) = Some (ps ! j)"
    using Cons.prems(1) by (auto simp: add.assoc dest: spec [of _ 0] spec [of _ "Suc _"])
  have y: "prints (array_elements rec arr (i + 1) (length ps)) (tail_commas '','' (map ((@) '' '') xs))"
    using Cons.IH [of "i + 1"] rest Cons.prems(2,3) by (simp add: add.assoc)
  have sep: "prints (\<lambda>pb. if i \<noteq> 0 then pb_print pb '', '' else pb_print pb '' '') ?sep"
    using prints_print [of "'', ''"] prints_print [of "'' ''"] by (cases "i = 0") (simp_all del: pb_print_eq)
  have "array_elements rec arr i (length (p # ps)) = (\<lambda>pb.
      (if i \<noteq> 0 then pb_print pb '', '' else pb_print pb '' '') \<bind> (\<lambda>pb.
        print_value rec p pb \<bind> array_elements rec arr (i + 1) (length ps)))"
    by (rule ext) (simp add: get i)
  moreover have "prints (\<lambda>pb. (if i \<noteq> 0 then pb_print pb '', '' else pb_print pb '' '') \<bind> (\<lambda>pb.
        print_value rec p pb \<bind> array_elements rec arr (i + 1) (length ps)))
      (?sep @ (x @ tail_commas '','' (map ((@) '' '') xs)))"
    by (intro prints_seq sep y Cons.hyps(1))
  ultimately show ?case by (cases "i = 0") (simp_all add: commas_Cons)
qed

lemma prints_array:
  assumes "al_wf arr" "list_all2 (\<lambda>p x. prints (print_value rec p) x) (al_list arr) xs"
  shows "prints_rc (json_object_array_to_json_string rec arr)
    (''['' @ commas '','' (map ((@) '' '') xs) @ '' ]'')"
proof -
  have len: "nat (array_list_length arr) = length (al_list arr)"
    and lim: "int (length (al_list arr)) \<le> INT_MAX"
    using length_al_list [OF assms(1)] assms(1) by (auto simp: array_list_length_def al_wf_def)
  have "\<forall>j < length (al_list arr). array_list_get_idx arr (0 + int j) = Some (al_list arr ! j)"
    using assms(1) length_al_list [OF assms(1)] by (auto simp: get_idx_wf al_wf_def)
  then have "prints (array_elements rec arr 0 (length (al_list arr))) (commas '','' (map ((@) '' '') xs))"
    using prints_elements [OF assms(2), of arr 0] lim by simp
  then have "prints_rc (\<lambda>pb. pb_print pb ''['' \<bind> (\<lambda>pb.
      array_elements rec arr 0 (length (al_list arr)) pb \<bind> (\<lambda>pb. sprintbuf True True pb '' ]'')))
      (''['' @ commas '','' (map ((@) '' '') xs) @ '' ]'')"
    by (intro prints_rc_seq prints_print prints_rc_sprintbuf)
  then show ?thesis
    by (simp add: json_object_array_to_json_string_def [abs_def] len del: pb_print_eq)
qed

lemma prints_string:
  assumes "NUL \<notin> set s"
  shows "prints_rc (json_object_string_to_json_string s) ([CHR 0x22] @ esc s @ [CHR 0x22])"
proof -
  have "prints (\<lambda>pb. pb_print pb [CHR 0x22] \<bind> (\<lambda>pb. map_option fst (json_escape_str pb s) \<bind>
      (\<lambda>pb. pb_print pb [CHR 0x22]))) ([CHR 0x22] @ esc s @ [CHR 0x22])"
    by (intro prints_seq prints_print prints_escape assms)
  moreover have "map_option fst (json_object_string_to_json_string s pb) =
      pb_print pb [CHR 0x22] \<bind> (\<lambda>pb. map_option fst (json_escape_str pb s) \<bind> (\<lambda>pb. pb_print pb [CHR 0x22]))"
    for pb
    by (cases "pb_append pb [CHR 0x22]")
      (auto simp: json_object_string_to_json_string_def json_escape_str_def option_case_bind)
  ultimately show ?thesis
    by (auto simp: prints_rc_def json_object_string_to_json_string_def)
qed

section \<open>The printer prints the value\<close>

lemma list_all2_member_texts:
  assumes "list_all2 (\<lambda>e kv. fst e = fst kv \<and> NUL \<notin> set (fst e) \<and> P (snd e) (f (snd kv))) al kvs"
  shows "list_all2 (\<lambda>e kx. fst e = fst kx \<and> NUL \<notin> set (fst e) \<and> P (snd e) (snd kx)) al
    (map (\<lambda>(k, v). (k, f v)) kvs)"
  unfolding list.rel_map by (rule list.rel_mono_strong [OF assms]) auto

lemma print_object_eq:
  "obj_at h a = Some j \<Longrightarrow> print_object lc h a = to_json_string_of lc (print_object lc h) (o_of j)"
  by (rule ext) (simp add: print_object.simps [of lc h a])

lemma print_rep:
  "rep h p v \<Longrightarrow>
     (case p of None \<Rightarrow> print_json lc v = ''null''
      | Some a \<Rightarrow> prints_rc (print_object lc h a) (print_json lc v))"
proof (induction rule: rep.induct)
  case (rep_array a j arr vs)
  have "list_all2 (\<lambda>p x. prints (print_value (print_object lc h) p) x) (al_list arr) (map (print_json lc) vs)"
    using rep_array(4) by (auto simp: list.rel_map intro: prints_value elim!: list.rel_mono_strong)
  from prints_array [OF rep_array(3) this]
  show ?case
    by (simp add: print_object_eq [OF rep_array(1)] rep_array(2) to_json_string_of_def [abs_def] comp_def)
next
  case (rep_object a j t al kvs)
  have "list_all2 (\<lambda>e kv. fst e = fst kv \<and> NUL \<notin> set (fst e) \<and>
      prints (print_value (print_object lc h) (snd e)) (print_json lc (snd kv))) al kvs"
    using rep_object(4) by (auto intro: prints_value elim!: list.rel_mono_strong)
  note members = list_all2_member_texts [of "\<lambda>p. prints (print_value (print_object lc h) p)", OF this]
  from prints_object [OF rep_object(3) members]
  show ?case
    by (simp add: print_object_eq [OF rep_object(1)] rep_object(2) to_json_string_of_def [abs_def] comp_def
        case_prod_unfold)
qed (simp_all add: print_object_eq to_json_string_of_def [abs_def] prints_rc_sprintbuf prints_string [simplified]
  json_object_boolean_to_json_string_def [abs_def] json_object_int_to_json_string_def [abs_def]
  json_object_double_to_json_string_def [abs_def])

lemma read_cstr_take:
  "None \<notin> set (take n b) \<Longrightarrow> n < length b \<Longrightarrow> b ! n = Some NUL \<Longrightarrow>
     read_cstr b = Some (takeWhile (\<lambda>c. c \<noteq> NUL) (map the (take n b)))"
proof (induction b arbitrary: n)
  case Nil
  then show ?case by simp
next
  case (Cons x b)
  then show ?case by (cases n; cases x) auto
qed

lemma read_cstr_terminated:
  "pb_wf q \<Longrightarrow> pb_terminated q \<Longrightarrow> read_cstr (buf q) = Some (takeWhile (\<lambda>c. c \<noteq> NUL) (pb_text q))"
  unfolding pb_text_def
  by (rule read_cstr_take) (auto simp: pb_wf_def pb_terminated_def)

lemma no_nul_takeWhile: "NUL \<notin> set s \<Longrightarrow> takeWhile (\<lambda>c. c \<noteq> NUL) s = s"
  by (induction s) auto

lemma read_cstr_text:
  "pb_wf q \<Longrightarrow> pb_terminated q \<Longrightarrow> NUL \<notin> set (pb_text q) \<Longrightarrow> read_cstr (buf q) = Some (pb_text q)"
  by (simp add: read_cstr_terminated no_nul_takeWhile)

lemma esc_char_no_nul: "c \<noteq> NUL \<Longrightarrow> NUL \<notin> set (esc_char c)"
proof -
  assume c: "c \<noteq> NUL"
  have "json_hex_chars ! i \<noteq> NUL" if "i < 16" for i
  proof -
    have "\<forall>i\<in>{..<16}. json_hex_chars ! i \<noteq> NUL" by code_simp
    then show ?thesis using that by simp
  qed
  then have "json_hex_chars ! nat (uchar c div 16) \<noteq> NUL" "json_hex_chars ! nat (uchar c mod 16) \<noteq> NUL"
    using uchar_range [of c] by auto
  then show ?thesis using c by (simp add: esc_char_def not_sym)
qed

lemma esc_no_nul: "NUL \<notin> set s \<Longrightarrow> NUL \<notin> set (esc s)"
  by (induction s) (auto simp: esc_char_no_nul)

lemma digits_no_nul: "NUL \<notin> set (digits n)"
proof (induction n rule: digits.induct)
  case (1 n)
  have "digit_char (n mod 10) \<noteq> NUL"
  proof -
    have "\<forall>d\<in>{0..9}. digit_char d \<noteq> NUL" by code_simp
    then show ?thesis by simp
  qed
  then show ?case using 1 by (simp add: digits.simps [of n])
qed

definition printable :: "'d libc \<Rightarrow> bool" where
  "printable lc \<longleftrightarrow> (\<forall>d. fmt_double lc d \<noteq> [] \<and> NUL \<notin> set (fmt_double lc d))"

lemma commas_no_nul: "NUL \<notin> set sep \<Longrightarrow> \<forall>x\<in>set xs. NUL \<notin> set x \<Longrightarrow> NUL \<notin> set (commas sep xs)"
  by (cases xs) (auto simp: commas_def)

lemma print_no_nul: "rep h p v \<Longrightarrow> printable lc \<Longrightarrow> NUL \<notin> set (print_json lc v)"
proof (induction rule: rep.induct)
  case (rep_array a j arr vs)
  then have "\<forall>v\<in>set vs. NUL \<notin> set (print_json lc v)"
    by (auto elim!: list_all2_right)
  then have "NUL \<notin> set (commas '','' (map (\<lambda>v. '' '' @ print_json lc v) vs))"
    by (intro commas_no_nul) auto
  then show ?case by simp
next
  case (rep_object a j t al kvs)
  then have "\<forall>kv\<in>set kvs. NUL \<notin> set (esc (fst kv)) \<and> NUL \<notin> set (print_json lc (snd kv))"
    by (intro list_all2_right [OF rep_object.IH]) (metis esc_no_nul)
  then have "NUL \<notin> set (commas '','' (map (\<lambda>(k, v). member_text k (print_json lc v)) kvs))"
    by (intro commas_no_nul) auto
  then show ?case by simp
qed (auto simp: int_text_def digits_no_nul esc_no_nul printable_def)

section \<open>The entry point\<close>

lemma print_json_nonempty: "printable lc \<Longrightarrow> print_json lc v \<noteq> []"
  by (cases v) (auto simp: printable_def int_text_def digits.simps)

text \<open>A value depends on the data of the objects alone.\<close>

lemma rep_data:
  assumes "rep h p v" "\<And>a j. obj_at h a = Some j \<Longrightarrow> \<exists>j'. obj_at h' a = Some j' \<and> o_of j' = o_of j"
  shows "rep h' p v"
  using assms(1)
proof (induction rule: rep.induct)
  case rep_null
  show ?case by (rule rep.rep_null)
next
  case (rep_bool a j b)
  then show ?case using assms(2) rep.rep_bool by metis
next
  case (rep_int a j i)
  then show ?case using assms(2) rep.rep_int by metis
next
  case (rep_double a j d)
  then show ?case using assms(2) rep.rep_double by metis
next
  case (rep_string a j s)
  then show ?case using assms(2) rep.rep_string by metis
next
  case (rep_array a j arr vs)
  obtain j' where "obj_at h' a = Some j'" "o_of j' = C_array arr"
    using assms(2) rep_array(1,2) by metis
  then show ?case
    by (rule rep.rep_array) (use rep_array(3,4) in \<open>auto elim!: list.rel_mono_strong\<close>)
next
  case (rep_object a j t al kvs)
  obtain j' where "obj_at h' a = Some j'" "o_of j' = C_object t"
    using assms(2) rep_object(1,2) by metis
  then show ?case
    by (rule rep.rep_object) (use rep_object(3,4) in \<open>auto elim!: list.rel_mono_strong\<close>)
qed

definition buffer_ok :: "'d json_object \<Rightarrow> bool" where
  "buffer_ok j \<longleftrightarrow> (\<forall>pb. pb_of j = Some pb \<longrightarrow> pb_wf pb)"

lemma print_object_text:
  assumes "rep h (Some a) v" "printable lc" "pb_room pb (length (print_json lc v))" "pb_text pb = []"
  shows "\<exists>q r. print_object lc h a pb = Some (q, r) \<and> 0 \<le> r \<and> pb_wf q \<and>
    read_cstr (buf q) = Some (print_json lc v)"
proof -
  have p: "prints_rc (print_object lc h a) (print_json lc v)"
    using print_rep [OF assms(1), of lc] by simp
  moreover obtain q where q: "map_option fst (print_object lc h a pb) = Some q"
    "pb_text q = print_json lc v" "pb_room q 0" "pb_terminated q"
    using p assms(3,4) print_json_nonempty [OF assms(2), of v]
    unfolding prints_rc_def prints_def by (metis add.right_neutral append_Nil)
  ultimately show ?thesis
    using read_cstr_text [OF pb_room_wf [OF q(3)] q(4)] print_no_nul [OF assms(1,2)]
    by (auto simp: prints_rc_def pb_room_wf)
qed

lemma to_json_string_rep:
  assumes r: "rep h (Some a) v" and j: "obj_at h a = Some j" "buffer_ok j" "\<not> refuse h"
    and lc: "printable lc" "int (length (print_json lc v)) + 8 \<le> INT_MAX"
  shows "\<exists>pb. json_object_to_json_string lc h (Some a) =
      Some (set_obj h a (j\<lparr>pb_of := Some pb\<rparr>), Some (print_json lc v)) \<and> pb_wf pb"
proof (cases "pb_of j")
  case None
  obtain pb where pb: "printbuf_new True True = Some pb" by (simp add: printbuf_new_def)
  then have "pb_room pb (length (print_json lc v))" "pb_text pb = []"
    using printbuf_new_wf [OF pb] lc(2) by (auto intro: pb_room_mono)
  from print_object_text [OF r lc(1) this] show ?thesis
    using j pb None by (auto simp: json_object_to_json_string_def Let_def not_less)
next
  case (Some pb0)
  then have "pb_wf pb0" using j by (simp add: buffer_ok_def)
  then obtain pb where pb: "printbuf_reset pb0 = Some pb" "pb_text pb = []" "pb_room pb 2147483639"
    using printbuf_reset_ok by blast
  then have "pb_room pb (length (print_json lc v))" using lc(2) by (auto intro: pb_room_mono)
  from print_object_text [OF r lc(1) this pb(2)] show ?thesis
    using j pb Some by (auto simp: json_object_to_json_string_def Let_def not_less)
qed

end
