(* ===== verification/JsonHeap.thy ===== *)
theory JsonHeap
  imports JsonPrint
begin

text \<open>
  Ownership in the heap of JSON objects.  \<open>tree h p v A\<close>: the pointer \<open>p\<close> is the only reference to a
  structure that stands for the value \<open>v\<close> and occupies exactly the addresses \<open>A\<close>, each object in it
  with a reference count of one.  The lemmas give the effect of construction, release and insertion
  on such structures.
\<close>

section \<open>Owned structures\<close>

definition sole :: "'d json_object \<Rightarrow> bool" where
  [simp]: "sole j \<longleftrightarrow> ref_count j = 1 \<and> buffer_ok j"

lemma buffer_ok_simps [simp]:
  "buffer_ok (j\<lparr>o_of := d\<rparr>) = buffer_ok j" "buffer_ok (j\<lparr>ref_count := n\<rparr>) = buffer_ok j"
  "buffer_ok \<lparr>ref_count = n, pb_of = None, o_of = d\<rparr>"
  by (simp_all add: buffer_ok_def)

text \<open>
  \<open>tree h p v A\<close>: the pointer owns a structure of value \<open>v\<close>, made of the objects at \<open>A\<close>, each with one reference.
  The table of an object is \<open>lh_ok\<close>: it carries no slot marked freed, as in every object built by
  \<^verbatim>\<open>json_object_object_add\<close> and by the parser.  \<^verbatim>\<open>json_object_object_del\<close> leaves such a mark, and an
  object from which a member was deleted is not a \<open>tree\<close>: a later store on it need not return
  (\<open>lh_tombstones_hang\<close>).
\<close>

inductive tree :: "'d heap \<Rightarrow> ptr \<Rightarrow> 'd jval \<Rightarrow> nat set \<Rightarrow> bool"
  and trees :: "'d heap \<Rightarrow> ptr list \<Rightarrow> 'd jval list \<Rightarrow> nat set \<Rightarrow> bool" for h where
  tree_null: "tree h None JNull {}"
| tree_bool: "obj_at h a = Some j \<Longrightarrow> sole j \<Longrightarrow> o_of j = C_boolean b \<Longrightarrow>
    tree h (Some a) (JBool b) {a}"
| tree_int: "obj_at h a = Some j \<Longrightarrow> sole j \<Longrightarrow> o_of j = C_int i \<Longrightarrow>
    tree h (Some a) (JInt i) {a}"
| tree_double: "obj_at h a = Some j \<Longrightarrow> sole j \<Longrightarrow> o_of j = C_double d \<Longrightarrow>
    tree h (Some a) (JDouble d) {a}"
| tree_string: "obj_at h a = Some j \<Longrightarrow> sole j \<Longrightarrow> o_of j = C_string s \<Longrightarrow>
    NUL \<notin> set s \<Longrightarrow> tree h (Some a) (JString s) {a}"
| tree_array: "obj_at h a = Some j \<Longrightarrow> sole j \<Longrightarrow> o_of j = C_array arr \<Longrightarrow>
    al_room arr 0 \<Longrightarrow> trees h (al_list arr) vs A \<Longrightarrow> a \<notin> A \<Longrightarrow>
    tree h (Some a) (JArray vs) (insert a A)"
| tree_object: "obj_at h a = Some j \<Longrightarrow> sole j \<Longrightarrow> o_of j = C_object t \<Longrightarrow>
    lh_ok t al \<Longrightarrow> has_free_fn t \<Longrightarrow> map fst al = map fst kvs \<Longrightarrow> \<forall>k\<in>fst ` set kvs. NUL \<notin> set k \<Longrightarrow>
    trees h (map snd al) (map snd kvs) A \<Longrightarrow> a \<notin> A \<Longrightarrow>
    tree h (Some a) (JObject kvs) (insert a A)"
| trees_nil: "trees h [] [] {}"
| trees_cons: "tree h p v A \<Longrightarrow> trees h ps vs B \<Longrightarrow> A \<inter> B = {} \<Longrightarrow> trees h (p # ps) (v # vs) (A \<union> B)"

inductive_cases tree_nullE: "tree h None v A"
inductive_cases tree_arrayE: "tree h p (JArray vs) A"
inductive_cases tree_objectE: "tree h p (JObject kvs) A"
inductive_cases trees_nilE: "trees h [] vs A"
inductive_cases trees_consE: "trees h (p # ps) vs A"

inductive_simps trees_simps [simp]: "trees h [] vs A"
inductive_simps tree_None [simp]: "tree h None v A"

lemma trees_Cons: "trees h (p # ps) ws S \<longleftrightarrow>
    (\<exists>v vs A B. ws = v # vs \<and> S = A \<union> B \<and> tree h p v A \<and> trees h ps vs B \<and> A \<inter> B = {})"
proof
  assume "trees h (p # ps) ws S"
  then show "\<exists>v vs A B. ws = v # vs \<and> S = A \<union> B \<and> tree h p v A \<and> trees h ps vs B \<and> A \<inter> B = {}"
    by (rule trees_consE) metis
qed (metis trees_cons)

lemma trees_appendI:
  "trees h ps us A \<Longrightarrow> trees h qs vs B \<Longrightarrow> A \<inter> B = {} \<Longrightarrow> trees h (ps @ qs) (us @ vs) (A \<union> B)"
proof (induction ps arbitrary: us A)
  case Nil
  then show ?case by simp
next
  case (Cons p ps)
  then obtain v us' C D where "us = v # us'" "A = C \<union> D" "tree h p v C" "trees h ps us' D" "C \<inter> D = {}"
    by (auto simp: trees_Cons)
  moreover from this have "trees h (ps @ qs) (us' @ vs) (D \<union> B)" "C \<inter> (D \<union> B) = {}"
    using Cons by auto
  ultimately show ?case using trees_cons [of h p v C] by (auto simp: Un_assoc)
qed

lemma trees_appendD:
  "trees h (ps @ qs) ws S \<Longrightarrow>
     \<exists>us vs A B. ws = us @ vs \<and> S = A \<union> B \<and> trees h ps us A \<and> trees h qs vs B \<and> A \<inter> B = {}"
proof (induction ps arbitrary: ws S)
  case Nil
  then show ?case by simp
next
  case (Cons p ps)
  then obtain v ws' C D where c: "ws = v # ws'" "S = C \<union> D" "tree h p v C" "trees h (ps @ qs) ws' D" "C \<inter> D = {}"
    by (auto simp: trees_Cons)
  from Cons.IH [OF c(4)] obtain us vs A B where d: "ws' = us @ vs" "D = A \<union> B" "trees h ps us A"
    "trees h qs vs B" "A \<inter> B = {}" by blast
  have "ws = (v # us) @ vs" "S = (C \<union> A) \<union> B" "(C \<union> A) \<inter> B = {}" using c d by auto
  moreover have "trees h (p # ps) (v # us) (C \<union> A)" using trees_cons [OF c(3) d(3)] c(5) d(2) by blast
  ultimately show ?case using d(4) by blast
qed

lemma trees_single [simp]: "trees h [p] ws S \<longleftrightarrow> (\<exists>v. ws = [v] \<and> tree h p v S)"
  by (auto simp: trees_Cons)

lemma trees_length: "trees h ps vs A \<Longrightarrow> length ps = length vs"
  by (induction ps arbitrary: vs A) (auto simp: trees_Cons)

text \<open>A structure depends on its own addresses alone.\<close>

lemma tree_frame:
  "tree h p v A \<Longrightarrow> (\<And>a. a \<in> A \<Longrightarrow> obj_at h' a = obj_at h a) \<Longrightarrow> tree h' p v A"
  "trees h ps vs A \<Longrightarrow> (\<And>a. a \<in> A \<Longrightarrow> obj_at h' a = obj_at h a) \<Longrightarrow> trees h' ps vs A"
  by (induction rule: tree_trees.inducts) (auto intro!: tree_trees.intros)

lemma tree_same:
  assumes "\<And>a j. obj_at h a = Some j \<Longrightarrow> sole j \<Longrightarrow> \<exists>j'. obj_at h' a = Some j' \<and> o_of j' = o_of j \<and> sole j'"
  shows "tree h p v A \<Longrightarrow> tree h' p v A" "trees h ps vs A \<Longrightarrow> trees h' ps vs A"
proof (induction rule: tree_trees.inducts)
  case (tree_array a j arr vs A)
  then obtain j' where "obj_at h' a = Some j'" "sole j'" "o_of j' = C_array arr" using assms by metis
  then show ?case by (rule tree_trees.tree_array) (use tree_array in auto)
next
  case (tree_object a j t al kvs A)
  then obtain j' where "obj_at h' a = Some j'" "sole j'" "o_of j' = C_object t" using assms by metis
  then show ?case by (rule tree_trees.tree_object) (use tree_object in auto)
next
  case (tree_bool a j b)
  then obtain j' where "obj_at h' a = Some j'" "sole j'" "o_of j' = C_boolean b" using assms by metis
  then show ?case by (rule tree_trees.tree_bool)
next
  case (tree_int a j i)
  then obtain j' where "obj_at h' a = Some j'" "sole j'" "o_of j' = C_int i" using assms by metis
  then show ?case by (rule tree_trees.tree_int)
next
  case (tree_double a j d)
  then obtain j' where "obj_at h' a = Some j'" "sole j'" "o_of j' = C_double d" using assms by metis
  then show ?case by (rule tree_trees.tree_double)
next
  case (tree_string a j s)
  then obtain j' where "obj_at h' a = Some j'" "sole j'" "o_of j' = C_string s" using assms by metis
  then show ?case by (rule tree_trees.tree_string) (use tree_string in auto)
next
  case (trees_cons p v A ps vs B)
  then show ?case by (blast intro: tree_trees.trees_cons)
qed (rule tree_trees.tree_null tree_trees.trees_nil)+

lemma tree_mapped:
  "tree h p v A \<Longrightarrow> a \<in> A \<Longrightarrow> obj_at h a \<noteq> None"
  "trees h ps vs A \<Longrightarrow> a \<in> A \<Longrightarrow> obj_at h a \<noteq> None"
  by (induction rule: tree_trees.inducts) auto

lemma tree_rep:
  "tree h p v A \<Longrightarrow> rep h p v"
  "trees h ps vs A \<Longrightarrow> list_all2 (rep h) ps vs"
proof (induction rule: tree_trees.inducts)
  case (tree_object a j t al kvs A)
  have "list_all2 (\<lambda>e kv. fst e = fst kv \<and> NUL \<notin> set (fst e) \<and> rep h (snd e) (snd kv)) al kvs"
  proof (rule list_all2_all_nthI)
    show "length al = length kvs" using tree_object.hyps by (metis length_map)
    fix i assume i: "i < length al"
    then have "fst (al ! i) = fst (kvs ! i)" "kvs ! i \<in> set kvs"
      using tree_object.hyps \<open>length al = length kvs\<close> by (metis nth_map, simp)
    then show "fst (al ! i) = fst (kvs ! i) \<and> NUL \<notin> set (fst (al ! i)) \<and> rep h (snd (al ! i)) (snd (kvs ! i))"
      using tree_object i \<open>length al = length kvs\<close> by (auto simp: list_all2_conv_all_nth)
  qed
  then show ?case using tree_object by (auto intro: rep.rep_object lh_ok_abs)
qed (auto intro: rep.intros simp: al_room_def)

section \<open>Release\<close>

definition release :: "'d heap \<Rightarrow> nat set \<Rightarrow> 'd heap" where
  "release h A = h\<lparr>objs := (objs h) |` (- A)\<rparr>"

lemma release_simps [simp]:
  "obj_at (release h A) a = (if a \<in> A then None else obj_at h a)"
  "fresh (release h A) = fresh h" "refuse (release h A) = refuse h"
  by (simp_all add: release_def obj_at_def restrict_map_def)

lemma release_empty [simp]: "release h {} = h"
  by (simp add: release_def restrict_map_def)

lemma release_release: "release (release h A) B = release h (A \<union> B)"
  by (simp add: release_def Int_commute Un_commute)

lemma put_None [simp]: "json_object_put h None = Some h"
  by (simp add: json_object_put.simps)

lemma foldM_entry_free:
  "foldM (json_object_lh_entry_free put) h ents = foldM put h (map snd ents)"
  by (induction ents arbitrary: h) (auto simp: json_object_lh_entry_free_def)

lemma foldM_array_free:
  "foldM (json_object_array_entry_free json_object_put) h (List.map_filter id ps) = foldM json_object_put h ps"
  by (induction ps arbitrary: h)
    (auto simp: List.map_filter_def json_object_array_entry_free_def split: option.split)

lemma put_last:
  assumes "obj_at h a = Some j" "ref_count j = 1"
  shows "json_object_put h (Some a) = delete_of json_object_put (set_obj h a (j\<lparr>ref_count := 0\<rparr>)) a (o_of j)"
  using assms by (simp add: json_object_put.simps [of h] c_int_eq)

lemma set_obj_at [simp]: "obj_at (set_obj h a j) b = (if b = a then Some j else obj_at h b)"
  by (simp add: obj_at_def set_obj_def)

lemma generic_delete_at:
  "json_object_generic_delete (release (set_obj h a j) A) a = release h (insert a A)"
  by (auto simp: json_object_generic_delete_def release_def set_obj_def restrict_map_def fun_eq_iff)

lemma generic_delete_scalar: "json_object_generic_delete (set_obj h a j) a = release h {a}"
  using generic_delete_at [of h a j "{}"] by simp

lemma put_tree_agree:
  "tree h p v A \<Longrightarrow> \<forall>h'. (\<forall>a\<in>A. obj_at h' a = obj_at h a) \<longrightarrow>
     json_object_put h' p = Some (release h' A)"
  "trees h ps vs A \<Longrightarrow> \<forall>h'. (\<forall>a\<in>A. obj_at h' a = obj_at h a) \<longrightarrow>
     foldM json_object_put h' ps = Some (release h' A)"
proof (induction rule: tree_trees.inducts)
  case (tree_array a j arr vs A)
  show ?case
  proof (intro allI impI)
    fix h' assume h': "\<forall>x\<in>insert a A. obj_at h' x = obj_at h x"
    let ?h = "set_obj h' a (j\<lparr>ref_count := 0\<rparr>)"
    have free: "array_list_free arr = Some (List.map_filter id (al_list arr))"
      using tree_array.hyps(3) by (simp add: free_ok al_room_def)
    have "\<forall>x\<in>A. obj_at ?h x = obj_at h x" using h' tree_array.hyps(4) by auto
    then have fold: "foldM json_object_put ?h (al_list arr) = Some (release ?h A)"
      using tree_array.IH(3) by blast
    show "json_object_put h' (Some a) = Some (release h' (insert a A))"
      using h' tree_array.IH(1) tree_array.hyps(1,2) free fold
      by (simp add: put_last delete_of_def json_object_array_delete_def foldM_array_free generic_delete_at)
  qed
next
  case (tree_object a j t al kvs A)
  show ?case
  proof (intro allI impI)
    fix h' assume h': "\<forall>x\<in>insert a A. obj_at h' x = obj_at h x"
    let ?h = "set_obj h' a (j\<lparr>ref_count := 0\<rparr>)"
    have free: "lh_table_free t = Some (map (\<lambda>(k, v). (LH_KEY k, v)) al)"
      using walk_abs [OF lh_ok_abs [OF tree_object.hyps(3)]] tree_object.hyps(4)
      by (simp add: lh_table_free_def)
    have "\<forall>x\<in>A. obj_at ?h x = obj_at h x" using h' tree_object.hyps(7) by auto
    then have fold: "foldM json_object_put ?h (map snd al) = Some (release ?h A)"
      using tree_object.IH(3) by blast
    have "map snd (map (\<lambda>(k, v). (LH_KEY k, v)) al) = map snd al" by auto
    then show "json_object_put h' (Some a) = Some (release h' (insert a A))"
      using h' tree_object.IH(1) tree_object.hyps(1,2) free fold
      by (simp add: put_last delete_of_def json_object_object_delete_def foldM_entry_free generic_delete_at
          del: map_map)
  qed
next
  case (trees_cons p v A ps vs B)
  show ?case
  proof (intro allI impI)
    fix h' assume h': "\<forall>x\<in>A \<union> B. obj_at h' x = obj_at h x"
    then have "\<forall>x\<in>B. obj_at (release h' A) x = obj_at h x"
      using trees_cons.hyps by auto
    then have "foldM json_object_put (release h' A) ps = Some (release h' (A \<union> B))"
      using trees_cons.IH(4) by (simp add: release_release)
    then show "foldM json_object_put h' (p # ps) = Some (release h' (A \<union> B))"
      using trees_cons.IH(2) h' by simp
  qed
qed (simp_all add: put_last delete_of_def json_object_string_delete_def generic_delete_scalar)

lemmas put_tree = put_tree_agree [rule_format, OF _ refl]

section \<open>Construction\<close>

definition heap_ok :: "'d heap \<Rightarrow> bool" where
  "heap_ok h \<longleftrightarrow> (\<forall>a. fresh h \<le> a \<longrightarrow> obj_at h a = None) \<and> \<not> refuse h"

text \<open>\<open>h'\<close> is \<open>h\<close> with one object more, at the address \<open>a\<close>.\<close>

definition grown :: "'d heap \<Rightarrow> 'd heap \<Rightarrow> nat \<Rightarrow> bool" where
  "grown h h' a \<longleftrightarrow> heap_ok h' \<and> obj_at h a = None \<and> (\<forall>b. b \<noteq> a \<longrightarrow> obj_at h' b = obj_at h b)"

lemma heap_ok_set_obj: "heap_ok h \<Longrightarrow> obj_at h a \<noteq> None \<Longrightarrow> heap_ok (set_obj h a j)"
  unfolding heap_ok_def by (auto simp: set_obj_def obj_at_def)

lemma heap_ok_release: "heap_ok h \<Longrightarrow> heap_ok (release h A)"
  unfolding heap_ok_def by auto

lemma json_object_new_ok:
  "heap_ok h \<Longrightarrow> \<exists>h'. json_object_new h d = (h', Some (fresh h)) \<and> grown h h' (fresh h) \<and>
     obj_at h' (fresh h) = Some \<lparr>ref_count = 1, pb_of = None, o_of = d\<rparr>"
  unfolding json_object_new_def heap_ok_def grown_def obj_at_def by auto

lemma array_list_new_room: "array_list_new True True = Some arr \<Longrightarrow> al_room arr 0 \<and> al_list arr = []"
  using al_new_wf [of True True arr] by (auto simp: array_list_new_def al_room_def ARRAY_LIST_DEFAULT_SIZE_def)

lemma new_object_table: "lh_ok (lh_kchar_table_new JSON_OBJECT_DEF_HASH_ENTRIES True) []"
  using lh_ok_new [of JSON_OBJECT_DEF_HASH_ENTRIES] by (simp add: lh_kchar_new_eq JSON_OBJECT_DEF_HASH_ENTRIES_def)

text \<open>The constructors: a new structure at one new address.\<close>

lemma json_object_new_tree:
  assumes "heap_ok h"
    and "\<And>h' a. obj_at h' a = Some \<lparr>ref_count = 1, pb_of = None, o_of = d\<rparr> \<Longrightarrow> tree h' (Some a) v {a}"
  shows "\<exists>h' a. json_object_new h d = (h', Some a) \<and> grown h h' a \<and> tree h' (Some a) v {a}"
  using json_object_new_ok [OF assms(1), of d] assms(2) by blast

lemma new_tree:
  assumes "heap_ok h"
  shows "\<exists>h' a. json_object_new_array h = (h', Some a) \<and> grown h h' a \<and> tree h' (Some a) (JArray []) {a}"
    "\<exists>h' a. json_object_new_object h = (h', Some a) \<and> grown h h' a \<and> tree h' (Some a) (JObject []) {a}"
    "\<exists>h' a. json_object_new_boolean h b = (h', Some a) \<and> grown h h' a \<and> tree h' (Some a) (JBool b) {a}"
    "\<exists>h' a. json_object_new_int h i = (h', Some a) \<and> grown h h' a \<and> tree h' (Some a) (JInt i) {a}"
    "\<exists>h' a. json_object_new_double h d = (h', Some a) \<and> grown h h' a \<and> tree h' (Some a) (JDouble d) {a}"
    "NUL \<notin> set s \<Longrightarrow>
       \<exists>h' a. json_object_new_string h s = (h', Some a) \<and> grown h h' a \<and> tree h' (Some a) (JString s) {a}"
proof -
  obtain arr :: "nat array_list" where arr: "array_list_new True True = Some arr"
    by (simp add: array_list_new_def)
  show "\<exists>h' a. json_object_new_array h = (h', Some a) \<and> grown h h' a \<and> tree h' (Some a) (JArray []) {a}"
    unfolding json_object_new_array_def arr option.sel
    by (rule json_object_new_tree [OF assms], rule tree_array)
      (auto simp: array_list_new_room [OF arr])
  show "\<exists>h' a. json_object_new_object h = (h', Some a) \<and> grown h h' a \<and> tree h' (Some a) (JObject []) {a}"
    unfolding json_object_new_object_def
    by (rule json_object_new_tree [OF assms], rule tree_object [OF _ _ _ new_object_table])
      (auto simp: lh_kchar_table_new_def lh_table_new_def)
qed (auto simp: json_object_new_boolean_def json_object_new_int_def json_object_new_double_def
    json_object_new_string_def intro!: json_object_new_tree [OF assms] intro: tree_trees.intros)

section \<open>Insertion\<close>

lemma array_add_tree:
  assumes t: "tree h (Some a) (JArray vs) A" and v: "tree h p v B" "A \<inter> B = {}" and n: "length vs < 2 ^ 27"
  shows "\<exists>j. json_object_array_add h (Some a) p = Some (set_obj h a j, 0) \<and>
    tree (set_obj h a j) (Some a) (JArray (vs @ [v])) (A \<union> B)"
proof -
  obtain j arr A' where j: "obj_at h a = Some j" "sole j" "o_of j = C_array arr" "al_room arr 0"
    and vs: "trees h (al_list arr) vs A'" "a \<notin> A'" "A = insert a A'"
    using t by (cases rule: tree_arrayE) auto
  have "al_room arr (Suc 0)"
    using j(4) n trees_length [OF vs(1)] length_al_list [of arr] by (auto simp: al_room_def al_wf_def)
  then obtain arr1 where arr1: "al_add arr p = Some arr1" "al_list arr1 = al_list arr @ [p]" "al_room arr1 0"
    using al_add_room by blast
  moreover have "\<exists>b. array_list_add True arr p = Some (b, [], 0)"
    using add_ok [of arr p] j(4) by (auto simp: al_room_def)
  ultimately have add: "array_list_add True arr p = Some (arr1, [], 0)"
    by (auto simp: al_add_def)
  let ?j = "j\<lparr>o_of := C_array arr1\<rparr>"
  let ?h = "set_obj h a ?j"
  have run: "json_object_array_add h (Some a) p = Some (?h, 0)"
    using j(1,3) add by (simp add: json_object_array_add_def deref_def c_array_def upd_data_def)
  have "trees ?h (al_list arr) vs A'" by (rule tree_frame(2) [OF vs(1)]) (use vs(2) in auto)
  moreover have "trees ?h [p] [v] B"
    unfolding trees_single using tree_frame(1) [OF v(1), of ?h] v(2) vs(3)
    by (metis IntI empty_iff insertI1 set_obj_at)
  moreover have "A' \<inter> B = {}" "a \<notin> A' \<union> B" "insert a (A' \<union> B) = A \<union> B" using v(2) vs(2,3) by auto
  ultimately have "trees ?h (al_list arr1) (vs @ [v]) (A' \<union> B)" "a \<notin> A' \<union> B" "insert a (A' \<union> B) = A \<union> B"
    using trees_appendI [of ?h "al_list arr" vs A' "[p]" "[v]" B] arr1(2) by simp_all
  then have "tree ?h (Some a) (JArray (vs @ [v])) (A \<union> B)"
    using tree_array [of ?h a ?j arr1 "vs @ [v]" "A' \<union> B"] j arr1(3) by simp
  then show ?thesis using run by blast
qed

text \<open>An entry leaves the list of a table together with its part of the structure.\<close>

lemma trees_without:
  assumes "map fst al = map fst kvs" "trees h (map snd al) (map snd kvs) A"
  shows "\<exists>C D. A = C \<union> D \<and> C \<inter> D = {} \<and>
    trees h (map snd (displaced k al)) (map snd (displaced k kvs)) C \<and>
    trees h (map snd (without k al)) (map snd (without k kvs)) D"
  using assms
proof (induction al arbitrary: kvs A)
  case Nil
  then show ?case by (simp add: displaced_def without_def)
next
  case (Cons e al)
  then obtain kv kvs' where kvs: "kvs = kv # kvs'" "fst e = fst kv" "map fst al = map fst kvs'"
    by (cases kvs) auto
  then obtain E F where EF: "A = E \<union> F" "E \<inter> F = {}" "tree h (snd e) (snd kv) E"
    "trees h (map snd al) (map snd kvs') F"
    using Cons.prems(2) by (auto simp: trees_Cons)
  from Cons.IH [OF kvs(3) EF(4)] obtain C D where CD: "F = C \<union> D" "C \<inter> D = {}"
    "trees h (map snd (displaced k al)) (map snd (displaced k kvs')) C"
    "trees h (map snd (without k al)) (map snd (without k kvs')) D" by blast
  show ?case
  proof (cases "fst e = k")
    case True
    have "trees h (snd e # map snd (displaced k al)) (snd kv # map snd (displaced k kvs')) (E \<union> C)"
      using trees_cons [OF EF(3) CD(3)] EF(2) CD(1) by blast
    moreover have "A = (E \<union> C) \<union> D" "(E \<union> C) \<inter> D = {}" using EF(1,2) CD(1,2) by auto
    ultimately show ?thesis
      using True kvs CD(4) by (auto simp: displaced_def without_def)
  next
    case False
    have "trees h (snd e # map snd (without k al)) (snd kv # map snd (without k kvs')) (E \<union> D)"
      using trees_cons [OF EF(3) CD(4)] EF(2) CD(1) by blast
    moreover have "A = C \<union> (E \<union> D)" "C \<inter> (E \<union> D) = {}" using EF(1,2) CD(1,2) by auto
    ultimately show ?thesis
      using False kvs CD(3) by (auto simp: displaced_def without_def)
  qed
qed

lemma map_fst_without: "map fst al = map fst kvs \<Longrightarrow> map fst (without k al) = map fst (without k kvs)"
proof (induction al arbitrary: kvs)
  case (Cons e al)
  then obtain kv kvs' where "kvs = kv # kvs'" "fst e = fst kv" "map fst al = map fst kvs'"
    by (cases kvs) auto
  then show ?case using Cons.IH [of kvs'] by (auto simp: without_def)
qed (simp add: without_def)

lemma lh_put_split:
  assumes "lh_put t k v = Some (u, fr)"
  obtains t1 r where "lh_table_delete t k = Some (t1, fr, r)" "lh_table_insert t1 k v = Some u"
  using assms by (auto simp: lh_put_def)

lemma object_add_tree:
  assumes t: "tree h (Some a) (JObject kvs) A" and v: "tree h p v B" "A \<inter> B = {}" and k: "NUL \<notin> set k"
  shows "\<exists>j C. json_object_object_add h (Some a) k p = Some (set_obj (release h C) a j) \<and>
    C \<subseteq> A - {a} \<and> tree (set_obj (release h C) a j) (Some a) (JObject (without k kvs @ [(k, v)])) (A - C \<union> B) \<and>
    (\<exists>h''. json_object_object_get (set_obj (release h C) a j) (Some a) k = Some (h'', p))"
proof -
  obtain j tb al A' where j: "obj_at h a = Some j" "sole j" "o_of j = C_object tb" "lh_ok tb al"
      "has_free_fn tb" "map fst al = map fst kvs" "\<forall>k\<in>fst ` set kvs. NUL \<notin> set k"
    and vs: "trees h (map snd al) (map snd kvs) A'" "a \<notin> A'" "A = insert a A'"
    using t by (cases rule: tree_objectE) auto
  obtain C D where CD: "A' = C \<union> D" "C \<inter> D = {}"
    "trees h (map snd (displaced k al)) (map snd (displaced k kvs)) C"
    "trees h (map snd (without k al)) (map snd (without k kvs)) D"
    using trees_without [OF j(6) vs(1), of k] by blast
  obtain u where u: "lh_put tb k p = Some (u, displaced k al)" "lh_ok u (without k al @ [(k, p)])" "has_free_fn u"
    using lh_put_law [OF j(4), of k p] j(5) by auto
  obtain t1 r where t1: "lh_table_delete tb k = Some (t1, displaced k al, r)" "lh_table_insert t1 k p = Some u"
    using lh_put_split [OF u(1)] by blast
  let ?j = "j\<lparr>o_of := C_object u\<rparr>" and ?h1 = "release h C"
  let ?h = "set_obj ?h1 a ?j"
  have "foldM json_object_put h (map snd (displaced k al)) = Some ?h1" by (rule put_tree(2) [OF CD(3)])
  moreover have "obj_at ?h1 a = Some j" using j(1) vs(2) CD(1) by simp
  ultimately have run: "json_object_object_add h (Some a) k p = Some ?h"
    using j(1,3) t1 by (simp add: json_object_object_add_def deref_def c_object_def foldM_entry_free upd_data_def)
  have D: "trees ?h (map snd (without k al)) (map snd (without k kvs)) D"
    by (rule tree_frame(2) [OF CD(4)]) (use CD(1,2) vs(2) in auto)
  have "tree ?h p v B"
    by (rule tree_frame(1) [OF v(1)]) (use v(2) vs(3) CD(1) in auto)
  then have B: "trees ?h [p] [v] B" by simp
  have sets: "D \<inter> B = {}" "a \<notin> D \<union> B" "insert a (D \<union> B) = A - C \<union> B" "C \<subseteq> A - {a}"
    using v(2) vs(2,3) CD(1,2) by auto
  have "trees ?h (map snd (without k al @ [(k, p)])) (map snd (without k kvs @ [(k, v)])) (D \<union> B)"
    using trees_appendI [OF D B sets(1)] by simp
  moreover have "\<forall>k'\<in>fst ` set (without k kvs @ [(k, v)]). NUL \<notin> set k'"
    using j(7) k by (auto simp: without_def)
  ultimately have "tree ?h (Some a) (JObject (without k kvs @ [(k, v)])) (insert a (D \<union> B))"
    using tree_object [of ?h a ?j u "without k al @ [(k, p)]" "without k kvs @ [(k, v)]" "D \<union> B"]
      j(2) u(2,3) map_fst_without [OF j(6)] sets(2) by simp
  moreover have "\<exists>h''. json_object_object_get ?h (Some a) k = Some (h'', p)"
    using lh_ok_lookup [OF u(2), of k, unfolded map_of_put]
    by (auto simp: json_object_object_get_def deref_def c_object_def upd_data_def)
  ultimately show ?thesis using run sets(3,4) by metis
qed

section \<open>Concrete parameters\<close>

text \<open>
  A C library whose doubles are the integers, printed with the six decimals of \<^verbatim>\<open>%lf\<close>, and an empty
  heap.
\<close>

definition sample_libc :: "int libc" where
  "sample_libc = \<lparr>fmt_double = (\<lambda>d. int_text d @ ''.000000''), scan_double = (\<lambda>s. Some (digits_value (takeWhile is_digit s))),
     trunc_double = id, of_int_double = id, nonzero_double = (\<lambda>d. d \<noteq> 0), scan_overflow = c_int,
     isspace_high = (\<lambda>_. None)\<rparr>"

definition empty_heap :: "'d heap" where
  "empty_heap = \<lparr>objs = (\<lambda>_. None), fresh = 0, refuse = False\<rparr>"

lemma empty_heap_ok: "heap_ok empty_heap"
  by (simp add: heap_ok_def empty_heap_def obj_at_def)

lemma sample_printable: "printable sample_libc"
  by (auto simp: printable_def sample_libc_def int_text_def digits_no_nul)

text \<open>A structure knows its root object.\<close>

lemma tree_root: "tree h (Some a) v A \<Longrightarrow> \<exists>j. obj_at h a = Some j \<and> sole j \<and> a \<in> A"
  by (cases rule: tree.cases) auto

text \<open>An array that holds one number.\<close>

lemma sample_array:
  "\<exists>h a b. heap_ok h \<and> tree (h :: int heap) (Some a) (JArray [JInt 5]) {a, b}"
proof -
  obtain h1 a where a: "json_object_new_array (empty_heap :: int heap) = (h1, Some a)" "grown empty_heap h1 a"
    "tree h1 (Some a) (JArray []) {a}" using new_tree(1) [OF empty_heap_ok] by blast
  then obtain h2 b where b: "json_object_new_int h1 5 = (h2, Some b)" "grown h1 h2 b" "tree h2 (Some b) (JInt 5) {b}"
    using new_tree(4) by (metis grown_def)
  have ab: "a \<noteq> b" using a b tree_mapped(1) [OF a(3), of a] by (auto simp: grown_def)
  have t: "tree h2 (Some a) (JArray []) {a}"
    by (rule tree_frame(1) [OF a(3)]) (use b ab in \<open>auto simp: grown_def\<close>)
  have "{a} \<union> {b} = {a, b}" by auto
  then obtain j where "tree (set_obj h2 a j) (Some a) (JArray [JInt 5]) {a, b}"
    using array_add_tree [OF t b(3)] ab by auto
  moreover have "heap_ok (set_obj h2 a j)"
    using b(2) tree_mapped(1) [OF t, of a] by (auto simp: grown_def intro!: heap_ok_set_obj)
  ultimately show ?thesis by blast
qed

section \<open>What the heap of objects promises\<close>

text \<open>
  C23: Printing an owned structure returns, inside the bounds of its buffer, exactly the text of its
  value: objects and arrays with their separators, strings with every control character, quote,
  backslash and slash escaped.  Nothing but the buffer of the printed object changes.
\<close>

theorem json_object_to_json_string_prints:
  assumes "tree h (Some a) v A" "heap_ok h" "printable lc" "int (length (print_json lc v)) + 8 \<le> INT_MAX"
  shows "\<exists>j pb. obj_at h a = Some j \<and> json_object_to_json_string lc h (Some a) =
      Some (set_obj h a (j\<lparr>pb_of := Some pb\<rparr>), Some (print_json lc v)) \<and>
    tree (set_obj h a (j\<lparr>pb_of := Some pb\<rparr>)) (Some a) v A"
proof -
  obtain j where j: "obj_at h a = Some j" "sole j" using tree_root [OF assms(1)] by blast
  obtain pb where pb: "json_object_to_json_string lc h (Some a) =
      Some (set_obj h a (j\<lparr>pb_of := Some pb\<rparr>), Some (print_json lc v))" "pb_wf pb"
    using to_json_string_rep [OF tree_rep(1) [OF assms(1)] j(1) _ _ assms(3,4)] j(2) assms(2)
    by (auto simp: heap_ok_def)
  moreover have "tree (set_obj h a (j\<lparr>pb_of := Some pb\<rparr>)) (Some a) v A"
    by (rule tree_same(1) [OF _ assms(1)]) (use j pb(2) in \<open>auto simp: buffer_ok_def\<close>)
  ultimately show ?thesis using j(1) by blast
qed

theorem json_object_to_json_string_prints_witness:
  "\<exists>h a h'. json_object_to_json_string sample_libc h (Some a) = Some (h', Some ''[ 5 ]'')"
proof -
  obtain h :: "int heap" and a b where t: "heap_ok h" "tree h (Some a) (JArray [JInt 5]) {a, b}"
    using sample_array by blast
  have p: "print_json sample_libc (JArray [JInt 5]) = ''[ 5 ]''" by code_simp
  show ?thesis
    using json_object_to_json_string_prints [OF t(2,1) sample_printable] unfolding p by auto
qed

text \<open>
  C24: Releasing the only reference to a structure frees every object of it, each exactly once and
  through the containers that hold them, and no other object; it never touches a freed object.
\<close>

theorem json_object_put_frees:
  assumes "tree h p v A"
  shows "\<exists>h'. json_object_put h p = Some h' \<and> (\<forall>a. obj_at h' a = (if a \<in> A then None else obj_at h a))"
  using put_tree(1) [OF assms] by auto

theorem json_object_put_frees_witness:
  "\<exists>h a b h'. tree (h :: int heap) (Some a) (JArray [JInt 5]) {a, b} \<and> json_object_put h (Some a) = Some h' \<and>
     obj_at h' a = None \<and> obj_at h' b = None"
proof -
  obtain h :: "int heap" and a b where t: "tree h (Some a) (JArray [JInt 5]) {a, b}"
    using sample_array by blast
  then show ?thesis using json_object_put_frees [OF t] by (metis insertI1 insertI2)
qed

text \<open>
  Taking a further reference and releasing it again leaves the heap as it was, and no release
  happens before the last reference is given up.
\<close>

theorem json_object_get_put:
  assumes "obj_at h a = Some j" "1 \<le> ref_count j" "ref_count j < INT_MAX"
  shows "\<exists>h1. json_object_get h (Some a) = Some (h1, Some a) \<and> json_object_put h1 (Some a) = Some h"
proof -
  have "c_int (ref_count j + 1) = ref_count j + 1" "c_int (ref_count j) = ref_count j"
    using assms by (auto intro!: c_int_eq)
  then show ?thesis
    using assms by (auto simp: json_object_get_def json_object_put.simps [of _ "Some a"] Let_def
        set_obj_def obj_at_def fun_upd_idem)
qed

theorem json_object_get_put_witness:
  "\<exists>h a h1. json_object_new_int (empty_heap :: int heap) 7 = (h, Some a) \<and>
     json_object_get h (Some a) = Some (h1, Some a) \<and> json_object_put h1 (Some a) = Some h"
proof -
  obtain h a where h: "json_object_new_int (empty_heap :: int heap) 7 = (h, Some a)"
    "tree h (Some a) (JInt 7) {a}"
    using new_tree(4) [OF empty_heap_ok] by blast
  then obtain j where "obj_at h a = Some j" "ref_count j = 1" using tree_root [OF h(2)] by auto
  then show ?thesis using json_object_get_put [of h a j] h(1) by auto
qed

text \<open>
  C25: Adding a member to an owned object from which no member was deleted makes the object own the value under
  that key, at the end of the order; a value stored before under the same key is freed with everything it
  owned, and a lookup returns the pointer added.  The object stays one without deleted members, so
  any number of such additions succeed.  After a \<^verbatim>\<open>json_object_object_del\<close> nothing is claimed: a store may then
  search the table for ever (\<open>lh_tombstones_hang\<close>).
\<close>

theorem json_object_object_add_spec:
  assumes "tree h (Some a) (JObject kvs) A" "tree h p v B" "A \<inter> B = {}" "NUL \<notin> set k"
  shows "\<exists>h' A' h''. json_object_object_add h (Some a) k p = Some h' \<and> A' \<subseteq> A \<and>
    tree h' (Some a) (JObject (without k kvs @ [(k, v)])) (A' \<union> B) \<and>
    (\<forall>x. x \<noteq> a \<longrightarrow> obj_at h' x = (if x \<in> A - A' then None else obj_at h x)) \<and>
    json_object_object_get h' (Some a) k = Some (h'', p)"
proof -
  obtain j C where C: "json_object_object_add h (Some a) k p = Some (set_obj (release h C) a j)" "C \<subseteq> A - {a}"
    "tree (set_obj (release h C) a j) (Some a) (JObject (without k kvs @ [(k, v)])) (A - C \<union> B)"
    "\<exists>h''. json_object_object_get (set_obj (release h C) a j) (Some a) k = Some (h'', p)"
    using object_add_tree [OF assms] by blast
  let ?h = "set_obj (release h C) a j"
  have "\<forall>x. x \<noteq> a \<longrightarrow> obj_at ?h x = (if x \<in> A - (A - C) then None else obj_at h x)"
    using C(2) by auto
  then show ?thesis using C by blast
qed

theorem json_object_object_add_spec_witness:
  "\<exists>h a b h' h''. tree h (Some a) (JObject []) {a} \<and> tree h (Some b) (JInt 7 :: int jval) {b} \<and>
     json_object_object_add h (Some a) ''key'' (Some b) = Some h' \<and>
     json_object_object_get h' (Some a) ''key'' = Some (h'', Some b)"
proof -
  obtain h1 a where a: "json_object_new_object (empty_heap :: int heap) = (h1, Some a)" "grown empty_heap h1 a"
    "tree h1 (Some a) (JObject []) {a}" using new_tree(2) [OF empty_heap_ok] by blast
  then obtain h b where b: "json_object_new_int h1 7 = (h, Some b)" "grown h1 h b" "tree h (Some b) (JInt 7) {b}"
    using new_tree(4) by (metis grown_def)
  have ab: "a \<noteq> b" using a b tree_mapped(1) [OF a(3), of a] by (auto simp: grown_def)
  have t: "tree h (Some a) (JObject []) {a}"
    by (rule tree_frame(1) [OF a(3)]) (use b ab in \<open>auto simp: grown_def\<close>)
  have "{a} \<inter> {b} = {}" "NUL \<notin> set ''key''" using ab by auto
  from json_object_object_add_spec [OF t b(3) this] show ?thesis using t b(3) by blast
qed

text \<open>
  Appending to an owned array makes the array own the value, at the end; the value is read back
  at its index, and nothing is released.
\<close>

theorem json_object_array_add_spec:
  assumes "tree h (Some a) (JArray vs) A" "tree h p v B" "A \<inter> B = {}" "length vs < 2 ^ 27"
  shows "\<exists>h'. json_object_array_add h (Some a) p = Some (h', 0) \<and>
    tree h' (Some a) (JArray (vs @ [v])) (A \<union> B) \<and> (\<forall>x. x \<noteq> a \<longrightarrow> obj_at h' x = obj_at h x) \<and>
    json_object_array_length h' (Some a) = Some (int (length vs) + 1) \<and>
    (\<exists>q C. json_object_array_get_idx h' (Some a) (int (length vs)) = Some q \<and> tree h' q v C)"
proof -
  obtain j where j: "json_object_array_add h (Some a) p = Some (set_obj h a j, 0)"
    "tree (set_obj h a j) (Some a) (JArray (vs @ [v])) (A \<union> B)"
    using array_add_tree [OF assms] by blast
  let ?h = "set_obj h a j"
  obtain arr A' where arr: "o_of j = C_array arr" "al_room arr 0" "trees ?h (al_list arr) (vs @ [v]) A'"
    using j(2) by (cases rule: tree_arrayE) auto
  obtain qs q where q: "al_list arr = qs @ [q]"
    using trees_length [OF arr(3)] by (cases "al_list arr" rule: rev_cases) auto
  then have len: "length qs = length vs" using trees_length [OF arr(3)] by simp
  obtain us ws C where C: "vs @ [v] = us @ ws" "trees ?h [q] ws C" "length us = length qs"
    using trees_appendD [of ?h qs "[q]"] arr(3) q trees_length by metis
  then have "tree ?h q v C" using len by auto
  moreover have "json_object_array_get_idx ?h (Some a) (int (length vs)) = Some q"
    using al_get_room [OF arr(2), of "length vs"] q len arr(1)
    by (simp add: json_object_array_get_idx_def deref_def c_array_def nth_append)
  moreover have "json_object_array_length ?h (Some a) = Some (int (length vs) + 1)"
    using length_al_list [of arr] arr(1,2) q len
    by (auto simp: json_object_array_length_def deref_def c_array_def array_list_length_def al_room_def al_wf_def)
  ultimately show ?thesis using j by auto
qed

theorem json_object_array_add_spec_witness:
  "\<exists>h a b h'. tree h (Some a) (JArray []) {a} \<and> tree h (Some b) (JInt 5 :: int jval) {b} \<and>
     json_object_array_add h (Some a) (Some b) = Some (h', 0) \<and>
     json_object_array_length h' (Some a) = Some 1"
proof -
  obtain h1 a where a: "json_object_new_array (empty_heap :: int heap) = (h1, Some a)" "grown empty_heap h1 a"
    "tree h1 (Some a) (JArray []) {a}" using new_tree(1) [OF empty_heap_ok] by blast
  then obtain h b where b: "json_object_new_int h1 5 = (h, Some b)" "grown h1 h b" "tree h (Some b) (JInt 5) {b}"
    using new_tree(4) by (metis grown_def)
  have ab: "a \<noteq> b" using a b tree_mapped(1) [OF a(3), of a] by (auto simp: grown_def)
  have t: "tree h (Some a) (JArray []) {a}"
    by (rule tree_frame(1) [OF a(3)]) (use b ab in \<open>auto simp: grown_def\<close>)
  have "{a} \<inter> {b} = {}" "length ([] :: int jval list) < 2 ^ 27" using ab by auto
  from json_object_array_add_spec [OF t b(3) this] show ?thesis using t b(3) by auto
qed

end
