(* ===== verification/JsonTokener.thy ===== *)
theory JsonTokener
  imports JsonHeap
begin

unbundle bit_operations_syntax

text \<open>
  The incremental JSON parser (\<^verbatim>\<open>json-c/json_tokener.c\<close>): a state machine driven one character at a
  time, with a stack of \<open>JSON_TOKENER_MAX_DEPTH\<close> levels.  The input is the memory from \<^verbatim>\<open>str\<close> on,
  terminator included; \<^verbatim>\<open>str\<close> is an offset into it and a read past its end is \<open>None\<close>.  Every case of
  the switch is one definition over the run's state \<open>run\<close>; its outcome says whether the case ends
  with \<^verbatim>\<open>break\<close>, \<^verbatim>\<open>goto redo_char\<close> or \<^verbatim>\<open>goto out\<close>.
\<close>

section \<open>Data\<close>

datatype json_tokener_error =
    json_tokener_success | json_tokener_continue | json_tokener_error_depth
  | json_tokener_error_parse_eof | json_tokener_error_parse_unexpected
  | json_tokener_error_parse_null | json_tokener_error_parse_boolean
  | json_tokener_error_parse_number | json_tokener_error_parse_array
  | json_tokener_error_parse_object_key_name | json_tokener_error_parse_object_key_sep
  | json_tokener_error_parse_object_value_sep | json_tokener_error_parse_string
  | json_tokener_error_parse_comment

datatype json_tokener_state =
    json_tokener_state_eatws | json_tokener_state_start | json_tokener_state_finish
  | json_tokener_state_null | json_tokener_state_comment_start | json_tokener_state_comment
  | json_tokener_state_comment_eol | json_tokener_state_comment_end | json_tokener_state_string
  | json_tokener_state_string_escape | json_tokener_state_escape_unicode
  | json_tokener_state_boolean | json_tokener_state_number | json_tokener_state_array
  | json_tokener_state_array_add | json_tokener_state_array_sep
  | json_tokener_state_object_field_start | json_tokener_state_object_field
  | json_tokener_state_object_field_end | json_tokener_state_object_value
  | json_tokener_state_object_value_add | json_tokener_state_object_sep

record json_tokener_srec =
  state :: json_tokener_state
  saved_state :: json_tokener_state
  current :: ptr
  obj_field_name :: "char list option"

definition JSON_TOKENER_MAX_DEPTH :: nat where
  "JSON_TOKENER_MAX_DEPTH = 32"

record json_tokener =
  tpb :: printbuf
  depth :: nat
  is_double :: int
  st_pos :: int
  char_offset :: int
  err :: json_tokener_error
  ucs_char :: "32 word"
  quote_char :: char
  stack :: "json_tokener_srec list"

text \<open>The locals of \<^verbatim>\<open>json_tokener_parse_ex\<close> with the tokener and the heap.\<close>

record 'd run =
  heap :: "'d heap"
  tok :: json_tokener
  obj :: ptr
  chr :: char
  str :: nat

datatype flow = Break | Redo | Out

section \<open>Access\<close>

definition srec_at :: "json_tokener \<Rightarrow> nat \<Rightarrow> json_tokener_srec option" where
  "srec_at t i = (if i < length (stack t) then Some (stack t ! i) else None)"

definition level :: "'d run \<Rightarrow> json_tokener_srec option" where
  "level r = srec_at (tok r) (depth (tok r))"

definition upd_tok :: "'d run \<Rightarrow> (json_tokener \<Rightarrow> json_tokener) \<Rightarrow> 'd run" where
  "upd_tok r f = r\<lparr>tok := f (tok r)\<rparr>"

definition upd_level :: "'d run \<Rightarrow> (json_tokener_srec \<Rightarrow> json_tokener_srec) \<Rightarrow> 'd run" where
  "upd_level r f =
     upd_tok r (\<lambda>t. t\<lparr>stack := (stack t)[depth t := f (stack t ! depth t)]\<rparr>)"

definition set_states :: "'d run \<Rightarrow> json_tokener_state \<Rightarrow> json_tokener_state \<Rightarrow> 'd run" where
  "set_states r s sv = upd_level r (\<lambda>l. l\<lparr>state := s, saved_state := sv\<rparr>)"

definition set_state :: "'d run \<Rightarrow> json_tokener_state \<Rightarrow> 'd run" where
  "set_state r s = upd_level r (\<lambda>l. l\<lparr>state := s\<rparr>)"

definition set_err :: "'d run \<Rightarrow> json_tokener_error \<Rightarrow> 'd run" where
  "set_err r e = upd_tok r (\<lambda>t. t\<lparr>err := e\<rparr>)"

text \<open>The appends to the token buffer: of literal text and of the input from an offset.\<close>

definition append_text :: "'d run \<Rightarrow> char list \<Rightarrow> 'd run option" where
  "append_text r x = do {
     q \<leftarrow> printbuf_memappend_fast (\<not> refuse (heap r)) (tpb (tok r)) x (int (length x));
     Some (upd_tok r (\<lambda>t. t\<lparr>tpb := q\<rparr>))
   }"

definition append_input :: "char list \<Rightarrow> 'd run \<Rightarrow> nat \<Rightarrow> nat \<Rightarrow> 'd run option" where
  "append_input inp r start n = do {
     q \<leftarrow> printbuf_memappend_fast (\<not> refuse (heap r)) (tpb (tok r)) (drop start inp) (int n);
     Some (upd_tok r (\<lambda>t. t\<lparr>tpb := q\<rparr>))
   }"

definition reset_pb :: "'d run \<Rightarrow> 'd run option" where
  "reset_pb r = do {
     q \<leftarrow> printbuf_reset (tpb (tok r));
     Some (upd_tok r (\<lambda>t. t\<lparr>tpb := q\<rparr>))
   }"

section \<open>Construction and reset\<close>

definition json_tokener_reset_level ::
  "'d heap \<Rightarrow> json_tokener \<Rightarrow> nat \<Rightarrow> ('d heap \<times> json_tokener) option" where
  "json_tokener_reset_level h t d = do {
     l \<leftarrow> srec_at t d;
     h1 \<leftarrow> json_object_put h (current l);
     Some (h1, t\<lparr>stack := (stack t)[d := \<lparr>state = json_tokener_state_eatws,
       saved_state = json_tokener_state_start, current = None, obj_field_name = None\<rparr>]\<rparr>)
   }"

fun reset_levels :: "'d heap \<Rightarrow> json_tokener \<Rightarrow> nat \<Rightarrow> ('d heap \<times> json_tokener) option" where
  "reset_levels h t 0 = json_tokener_reset_level h t 0"
| "reset_levels h t (Suc i) = do {
     (h1, t1) \<leftarrow> json_tokener_reset_level h t (Suc i);
     reset_levels h1 t1 i
   }"

definition json_tokener_reset :: "'d heap \<Rightarrow> json_tokener \<Rightarrow> ('d heap \<times> json_tokener) option" where
  "json_tokener_reset h t = do {
     (h1, t1) \<leftarrow> reset_levels h t (depth t);
     Some (h1, t1\<lparr>depth := 0, err := json_tokener_success\<rparr>)
   }"

text \<open>A refused allocation gives the null pointer; \<^verbatim>\<open>calloc\<close> clears the tokener.\<close>

definition json_tokener_new :: "'d heap \<Rightarrow> ('d heap \<times> json_tokener option) option" where
  "json_tokener_new h =
     (if refuse h then Some (h, None)
      else do {
     pb \<leftarrow> printbuf_new (\<not> refuse h) (\<not> refuse h);
     (h1, t) \<leftarrow> json_tokener_reset h \<lparr>tpb = pb, depth = 0, is_double = 0, st_pos = 0, char_offset = 0,
       err = json_tokener_success, ucs_char = 0, quote_char = NUL,
       stack = replicate JSON_TOKENER_MAX_DEPTH \<lparr>state = json_tokener_state_eatws,
         saved_state = json_tokener_state_eatws, current = None, obj_field_name = None\<rparr>\<rparr>;
     Some (h1, Some t)
   })"

definition json_tokener_free :: "'d heap \<Rightarrow> json_tokener \<Rightarrow> 'd heap option" where
  "json_tokener_free h t = do { (h1, t1) \<leftarrow> json_tokener_reset h t; Some h1 }"

section \<open>Reading the input\<close>

text \<open>\<^verbatim>\<open>POP_CHAR\<close>: look at the current character, or stop at the given length.\<close>

definition POP_CHAR :: "char list \<Rightarrow> int \<Rightarrow> 'd run \<Rightarrow> ('d run \<times> bool) option" where
  "POP_CHAR inp len r =
     (if char_offset (tok r) = len
      then do {
        l \<leftarrow> level r;
        Some (set_err r
          (if depth (tok r) = 0 \<and> state l = json_tokener_state_eatws \<and> saved_state l = json_tokener_state_finish
           then json_tokener_success else json_tokener_continue), False)
      }
      else if str r < length inp then Some (r\<lparr>chr := inp ! str r\<rparr>, True) else None)"

text \<open>\<^verbatim>\<open>ADVANCE_CHAR\<close>: step over the character; its value is the old character.\<close>

definition ADVANCE_CHAR :: "'d run \<Rightarrow> 'd run" where
  "ADVANCE_CHAR r =
     upd_tok (r\<lparr>str := Suc (str r)\<rparr>) (\<lambda>t. t\<lparr>char_offset := c_int (char_offset t + 1)\<rparr>)"

text \<open>\<^verbatim>\<open>ADVANCE_CHAR(str, tok) && POP_CHAR(c, tok)\<close>\<close>

definition next_char :: "char list \<Rightarrow> int \<Rightarrow> 'd run \<Rightarrow> ('d run \<times> bool) option" where
  "next_char inp len r =
     (if chr r = NUL then Some (ADVANCE_CHAR r, False) else POP_CHAR inp len (ADVANCE_CHAR r))"

text \<open>The tight loops that skip characters: \<open>False\<close> when they run into the end of the input.\<close>

partial_function (option) scan_while ::
  "(char \<Rightarrow> bool) \<Rightarrow> char list \<Rightarrow> int \<Rightarrow> 'd run \<Rightarrow> ('d run \<times> bool) option" where
  "scan_while p inp len r =
     (if p (chr r)
      then do {
        (r1, more) \<leftarrow> next_char inp len r;
        if more then scan_while p inp len r1 else Some (r1, False)
      }
      else Some (r, True))"

declare scan_while.simps [code]

text \<open>The loop over white space, with \<^verbatim>\<open>isspace\<close> applied to a plain \<^verbatim>\<open>char\<close>.\<close>

partial_function (option) skip_white ::
  "'d libc \<Rightarrow> char list \<Rightarrow> int \<Rightarrow> 'd run \<Rightarrow> ('d run \<times> bool) option" where
  "skip_white lc inp len r = do {
     w \<leftarrow> isspace lc (chr r);
     if w
     then do {
       (r1, more) \<leftarrow> next_char inp len r;
       if more then skip_white lc inp len r1 else Some (r1, False)
     }
     else Some (r, True)
   }"

declare skip_white.simps [code]

section \<open>The cases of the switch\<close>

definition case_eatws :: "'d libc \<Rightarrow> char list \<Rightarrow> int \<Rightarrow> 'd run \<Rightarrow> ('d run \<times> flow) option" where
  "case_eatws lc inp len r = do {
     (r1, more) \<leftarrow> skip_white lc inp len r;
     if \<not> more then Some (r1, Out)
     else if chr r1 = CHR ''/'' then do {
       r2 \<leftarrow> reset_pb r1;
       r3 \<leftarrow> append_text r2 [chr r1];
       Some (set_state r3 json_tokener_state_comment_start, Break)
     }
     else do {
       l \<leftarrow> level r1;
       Some (set_state r1 (saved_state l), Redo)
     }
   }"

definition case_start :: "'d run \<Rightarrow> ('d run \<times> flow) option" where
  "case_start r =
     (let c = chr r
      in if c = CHR ''{'' then
           (let r1 = set_states r json_tokener_state_eatws json_tokener_state_object_field_start;
                (h, p) = json_object_new_object (heap r1)
            in Some (upd_level (r1\<lparr>heap := h\<rparr>) (\<lambda>l. l\<lparr>current := p\<rparr>), Break))
         else if c = CHR ''['' then
           (let r1 = set_states r json_tokener_state_eatws json_tokener_state_array;
                (h, p) = json_object_new_array (heap r1)
            in Some (upd_level (r1\<lparr>heap := h\<rparr>) (\<lambda>l. l\<lparr>current := p\<rparr>), Break))
         else if c = CHR ''N'' \<or> c = CHR ''n'' then do {
           r1 \<leftarrow> reset_pb (set_state r json_tokener_state_null);
           Some (upd_tok r1 (\<lambda>t. t\<lparr>st_pos := 0\<rparr>), Redo)
         }
         else if c = CHR 0x22 \<or> c = CHR 0x27 then do {
           r1 \<leftarrow> reset_pb (set_state r json_tokener_state_string);
           Some (upd_tok r1 (\<lambda>t. t\<lparr>quote_char := c\<rparr>), Break)
         }
         else if c = CHR ''T'' \<or> c = CHR ''t'' \<or> c = CHR ''F'' \<or> c = CHR ''f'' then do {
           r1 \<leftarrow> reset_pb (set_state r json_tokener_state_boolean);
           Some (upd_tok r1 (\<lambda>t. t\<lparr>st_pos := 0\<rparr>), Redo)
         }
         else if is_digit c \<or> c = CHR ''-'' then do {
           r1 \<leftarrow> reset_pb (set_state r json_tokener_state_number);
           Some (upd_tok r1 (\<lambda>t. t\<lparr>is_double := 0\<rparr>), Redo)
         }
         else Some (set_err r json_tokener_error_parse_unexpected, Out))"

definition case_finish :: "'d run \<Rightarrow> ('d run \<times> flow) option" where
  "case_finish r =
     (if depth (tok r) = 0 then Some (r, Out)
      else do {
        l \<leftarrow> level r;
        (h1, p) \<leftarrow> json_object_get (heap r) (current l);
        (h2, t1) \<leftarrow> json_tokener_reset_level h1 (tok r) (depth (tok r));
        Some (r\<lparr>heap := h2, obj := p, tok := t1\<lparr>depth := depth t1 - 1\<rparr>\<rparr>, Redo)
      })"

definition to_lower :: "char \<Rightarrow> char" where
  "to_lower c = (if 65 \<le> uchar c \<and> uchar c \<le> 90 then char_of (uchar c + 32) else c)"

text \<open>\<^verbatim>\<open>strncasecmp(s, buf, n) == 0\<close> with \<open>s\<close> a literal.\<close>

fun strncasecmp_eq :: "char list \<Rightarrow> block \<Rightarrow> nat \<Rightarrow> bool option" where
  "strncasecmp_eq s b 0 = Some True"
| "strncasecmp_eq s [] (Suc n) = None"
| "strncasecmp_eq s (None # b) (Suc n) = None"
| "strncasecmp_eq s (Some x # b) (Suc n) =
     (let y = (case s of [] \<Rightarrow> NUL | y # _ \<Rightarrow> y)
      in if to_lower x \<noteq> to_lower y then Some False
         else if x = NUL then Some True else strncasecmp_eq (tl s) b n)"

definition literal_so_far :: "char list \<Rightarrow> json_tokener \<Rightarrow> bool option" where
  "literal_so_far s t = strncasecmp_eq s (buf (tpb t)) (nat (json_min (st_pos t + 1) (int (length s))))"

text \<open>The level gets its value: \<^verbatim>\<open>current\<close> is set and the level is finished.\<close>

definition finish_with :: "'d run \<Rightarrow> 'd heap \<times> ptr \<Rightarrow> 'd run" where
  "finish_with r hp =
     upd_level (r\<lparr>heap := fst hp\<rparr>) (\<lambda>l. l\<lparr>current := snd hp, saved_state := json_tokener_state_finish,
       state := json_tokener_state_eatws\<rparr>)"

definition advance_st_pos :: "'d run \<Rightarrow> 'd run" where
  "advance_st_pos r = upd_tok r (\<lambda>t. t\<lparr>st_pos := c_int (st_pos t + 1)\<rparr>)"

definition case_null :: "'d run \<Rightarrow> ('d run \<times> flow) option" where
  "case_null r = do {
     r1 \<leftarrow> append_text r [chr r];
     same \<leftarrow> literal_so_far ''null'' (tok r1);
     if same
     then if st_pos (tok r1) = 4
          then Some (finish_with r1 (heap r1, None), Redo)
          else Some (advance_st_pos r1, Break)
     else Some (set_err r1 json_tokener_error_parse_null, Out)
   }"

definition case_comment_start :: "'d run \<Rightarrow> ('d run \<times> flow) option" where
  "case_comment_start r =
     (if chr r = CHR ''*'' then do {
        r1 \<leftarrow> append_text (set_state r json_tokener_state_comment) [chr r];
        Some (r1, Break)
      }
      else if chr r = CHR ''/'' then do {
        r1 \<leftarrow> append_text (set_state r json_tokener_state_comment_eol) [chr r];
        Some (r1, Break)
      }
      else Some (set_err r json_tokener_error_parse_comment, Out))"

definition case_comment :: "char list \<Rightarrow> int \<Rightarrow> 'd run \<Rightarrow> ('d run \<times> flow) option" where
  "case_comment inp len r = do {
     (r1, more) \<leftarrow> scan_while (\<lambda>c. c \<noteq> CHR ''*'') inp len r;
     if \<not> more then do {
       r2 \<leftarrow> append_input inp r1 (str r) (str r1 - str r);
       Some (r2, Out)
     }
     else do {
       r2 \<leftarrow> append_input inp r1 (str r) (1 + str r1 - str r);
       Some (set_state r2 json_tokener_state_comment_end, Break)
     }
   }"

definition case_comment_eol :: "char list \<Rightarrow> int \<Rightarrow> 'd run \<Rightarrow> ('d run \<times> flow) option" where
  "case_comment_eol inp len r = do {
     (r1, more) \<leftarrow> scan_while (\<lambda>c. c \<noteq> CHR 0x0a) inp len r;
     r2 \<leftarrow> append_input inp r1 (str r) (str r1 - str r);
     if \<not> more then Some (r2, Out)
     else Some (set_state r2 json_tokener_state_eatws, Break)
   }"

definition case_comment_end :: "'d run \<Rightarrow> ('d run \<times> flow) option" where
  "case_comment_end r = do {
     r1 \<leftarrow> append_text r [chr r];
     Some (set_state r1
       (if chr r = CHR ''/'' then json_tokener_state_eatws else json_tokener_state_comment), Break)
   }"

definition case_string :: "char list \<Rightarrow> int \<Rightarrow> 'd run \<Rightarrow> ('d run \<times> flow) option" where
  "case_string inp len r = do {
     (r1, more) \<leftarrow> scan_while (\<lambda>c. c \<noteq> quote_char (tok r) \<and> c \<noteq> CHR 0x5c) inp len r;
     r2 \<leftarrow> append_input inp r1 (str r) (str r1 - str r);
     if \<not> more then Some (r2, Out)
     else if chr r2 = quote_char (tok r2) then do {
       s \<leftarrow> read_cstr (buf (tpb (tok r2)));
       Some (finish_with r2 (json_object_new_string (heap r2) s), Break)
     }
     else Some (set_states r2 json_tokener_state_string_escape json_tokener_state_string, Break)
   }"

definition case_string_escape :: "'d run \<Rightarrow> ('d run \<times> flow) option" where
  "case_string_escape r = do {
     l \<leftarrow> level r;
     let c = chr r;
     if c = CHR 0x22 \<or> c = CHR 0x5c \<or> c = CHR ''/'' then do {
       r1 \<leftarrow> append_text r [c];
       Some (set_state r1 (saved_state l), Break)
     }
     else if c = CHR ''b'' \<or> c = CHR ''n'' \<or> c = CHR ''r'' \<or> c = CHR ''t'' then do {
       r1 \<leftarrow> append_text r
         [if c = CHR ''b'' then CHR 0x08 else if c = CHR ''n'' then CHR 0x0a
          else if c = CHR ''r'' then CHR 0x0d else CHR 0x09];
       Some (set_state r1 (saved_state l), Break)
     }
     else if c = CHR ''u'' then
       Some (set_state (upd_tok r (\<lambda>t. t\<lparr>ucs_char := 0, st_pos := 0\<rparr>)) json_tokener_state_escape_unicode, Break)
     else Some (set_err r json_tokener_error_parse_string, Out)
   }"

definition hexdigit :: "char \<Rightarrow> 32 word" where
  "hexdigit c = (if uchar c \<le> 57 \<or> 128 \<le> uchar c
     then schar_word c - 48 else (schar_word c AND 7) + 9)"

definition byte_of :: "32 word \<Rightarrow> char" where
  "byte_of w = char_of (uint (w AND 0xff))"

definition utf_out :: "32 word \<Rightarrow> char list" where
  "utf_out u =
     (if u < 0x80 then [byte_of u]
      else if u < 0x800 then [byte_of (0xc0 OR drop_bit 6 u), byte_of (0x80 OR (u AND 0x3f))]
      else [byte_of (0xe0 OR drop_bit 12 u), byte_of (0x80 OR (drop_bit 6 u AND 0x3f)),
            byte_of (0x80 OR (u AND 0x3f))])"

text \<open>\<^verbatim>\<open>strchr\<close> finds the terminator of \<^verbatim>\<open>json_hex_chars\<close> as well.\<close>

partial_function (option) case_escape_unicode ::
  "char list \<Rightarrow> int \<Rightarrow> 'd run \<Rightarrow> ('d run \<times> flow) option" where
  "case_escape_unicode inp len r =
     (if chr r \<in> set json_hex_chars \<or> chr r = NUL
      then do {
        let t = tok r;
        let u = ucs_char t + push_bit (nat ((3 - st_pos t) * 4)) (hexdigit (chr r));
        let r1 = upd_tok r (\<lambda>t. t\<lparr>ucs_char := u, st_pos := c_int (st_pos t + 1)\<rparr>);
        if st_pos (tok r1) = 4 then do {
          r2 \<leftarrow> append_text r1 (utf_out u);
          l \<leftarrow> level r2;
          Some (set_state r2 (saved_state l), Break)
        }
        else do {
          (r2, more) \<leftarrow> next_char inp len r1;
          if more then case_escape_unicode inp len r2 else Some (r2, Out)
        }
      }
      else Some (set_err r json_tokener_error_parse_string, Out))"

declare case_escape_unicode.simps [code]

definition case_boolean :: "'d run \<Rightarrow> ('d run \<times> flow) option" where
  "case_boolean r = do {
     r1 \<leftarrow> append_text r [chr r];
     t \<leftarrow> literal_so_far ''true'' (tok r1);
     if t
     then if st_pos (tok r1) = 4
          then Some (finish_with r1 (json_object_new_boolean (heap r1) 1), Redo)
          else Some (advance_st_pos r1, Break)
     else do {
       f \<leftarrow> literal_so_far ''false'' (tok r1);
       if f
       then if st_pos (tok r1) = 5
            then Some (finish_with r1 (json_object_new_boolean (heap r1) 0), Redo)
            else Some (advance_st_pos r1, Break)
       else Some (set_err r1 json_tokener_error_parse_boolean, Out)
     }
   }"

partial_function (option) scan_number ::
  "char list \<Rightarrow> int \<Rightarrow> 'd run \<Rightarrow> nat \<Rightarrow> ('d run \<times> nat \<times> bool) option" where
  "scan_number inp len r case_len =
     (if chr r \<noteq> NUL \<and> chr r \<in> set json_number_chars
      then do {
        let r1 = (if chr r = CHR ''.'' \<or> chr r = CHR ''e'' then upd_tok r (\<lambda>t. t\<lparr>is_double := 1\<rparr>) else r);
        (r2, more) \<leftarrow> next_char inp len r1;
        if more then scan_number inp len r2 (Suc case_len) else Some (r2, Suc case_len, False)
      }
      else Some (r, case_len, True))"

declare scan_number.simps [code]

definition case_number :: "'d libc \<Rightarrow> char list \<Rightarrow> int \<Rightarrow> 'd run \<Rightarrow> ('d run \<times> flow) option" where
  "case_number lc inp len r = do {
     (r1, case_len, more) \<leftarrow> scan_number inp len r 0;
     if \<not> more then do {
       r2 \<leftarrow> append_input inp r1 (str r) case_len;
       Some (r2, Out)
     }
     else do {
       r2 \<leftarrow> (if case_len > 0 then append_input inp r1 (str r) case_len else Some r1);
       s \<leftarrow> read_cstr (buf (tpb (tok r2)));
       if is_double (tok r2) = 0
       then (case scan_int lc s of
               Some numi \<Rightarrow> Some (finish_with r2 (json_object_new_int (heap r2) numi), Redo)
             | None \<Rightarrow> Some (set_err r2 json_tokener_error_parse_number, Out))
       else (case scan_double lc s of
               Some numd \<Rightarrow> Some (finish_with r2 (json_object_new_double (heap r2) numd), Redo)
             | None \<Rightarrow> Some (set_err r2 json_tokener_error_parse_number, Out))
     }
   }"

text \<open>A container descends one level for a member; the depth is checked first.\<close>

definition descend :: "'d run \<Rightarrow> json_tokener_state \<Rightarrow> ('d run \<times> flow) option" where
  "descend r s =
     (if depth (tok r) \<ge> JSON_TOKENER_MAX_DEPTH - 1
      then Some (set_err r json_tokener_error_depth, Out)
      else do {
        let r1 = upd_tok (set_state r s) (\<lambda>t. t\<lparr>depth := Suc (depth t)\<rparr>);
        (h, t) \<leftarrow> json_tokener_reset_level (heap r1) (tok r1) (depth (tok r1));
        Some (r1\<lparr>heap := h, tok := t\<rparr>, Redo)
      })"

definition case_array :: "'d run \<Rightarrow> ('d run \<times> flow) option" where
  "case_array r =
     (if chr r = CHR '']''
      then Some (set_states r json_tokener_state_eatws json_tokener_state_finish, Break)
      else descend r json_tokener_state_array_add)"

definition case_array_add :: "'d run \<Rightarrow> ('d run \<times> flow) option" where
  "case_array_add r = do {
     l \<leftarrow> level r;
     (h, _) \<leftarrow> json_object_array_add (heap r) (current l) (obj r);
     Some (set_states (r\<lparr>heap := h\<rparr>) json_tokener_state_eatws json_tokener_state_array_sep, Redo)
   }"

definition case_array_sep :: "'d run \<Rightarrow> ('d run \<times> flow) option" where
  "case_array_sep r =
     (if chr r = CHR '']''
      then Some (set_states r json_tokener_state_eatws json_tokener_state_finish, Break)
      else if chr r = CHR '',''
      then Some (set_states r json_tokener_state_eatws json_tokener_state_array, Break)
      else Some (set_err r json_tokener_error_parse_array, Out))"

definition case_object_field_start :: "'d run \<Rightarrow> ('d run \<times> flow) option" where
  "case_object_field_start r =
     (if chr r = CHR ''}''
      then Some (set_states r json_tokener_state_eatws json_tokener_state_finish, Break)
      else if chr r = CHR 0x22 \<or> chr r = CHR 0x27 then do {
        r1 \<leftarrow> reset_pb (upd_tok r (\<lambda>t. t\<lparr>quote_char := chr r\<rparr>));
        Some (set_state r1 json_tokener_state_object_field, Break)
      }
      else Some (set_err r json_tokener_error_parse_object_key_name, Out))"

definition case_object_field :: "char list \<Rightarrow> int \<Rightarrow> 'd run \<Rightarrow> ('d run \<times> flow) option" where
  "case_object_field inp len r = do {
     (r1, more) \<leftarrow> scan_while (\<lambda>c. c \<noteq> quote_char (tok r) \<and> c \<noteq> CHR 0x5c) inp len r;
     r2 \<leftarrow> append_input inp r1 (str r) (str r1 - str r);
     if \<not> more then Some (r2, Out)
     else if chr r2 = quote_char (tok r2) then do {
       s \<leftarrow> read_cstr (buf (tpb (tok r2)));
       Some (set_states (upd_level r2 (\<lambda>l. l\<lparr>obj_field_name := if refuse (heap r2) then None else Some s\<rparr>))
         json_tokener_state_eatws json_tokener_state_object_field_end, Break)
     }
     else Some (set_states r2 json_tokener_state_string_escape json_tokener_state_object_field, Break)
   }"

definition case_object_field_end :: "'d run \<Rightarrow> ('d run \<times> flow) option" where
  "case_object_field_end r =
     (if chr r = CHR '':''
      then Some (set_states r json_tokener_state_eatws json_tokener_state_object_value, Break)
      else Some (set_err r json_tokener_error_parse_object_key_sep, Out))"

definition case_object_value :: "'d run \<Rightarrow> ('d run \<times> flow) option" where
  "case_object_value r = descend r json_tokener_state_object_value_add"

definition case_object_value_add :: "'d run \<Rightarrow> ('d run \<times> flow) option" where
  "case_object_value_add r = do {
     l \<leftarrow> level r;
     key \<leftarrow> obj_field_name l;
     h \<leftarrow> json_object_object_add (heap r) (current l) key (obj r);
     Some (upd_level (r\<lparr>heap := h\<rparr>) (\<lambda>l. l\<lparr>obj_field_name := None,
       saved_state := json_tokener_state_object_sep, state := json_tokener_state_eatws\<rparr>), Redo)
   }"

definition case_object_sep :: "'d run \<Rightarrow> ('d run \<times> flow) option" where
  "case_object_sep r =
     (if chr r = CHR ''}''
      then Some (set_states r json_tokener_state_eatws json_tokener_state_finish, Break)
      else if chr r = CHR '',''
      then Some (set_states r json_tokener_state_eatws json_tokener_state_object_field_start, Break)
      else Some (set_err r json_tokener_error_parse_object_value_sep, Out))"

section \<open>The parser\<close>

definition switch_state :: "'d libc \<Rightarrow> char list \<Rightarrow> int \<Rightarrow> 'd run \<Rightarrow> ('d run \<times> flow) option" where
  "switch_state lc inp len r = do {
     l \<leftarrow> level r;
     (case state l of
        json_tokener_state_eatws \<Rightarrow> case_eatws lc inp len r
      | json_tokener_state_start \<Rightarrow> case_start r
      | json_tokener_state_finish \<Rightarrow> case_finish r
      | json_tokener_state_null \<Rightarrow> case_null r
      | json_tokener_state_comment_start \<Rightarrow> case_comment_start r
      | json_tokener_state_comment \<Rightarrow> case_comment inp len r
      | json_tokener_state_comment_eol \<Rightarrow> case_comment_eol inp len r
      | json_tokener_state_comment_end \<Rightarrow> case_comment_end r
      | json_tokener_state_string \<Rightarrow> case_string inp len r
      | json_tokener_state_string_escape \<Rightarrow> case_string_escape r
      | json_tokener_state_escape_unicode \<Rightarrow> case_escape_unicode inp len r
      | json_tokener_state_boolean \<Rightarrow> case_boolean r
      | json_tokener_state_number \<Rightarrow> case_number lc inp len r
      | json_tokener_state_array \<Rightarrow> case_array r
      | json_tokener_state_array_add \<Rightarrow> case_array_add r
      | json_tokener_state_array_sep \<Rightarrow> case_array_sep r
      | json_tokener_state_object_field_start \<Rightarrow> case_object_field_start r
      | json_tokener_state_object_field \<Rightarrow> case_object_field inp len r
      | json_tokener_state_object_field_end \<Rightarrow> case_object_field_end r
      | json_tokener_state_object_value \<Rightarrow> case_object_value r
      | json_tokener_state_object_value_add \<Rightarrow> case_object_value_add r
      | json_tokener_state_object_sep \<Rightarrow> case_object_sep r)
   }"

text \<open>The main loop, entered at \<^verbatim>\<open>redo_char\<close>.\<close>

partial_function (option) parse_loop ::
  "'d libc \<Rightarrow> char list \<Rightarrow> int \<Rightarrow> 'd run \<Rightarrow> 'd run option" where
  "parse_loop lc inp len r = do {
     (r1, fl) \<leftarrow> switch_state lc inp len r;
     if fl = Redo then parse_loop lc inp len r1
     else if fl = Out then Some r1
     else do {
       (r2, more) \<leftarrow> next_char inp len r1;
       if more then parse_loop lc inp len r2 else Some r2
     }
   }"

declare parse_loop.simps [code]

text \<open>The code at \<^verbatim>\<open>out\<close>.\<close>

definition parse_out :: "'d run \<Rightarrow> ('d heap \<times> json_tokener \<times> ptr) option" where
  "parse_out r0 = do {
     l \<leftarrow> level r0;
     let r = (if chr r0 = NUL \<and> state l \<noteq> json_tokener_state_finish \<and> saved_state l \<noteq> json_tokener_state_finish
              then set_err r0 json_tokener_error_parse_eof else r0);
     if err (tok r) = json_tokener_success
     then do {
       (h, p) \<leftarrow> json_object_get (heap r) (current l);
       Some (h, tok r, p)
     }
     else Some (heap r, tok r, None)
   }"

definition json_tokener_parse_ex ::
  "'d libc \<Rightarrow> 'd heap \<Rightarrow> json_tokener \<Rightarrow> char list \<Rightarrow> int \<Rightarrow> ('d heap \<times> json_tokener \<times> ptr) option" where
  "json_tokener_parse_ex lc h t inp len = do {
     let r0 = \<lparr>heap = h, tok = t\<lparr>char_offset := 0, err := json_tokener_success\<rparr>, obj = None,
               chr = CHR 0x01, str = 0\<rparr>;
     (r1, more) \<leftarrow> POP_CHAR inp len r0;
     r2 \<leftarrow> (if more then parse_loop lc inp len r1 else Some r1);
     parse_out r2
   }"

text \<open>
  The result of a parse: an object, or the error that the pointer encodes.  The new tokener is used
  without a look at whether there is one.
\<close>

datatype parse_result = Parsed ptr | Failed json_tokener_error

definition json_tokener_parse ::
  "'d libc \<Rightarrow> 'd heap \<Rightarrow> char list \<Rightarrow> ('d heap \<times> parse_result) option" where
  "json_tokener_parse lc h inp = do {
     (h1, tokp) \<leftarrow> json_tokener_new h;
     t \<leftarrow> tokp;
     (h2, t1, p) \<leftarrow> json_tokener_parse_ex lc h1 t inp (- 1);
     h3 \<leftarrow> json_tokener_free h2 t1;
     Some (h3, if err t1 \<noteq> json_tokener_success then Failed (err t1) else Parsed p)
   }"

end
