(* ===== verification/JsonSim.thy ===== *)
theory JsonSim
  imports JsonTokener
begin

text \<open>
  The abstract view of a parser run and the effect of the tokener's elementary actions on it.  A run
  stands for a list of open containers (\<open>frames\<close>), the value under construction at the top, the
  token text, and the states of the top level; the heap of the run is the heap at the start plus the
  structures of these values, each owned once.
\<close>

section \<open>The abstract view\<close>

text \<open>A container waiting for a member: an array, or an object with the name of the member.\<close>

datatype 'd frame = FArr "'d jval list" | FObj "(char list \<times> 'd jval) list" "char list"

fun fval :: "'d frame \<Rightarrow> 'd jval" where
  "fval (FArr xs) = JArray xs"
| "fval (FObj kvs k) = JObject kvs"

fun frame_ok :: "json_tokener_srec \<Rightarrow> 'd frame \<Rightarrow> bool" where
  "frame_ok l (FArr xs) \<longleftrightarrow> state l = json_tokener_state_array_add"
| "frame_ok l (FObj kvs k) \<longleftrightarrow> state l = json_tokener_state_object_value_add \<and>
     obj_field_name l = Some k \<and> NUL \<notin> set k"

text \<open>\<open>own\<close> is the finished member that the local \<^verbatim>\<open>obj\<close> holds, if it does.\<close>

record 'd view =
  frames :: "'d frame list"
  top :: json_tokener_state
  saved :: json_tokener_state
  field :: "char list option"
  val :: "'d jval"
  own :: "'d jval list"
  token :: "char list option"

definition stack_sim :: "json_tokener \<Rightarrow> 'd view \<Rightarrow> bool" where
  "stack_sim t a \<longleftrightarrow> length (stack t) = JSON_TOKENER_MAX_DEPTH \<and>
     depth t = length (frames a) \<and> depth t < JSON_TOKENER_MAX_DEPTH \<and>
     list_all2 frame_ok (take (depth t) (stack t)) (frames a) \<and>
     (\<forall>i. depth t < i \<and> i < JSON_TOKENER_MAX_DEPTH \<longrightarrow> current (stack t ! i) = None) \<and>
     state (stack t ! depth t) = top a \<and> saved_state (stack t ! depth t) = saved a \<and>
     obj_field_name (stack t ! depth t) = field a"

definition currents :: "json_tokener \<Rightarrow> ptr list" where
  "currents t = map current (take (depth t) (stack t)) @ [current (stack t ! depth t)]"

definition heap_sim :: "'d heap \<Rightarrow> 'd heap \<Rightarrow> ptr list \<Rightarrow> 'd jval list \<Rightarrow> nat set \<Rightarrow> bool" where
  "heap_sim h0 h ps vs A \<longleftrightarrow> heap_ok h \<and> trees h ps vs A \<and>
     (\<forall>x. obj_at h0 x = (if x \<in> A then None else obj_at h x))"

definition text_sim :: "printbuf \<Rightarrow> nat \<Rightarrow> char list option \<Rightarrow> bool" where
  "text_sim pb n x \<longleftrightarrow> pb_wf pb \<and> bpos pb \<le> int n + 1 \<and>
     (\<forall>s. x = Some s \<longrightarrow> pb_text pb = s \<and> pb_terminated pb)"

definition own_ptrs :: "'d run \<Rightarrow> 'd view \<Rightarrow> ptr list" where
  "own_ptrs r a = (if own a = [] then [] else [obj r])"

definition sim :: "'d heap \<Rightarrow> 'd run \<Rightarrow> 'd view \<Rightarrow> nat set \<Rightarrow> bool" where
  "sim h0 r a A \<longleftrightarrow> stack_sim (tok r) a \<and>
     heap_sim h0 (heap r) (currents (tok r) @ own_ptrs r a) (map fval (frames a) @ [val a] @ own a) A \<and>
     text_sim (tpb (tok r)) (str r) (token a)"

text \<open>The input is a C string in memory, short enough for the arrays it can make.\<close>

definition c_input :: "char list \<Rightarrow> bool" where
  "c_input inp \<longleftrightarrow> inp \<noteq> [] \<and> last inp = NUL \<and> NUL \<notin> set (butlast inp) \<and> length inp \<le> 2 ^ 27"

definition pos_ok :: "char list \<Rightarrow> 'd run \<Rightarrow> bool" where
  "pos_ok inp r \<longleftrightarrow> str r < length inp \<and> chr r = inp ! str r \<and> char_offset (tok r) = int (str r) \<and>
     err (tok r) = json_tokener_success"

section \<open>Positions\<close>

definition moved :: "char list \<Rightarrow> 'd run \<Rightarrow> nat \<Rightarrow> 'd run" where
  "moved inp r k = r\<lparr>str := str r + k, chr := inp ! (str r + k),
     tok := (tok r)\<lparr>char_offset := int (str r + k)\<rparr>\<rparr>"

lemma c_input_nul: "c_input inp \<Longrightarrow> i < length inp \<Longrightarrow> inp ! i = NUL \<longleftrightarrow> Suc i = length inp"
proof -
  assume c: "c_input inp" and i: "i < length inp"
  have inp: "inp = butlast inp @ [NUL]" using c by (simp add: c_input_def) (metis append_butlast_last_id)
  show "inp ! i = NUL \<longleftrightarrow> Suc i = length inp"
  proof (cases "i < length (butlast inp)")
    case True
    then have "inp ! i = butlast inp ! i" by (simp add: nth_butlast)
    moreover have "butlast inp ! i \<in> set (butlast inp)" using True by (rule nth_mem)
    ultimately have "inp ! i \<noteq> NUL" using c by (auto simp: c_input_def)
    then show ?thesis using True by simp
  next
    case False
    then have e: "i = length inp - 1" using i by auto
    have "inp \<noteq> []" using c by (simp add: c_input_def)
    then have "inp ! i = last inp" using last_conv_nth [of inp] e by simp
    then show ?thesis using e c i by (simp add: c_input_def)
  qed
qed

lemma moved_0: "pos_ok inp r \<Longrightarrow> moved inp r 0 = r"
  by (cases r) (auto simp: moved_def pos_ok_def)

lemma moved_moved [simp]: "moved inp (moved inp r j) k = moved inp r (j + k)"
  by (simp add: moved_def add.assoc)

lemma moved_simps [simp]:
  "heap (moved inp r k) = heap r" "obj (moved inp r k) = obj r" "str (moved inp r k) = str r + k"
  "chr (moved inp r k) = inp ! (str r + k)" "tpb (tok (moved inp r k)) = tpb (tok r)"
  "depth (tok (moved inp r k)) = depth (tok r)" "stack (tok (moved inp r k)) = stack (tok r)"
  "quote_char (tok (moved inp r k)) = quote_char (tok r)" "st_pos (tok (moved inp r k)) = st_pos (tok r)"
  "is_double (tok (moved inp r k)) = is_double (tok r)" "ucs_char (tok (moved inp r k)) = ucs_char (tok r)"
  "err (tok (moved inp r k)) = err (tok r)" "char_offset (tok (moved inp r k)) = int (str r + k)"
  by (simp_all add: moved_def)

lemma pos_ok_moved: "pos_ok inp r \<Longrightarrow> str r + k < length inp \<Longrightarrow> pos_ok inp (moved inp r k)"
  by (simp add: pos_ok_def)

lemma next_char_ok:
  assumes "c_input inp" "pos_ok inp r"
  shows "next_char inp (- 1) r =
    (if chr r = NUL then Some (ADVANCE_CHAR r, False) else Some (moved inp r 1, True))"
proof (cases "chr r = NUL")
  case True
  then show ?thesis by (simp add: next_char_def)
next
  case False
  then have s: "Suc (str r) < length inp"
    using assms c_input_nul [of inp "str r"] by (auto simp: pos_ok_def)
  then have "c_int (int (str r) + 1) = int (str r) + 1"
    using assms(1) by (intro c_int_eq) (auto simp: c_input_def)
  then show ?thesis
    using False s assms(2)
    by (simp add: next_char_def POP_CHAR_def ADVANCE_CHAR_def upd_tok_def moved_def pos_ok_def)
qed

text \<open>
  A tight loop moves to the first character that stops it; if that would be past the terminator it
  reports the end of the input.
\<close>

lemma scan_while_ok:
  assumes "c_input inp" "pos_ok inp r"
  shows "\<exists>k. str r + k < length inp \<and> (\<forall>j<k. p (inp ! (str r + j)) \<and> inp ! (str r + j) \<noteq> NUL) \<and>
    scan_while p inp (- 1) r =
      (if p (inp ! (str r + k)) then Some (ADVANCE_CHAR (moved inp r k), False) else Some (moved inp r k, True)) \<and>
    (p (inp ! (str r + k)) \<longrightarrow> inp ! (str r + k) = NUL)"
  using assms(2)
proof (induction "length inp - str r" arbitrary: r rule: less_induct)
  case less
  have c: "chr r = inp ! str r" "str r < length inp" using less.prems by (auto simp: pos_ok_def)
  consider "\<not> p (chr r)" | "p (chr r)" "chr r = NUL" | "p (chr r)" "chr r \<noteq> NUL" by blast
  then show ?case
  proof cases
    case 1
    then show ?thesis
      by (intro exI [of _ 0]) (use c less.prems in \<open>simp add: scan_while.simps [of p inp _ r] moved_0\<close>)
  next
    case 2
    then show ?thesis
      by (intro exI [of _ 0])
        (use c less.prems assms(1) in \<open>simp add: scan_while.simps [of p inp _ r] moved_0 next_char_ok\<close>)
  next
    case 3
    then have s: "str r + 1 < length inp"
      using c c_input_nul [OF assms(1), of "str r"] by auto
    then have m: "pos_ok inp (moved inp r 1)" using less.prems by (rule pos_ok_moved [rotated])
    obtain k where k: "str r + 1 + k < length inp"
      "\<forall>j<k. p (inp ! (str r + 1 + j)) \<and> inp ! (str r + 1 + j) \<noteq> NUL"
      "scan_while p inp (- 1) (moved inp r 1) = (if p (inp ! (str r + 1 + k))
         then Some (ADVANCE_CHAR (moved inp r (1 + k)), False) else Some (moved inp r (1 + k), True))"
      "p (inp ! (str r + 1 + k)) \<longrightarrow> inp ! (str r + 1 + k) = NUL"
    proof -
      have "length inp - str (moved inp r 1) < length inp - str r" using s by simp
      from less.hyps [OF this m] show ?thesis using that unfolding moved_simps moved_moved by blast
    qed
    have "scan_while p inp (- 1) r = scan_while p inp (- 1) (moved inp r 1)"
      using 3 less.prems assms(1) by (simp add: scan_while.simps [of p inp _ r] next_char_ok)
    moreover have "\<forall>j<Suc k. p (inp ! (str r + j)) \<and> inp ! (str r + j) \<noteq> NUL"
      using k(2) 3 c by (auto simp: less_Suc_eq_0_disj)
    ultimately show ?thesis using k by (intro exI [of _ "Suc k"]) simp
  qed
qed

section \<open>Elementary actions\<close>

text \<open>An update that leaves the stack, the depth, the buffer and the heap alone.\<close>

lemma sim_same:
  "sim h0 r a A \<Longrightarrow> heap r' = heap r \<Longrightarrow> obj r' = obj r \<Longrightarrow> str r \<le> str r' \<Longrightarrow> stack (tok r') = stack (tok r) \<Longrightarrow>
     depth (tok r') = depth (tok r) \<Longrightarrow> tpb (tok r') = tpb (tok r) \<Longrightarrow> sim h0 r' a A"
  unfolding sim_def stack_sim_def text_sim_def own_ptrs_def currents_def by auto

lemma sim_moved: "sim h0 r a A \<Longrightarrow> sim h0 (moved inp r k) a A"
  by (erule sim_same) simp_all

lemma sim_advance: "sim h0 r a A \<Longrightarrow> sim h0 (ADVANCE_CHAR r) a A"
  by (erule sim_same) (simp_all add: ADVANCE_CHAR_def upd_tok_def)

lemma sim_set_err: "sim h0 r a A \<Longrightarrow> sim h0 (set_err r e) a A"
  by (erule sim_same) (simp_all add: set_err_def upd_tok_def)

lemma sim_level:
  assumes "sim h0 r a A"
  obtains l where "level r = Some l" "state l = top a" "saved_state l = saved a" "obj_field_name l = field a"
    "l = stack (tok r) ! depth (tok r)"
  using assms that by (auto simp: sim_def stack_sim_def level_def srec_at_def)

lemma upd_level_simps [simp]:
  "heap (upd_level r f) = heap r" "obj (upd_level r f) = obj r" "str (upd_level r f) = str r"
  "chr (upd_level r f) = chr r" "depth (tok (upd_level r f)) = depth (tok r)"
  "tpb (tok (upd_level r f)) = tpb (tok r)" "char_offset (tok (upd_level r f)) = char_offset (tok r)"
  "err (tok (upd_level r f)) = err (tok r)" "quote_char (tok (upd_level r f)) = quote_char (tok r)"
  "st_pos (tok (upd_level r f)) = st_pos (tok r)" "is_double (tok (upd_level r f)) = is_double (tok r)"
  "ucs_char (tok (upd_level r f)) = ucs_char (tok r)"
  "stack (tok (upd_level r f)) = (stack (tok r))[depth (tok r) := f (stack (tok r) ! depth (tok r))]"
  by (simp_all add: upd_level_def upd_tok_def)

lemma take_update_nth: "take d (xs[d := y]) = take d xs"
  by simp

text \<open>An update of the top level that keeps its pointer.\<close>

lemma sim_upd_level:
  assumes "sim h0 r a A" "\<And>l. current (f l) = current l"
    and "\<And>l. state l = top a \<Longrightarrow> saved_state l = saved a \<Longrightarrow> obj_field_name l = field a \<Longrightarrow>
      state (f l) = s \<and> saved_state (f l) = sv \<and> obj_field_name (f l) = fd"
  shows "sim h0 (upd_level r f) (a\<lparr>top := s, saved := sv, field := fd\<rparr>) A"
  using assms unfolding sim_def stack_sim_def text_sim_def own_ptrs_def currents_def by auto

lemma sim_set_states: "sim h0 r a A \<Longrightarrow> sim h0 (set_states r s sv) (a\<lparr>top := s, saved := sv\<rparr>) A"
  using sim_upd_level [of h0 r a A "\<lambda>l. l\<lparr>state := s, saved_state := sv\<rparr>" s sv "field a"]
  by (simp add: set_states_def)

lemma sim_set_state: "sim h0 r a A \<Longrightarrow> sim h0 (set_state r s) (a\<lparr>top := s\<rparr>) A"
  using sim_upd_level [of h0 r a A "\<lambda>l. l\<lparr>state := s\<rparr>" s "saved a" "field a"]
  by (simp add: set_state_def)

lemma sim_set_field:
  "sim h0 r a A \<Longrightarrow> sim h0 (upd_level r (\<lambda>l. l\<lparr>obj_field_name := fd\<rparr>)) (a\<lparr>field := fd\<rparr>) A"
  using sim_upd_level [of h0 r a A "\<lambda>l. l\<lparr>obj_field_name := fd\<rparr>" "top a" "saved a" fd] by simp

text \<open>Appends and resets of the token text.\<close>

lemma set_tpb_simps [simp]:
  "heap (upd_tok r (\<lambda>t. t\<lparr>tpb := q\<rparr>)) = heap r" "obj (upd_tok r (\<lambda>t. t\<lparr>tpb := q\<rparr>)) = obj r"
  "str (upd_tok r (\<lambda>t. t\<lparr>tpb := q\<rparr>)) = str r" "chr (upd_tok r (\<lambda>t. t\<lparr>tpb := q\<rparr>)) = chr r"
  "tok (upd_tok r (\<lambda>t. t\<lparr>tpb := q\<rparr>)) = (tok r)\<lparr>tpb := q\<rparr>"
  by (simp_all add: upd_tok_def)

lemma sim_set_tpb:
  "sim h0 r a A \<Longrightarrow> text_sim q (str r) x \<Longrightarrow>
     sim h0 (upd_tok r (\<lambda>t. t\<lparr>tpb := q\<rparr>)) (a\<lparr>token := x\<rparr>) A"
  unfolding sim_def stack_sim_def own_ptrs_def currents_def by auto

lemma reset_pb_ok:
  assumes "sim h0 r a A"
  shows "\<exists>q. reset_pb r = Some (upd_tok r (\<lambda>t. t\<lparr>tpb := q\<rparr>)) \<and>
    sim h0 (upd_tok r (\<lambda>t. t\<lparr>tpb := q\<rparr>)) (a\<lparr>token := Some []\<rparr>) A"
proof -
  have "pb_wf (tpb (tok r))" using assms by (simp add: sim_def text_sim_def)
  then obtain q where q: "printbuf_reset (tpb (tok r)) = Some q" "pb_text q = []" "pb_terminated q" "pb_wf q"
    using printbuf_reset_ok pb_room_wf by blast
  then have "bpos q = 0" by (auto simp: printbuf_reset_def)
  then have "text_sim q (str r) (Some [])" using q by (simp add: text_sim_def)
  then show ?thesis using q(1) sim_set_tpb [OF assms] by (auto simp: reset_pb_def)
qed

lemma append_text_granted:
  assumes "sim h0 r a A" "pb_append (tpb (tok r)) y = Some q"
  shows "append_text r y = Some (upd_tok r (\<lambda>t. t\<lparr>tpb := q\<rparr>))"
proof -
  have "\<not> refuse (heap r)" using assms(1) by (auto simp: sim_def heap_sim_def heap_ok_def)
  then show ?thesis using assms(2) by (simp add: append_text_def pb_fast_def [symmetric])
qed

lemma append_text_ok:
  assumes "sim h0 r a A" "token a = Some x" "length (x @ y) \<le> str r + 1" "str r < 2 ^ 27"
  shows "\<exists>q. append_text r y = Some (upd_tok r (\<lambda>t. t\<lparr>tpb := q\<rparr>)) \<and>
    sim h0 (upd_tok r (\<lambda>t. t\<lparr>tpb := q\<rparr>)) (a\<lparr>token := Some (x @ y)\<rparr>) A"
proof -
  let ?pb = "tpb (tok r)"
  have pb: "pb_wf ?pb" "pb_text ?pb = x" using assms(1,2) by (auto simp: sim_def text_sim_def)
  then have b: "bpos ?pb = int (length x)" using length_pb_text [OF pb(1)] by (auto simp: pb_wf_def)
  then have "pb_room ?pb (length y + 0)" using pb assms(3,4) by (simp add: pb_room_def)
  then obtain q where q: "pb_append ?pb y = Some q" "pb_text q = x @ y" "pb_wf q" "pb_terminated q"
    using pb_append_room pb(2) pb_room_wf by metis
  then have "bpos q = int (length (x @ y))" using length_pb_text [OF q(3)] by (auto simp: pb_wf_def)
  then have "text_sim q (str r) (Some (x @ y))" using q assms(3) by (simp add: text_sim_def)
  then show ?thesis using q(1) sim_set_tpb [OF assms(1)] append_text_granted [OF assms(1) q(1)] by auto
qed

lemma memappend_fast_take:
  "n \<le> length data \<Longrightarrow> printbuf_memappend_fast ok pb data (int n) =
     printbuf_memappend_fast ok pb (take n data) (int (length (take n data)))"
proof -
  assume n: "n \<le> length data"
  then have m: "memcpy_to b off data (int n) = memcpy_to b off (take n data) (int n)" for b off
    by (simp add: memcpy_to_def)
  have l: "length (take n data) = n" using n by simp
  show ?thesis unfolding l printbuf_memappend_fast_def printbuf_memappend_def m by (rule refl)
qed

lemma append_input_eq:
  "start + n \<le> length inp \<Longrightarrow> append_input inp r start n = append_text r (take n (drop start inp))"
proof -
  assume "start + n \<le> length inp"
  then have n: "n \<le> length (drop start inp)" by simp
  show ?thesis unfolding append_input_def append_text_def memappend_fast_take [OF n] by (rule refl)
qed

lemma read_token:
  assumes "sim h0 r a A" "token a = Some x"
  shows "read_cstr (buf (tpb (tok r))) = Some (takeWhile (\<lambda>c. c \<noteq> NUL) x)"
  using assms read_cstr_terminated [of "tpb (tok r)"] by (auto simp: sim_def text_sim_def)

text \<open>White space on which \<^verbatim>\<open>isspace\<close> is defined.\<close>

lemma skip_white_scan:
  assumes "c_input inp" "pos_ok inp r" "\<forall>c \<in> set inp. isspace lc c \<noteq> None"
  shows "skip_white lc inp (- 1) r = scan_while (\<lambda>c. isspace lc c = Some True) inp (- 1) r"
  using assms(2)
proof (induction "length inp - str r" arbitrary: r rule: less_induct)
  case less
  have c: "chr r = inp ! str r" "str r < length inp" using less.prems by (auto simp: pos_ok_def)
  then obtain w where w: "isspace lc (chr r) = Some w" using assms(3) by fastforce
  show ?case
  proof (cases "w \<and> chr r \<noteq> NUL")
    case True
    then have s: "str r + 1 < length inp" using c c_input_nul [OF assms(1), of "str r"] by auto
    have "skip_white lc inp (- 1) (moved inp r 1) = scan_while (\<lambda>c. isspace lc c = Some True) inp (- 1) (moved inp r 1)"
      by (rule less.hyps) (use s less.prems in \<open>auto intro: pos_ok_moved\<close>)
    then show ?thesis using True w less.prems assms(1)
      by (simp add: scan_while.simps [of _ inp _ r] skip_white.simps [of lc inp _ r] next_char_ok)
  next
    case False
    then show ?thesis using w less.prems assms(1)
      by (auto simp: scan_while.simps [of _ inp _ r] skip_white.simps [of lc inp _ r] next_char_ok)
  qed
qed

section \<open>Actions on the heap\<close>

lemma tree_JNull: "tree h p JNull A \<longleftrightarrow> p = None \<and> A = {}"
  by (auto elim: tree.cases)

lemma trees_snoc:
  "length ps = length vs \<Longrightarrow> trees h (ps @ [p]) (vs @ [v]) S \<longleftrightarrow>
     (\<exists>A B. S = A \<union> B \<and> A \<inter> B = {} \<and> trees h ps vs A \<and> tree h p v B)"
  (is "?l = ?r \<Longrightarrow> ?a \<longleftrightarrow> ?b")
proof
  assume len: "?l = ?r" and ?a
  from trees_appendD [OF \<open>?a\<close>] obtain us ws A B where
    u: "vs @ [v] = us @ ws" "S = A \<union> B" "trees h ps us A" "trees h [p] ws B" "A \<inter> B = {}" by blast
  moreover have "length us = length vs" using trees_length [OF u(3)] len by simp
  ultimately show ?b by auto
next
  assume ?b
  then show ?a using trees_appendI [of h ps vs _ "[p]" "[v]"] by auto
qed

lemma heap_simE:
  assumes "heap_sim h0 h (ps @ [p]) (vs @ [v]) S" "length ps = length vs"
  obtains A B where "S = A \<union> B" "A \<inter> B = {}" "trees h ps vs A" "tree h p v B" "heap_ok h"
    "\<And>x. obj_at h0 x = (if x \<in> S then None else obj_at h x)"
  using assms by (auto simp: heap_sim_def trees_snoc)

lemma heap_sim_null: "length ps = length vs \<Longrightarrow>
    heap_sim h0 h (ps @ [p]) (vs @ [JNull]) A \<longleftrightarrow> p = None \<and> heap_sim h0 h ps vs A"
  by (auto simp: heap_sim_def trees_snoc tree_JNull)

lemma heap_sim_new:
  assumes "heap_sim h0 h ps vs A" "grown h h' x" "tree h' (Some x) v {x}"
  shows "heap_sim h0 h' (ps @ [Some x]) (vs @ [v]) (insert x A)"
proof -
  have t: "trees h ps vs A" and h0: "\<And>y. obj_at h0 y = (if y \<in> A then None else obj_at h y)"
    using assms(1) by (auto simp: heap_sim_def)
  have x: "x \<notin> A" using tree_mapped(2) [OF t, of x] assms(2) by (auto simp: grown_def)
  have "trees h' ps vs A"
    by (rule tree_frame(2) [OF t]) (use assms(2) x in \<open>auto simp: grown_def\<close>)
  then have "trees h' (ps @ [Some x]) (vs @ [v]) (insert x A)"
    using trees_appendI [of h' ps vs A "[Some x]" "[v]" "{x}"] assms(3) x by simp
  then show ?thesis
    using h0 x assms(2) by (auto simp: heap_sim_def grown_def)
qed

lemma get_put_inverse:
  "tree h p v A \<Longrightarrow> \<exists>h1. json_object_get h p = Some (h1, p) \<and> json_object_put h1 p = Some h"
proof (cases p)
  case (Some a)
  assume t: "tree h p v A"
  then obtain j where "obj_at h a = Some j" "ref_count j = 1" using tree_root [of h a v A] Some by auto
  then show ?thesis
    by (auto simp: Some json_object_get_def json_object_put.simps [of _ "Some a"] Let_def c_int_eq
        set_obj_def obj_at_def fun_upd_idem)
qed (simp add: json_object_get_def)

lemma heap_sim_array_add:
  assumes "heap_sim h0 h ((ps @ [q]) @ [p]) ((vs @ [JArray xs]) @ [w]) S" "length ps = length vs" "length xs < 2 ^ 27"
  shows "\<exists>h'. json_object_array_add h q p = Some (h', 0) \<and>
    heap_sim h0 h' (ps @ [q]) (vs @ [JArray (xs @ [w])]) S"
proof -
  obtain D C where DC: "S = D \<union> C" "D \<inter> C = {}" "trees h (ps @ [q]) (vs @ [JArray xs]) D" "tree h p w C" "heap_ok h"
    "\<And>x. obj_at h0 x = (if x \<in> S then None else obj_at h x)"
    using heap_simE [OF assms(1)] assms(2) by auto
  obtain A B where AB: "D = A \<union> B" "A \<inter> B = {}" "trees h ps vs A" "tree h q (JArray xs) B"
    using DC(3) assms(2) by (auto simp: trees_snoc)
  obtain a where q: "q = Some a" using AB(4) by (auto elim: tree_arrayE)
  have "B \<inter> C = {}" using DC(2) AB(1) by auto
  from array_add_tree [OF AB(4) [unfolded q] DC(4) this assms(3)] obtain j where
    j: "json_object_array_add h (Some a) p = Some (set_obj h a j, 0)"
    "tree (set_obj h a j) (Some a) (JArray (xs @ [w])) (B \<union> C)" by blast
  have a: "a \<in> B" "obj_at h a \<noteq> None" using tree_root [OF AB(4) [unfolded q]] by auto
  have "trees (set_obj h a j) ps vs A"
    by (rule tree_frame(2) [OF AB(3)]) (use a(1) AB(2) in auto)
  moreover have "S = A \<union> (B \<union> C)" "A \<inter> (B \<union> C) = {}" using DC(1,2) AB(1,2) by auto
  ultimately have "trees (set_obj h a j) (ps @ [q]) (vs @ [JArray (xs @ [w])]) S"
    using j(2) assms(2) q by (auto simp: trees_snoc)
  then have "heap_sim h0 (set_obj h a j) (ps @ [q]) (vs @ [JArray (xs @ [w])]) S"
    using DC(5,6) a AB(1) DC(1) by (auto simp: heap_sim_def heap_ok_set_obj)
  then show ?thesis using j(1) q by auto
qed

lemma heap_sim_object_add:
  assumes "heap_sim h0 h ((ps @ [q]) @ [p]) ((vs @ [JObject kvs]) @ [w]) S" "length ps = length vs" "NUL \<notin> set k"
  shows "\<exists>h' S'. json_object_object_add h q k p = Some h' \<and>
    heap_sim h0 h' (ps @ [q]) (vs @ [JObject (without k kvs @ [(k, w)])]) S'"
proof -
  obtain D C where DC: "S = D \<union> C" "D \<inter> C = {}" "trees h (ps @ [q]) (vs @ [JObject kvs]) D" "tree h p w C" "heap_ok h"
    "\<And>x. obj_at h0 x = (if x \<in> S then None else obj_at h x)"
    using heap_simE [OF assms(1)] assms(2) by auto
  obtain A B where AB: "D = A \<union> B" "A \<inter> B = {}" "trees h ps vs A" "tree h q (JObject kvs) B"
    using DC(3) assms(2) by (auto simp: trees_snoc)
  obtain a where q: "q = Some a" using AB(4) by (auto elim: tree_objectE)
  have "B \<inter> C = {}" using DC(2) AB(1) by auto
  from object_add_tree [OF AB(4) [unfolded q] DC(4) this assms(3)] obtain j E where
    j: "json_object_object_add h (Some a) k p = Some (set_obj (release h E) a j)" "E \<subseteq> B - {a}"
    "tree (set_obj (release h E) a j) (Some a) (JObject (without k kvs @ [(k, w)])) (B - E \<union> C)" by blast
  let ?h = "set_obj (release h E) a j" and ?S = "S - E"
  have a: "a \<in> B" "obj_at h a \<noteq> None" using tree_root [OF AB(4) [unfolded q]] by auto
  have "trees ?h ps vs A"
    by (rule tree_frame(2) [OF AB(3)]) (use a(1) AB(2) j(2) in auto)
  moreover have "?S = A \<union> (B - E \<union> C)" "A \<inter> (B - E \<union> C) = {}"
    using DC(1,2) AB(1,2) j(2) by auto
  ultimately have "trees ?h (ps @ [q]) (vs @ [JObject (without k kvs @ [(k, w)])]) ?S"
    using j(3) assms(2) q by (auto simp: trees_snoc)
  moreover have "heap_ok ?h"
    using DC(5) a(2) j(2) by (auto intro!: heap_ok_set_obj heap_ok_release)
  moreover have "\<forall>x. obj_at h0 x = (if x \<in> ?S then None else obj_at ?h x)"
    using DC(1,6) a AB(1) j(2) by auto
  ultimately show ?thesis using j(1) q by (auto simp: heap_sim_def)
qed

end
