(* ===== verification/JsonStep.thy ===== *)
theory JsonStep
  imports JsonSim
begin

text \<open>
  What each case of the tokener's switch does to the abstract view of the run: one lemma for every
  case, under the condition on the view in which the parser reaches it.
\<close>

section \<open>Positions and levels\<close>

definition same_pos :: "'d run \<Rightarrow> 'd run \<Rightarrow> bool" where
  "same_pos r r' \<longleftrightarrow> str r' = str r \<and> chr r' = chr r \<and> char_offset (tok r') = char_offset (tok r) \<and>
     err (tok r') = err (tok r)"

lemma same_pos_refl [simp]: "same_pos r r"
  by (simp add: same_pos_def)

lemma same_pos_trans: "same_pos r s \<Longrightarrow> same_pos s t \<Longrightarrow> same_pos r t"
  by (simp add: same_pos_def)

lemma same_pos_ok: "same_pos r r' \<Longrightarrow> pos_ok inp r' = pos_ok inp r"
  by (simp add: same_pos_def pos_ok_def)

lemma same_pos_upd_level [simp]: "same_pos r (upd_level r' f) = same_pos r r'"
  by (simp add: same_pos_def)

lemma same_pos_states [simp]:
  "same_pos r (set_states r' s sv) = same_pos r r'" "same_pos r (set_state r' s) = same_pos r r'"
  by (simp_all add: set_states_def set_state_def)

lemma same_pos_tpb [simp]: "same_pos r (upd_tok r' (\<lambda>t. t\<lparr>tpb := q\<rparr>)) = same_pos r r'"
  by (simp add: same_pos_def)

lemma same_pos_heap [simp]: "same_pos r (r'\<lparr>heap := h\<rparr>) = same_pos r r'"
  by (simp add: same_pos_def)

lemma same_pos_finish_with [simp]: "same_pos r (finish_with r' hp) = same_pos r r'"
  by (simp add: finish_with_def)

abbreviation below :: "'d run \<Rightarrow> ptr list" where
  "below r \<equiv> map current (take (depth (tok r)) (stack (tok r)))"

lemma sim_heap: "sim h0 r a A \<Longrightarrow>
    heap_sim h0 (heap r) (currents (tok r) @ own_ptrs r a) (map fval (frames a) @ [val a] @ own a) A"
  by (simp add: sim_def)

lemma sim_below_length: "sim h0 r a A \<Longrightarrow> length (below r) = length (map fval (frames a))"
  by (auto simp: sim_def stack_sim_def)

lemma sim_below:
  "sim h0 r a A \<Longrightarrow> own a = [] \<Longrightarrow> val a = JNull \<Longrightarrow>
     current (stack (tok r) ! depth (tok r)) = None \<and> heap_sim h0 (heap r) (below r) (map fval (frames a)) A"
  using sim_heap [of h0 r a A] heap_sim_null [OF sim_below_length [of h0 r a A]]
  by (simp add: currents_def own_ptrs_def)

text \<open>The top level gets a new pointer.\<close>

lemma sim_new_top:
  assumes "sim h0 r a A" "heap_sim h0 h' (below r @ [p]) (map fval (frames a) @ [v]) A'"
    and "\<And>l. current (f l) = p"
    and "\<And>l. state l = top a \<Longrightarrow> saved_state l = saved a \<Longrightarrow> obj_field_name l = field a \<Longrightarrow>
      state (f l) = top b \<and> saved_state (f l) = saved b \<and> obj_field_name (f l) = field b"
    and "frames b = frames a" "val b = v" "own b = []" "token b = token a"
  shows "sim h0 (upd_level (r\<lparr>heap := h'\<rparr>) f) b A'"
  using assms unfolding sim_def stack_sim_def text_sim_def own_ptrs_def currents_def by auto

lemma sim_finish_with:
  assumes "sim h0 r a A" "heap_sim h0 h' (below r @ [p]) (map fval (frames a) @ [v]) A'" "own a = []"
  shows "sim h0 (finish_with r (h', p))
    (a\<lparr>top := json_tokener_state_eatws, saved := json_tokener_state_finish, val := v\<rparr>) A'"
  unfolding finish_with_def fst_conv snd_conv
  by (rule sim_new_top [OF assms(1,2)]) (simp_all add: assms(3))

section \<open>Scalars\<close>

text \<open>A constructor gives the level its value.\<close>

lemma finish_with_new:
  assumes "sim h0 r a A" "own a = []" "val a = JNull"
    and "\<exists>h' x. mk = (h', Some x) \<and> grown (heap r) h' x \<and> tree h' (Some x) v {x}"
  shows "\<exists>A'. sim h0 (finish_with r mk)
    (a\<lparr>top := json_tokener_state_eatws, saved := json_tokener_state_finish, val := v\<rparr>) A'"
proof -
  obtain h' x where x: "mk = (h', Some x)" "grown (heap r) h' x" "tree h' (Some x) v {x}"
    using assms(4) by blast
  have "heap_sim h0 h' (below r @ [Some x]) (map fval (frames a) @ [v]) (insert x A)"
    by (rule heap_sim_new [OF _ x(2,3)]) (use sim_below [OF assms(1-3)] in blast)
  from sim_finish_with [OF assms(1) this assms(2)] show ?thesis using x(1) by auto
qed

lemma finish_with_null:
  assumes "sim h0 r a A" "own a = []" "val a = JNull"
  shows "sim h0 (finish_with r (heap r, None))
    (a\<lparr>top := json_tokener_state_eatws, saved := json_tokener_state_finish, val := JNull\<rparr>) A"
proof -
  have "heap_sim h0 (heap r) (below r @ [None]) (map fval (frames a) @ [JNull]) A"
    using sim_below [OF assms] heap_sim_null [OF sim_below_length [OF assms(1)]] by blast
  from sim_finish_with [OF assms(1) this assms(2)] show ?thesis .
qed

lemma sim_heap_ok: "sim h0 r a A \<Longrightarrow> heap_ok (heap r)"
  by (simp add: sim_def heap_sim_def)

section \<open>Containers\<close>

lemma start_container:
  assumes "sim h0 r a A" "own a = []" "val a = JNull"
    and "\<exists>h' x. mk = (h', Some x) \<and> grown (heap r) h' x \<and> tree h' (Some x) v {x}"
  shows "\<exists>A' h' x. mk = (h', Some x) \<and>
    sim h0 (upd_level (set_states r s sv\<lparr>heap := h'\<rparr>) (\<lambda>l. l\<lparr>current := Some x\<rparr>))
      (a\<lparr>top := s, saved := sv, val := v\<rparr>) A'"
proof -
  obtain h' x where x: "mk = (h', Some x)" "grown (heap r) h' x" "tree h' (Some x) v {x}"
    using assms(4) by blast
  let ?r = "set_states r s sv" and ?a = "a\<lparr>top := s, saved := sv\<rparr>"
  have r: "sim h0 ?r ?a A" by (rule sim_set_states [OF assms(1)])
  have "heap_sim h0 h' (below ?r @ [Some x]) (map fval (frames ?a) @ [v]) (insert x A)"
    by (rule heap_sim_new [OF _ x(2,3)])
      (use sim_below [OF r] assms(2,3) in \<open>simp add: set_states_def\<close>)
  from sim_new_top [OF r this, of "\<lambda>l. l\<lparr>current := Some x\<rparr>" "a\<lparr>top := s, saved := sv, val := v\<rparr>"]
  have "sim h0 (upd_level (?r\<lparr>heap := h'\<rparr>) (\<lambda>l. l\<lparr>current := Some x\<rparr>)) (a\<lparr>top := s, saved := sv, val := v\<rparr>) (insert x A)"
    using assms(2) by simp
  then show ?thesis using x(1) by blast
qed

lemma case_start_container:
  assumes "sim h0 r a A" "own a = []" "val a = JNull"
  shows "chr r = CHR ''{'' \<Longrightarrow> \<exists>r' A'. case_start r = Some (r', Break) \<and> same_pos r r' \<and>
      sim h0 r' (a\<lparr>top := json_tokener_state_eatws, saved := json_tokener_state_object_field_start,
        val := JObject []\<rparr>) A'"
    and "chr r = CHR ''['' \<Longrightarrow> \<exists>r' A'. case_start r = Some (r', Break) \<and> same_pos r r' \<and>
      sim h0 r' (a\<lparr>top := json_tokener_state_eatws, saved := json_tokener_state_array,
        val := JArray []\<rparr>) A'"
  using start_container [OF assms new_tree(2) [OF sim_heap_ok [OF assms(1)]]]
    start_container [OF assms new_tree(1) [OF sim_heap_ok [OF assms(1)]]]
  by (fastforce simp: case_start_def Let_def set_states_def)+

fun add_state :: "'d frame \<Rightarrow> json_tokener_state" where
  "add_state (FArr xs) = json_tokener_state_array_add"
| "add_state (FObj kvs k) = json_tokener_state_object_value_add"

fun frame_key_ok :: "char list option \<Rightarrow> 'd frame \<Rightarrow> bool" where
  "frame_key_ok fd (FArr xs) = True"
| "frame_key_ok fd (FObj kvs k) = (fd = Some k \<and> NUL \<notin> set k)"

lemma frame_ok_alt: "frame_ok l f \<longleftrightarrow> state l = add_state f \<and> frame_key_ok (obj_field_name l) f"
  by (cases f) auto

text \<open>A member begins: the container becomes a frame and an empty level opens above it.\<close>

lemma descend_ok:
  assumes "sim h0 r a A" "own a = []" "length (frames a) < 31"
    and "val a = fval f" "s = add_state f" "frame_key_ok (field a) f"
  shows "\<exists>r'. descend r s = Some (r', Redo) \<and> same_pos r r' \<and>
    sim h0 r' (a\<lparr>frames := frames a @ [f], top := json_tokener_state_eatws,
      saved := json_tokener_state_start, field := None, val := JNull\<rparr>) A"
proof -
  let ?t = "tok r" and ?d = "depth (tok r)"
  let ?r1 = "upd_tok (set_state r s) (\<lambda>t. t\<lparr>depth := Suc (depth t)\<rparr>)"
  let ?clear = "\<lparr>state = json_tokener_state_eatws, saved_state = json_tokener_state_start,
       current = None, obj_field_name = None\<rparr>"
  have st: "length (stack ?t) = 32" "?d = length (frames a)" "list_all2 frame_ok (take ?d (stack ?t)) (frames a)"
    "\<forall>i. ?d < i \<and> i < 32 \<longrightarrow> current (stack ?t ! i) = None"
    "obj_field_name (stack ?t ! ?d) = field a"
    using assms(1) by (auto simp: sim_def stack_sim_def JSON_TOKENER_MAX_DEPTH_def)
  have d: "?d < 31" using assms(3) st(2) by simp
  let ?l = "(stack ?t ! ?d)\<lparr>state := s\<rparr>"
  let ?st = "((stack ?t)[?d := ?l])[Suc ?d := ?clear]"
  let ?r' = "?r1\<lparr>heap := heap r, tok := (tok ?r1)\<lparr>stack := ?st\<rparr>\<rparr>"
  have r1: "stack (tok ?r1) = (stack ?t)[?d := ?l]" "depth (tok ?r1) = Suc ?d" "heap ?r1 = heap r"
    by (simp_all add: set_state_def upd_tok_def upd_level_def)
  have "json_tokener_reset_level (heap ?r1) (tok ?r1) (Suc ?d) = Some (heap r, (tok ?r1)\<lparr>stack := ?st\<rparr>)"
    using st(1,4) d r1 by (simp add: json_tokener_reset_level_def srec_at_def)
  then have run: "descend r s = Some (?r', Redo)"
    using d r1 by (simp add: descend_def JSON_TOKENER_MAX_DEPTH_def Let_def)
  have tk: "take (Suc ?d) ?st = take ?d (stack ?t) @ [?l]"
    using st(1) d by (simp add: take_Suc_conv_app_nth)
  have "stack_sim (tok ?r') (a\<lparr>frames := frames a @ [f], top := json_tokener_state_eatws,
      saved := json_tokener_state_start, field := None, val := JNull\<rparr>)"
    unfolding stack_sim_def using st d assms(5,6) tk r1(2)
    by (auto simp: JSON_TOKENER_MAX_DEPTH_def list_all2_appendI frame_ok_alt nth_list_update)
  moreover have "heap_sim h0 (heap r) (currents (tok r) @ [None])
      (map fval (frames a) @ [val a] @ [JNull]) A"
    using sim_heap [OF assms(1)] assms(2) sim_below_length [OF assms(1)]
      heap_sim_null [of "currents (tok r)" "map fval (frames a) @ [val a]" h0 "heap r" None A]
    by (simp add: own_ptrs_def currents_def)
  moreover have "currents (tok ?r') = currents (tok r) @ [None]"
    using tk r1(2) st(1) d by (simp add: currents_def)
  moreover have "text_sim (tpb (tok ?r')) (str ?r') (token a)"
    using assms(1) by (simp add: sim_def set_state_def upd_tok_def upd_level_def)
  ultimately have "sim h0 ?r' (a\<lparr>frames := frames a @ [f], top := json_tokener_state_eatws,
      saved := json_tokener_state_start, field := None, val := JNull\<rparr>) A"
    using assms(2,4) by (simp add: sim_def own_ptrs_def)
  moreover have "same_pos r ?r'" by (simp add: same_pos_def set_state_def upd_tok_def upd_level_def)
  ultimately show ?thesis using run by blast
qed

text \<open>A member is complete: the level above its container closes and the local takes the pointer.\<close>

lemma case_finish_ok:
  assumes "sim h0 r a A" "own a = []" "frames a = fs @ [f]"
  shows "\<exists>r' sv fd. case_finish r = Some (r', Redo) \<and> same_pos r r' \<and> frame_key_ok fd f \<and>
    sim h0 r' (a\<lparr>frames := fs, top := add_state f, saved := sv, field := fd, val := fval f, own := [val a]\<rparr>) A"
proof -
  let ?t = "tok r" and ?d = "length fs"
  let ?clear = "\<lparr>state = json_tokener_state_eatws, saved_state = json_tokener_state_start,
       current = None, obj_field_name = None\<rparr>"
  have st: "length (stack ?t) = 32" "depth ?t = Suc ?d" "?d < 31"
    "list_all2 frame_ok (take (Suc ?d) (stack ?t)) (fs @ [f])"
    "\<forall>i. Suc ?d < i \<and> i < 32 \<longrightarrow> current (stack ?t ! i) = None"
    using assms(1,3) by (auto simp: sim_def stack_sim_def JSON_TOKENER_MAX_DEPTH_def)
  let ?p = "current (stack ?t ! Suc ?d)"
  have h: "heap_sim h0 (heap r) (below r @ [?p]) (map fval (frames a) @ [val a]) A"
    using sim_heap [OF assms(1)] assms(2) st(2) by (simp add: currents_def own_ptrs_def)
  obtain B where "tree (heap r) ?p (val a) B"
    by (rule heap_simE [OF h sim_below_length [OF assms(1)]]) (rule that)
  then obtain h1 where h1: "json_object_get (heap r) ?p = Some (h1, ?p)" "json_object_put h1 ?p = Some (heap r)"
    using get_put_inverse by blast
  let ?st = "(stack ?t)[Suc ?d := ?clear]"
  let ?r' = "r\<lparr>heap := heap r, obj := ?p, tok := ?t\<lparr>stack := ?st, depth := ?d\<rparr>\<rparr>"
  have run: "case_finish r = Some (?r', Redo)"
  proof -
    have "level r = Some (stack ?t ! Suc ?d)"
      using st(1,2,3) by (simp add: level_def srec_at_def)
    moreover have "json_tokener_reset_level h1 ?t (depth ?t) = Some (heap r, ?t\<lparr>stack := ?st\<rparr>)"
      using st(1,2,3) h1(2) by (simp add: json_tokener_reset_level_def srec_at_def)
    ultimately show ?thesis unfolding case_finish_def st(2) by (simp add: h1(1) st(2))
  qed
  have tk: "take (Suc ?d) (stack ?t) = take ?d (stack ?t) @ [stack ?t ! ?d]"
    using st(1,3) by (simp add: take_Suc_conv_app_nth)
  have f: "list_all2 frame_ok (take ?d (stack ?t)) fs" "frame_ok (stack ?t ! ?d) f"
    using st(1,3,4) unfolding tk by (auto simp: list_all2_append list_all2_lengthD)
  let ?sv = "saved_state (stack ?t ! ?d)" and ?fd = "obj_field_name (stack ?t ! ?d)"
  let ?a = "a\<lparr>frames := fs, top := add_state f, saved := ?sv, field := ?fd, val := fval f, own := [val a]\<rparr>"
  have "stack_sim (tok ?r') ?a"
    using st f by (auto simp: stack_sim_def JSON_TOKENER_MAX_DEPTH_def frame_ok_alt nth_list_update)
  moreover have "currents (tok ?r') @ own_ptrs ?r' ?a = below r @ [?p]"
    using st(1-3) tk by (simp add: currents_def own_ptrs_def)
  moreover have "text_sim (tpb (tok ?r')) (str ?r') (token ?a)"
    using assms(1) by (simp add: sim_def)
  ultimately have "sim h0 ?r' ?a A" using h assms(3) by (simp add: sim_def)
  moreover have "same_pos r ?r'" by (simp add: same_pos_def)
  moreover have "frame_key_ok ?fd f" using f(2) by (simp add: frame_ok_alt)
  ultimately show ?thesis using run by blast
qed

lemma sim_own_heap:
  assumes "sim h0 r a A" "own a = [w]"
  shows "heap_sim h0 (heap r) ((below r @ [current (stack (tok r) ! depth (tok r))]) @ [obj r])
    ((map fval (frames a) @ [val a]) @ [w]) A"
  using sim_heap [OF assms(1)] assms(2) by (simp add: currents_def own_ptrs_def)

lemma sim_current:
  assumes "sim h0 r a A"
  shows "\<exists>l. level r = Some l \<and> current l = current (stack (tok r) ! depth (tok r)) \<and> obj_field_name l = field a"
  using sim_level [OF assms] by metis

lemma case_array_add_ok:
  assumes "sim h0 r a A" "own a = [w]" "val a = JArray xs" "length xs < 2 ^ 27"
  shows "\<exists>r'. case_array_add r = Some (r', Redo) \<and> same_pos r r' \<and>
    sim h0 r' (a\<lparr>top := json_tokener_state_eatws, saved := json_tokener_state_array_sep,
      val := JArray (xs @ [w]), own := []\<rparr>) A"
proof -
  let ?p = "current (stack (tok r) ! depth (tok r))"
  obtain h' where h': "json_object_array_add (heap r) ?p (obj r) = Some (h', 0)"
    "heap_sim h0 h' (below r @ [?p]) (map fval (frames a) @ [JArray (xs @ [w])]) A"
    using heap_sim_array_add [OF sim_own_heap [OF assms(1,2), unfolded assms(3)]
        sim_below_length [OF assms(1)] assms(4)] by blast
  let ?f = "\<lambda>l. l\<lparr>state := json_tokener_state_eatws, saved_state := json_tokener_state_array_sep\<rparr>"
  have "case_array_add r = Some (upd_level (r\<lparr>heap := h'\<rparr>) ?f, Redo)"
    using sim_current [OF assms(1)] h'(1) by (auto simp: case_array_add_def set_states_def)
  moreover have "sim h0 (upd_level (r\<lparr>heap := h'\<rparr>) ?f) (a\<lparr>top := json_tokener_state_eatws,
      saved := json_tokener_state_array_sep, val := JArray (xs @ [w]), own := []\<rparr>) A"
    using assms(1) h'(2) unfolding sim_def stack_sim_def text_sim_def own_ptrs_def currents_def by auto
  ultimately show ?thesis by auto
qed

lemma case_object_value_add_ok:
  assumes "sim h0 r a A" "own a = [w]" "val a = JObject kvs" "field a = Some k" "NUL \<notin> set k"
  shows "\<exists>r' A'. case_object_value_add r = Some (r', Redo) \<and> same_pos r r' \<and>
    sim h0 r' (a\<lparr>top := json_tokener_state_eatws, saved := json_tokener_state_object_sep, field := None,
      val := JObject (without k kvs @ [(k, w)]), own := []\<rparr>) A'"
proof -
  let ?p = "current (stack (tok r) ! depth (tok r))"
  obtain h' A' where h': "json_object_object_add (heap r) ?p k (obj r) = Some h'"
    "heap_sim h0 h' (below r @ [?p]) (map fval (frames a) @ [JObject (without k kvs @ [(k, w)])]) A'"
    using heap_sim_object_add [OF sim_own_heap [OF assms(1,2), unfolded assms(3)]
        sim_below_length [OF assms(1)] assms(5)] by blast
  let ?f = "\<lambda>l. l\<lparr>obj_field_name := None, saved_state := json_tokener_state_object_sep,
      state := json_tokener_state_eatws\<rparr>"
  have "case_object_value_add r = Some (upd_level (r\<lparr>heap := h'\<rparr>) ?f, Redo)"
    using sim_current [OF assms(1)] h'(1) assms(4) by (auto simp: case_object_value_add_def)
  moreover have "sim h0 (upd_level (r\<lparr>heap := h'\<rparr>) ?f) (a\<lparr>top := json_tokener_state_eatws,
      saved := json_tokener_state_object_sep, field := None,
      val := JObject (without k kvs @ [(k, w)]), own := []\<rparr>) A'"
    using assms(1) h'(2) unfolding sim_def stack_sim_def text_sim_def own_ptrs_def currents_def by auto
  ultimately show ?thesis by auto
qed

end
