(* ===== verification/JsonSafe.thy ===== *)
theory JsonSafe
  imports JsonStep
begin

text \<open>
  Memory safety, termination and ownership of the parser on every input: an invariant of the view
  that every case of the switch keeps, a measure that every \<^verbatim>\<open>goto redo_char\<close> decreases, and the
  fate of the heap at the end of a parse.
\<close>

section \<open>The invariant\<close>

definition blank_states :: "json_tokener_state set" where
  "blank_states = {json_tokener_state_eatws, json_tokener_state_comment_start, json_tokener_state_comment,
     json_tokener_state_comment_eol, json_tokener_state_comment_end}"

definition escape_states :: "json_tokener_state set" where
  "escape_states = {json_tokener_state_string_escape, json_tokener_state_escape_unicode}"

definition add_states :: "json_tokener_state set" where
  "add_states = {json_tokener_state_array_add, json_tokener_state_object_value_add}"

text \<open>The states between tokens, in which white space and comments are skipped.\<close>

definition gap_states :: "json_tokener_state set" where
  "gap_states = {json_tokener_state_start, json_tokener_state_finish, json_tokener_state_array,
     json_tokener_state_array_sep, json_tokener_state_object_field_start, json_tokener_state_object_field_end,
     json_tokener_state_object_value, json_tokener_state_object_sep}"

text \<open>The states that collect text, with the slack they need below the number of characters read.\<close>

fun text_slack :: "json_tokener_state \<Rightarrow> int \<Rightarrow> nat option" where
  "text_slack json_tokener_state_null n = Some 0"
| "text_slack json_tokener_state_boolean n = Some 0"
| "text_slack json_tokener_state_number n = Some 0"
| "text_slack json_tokener_state_string n = Some 0"
| "text_slack json_tokener_state_object_field n = Some 0"
| "text_slack json_tokener_state_comment_start n = Some 0"
| "text_slack json_tokener_state_comment n = Some 0"
| "text_slack json_tokener_state_comment_eol n = Some 0"
| "text_slack json_tokener_state_comment_end n = Some 0"
| "text_slack json_tokener_state_string_escape n = Some 1"
| "text_slack json_tokener_state_escape_unicode n = Some (2 + nat n)"
| "text_slack _ n = None"

text \<open>The value a level holds in each state, after \<open>n\<close> characters.\<close>

fun content_ok :: "nat \<Rightarrow> json_tokener_state \<Rightarrow> 'd jval \<Rightarrow> char list option \<Rightarrow> bool" where
  "content_ok n json_tokener_state_start v fd = (v = JNull)"
| "content_ok n json_tokener_state_null v fd = (v = JNull)"
| "content_ok n json_tokener_state_boolean v fd = (v = JNull)"
| "content_ok n json_tokener_state_number v fd = (v = JNull)"
| "content_ok n json_tokener_state_string v fd = (v = JNull)"
| "content_ok n json_tokener_state_array v fd = (\<exists>xs. v = JArray xs \<and> length xs < n)"
| "content_ok n json_tokener_state_array_add v fd = (\<exists>xs. v = JArray xs \<and> length xs < n)"
| "content_ok n json_tokener_state_array_sep v fd = (\<exists>xs. v = JArray xs \<and> length xs \<le> n)"
| "content_ok n json_tokener_state_object_field_start v fd = (\<exists>kvs. v = JObject kvs)"
| "content_ok n json_tokener_state_object_field v fd = (\<exists>kvs. v = JObject kvs)"
| "content_ok n json_tokener_state_object_sep v fd = (\<exists>kvs. v = JObject kvs)"
| "content_ok n json_tokener_state_object_field_end v fd =
     ((\<exists>kvs. v = JObject kvs) \<and> (\<exists>k. fd = Some k \<and> NUL \<notin> set k))"
| "content_ok n json_tokener_state_object_value v fd =
     ((\<exists>kvs. v = JObject kvs) \<and> (\<exists>k. fd = Some k \<and> NUL \<notin> set k))"
| "content_ok n json_tokener_state_object_value_add v fd =
     ((\<exists>kvs. v = JObject kvs) \<and> (\<exists>k. fd = Some k \<and> NUL \<notin> set k))"
| "content_ok n json_tokener_state_finish v fd = True"
| "content_ok n _ v fd = False"

fun frame_small :: "nat \<Rightarrow> 'd frame \<Rightarrow> bool" where
  "frame_small n (FArr xs) = (length xs < n)"
| "frame_small n (FObj kvs k) = True"

definition good :: "nat \<Rightarrow> int \<Rightarrow> 'd view \<Rightarrow> bool" where
  "good n p a \<longleftrightarrow>
     content_ok n (if top a \<in> blank_states \<union> escape_states then saved a else top a) (val a) (field a) \<and>
     list_all (frame_small n) (frames a) \<and>
     (if top a \<in> add_states then \<exists>w. own a = [w] else own a = []) \<and>
     (top a \<in> blank_states \<longrightarrow> saved a \<in> gap_states) \<and>
     (top a \<in> escape_states \<longrightarrow> saved a \<in> {json_tokener_state_string, json_tokener_state_object_field}) \<and>
     (\<forall>m. text_slack (top a) p = Some m \<longrightarrow> (\<exists>x. token a = Some x \<and> length x + m \<le> n)) \<and>
     (top a \<in> {json_tokener_state_null, json_tokener_state_boolean} \<longrightarrow>
        (\<exists>x. token a = Some x \<and> p = int (length x))) \<and>
     (top a = json_tokener_state_escape_unicode \<longrightarrow> 0 \<le> p \<and> p \<le> 3)"

lemmas state_sets = blank_states_def escape_states_def add_states_def gap_states_def

fun rank :: "json_tokener_state \<Rightarrow> nat" where
  "rank json_tokener_state_array = 12"
| "rank json_tokener_state_object_value = 12"
| "rank json_tokener_state_start = 9"
| "rank json_tokener_state_null = 8"
| "rank json_tokener_state_boolean = 8"
| "rank json_tokener_state_number = 8"
| "rank json_tokener_state_finish = 6"
| "rank json_tokener_state_array_add = 5"
| "rank json_tokener_state_object_value_add = 5"
| "rank _ = 1"

definition view_rank :: "'d view \<Rightarrow> nat" where
  "view_rank a = (if top a = json_tokener_state_eatws then Suc (rank (saved a)) else rank (top a))"

text \<open>What a case of the switch achieves.\<close>

definition outcome :: "'d heap \<Rightarrow> char list \<Rightarrow> 'd run \<Rightarrow> 'd view \<Rightarrow> 'd run \<times> flow \<Rightarrow> bool" where
  "outcome h0 inp r a rf \<longleftrightarrow> (\<exists>a' A'. sim h0 (fst rf) a' A' \<and>
     (case snd rf of
        Out \<Rightarrow> own a' = []
      | Break \<Rightarrow> own a' = [] \<and> pos_ok inp (fst rf) \<and> str r \<le> str (fst rf) \<and>
          good (Suc (str (fst rf))) (st_pos (tok (fst rf))) a'
      | Redo \<Rightarrow> pos_ok inp (fst rf) \<and> good (str (fst rf)) (st_pos (tok (fst rf))) a' \<and>
          (str r < str (fst rf) \<or> str r = str (fst rf) \<and> view_rank a' < view_rank a)))"

lemma outcome_Out: "sim h0 r' a' A' \<Longrightarrow> own a' = [] \<Longrightarrow> outcome h0 inp r a (r', Out)"
  by (auto simp: outcome_def)

lemma outcome_Break:
  "sim h0 r' a' A' \<Longrightarrow> own a' = [] \<Longrightarrow> pos_ok inp r' \<Longrightarrow> str r \<le> str r' \<Longrightarrow> good (Suc (str r')) (st_pos (tok r')) a' \<Longrightarrow>
     outcome h0 inp r a (r', Break)"
  by (auto simp: outcome_def)

lemma outcome_Redo:
  "sim h0 r' a' A' \<Longrightarrow> pos_ok inp r' \<Longrightarrow> good (str r') (st_pos (tok r')) a' \<Longrightarrow>
     str r < str r' \<or> str r = str r' \<and> view_rank a' < view_rank a \<Longrightarrow> outcome h0 inp r a (r', Redo)"
  by (auto simp: outcome_def)

lemma outcome_err: "sim h0 r a A \<Longrightarrow> own a = [] \<Longrightarrow> outcome h0 inp r0 a0 (set_err r e, Out)"
  by (rule outcome_Out [OF sim_set_err])

text \<open>Reading on keeps the invariant.\<close>

lemma content_ok_mono: "content_ok n s v fd \<Longrightarrow> n \<le> m \<Longrightarrow> content_ok m s v fd"
  by (cases s) auto

lemma frames_small_mono: "list_all (frame_small n) fs \<Longrightarrow> n \<le> m \<Longrightarrow> list_all (frame_small m) fs"
  by (erule list.pred_mono_strong) (auto elim: frame_small.elims)

lemma frames_small_Suc [intro]: "list_all (frame_small n) fs \<Longrightarrow> list_all (frame_small (Suc n)) fs"
  by (erule frames_small_mono) simp

lemma good_mono: "good n p a \<Longrightarrow> n \<le> m \<Longrightarrow> good m p a"
  unfolding good_def by (fastforce intro: content_ok_mono frames_small_mono)

definition ready :: "'d heap \<Rightarrow> char list \<Rightarrow> 'd run \<Rightarrow> 'd view \<Rightarrow> nat set \<Rightarrow> bool" where
  "ready h0 inp r a A \<longleftrightarrow> c_input inp \<and> sim h0 r a A \<and> pos_ok inp r \<and> good (str r) (st_pos (tok r)) a"

lemma readyD:
  assumes "ready h0 inp r a A"
  shows "c_input inp" "sim h0 r a A" "pos_ok inp r" "good (str r) (st_pos (tok r)) a" "str r < 2 ^ 27"
  using assms by (auto simp: ready_def pos_ok_def c_input_def)

section \<open>Separators and containers\<close>

lemma outcome_set_states:
  assumes "ready h0 inp r a A" "own a = []" "good (Suc (str r)) (st_pos (tok r)) (a\<lparr>top := s, saved := sv\<rparr>)"
  shows "outcome h0 inp r a (set_states r s sv, Break)"
proof (rule outcome_Break [OF sim_set_states [OF readyD(2) [OF assms(1)]]])
  have p: "same_pos r (set_states r s sv)" by simp
  show "pos_ok inp (set_states r s sv)" using same_pos_ok [OF p] readyD(3) [OF assms(1)] by blast
qed (use assms(2,3) in \<open>simp_all add: set_states_def\<close>)

lemma case_array_sep_out:
  assumes "ready h0 inp r a A" "top a = json_tokener_state_array_sep"
  shows "\<exists>rf. case_array_sep r = Some rf \<and> outcome h0 inp r a rf"
  using assms readyD(4) [OF assms(1)] unfolding case_array_sep_def
  by (auto intro!: outcome_set_states outcome_err readyD(2) simp: good_def state_sets)

lemma case_object_sep_out:
  assumes "ready h0 inp r a A" "top a = json_tokener_state_object_sep"
  shows "\<exists>rf. case_object_sep r = Some rf \<and> outcome h0 inp r a rf"
  using assms readyD(4) [OF assms(1)] unfolding case_object_sep_def
  by (auto intro!: outcome_set_states outcome_err readyD(2) simp: good_def state_sets)

lemma case_object_field_end_out:
  assumes "ready h0 inp r a A" "top a = json_tokener_state_object_field_end"
  shows "\<exists>rf. case_object_field_end r = Some rf \<and> outcome h0 inp r a rf"
  using assms readyD(4) [OF assms(1)] unfolding case_object_field_end_def
  by (auto intro!: outcome_set_states outcome_err readyD(2) simp: good_def state_sets)

lemma descend_out:
  assumes "ready h0 inp r a A" "own a = []" "val a = fval f" "frame_key_ok (field a) f" "frame_small (str r) f"
    and "top a \<in> {json_tokener_state_array, json_tokener_state_object_value}"
  shows "\<exists>rf. descend r (add_state f) = Some rf \<and> outcome h0 inp r a rf"
proof (cases "length (frames a) < 31")
  case True
  let ?a = "a\<lparr>frames := frames a @ [f], top := json_tokener_state_eatws,
      saved := json_tokener_state_start, field := None, val := JNull\<rparr>"
  from descend_ok [OF readyD(2) [OF assms(1)] assms(2) True assms(3) refl assms(4)] obtain r' where
    r': "descend r (add_state f) = Some (r', Redo)" "same_pos r r'" "sim h0 r' ?a A" by blast
  have "outcome h0 inp r a (r', Redo)"
  proof (rule outcome_Redo [OF r'(3)])
    show "pos_ok inp r'" using same_pos_ok [OF r'(2)] readyD(3) [OF assms(1)] by blast
    show "good (str r') (st_pos (tok r')) ?a"
      using readyD(4) [OF assms(1)] assms(2,5) r'(2)
      by (auto simp: good_def state_sets same_pos_def)
    show "str r < str r' \<or> str r = str r' \<and> view_rank ?a < view_rank a"
      using r'(2) assms(6) by (auto simp: same_pos_def view_rank_def)
  qed
  then show ?thesis using r'(1) by blast
next
  case False
  then have "\<not> depth (tok r) < 31" using readyD(2) [OF assms(1)] by (auto simp: sim_def stack_sim_def)
  then show ?thesis
    using outcome_err [OF readyD(2) [OF assms(1)] assms(2)]
    by (simp add: descend_def JSON_TOKENER_MAX_DEPTH_def)
qed

lemma case_array_out:
  assumes "ready h0 inp r a A" "top a = json_tokener_state_array"
  shows "\<exists>rf. case_array r = Some rf \<and> outcome h0 inp r a rf"
proof -
  obtain xs where xs: "val a = JArray xs" "length xs < str r" "own a = []"
    using assms readyD(4) [OF assms(1)] by (auto simp: good_def state_sets)
  show ?thesis
  proof (cases "chr r = CHR '']''")
    case True
    then show ?thesis using assms xs readyD(4) [OF assms(1)] unfolding case_array_def
      by (auto intro!: outcome_set_states simp: good_def state_sets)
  next
    case False
    then show ?thesis
      using descend_out [OF assms(1) xs(3), of "FArr xs"] xs assms(2) by (simp add: case_array_def)
  qed
qed

lemma case_object_value_out:
  assumes "ready h0 inp r a A" "top a = json_tokener_state_object_value"
  shows "\<exists>rf. case_object_value r = Some rf \<and> outcome h0 inp r a rf"
proof -
  obtain kvs k where k: "val a = JObject kvs" "own a = []" "field a = Some k" "NUL \<notin> set k"
    using assms readyD(4) [OF assms(1)] by (auto simp: good_def state_sets)
  then show ?thesis
    using descend_out [OF assms(1) k(2), of "FObj kvs k"] assms(2) by (simp add: case_object_value_def)
qed

lemma case_finish_out:
  assumes "ready h0 inp r a A" "top a = json_tokener_state_finish"
  shows "\<exists>rf. case_finish r = Some rf \<and> outcome h0 inp r a rf"
proof (cases "frames a" rule: rev_cases)
  case Nil
  then have "depth (tok r) = 0" using readyD(2) [OF assms(1)] by (auto simp: sim_def stack_sim_def)
  moreover have "own a = []" using assms(2) readyD(4) [OF assms(1)] by (auto simp: good_def state_sets)
  ultimately show ?thesis
    using outcome_Out [OF readyD(2) [OF assms(1)]] by (simp add: case_finish_def)
next
  case (snoc fs f)
  have own: "own a = []" and fs: "list_all (frame_small (str r)) fs" "frame_small (str r) f"
    using assms(2) readyD(4) [OF assms(1)] snoc by (auto simp: good_def state_sets)
  from case_finish_ok [OF readyD(2) [OF assms(1)] own snoc] obtain r' sv fd where
    r': "case_finish r = Some (r', Redo)" "same_pos r r'" "frame_key_ok fd f"
    "sim h0 r' (a\<lparr>frames := fs, top := add_state f, saved := sv, field := fd, val := fval f, own := [val a]\<rparr>) A"
    by blast
  have "outcome h0 inp r a (r', Redo)"
  proof (rule outcome_Redo [OF r'(4)])
    show "pos_ok inp r'" using same_pos_ok [OF r'(2)] readyD(3) [OF assms(1)] by blast
  qed (use r'(2,3) fs assms(2) in \<open>cases f; auto simp: good_def state_sets same_pos_def view_rank_def\<close>)+
  then show ?thesis using r'(1) by blast
qed

lemma case_array_add_out:
  assumes "ready h0 inp r a A" "top a = json_tokener_state_array_add"
  shows "\<exists>rf. case_array_add r = Some rf \<and> outcome h0 inp r a rf"
proof -
  obtain xs w where xs: "val a = JArray xs" "length xs < str r" "own a = [w]"
    using assms readyD(4) [OF assms(1)] by (auto simp: good_def state_sets)
  have "length xs < 2 ^ 27" using xs(2) readyD(5) [OF assms(1)] by simp
  from case_array_add_ok [OF readyD(2) [OF assms(1)] xs(3,1) this] obtain r' where
    r': "case_array_add r = Some (r', Redo)" "same_pos r r'"
    "sim h0 r' (a\<lparr>top := json_tokener_state_eatws, saved := json_tokener_state_array_sep,
      val := JArray (xs @ [w]), own := []\<rparr>) A" by blast
  have "outcome h0 inp r a (r', Redo)"
  proof (rule outcome_Redo [OF r'(3)])
    show "pos_ok inp r'" using same_pos_ok [OF r'(2)] readyD(3) [OF assms(1)] by blast
  qed (use r'(2) xs assms(2) readyD(4) [OF assms(1)] in
      \<open>auto simp: good_def state_sets same_pos_def view_rank_def\<close>)
  then show ?thesis using r'(1) by blast
qed

lemma case_object_value_add_out:
  assumes "ready h0 inp r a A" "top a = json_tokener_state_object_value_add"
  shows "\<exists>rf. case_object_value_add r = Some rf \<and> outcome h0 inp r a rf"
proof -
  obtain kvs k w where k: "val a = JObject kvs" "own a = [w]" "field a = Some k" "NUL \<notin> set k"
    using assms readyD(4) [OF assms(1)] by (auto simp: good_def state_sets)
  from case_object_value_add_ok [OF readyD(2) [OF assms(1)] k(2,1,3,4)] obtain r' A' where
    r': "case_object_value_add r = Some (r', Redo)" "same_pos r r'"
    "sim h0 r' (a\<lparr>top := json_tokener_state_eatws, saved := json_tokener_state_object_sep, field := None,
      val := JObject (without k kvs @ [(k, w)]), own := []\<rparr>) A'" by blast
  have "outcome h0 inp r a (r', Redo)"
  proof (rule outcome_Redo [OF r'(3)])
    show "pos_ok inp r'" using same_pos_ok [OF r'(2)] readyD(3) [OF assms(1)] by blast
  qed (use r'(2) assms(2) readyD(4) [OF assms(1)] in
      \<open>auto simp: good_def state_sets same_pos_def view_rank_def\<close>)
  then show ?thesis using r'(1) by blast
qed

section \<open>Starts of tokens\<close>

lemma upd_tok_simps [simp]:
  "heap (upd_tok r f) = heap r" "obj (upd_tok r f) = obj r" "str (upd_tok r f) = str r"
  "chr (upd_tok r f) = chr r" "tok (upd_tok r f) = f (tok r)"
  by (simp_all add: upd_tok_def)

lemma sim_upd_tok:
  "sim h0 r a A \<Longrightarrow> stack (f (tok r)) = stack (tok r) \<Longrightarrow> depth (f (tok r)) = depth (tok r) \<Longrightarrow>
     tpb (f (tok r)) = tpb (tok r) \<Longrightarrow> sim h0 (upd_tok r f) a A"
  by (erule sim_same) simp_all

text \<open>A token begins: its state is set, the buffer is emptied, a field of the tokener is set.\<close>

lemma begin_token_ok:
  assumes "ready h0 inp r a A"
    and "\<And>t. stack (f t) = stack t" "\<And>t. depth (f t) = depth t" "\<And>t. tpb (f t) = tpb t"
      "\<And>t. char_offset (f t) = char_offset t" "\<And>t. err (f t) = err t"
  shows "\<exists>r'. reset_pb (set_state r s) = Some r' \<and> pos_ok inp (upd_tok r' f) \<and> str r' = str r \<and>
    sim h0 (upd_tok r' f) (a\<lparr>top := s, token := Some []\<rparr>) A"
proof -
  obtain q where q: "reset_pb (set_state r s) = Some (upd_tok (set_state r s) (\<lambda>t. t\<lparr>tpb := q\<rparr>))"
    "sim h0 (upd_tok (set_state r s) (\<lambda>t. t\<lparr>tpb := q\<rparr>)) (a\<lparr>top := s, token := Some []\<rparr>) A"
    using reset_pb_ok [OF sim_set_state [OF readyD(2) [OF assms(1)]]] by fastforce
  let ?r = "upd_tok (set_state r s) (\<lambda>t. t\<lparr>tpb := q\<rparr>)"
  have "pos_ok inp (upd_tok ?r f)"
    using readyD(3) [OF assms(1)] assms(5,6) by (simp add: pos_ok_def set_state_def)
  moreover have "sim h0 (upd_tok ?r f) (a\<lparr>top := s, token := Some []\<rparr>) A"
    by (rule sim_upd_tok [OF q(2)]) (simp_all add: assms)
  ultimately show ?thesis using q(1) by (auto simp: set_state_def)
qed

lemma case_start_out:
  assumes "ready h0 inp r a A" "top a = json_tokener_state_start"
  shows "\<exists>rf. case_start r = Some rf \<and> outcome h0 inp r a rf"
proof -
  have g: "own a = []" "val a = JNull" "list_all (frame_small (str r)) (frames a)"
    using assms(2) readyD(4) [OF assms(1)] by (auto simp: good_def state_sets)
  note s = readyD(2) [OF assms(1)]
  let ?c = "chr r"
  consider (ob) "?c = CHR ''{''" | (ar) "?c = CHR ''[''"
    | (nu) "?c \<noteq> CHR ''{''" "?c \<noteq> CHR ''[''" "?c = CHR ''N'' \<or> ?c = CHR ''n''"
    | (st) "?c \<noteq> CHR ''{''" "?c \<noteq> CHR ''[''" "?c = CHR 0x22 \<or> ?c = CHR 0x27"
    | (bo) "?c \<noteq> CHR ''{''" "?c \<noteq> CHR ''[''" "?c = CHR ''T'' \<or> ?c = CHR ''t'' \<or> ?c = CHR ''F'' \<or> ?c = CHR ''f''"
    | (di) "?c \<noteq> CHR ''{''" "?c \<noteq> CHR ''[''" "\<not> (?c = CHR ''N'' \<or> ?c = CHR ''n'')"
        "\<not> (?c = CHR 0x22 \<or> ?c = CHR 0x27)" "\<not> (?c = CHR ''T'' \<or> ?c = CHR ''t'' \<or> ?c = CHR ''F'' \<or> ?c = CHR ''f'')"
    by blast
  then show ?thesis
  proof cases
    case ob
    from case_start_container(1) [OF s g(1,2) ob] obtain r' A' where
      r': "case_start r = Some (r', Break)" "same_pos r r'" "sim h0 r' (a\<lparr>top := json_tokener_state_eatws,
        saved := json_tokener_state_object_field_start, val := JObject []\<rparr>) A'" by blast
    have "outcome h0 inp r a (r', Break)"
      by (rule outcome_Break [OF r'(3)])
        (use same_pos_ok [OF r'(2), of inp] readyD(3) [OF assms(1)] r'(2) g in
          \<open>auto simp: good_def state_sets same_pos_def\<close>)
    then show ?thesis using r'(1) by blast
  next
    case ar
    from case_start_container(2) [OF s g(1,2) ar] obtain r' A' where
      r': "case_start r = Some (r', Break)" "same_pos r r'" "sim h0 r' (a\<lparr>top := json_tokener_state_eatws,
        saved := json_tokener_state_array, val := JArray []\<rparr>) A'" by blast
    have "outcome h0 inp r a (r', Break)"
      by (rule outcome_Break [OF r'(3)])
        (use same_pos_ok [OF r'(2), of inp] readyD(3) [OF assms(1)] r'(2) g in
          \<open>auto simp: good_def state_sets same_pos_def\<close>)
    then show ?thesis using r'(1) by blast
  next
    case nu
    obtain r' where r': "reset_pb (set_state r json_tokener_state_null) = Some r'"
      "pos_ok inp (upd_tok r' (\<lambda>t. t\<lparr>st_pos := 0\<rparr>))" "str r' = str r"
      "sim h0 (upd_tok r' (\<lambda>t. t\<lparr>st_pos := 0\<rparr>)) (a\<lparr>top := json_tokener_state_null, token := Some []\<rparr>) A"
      using begin_token_ok [OF assms(1), of "\<lambda>t. t\<lparr>st_pos := 0\<rparr>" json_tokener_state_null] by auto
    have "outcome h0 inp r a (upd_tok r' (\<lambda>t. t\<lparr>st_pos := 0\<rparr>), Redo)"
      by (rule outcome_Redo [OF r'(4,2)]) (use r'(3) g assms(2) in \<open>auto simp: good_def state_sets view_rank_def\<close>)
    then show ?thesis using nu r'(1) by (auto simp: case_start_def)
  next
    case bo
    obtain r' where r': "reset_pb (set_state r json_tokener_state_boolean) = Some r'"
      "pos_ok inp (upd_tok r' (\<lambda>t. t\<lparr>st_pos := 0\<rparr>))" "str r' = str r"
      "sim h0 (upd_tok r' (\<lambda>t. t\<lparr>st_pos := 0\<rparr>)) (a\<lparr>top := json_tokener_state_boolean, token := Some []\<rparr>) A"
      using begin_token_ok [OF assms(1), of "\<lambda>t. t\<lparr>st_pos := 0\<rparr>" json_tokener_state_boolean] by auto
    have "outcome h0 inp r a (upd_tok r' (\<lambda>t. t\<lparr>st_pos := 0\<rparr>), Redo)"
      by (rule outcome_Redo [OF r'(4,2)]) (use r'(3) g assms(2) in \<open>auto simp: good_def state_sets view_rank_def\<close>)
    then show ?thesis using bo r'(1) by (auto simp: case_start_def)
  next
    case st
    obtain r' where r': "reset_pb (set_state r json_tokener_state_string) = Some r'"
      "pos_ok inp (upd_tok r' (\<lambda>t. t\<lparr>quote_char := ?c\<rparr>))" "str r' = str r"
      "sim h0 (upd_tok r' (\<lambda>t. t\<lparr>quote_char := ?c\<rparr>)) (a\<lparr>top := json_tokener_state_string, token := Some []\<rparr>) A"
      using begin_token_ok [OF assms(1), of "\<lambda>t. t\<lparr>quote_char := ?c\<rparr>" json_tokener_state_string] by auto
    have "outcome h0 inp r a (upd_tok r' (\<lambda>t. t\<lparr>quote_char := ?c\<rparr>), Break)"
      by (rule outcome_Break [OF r'(4) _ r'(2)]) (use r'(3) g assms(2) in \<open>auto simp: good_def state_sets\<close>)
    then show ?thesis using st r'(1) by (auto simp: case_start_def)
  next
    case di
    obtain r' where r': "reset_pb (set_state r json_tokener_state_number) = Some r'"
      "pos_ok inp (upd_tok r' (\<lambda>t. t\<lparr>is_double := 0\<rparr>))" "str r' = str r"
      "sim h0 (upd_tok r' (\<lambda>t. t\<lparr>is_double := 0\<rparr>)) (a\<lparr>top := json_tokener_state_number, token := Some []\<rparr>) A"
      using begin_token_ok [OF assms(1), of "\<lambda>t. t\<lparr>is_double := 0\<rparr>" json_tokener_state_number] by auto
    have "outcome h0 inp r a (upd_tok r' (\<lambda>t. t\<lparr>is_double := 0\<rparr>), Redo)"
      by (rule outcome_Redo [OF r'(4,2)]) (use r'(3) g assms(2) in \<open>auto simp: good_def state_sets view_rank_def\<close>)
    then show ?thesis using di r'(1) outcome_err [OF s g(1)] by (auto simp: case_start_def Let_def)
  qed
qed

lemma case_object_field_start_out:
  assumes "ready h0 inp r a A" "top a = json_tokener_state_object_field_start"
  shows "\<exists>rf. case_object_field_start r = Some rf \<and> outcome h0 inp r a rf"
proof (cases "chr r = CHR ''}''")
  case True
  then show ?thesis using assms readyD(4) [OF assms(1)] unfolding case_object_field_start_def
    by (auto intro!: outcome_set_states simp: good_def state_sets)
next
  case False
  have g: "own a = []" "list_all (frame_small (str r)) (frames a)" "\<exists>kvs. val a = JObject kvs"
    using assms(2) readyD(4) [OF assms(1)] by (auto simp: good_def state_sets)
  let ?r = "upd_tok r (\<lambda>t. t\<lparr>quote_char := chr r\<rparr>)"
  have "sim h0 ?r a A" by (rule sim_upd_tok [OF readyD(2) [OF assms(1)]]) simp_all
  from reset_pb_ok [OF this] obtain q where q: "reset_pb ?r = Some (upd_tok ?r (\<lambda>t. t\<lparr>tpb := q\<rparr>))"
    "sim h0 (upd_tok ?r (\<lambda>t. t\<lparr>tpb := q\<rparr>)) (a\<lparr>token := Some []\<rparr>) A" by blast
  let ?r' = "set_state (upd_tok ?r (\<lambda>t. t\<lparr>tpb := q\<rparr>)) json_tokener_state_object_field"
  have "outcome h0 inp r a (?r', Break)"
    by (rule outcome_Break [OF sim_set_state [OF q(2)]])
      (use g readyD(3) [OF assms(1)] in \<open>auto simp: good_def state_sets set_state_def pos_ok_def\<close>)
  then show ?thesis
    using False q(1) outcome_err [OF readyD(2) [OF assms(1)] g(1)] by (auto simp: case_object_field_start_def)
qed

section \<open>Literals\<close>

lemma strncasecmp_eq_total:
  "n \<le> length b \<Longrightarrow> None \<notin> set (take n b) \<Longrightarrow> \<exists>res. strncasecmp_eq s b n = Some res"
proof (induction n arbitrary: s b)
  case (Suc n)
  then obtain x b' where b: "b = Some x # b'" by (cases b) (auto, metis not_None_eq)
  then show ?case using Suc.IH [of b' "tl s"] Suc.prems by (auto simp: Let_def)
qed auto

lemma literal_so_far_total:
  assumes "text_sim (tpb t) n (Some x)" "st_pos t < int (length x)"
  shows "\<exists>res. literal_so_far s t = Some res"
proof -
  have pb: "pb_wf (tpb t)" "nat (bpos (tpb t)) = length x"
    using assms(1) length_pb_text by (auto simp: text_sim_def)
  let ?n = "nat (json_min (st_pos t + 1) (int (length s)))"
  have n: "?n \<le> nat (bpos (tpb t))" using assms(2) pb(2) by (auto simp: json_min_def)
  then have "?n \<le> length (buf (tpb t))" using pb(1) by (auto simp: pb_wf_def)
  moreover have "None \<notin> set (take ?n (buf (tpb t)))"
    using pb(1) set_take_subset_set_take [OF n, of "buf (tpb t)"] by (auto simp: pb_wf_def)
  ultimately show ?thesis unfolding literal_so_far_def by (rule strncasecmp_eq_total)
qed

text \<open>A level that has its value reads the same character again.\<close>

lemma outcome_finish:
  assumes "sim h0 (finish_with r1 hp) b B" "b = b0\<lparr>top := json_tokener_state_eatws, saved := json_tokener_state_finish, val := v\<rparr>"
    and "own b0 = []" "list_all (frame_small (str r1)) (frames b0)" "pos_ok inp r1"
  shows "str r \<le> str r1 \<Longrightarrow> outcome h0 inp r a (finish_with r1 hp, Break)"
    and "str r < str r1 \<or> str r = str r1 \<and> 7 < view_rank a \<Longrightarrow> outcome h0 inp r a (finish_with r1 hp, Redo)"
proof -
  have p: "pos_ok inp (finish_with r1 hp)" "str (finish_with r1 hp) = str r1"
    using assms(5) by (simp_all add: finish_with_def pos_ok_def)
  show "str r \<le> str r1 \<Longrightarrow> outcome h0 inp r a (finish_with r1 hp, Break)"
    by (rule outcome_Break [OF assms(1)]) (use p assms in \<open>auto simp: good_def state_sets\<close>)
  show "str r < str r1 \<or> str r = str r1 \<and> 7 < view_rank a \<Longrightarrow> outcome h0 inp r a (finish_with r1 hp, Redo)"
    by (rule outcome_Redo [OF assms(1)]) (use p assms in \<open>auto simp: good_def state_sets view_rank_def\<close>)
qed

text \<open>One character of a literal is collected, and the next one awaited.\<close>

lemma literal_step:
  assumes "ready h0 inp r a A" "top a \<in> {json_tokener_state_null, json_tokener_state_boolean}"
  obtains q x where "append_text r [chr r] = Some (upd_tok r (\<lambda>t. t\<lparr>tpb := q\<rparr>))"
    and "\<And>s. \<exists>res. literal_so_far s (tok (upd_tok r (\<lambda>t. t\<lparr>tpb := q\<rparr>))) = Some res"
    and "pos_ok inp (upd_tok r (\<lambda>t. t\<lparr>tpb := q\<rparr>))"
    and "sim h0 (upd_tok r (\<lambda>t. t\<lparr>tpb := q\<rparr>)) (a\<lparr>token := Some x\<rparr>) A"
    and "outcome h0 inp r a (advance_st_pos (upd_tok r (\<lambda>t. t\<lparr>tpb := q\<rparr>)), Break)"
proof -
  have g: "own a = []" "list_all (frame_small (str r)) (frames a)" "val a = JNull"
    "\<exists>x. token a = Some x \<and> length x \<le> str r" "\<exists>x. token a = Some x \<and> st_pos (tok r) = int (length x)"
    using assms(2) readyD(4) [OF assms(1)] unfolding good_def state_sets by (elim insertE; force)+
  then obtain x where x: "token a = Some x" "st_pos (tok r) = int (length x)" "length x \<le> str r"
    by (metis option.inject)
  obtain q where q: "append_text r [chr r] = Some (upd_tok r (\<lambda>t. t\<lparr>tpb := q\<rparr>))"
    "sim h0 (upd_tok r (\<lambda>t. t\<lparr>tpb := q\<rparr>)) (a\<lparr>token := Some (x @ [chr r])\<rparr>) A"
    using append_text_ok [OF readyD(2) [OF assms(1)] x(1), of "[chr r]"] x(3) readyD(5) [OF assms(1)] by auto
  have "text_sim q (str r) (Some (x @ [chr r]))" using q(2) by (simp add: sim_def)
  then have l: "\<exists>res. literal_so_far s (tok (upd_tok r (\<lambda>t. t\<lparr>tpb := q\<rparr>))) = Some res" for s
    using x(2) by (intro literal_so_far_total [of _ "str r" "x @ [chr r]"]) simp_all
  have p: "pos_ok inp (upd_tok r (\<lambda>t. t\<lparr>tpb := q\<rparr>))"
    using readyD(3) [OF assms(1)] by (simp add: pos_ok_def)
  have c: "c_int (int (length x) + 1) = int (length x) + 1"
    using x(3) readyD(5) [OF assms(1)] by (intro c_int_eq) auto
  have "outcome h0 inp r a (advance_st_pos (upd_tok r (\<lambda>t. t\<lparr>tpb := q\<rparr>)), Break)"
    unfolding advance_st_pos_def
    by (rule outcome_Break [OF sim_upd_tok [OF q(2)]])
      (use p x g c assms(2) in \<open>auto simp: pos_ok_def good_def state_sets\<close>)
  then show ?thesis using that [OF q(1) l p q(2)] by blast
qed

lemma case_null_out:
  assumes "ready h0 inp r a A" "top a = json_tokener_state_null"
  shows "\<exists>rf. case_null r = Some rf \<and> outcome h0 inp r a rf"
proof -
  obtain q x where q: "append_text r [chr r] = Some (upd_tok r (\<lambda>t. t\<lparr>tpb := q\<rparr>))"
    "\<And>s. \<exists>res. literal_so_far s (tok (upd_tok r (\<lambda>t. t\<lparr>tpb := q\<rparr>))) = Some res"
    "pos_ok inp (upd_tok r (\<lambda>t. t\<lparr>tpb := q\<rparr>))"
    "sim h0 (upd_tok r (\<lambda>t. t\<lparr>tpb := q\<rparr>)) (a\<lparr>token := Some x\<rparr>) A"
    "outcome h0 inp r a (advance_st_pos (upd_tok r (\<lambda>t. t\<lparr>tpb := q\<rparr>)), Break)"
    by (rule literal_step [OF assms(1)], use assms(2) in simp, rule that)
  have g: "own a = []" "val a = JNull" "list_all (frame_small (str r)) (frames a)"
    using assms(2) readyD(4) [OF assms(1)] by (auto simp: good_def state_sets)
  let ?r1 = "upd_tok r (\<lambda>t. t\<lparr>tpb := q\<rparr>)"
  obtain res where res: "literal_so_far ''null'' (tok ?r1) = Some res" using q(2) by blast
  have "sim h0 (finish_with ?r1 (heap ?r1, None)) (a\<lparr>token := Some x, top := json_tokener_state_eatws,
      saved := json_tokener_state_finish, val := JNull\<rparr>) A"
    using finish_with_null [OF q(4)] g by simp
  then have "outcome h0 inp r a (finish_with ?r1 (heap ?r1, None), Redo)"
    by (rule outcome_finish(2) [OF _ refl]) (use g q(3) assms(2) in \<open>auto simp: view_rank_def\<close>)
  then show ?thesis
    using q(1,5) res outcome_err [OF q(4)] g(1) by (auto simp: case_null_def)
qed

lemma case_boolean_out:
  assumes "ready h0 inp r a A" "top a = json_tokener_state_boolean"
  shows "\<exists>rf. case_boolean r = Some rf \<and> outcome h0 inp r a rf"
proof -
  obtain q x where q: "append_text r [chr r] = Some (upd_tok r (\<lambda>t. t\<lparr>tpb := q\<rparr>))"
    "\<And>s. \<exists>res. literal_so_far s (tok (upd_tok r (\<lambda>t. t\<lparr>tpb := q\<rparr>))) = Some res"
    "pos_ok inp (upd_tok r (\<lambda>t. t\<lparr>tpb := q\<rparr>))"
    "sim h0 (upd_tok r (\<lambda>t. t\<lparr>tpb := q\<rparr>)) (a\<lparr>token := Some x\<rparr>) A"
    "outcome h0 inp r a (advance_st_pos (upd_tok r (\<lambda>t. t\<lparr>tpb := q\<rparr>)), Break)"
    by (rule literal_step [OF assms(1)], use assms(2) in simp, rule that)
  have g: "own a = []" "val a = JNull" "list_all (frame_small (str r)) (frames a)"
    using assms(2) readyD(4) [OF assms(1)] by (auto simp: good_def state_sets)
  let ?r1 = "upd_tok r (\<lambda>t. t\<lparr>tpb := q\<rparr>)"
  obtain t f where res: "literal_so_far ''true'' (tok ?r1) = Some t" "literal_so_far ''false'' (tok ?r1) = Some f"
    using q(2) by blast
  have "outcome h0 inp r a (finish_with ?r1 (json_object_new_boolean (heap ?r1) i), Redo)" for i
  proof -
    obtain A' where "sim h0 (finish_with ?r1 (json_object_new_boolean (heap ?r1) i)) (a\<lparr>token := Some x,
        top := json_tokener_state_eatws, saved := json_tokener_state_finish, val := JBool i\<rparr>) A'"
      using finish_with_new [OF q(4) _ _ new_tree(3) [OF sim_heap_ok [OF q(4)]]] g by auto
    then show ?thesis
      by (rule outcome_finish(2) [OF _ refl]) (use g q(3) assms(2) in \<open>auto simp: view_rank_def\<close>)
  qed
  then show ?thesis
    using q(1,5) res outcome_err [OF q(4)] g(1) by (cases t; cases f) (auto simp: case_boolean_def)
qed

section \<open>Text\<close>

text \<open>A chunk of the input behind the position is appended to the token.\<close>

lemma append_chunk:
  assumes "sim h0 r1 a A" "c_input inp" "token a = Some x" "length x \<le> start"
    and "start + n \<le> str r1 + 1" "str r1 \<le> length inp" "start + n \<le> length inp"
  shows "\<exists>q y. append_input inp r1 start n = Some (upd_tok r1 (\<lambda>t. t\<lparr>tpb := q\<rparr>)) \<and> length y = length x + n \<and>
    sim h0 (upd_tok r1 (\<lambda>t. t\<lparr>tpb := q\<rparr>)) (a\<lparr>token := Some y\<rparr>) A"
proof (cases "str r1 < 2 ^ 27")
  case True
  let ?y = "take n (drop start inp)"
  have "length (x @ ?y) \<le> str r1 + 1" using assms(4,5) by simp
  then obtain q where "append_text r1 ?y = Some (upd_tok r1 (\<lambda>t. t\<lparr>tpb := q\<rparr>))"
    "sim h0 (upd_tok r1 (\<lambda>t. t\<lparr>tpb := q\<rparr>)) (a\<lparr>token := Some (x @ ?y)\<rparr>) A"
    using append_text_ok [OF assms(1,3) _ True] by blast
  then show ?thesis
    using assms(7) by (intro exI [of _ q] exI [of _ "x @ ?y"]) (simp add: append_input_eq)
next
  case False
  then have e: "str r1 = 2 ^ 27" "length inp = 2 ^ 27" using assms(2,6) by (auto simp: c_input_def)
  let ?y = "take n (drop start inp)" and ?pb = "tpb (tok r1)"
  have pb: "pb_wf ?pb" "pb_text ?pb = x" using assms(1,3) by (auto simp: sim_def text_sim_def)
  then have b: "bpos ?pb = int (length x)" using length_pb_text [OF pb(1)] by (auto simp: pb_wf_def)
  have "length x + length ?y \<le> 2 ^ 27" using assms(4,7) e by simp
  then have "pb_room ?pb (length ?y + 0)" using pb b by (simp add: pb_room_def)
  then obtain q where q: "pb_append ?pb ?y = Some q" "pb_text q = x @ ?y" "pb_wf q" "pb_terminated q"
    using pb_append_room pb(2) pb_room_wf by metis
  then have "bpos q = int (length (x @ ?y))" using length_pb_text [OF q(3)] by (auto simp: pb_wf_def)
  then have "text_sim q (str r1) (Some (x @ ?y))" using q assms(4,5) by (simp add: text_sim_def)
  then show ?thesis
    using sim_set_tpb [OF assms(1)] assms(7) append_input_eq [OF assms(7), of r1] append_text_granted [OF assms(1) q(1)]
    by (intro exI [of _ q] exI [of _ "x @ ?y"]) simp
qed

text \<open>A tight loop over text, then the append of what it read.\<close>

lemma scan_text:
  assumes "ready h0 inp r a A" "token a = Some x" "length x \<le> str r"
  obtains (stop) k where "pos_ok inp (moved inp r k)" "scan_while p inp (- 1) r = Some (moved inp r k, True)"
      "\<And>n. n \<le> Suc k \<Longrightarrow> \<exists>q y. append_input inp (moved inp r k) (str r) n =
          Some (upd_tok (moved inp r k) (\<lambda>t. t\<lparr>tpb := q\<rparr>)) \<and> length y = length x + n \<and>
        sim h0 (upd_tok (moved inp r k) (\<lambda>t. t\<lparr>tpb := q\<rparr>)) (a\<lparr>token := Some y\<rparr>) A"
  | (end_of_input) r1 r2 b where "scan_while p inp (- 1) r = Some (r1, False)"
      "append_input inp r1 (str r) (str r1 - str r) = Some r2" "sim h0 r2 (a\<lparr>token := b\<rparr>) A"
proof -
  note s = readyD(2) [OF assms(1)] and c = readyD(1) [OF assms(1)]
  obtain k where k: "str r + k < length inp" "scan_while p inp (- 1) r =
      (if p (inp ! (str r + k)) then Some (ADVANCE_CHAR (moved inp r k), False) else Some (moved inp r k, True))"
    using scan_while_ok [OF readyD(1,3) [OF assms(1)], of p] by blast
  show ?thesis
  proof (cases "p (inp ! (str r + k))")
    case True
    let ?r1 = "ADVANCE_CHAR (moved inp r k)"
    have str: "str ?r1 = str r + Suc k" by (simp add: ADVANCE_CHAR_def)
    have sr: "sim h0 ?r1 a A" by (rule sim_advance [OF sim_moved [OF s]])
    obtain q y where "append_input inp ?r1 (str r) (str ?r1 - str r) = Some (upd_tok ?r1 (\<lambda>t. t\<lparr>tpb := q\<rparr>))"
      "sim h0 (upd_tok ?r1 (\<lambda>t. t\<lparr>tpb := q\<rparr>)) (a\<lparr>token := Some y\<rparr>) A"
      using append_chunk [OF sr c assms(2,3), of "str ?r1 - str r"] str k(1) by auto
    then show ?thesis using end_of_input k(2) True by metis
  next
    case False
    show ?thesis
    proof (rule stop)
      show "pos_ok inp (moved inp r k)" by (rule pos_ok_moved [OF readyD(3) [OF assms(1)] k(1)])
      show "scan_while p inp (- 1) r = Some (moved inp r k, True)" using False k(2) by simp
      show "\<exists>q y. append_input inp (moved inp r k) (str r) n =
          Some (upd_tok (moved inp r k) (\<lambda>t. t\<lparr>tpb := q\<rparr>)) \<and> length y = length x + n \<and>
        sim h0 (upd_tok (moved inp r k) (\<lambda>t. t\<lparr>tpb := q\<rparr>)) (a\<lparr>token := Some y\<rparr>) A"
        if "n \<le> Suc k" for n
        by (rule append_chunk [OF sim_moved [OF s] c assms(2,3)]) (use that k(1) in simp_all)
    qed
  qed
qed

text \<open>Outcomes of a run whose token and states changed.\<close>

lemma outcome_text_Break:
  assumes "sim h0 r1 (a\<lparr>token := Some y\<rparr>) A" "own a = []" "pos_ok inp r1" "str r \<le> str r1"
    and "good (Suc (str r1)) (st_pos (tok r1)) (a\<lparr>token := Some y, top := s, saved := sv\<rparr>)"
  shows "outcome h0 inp r a0 (set_states r1 s sv, Break)"
    and "sv = saved a \<Longrightarrow> outcome h0 inp r a0 (set_state r1 s, Break)"
proof -
  have eq: "a\<lparr>token := Some y, top := s, saved := saved a\<rparr> = a\<lparr>token := Some y, top := s\<rparr>" by simp
  show "outcome h0 inp r a0 (set_states r1 s sv, Break)"
    by (rule outcome_Break [OF sim_set_states [OF assms(1)]])
      (use assms in \<open>auto simp: set_states_def pos_ok_def\<close>)
  show "sv = saved a \<Longrightarrow> outcome h0 inp r a0 (set_state r1 s, Break)"
    by (rule outcome_Break [OF sim_set_state [OF assms(1)]])
      (use assms eq in \<open>auto simp: set_state_def pos_ok_def\<close>)
qed

lemma ready_text:
  assumes "ready h0 inp r a A" "text_slack (top a) (st_pos (tok r)) = Some m"
  shows "\<exists>x. token a = Some x \<and> length x + m \<le> str r"
proof -
  have "\<forall>m. text_slack (top a) (st_pos (tok r)) = Some m \<longrightarrow> (\<exists>x. token a = Some x \<and> length x + m \<le> str r)"
    using readyD(4) [OF assms(1)] unfolding good_def by (elim conjE)
  then show ?thesis using assms(2) by simp
qed

text \<open>In white space, comments and escapes the invariant is that of the saved state.\<close>

lemma good_blank:
  assumes "top a \<in> blank_states"
  shows "good n p a \<longleftrightarrow> own a = [] \<and> content_ok n (saved a) (val a) (field a) \<and>
    list_all (frame_small n) (frames a) \<and> saved a \<in> gap_states \<and>
    (top a \<noteq> json_tokener_state_eatws \<longrightarrow> (\<exists>x. token a = Some x \<and> length x \<le> n))"
proof -
  have "top a \<notin> add_states" "top a \<notin> escape_states" "top a \<noteq> json_tokener_state_escape_unicode"
    "top a \<notin> {json_tokener_state_null, json_tokener_state_boolean}"
    "text_slack (top a) p = (if top a = json_tokener_state_eatws then None else Some 0)"
    using assms by (auto simp: state_sets)
  then show ?thesis using assms unfolding good_def by auto
qed

lemma case_comment_start_out:
  assumes "ready h0 inp r a A" "top a = json_tokener_state_comment_start"
  shows "\<exists>rf. case_comment_start r = Some rf \<and> outcome h0 inp r a rf"
proof -
  obtain x where x: "token a = Some x" "length x \<le> str r" using ready_text [OF assms(1), of 0] assms(2) by auto
  have "top a \<in> blank_states" by (simp add: assms(2) blank_states_def)
  then have g: "own a = []" "content_ok (str r) (saved a) (val a) (field a)"
    "list_all (frame_small (str r)) (frames a)" "saved a \<in> gap_states"
    using readyD(4) [OF assms(1)] by (simp_all add: good_blank)
  have "\<exists>r1. append_text (set_state r s) [chr r] = Some r1 \<and> outcome h0 inp r a (r1, Break)"
    if "s \<in> {json_tokener_state_comment, json_tokener_state_comment_eol}" for s
  proof -
    obtain q where q: "append_text (set_state r s) [chr r] = Some (upd_tok (set_state r s) (\<lambda>t. t\<lparr>tpb := q\<rparr>))"
      "sim h0 (upd_tok (set_state r s) (\<lambda>t. t\<lparr>tpb := q\<rparr>)) (a\<lparr>top := s, token := Some (x @ [chr r])\<rparr>) A"
      using append_text_ok [OF sim_set_state [OF readyD(2) [OF assms(1)]], of s x "[chr r]"] x
        readyD(5) [OF assms(1)] by (auto simp: set_state_def)
    have "outcome h0 inp r a (upd_tok (set_state r s) (\<lambda>t. t\<lparr>tpb := q\<rparr>), Break)"
      by (rule outcome_Break [OF q(2)])
        (use g x that readyD(3) [OF assms(1)] content_ok_mono [OF g(2), of "Suc (str r)"] in
          \<open>auto simp: pos_ok_def set_state_def good_blank blank_states_def\<close>)
    then show ?thesis using q(1) by blast
  qed
  then show ?thesis
    using outcome_err [OF readyD(2) [OF assms(1)] g(1)] unfolding case_comment_start_def by fastforce
qed

lemma case_comment_end_out:
  assumes "ready h0 inp r a A" "top a = json_tokener_state_comment_end"
  shows "\<exists>rf. case_comment_end r = Some rf \<and> outcome h0 inp r a rf"
proof -
  obtain x where x: "token a = Some x" "length x \<le> str r" using ready_text [OF assms(1), of 0] assms(2) by auto
  have "top a \<in> blank_states" by (simp add: assms(2) blank_states_def)
  then have g: "own a = []" "content_ok (str r) (saved a) (val a) (field a)"
    "list_all (frame_small (str r)) (frames a)" "saved a \<in> gap_states"
    using readyD(4) [OF assms(1)] by (simp_all add: good_blank)
  obtain q where q: "append_text r [chr r] = Some (upd_tok r (\<lambda>t. t\<lparr>tpb := q\<rparr>))"
    "sim h0 (upd_tok r (\<lambda>t. t\<lparr>tpb := q\<rparr>)) (a\<lparr>token := Some (x @ [chr r])\<rparr>) A"
    using append_text_ok [OF readyD(2) [OF assms(1)] x(1), of "[chr r]"] x(2) readyD(5) [OF assms(1)] by auto
  have "outcome h0 inp r a (set_state (upd_tok r (\<lambda>t. t\<lparr>tpb := q\<rparr>)) s, Break)"
    if "s \<in> blank_states" for s
    by (rule outcome_text_Break(2) [OF q(2)])
      (use g x that readyD(3) [OF assms(1)] content_ok_mono [OF g(2), of "Suc (str r)"] in
        \<open>auto simp: pos_ok_def good_blank\<close>)
  then show ?thesis using q(1) by (simp add: case_comment_end_def blank_states_def)
qed

text \<open>The two loops over the text of a comment.\<close>

lemma comment_scan:
  assumes "ready h0 inp r a A" "top a \<in> {json_tokener_state_comment, json_tokener_state_comment_eol}"
    and "s \<in> blank_states"
  obtains (stop) k where "scan_while p inp (- 1) r = Some (moved inp r k, True)"
      "\<And>n. n \<le> Suc k \<Longrightarrow> \<exists>r2. append_input inp (moved inp r k) (str r) n = Some r2 \<and>
        outcome h0 inp r a (set_state r2 s, Break)"
  | (end_of_input) r1 r2 where "scan_while p inp (- 1) r = Some (r1, False)"
      "append_input inp r1 (str r) (str r1 - str r) = Some r2" "outcome h0 inp r a (r2, Out)"
proof -
  obtain x where x: "token a = Some x" "length x \<le> str r" using ready_text [OF assms(1), of 0] assms(2) by auto
  have "top a \<in> blank_states" using assms(2) by (auto simp: blank_states_def)
  then have g: "own a = []" "content_ok (str r) (saved a) (val a) (field a)"
    "list_all (frame_small (str r)) (frames a)" "saved a \<in> gap_states"
    using readyD(4) [OF assms(1)] by (simp_all add: good_blank)
  show ?thesis
  proof (cases rule: scan_text [OF assms(1) x, of p, case_names stop end_of_input])
    case (stop k)
    show ?thesis
    proof (rule that(1) [OF stop(2)])
      fix n assume n: "n \<le> Suc k"
      obtain q y where q: "append_input inp (moved inp r k) (str r) n =
          Some (upd_tok (moved inp r k) (\<lambda>t. t\<lparr>tpb := q\<rparr>))" "length y = length x + n"
        "sim h0 (upd_tok (moved inp r k) (\<lambda>t. t\<lparr>tpb := q\<rparr>)) (a\<lparr>token := Some y\<rparr>) A"
        using stop(3) [OF n] by blast
      have "outcome h0 inp r a (set_state (upd_tok (moved inp r k) (\<lambda>t. t\<lparr>tpb := q\<rparr>)) s, Break)"
        by (rule outcome_text_Break(2) [OF q(3)])
          (use g x n q(2) assms(3) stop(1) content_ok_mono [OF g(2), of "Suc (str r + k)"]
            frames_small_mono [OF g(3), of "Suc (str r + k)"] in \<open>auto simp: pos_ok_def good_blank\<close>)
      then show "\<exists>r2. append_input inp (moved inp r k) (str r) n = Some r2 \<and>
        outcome h0 inp r a (set_state r2 s, Break)" using q(1) by blast
    qed
  next
    case (end_of_input r1 r2 b)
    have "outcome h0 inp r a (r2, Out)" by (rule outcome_Out [OF end_of_input(3)]) (simp add: g(1))
    then show ?thesis using end_of_input that(2) by blast
  qed
qed

lemma case_comment_out:
  assumes "ready h0 inp r a A" "top a = json_tokener_state_comment"
  shows "\<exists>rf. case_comment inp (- 1) r = Some rf \<and> outcome h0 inp r a rf"
proof -
  have t: "top a \<in> {json_tokener_state_comment, json_tokener_state_comment_eol}"
    "json_tokener_state_comment_end \<in> blank_states" using assms(2) by (simp_all add: blank_states_def)
  show ?thesis
  proof (cases rule: comment_scan [OF assms(1) t, of "\<lambda>c. c \<noteq> CHR ''*''", case_names stop end_of_input])
    case (stop k)
    then obtain r2 where "append_input inp (moved inp r k) (str r) (Suc k) = Some r2"
      "outcome h0 inp r a (set_state r2 json_tokener_state_comment_end, Break)" by blast
    then show ?thesis using stop(1) by (simp add: case_comment_def)
  qed (simp add: case_comment_def)
qed

lemma case_comment_eol_out:
  assumes "ready h0 inp r a A" "top a = json_tokener_state_comment_eol"
  shows "\<exists>rf. case_comment_eol inp (- 1) r = Some rf \<and> outcome h0 inp r a rf"
proof -
  have t: "top a \<in> {json_tokener_state_comment, json_tokener_state_comment_eol}"
    "json_tokener_state_eatws \<in> blank_states" using assms(2) by (simp_all add: blank_states_def)
  show ?thesis
  proof (cases rule: comment_scan [OF assms(1) t, of "\<lambda>c. c \<noteq> CHR 0x0a", case_names stop end_of_input])
    case (stop k)
    then obtain r2 where "append_input inp (moved inp r k) (str r) k = Some r2"
      "outcome h0 inp r a (set_state r2 json_tokener_state_eatws, Break)" using le_SucI by blast
    then show ?thesis using stop(1) by (simp add: case_comment_eol_def)
  qed (simp add: case_comment_eol_def)
qed

text \<open>White space.\<close>

lemma good_saved:
  assumes "top a = json_tokener_state_eatws" "good n p a"
  shows "good n p (a\<lparr>top := saved a\<rparr>)"
proof -
  have "top a \<in> blank_states" by (simp add: assms(1) blank_states_def)
  then have g: "own a = []" "content_ok n (saved a) (val a) (field a)"
    "list_all (frame_small n) (frames a)" "saved a \<in> gap_states"
    using assms(2) by (simp_all add: good_blank)
  then show ?thesis unfolding good_def by (cases "saved a") (simp_all add: state_sets)
qed

lemma case_eatws_out:
  assumes "ready h0 inp r a A" "top a = json_tokener_state_eatws" "\<forall>c \<in> set inp. isspace lc c \<noteq> None"
  shows "\<exists>rf. case_eatws lc inp (- 1) r = Some rf \<and> outcome h0 inp r a rf"
proof -
  have "top a \<in> blank_states" by (simp add: assms(2) blank_states_def)
  then have g: "own a = []" "content_ok (str r) (saved a) (val a) (field a)"
    "list_all (frame_small (str r)) (frames a)" "saved a \<in> gap_states"
    using readyD(4) [OF assms(1)] by (simp_all add: good_blank)
  obtain k where k: "str r + k < length inp" "skip_white lc inp (- 1) r =
      (if isspace lc (inp ! (str r + k)) = Some True then Some (ADVANCE_CHAR (moved inp r k), False)
       else Some (moved inp r k, True))"
    using scan_while_ok [OF readyD(1,3) [OF assms(1)], of "\<lambda>c. isspace lc c = Some True"]
    unfolding skip_white_scan [OF readyD(1,3) [OF assms(1)] assms(3)] by blast
  let ?r1 = "moved inp r k"
  have s: "sim h0 ?r1 a A" by (rule sim_moved [OF readyD(2) [OF assms(1)]])
  have p: "pos_ok inp ?r1" by (rule pos_ok_moved [OF readyD(3) [OF assms(1)] k(1)])
  have gm: "good (str r + k) (st_pos (tok r)) a" by (rule good_mono [OF readyD(4) [OF assms(1)]]) simp
  consider (stop) "isspace lc (inp ! (str r + k)) = Some True"
    | (comment) "isspace lc (inp ! (str r + k)) \<noteq> Some True" "inp ! (str r + k) = CHR ''/''"
    | (go) "isspace lc (inp ! (str r + k)) \<noteq> Some True" "inp ! (str r + k) \<noteq> CHR ''/''" by blast
  then show ?thesis
  proof cases
    case stop
    then show ?thesis using k(2) outcome_Out [OF sim_advance [OF s] g(1)] by (simp add: case_eatws_def)
  next
    case comment
    obtain q1 where q1: "reset_pb ?r1 = Some (upd_tok ?r1 (\<lambda>t. t\<lparr>tpb := q1\<rparr>))"
      "sim h0 (upd_tok ?r1 (\<lambda>t. t\<lparr>tpb := q1\<rparr>)) (a\<lparr>token := Some []\<rparr>) A"
      using reset_pb_ok [OF s] by blast
    let ?r2 = "upd_tok ?r1 (\<lambda>t. t\<lparr>tpb := q1\<rparr>)"
    obtain q where q: "append_text ?r2 [CHR ''/''] = Some (upd_tok ?r2 (\<lambda>t. t\<lparr>tpb := q\<rparr>))"
      "sim h0 (upd_tok ?r2 (\<lambda>t. t\<lparr>tpb := q\<rparr>)) (a\<lparr>token := Some [CHR ''/'']\<rparr>) A"
      using append_text_ok [OF q1(2), of "[]" "[CHR ''/'']"] k(1) readyD(1) [OF assms(1)]
      by (auto simp: c_input_def)
    have "outcome h0 inp r a (set_state (upd_tok ?r2 (\<lambda>t. t\<lparr>tpb := q\<rparr>)) json_tokener_state_comment_start, Break)"
      by (rule outcome_text_Break(2) [OF q(2)])
        (use g p content_ok_mono [OF g(2), of "Suc (str r + k)"]
          frames_small_mono [OF g(3), of "Suc (str r + k)"] in
          \<open>auto simp: pos_ok_def good_blank blank_states_def\<close>)
    then show ?thesis using comment k(2) q1(1) q(1) by (simp add: case_eatws_def)
  next
    case go
    obtain l where l: "level ?r1 = Some l" "saved_state l = saved a" by (rule sim_level [OF s]) blast
    have "outcome h0 inp r a (set_state ?r1 (saved a), Redo)"
    proof (rule outcome_Redo [OF sim_set_state [OF s]])
      show "good (str (set_state ?r1 (saved a))) (st_pos (tok (set_state ?r1 (saved a)))) (a\<lparr>top := saved a\<rparr>)"
        using good_saved [OF assms(2) gm] by (simp add: set_state_def)
      show "str r < str (set_state ?r1 (saved a)) \<or>
          str r = str (set_state ?r1 (saved a)) \<and> view_rank (a\<lparr>top := saved a\<rparr>) < view_rank a"
        using assms(2) g(4) by (auto simp: set_state_def view_rank_def gap_states_def)
    qed (use p in \<open>simp add: set_state_def pos_ok_def\<close>)
    then show ?thesis using go k(2) l by (simp add: case_eatws_def)
  qed
qed

section \<open>Strings and numbers\<close>

lemma good_string:
  assumes "top a \<in> {json_tokener_state_string, json_tokener_state_object_field, json_tokener_state_number}"
  shows "good n p a \<longleftrightarrow> own a = [] \<and> content_ok n (top a) (val a) (field a) \<and>
    list_all (frame_small n) (frames a) \<and> (\<exists>x. token a = Some x \<and> length x \<le> n)"
proof -
  have "top a \<notin> add_states" "top a \<notin> blank_states" "top a \<notin> escape_states"
    "top a \<notin> {json_tokener_state_null, json_tokener_state_boolean}"
    "top a \<noteq> json_tokener_state_escape_unicode" "text_slack (top a) p = Some 0"
    using assms by (auto simp: state_sets)
  then show ?thesis unfolding good_def by auto
qed

lemma good_escape:
  assumes "top a \<in> escape_states"
  shows "good n p a \<longleftrightarrow> own a = [] \<and> content_ok n (saved a) (val a) (field a) \<and>
    list_all (frame_small n) (frames a) \<and> saved a \<in> {json_tokener_state_string, json_tokener_state_object_field} \<and>
    (\<exists>x. token a = Some x \<and>
      length x + (if top a = json_tokener_state_string_escape then 1 else 2 + nat p) \<le> n) \<and>
    (top a = json_tokener_state_escape_unicode \<longrightarrow> 0 \<le> p \<and> p \<le> 3)"
proof -
  have "top a \<notin> add_states" "top a \<notin> blank_states"
    "top a \<notin> {json_tokener_state_null, json_tokener_state_boolean}"
    "text_slack (top a) p = Some (if top a = json_tokener_state_string_escape then 1 else 2 + nat p)"
    using assms by (auto simp: state_sets)
  then show ?thesis using assms unfolding good_def by auto
qed

lemma nul_notin_takeWhile: "NUL \<notin> set (takeWhile (\<lambda>c. c \<noteq> NUL) x)"
  by (auto dest: set_takeWhileD)

text \<open>The text up to the quote, and what follows it.\<close>

lemma quoted_scan:
  assumes "ready h0 inp r a A" "top a \<in> {json_tokener_state_string, json_tokener_state_object_field}"
  obtains (stop) k r2 s where "scan_while p inp (- 1) r = Some (moved inp r k, True)"
      "append_input inp (moved inp r k) (str r) k = Some r2" "str r2 = str r + k" "pos_ok inp r2"
      "read_cstr (buf (tpb (tok r2))) = Some s" "NUL \<notin> set s" "\<exists>y. sim h0 r2 (a\<lparr>token := Some y\<rparr>) A"
      "outcome h0 inp r a (set_states r2 json_tokener_state_string_escape (top a), Break)"
  | (end_of_input) r1 r2 where "scan_while p inp (- 1) r = Some (r1, False)"
      "append_input inp r1 (str r) (str r1 - str r) = Some r2" "outcome h0 inp r a (r2, Out)"
proof -
  obtain x where x: "token a = Some x" "length x \<le> str r" using ready_text [OF assms(1), of 0] assms(2) by auto
  have g: "own a = []" "content_ok (str r) (top a) (val a) (field a)" "list_all (frame_small (str r)) (frames a)"
    using readyD(4) [OF assms(1)] assms(2) by (auto simp: good_string)
  show ?thesis
  proof (cases rule: scan_text [OF assms(1) x, of p, case_names stop end_of_input])
    case (stop k)
    obtain q y where q: "append_input inp (moved inp r k) (str r) k =
        Some (upd_tok (moved inp r k) (\<lambda>t. t\<lparr>tpb := q\<rparr>))" "length y = length x + k"
      "sim h0 (upd_tok (moved inp r k) (\<lambda>t. t\<lparr>tpb := q\<rparr>)) (a\<lparr>token := Some y\<rparr>) A"
      using stop(3) [of k] by auto
    let ?r2 = "upd_tok (moved inp r k) (\<lambda>t. t\<lparr>tpb := q\<rparr>)"
    have "outcome h0 inp r a (set_states ?r2 json_tokener_state_string_escape (top a), Break)"
      by (rule outcome_text_Break(1) [OF q(3)])
        (use g x q(2) assms(2) stop(1) content_ok_mono [OF g(2), of "Suc (str r + k)"]
          frames_small_mono [OF g(3), of "Suc (str r + k)"] in \<open>auto simp: pos_ok_def good_escape escape_states_def\<close>)
    moreover have "read_cstr (buf (tpb (tok ?r2))) = Some (takeWhile (\<lambda>c. c \<noteq> NUL) y)"
      by (rule read_token [OF q(3)]) simp
    moreover have "pos_ok inp ?r2" using stop(1) by (simp add: pos_ok_def)
    moreover have "str ?r2 = str r + k" by simp
    ultimately show ?thesis using that(1) [OF stop(2) q(1)] nul_notin_takeWhile q(3) by blast
  next
    case (end_of_input r1 r2 b)
    have "outcome h0 inp r a (r2, Out)" by (rule outcome_Out [OF end_of_input(3)]) (simp add: g(1))
    then show ?thesis using end_of_input that(2) by blast
  qed
qed

lemma case_string_out:
  assumes "ready h0 inp r a A" "top a = json_tokener_state_string"
  shows "\<exists>rf. case_string inp (- 1) r = Some rf \<and> outcome h0 inp r a rf"
proof -
  let ?p = "\<lambda>c. c \<noteq> quote_char (tok r) \<and> c \<noteq> CHR 0x5c"
  have t: "top a \<in> {json_tokener_state_string, json_tokener_state_object_field}" using assms(2) by simp
  have g: "own a = []" "val a = JNull" "list_all (frame_small (str r)) (frames a)"
    using readyD(4) [OF assms(1)] assms(2) by (auto simp: good_string)
  show ?thesis
  proof (cases rule: quoted_scan [OF assms(1) t, of ?p, case_names stop end_of_input])
    case (stop k r2 s)
    obtain y where y: "sim h0 r2 (a\<lparr>token := Some y\<rparr>) A" using stop(7) by blast
    have "\<exists>A'. sim h0 (finish_with r2 (json_object_new_string (heap r2) s)) (a\<lparr>token := Some y,
        top := json_tokener_state_eatws, saved := json_tokener_state_finish, val := JString s\<rparr>) A'"
      by (rule finish_with_new [OF y]) (use g new_tree(6) [OF sim_heap_ok [OF y] stop(6)] in auto)
    then obtain A' where "sim h0 (finish_with r2 (json_object_new_string (heap r2) s)) (a\<lparr>token := Some y,
        top := json_tokener_state_eatws, saved := json_tokener_state_finish, val := JString s\<rparr>) A'" ..
    then have "outcome h0 inp r a (finish_with r2 (json_object_new_string (heap r2) s), Break)"
      by (rule outcome_finish(1) [OF _ refl])
        (use g stop(3,4) frames_small_mono [OF g(3), of "str r + k"] in auto)
    then show ?thesis using stop assms(2) by (simp add: case_string_def)
  qed (simp add: case_string_def)
qed

lemma case_object_field_out:
  assumes "ready h0 inp r a A" "top a = json_tokener_state_object_field"
  shows "\<exists>rf. case_object_field inp (- 1) r = Some rf \<and> outcome h0 inp r a rf"
proof -
  let ?p = "\<lambda>c. c \<noteq> quote_char (tok r) \<and> c \<noteq> CHR 0x5c"
  have t: "top a \<in> {json_tokener_state_string, json_tokener_state_object_field}" using assms(2) by simp
  have g: "own a = []" "\<exists>kvs. val a = JObject kvs" "list_all (frame_small (str r)) (frames a)"
    using readyD(4) [OF assms(1)] assms(2) by (auto simp: good_string)
  show ?thesis
  proof (cases rule: quoted_scan [OF assms(1) t, of ?p, case_names stop end_of_input])
    case (stop k r2 s)
    obtain y where y: "sim h0 r2 (a\<lparr>token := Some y\<rparr>) A" using stop(7) by blast
    let ?r3 = "set_states (upd_level r2 (\<lambda>l. l\<lparr>obj_field_name := Some s\<rparr>))
      json_tokener_state_eatws json_tokener_state_object_field_end"
    have "outcome h0 inp r a (?r3, Break)"
      by (rule outcome_Break [OF sim_set_states [OF sim_set_field [OF y]]])
        (use g stop(3,4,6) frames_small_mono [OF g(3), of "Suc (str r + k)"] in
          \<open>auto simp: pos_ok_def set_states_def good_blank blank_states_def gap_states_def\<close>)
    moreover have "\<not> refuse (heap r2)" using sim_heap_ok [OF y] by (simp add: heap_ok_def)
    ultimately show ?thesis using stop assms(2) by (simp add: case_object_field_def)
  qed (simp add: case_object_field_def)
qed

text \<open>Escapes.\<close>

lemma good_unescape:
  assumes "good n p a" "top a \<in> escape_states" "length y \<le> Suc n"
  shows "good (Suc n) q (a\<lparr>token := Some y, top := saved a\<rparr>)"
  using assms(1) unfolding good_escape [OF assms(2)]
  by (subst good_string) (use assms(3) content_ok_mono [of n "saved a" "val a" "field a" "Suc n"] in auto)

lemma outcome_unescape:
  assumes "ready h0 inp r a A" "top a \<in> escape_states" "sim h0 r1 (a\<lparr>token := Some y\<rparr>) A"
    and "pos_ok inp r1" "str r1 = str r" "length y \<le> Suc (str r)"
  shows "outcome h0 inp r a (set_state r1 (saved a), Break)"
proof -
  have own: "own a = []" using readyD(4) [OF assms(1)] by (simp add: good_escape [OF assms(2)])
  have "good (Suc (str r1)) (st_pos (tok r1)) (a\<lparr>token := Some y, top := saved a\<rparr>)"
    unfolding assms(5) by (rule good_unescape [OF readyD(4) [OF assms(1)] assms(2,6)])
  then show ?thesis
    using outcome_text_Break(2) [OF assms(3) own assms(4), of r "saved a" "saved a"] assms(5) by simp
qed

lemma case_string_escape_out:
  assumes "ready h0 inp r a A" "top a = json_tokener_state_string_escape"
  shows "\<exists>rf. case_string_escape r = Some rf \<and> outcome h0 inp r a rf"
proof -
  have t: "top a \<in> escape_states" by (simp add: assms(2) escape_states_def)
  have g: "own a = []" "content_ok (str r) (saved a) (val a) (field a)" "list_all (frame_small (str r)) (frames a)"
    "saved a \<in> {json_tokener_state_string, json_tokener_state_object_field}"
    using readyD(4) [OF assms(1)] by (simp_all add: good_escape [OF t])
  obtain x where x: "token a = Some x" "length x + 1 \<le> str r" using ready_text [OF assms(1), of 1] assms(2) by auto
  note s = readyD(2) [OF assms(1)]
  obtain l where l: "level r = Some l" "saved_state l = saved a" by (rule sim_level [OF s]) blast
  have "\<exists>r1. append_text r [c] = Some r1 \<and> outcome h0 inp r a (set_state r1 (saved a), Break)" for c
  proof -
    obtain q where q: "append_text r [c] = Some (upd_tok r (\<lambda>t. t\<lparr>tpb := q\<rparr>))"
      "sim h0 (upd_tok r (\<lambda>t. t\<lparr>tpb := q\<rparr>)) (a\<lparr>token := Some (x @ [c])\<rparr>) A"
      using append_text_ok [OF s x(1), of "[c]"] x(2) readyD(5) [OF assms(1)] by auto
    have "outcome h0 inp r a (set_state (upd_tok r (\<lambda>t. t\<lparr>tpb := q\<rparr>)) (saved a), Break)"
      by (rule outcome_unescape [OF assms(1) t q(2)]) (use x(2) readyD(3) [OF assms(1)] in \<open>auto simp: pos_ok_def\<close>)
    then show ?thesis using q(1) by blast
  qed
  moreover have "outcome h0 inp r a (set_state (upd_tok r (\<lambda>t. t\<lparr>ucs_char := 0, st_pos := 0\<rparr>))
      json_tokener_state_escape_unicode, Break)"
  proof (rule outcome_Break [OF sim_set_state [OF sim_upd_tok [OF s]]])
    show "good (Suc (str (set_state (upd_tok r (\<lambda>t. t\<lparr>ucs_char := 0, st_pos := 0\<rparr>)) json_tokener_state_escape_unicode)))
      (st_pos (tok (set_state (upd_tok r (\<lambda>t. t\<lparr>ucs_char := 0, st_pos := 0\<rparr>)) json_tokener_state_escape_unicode)))
      (a\<lparr>top := json_tokener_state_escape_unicode\<rparr>)"
      by (subst good_escape) (use g x content_ok_mono [OF g(2), of "Suc (str r)"] in
        \<open>auto simp: set_state_def escape_states_def\<close>)
  qed (use g readyD(3) [OF assms(1)] in \<open>auto simp: pos_ok_def set_state_def\<close>)
  ultimately show ?thesis
    using l outcome_err [OF s g(1)] unfolding case_string_escape_def by (fastforce simp: Let_def)
qed

lemma outcome_later:
  "outcome h0 inp r' a' rf \<Longrightarrow> str r < str r' \<Longrightarrow> outcome h0 inp r a rf"
  by (cases "snd rf") (auto simp: outcome_def; force)+

lemma length_utf_out: "length (utf_out u) \<le> 3"
  by (simp add: utf_out_def)

lemma case_escape_unicode_out:
  assumes "ready h0 inp r a A" "top a = json_tokener_state_escape_unicode"
  shows "\<exists>rf. case_escape_unicode inp (- 1) r = Some rf \<and> outcome h0 inp r a rf"
  using assms(1)
proof (induction "length inp - str r" arbitrary: r rule: less_induct)
  case less
  have t: "top a \<in> escape_states" by (simp add: assms(2) escape_states_def)
  note s = readyD(2) [OF less.prems] and inp = readyD(1) [OF less.prems]
  have g: "own a = []" "0 \<le> st_pos (tok r)" "st_pos (tok r) \<le> 3"
    using readyD(4) [OF less.prems] assms(2) by (simp_all add: good_escape [OF t])
  obtain x where x: "token a = Some x" "length x + (2 + nat (st_pos (tok r))) \<le> str r"
    using ready_text [OF less.prems] assms(2) by auto
  obtain l where l: "level r = Some l" "saved_state l = saved a" by (rule sim_level [OF s]) blast
  show ?case
  proof (cases "chr r \<in> set json_hex_chars \<or> chr r = NUL")
    case False
    then show ?thesis
      using outcome_err [OF s g(1)] by (simp add: case_escape_unicode.simps [of inp _ r])
  next
    case True
    let ?u = "ucs_char (tok r) + push_bit (nat ((3 - st_pos (tok r)) * 4)) (hexdigit (chr r))"
    let ?r1 = "upd_tok r (\<lambda>t. t\<lparr>ucs_char := ?u, st_pos := st_pos (tok r) + 1\<rparr>)"
    have c: "c_int (st_pos (tok r) + 1) = st_pos (tok r) + 1" using g by (intro c_int_eq) auto
    have r1: "sim h0 ?r1 a A" "pos_ok inp ?r1"
      using sim_upd_tok [OF s] readyD(3) [OF less.prems] by (simp_all add: pos_ok_def)
    have run: "case_escape_unicode inp (- 1) r = (if st_pos (tok r) = 3 then do {
          r2 \<leftarrow> append_text ?r1 (utf_out ?u);
          l \<leftarrow> level r2;
          Some (set_state r2 (saved_state l), Break)
        }
        else do {
          (r2, more) \<leftarrow> next_char inp (- 1) ?r1;
          if more then case_escape_unicode inp (- 1) r2 else Some (r2, Out)
        })"
      using True c by (simp add: case_escape_unicode.simps [of inp _ r] Let_def upd_tok_def)
    show ?thesis
    proof (cases "st_pos (tok r) = 3")
      case True
      have "length (x @ utf_out ?u) \<le> str ?r1 + 1"
        using x(2) length_utf_out [of ?u] True by simp
      then obtain q where q: "append_text ?r1 (utf_out ?u) = Some (upd_tok ?r1 (\<lambda>t. t\<lparr>tpb := q\<rparr>))"
        "sim h0 (upd_tok ?r1 (\<lambda>t. t\<lparr>tpb := q\<rparr>)) (a\<lparr>token := Some (x @ utf_out ?u)\<rparr>) A"
        using append_text_ok [OF r1(1) x(1)] readyD(5) [OF less.prems] by fastforce
      have "outcome h0 inp r a (set_state (upd_tok ?r1 (\<lambda>t. t\<lparr>tpb := q\<rparr>)) (saved a), Break)"
        by (rule outcome_unescape [OF less.prems t q(2)])
          (use x(2) True length_utf_out [of ?u] readyD(3) [OF less.prems] in \<open>auto simp: pos_ok_def\<close>)
      moreover have "level (upd_tok ?r1 (\<lambda>t. t\<lparr>tpb := q\<rparr>)) = Some l"
        using l(1) by (simp add: level_def srec_at_def split: if_splits)
      ultimately show ?thesis using run True q(1) l(2) by simp
    next
      case False
      show ?thesis
      proof (cases "chr r = NUL")
        case True
        then show ?thesis
          using run False next_char_ok [OF inp r1(2)] outcome_Out [OF sim_advance [OF r1(1)] g(1)] by simp
      next
        case nn: False
        let ?r2 = "moved inp ?r1 1"
        have "Suc (str r) < length inp"
          using nn readyD(3) [OF less.prems] c_input_nul [OF inp, of "str r"] by (auto simp: pos_ok_def)
        then have "pos_ok inp ?r2" "length inp - str ?r2 < length inp - str r"
          using pos_ok_moved [OF r1(2), of 1] by simp_all
        moreover have "good (str ?r2) (st_pos (tok ?r2)) a"
          using readyD(4) [OF less.prems] x g(2,3) False assms(2)
            content_ok_mono [of "str r" "saved a" "val a" "field a" "Suc (str r)"]
          by (auto simp: good_escape [OF t])
        ultimately have "\<exists>rf. case_escape_unicode inp (- 1) ?r2 = Some rf \<and> outcome h0 inp ?r2 a rf"
          using less.hyps [of ?r2] sim_moved [OF r1(1)] inp by (simp add: ready_def)
        then show ?thesis
          using run False nn next_char_ok [OF inp r1(2)] outcome_later [of h0 inp ?r2 a _ r a] by auto
      qed
    qed
  qed
qed

text \<open>Numbers.\<close>

lemma nul_number_char: "NUL \<notin> set json_number_chars"
  by (simp add: json_number_chars_def)

definition kept :: "'d run \<Rightarrow> 'd run \<Rightarrow> bool" where
  "kept r r' \<longleftrightarrow> heap r' = heap r \<and> obj r' = obj r \<and> stack (tok r') = stack (tok r) \<and>
     depth (tok r') = depth (tok r) \<and> tpb (tok r') = tpb (tok r) \<and> st_pos (tok r') = st_pos (tok r)"

lemma scan_number_ok:
  assumes "c_input inp" "pos_ok inp r"
  shows "\<exists>k r'. scan_number inp (- 1) r n = Some (r', n + k, True) \<and> str r' = str r + k \<and> pos_ok inp r' \<and> kept r r'"
  using assms(2)
proof (induction "length inp - str r" arbitrary: r n rule: less_induct)
  case less
  show ?case
  proof (cases "chr r \<noteq> NUL \<and> chr r \<in> set json_number_chars")
    case False
    then have "scan_number inp (- 1) r n = Some (r, n, True)" by (subst scan_number.simps) (simp only: False if_False)
    then show ?thesis using less.prems by (intro exI [of _ 0] exI [of _ r]) (simp add: kept_def)
  next
    case True
    let ?r1 = "if chr r = CHR ''.'' \<or> chr r = CHR ''e'' then upd_tok r (\<lambda>t. t\<lparr>is_double := 1\<rparr>) else r"
    let ?r2 = "moved inp ?r1 1"
    have r1: "pos_ok inp ?r1" "chr ?r1 = chr r" "str ?r1 = str r" "kept r ?r1"
      using less.prems by (simp_all add: pos_ok_def kept_def)
    have l: "Suc (str r) < length inp"
      using True less.prems c_input_nul [OF assms(1), of "str r"] by (auto simp: pos_ok_def)
    have r2: "pos_ok inp ?r2" "str ?r2 = str r + 1" "kept r ?r2"
      using pos_ok_moved [OF r1(1), of 1] r1(3,4) l by (simp_all add: kept_def)
    have "length inp - str ?r2 < length inp - str r" using l r2(2) by simp
    from less.hyps [OF this r2(1), of "Suc n"] obtain k r' where
      k: "scan_number inp (- 1) ?r2 (Suc n) = Some (r', Suc n + k, True)" "str r' = str ?r2 + k" "pos_ok inp r'" "kept ?r2 r'"
      by blast
    have "scan_number inp (- 1) r n = scan_number inp (- 1) ?r2 (Suc n)"
      using True next_char_ok [OF assms(1) r1(1)] r1(2)
      by (simp add: scan_number.simps [of inp _ r] Let_def del: moved_simps)
    then show ?thesis using k r2(2,3)
      by (intro exI [of _ "Suc k"] exI [of _ r']) (simp add: kept_def del: moved_simps)
  qed
qed

lemma case_number_out:
  assumes "ready h0 inp r a A" "top a = json_tokener_state_number"
  shows "\<exists>rf. case_number lc inp (- 1) r = Some rf \<and> outcome h0 inp r a rf"
proof -
  obtain x where x: "token a = Some x" "length x \<le> str r" using ready_text [OF assms(1), of 0] assms(2) by auto
  have g: "own a = []" "val a = JNull" "list_all (frame_small (str r)) (frames a)"
    using readyD(4) [OF assms(1)] assms(2) by (auto simp: good_string)
  obtain k r1 where k: "scan_number inp (- 1) r 0 = Some (r1, k, True)" "str r1 = str r + k" "pos_ok inp r1" "kept r r1"
    using scan_number_ok [OF readyD(1,3) [OF assms(1)], of 0] by auto
  have s1: "sim h0 r1 a A" using sim_same [OF readyD(2) [OF assms(1)]] k(2,4) by (simp add: kept_def)
  have l: "str r1 < length inp" using k(3) by (simp add: pos_ok_def)
  obtain q y where q: "append_input inp r1 (str r) k = Some (upd_tok r1 (\<lambda>t. t\<lparr>tpb := q\<rparr>))"
    "sim h0 (upd_tok r1 (\<lambda>t. t\<lparr>tpb := q\<rparr>)) (a\<lparr>token := Some y\<rparr>) A"
    using append_chunk [OF s1 readyD(1) [OF assms(1)] x, of k] k(2) l by auto
  define r2 where "r2 = (if 0 < k then upd_tok r1 (\<lambda>t. t\<lparr>tpb := q\<rparr>) else r1)"
  obtain z where z: "sim h0 r2 (a\<lparr>token := Some z\<rparr>) A"
  proof (cases "0 < k")
    case False
    have "a\<lparr>token := Some x\<rparr> = a" using x(1) by simp
    then show thesis using that [of x] s1 False by (simp add: r2_def)
  qed (use q(2) that in \<open>simp add: r2_def\<close>)
  have p: "pos_ok inp r2" "str r2 = str r + k" using k(2,3) by (simp_all add: r2_def pos_ok_def)
  have read: "read_cstr (buf (tpb (tok r2))) = Some (takeWhile (\<lambda>c. c \<noteq> NUL) z)"
    by (rule read_token [OF z]) simp
  have fin: "outcome h0 inp r a (finish_with r2 mk, Redo)"
    if mk: "\<exists>h' u. mk = (h', Some u) \<and> grown (heap r2) h' u \<and> tree h' (Some u) v {u}" for mk v
  proof -
    obtain A' where "sim h0 (finish_with r2 mk) (a\<lparr>token := Some z,
        top := json_tokener_state_eatws, saved := json_tokener_state_finish, val := v\<rparr>) A'"
      using finish_with_new [OF z _ _ mk] g by auto
    then show ?thesis
      by (rule outcome_finish(2) [OF _ refl])
        (use g p assms(2) frames_small_mono [OF g(3), of "str r + k"] in \<open>auto simp: view_rank_def\<close>)
  qed
  have err: "outcome h0 inp r a (set_err r2 e, Out)" for e by (rule outcome_err [OF z]) (simp add: g(1))
  have run: "case_number lc inp (- 1) r = (let s = takeWhile (\<lambda>c. c \<noteq> NUL) z in
      if is_double (tok r2) = 0
      then (case scan_int lc s of
              Some numi \<Rightarrow> Some (finish_with r2 (json_object_new_int (heap r2) numi), Redo)
            | None \<Rightarrow> Some (set_err r2 json_tokener_error_parse_number, Out))
      else (case scan_double lc s of
              Some numd \<Rightarrow> Some (finish_with r2 (json_object_new_double (heap r2) numd), Redo)
            | None \<Rightarrow> Some (set_err r2 json_tokener_error_parse_number, Out)))"
  proof -
    have "(if 0 < k then append_input inp r1 (str r) k else Some r1) = Some r2"
      using q(1) by (simp add: r2_def)
    then show ?thesis by (simp add: case_number_def k(1) read Let_def)
  qed
  show ?thesis
    unfolding run Let_def
    using fin [OF new_tree(4) [OF sim_heap_ok [OF z]]] fin [OF new_tree(5) [OF sim_heap_ok [OF z]]] err
    by (auto split: option.splits)
qed

section \<open>The parser\<close>

lemma switch_state_out:
  assumes "ready h0 inp r a A" "\<forall>c \<in> set inp. isspace lc c \<noteq> None"
  shows "\<exists>rf. switch_state lc inp (- 1) r = Some rf \<and> outcome h0 inp r a rf"
proof -
  obtain l where l: "level r = Some l" "state l = top a" by (rule sim_level [OF readyD(2) [OF assms(1)]]) blast
  show ?thesis
    unfolding switch_state_def l(1) bind.bind_lunit l(2)
    using assms by (cases "top a")
      (simp_all add: case_eatws_out case_start_out case_finish_out case_null_out case_comment_start_out
        case_comment_out case_comment_eol_out case_comment_end_out case_string_out case_string_escape_out
        case_escape_unicode_out case_boolean_out case_number_out case_array_out case_array_add_out
        case_array_sep_out case_object_field_start_out case_object_field_out case_object_field_end_out
        case_object_value_out case_object_value_add_out case_object_sep_out del: split_paired_Ex)
qed

text \<open>The loop ends: a redo without a move goes down in rank, everything else moves on.\<close>

lemma parse_loop_ends:
  assumes "ready h0 inp r a A" "\<forall>c \<in> set inp. isspace lc c \<noteq> None"
  shows "\<exists>r' a' A'. parse_loop lc inp (- 1) r = Some r' \<and> sim h0 r' a' A' \<and> own a' = []"
  using assms(1)
proof (induction "(length inp - str r, view_rank a)" arbitrary: r a A
    rule: wf_induct_rule [OF wf_lex_prod [OF wf_less_than wf_less_than]])
  case 1
  note inp = readyD(1) [OF 1(2)]
  have IH: "\<exists>r' a' A'. parse_loop lc inp (- 1) r1 = Some r' \<and> sim h0 r' a' A' \<and> own a' = []"
    if "ready h0 inp r1 a1 A1" "str r < str r1 \<or> str r = str r1 \<and> view_rank a1 < view_rank a" for r1 a1 A1
  proof (rule 1(1) [OF _ that(1)])
    have "str r1 < length inp" using that(1) by (simp add: ready_def pos_ok_def)
    then show "((length inp - str r1, view_rank a1), length inp - str r, view_rank a) \<in> less_than <*lex*> less_than"
      using that(2) by auto
  qed
  obtain r1 fl where sw: "switch_state lc inp (- 1) r = Some (r1, fl)" "outcome h0 inp r a (r1, fl)"
    using switch_state_out [OF 1(2) assms(2)] by (metis surj_pair)
  then obtain a1 A1 where o: "sim h0 r1 a1 A1" "case fl of Out \<Rightarrow> own a1 = []
      | Break \<Rightarrow> own a1 = [] \<and> pos_ok inp r1 \<and> str r \<le> str r1 \<and> good (Suc (str r1)) (st_pos (tok r1)) a1
      | Redo \<Rightarrow> pos_ok inp r1 \<and> good (str r1) (st_pos (tok r1)) a1 \<and>
          (str r < str r1 \<or> str r = str r1 \<and> view_rank a1 < view_rank a)"
    unfolding outcome_def fst_conv snd_conv by blast
  show ?case
  proof (cases fl)
    case Out
    then show ?thesis using sw(1) o by (auto simp: parse_loop.simps [of lc inp _ r])
  next
    case Redo
    then have "ready h0 inp r1 a1 A1" using o inp by (simp add: ready_def)
    from IH [OF this] show ?thesis using Redo sw(1) o(2) by (simp add: parse_loop.simps [of lc inp _ r])
  next
    case Break
    show ?thesis
    proof (cases "chr r1 = NUL")
      case True
      then show ?thesis using sw(1) o Break next_char_ok [OF inp, of r1] sim_advance [OF o(1)]
        by (auto simp: parse_loop.simps [of lc inp _ r])
    next
      case False
      have p: "pos_ok inp r1" using o(2) Break by simp
      then have "Suc (str r1) < length inp"
        using False c_input_nul [OF inp, of "str r1"] by (auto simp: pos_ok_def)
      then have "ready h0 inp (moved inp r1 1) a1 A1"
        using o Break inp pos_ok_moved [OF p, of 1] sim_moved [OF o(1), of inp 1] by (simp add: ready_def)
      from IH [OF this] show ?thesis
        using False sw(1) o(2) Break next_char_ok [OF inp p]
        by (simp add: parse_loop.simps [of lc inp _ r])
    qed
  qed
qed

section \<open>The end of a parse\<close>

lemma reset_level_ok:
  assumes "d < length (stack t)" "json_object_put h (current (stack t ! d)) = Some h1"
  shows "json_tokener_reset_level h t d = Some (h1, t\<lparr>stack := (stack t)[d := \<lparr>state = json_tokener_state_eatws,
    saved_state = json_tokener_state_start, current = None, obj_field_name = None\<rparr>]\<rparr>)"
  using assms by (simp add: json_tokener_reset_level_def srec_at_def)

lemma reset_levels_frees:
  assumes "d < length (stack t)" "trees h (map current (take (Suc d) (stack t))) vs A"
  shows "\<exists>t'. reset_levels h t d = Some (release h A, t')"
  using assms
proof (induction d arbitrary: h t vs A)
  case 0
  then have "trees h [current (stack t ! 0)] vs A" by (simp add: take_Suc_conv_app_nth)
  then obtain v where "tree h (current (stack t ! 0)) v A" by (auto elim: trees.cases)
  from put_tree(1) [OF this] 0(1) show ?case by (simp add: reset_level_ok)
next
  case (Suc d)
  have len: "length (take (Suc d) (stack t)) = Suc d" using Suc.prems(1) by simp
  have tr: "trees h (map current (take (Suc d) (stack t)) @ [current (stack t ! Suc d)]) vs A"
    using Suc.prems by (simp add: take_Suc_conv_app_nth [of "Suc d"])
  have l: "length vs = Suc (length (map current (take (Suc d) (stack t))))"
    using trees_length [OF tr] by simp
  then obtain ws w where vs: "vs = ws @ [w]" "length ws = length (map current (take (Suc d) (stack t)))"
    by (cases vs rule: rev_cases) auto
  obtain B C where BC: "A = B \<union> C" "B \<inter> C = {}" "trees h (map current (take (Suc d) (stack t))) ws B"
    "tree h (current (stack t ! Suc d)) w C"
    using tr vs by (auto simp: trees_snoc)
  let ?t = "t\<lparr>stack := (stack t)[Suc d := \<lparr>state = json_tokener_state_eatws,
    saved_state = json_tokener_state_start, current = None, obj_field_name = None\<rparr>]\<rparr>"
  have "trees (release h C) (map current (take (Suc d) (stack t))) ws B"
    by (rule tree_frame(2) [OF BC(3)]) (use BC(2) in auto)
  then have "trees (release h C) (map current (take (Suc d) (stack ?t))) ws B" by simp
  from Suc.IH [OF _ this] obtain t' where "reset_levels (release h C) ?t d = Some (release (release h C) B, t')"
    using Suc.prems(1) by auto
  then show ?case
    using reset_level_ok [OF Suc.prems(1) put_tree(1) [OF BC(4)]] BC(1)
    by (simp add: release_release Un_commute)
qed

lemma parse_out_free:
  fixes r :: "'d run"
  assumes "sim h0 r a A" "own a = []"
  shows "\<exists>h1 t p h2. parse_out r = Some (h1, t, p) \<and> json_tokener_free h1 t = Some h2 \<and>
    (if err t = json_tokener_success
     then \<exists>v B. tree h2 p v B \<and> (\<forall>x. obj_at h0 x = (if x \<in> B then None else obj_at h2 x))
     else \<forall>x. obj_at h2 x = obj_at h0 x)"
proof -
  define e where "e = (if chr r = NUL \<and> top a \<noteq> json_tokener_state_finish \<and> saved a \<noteq> json_tokener_state_finish
      then json_tokener_error_parse_eof else err (tok r))"
  define t where "t = (if chr r = NUL \<and> top a \<noteq> json_tokener_state_finish \<and> saved a \<noteq> json_tokener_state_finish
      then (tok r)\<lparr>err := json_tokener_error_parse_eof\<rparr> else tok r)"
  have same: "stack t = stack (tok r)" "depth t = depth (tok r)" by (simp_all add: t_def)
  have err: "err t = e" by (simp add: t_def e_def)
  have st: "length (stack t) = 32" "depth t < 32" "depth t < length (stack t)"
    using assms(1) by (auto simp: sim_def stack_sim_def JSON_TOKENER_MAX_DEPTH_def same)
  obtain l where l: "level r = Some l" "state l = top a" "saved_state l = saved a"
    "current l = current (stack t ! depth t)"
    by (rule sim_level [OF assms(1)]) (simp add: same)
  have curr: "map current (take (Suc (depth t)) (stack t)) = below r @ [current (stack t ! depth t)]"
    using st by (simp add: take_Suc_conv_app_nth same)
  have hs: "heap_sim h0 (heap r) (below r @ [current (stack t ! depth t)]) (map fval (frames a) @ [val a]) A"
    using sim_heap [OF assms(1)] assms(2) by (simp add: currents_def own_ptrs_def same)
  have run: "parse_out r = (if e = json_tokener_success
      then do { (h, p) \<leftarrow> json_object_get (heap r) (current l); Some (h, t, p) }
      else Some (heap r, t, None))"
    using l by (simp add: parse_out_def Let_def e_def t_def set_err_def upd_tok_def)
  have free: "json_tokener_free h t = Some h'" if "reset_levels h t (depth t) = Some (h', t')" for h h' :: "'d heap" and t'
    using that by (simp add: json_tokener_free_def json_tokener_reset_def)
  show ?thesis
  proof (cases "e = json_tokener_success")
    case False
    obtain t' where "reset_levels (heap r) t (depth t) = Some (release (heap r) A, t')"
      using reset_levels_frees [OF st(3), of "heap r", unfolded curr] hs unfolding heap_sim_def by blast
    then have "json_tokener_free (heap r) t = Some (release (heap r) A)" by (rule free)
    moreover have "\<forall>x. obj_at (release (heap r) A) x = obj_at h0 x" using hs by (simp add: heap_sim_def)
    ultimately show ?thesis using run False err by simp
  next
    case True
    obtain B C where BC: "A = B \<union> C" "B \<inter> C = {}" "trees (heap r) (below r) (map fval (frames a)) B"
      "tree (heap r) (current (stack t ! depth t)) (val a) C" "\<And>x. obj_at h0 x = (if x \<in> A then None else obj_at (heap r) x)"
      by (rule heap_simE [OF hs sim_below_length [OF assms(1)]]) (rule that)
    note top = BC(4) [folded l(4)]
    obtain h1 where h1: "json_object_get (heap r) (current l) = Some (h1, current l)"
      "json_object_put h1 (current l) = Some (heap r)"
      using get_put_inverse [OF top] by blast
    note reset = reset_level_ok [OF st(3) h1(2) [unfolded l(4)]]
    have "\<exists>t'. reset_levels h1 t (depth t) = Some (release (heap r) B, t')"
    proof (cases "depth t")
      case 0
      then have "trees (heap r) [] (map fval (frames a)) B" using BC(3) same by simp
      then have "B = {}" by cases simp
      then show ?thesis using reset 0 by simp
    next
      case (Suc i)
      let ?t = "t\<lparr>stack := (stack t)[depth t := \<lparr>state = json_tokener_state_eatws,
        saved_state = json_tokener_state_start, current = None, obj_field_name = None\<rparr>]\<rparr>"
      have "trees (heap r) (map current (take (Suc i) (stack ?t))) (map fval (frames a)) B"
        using BC(3) Suc same by simp
      from reset_levels_frees [OF _ this] show ?thesis using reset Suc st by auto
    qed
    then have "json_tokener_free h1 t = Some (release (heap r) B)" using free by blast
    moreover have "tree (release (heap r) B) (current l) (val a) C"
      by (rule tree_frame(1) [OF top]) (use BC(2) in auto)
    moreover have "\<forall>x. obj_at h0 x = (if x \<in> C then None else obj_at (release (heap r) B) x)"
      using BC(1,5) by auto
    ultimately show ?thesis using run True h1(1) err by auto
  qed
qed

lemma json_tokener_new_ok:
  assumes "heap_ok h"
  shows "\<exists>t. json_tokener_new h = Some (h, Some t) \<and> err t = json_tokener_success \<and>
    sim h \<lparr>heap = h, tok = t\<lparr>char_offset := 0\<rparr>, obj = None, chr = c, str = 0\<rparr>
      \<lparr>frames = [], top = json_tokener_state_eatws, saved = json_tokener_state_start, field = None,
        val = JNull, own = [], token = None\<rparr> {}"
proof -
  have n: "\<not> refuse h" using assms by (simp add: heap_ok_def)
  obtain pb where pb: "printbuf_new True True = Some pb" by (simp add: printbuf_new_def)
  have wf: "pb_wf pb" "bpos pb = 0"
    using printbuf_new_wf [OF pb] pb by (auto simp: printbuf_new_def)
  then show ?thesis using assms
    by (auto simp: json_tokener_new_def n pb json_tokener_reset_def json_tokener_reset_level_def srec_at_def
        JSON_TOKENER_MAX_DEPTH_def sim_def stack_sim_def heap_sim_def currents_def own_ptrs_def text_sim_def
        tree_JNull intro!: tree_trees.intros)
qed

text \<open>When no tokener can be allocated, the null pointer is dereferenced.\<close>

lemma json_tokener_parse_refused: "refuse h \<Longrightarrow> json_tokener_parse lc h inp = None"
  by (simp add: json_tokener_parse_def json_tokener_new_def)

text \<open>A first byte above 127 goes to \<^verbatim>\<open>isspace\<close> as a negative number.\<close>

lemma json_tokener_parse_high_byte:
  assumes "heap_ok h" "isspace lc c = None"
  shows "json_tokener_parse lc h (c # s) = None"
proof -
  let ?r = "\<lambda>t. \<lparr>heap = h, tok = t\<lparr>char_offset := 0\<rparr>, obj = None, chr = c, str = 0\<rparr>"
  let ?a = "\<lparr>frames = [], top = json_tokener_state_eatws, saved = json_tokener_state_start, field = None,
        val = JNull, own = [], token = None\<rparr>"
  obtain t where t: "json_tokener_new h = Some (h, Some t)" "err t = json_tokener_success" "sim h (?r t) ?a {}"
    using json_tokener_new_ok [OF assms(1), of c] by blast
  obtain l where "level (?r t) = Some l" "state l = json_tokener_state_eatws"
    using sim_level [OF t(3)] by auto
  then have "parse_loop lc (c # s) (- 1) (?r t) = None"
    using assms(2) by (simp add: parse_loop.simps [of lc _ _ "?r t"] switch_state_def case_eatws_def skip_white.simps [of lc _ _ "?r t"])
  moreover have "t\<lparr>char_offset := 0, err := json_tokener_success\<rparr> = t\<lparr>char_offset := 0\<rparr>" using t(2) by simp
  ultimately have "json_tokener_parse_ex lc h t (c # s) (- 1) = None"
    by (simp add: json_tokener_parse_ex_def POP_CHAR_def Let_def)
  then show ?thesis using t(1) by (simp add: json_tokener_parse_def)
qed

text \<open>
  C1: Parsing a C string of at most 2^27 bytes, terminator included, however malformed its text, with
  an allocator that refuses nothing, ends, stays inside the input, the token buffer and the
  stack of levels, and never touches a freed object, provided that \<^verbatim>\<open>isspace\<close> is defined on the bytes of the
  string: it always is for ASCII text, while a byte above 127 reaches it as a negative
  number, which the standard leaves undefined (\<open>json_tokener_parse_high_byte\<close>).  Without memory for the
  tokener the parser dereferences the null pointer (\<open>json_tokener_parse_refused\<close>).  A parse that succeeds returns one
  freshly allocated structure that the caller owns, and nothing else is left behind; a parse that fails
  leaves no object behind at all.
\<close>

theorem json_tokener_parse_safe:
  assumes "c_input inp" "heap_ok h" "\<forall>c \<in> set inp. uchar c < 128 \<or> isspace_high lc c \<noteq> None"
  shows "\<exists>h' res. json_tokener_parse lc h inp = Some (h', res) \<and>
    (case res of
       Parsed p \<Rightarrow> \<exists>v A. tree h' p v A \<and> (\<forall>x. obj_at h x = (if x \<in> A then None else obj_at h' x))
     | Failed e \<Rightarrow> e \<noteq> json_tokener_success \<and> (\<forall>x. obj_at h' x = obj_at h x))"
proof -
  let ?a = "\<lparr>frames = [], top = json_tokener_state_eatws, saved = json_tokener_state_start, field = None,
        val = JNull, own = [], token = None\<rparr>"
  let ?r = "\<lambda>t. \<lparr>heap = h, tok = t\<lparr>char_offset := 0\<rparr>, obj = None, chr = hd inp, str = 0\<rparr>"
  obtain t where t: "json_tokener_new h = Some (h, Some t)" "err t = json_tokener_success" "sim h (?r t) ?a {}"
    using json_tokener_new_ok [OF assms(2), of "hd inp"] by blast
  have inp: "inp \<noteq> []" using assms(1) by (simp add: c_input_def)
  have white: "\<forall>c \<in> set inp. isspace lc c \<noteq> None" using assms(3) by (auto simp: isspace_def)
  have "good 0 (st_pos t) ?a" by (simp add: good_blank blank_states_def gap_states_def)
  then have "ready h inp (?r t) ?a {}"
    using assms(1) t(2,3) inp by (simp add: ready_def pos_ok_def hd_conv_nth)
  then obtain r' a' A' where r': "parse_loop lc inp (- 1) (?r t) = Some r'" "sim h r' a' A'" "own a' = []"
    using parse_loop_ends [OF _ white] by blast
  obtain h1 t1 p h2 where o: "parse_out r' = Some (h1, t1, p)" "json_tokener_free h1 t1 = Some h2"
    "if err t1 = json_tokener_success
     then \<exists>v B. tree h2 p v B \<and> (\<forall>x. obj_at h x = (if x \<in> B then None else obj_at h2 x))
     else \<forall>x. obj_at h2 x = obj_at h x"
    using parse_out_free [OF r'(2,3)] by blast
  have t0: "t\<lparr>char_offset := 0, err := json_tokener_success\<rparr> = t\<lparr>char_offset := 0\<rparr>" using t(2) by simp
  have "json_tokener_parse_ex lc h t inp (- 1) = Some (h1, t1, p)"
    using r'(1) o(1) inp unfolding json_tokener_parse_ex_def t0 Let_def
    by (simp add: POP_CHAR_def hd_conv_nth)
  then have "json_tokener_parse lc h inp =
      Some (h2, if err t1 \<noteq> json_tokener_success then Failed (err t1) else Parsed p)"
    using t(1) o(2) by (simp add: json_tokener_parse_def)
  then show ?thesis using o(3) by auto
qed

theorem json_tokener_parse_safe_witness:
  "\<exists>h' res. json_tokener_parse sample_libc empty_heap (''{[truX'' @ [NUL]) = Some (h', res)"
  using json_tokener_parse_safe [of "''{[truX'' @ [NUL]" empty_heap sample_libc] empty_heap_ok
  by (auto simp: c_input_def uchar_def)

end
