(* ===== verification/JsonFile.thy ===== *)
theory JsonFile
  imports JsonTokener "HOL-Library.Sublist"
begin

text \<open>
  Files (\<^verbatim>\<open>json-c/json_util.c\<close>): a file is read into a print buffer, piece by piece, and then parsed; an
  object is printed and its text written, as much at a time as the system takes.  What \<^verbatim>\<open>open\<close>,
  \<^verbatim>\<open>read\<close> and \<^verbatim>\<open>write\<close> answer is a parameter.  The messages are compiled out.
\<close>

section \<open>Reading\<close>

datatype read_result = Read "char list" | Read_error

text \<open>
  The answers of \<^verbatim>\<open>read\<close> up to the end of the file, each with the outcome of the \<^verbatim>\<open>realloc\<close> for it; the
  value of \<^verbatim>\<open>printbuf_memappend\<close> is not looked at.
\<close>

fun read_loop :: "printbuf \<Rightarrow> (read_result \<times> bool) list \<Rightarrow> (printbuf \<times> int) option" where
  "read_loop pb [] = Some (pb, 0)"
| "read_loop pb ((Read_error, ok) # rs) = Some (pb, - 1)"
| "read_loop pb ((Read c, ok) # rs) =
     (if c = [] then Some (pb, 0)
      else do { (pb1, r) \<leftarrow> printbuf_memappend ok pb c (int (length c)); read_loop pb1 rs })"

text \<open>The pointer \<open>-1\<close>, or what the parser gives.\<close>

datatype file_result = File_error | File_parsed parse_result

definition json_object_from_file ::
  "'d libc \<Rightarrow> 'd heap \<Rightarrow> bool \<Rightarrow> (read_result \<times> bool) list \<Rightarrow> ('d heap \<times> file_result) option" where
  "json_object_from_file lc h opened reads =
     (if \<not> opened then Some (h, File_error)
      else case printbuf_new (\<not> refuse h) (\<not> refuse h) of
             None \<Rightarrow> Some (h, File_error)
           | Some pb \<Rightarrow> do {
               (pb1, ret) \<leftarrow> read_loop pb reads;
               if ret < 0 then Some (h, File_error)
               else do {
                 s \<leftarrow> read_cstr (buf pb1);
                 (h1, obj) \<leftarrow> json_tokener_parse lc h (s @ [NUL]);
                 Some (h1, File_parsed obj)
               }
             })"

section \<open>Writing\<close>

text \<open>
  The answers of \<^verbatim>\<open>write\<close>: the number of bytes taken, or a negative number.  The result is what the file
  holds and the value returned; \<open>None\<close> means that \<^verbatim>\<open>write\<close> is called once more and does not return.
\<close>

fun write_loop :: "char list \<Rightarrow> int \<Rightarrow> int \<Rightarrow> char list \<Rightarrow> int list \<Rightarrow> (char list \<times> int) option" where
  "write_loop s wsize wpos out rets =
     (if wpos < wsize
      then case rets of
             [] \<Rightarrow> None
           | ret # rets \<Rightarrow>
               if ret < 0 then Some (out, - 1)
               else write_loop s wsize (c_uint (wpos + ret)) (out @ take (nat ret) (drop (nat wpos) s)) rets
      else Some (out, 0))"

declare write_loop.simps [simp del]

definition json_object_to_file ::
  "'d libc \<Rightarrow> 'd heap \<Rightarrow> bool \<Rightarrow> ptr \<Rightarrow> int list \<Rightarrow> ('d heap \<times> char list \<times> int) option" where
  "json_object_to_file lc h opened p rets =
     (if p = None then Some (h, [], - 1)
      else if \<not> opened then Some (h, [], - 1)
      else do {
        (h1, s) \<leftarrow> json_object_to_json_string lc h p;
        case s of
          None \<Rightarrow> Some (h1, [], - 1)
        | Some json_str \<Rightarrow> do {
            (out, r) \<leftarrow> write_loop json_str (c_uint (int (length json_str))) 0 [] rets;
            Some (h1, out, r)
          }
      })"

section \<open>What is read and written\<close>

lemma read_loop_text:
  assumes "pb_room pb (length (concat cs))" "[] \<notin> set cs" "cs = [] \<longrightarrow> pb_terminated pb"
  shows "\<exists>q. read_loop pb (map (\<lambda>c. (Read c, True)) cs) = Some (q, 0) \<and> pb_wf q \<and> pb_terminated q \<and> pb_text q = pb_text pb @ concat cs"
  using assms
proof (induction cs arbitrary: pb)
  case Nil
  then show ?case by (auto intro: pb_room_wf)
next
  case (Cons c cs)
  have "pb_room pb (length c)" using Cons.prems(1) by (rule pb_room_mono) simp
  from memappend_ok [OF this] obtain q where
    q: "printbuf_memappend True pb c (int (length c)) = Some (q, int (length c))" "pb_wf q" "pb_terminated q"
      "pb_text q = pb_text pb @ c" "bpos q = bpos pb + int (length c)" by blast
  have "pb_room q (length (concat cs))" using Cons.prems(1) q(2,5) by (simp add: pb_room_def)
  then show ?case using Cons.IH [of q] Cons.prems(2) q by auto
qed

text \<open>
  C39: A file that can be read is parsed as its content up to the first NUL byte, in whatever pieces it
  is read; an error of \<^verbatim>\<open>read\<close> gives the error pointer.  An empty file is not handled: nothing is
  appended to the buffer, and the parser reads memory that was never written.
\<close>

theorem json_object_from_file_parses:
  assumes "\<not> refuse h" "[] \<notin> set cs" "int (length (concat cs)) + 8 \<le> INT_MAX"
  shows "json_object_from_file lc h True (map (\<lambda>c. (Read c, True)) cs) =
      (if cs = [] then None
       else map_option (\<lambda>(h1, r). (h1, File_parsed r)) (json_tokener_parse lc h (takeWhile (\<lambda>c. c \<noteq> NUL) (concat cs) @ [NUL]))) \<and>
    json_object_from_file lc h True (map (\<lambda>c. (Read c, True)) cs @ [(Read_error, ok)]) = Some (h, File_error) \<and>
    json_object_from_file lc h False reads = Some (h, File_error)"
proof -
  obtain pb where pb: "printbuf_new True True = Some pb" "buf pb = replicate 32 None" by (simp add: printbuf_new_def)
  have new: "pb_text pb = []" "pb_room pb (length (concat cs))"
    using printbuf_new_wf [OF pb(1)] assms(3) by (auto intro: pb_room_mono)
  have err: "read_loop p (map (\<lambda>c. (Read c, True)) cs @ [(Read_error, ok)]) =
      map_option (\<lambda>(q, _). (q, - 1)) (read_loop p (map (\<lambda>c. (Read c, True)) cs))" for p
    using assms(2)
  proof (induction cs arbitrary: p)
    case (Cons c cs)
    then show ?case by (cases "printbuf_memappend True p c (int (length c))") auto
  qed simp
  show ?thesis
  proof (cases "cs = []")
    case True
    then show ?thesis using pb assms(1) by (simp add: json_object_from_file_def numeral_eq_Suc)
  next
    case False
    from read_loop_text [OF new(2) assms(2)] False obtain q where
      q: "read_loop pb (map (\<lambda>c. (Read c, True)) cs) = Some (q, 0)" "pb_wf q" "pb_terminated q" "pb_text q = concat cs"
      using new(1) by auto
    have "read_cstr (buf q) = Some (takeWhile (\<lambda>c. c \<noteq> NUL) (concat cs))" using read_cstr_terminated [OF q(2,3)] q(4) by simp
    then show ?thesis
      using False pb(1) q(1) assms(1) err
      by (cases "json_tokener_parse lc h (takeWhile (\<lambda>c. c \<noteq> NUL) (concat cs) @ [NUL])") (auto simp: json_object_from_file_def)
  qed
qed

theorem json_object_from_file_parses_witness:
  "json_object_from_file sample_libc empty_heap True [(Read ''[ 5'', True), (Read '' ]'', True)] =
      map_option (\<lambda>(h1, r). (h1, File_parsed r)) (json_tokener_parse sample_libc empty_heap (''[ 5 ]'' @ [NUL])) \<and>
    json_object_from_file sample_libc empty_heap True [(Read ''[ 5'', True), (Read '' ]'', True), (Read_error, True)] = Some (empty_heap, File_error)"
proof -
  have n: "\<not> refuse empty_heap" by (simp add: empty_heap_def)
  show ?thesis
    using json_object_from_file_parses [OF n, of "[''[ 5'', '' ]'']" sample_libc True] by simp
qed

lemma write_loop_prefix:
  assumes "write_loop s (int (length s)) wpos out rets = Some (out', r)" "out = take (nat wpos) s" "0 \<le> wpos"
    "\<forall>ret \<in> set rets. ret \<le> int (length s)" "length s < 2 ^ 31"
  shows "prefix out' s \<and> (r = 0 \<longrightarrow> out' = s) \<and> (r = 0 \<or> r = - 1)"
  using assms
proof (induction rets arbitrary: wpos out)
  case Nil
  then show ?case by (auto simp: write_loop.simps [of _ _ _ _ "[]"] take_is_prefix split: if_splits)
next
  case (Cons ret rets)
  show ?case
  proof (cases "wpos < int (length s) \<and> 0 \<le> ret")
    case True
    then have c: "c_uint (wpos + ret) = wpos + ret" using Cons.prems(3-5) by (simp add: c_uint_def)
    have "take (nat (wpos + ret)) s = out @ take (nat ret) (drop (nat wpos) s)"
      using Cons.prems(2,3) True by (simp add: nat_add_distrib take_add)
    then show ?thesis
      using Cons.IH [of "wpos + ret" "out @ take (nat ret) (drop (nat wpos) s)"] Cons.prems True c
      by (simp add: write_loop.simps [of _ _ wpos])
  next
    case False
    then show ?thesis using Cons.prems by (auto simp: write_loop.simps [of _ _ wpos] take_is_prefix split: if_splits)
  qed
qed

text \<open>The system takes all of the text in some number of pieces.\<close>

fun takes_all :: "int \<Rightarrow> int list \<Rightarrow> bool" where
  "takes_all n [] = (n \<le> 0)"
| "takes_all n (ret # rets) = (n \<le> 0 \<or> 0 \<le> ret \<and> ret \<le> n \<and> takes_all (n - ret) rets)"

lemma write_loop_all:
  assumes "takes_all (int (length s) - wpos) rets" "0 \<le> wpos" "length s < 2 ^ 31"
  shows "\<exists>out'. write_loop s (int (length s)) wpos out rets = Some (out', 0)"
  using assms
proof (induction rets arbitrary: wpos out)
  case (Cons ret rets)
  show ?case
  proof (cases "wpos < int (length s)")
    case True
    then have "c_uint (wpos + ret) = wpos + ret" using Cons.prems by (simp add: c_uint_def)
    then show ?thesis using Cons.IH [of "wpos + ret"] Cons.prems True
      by (simp add: write_loop.simps [of _ _ wpos] diff_diff_add)
  qed (simp add: write_loop.simps [of _ _ wpos])
qed (simp add: write_loop.simps)

text \<open>
  C40: An object is written to a file as its text: whatever \<^verbatim>\<open>write\<close> answers, the file holds a prefix of
  the text and the value returned is 0 only if it is all of it, and all of it is written when the
  system takes it in any number of pieces.
\<close>

theorem json_object_to_file_writes:
  assumes "tree h (Some a) v A" "heap_ok h" "printable lc" "int (length (print_json lc v)) + 8 \<le> INT_MAX"
    "\<forall>ret \<in> set rets. ret \<le> int (length (print_json lc v))"
  shows "(\<forall>h1 out r. json_object_to_file lc h True (Some a) rets = Some (h1, out, r) \<longrightarrow>
      prefix out (print_json lc v) \<and> (r = 0 \<longrightarrow> out = print_json lc v) \<and> (r = 0 \<or> r = - 1)) \<and>
    (takes_all (int (length (print_json lc v))) rets \<longrightarrow>
      (\<exists>h1. json_object_to_file lc h True (Some a) rets = Some (h1, print_json lc v, 0)))"
proof -
  let ?s = "print_json lc v"
  obtain j where j: "obj_at h a = Some j" "sole j" using tree_root [OF assms(1)] by blast
  obtain pb where pb: "json_object_to_json_string lc h (Some a) = Some (set_obj h a (j\<lparr>pb_of := Some pb\<rparr>), Some ?s)"
    using to_json_string_rep [OF tree_rep(1) [OF assms(1)] j(1) _ _ assms(3,4)] j(2) assms(2) by (auto simp: heap_ok_def)
  have l: "length ?s < 2 ^ 31" "c_uint (int (length ?s)) = int (length ?s)" using assms(4) by (simp_all add: c_uint_def)
  have w: "prefix out ?s \<and> (r = 0 \<longrightarrow> out = ?s) \<and> (r = 0 \<or> r = - 1)"
    if "write_loop ?s (int (length ?s)) 0 [] rets = Some (out, r)" for out r
    by (rule write_loop_prefix [OF that _ _ assms(5) l(1)]) simp_all
  moreover have "\<exists>out. write_loop ?s (int (length ?s)) 0 [] rets = Some (out, 0)" if "takes_all (int (length ?s)) rets"
    using write_loop_all [of ?s 0 rets "[]"] that l(1) by simp
  ultimately show ?thesis using l(2) by (fastforce simp: json_object_to_file_def pb)
qed

theorem json_object_to_file_writes_witness:
  "\<exists>h a h1. json_object_to_file sample_libc h True (Some a) [2, 3] = Some (h1, ''[ 5 ]'', 0)"
proof -
  obtain h :: "int heap" and a b where t: "heap_ok h" "tree h (Some a) (JArray [JInt 5]) {a, b}"
    using sample_array by blast
  have p: "print_json sample_libc (JArray [JInt 5]) = ''[ 5 ]''" by code_simp
  show ?thesis
    using json_object_to_file_writes [OF t(2,1) sample_printable, of "[2, 3]"] unfolding p by auto
qed

end
