(* ===== verification/LuaOpcodes.thy ===== *)
theory LuaOpcodes
  imports CPrelude
begin

unbundle bit_operations_syntax

text \<open>
  The instruction format of the Lua virtual machine (\<^verbatim>\<open>lualib/lopcodes.h\<close>, \<^verbatim>\<open>lopcodes.c\<close>): a
  32-bit word with an opcode and the fields A, B, C or A, Bx; the macros that read and write the
  fields; and the table of the properties of each opcode.
\<close>

section \<open>Fields\<close>

type_synonym Instruction = "32 word"

definition SIZE_C :: nat where "SIZE_C = 9"
definition SIZE_B :: nat where "SIZE_B = 9"
definition SIZE_Bx :: nat where "SIZE_Bx = SIZE_C + SIZE_B"
definition SIZE_A :: nat where "SIZE_A = 8"
definition SIZE_OP :: nat where "SIZE_OP = 6"

definition POS_OP :: nat where "POS_OP = 0"
definition POS_A :: nat where "POS_A = POS_OP + SIZE_OP"
definition POS_C :: nat where "POS_C = POS_A + SIZE_A"
definition POS_B :: nat where "POS_B = POS_C + SIZE_C"
definition POS_Bx :: nat where "POS_Bx = POS_C"

lemmas instr_layout = SIZE_C_def SIZE_B_def SIZE_Bx_def SIZE_A_def SIZE_OP_def
  POS_OP_def POS_A_def POS_C_def POS_B_def POS_Bx_def

definition MAXARG_Bx :: int where "MAXARG_Bx = 2 ^ SIZE_Bx - 1"
definition MAXARG_sBx :: int where "MAXARG_sBx = MAXARG_Bx div 2"
definition MAXARG_A :: int where "MAXARG_A = 2 ^ SIZE_A - 1"
definition MAXARG_B :: int where "MAXARG_B = 2 ^ SIZE_B - 1"
definition MAXARG_C :: int where "MAXARG_C = 2 ^ SIZE_C - 1"

lemmas instr_limits = MAXARG_Bx_def MAXARG_sBx_def MAXARG_A_def MAXARG_B_def MAXARG_C_def

definition MASK1 :: "nat \<Rightarrow> nat \<Rightarrow> Instruction" where
  "MASK1 n p = push_bit p (NOT (push_bit n (NOT 0)))"

definition MASK0 :: "nat \<Rightarrow> nat \<Rightarrow> Instruction" where
  "MASK0 n p = NOT (MASK1 n p)"

text \<open>The shape the getters and the setters share.\<close>

definition get_field :: "nat \<Rightarrow> nat \<Rightarrow> Instruction \<Rightarrow> Instruction" where
  "get_field n p i = drop_bit p i AND MASK1 n 0"

definition set_field :: "nat \<Rightarrow> nat \<Rightarrow> Instruction \<Rightarrow> Instruction \<Rightarrow> Instruction" where
  "set_field n p u i = (i AND MASK0 n p) OR (push_bit p u AND MASK1 n p)"

definition GETARG_A :: "Instruction \<Rightarrow> int" where
  "GETARG_A i = uint (get_field SIZE_A POS_A i)"

definition SETARG_A :: "Instruction \<Rightarrow> int \<Rightarrow> Instruction" where
  "SETARG_A i u = set_field SIZE_A POS_A (word_of_int u) i"

definition GETARG_B :: "Instruction \<Rightarrow> int" where
  "GETARG_B i = uint (get_field SIZE_B POS_B i)"

definition SETARG_B :: "Instruction \<Rightarrow> int \<Rightarrow> Instruction" where
  "SETARG_B i u = set_field SIZE_B POS_B (word_of_int u) i"

definition GETARG_C :: "Instruction \<Rightarrow> int" where
  "GETARG_C i = uint (get_field SIZE_C POS_C i)"

definition SETARG_C :: "Instruction \<Rightarrow> int \<Rightarrow> Instruction" where
  "SETARG_C i u = set_field SIZE_C POS_C (word_of_int u) i"

definition GETARG_Bx :: "Instruction \<Rightarrow> int" where
  "GETARG_Bx i = uint (get_field SIZE_Bx POS_Bx i)"

definition SETARG_Bx :: "Instruction \<Rightarrow> int \<Rightarrow> Instruction" where
  "SETARG_Bx i u = set_field SIZE_Bx POS_Bx (word_of_int u) i"

definition GETARG_sBx :: "Instruction \<Rightarrow> int" where
  "GETARG_sBx i = GETARG_Bx i - MAXARG_sBx"

definition SETARG_sBx :: "Instruction \<Rightarrow> int \<Rightarrow> Instruction" where
  "SETARG_sBx i b = SETARG_Bx i (b + MAXARG_sBx)"

section \<open>Opcodes\<close>

datatype OpMode = iABC | iABx | iAsBx

datatype OpCode =
    OP_MOVE | OP_LOADK | OP_LOADBOOL | OP_LOADNIL | OP_GETUPVAL
  | OP_GETGLOBAL | OP_GETTABLE | OP_SETGLOBAL | OP_SETUPVAL | OP_SETTABLE
  | OP_NEWTABLE | OP_SELF | OP_ADD | OP_SUB | OP_MUL | OP_DIV | OP_MOD | OP_POW | OP_UNM | OP_NOT
  | OP_LEN | OP_CONCAT | OP_JMP | OP_EQ | OP_LT | OP_LE | OP_TEST | OP_TESTSET | OP_CALL
  | OP_TAILCALL | OP_RETURN | OP_FORLOOP | OP_FORPREP | OP_TFORLOOP | OP_SETLIST | OP_CLOSE
  | OP_CLOSURE | OP_VARARG

text \<open>The enumeration in its order: the number of an opcode is its place.\<close>

definition OpCodes :: "OpCode list" where
  "OpCodes = [OP_MOVE, OP_LOADK, OP_LOADBOOL, OP_LOADNIL, OP_GETUPVAL,
     OP_GETGLOBAL, OP_GETTABLE, OP_SETGLOBAL, OP_SETUPVAL, OP_SETTABLE,
     OP_NEWTABLE, OP_SELF, OP_ADD, OP_SUB, OP_MUL, OP_DIV, OP_MOD, OP_POW, OP_UNM, OP_NOT,
     OP_LEN, OP_CONCAT, OP_JMP, OP_EQ, OP_LT, OP_LE, OP_TEST, OP_TESTSET, OP_CALL,
     OP_TAILCALL, OP_RETURN, OP_FORLOOP, OP_FORPREP, OP_TFORLOOP, OP_SETLIST, OP_CLOSE,
     OP_CLOSURE, OP_VARARG]"

primrec place :: "'a \<Rightarrow> 'a list \<Rightarrow> nat" where
  "place x [] = 0"
| "place x (y # ys) = (if x = y then 0 else Suc (place x ys))"

definition op_num :: "OpCode \<Rightarrow> nat" where
  "op_num q = place q OpCodes"

definition NUM_OPCODES :: nat where
  "NUM_OPCODES = Suc (op_num OP_VARARG)"

text \<open>The cast to the enumeration: six bits can hold numbers that are no opcode.\<close>

definition op_of :: "nat \<Rightarrow> OpCode option" where
  "op_of n = (if n < NUM_OPCODES then Some (OpCodes ! n) else None)"

definition GET_OPCODE :: "Instruction \<Rightarrow> OpCode option" where
  "GET_OPCODE i = op_of (unat (get_field SIZE_OP POS_OP i))"

definition SET_OPCODE :: "Instruction \<Rightarrow> OpCode \<Rightarrow> Instruction" where
  "SET_OPCODE i q = set_field SIZE_OP POS_OP (word_of_nat (op_num q)) i"

definition CREATE_ABC :: "OpCode \<Rightarrow> int \<Rightarrow> int \<Rightarrow> int \<Rightarrow> Instruction" where
  "CREATE_ABC q a b c = push_bit POS_OP (word_of_nat (op_num q)) OR push_bit POS_A (word_of_int a)
     OR push_bit POS_B (word_of_int b) OR push_bit POS_C (word_of_int c)"

definition CREATE_ABx :: "OpCode \<Rightarrow> int \<Rightarrow> int \<Rightarrow> Instruction" where
  "CREATE_ABx q a bc = push_bit POS_OP (word_of_nat (op_num q)) OR push_bit POS_A (word_of_int a)
     OR push_bit POS_Bx (word_of_int bc)"

text \<open>Register or constant operands.\<close>

definition BITRK :: int where "BITRK = 2 ^ (SIZE_B - 1)"
definition ISK :: "int \<Rightarrow> bool" where "ISK x \<longleftrightarrow> x AND BITRK \<noteq> 0"
definition INDEXK :: "int \<Rightarrow> int" where "INDEXK r = r AND NOT BITRK"
definition MAXINDEXRK :: int where "MAXINDEXRK = BITRK - 1"
definition RKASK :: "int \<Rightarrow> int" where "RKASK x = x OR BITRK"
definition NO_REG :: int where "NO_REG = MAXARG_A"

section \<open>The table of modes\<close>

datatype OpArgMask = OpArgN | OpArgU | OpArgR | OpArgK

primrec OpMode_num :: "OpMode \<Rightarrow> 8 word" where
  "OpMode_num iABC = 0" | "OpMode_num iABx = 1" | "OpMode_num iAsBx = 2"

primrec OpArgMask_num :: "OpArgMask \<Rightarrow> 8 word" where
  "OpArgMask_num OpArgN = 0" | "OpArgMask_num OpArgU = 1"
| "OpArgMask_num OpArgR = 2" | "OpArgMask_num OpArgK = 3"

definition opmode :: "8 word \<Rightarrow> 8 word \<Rightarrow> OpArgMask \<Rightarrow> OpArgMask \<Rightarrow> OpMode \<Rightarrow> 8 word" where
  "opmode t a b c m = push_bit 7 t OR push_bit 6 a OR push_bit 4 (OpArgMask_num b)
     OR push_bit 2 (OpArgMask_num c) OR OpMode_num m"

definition luaP_opmodes :: "8 word list" where
  "luaP_opmodes = [
     opmode 0 1 OpArgR OpArgN iABC,
     opmode 0 1 OpArgK OpArgN iABx,
     opmode 0 1 OpArgU OpArgU iABC,
     opmode 0 1 OpArgR OpArgN iABC,
     opmode 0 1 OpArgU OpArgN iABC,
     opmode 0 1 OpArgK OpArgN iABx,
     opmode 0 1 OpArgR OpArgK iABC,
     opmode 0 0 OpArgK OpArgN iABx,
     opmode 0 0 OpArgU OpArgN iABC,
     opmode 0 0 OpArgK OpArgK iABC,
     opmode 0 1 OpArgU OpArgU iABC,
     opmode 0 1 OpArgR OpArgK iABC,
     opmode 0 1 OpArgK OpArgK iABC,
     opmode 0 1 OpArgK OpArgK iABC,
     opmode 0 1 OpArgK OpArgK iABC,
     opmode 0 1 OpArgK OpArgK iABC,
     opmode 0 1 OpArgK OpArgK iABC,
     opmode 0 1 OpArgK OpArgK iABC,
     opmode 0 1 OpArgR OpArgN iABC,
     opmode 0 1 OpArgR OpArgN iABC,
     opmode 0 1 OpArgR OpArgN iABC,
     opmode 0 1 OpArgR OpArgR iABC,
     opmode 0 0 OpArgR OpArgN iAsBx,
     opmode 1 0 OpArgK OpArgK iABC,
     opmode 1 0 OpArgK OpArgK iABC,
     opmode 1 0 OpArgK OpArgK iABC,
     opmode 1 1 OpArgR OpArgU iABC,
     opmode 1 1 OpArgR OpArgU iABC,
     opmode 0 1 OpArgU OpArgU iABC,
     opmode 0 1 OpArgU OpArgU iABC,
     opmode 0 0 OpArgU OpArgN iABC,
     opmode 0 1 OpArgR OpArgN iAsBx,
     opmode 0 1 OpArgR OpArgN iAsBx,
     opmode 1 0 OpArgN OpArgU iABC,
     opmode 0 0 OpArgU OpArgU iABC,
     opmode 0 0 OpArgN OpArgN iABC,
     opmode 0 1 OpArgU OpArgN iABx,
     opmode 0 1 OpArgU OpArgN iABC]"

definition mode_byte :: "OpCode \<Rightarrow> 8 word" where
  "mode_byte q = luaP_opmodes ! op_num q"

definition OpMode_of :: "8 word \<Rightarrow> OpMode" where
  "OpMode_of w = (if w = 0 then iABC else if w = 1 then iABx else iAsBx)"

definition OpArgMask_of :: "8 word \<Rightarrow> OpArgMask" where
  "OpArgMask_of w = (if w = 0 then OpArgN else if w = 1 then OpArgU else if w = 2 then OpArgR else OpArgK)"

definition getOpMode :: "OpCode \<Rightarrow> OpMode" where
  "getOpMode q = OpMode_of (mode_byte q AND 3)"

definition getBMode :: "OpCode \<Rightarrow> OpArgMask" where
  "getBMode q = OpArgMask_of (drop_bit 4 (mode_byte q) AND 3)"

definition getCMode :: "OpCode \<Rightarrow> OpArgMask" where
  "getCMode q = OpArgMask_of (drop_bit 2 (mode_byte q) AND 3)"

definition testAMode :: "OpCode \<Rightarrow> bool" where
  "testAMode q \<longleftrightarrow> mode_byte q AND push_bit 6 1 \<noteq> 0"

definition testTMode :: "OpCode \<Rightarrow> bool" where
  "testTMode q \<longleftrightarrow> mode_byte q AND push_bit 7 1 \<noteq> 0"

definition luaP_opnames :: "char list option list" where
  "luaP_opnames = map Some
     [''MOVE'', ''LOADK'', ''LOADBOOL'', ''LOADNIL'', ''GETUPVAL'', ''GETGLOBAL'', ''GETTABLE'',
      ''SETGLOBAL'', ''SETUPVAL'', ''SETTABLE'', ''NEWTABLE'', ''SELF'', ''ADD'', ''SUB'',
      ''MUL'', ''DIV'', ''MOD'', ''POW'', ''UNM'', ''NOT'', ''LEN'',
      ''CONCAT'', ''JMP'', ''EQ'', ''LT'', ''LE'', ''TEST'', ''TESTSET'',
      ''CALL'', ''TAILCALL'', ''RETURN'', ''FORLOOP'', ''FORPREP'', ''TFORLOOP'', ''SETLIST'',
      ''CLOSE'', ''CLOSURE'', ''VARARG''] @ [None]"

definition LFIELDS_PER_FLUSH :: nat where
  "LFIELDS_PER_FLUSH = 50"

section \<open>Lemmas on fields\<close>

lemma bit_MASK1: "bit (MASK1 n p) k \<longleftrightarrow> k < 32 \<and> p \<le> k \<and> k < p + n"
  by (auto simp: MASK1_def bit_simps)

lemma bit_MASK0: "bit (MASK0 n p) k \<longleftrightarrow> k < 32 \<and> \<not> (p \<le> k \<and> k < p + n)"
  by (auto simp: MASK0_def bit_simps bit_MASK1)

lemma bit_get_field: "bit (get_field n p i) k \<longleftrightarrow> k < n \<and> bit i (p + k)"
  using bit_imp_le_length [of i "p + k"] by (auto simp: get_field_def bit_simps bit_MASK1)

lemma bit_set_field:
  "bit (set_field n p u i) k \<longleftrightarrow> (if p \<le> k \<and> k < p + n then k < 32 \<and> bit u (k - p) else bit i k)"
  using bit_imp_le_length [of i k] bit_imp_le_length [of u "k - p"]
  by (auto simp: set_field_def bit_simps bit_MASK1 bit_MASK0)

lemma get_set_same: "p + n \<le> 32 \<Longrightarrow> get_field n p (set_field n p u i) = take_bit n u"
  by (rule bit_word_eqI) (auto simp: bit_get_field bit_set_field bit_simps)

lemma get_set_other: "p + n \<le> q \<or> q + m \<le> p \<Longrightarrow> get_field m q (set_field n p u i) = get_field m q i"
  by (rule bit_word_eqI) (auto simp: bit_get_field bit_set_field)

lemma take_bit_small: "0 \<le> u \<Longrightarrow> u < 2 ^ n \<Longrightarrow> n \<le> 31 \<Longrightarrow> uint (take_bit n (word_of_int u :: 32 word)) = u"
proof -
  assume u: "0 \<le> u" "u < 2 ^ n" "n \<le> 31"
  have "(2 :: int) ^ n \<le> 2 ^ 31" using u(3) by (intro power_increasing) auto
  then have "u < 2 ^ 32" using u(2) by simp
  then have "uint (word_of_int u :: 32 word) = u" using u(1) by (simp add: uint_word_of_int_eq take_bit_int_eq_self)
  then show ?thesis using u by (simp add: unsigned_take_bit_eq take_bit_int_eq_self)
qed

text \<open>Opcodes and their numbers.\<close>

lemma NUM_OPCODES_eq [simp]: "NUM_OPCODES = 38"
  by code_simp

lemma op_num_less: "op_num q < NUM_OPCODES"
  by (cases q) (simp_all add: op_num_def OpCodes_def)

lemma op_of_num [simp]: "op_of (op_num q) = Some q"
  by (cases q) (simp_all add: op_of_def op_num_def OpCodes_def)

text \<open>The modes of each opcode, read from the table.\<close>

lemma mode_table:
  "map (\<lambda>q. (getOpMode q, getBMode q, getCMode q)) OpCodes =
    [(iABC, OpArgR, OpArgN), (iABx, OpArgK, OpArgN), (iABC, OpArgU, OpArgU), (iABC, OpArgR, OpArgN),
     (iABC, OpArgU, OpArgN), (iABx, OpArgK, OpArgN), (iABC, OpArgR, OpArgK), (iABx, OpArgK, OpArgN),
     (iABC, OpArgU, OpArgN), (iABC, OpArgK, OpArgK), (iABC, OpArgU, OpArgU), (iABC, OpArgR, OpArgK),
     (iABC, OpArgK, OpArgK), (iABC, OpArgK, OpArgK), (iABC, OpArgK, OpArgK), (iABC, OpArgK, OpArgK),
     (iABC, OpArgK, OpArgK), (iABC, OpArgK, OpArgK), (iABC, OpArgR, OpArgN), (iABC, OpArgR, OpArgN),
     (iABC, OpArgR, OpArgN), (iABC, OpArgR, OpArgR), (iAsBx, OpArgR, OpArgN), (iABC, OpArgK, OpArgK),
     (iABC, OpArgK, OpArgK), (iABC, OpArgK, OpArgK), (iABC, OpArgR, OpArgU), (iABC, OpArgR, OpArgU),
     (iABC, OpArgU, OpArgU), (iABC, OpArgU, OpArgU), (iABC, OpArgU, OpArgN), (iAsBx, OpArgR, OpArgN),
     (iAsBx, OpArgR, OpArgN), (iABC, OpArgN, OpArgU), (iABC, OpArgU, OpArgU), (iABC, OpArgN, OpArgN),
     (iABx, OpArgU, OpArgN), (iABC, OpArgU, OpArgN)]"
  by code_simp

lemmas mode_simps [simp] = mode_table [unfolded OpCodes_def list.map list.inject prod.inject, simplified]

text \<open>Fields keep to their ranges.\<close>

lemma get_field_bound: "n \<le> 32 \<Longrightarrow> uint (get_field n p i) < 2 ^ n"
proof -
  assume n: "n \<le> 32"
  have "get_field n p i = take_bit n (get_field n p i)"
    by (rule bit_word_eqI) (auto simp: bit_get_field bit_simps)
  then have "uint (get_field n p i) = take_bit n (uint (get_field n p i))"
    by (metis unsigned_take_bit_eq)
  then show ?thesis by (metis take_bit_int_less_exp)
qed

lemma GETARG_bounds:
  "0 \<le> GETARG_A i" "GETARG_A i \<le> MAXARG_A" "0 \<le> GETARG_B i" "GETARG_B i \<le> MAXARG_B"
  "0 \<le> GETARG_C i" "GETARG_C i \<le> MAXARG_C" "0 \<le> GETARG_Bx i" "GETARG_Bx i \<le> MAXARG_Bx"
  using get_field_bound [of SIZE_A POS_A i] get_field_bound [of SIZE_B POS_B i]
    get_field_bound [of SIZE_C POS_C i] get_field_bound [of SIZE_Bx POS_Bx i]
  by (auto simp: GETARG_A_def GETARG_B_def GETARG_C_def GETARG_Bx_def instr_limits SIZE_A_def SIZE_B_def
      SIZE_C_def SIZE_Bx_def)

lemma bit_small:
  fixes u :: int
  assumes "0 \<le> u" "u < 2 ^ n" "bit u k"
  shows "k < n"
proof -
  have "take_bit n u = u" using assms(1,2) by (simp add: take_bit_int_eq_self)
  then show ?thesis using assms(3) by (metis bit_take_bit_iff)
qed

lemma bit_word_of_small: "0 \<le> u \<Longrightarrow> u < 2 ^ n \<Longrightarrow> bit (word_of_int u :: Instruction) k \<Longrightarrow> k < n"
  by (rule bit_small [of u]) (auto simp: bit_word_of_int_iff)

lemma bit_word_of_op: "bit (word_of_nat (op_num q) :: Instruction) k \<Longrightarrow> k < 6"
  using bit_word_of_small [of "int (op_num q)" 6 k] op_num_less [of q] by simp

lemma bit_op_num: "bit (op_num q) k \<Longrightarrow> k < 6"
proof -
  assume b: "bit (op_num q) k"
  have "op_num q < 2 ^ 6" using op_num_less [of q] by simp
  then have "take_bit 6 (op_num q) = op_num q" by (simp only: take_bit_nat_eq_self)
  then show "k < 6" using b by (metis bit_take_bit_iff)
qed

text \<open>An instruction is the disjoint union of its fields.\<close>

lemma CREATE_ABC_fields:
  assumes "0 \<le> a" "a \<le> MAXARG_A" "0 \<le> b" "b \<le> MAXARG_B" "0 \<le> c" "c \<le> MAXARG_C"
  shows "get_field SIZE_OP POS_OP (CREATE_ABC q a b c) = word_of_nat (op_num q)"
    "get_field SIZE_A POS_A (CREATE_ABC q a b c) = word_of_int a"
    "get_field SIZE_B POS_B (CREATE_ABC q a b c) = word_of_int b"
    "get_field SIZE_C POS_C (CREATE_ABC q a b c) = word_of_int c"
proof -
  have a: "bit a k \<Longrightarrow> k < 8" for k
    by (rule bit_small [of a]) (use assms in \<open>simp_all add: MAXARG_A_def SIZE_A_def\<close>)
  have b: "bit b k \<Longrightarrow> k < 9" for k
    by (rule bit_small [of b]) (use assms in \<open>simp_all add: MAXARG_B_def SIZE_B_def\<close>)
  have c: "bit c k \<Longrightarrow> k < 9" for k
    by (rule bit_small [of c]) (use assms in \<open>simp_all add: MAXARG_C_def SIZE_C_def\<close>)
  note bits = bit_get_field CREATE_ABC_def instr_layout bit_simps
  show "get_field SIZE_OP POS_OP (CREATE_ABC q a b c) = word_of_nat (op_num q)"
    by (rule bit_word_eqI) (auto simp: bits dest: a b c bit_word_of_op bit_op_num)
  show "get_field SIZE_A POS_A (CREATE_ABC q a b c) = word_of_int a"
    by (rule bit_word_eqI) (auto simp: bits dest: a b c bit_word_of_op bit_op_num)
  show "get_field SIZE_B POS_B (CREATE_ABC q a b c) = word_of_int b"
    by (rule bit_word_eqI) (auto simp: bits dest: a b c bit_word_of_op bit_op_num)
  show "get_field SIZE_C POS_C (CREATE_ABC q a b c) = word_of_int c"
    by (rule bit_word_eqI) (auto simp: bits dest: a b c bit_word_of_op bit_op_num)
qed

lemma CREATE_ABx_fields:
  assumes "0 \<le> a" "a \<le> MAXARG_A" "0 \<le> b" "b \<le> MAXARG_Bx"
  shows "get_field SIZE_OP POS_OP (CREATE_ABx q a b) = word_of_nat (op_num q)"
    "get_field SIZE_A POS_A (CREATE_ABx q a b) = word_of_int a"
    "get_field SIZE_Bx POS_Bx (CREATE_ABx q a b) = word_of_int b"
proof -
  have a: "bit a k \<Longrightarrow> k < 8" for k
    by (rule bit_small [of a]) (use assms in \<open>simp_all add: MAXARG_A_def SIZE_A_def\<close>)
  have b: "bit b k \<Longrightarrow> k < 18" for k
    by (rule bit_small [of b])
      (use assms in \<open>simp_all add: MAXARG_Bx_def SIZE_Bx_def SIZE_B_def SIZE_C_def\<close>)
  note bits = bit_get_field CREATE_ABx_def instr_layout bit_simps
  show "get_field SIZE_OP POS_OP (CREATE_ABx q a b) = word_of_nat (op_num q)"
    by (rule bit_word_eqI) (auto simp: bits dest: a b bit_word_of_op bit_op_num)
  show "get_field SIZE_A POS_A (CREATE_ABx q a b) = word_of_int a"
    by (rule bit_word_eqI) (auto simp: bits dest: a b bit_word_of_op bit_op_num)
  show "get_field SIZE_Bx POS_Bx (CREATE_ABx q a b) = word_of_int b"
    by (rule bit_word_eqI) (auto simp: bits dest: a b bit_word_of_op bit_op_num)
qed

lemma uint_small: "0 \<le> u \<Longrightarrow> u < 2 ^ 32 \<Longrightarrow> uint (word_of_int u :: Instruction) = u"
  by (simp add: uint_word_of_int_eq take_bit_int_eq_self)

lemma unat_op_num: "unat (word_of_nat (op_num q) :: Instruction) = op_num q"
proof -
  have "op_num q < 2 ^ LENGTH(32)" using op_num_less [of q] by simp
  then show ?thesis by (simp only: unsigned_of_nat take_bit_nat_eq_self of_nat_id)
qed

section \<open>Properties\<close>

text \<open>
  An instruction built from an opcode and operands in range gives back exactly that opcode and
  those operands, in both formats; the excess-K form gives back negative jump offsets.
\<close>

theorem instruction_round_trip:
  assumes "0 \<le> a" "a \<le> MAXARG_A" "0 \<le> b" "b \<le> MAXARG_B" "0 \<le> c" "c \<le> MAXARG_C"
    and "0 \<le> bx" "bx \<le> MAXARG_Bx" "- MAXARG_sBx \<le> s" "s \<le> MAXARG_sBx"
  shows "(let i = CREATE_ABC q a b c
      in GET_OPCODE i = Some q \<and> GETARG_A i = a \<and> GETARG_B i = b \<and> GETARG_C i = c) \<and>
    (let i = CREATE_ABx q a bx in GET_OPCODE i = Some q \<and> GETARG_A i = a \<and> GETARG_Bx i = bx) \<and>
    (let i = CREATE_ABx q a (s + MAXARG_sBx) in GET_OPCODE i = Some q \<and> GETARG_A i = a \<and> GETARG_sBx i = s)"
proof -
  define e where "e = s + MAXARG_sBx"
  have e: "0 \<le> e" "e \<le> MAXARG_Bx"
    using assms(9,10) by (simp_all add: e_def instr_limits SIZE_Bx_def SIZE_B_def SIZE_C_def)
  have small: "a < 2 ^ 32" "b < 2 ^ 32" "c < 2 ^ 32" "bx < 2 ^ 32" "e < 2 ^ 32"
    using assms e by (simp_all add: instr_limits instr_layout)
  note gets = GET_OPCODE_def GETARG_A_def GETARG_B_def GETARG_C_def GETARG_Bx_def GETARG_sBx_def
  have s: "GETARG_sBx (CREATE_ABx q a e) = s"
    using uint_small [OF e(1) small(5)]
    by (simp only: gets CREATE_ABx_fields [OF assms(1,2) e]) (simp add: e_def)
  show ?thesis
    unfolding e_def [symmetric] Let_def s
    using uint_small [OF assms(1) small(1)] uint_small [OF assms(3) small(2)]
      uint_small [OF assms(5) small(3)] uint_small [OF assms(7) small(4)]
    by (simp add: gets CREATE_ABC_fields [OF assms(1-6)] CREATE_ABx_fields [OF assms(1,2,7,8)]
        CREATE_ABx_fields [OF assms(1,2) e] unat_op_num)
qed

theorem instruction_round_trip_witness:
  "(let i = CREATE_ABC OP_ADD 255 256 511
      in GET_OPCODE i = Some OP_ADD \<and> GETARG_A i = 255 \<and> GETARG_B i = 256 \<and> GETARG_C i = 511) \<and>
   (let i = CREATE_ABx OP_JMP 0 (- 131071 + MAXARG_sBx) in GET_OPCODE i = Some OP_JMP \<and> GETARG_sBx i = - 131071)"
  using instruction_round_trip [of 255 256 511 7 "- 131071" OP_ADD]
    instruction_round_trip [of 0 0 0 7 "- 131071" OP_JMP]
  by (simp add: instr_limits instr_layout Let_def)

text \<open>
  Writing one operand in range is read back, and leaves the opcode and the other operands of
  the instruction as they were.
\<close>

theorem instruction_set_get:
  assumes "0 \<le> a" "a \<le> MAXARG_A" "0 \<le> b" "b \<le> MAXARG_B" "0 \<le> c" "c \<le> MAXARG_C" "- MAXARG_sBx \<le> s" "s \<le> MAXARG_sBx"
  shows "GETARG_A (SETARG_A i a) = a \<and> GET_OPCODE (SETARG_A i a) = GET_OPCODE i \<and>
      GETARG_B (SETARG_A i a) = GETARG_B i \<and> GETARG_C (SETARG_A i a) = GETARG_C i \<and>
    GETARG_B (SETARG_B i b) = b \<and> GET_OPCODE (SETARG_B i b) = GET_OPCODE i \<and>
      GETARG_A (SETARG_B i b) = GETARG_A i \<and> GETARG_C (SETARG_B i b) = GETARG_C i \<and>
    GETARG_C (SETARG_C i c) = c \<and> GET_OPCODE (SETARG_C i c) = GET_OPCODE i \<and>
      GETARG_A (SETARG_C i c) = GETARG_A i \<and> GETARG_B (SETARG_C i c) = GETARG_B i \<and>
    GETARG_sBx (SETARG_sBx i s) = s \<and> GET_OPCODE (SETARG_sBx i s) = GET_OPCODE i \<and>
      GETARG_A (SETARG_sBx i s) = GETARG_A i \<and>
    GET_OPCODE (SET_OPCODE i q) = Some q \<and> GETARG_A (SET_OPCODE i q) = GETARG_A i \<and>
      GETARG_Bx (SET_OPCODE i q) = GETARG_Bx i"
proof -
  have s: "0 \<le> s + MAXARG_sBx" "s + MAXARG_sBx \<le> MAXARG_Bx"
    using assms(7,8) by (simp_all add: instr_limits SIZE_Bx_def SIZE_B_def SIZE_C_def)
  have MAX: "MAXARG_sBx = 131071" by (simp add: instr_limits instr_layout)
  have t: "uint (take_bit 8 (word_of_int a :: Instruction)) = a" "uint (take_bit 9 (word_of_int b :: Instruction)) = b"
    "uint (take_bit 9 (word_of_int c :: Instruction)) = c"
    using assms by (simp_all add: take_bit_small instr_limits instr_layout)
  have t4: "uint (take_bit 18 (word_of_int (s + 131071) :: Instruction)) = s + 131071"
    by (rule take_bit_small) (use assms s in \<open>simp_all add: instr_limits instr_layout\<close>)
  have t5: "uint (take_bit 18 (word_of_int s + 131071 :: Instruction)) = s + 131071"
    using t4 by simp
  have q: "take_bit 6 (word_of_nat (op_num q) :: Instruction) = word_of_nat (op_num q)"
    by (rule bit_word_eqI) (auto simp: bit_simps dest: bit_op_num)
  note defs = GET_OPCODE_def SET_OPCODE_def GETARG_A_def SETARG_A_def GETARG_B_def SETARG_B_def GETARG_C_def
    SETARG_C_def GETARG_Bx_def SETARG_Bx_def GETARG_sBx_def SETARG_sBx_def instr_layout
  show ?thesis
    by (intro conjI; simp add: defs MAX get_set_same get_set_other t t5 q unat_op_num)
qed

theorem instruction_set_get_witness:
  "GETARG_sBx (SETARG_sBx (CREATE_ABC OP_FORLOOP 9 0 0) (- 5)) = - 5 \<and>
   GETARG_A (SETARG_sBx (CREATE_ABC OP_FORLOOP 9 0 0) (- 5)) = GETARG_A (CREATE_ABC OP_FORLOOP 9 0 0)"
  using instruction_set_get [of 9 0 0 "- 5" "CREATE_ABC OP_FORLOOP 9 0 0"]
  by (simp add: instr_limits instr_layout)

end
