(* ===== verification/LuaObject.thy ===== *)
theory LuaObject
  imports LuaOpcodes
begin

text \<open>
  Values and function prototypes of Lua (\<^verbatim>\<open>lualib/lobject.h\<close>) and the generic functions on them
  (\<^verbatim>\<open>lualib/lobject.c\<close>).  The numbers of Lua are a parameter \<open>'n\<close>: the arithmetic of C doubles and
  its conversions from and to text belong to the machine and to the C library.  A string is its
  text: Lua interns strings, so two string pointers are equal exactly when the texts are.
\<close>

section \<open>Characters in the C locale\<close>

definition isspace_C :: "char \<Rightarrow> bool" where
  "isspace_C c \<longleftrightarrow> uchar c = 32 \<or> 9 \<le> uchar c \<and> uchar c \<le> 13"

definition isdigit_C :: "char \<Rightarrow> bool" where
  "isdigit_C c \<longleftrightarrow> 48 \<le> uchar c \<and> uchar c \<le> 57"

definition isupper_C :: "char \<Rightarrow> bool" where
  "isupper_C c \<longleftrightarrow> 65 \<le> uchar c \<and> uchar c \<le> 90"

definition islower_C :: "char \<Rightarrow> bool" where
  "islower_C c \<longleftrightarrow> 97 \<le> uchar c \<and> uchar c \<le> 122"

definition isalpha_C :: "char \<Rightarrow> bool" where
  "isalpha_C c \<longleftrightarrow> isupper_C c \<or> islower_C c"

definition isalnum_C :: "char \<Rightarrow> bool" where
  "isalnum_C c \<longleftrightarrow> isalpha_C c \<or> isdigit_C c"

definition iscntrl_C :: "char \<Rightarrow> bool" where
  "iscntrl_C c \<longleftrightarrow> uchar c < 32 \<or> uchar c = 127"

definition ispunct_C :: "char \<Rightarrow> bool" where
  "ispunct_C c \<longleftrightarrow> 33 \<le> uchar c \<and> uchar c \<le> 126 \<and> \<not> isalnum_C c"

definition isxdigit_C :: "char \<Rightarrow> bool" where
  "isxdigit_C c \<longleftrightarrow> isdigit_C c \<or> 65 \<le> uchar c \<and> uchar c \<le> 70 \<or> 97 \<le> uchar c \<and> uchar c \<le> 102"

definition tolower_C :: "char \<Rightarrow> char" where
  "tolower_C c = (if isupper_C c then char_of (uchar c + 32) else c)"

definition toupper_C :: "char \<Rightarrow> char" where
  "toupper_C c = (if islower_C c then char_of (uchar c - 32) else c)"

section \<open>Values\<close>

text \<open>\<open>Null_string\<close> is the string tag with the null pointer, which a malformed chunk can make.\<close>

datatype 'n TValue =
    Nil_value | Boolean int | LightUserdata nat | Number 'n
  | String "char list" | Null_string | Table nat | Function nat | Userdata nat | Thread nat

definition LUA_TNIL :: int where "LUA_TNIL = 0"
definition LUA_TBOOLEAN :: int where "LUA_TBOOLEAN = 1"
definition LUA_TLIGHTUSERDATA :: int where "LUA_TLIGHTUSERDATA = 2"
definition LUA_TNUMBER :: int where "LUA_TNUMBER = 3"
definition LUA_TSTRING :: int where "LUA_TSTRING = 4"
definition LUA_TTABLE :: int where "LUA_TTABLE = 5"
definition LUA_TFUNCTION :: int where "LUA_TFUNCTION = 6"
definition LUA_TUSERDATA :: int where "LUA_TUSERDATA = 7"
definition LUA_TTHREAD :: int where "LUA_TTHREAD = 8"

lemmas lua_tags = LUA_TNIL_def LUA_TBOOLEAN_def LUA_TLIGHTUSERDATA_def LUA_TNUMBER_def LUA_TSTRING_def
  LUA_TTABLE_def LUA_TFUNCTION_def LUA_TUSERDATA_def LUA_TTHREAD_def

fun ttype :: "'n TValue \<Rightarrow> int" where
  "ttype Nil_value = LUA_TNIL"
| "ttype (Boolean b) = LUA_TBOOLEAN"
| "ttype (LightUserdata p) = LUA_TLIGHTUSERDATA"
| "ttype (Number n) = LUA_TNUMBER"
| "ttype (String s) = LUA_TSTRING"
| "ttype Null_string = LUA_TSTRING"
| "ttype (Table a) = LUA_TTABLE"
| "ttype (Function a) = LUA_TFUNCTION"
| "ttype (Userdata a) = LUA_TUSERDATA"
| "ttype (Thread a) = LUA_TTHREAD"

fun l_isfalse :: "'n TValue \<Rightarrow> bool" where
  "l_isfalse Nil_value = True"
| "l_isfalse (Boolean b) = (b = 0)"
| "l_isfalse v = False"

text \<open>With equal tags the payloads are compared: two numbers by \<^verbatim>\<open>luai_numeq\<close>, the rest as bits.\<close>

definition luaO_rawequalObj :: "('n \<Rightarrow> 'n \<Rightarrow> bool) \<Rightarrow> 'n TValue \<Rightarrow> 'n TValue \<Rightarrow> bool" where
  "luaO_rawequalObj numeq t1 t2 =
     (if ttype t1 \<noteq> ttype t2 then False
      else (case t1 of
              Nil_value \<Rightarrow> True
            | Number x \<Rightarrow> (case t2 of Number y \<Rightarrow> numeq x y | _ \<Rightarrow> False)
            | _ \<Rightarrow> t1 = t2))"

section \<open>Prototypes\<close>

record LocVar =
  varname :: "char list option"
  startpc :: int
  endpc :: int

text \<open>
  The arrays are lists, so that \<^verbatim>\<open>sizek\<close>, \<^verbatim>\<open>sizecode\<close> and the others are their lengths; the bytes
  \<^verbatim>\<open>nups\<close>, \<^verbatim>\<open>numparams\<close>, \<^verbatim>\<open>is_vararg\<close> and \<^verbatim>\<open>maxstacksize\<close> are integers.
\<close>

datatype 'n Proto = Proto
  (pk: "'n TValue list") (code: "Instruction list") (pp: "'n Proto list") (lineinfo: "int list")
  (locvars: "LocVar list") (upvalues: "char list option list") (source: "char list option")
  (linedefined: int) (lastlinedefined: int) (nups: int) (numparams: int) (is_vararg: int) (maxstacksize: int)

definition VARARG_HASARG :: int where "VARARG_HASARG = 1"
definition VARARG_ISVARARG :: int where "VARARG_ISVARARG = 2"
definition VARARG_NEEDSARG :: int where "VARARG_NEEDSARG = 4"
definition MAXSTACK :: int where "MAXSTACK = 250"

section \<open>Floating point bytes\<close>

function fb_loop :: "32 word \<Rightarrow> int \<Rightarrow> 32 word \<times> int" where
  "fb_loop x e = (if x \<ge> 16 then fb_loop (drop_bit 1 (x + 1)) (e + 1) else (x, e))"
  by pat_completeness auto

lemma unat_drop: "unat (drop_bit n w) = unat w div 2 ^ n"
  for w :: "32 word"
proof -
  have "unat w < 2 ^ LENGTH(32)" by (rule unsigned_less)
  then have "take_bit LENGTH(32) (unat w) = unat w" by (simp only: take_bit_nat_eq_self)
  moreover have "unat (drop_bit n w) = drop_bit n (take_bit LENGTH(32) (unat w))"
    by (rule unsigned_drop_bit_eq)
  ultimately show ?thesis by (simp only: drop_bit_eq_div)
qed

lemma unat_half: "x \<noteq> - 1 \<Longrightarrow> unat (drop_bit 1 (x + 1)) = (unat x + 1) div 2"
  for x :: "32 word"
proof -
  assume "x \<noteq> - 1"
  then have "unat (x + 1) = unat x + 1"
    using unatSuc [of x] by (metis Suc_eq_plus1 add.commute add_eq_0_iff)
  then show ?thesis by (simp only: unat_drop) simp
qed

lemma half_less: "x \<ge> 16 \<Longrightarrow> unat (drop_bit 1 (x + 1)) < unat x"
  for x :: "32 word"
proof (cases "x = - 1")
  case True
  have "0 < unat (- 1 :: 32 word)" by (simp add: unat_gt_0)
  moreover have "drop_bit 1 ((- 1 :: 32 word) + 1) = 0" by simp
  ultimately show ?thesis using True by (metis unat_0)
next
  case False
  assume "x \<ge> 16"
  then have "16 \<le> unat x" by (simp add: word_le_nat_alt)
  then show ?thesis unfolding unat_half [OF False] by presburger
qed

termination fb_loop
  by (relation "measure (unat \<circ> fst)") (auto simp del: One_nat_def intro: half_less)

definition luaO_int2fb :: "32 word \<Rightarrow> int" where
  "luaO_int2fb x =
     (let (y, e) = fb_loop x 0
      in if y < 8 then uint y else push_bit 3 (e + 1) OR (uint y - 8))"

definition luaO_fb2int :: "int \<Rightarrow> int" where
  "luaO_fb2int x =
     (let e = drop_bit 3 x AND 31
      in if e = 0 then x else c_int (push_bit (nat (e - 1)) ((x AND 7) + 8)))"

section \<open>Logarithms\<close>

definition log_2 :: "int list" where
  "log_2 = [0, 1, 2, 2] @ replicate 4 3 @ replicate 8 4 @ replicate 16 5 @ replicate 32 6
     @ replicate 64 7 @ replicate 128 8"

function log2_loop :: "32 word \<Rightarrow> int \<Rightarrow> 32 word \<times> int" where
  "log2_loop x l = (if x \<ge> 256 then log2_loop (drop_bit 8 x) (l + 8) else (x, l))"
  by pat_completeness auto
termination
proof (relation "measure (unat \<circ> fst)")
  show "((drop_bit 8 x, l + 8), x, l) \<in> measure (unat \<circ> fst)" if "256 \<le> x" for x :: "32 word" and l :: int
  proof -
    have "256 \<le> unat x" using that by (simp add: word_le_nat_alt)
    then have "unat (drop_bit 8 x) < unat x" unfolding unat_drop by simp
    then show ?thesis by (simp only: in_measure comp_def fst_conv)
  qed
qed simp

definition luaO_log2 :: "32 word \<Rightarrow> int" where
  "luaO_log2 x = (let (y, l) = log2_loop x (- 1) in l + log_2 ! unat y)"

definition ceillog2 :: "32 word \<Rightarrow> int" where
  "ceillog2 x = luaO_log2 (x - 1) + 1"

section \<open>Conversion and messages\<close>

text \<open>\<^verbatim>\<open>strtoul(s, &endptr, 16)\<close>: the value and the text left over.\<close>

definition hex_value :: "char \<Rightarrow> int" where
  "hex_value c = (if isdigit_C c then uchar c - 48 else if isupper_C c then uchar c - 55 else uchar c - 87)"

definition strtoul16 :: "char list \<Rightarrow> 32 word \<times> char list" where
  "strtoul16 s =
     (let t = dropWhile isspace_C s;
          neg = (t \<noteq> [] \<and> hd t = CHR ''-'');
          u = (if t \<noteq> [] \<and> (hd t = CHR ''-'' \<or> hd t = CHR ''+'') then tl t else t);
          v = (if 3 \<le> length u \<and> u ! 0 = CHR ''0'' \<and> (u ! 1 = CHR ''x'' \<or> u ! 1 = CHR ''X'') \<and> isxdigit_C (u ! 2)
               then drop 2 u else u);
          ds = takeWhile isxdigit_C v;
          n = foldl (\<lambda>n c. 16 * n + hex_value c) 0 ds
      in if ds = [] then (0, s)
         else (if n \<ge> 2 ^ 32 then - 1 else if neg then - word_of_int n else word_of_int n,
               dropWhile isxdigit_C v))"

text \<open>
  \<^verbatim>\<open>strtod\<close> is a parameter: the number and how many characters it takes, none when it fails.
\<close>

definition luaO_str2d :: "(char list \<Rightarrow> 'n \<times> nat) \<Rightarrow> (32 word \<Rightarrow> 'n) \<Rightarrow> char list \<Rightarrow> 'n option" where
  "luaO_str2d strtod num_of s =
     (let (r, used) = strtod s; endp = drop used s
      in if used = 0 then None
         else (let (r', endp') = (if endp \<noteq> [] \<and> (hd endp = CHR ''x'' \<or> hd endp = CHR ''X'')
                                  then (let (u, rest) = strtoul16 s in (num_of u, rest)) else (r, endp))
               in if endp' = [] then Some r'
                  else if dropWhile isspace_C endp' \<noteq> [] then None else Some r'))"

text \<open>
  \<^verbatim>\<open>luaO_pushvfstring\<close>: the arguments in order, a number printed by the parameter; the pieces pushed
  on the stack are concatenated at the end.  A format that ends in a percent sign is read past its
  terminator, an argument of the wrong type or a missing one is undefined: both are \<open>None\<close>.
\<close>

datatype 'n fmt_arg = Arg_s "char list option" | Arg_c int | Arg_d int | Arg_f 'n | Arg_p "char list"

definition c_str :: "char list \<Rightarrow> char list" where
  "c_str s = takeWhile (\<lambda>c. c \<noteq> NUL) s"

fun pushvf_item :: "('n \<Rightarrow> char list) \<Rightarrow> (int \<Rightarrow> 'n) \<Rightarrow> char \<Rightarrow> 'n fmt_arg list \<Rightarrow> (char list \<times> 'n fmt_arg list) option" where
  "pushvf_item num2str num_of c args =
     (if c = CHR ''s'' then
        (case args of Arg_s None # as \<Rightarrow> Some (''(null)'', as) | Arg_s (Some s) # as \<Rightarrow> Some (c_str s, as) | _ \<Rightarrow> None)
      else if c = CHR ''c'' then
        (case args of Arg_c n # as \<Rightarrow> Some (c_str [char_of (n mod 256)], as) | _ \<Rightarrow> None)
      else if c = CHR ''d'' then
        (case args of Arg_d n # as \<Rightarrow> Some (num2str (num_of n), as) | _ \<Rightarrow> None)
      else if c = CHR ''f'' then
        (case args of Arg_f x # as \<Rightarrow> Some (num2str x, as) | _ \<Rightarrow> None)
      else if c = CHR ''p'' then
        (case args of Arg_p s # as \<Rightarrow> Some (s, as) | _ \<Rightarrow> None)
      else if c = CHR ''%'' then Some (''%'', args)
      else Some ([CHR ''%'', c], args))"

fun luaO_pushvfstring ::
  "('n \<Rightarrow> char list) \<Rightarrow> (int \<Rightarrow> 'n) \<Rightarrow> char list \<Rightarrow> 'n fmt_arg list \<Rightarrow> char list option" where
  "luaO_pushvfstring num2str num_of [] args = Some []"
| "luaO_pushvfstring num2str num_of (c # fmt) args =
     (if c \<noteq> CHR ''%'' then map_option ((#) c) (luaO_pushvfstring num2str num_of fmt args)
      else (case fmt of
              [] \<Rightarrow> None
            | d # fmt' \<Rightarrow> do {
                (x, args') \<leftarrow> pushvf_item num2str num_of d args;
                y \<leftarrow> luaO_pushvfstring num2str num_of fmt' args';
                Some (x @ y)
              }))"

text \<open>
  \<^verbatim>\<open>luaO_chunkid\<close>: the C string it leaves in \<^verbatim>\<open>out\<close>; the subtractions from \<^verbatim>\<open>bufflen\<close> wrap as \<^verbatim>\<open>size_t\<close> does.
\<close>

definition LUA_IDSIZE :: nat where
  "LUA_IDSIZE = 60"

definition size_sub :: "nat \<Rightarrow> nat \<Rightarrow> nat" where
  "size_sub m n = nat ((int m - int n) mod 2 ^ 32)"

definition luaO_chunkid :: "char list \<Rightarrow> nat \<Rightarrow> char list" where
  "luaO_chunkid src bufflen =
     (if src \<noteq> [] \<and> hd src = CHR ''='' then take (bufflen - 1) (tl src)
      else if src \<noteq> [] \<and> hd src = CHR ''@'' then
        (let s = tl src; n = size_sub bufflen 8; l = length s
         in if l > n then ''...'' @ drop (l - n) s else s)
      else
        (let len0 = length (takeWhile (\<lambda>c. c \<noteq> CHR 0x0a \<and> c \<noteq> CHR 0x0d) src);
             n = size_sub bufflen 17;
             len = (if len0 > n then n else len0)
         in ''[string '' @ [CHR 0x22] @
            (if len < length src then take len src @ ''...'' else src) @ [CHR 0x22] @ '']''))"

section \<open>Properties\<close>

lemma unat_max: "unat (- 1 :: 32 word) = 4294967295"
  by (simp add: unsigned_minus_1_eq_mask mask_eq_exp_minus_1)

lemma unat_not_max: "unat x < 4294967295 \<Longrightarrow> x \<noteq> - 1"
  for x :: "32 word"
  by (metis less_irrefl unat_max)

lemma or_low_bits:
  fixes a b :: int
  assumes "0 \<le> b" "b < 8"
  shows "push_bit 3 a OR b = 8 * a + b" "drop_bit 3 (8 * a + b) = a" "(8 * a + b) AND 7 = b"
proof -
  have "\<not> bit (push_bit 3 a) k \<or> \<not> bit b k" for k
    using bit_small [of b 3 k] assms by (auto simp: bit_simps)
  then show "push_bit 3 a OR b = 8 * a + b"
    by (subst disjunctive_add [symmetric]) (auto simp: push_bit_eq_mult)
  show "drop_bit 3 (8 * a + b) = a" using assms by (simp add: drop_bit_eq_div)
  have "(8 * a + b) AND 7 = (8 * a + b) mod 8"
    using take_bit_eq_mask [of 3 "8 * a + b"] by (simp add: take_bit_eq_mod mask_eq_exp_minus_1)
  then show "(8 * a + b) AND 7 = b" using assms by simp
qed

lemma and_31: "x AND 31 = x mod 32"
  for x :: int
  using take_bit_eq_mask [of 5 x] by (simp add: take_bit_eq_mod mask_eq_exp_minus_1)

text \<open>The loop of \<^verbatim>\<open>luaO_int2fb\<close> divides by two and rounds up.\<close>

lemma fb_loop_rounds:
  assumes "x \<noteq> - 1"
  shows "\<exists>y n. fb_loop x e = (y, e + int n) \<and> y < 16 \<and> (n > 0 \<longrightarrow> 8 \<le> y) \<and>
    unat x \<le> unat y * 2 ^ n \<and> unat y * 2 ^ n < unat x + 2 ^ n \<and> (n > 0 \<longrightarrow> 16 \<le> unat x)"
  using assms
proof (induction x e rule: fb_loop.induct)
  case (1 x e)
  show ?case
  proof (cases "x \<ge> 16")
    case False
    then show ?thesis by (intro exI [of _ x] exI [of _ 0]) (simp add: fb_loop.simps [of x e])
  next
    case True
    let ?x = "drop_bit 1 (x + 1)"
    have u: "unat ?x = (unat x + 1) div 2" by (rule unat_half [OF 1(2)])
    have x16: "16 \<le> unat x" using True by (simp add: word_le_nat_alt)
    have "unat x < 2 ^ LENGTH(32)" by (rule unsigned_less)
    then have "unat ?x < 4294967295" unfolding u by simp
    then have "?x \<noteq> - 1" by (rule unat_not_max)
    from 1(1) [OF True this] obtain y n where
      y: "fb_loop ?x (e + 1) = (y, e + 1 + int n)" "y < 16" "n > 0 \<longrightarrow> 8 \<le> y"
      "unat ?x \<le> unat y * 2 ^ n" "unat y * 2 ^ n < unat ?x + 2 ^ n" by blast
    have "8 \<le> unat ?x" unfolding u using x16 by simp
    moreover have "n = 0 \<Longrightarrow> unat y = unat ?x" using y(4,5) by simp
    ultimately have "8 \<le> y" using y(3) by (cases "n = 0") (auto simp: word_le_nat_alt)
    moreover have "unat x \<le> unat y * 2 ^ Suc n" using y(4) unfolding u by simp
    moreover have "unat y * 2 ^ Suc n < unat x + 2 ^ Suc n"
    proof -
      have "unat y * 2 ^ Suc n + 2 \<le> 2 * unat ?x + 2 ^ Suc n" using y(5) by simp
      moreover have "p + 2 \<le> 2 * ((k + 1) div 2) + q \<Longrightarrow> p < k + q" for p k q :: nat by presburger
      ultimately show ?thesis unfolding u by blast
    qed
    ultimately show ?thesis using y(1,2) True x16
      by (intro exI [of _ y] exI [of _ "Suc n"]) (simp add: fb_loop.simps [of x e])
  qed
qed

text \<open>
  A floating point byte stands for a size that is at least the one it was made from and exceeds
  it by less than a seventh; sizes below sixteen are exact.  The compiler sizes new tables this way.
\<close>

theorem luaO_int2fb_rounds_up:
  assumes "unat x \<le> 2 ^ 30"
  shows "luaO_fb2int (luaO_int2fb x) \<ge> int (unat x) \<and>
    7 * (luaO_fb2int (luaO_int2fb x) - int (unat x)) \<le> int (unat x) \<and>
    (unat x < 16 \<longrightarrow> luaO_fb2int (luaO_int2fb x) = int (unat x))"
proof -
  have "x \<noteq> - 1" by (rule unat_not_max) (use assms in simp)
  from fb_loop_rounds [OF this, of 0] obtain y n where y: "fb_loop x 0 = (y, int n)" "y < 16" "n > 0 \<longrightarrow> 8 \<le> y"
    "unat x \<le> unat y * 2 ^ n" "unat y * 2 ^ n < unat x + 2 ^ n" "n > 0 \<longrightarrow> 16 \<le> unat x"
    unfolding add_0 by blast
  define m where "m = unat y"
  have m: "m < 16" "uint y = int m" using y(2) by (simp_all add: m_def word_less_nat_alt)
  have n0: "n = 0 \<Longrightarrow> unat x = m" using y(4,5) by (simp add: m_def)
  show ?thesis
  proof (cases "m < 8")
    case True
    then have "y < 8" by (simp add: m_def word_less_nat_alt)
    moreover from this have "n = 0" using y(3) by (metis leD neq0_conv)
    moreover have "drop_bit 3 (int m) = 0" using True by (simp add: drop_bit_eq_div)
    ultimately show ?thesis using n0 y(1) m by (simp add: luaO_int2fb_def luaO_fb2int_def)
  next
    case False
    have n: "2 ^ n * 7 \<le> unat x" if "0 < n"
    proof -
      have "8 * 2 ^ n \<le> m * 2 ^ n" using False by (intro mult_le_mono1) simp
      then show ?thesis using y(5) [folded m_def] by linarith
    qed
    have "n < 28"
    proof (rule ccontr)
      assume "\<not> n < 28"
      then have "(2 :: nat) ^ 28 \<le> 2 ^ n" "0 < n"
        using power_increasing [of 28 n "2 :: nat"] by simp_all
      then show False using n assms by simp
    qed
    have ny: "\<not> y < 8" using False by (simp add: m_def word_less_nat_alt)
    have fb: "luaO_int2fb x = push_bit 3 (int n + 1) OR (int m - 8)"
      using y(1) ny m by (simp add: luaO_int2fb_def)
    have low: "0 \<le> int m - 8" "int m - 8 < 8" using False m by simp_all
    have e: "luaO_int2fb x = 8 * (int n + 1) + (int m - 8)"
      unfolding fb using or_low_bits(1) [OF low, of "int n + 1"] by simp
    have "luaO_fb2int (luaO_int2fb x) = c_int (push_bit n (int m))"
      unfolding e luaO_fb2int_def using or_low_bits(2,3) [OF low, of "int n + 1"] \<open>n < 28\<close>
      by (simp add: and_31 Let_def)
    moreover have "push_bit n (int m) = int (m * 2 ^ n)" by (simp add: push_bit_eq_mult)
    moreover have up: "m * 2 ^ n < unat x + 2 ^ n" "unat x \<le> m * 2 ^ n" using y(4,5) by (simp_all add: m_def)
    moreover have "7 * (m * 2 ^ n) \<le> 8 * unat x" "m * 2 ^ n < 2 ^ 31"
    proof -
      have "n = 0 \<or> 2 ^ n * 7 \<le> unat x" using n by blast
      then show "7 * (m * 2 ^ n) \<le> 8 * unat x" "m * 2 ^ n < 2 ^ 31" using up n0 assms by auto
    qed
    moreover have "c_int (int (m * 2 ^ n)) = int (m * 2 ^ n)"
    proof (rule c_int_eq)
      have "int (m * 2 ^ n) < int (2 ^ 31)" unfolding of_nat_less_iff by (rule \<open>m * 2 ^ n < 2 ^ 31\<close>)
      then show "int (m * 2 ^ n) \<le> INT_MAX" by simp
      show "- 2147483648 \<le> int (m * 2 ^ n)" by (rule order_trans [of _ 0]) simp_all
    qed
    ultimately have res: "luaO_fb2int (luaO_int2fb x) = int (m * 2 ^ n)" "7 * (m * 2 ^ n) \<le> 8 * unat x"
      by simp_all
    have small: "unat x < 16 \<Longrightarrow> m * 2 ^ n = unat x" using n0 y(6) by (cases "n = 0") auto
    have arith: "7 * r \<le> 8 * u \<Longrightarrow> u \<le> r \<Longrightarrow> (u < 16 \<Longrightarrow> r = u) \<Longrightarrow>
        int u \<le> int r \<and> 7 * (int r - int u) \<le> int u \<and> (u < 16 \<longrightarrow> int r = int u)" for r u :: nat
      by auto
    show ?thesis unfolding res(1) by (rule arith [OF res(2) up(2) small])
  qed
qed

theorem luaO_int2fb_rounds_up_witness:
  "luaO_fb2int (luaO_int2fb 1000) \<ge> 1000 \<and> 7 * (luaO_fb2int (luaO_int2fb 1000) - 1000) \<le> 1000"
  using luaO_int2fb_rounds_up [of 1000] by simp

text \<open>The table is the floor of the logarithm.\<close>

lemma log_2_table:
  assumes "0 < k" "k < 256"
  shows "1 \<le> log_2 ! k \<and> 2 ^ nat (log_2 ! k - 1) \<le> k \<and> k < 2 ^ nat (log_2 ! k)"
proof -
  have "k = 1 \<or> k = 2 \<or> k = 3 \<or> 4 \<le> k" using assms(1) by linarith
  then show ?thesis using assms(2) by (auto simp: log_2_def nth_append)
qed

lemma log2_loop_shift:
  "\<exists>y n. log2_loop x l = (y, l + 8 * int n) \<and> unat y < 256 \<and>
    unat y * 2 ^ (8 * n) \<le> unat x \<and> unat x < (unat y + 1) * 2 ^ (8 * n) \<and> (0 < unat x \<longrightarrow> 0 < unat y)"
proof (induction x l rule: log2_loop.induct)
  case (1 x l)
  show ?case
  proof (cases "x \<ge> 256")
    case False
    then show ?thesis
      by (intro exI [of _ x] exI [of _ 0]) (simp add: log2_loop.simps [of x l] word_le_nat_alt)
  next
    case True
    have x: "256 \<le> unat x" using True by (simp add: word_le_nat_alt)
    have u: "unat (drop_bit 8 x) = unat x div 256" unfolding unat_drop by simp
    from 1(1) [OF True] obtain y n where
      y: "log2_loop (drop_bit 8 x) (l + 8) = (y, l + 8 + 8 * int n)" "unat y < 256"
      "unat y * 2 ^ (8 * n) \<le> unat x div 256" "unat x div 256 < (unat y + 1) * 2 ^ (8 * n)"
      "0 < unat x div 256 \<longrightarrow> 0 < unat y"
      unfolding u by (elim exE conjE) (rule that)
    have "256 * (unat y * 2 ^ (8 * n)) \<le> 256 * (unat x div 256)" using y(3) by (rule mult_le_mono2)
    then have "unat y * 2 ^ (8 * Suc n) \<le> unat x" by (simp add: power_add)
    moreover have "256 * (unat x div 256 + 1) \<le> 256 * ((unat y + 1) * 2 ^ (8 * n))"
      using y(4) by (intro mult_le_mono2) simp
    then have "unat x < (unat y + 1) * 2 ^ (8 * Suc n)" by (simp add: power_add)
    moreover have "0 < unat y" using y(5) x by (simp add: div_greater_zero_iff)
    ultimately show ?thesis using y(1,2) True
      by (intro exI [of _ y] exI [of _ "Suc n"]) (simp add: log2_loop.simps [of x l])
  qed
qed

lemma luaO_log2_bounds:
  assumes "0 < unat x"
  shows "0 \<le> luaO_log2 x \<and> 2 ^ nat (luaO_log2 x) \<le> unat x \<and> unat x < 2 ^ nat (luaO_log2 x + 1)"
proof -
  obtain y n where y: "log2_loop x (- 1) = (y, - 1 + 8 * int n)" "unat y < 256"
    "unat y * 2 ^ (8 * n) \<le> unat x" "unat x < (unat y + 1) * 2 ^ (8 * n)" "0 < unat y"
    using log2_loop_shift [of x "- 1"] assms by blast
  define k where "k = log_2 ! unat y"
  have k: "1 \<le> k" "2 ^ nat (k - 1) \<le> unat y" "unat y < 2 ^ nat k"
    using log_2_table [OF y(5,2)] by (simp_all add: k_def)
  have l: "luaO_log2 x = 8 * int n + (k - 1)" using y(1) by (simp add: luaO_log2_def k_def)
  have e: "nat (luaO_log2 x) = nat (k - 1) + 8 * n" "nat (luaO_log2 x + 1) = nat k + 8 * n"
    using k(1) unfolding l by linarith+
  have "2 ^ nat (luaO_log2 x) \<le> unat y * 2 ^ (8 * n)" unfolding e power_add using k(2) by (rule mult_le_mono1)
  moreover have "(unat y + 1) * 2 ^ (8 * n) \<le> 2 ^ nat (luaO_log2 x + 1)"
    unfolding e power_add using k(3) by (intro mult_le_mono1) simp
  ultimately show ?thesis using y(3,4) k(1) l by linarith
qed

text \<open>
  \<^verbatim>\<open>luaO_log2\<close> is the floor of the binary logarithm of every non-zero word, and -1 for zero;
  \<^verbatim>\<open>ceillog2\<close>, which sizes the hash part of a table, is the least exponent whose power reaches the
  number.
\<close>

theorem luaO_log2_floor:
  "luaO_log2 0 = - 1 \<and>
   (x = 0 \<or> 2 ^ nat (luaO_log2 x) \<le> unat x \<and> unat x < 2 ^ nat (luaO_log2 x + 1) \<and> 0 \<le> luaO_log2 x) \<and>
   (x = 0 \<or> unat x \<le> 2 ^ nat (ceillog2 x) \<and> (x = 1 \<or> 2 ^ nat (ceillog2 x - 1) < unat x) \<and> 0 \<le> ceillog2 x)"
proof (intro conjI)
  show z: "luaO_log2 0 = - 1" by code_simp
  show "x = 0 \<or> 2 ^ nat (luaO_log2 x) \<le> unat x \<and> unat x < 2 ^ nat (luaO_log2 x + 1) \<and> 0 \<le> luaO_log2 x"
    using luaO_log2_bounds [of x] by (cases "x = 0") (auto simp: unat_gt_0)
  show "x = 0 \<or> unat x \<le> 2 ^ nat (ceillog2 x) \<and> (x = 1 \<or> 2 ^ nat (ceillog2 x - 1) < unat x) \<and> 0 \<le> ceillog2 x"
  proof (cases "x = 0 \<or> x = 1")
    case True
    then show ?thesis using z by (auto simp: ceillog2_def)
  next
    case False
    then have x: "1 < unat x" by (metis One_nat_def less_one linorder_neqE_nat unat_1 unat_eq_zero word_unat_eq_iff)
    then have "unat (x - 1) = unat x - 1" using False by (intro unat_minus_one) simp
    then have "0 < unat (x - 1)" "Suc (unat (x - 1)) = unat x" using x by simp_all
    then show ?thesis using luaO_log2_bounds [of "x - 1"] by (auto simp: ceillog2_def)
  qed
qed

text \<open>
  The description of a chunk always fits its buffer, terminator included, whatever the name of
  the source; the buffer must hold the fixed parts.
\<close>

theorem luaO_chunkid_fits:
  assumes "17 \<le> bufflen" "bufflen < 2 ^ 32"
  shows "length (luaO_chunkid src bufflen) < bufflen"
proof -
  have s: "size_sub bufflen 8 = bufflen - 8" "size_sub bufflen 17 = bufflen - 17"
    using assms by (simp_all add: size_sub_def nat_diff_distrib)
  have t: "length (takeWhile P src) \<le> length src" for P by (rule length_takeWhile_le)
  show ?thesis using assms t [of "\<lambda>c. c \<noteq> CHR 0x0a \<and> c \<noteq> CHR 0x0d"]
    by (auto simp: luaO_chunkid_def Let_def s min_def)
qed

theorem luaO_chunkid_fits_witness:
  "length (luaO_chunkid (CHR ''@'' # replicate 100 CHR ''x'') LUA_IDSIZE) < LUA_IDSIZE"
  using luaO_chunkid_fits [of LUA_IDSIZE "CHR ''@'' # replicate 100 CHR ''x''"] by (simp add: LUA_IDSIZE_def)

end
