(* ===== verification/LuaZio.thy ===== *)
theory LuaZio
  imports LuaObject
begin

text \<open>
  Memory sizes (\<^verbatim>\<open>lualib/lmem.c\<close>, \<^verbatim>\<open>lmem.h\<close>) and buffered input streams (\<^verbatim>\<open>lualib/lzio.c\<close>, \<^verbatim>\<open>lzio.h\<close>).
  A stream is a current block, a position in it and the count of bytes left, with a script of what
  the reader function will return: no block, an empty block, or a block of bytes.  A read outside
  the current block is \<open>None\<close>.
\<close>

section \<open>Errors and memory\<close>

datatype lua_throw = LUA_ERRRUN "char list" | LUA_ERRSYNTAX "char list" | LUA_ERRMEM

definition MAX_SIZET :: int where "MAX_SIZET = 4294967293"
definition MAX_INT :: int where "MAX_INT = INT_MAX - 2"
definition MINSIZEARRAY :: int where "MINSIZEARRAY = 4"

definition luaM_toobig :: lua_throw where
  "luaM_toobig = LUA_ERRRUN ''memory allocation error: block too big''"

text \<open>The allocator's state: the bytes in use; the parameter says whether it grants the request.\<close>

definition luaM_realloc :: "bool \<Rightarrow> 32 word \<Rightarrow> 32 word \<Rightarrow> 32 word \<Rightarrow> lua_throw + 32 word" where
  "luaM_realloc granted totalbytes osize nsize =
     (if \<not> granted \<and> nsize > 0 then Inl LUA_ERRMEM else Inr ((totalbytes - osize) + nsize))"

definition luaM_reallocv :: "bool \<Rightarrow> 32 word \<Rightarrow> int \<Rightarrow> int \<Rightarrow> int \<Rightarrow> lua_throw + 32 word" where
  "luaM_reallocv granted totalbytes on n e =
     (if (n + 1) mod 2 ^ 32 \<le> MAX_SIZET div e
      then luaM_realloc granted totalbytes (word_of_int (on * e)) (word_of_int (n * e))
      else Inl luaM_toobig)"

definition luaM_growaux ::
  "bool \<Rightarrow> 32 word \<Rightarrow> int \<Rightarrow> int \<Rightarrow> int \<Rightarrow> char list \<Rightarrow> lua_throw + (32 word \<times> int)" where
  "luaM_growaux granted totalbytes sz size_elems limit errormsg =
     (if sz \<ge> limit div 2 \<and> sz \<ge> limit then Inl (LUA_ERRRUN errormsg)
      else
        (let newsize = (if sz \<ge> limit div 2 then limit
                        else if sz * 2 < MINSIZEARRAY then MINSIZEARRAY else sz * 2)
         in case luaM_reallocv granted totalbytes sz newsize size_elems of
              Inl e \<Rightarrow> Inl e
            | Inr tb \<Rightarrow> Inr (tb, newsize)))"

section \<open>Streams\<close>

record ZIO =
  zn :: nat
  zp :: nat
  zblock :: "char list"
  zreader :: "char list option list"

definition EOZ :: int where
  "EOZ = - 1"

definition luaZ_init :: "char list option list \<Rightarrow> ZIO" where
  "luaZ_init reader = \<lparr>zn = 0, zp = 0, zblock = [], zreader = reader\<rparr>"

fun luaZ_fill :: "ZIO \<Rightarrow> ZIO \<times> int" where
  "luaZ_fill z =
     (case zreader z of
        [] \<Rightarrow> (z, EOZ)
      | None # cs \<Rightarrow> (z\<lparr>zreader := cs\<rparr>, EOZ)
      | Some [] # cs \<Rightarrow> (z\<lparr>zreader := cs\<rparr>, EOZ)
      | Some (c # b) # cs \<Rightarrow> (\<lparr>zn = length b, zp = 1, zblock = c # b, zreader = cs\<rparr>, uchar c))"

definition luaZ_lookahead :: "ZIO \<Rightarrow> (ZIO \<times> int) option" where
  "luaZ_lookahead z =
     (let (z1, c) = (if zn z = 0 then luaZ_fill z else (z, 0))
      in if zn z = 0 \<and> c = EOZ then Some (z1, EOZ)
         else (let z2 = (if zn z = 0 then z1\<lparr>zn := zn z1 + 1, zp := zp z1 - 1\<rparr> else z1)
               in if zp z2 < length (zblock z2) then Some (z2, uchar (zblock z2 ! zp z2)) else None))"

text \<open>\<^verbatim>\<open>zgetc\<close>; the count of an exhausted stream wraps to the largest \<^verbatim>\<open>size_t\<close>.\<close>

definition zgetc :: "ZIO \<Rightarrow> (ZIO \<times> int) option" where
  "zgetc z =
     (if zn z > 0
      then if zp z < length (zblock z)
           then Some (z\<lparr>zn := zn z - 1, zp := Suc (zp z)\<rparr>, uchar (zblock z ! zp z)) else None
      else Some (luaZ_fill (z\<lparr>zn := 2 ^ 32 - 1\<rparr>)))"

text \<open>\<^verbatim>\<open>luaZ_read\<close>: the bytes copied to the destination and the number of bytes missing.\<close>

partial_function (option) luaZ_read :: "ZIO \<Rightarrow> nat \<Rightarrow> (ZIO \<times> char list \<times> nat) option" where
  "luaZ_read z n =
     (if n = 0 then Some (z, [], 0)
      else do {
        (z1, c) \<leftarrow> luaZ_lookahead z;
        if c = EOZ then Some (z1, [], n)
        else do {
          let m = (if n \<le> zn z1 then n else zn z1);
          b \<leftarrow> (if zp z1 + m \<le> length (zblock z1) then Some (take m (drop (zp z1) (zblock z1))) else None);
          (z2, bs, missing) \<leftarrow> luaZ_read (z1\<lparr>zn := zn z1 - m, zp := zp z1 + m\<rparr>) (n - m);
          Some (z2, b @ bs, missing)
        }
      })"

declare luaZ_read.simps [code]

text \<open>The buffer for tokens and strings: its memory and its size.\<close>

definition LUA_MINBUFFER :: nat where
  "LUA_MINBUFFER = 32"

record Mbuffer =
  mbuffer :: block
  buffsize :: nat

definition luaZ_openspace :: "Mbuffer \<Rightarrow> nat \<Rightarrow> Mbuffer" where
  "luaZ_openspace b n =
     (if n > buffsize b
      then (let n' = (if n < LUA_MINBUFFER then LUA_MINBUFFER else n)
            in \<lparr>mbuffer = realloc_block (mbuffer b) (int n'), buffsize = n'\<rparr>)
      else b)"

section \<open>The bytes of a stream\<close>

fun script_bytes :: "char list option list \<Rightarrow> char list" where
  "script_bytes (Some (c # b) # cs) = (c # b) @ script_bytes cs"
| "script_bytes cs = []"

definition stream :: "ZIO \<Rightarrow> char list" where
  "stream z = take (zn z) (drop (zp z) (zblock z)) @ script_bytes (zreader z)"

definition zio_ok :: "ZIO \<Rightarrow> bool" where
  "zio_ok z \<longleftrightarrow> zp z + zn z \<le> length (zblock z)"

lemma zio_ok_init [simp]: "zio_ok (luaZ_init r)" "stream (luaZ_init r) = script_bytes r"
  by (simp_all add: zio_ok_def luaZ_init_def stream_def)

lemma uchar_not_EOZ [simp]: "uchar c \<noteq> EOZ"
  using uchar_range [of c] by (auto simp: EOZ_def)

lemma fill_cases:
  assumes "zn z = 0"
  obtains (eoz) "script_bytes (zreader z) = []" "snd (luaZ_fill z) = EOZ" "zblock (fst (luaZ_fill z)) = zblock z"
      "zn (fst (luaZ_fill z)) = 0" "zp (fst (luaZ_fill z)) = zp z"
  | (byte) c b z1 where "luaZ_fill z = (z1, uchar c)" "zn z1 = length b" "zp z1 = 1" "zblock z1 = c # b"
      "script_bytes (zreader z) = c # b @ script_bytes (zreader z1)"
proof (cases "zreader z" rule: script_bytes.cases)
  case (1 c b cs)
  then show thesis by (intro byte [of "\<lparr>zn = length b, zp = 1, zblock = c # b, zreader = cs\<rparr>" c b]) simp_all
qed (use assms in \<open>auto intro!: eoz\<close>)

text \<open>\<^verbatim>\<open>luaZ_lookahead\<close> makes the first byte of the stream available and consumes nothing.\<close>

lemma lookahead_ok:
  assumes "zio_ok z"
  shows "\<exists>z1. zio_ok z1 \<and>
    (if stream z = [] then luaZ_lookahead z = Some (z1, EOZ)
     else luaZ_lookahead z = Some (z1, uchar (hd (stream z))) \<and> stream z1 = stream z \<and> 0 < zn z1)"
proof (cases "zn z = 0")
  case False
  then have "stream z \<noteq> [] \<and> hd (stream z) = zblock z ! zp z"
    using assms by (auto simp: stream_def zio_ok_def hd_append hd_drop_conv_nth hd_take)
  then show ?thesis using False assms
    by (intro exI [of _ z]) (auto simp: luaZ_lookahead_def zio_ok_def)
next
  case True
  show ?thesis
  proof (cases rule: fill_cases [OF True, case_names eoz byte])
    case eoz
    then show ?thesis using True assms
      by (intro exI [of _ "fst (luaZ_fill z)"])
        (auto simp: luaZ_lookahead_def stream_def zio_ok_def split_beta simp del: luaZ_fill.simps)
  next
    case (byte c b z1)
    then show ?thesis using True
      by (intro exI [of _ "z1\<lparr>zn := zn z1 + 1, zp := zp z1 - 1\<rparr>"])
        (auto simp: luaZ_lookahead_def stream_def zio_ok_def simp del: luaZ_fill.simps)
  qed
qed

lemma stream_skip:
  assumes "zio_ok z" "m \<le> zn z"
  shows "stream (z\<lparr>zn := zn z - m, zp := zp z + m\<rparr>) = drop m (stream z)"
    "take m (drop (zp z) (zblock z)) = take m (stream z)"
    "zio_ok (z\<lparr>zn := zn z - m, zp := zp z + m\<rparr>)" "m \<le> length (stream z)"
  using assms by (auto simp: stream_def zio_ok_def drop_take add.commute min_def)

lemma luaZ_read_ok:
  assumes "zio_ok z"
  shows "\<exists>z'. luaZ_read z n = Some (z', take n (stream z), n - length (stream z)) \<and> zio_ok z' \<and>
    (n \<le> length (stream z) \<longrightarrow> stream z' = drop n (stream z))"
  using assms
proof (induction n arbitrary: z rule: less_induct)
  case (less n)
  show ?case
  proof (cases "n = 0")
    case True
    then show ?thesis using less.prems
      by (intro exI [of _ z]) (simp add: luaZ_read.simps [of z 0])
  next
    case False
    obtain z1 where z1: "zio_ok z1" "if stream z = [] then luaZ_lookahead z = Some (z1, EOZ)
       else luaZ_lookahead z = Some (z1, uchar (hd (stream z))) \<and> stream z1 = stream z \<and> 0 < zn z1"
      using lookahead_ok [OF less.prems] by blast
    show ?thesis
    proof (cases "stream z = []")
      case True
      then show ?thesis using z1 False by (simp add: luaZ_read.simps [of z n])
    next
      case ne: False
      define m where "m = (if n \<le> zn z1 then n else zn z1)"
      let ?z = "z1\<lparr>zn := zn z1 - m, zp := zp z1 + m\<rparr>"
      have m: "m \<le> zn z1" "0 < m" "m \<le> n" using False z1(2) ne by (auto simp: m_def)
      note skip = stream_skip [OF z1(1) m(1)]
      have eq: "stream z1 = stream z" using z1(2) ne by simp
      obtain z2 where z2: "luaZ_read ?z (n - m) = Some (z2, take (n - m) (stream ?z), n - m - length (stream ?z))"
        "zio_ok z2" "n - m \<le> length (stream ?z) \<longrightarrow> stream z2 = drop (n - m) (stream ?z)"
        using less.IH [of "n - m" ?z] m skip(3) by auto
      have bounds: "zp z1 + m \<le> length (zblock z1)" using z1(1) m(1) by (simp add: zio_ok_def)
      have take: "take m (stream z) @ take (n - m) (drop m (stream z)) = take n (stream z)"
        using m(3) by (metis le_add_diff_inverse take_add)
      have "luaZ_read z n = Some (z2, take m (stream z) @ take (n - m) (drop m (stream z)),
          n - m - (length (stream z) - m))"
        using z1(2) ne False z2(1) bounds unfolding skip(1) eq
        by (simp add: luaZ_read.simps [of z n] m_def [symmetric] skip(2) eq)
      moreover have "n - m - (length (stream z) - m) = n - length (stream z)"
        using skip(4) eq by simp
      moreover have "n \<le> length (stream z) \<longrightarrow> stream z2 = drop n (stream z)"
        using z2(3) m(3) unfolding skip(1) eq by (simp add: le_diff_conv)
      ultimately show ?thesis unfolding take using z2(2) by (intro exI [of _ z2]) simp
    qed
  qed
qed

text \<open>
  C26: Reading \<open>n\<close> bytes always ends inside the blocks the reader returned, and delivers the next
  \<open>n\<close> bytes of the stream in order, however the reader cuts the stream into blocks; when the stream
  is shorter it delivers all of it and says how many bytes are missing.
\<close>

theorem luaZ_read_stream:
  assumes "zio_ok z"
  shows "\<exists>z'. luaZ_read z n = Some (z', take n (stream z), n - length (stream z)) \<and> zio_ok z' \<and>
    (n \<le> length (stream z) \<longrightarrow> stream z' = drop n (stream z))"
  by (rule luaZ_read_ok [OF assms])

theorem luaZ_read_stream_witness:
  "\<exists>z'. luaZ_read (luaZ_init [Some ''ab'', Some ''cde'', None]) 4 = Some (z', ''abcd'', 0) \<and> stream z' = ''e''"
  using luaZ_read_stream [of "luaZ_init [Some ''ab'', Some ''cde'', None]" 4] by auto

lemma zgetc_ok:
  assumes "zio_ok z" "stream z = c # cs"
  shows "\<exists>z'. zgetc z = Some (z', uchar c) \<and> zio_ok z' \<and> stream z' = cs"
proof (cases "zn z = 0")
  case False
  then have "zp z < length (zblock z)" using assms(1) by (simp add: zio_ok_def)
  moreover from this have "stream z = zblock z ! zp z # stream (z\<lparr>zn := zn z - 1, zp := Suc (zp z)\<rparr>)"
    using False by (simp add: stream_def Cons_nth_drop_Suc [symmetric] take_Cons')
  ultimately show ?thesis using False assms by (auto simp: zgetc_def zio_ok_def)
next
  case True
  let ?z = "z\<lparr>zn := 2 ^ 32 - 1\<rparr>"
  have r: "zreader ?z = zreader z" by simp
  have "script_bytes (zreader z) = c # cs" using assms(2) True by (simp add: stream_def)
  then obtain b rs where b: "zreader z = Some (c # b) # rs" "cs = b @ script_bytes rs"
    by (cases "zreader z" rule: script_bytes.cases) auto
  then show ?thesis using True by (auto simp: zgetc_def zio_ok_def stream_def)
qed

lemma zgetc_end:
  assumes "zio_ok z" "stream z = []"
  shows "\<exists>z'. zgetc z = Some (z', EOZ)"
proof -
  have "zn z = 0" using assms by (auto simp: stream_def zio_ok_def)
  moreover from this have "script_bytes (zreader z) = []" using assms(2) by (simp add: stream_def)
  ultimately show ?thesis
    by (cases "zreader z" rule: script_bytes.cases) (auto simp: zgetc_def)
qed

text \<open>
  A vector that is full grows to at least one more element, to at most twice its size or the
  minimum, and never beyond the limit; the only errors are a full limit, a block that is too big and
  a refused allocation.
\<close>

theorem luaM_growaux_grows:
  assumes "0 \<le> sz" "MINSIZEARRAY \<le> limit" "limit \<le> MAX_INT" "1 \<le> e" "e \<le> 16"
  shows "case luaM_growaux granted tb sz e limit msg of
      Inr (tb', n) \<Rightarrow> sz < n \<and> n \<le> limit \<and> n \<le> max (2 * sz + 1) MINSIZEARRAY
        \<and> tb' = tb - word_of_int (sz * e) + word_of_int (n * e)
    | Inl err \<Rightarrow> err = LUA_ERRRUN msg \<and> limit \<le> sz \<or> err = luaM_toobig \<or> err = LUA_ERRMEM \<and> \<not> granted"
  using assms
  by (auto simp: luaM_growaux_def luaM_reallocv_def luaM_realloc_def MINSIZEARRAY_def max_def Let_def
      split: sum.splits if_splits)

theorem luaM_growaux_grows_witness:
  "case luaM_growaux True 0 100 4 MAX_INT ''too many'' of
     Inr (tb', n) \<Rightarrow> 100 < n \<and> n \<le> 201 | Inl err \<Rightarrow> err = luaM_toobig"
  using luaM_growaux_grows [where sz = 100 and limit = MAX_INT and e = 4 and granted = True and tb = 0 and msg = "''too many''"]
  by (auto simp: MINSIZEARRAY_def MAX_INT_def split: sum.splits)

end
