(* ===== verification/LuaCheck.thy ===== *)
theory LuaCheck
  imports LuaObject
begin

text \<open>
  The bytecode checker (\<^verbatim>\<open>symbexec\<close> in \<^verbatim>\<open>lualib/ldebug.c\<close>), which guards the interpreter against
  malformed precompiled chunks, and the names it finds for error messages.  Results have two layers:
  \<open>None\<close> is a read outside an array; \<open>Some None\<close> is a failed check, the \<^verbatim>\<open>return 0\<close> of the macro
  \<^verbatim>\<open>check\<close>; \<open>Some (Some x)\<close> goes on with \<open>x\<close>.
\<close>

section \<open>Array reads and checks\<close>

definition at :: "'a list \<Rightarrow> int \<Rightarrow> 'a option" where
  "at xs i = (if 0 \<le> i \<and> i < int (length xs) then Some (xs ! nat i) else None)"

definition check :: "bool \<Rightarrow> 'a option option \<Rightarrow> 'a option option" where
  "check b m = (if b then m else Some None)"

abbreviation sizecode :: "'n Proto \<Rightarrow> int" where "sizecode f \<equiv> int (length (code f))"
abbreviation sizek :: "'n Proto \<Rightarrow> int" where "sizek f \<equiv> int (length (pk f))"
abbreviation sizep :: "'n Proto \<Rightarrow> int" where "sizep f \<equiv> int (length (pp f))"

definition op_at :: "'n Proto \<Rightarrow> int \<Rightarrow> OpCode option option" where
  "op_at pt pc = map_option GET_OPCODE (at (code pt) pc)"

definition checkreg :: "'n Proto \<Rightarrow> int \<Rightarrow> bool" where
  "checkreg pt reg \<longleftrightarrow> reg < maxstacksize pt"

definition precheck :: "'n Proto \<Rightarrow> bool option" where
  "precheck pt =
     (if \<not> maxstacksize pt \<le> MAXSTACK then Some False
      else if \<not> numparams pt + (is_vararg pt AND VARARG_HASARG) \<le> maxstacksize pt then Some False
      else if is_vararg pt AND VARARG_NEEDSARG \<noteq> 0 \<and> is_vararg pt AND VARARG_HASARG = 0 then Some False
      else if \<not> int (length (upvalues pt)) \<le> nups pt then Some False
      else if \<not> (int (length (lineinfo pt)) = sizecode pt \<or> lineinfo pt = []) then Some False
      else if \<not> sizecode pt > 0 then Some False
      else do { q \<leftarrow> op_at pt (sizecode pt - 1); Some (q = Some OP_RETURN) })"

definition luaG_checkopenop :: "Instruction \<Rightarrow> bool" where
  "luaG_checkopenop i =
     (if GET_OPCODE i \<in> {Some OP_CALL, Some OP_TAILCALL, Some OP_RETURN, Some OP_SETLIST}
      then GETARG_B i = 0 else False)"

definition checkopenop :: "'n Proto \<Rightarrow> int \<Rightarrow> bool option" where
  "checkopenop pt pc = map_option luaG_checkopenop (at (code pt) (pc + 1))"

fun checkArgMode :: "'n Proto \<Rightarrow> int \<Rightarrow> OpArgMask \<Rightarrow> bool" where
  "checkArgMode pt r OpArgN = (r = 0)"
| "checkArgMode pt r OpArgU = True"
| "checkArgMode pt r OpArgR = checkreg pt r"
| "checkArgMode pt r OpArgK = (if ISK r then INDEXK r < sizek pt else r < maxstacksize pt)"

section \<open>Operands\<close>

text \<open>How many instructions before \<^verbatim>\<open>dest\<close> look like a \<^verbatim>\<open>SETLIST\<close> whose count is in the next word.\<close>

fun setlist_run :: "'n Proto \<Rightarrow> nat \<Rightarrow> nat option" where
  "setlist_run pt 0 = Some 0"
| "setlist_run pt (Suc d) = do {
     i \<leftarrow> at (code pt) (int d);
     if GET_OPCODE i = Some OP_SETLIST \<and> GETARG_C i = 0
     then map_option Suc (setlist_run pt d) else Some 0
   }"

text \<open>The operands \<^verbatim>\<open>b\<close> and \<^verbatim>\<open>c\<close> of the instruction at \<^verbatim>\<open>pc\<close>, checked by its format.\<close>

definition operands :: "'n Proto \<Rightarrow> int \<Rightarrow> OpCode \<Rightarrow> Instruction \<Rightarrow> (int \<times> int) option option" where
  "operands pt pc q i =
     (case getOpMode q of
        iABC \<Rightarrow>
          (let b = GETARG_B i; c = GETARG_C i
           in check (checkArgMode pt b (getBMode q)) (check (checkArgMode pt c (getCMode q)) (Some (Some (b, c)))))
      | iABx \<Rightarrow>
          (let b = GETARG_Bx i
           in check (getBMode q = OpArgK \<longrightarrow> b < sizek pt) (Some (Some (b, 0))))
      | iAsBx \<Rightarrow>
          (let b = GETARG_sBx i
           in if getBMode q = OpArgR
              then (let dest = pc + 1 + b
                    in check (0 \<le> dest \<and> dest < sizecode pt)
                         (if dest > 0
                          then do { j \<leftarrow> setlist_run pt (nat dest); check (even j) (Some (Some (b, 0))) }
                          else Some (Some (b, 0))))
              else Some (Some (b, 0))))"

section \<open>One instruction\<close>

text \<open>The registers of the instruction, then the new \<^verbatim>\<open>pc\<close> and \<^verbatim>\<open>last\<close>; one clause for each case.\<close>

definition do_jump :: "int \<Rightarrow> int \<Rightarrow> int \<Rightarrow> int \<Rightarrow> int" where
  "do_jump lastpc reg pc b =
     (let dest = pc + 1 + b in if reg \<noteq> NO_REG \<and> pc < dest \<and> dest \<le> lastpc then pc + b else pc)"

fun closure_ops :: "'n Proto \<Rightarrow> int \<Rightarrow> int list \<Rightarrow> bool option" where
  "closure_ops pt pc [] = Some True"
| "closure_ops pt pc (j # js) = do {
     q \<leftarrow> op_at pt (pc + j);
     if q = Some OP_GETUPVAL \<or> q = Some OP_MOVE then closure_ops pt pc js else Some False
   }"

definition symb_call ::
  "'n Proto \<Rightarrow> int \<Rightarrow> int \<Rightarrow> int \<Rightarrow> int \<Rightarrow> int \<Rightarrow> int \<Rightarrow> (int \<times> int) option option" where
  "symb_call pt reg a b c pc lst =
     check (b \<noteq> 0 \<longrightarrow> checkreg pt (a + b - 1)) (do {
       ok \<leftarrow> (if c - 1 = - 1 then checkopenop pt pc
             else Some (c - 1 \<noteq> 0 \<longrightarrow> checkreg pt (a + (c - 1) - 1)));
       check ok (Some (Some (pc, if reg \<ge> a then pc else lst)))
     })"

definition symb_op ::
  "'n Proto \<Rightarrow> int \<Rightarrow> int \<Rightarrow> OpCode \<Rightarrow> int \<Rightarrow> int \<Rightarrow> int \<Rightarrow> int \<Rightarrow> int \<Rightarrow> (int \<times> int) option option" where
  "symb_op pt lastpc reg q a b c pc lst =
     (case q of
        OP_LOADBOOL \<Rightarrow>
          (if c = 1
           then check (pc + 2 < sizecode pt) (do {
             i \<leftarrow> at (code pt) (pc + 1);
             check (GET_OPCODE i \<noteq> Some OP_SETLIST \<or> GETARG_C i \<noteq> 0) (Some (Some (pc, lst)))
           })
           else Some (Some (pc, lst)))
      | OP_LOADNIL \<Rightarrow> Some (Some (pc, if a \<le> reg \<and> reg \<le> b then pc else lst))
      | OP_GETUPVAL \<Rightarrow> check (b < nups pt) (Some (Some (pc, lst)))
      | OP_SETUPVAL \<Rightarrow> check (b < nups pt) (Some (Some (pc, lst)))
      | OP_GETGLOBAL \<Rightarrow> do { v \<leftarrow> at (pk pt) b; check (ttype v = LUA_TSTRING) (Some (Some (pc, lst))) }
      | OP_SETGLOBAL \<Rightarrow> do { v \<leftarrow> at (pk pt) b; check (ttype v = LUA_TSTRING) (Some (Some (pc, lst))) }
      | OP_SELF \<Rightarrow> check (checkreg pt (a + 1)) (Some (Some (pc, if reg = a + 1 then pc else lst)))
      | OP_CONCAT \<Rightarrow> check (b < c) (Some (Some (pc, lst)))
      | OP_TFORLOOP \<Rightarrow>
          check (c \<ge> 1) (check (checkreg pt (a + 2 + c))
            (Some (Some (pc, if reg \<ge> a + 2 then pc else lst))))
      | OP_FORLOOP \<Rightarrow> check (checkreg pt (a + 3)) (Some (Some (do_jump lastpc reg pc b, lst)))
      | OP_FORPREP \<Rightarrow> check (checkreg pt (a + 3)) (Some (Some (do_jump lastpc reg pc b, lst)))
      | OP_JMP \<Rightarrow> Some (Some (do_jump lastpc reg pc b, lst))
      | OP_CALL \<Rightarrow> symb_call pt reg a b c pc lst
      | OP_TAILCALL \<Rightarrow> symb_call pt reg a b c pc lst
      | OP_RETURN \<Rightarrow> check (b - 1 > 0 \<longrightarrow> checkreg pt (a + (b - 1) - 1)) (Some (Some (pc, lst)))
      | OP_SETLIST \<Rightarrow>
          check (b > 0 \<longrightarrow> checkreg pt (a + b))
            (if c = 0 then check (pc + 1 < sizecode pt - 1) (Some (Some (pc + 1, lst)))
             else Some (Some (pc, lst)))
      | OP_CLOSURE \<Rightarrow>
          check (b < sizep pt) (do {
            f \<leftarrow> at (pp pt) b;
            check (pc + nups f < sizecode pt) (do {
              ok \<leftarrow> closure_ops pt pc [1..nups f];
              check ok (Some (Some (if reg \<noteq> NO_REG then pc + nups f else pc, lst)))
            })
          })
      | OP_VARARG \<Rightarrow>
          check (is_vararg pt AND VARARG_ISVARARG \<noteq> 0 \<and> is_vararg pt AND VARARG_NEEDSARG = 0) (do {
            open_ok \<leftarrow> (if b - 1 = - 1 then checkopenop pt pc else Some True);
            check open_ok (check (checkreg pt (a + (b - 1) - 1)) (Some (Some (pc, lst))))
          })
      | _ \<Rightarrow> Some (Some (pc, lst)))"

definition symb_step ::
  "'n Proto \<Rightarrow> int \<Rightarrow> int \<Rightarrow> int \<Rightarrow> int \<Rightarrow> (int \<times> int) option option" where
  "symb_step pt lastpc reg pc lst = do {
     i \<leftarrow> at (code pt) pc;
     (case GET_OPCODE i of
        None \<Rightarrow> Some None
      | Some q \<Rightarrow>
          check (checkreg pt (GETARG_A i)) (do {
            r \<leftarrow> operands pt pc q i;
            (case r of
               None \<Rightarrow> Some None
             | Some (b, c) \<Rightarrow> do {
                 let lst1 = (if testAMode q \<and> GETARG_A i = reg then pc else lst);
                 skip_ok \<leftarrow> (if testTMode q
                   then if pc + 2 < sizecode pt then map_option (\<lambda>q. q = Some OP_JMP) (op_at pt (pc + 1))
                        else Some False
                   else Some True);
                 check skip_ok (symb_op pt lastpc reg q (GETARG_A i) b c pc lst1)
               })
          }))
   }"

partial_function (option) symb_loop ::
  "'n Proto \<Rightarrow> int \<Rightarrow> int \<Rightarrow> int \<Rightarrow> int \<Rightarrow> int option option" where
  "symb_loop pt lastpc reg pc lst =
     (if pc < lastpc
      then do {
        r \<leftarrow> symb_step pt lastpc reg pc lst;
        (case r of None \<Rightarrow> Some None | Some s \<Rightarrow> symb_loop pt lastpc reg (fst s + 1) (snd s))
      }
      else Some (Some lst))"

declare symb_loop.simps [code]

definition symbexec :: "'n Proto \<Rightarrow> int \<Rightarrow> int \<Rightarrow> Instruction option" where
  "symbexec pt lastpc reg = do {
     ok \<leftarrow> precheck pt;
     if ok then do {
       r \<leftarrow> symb_loop pt lastpc reg 0 (sizecode pt - 1);
       (case r of None \<Rightarrow> Some 0 | Some l \<Rightarrow> at (code pt) l)
     }
     else Some 0
   }"

definition luaG_checkcode :: "'n Proto \<Rightarrow> bool option" where
  "luaG_checkcode pt = map_option (\<lambda>i. i \<noteq> 0) (symbexec pt (sizecode pt) NO_REG)"

section \<open>Names for error messages\<close>

text \<open>
  \<^verbatim>\<open>luaF_getlocalname\<close>: the variables in their order, while they have started.  The outer \<open>None\<close> is a
  name read through the null pointer.
\<close>

fun getlocalname :: "LocVar list \<Rightarrow> int \<Rightarrow> int \<Rightarrow> char list option option" where
  "getlocalname [] n pc = Some None"
| "getlocalname (v # vs) n pc =
     (if startpc v \<le> pc
      then if pc < endpc v
           then if n - 1 = 0 then map_option Some (varname v) else getlocalname vs (n - 1) pc
           else getlocalname vs n pc
      else Some None)"

definition luaF_getlocalname :: "'n Proto \<Rightarrow> int \<Rightarrow> int \<Rightarrow> char list option option" where
  "luaF_getlocalname f local_number pc = getlocalname (locvars f) local_number pc"

definition kname :: "'n Proto \<Rightarrow> int \<Rightarrow> char list option" where
  "kname p c =
     (if ISK c
      then do { v \<leftarrow> at (pk p) (INDEXK c); (case v of String s \<Rightarrow> Some s | Null_string \<Rightarrow> None | _ \<Rightarrow> Some ''?'') }
      else Some ''?'')"

text \<open>\<^verbatim>\<open>getobjname\<close> of a Lua function at \<^verbatim>\<open>pc\<close>: the kind and the name, if one is found.\<close>

partial_function (option) getobjname ::
  "'n Proto \<Rightarrow> int \<Rightarrow> int \<Rightarrow> (char list \<times> char list) option option" where
  "getobjname p pc stackpos =
     luaF_getlocalname p (stackpos + 1) pc \<bind> (\<lambda>nm. case nm of
        Some name \<Rightarrow> Some (Some (''local'', name))
      | None \<Rightarrow> do {
          i \<leftarrow> symbexec p pc stackpos;
          if GET_OPCODE i = Some OP_GETGLOBAL then do {
            v \<leftarrow> at (pk p) (GETARG_Bx i);
            (case v of String s \<Rightarrow> Some (Some (''global'', s)) | _ \<Rightarrow> None)
          }
          else if GET_OPCODE i = Some OP_MOVE then
            (if GETARG_B i < GETARG_A i then getobjname p pc (GETARG_B i) else Some None)
          else if GET_OPCODE i = Some OP_GETTABLE then
            map_option (\<lambda>s. Some (''field'', s)) (kname p (GETARG_C i))
          else if GET_OPCODE i = Some OP_GETUPVAL then
            (if upvalues p \<noteq> [] then do { u \<leftarrow> at (upvalues p) (GETARG_B i); s \<leftarrow> u; Some (Some (''upvalue'', s)) }
             else Some (Some (''upvalue'', ''?'')))
          else if GET_OPCODE i = Some OP_SELF then
            map_option (\<lambda>s. Some (''method'', s)) (kname p (GETARG_C i))
          else Some None
        })"

section \<open>The checker stays inside the arrays\<close>

text \<open>The bytes of a prototype are bytes.\<close>

definition bytes_ok :: "'n Proto \<Rightarrow> bool" where
  "bytes_ok f \<longleftrightarrow> 0 \<le> nups f \<and> 0 \<le> numparams f \<and> 0 \<le> is_vararg f \<and> 0 \<le> maxstacksize f \<and> (\<forall>g\<in>set (pp f). 0 \<le> nups g)"

lemma at_some [simp]: "0 \<le> i \<Longrightarrow> i < int (length xs) \<Longrightarrow> at xs i = Some (xs ! nat i)"
  by (simp add: at_def)

lemma at_eq_Some: "at xs i = Some x \<longleftrightarrow> 0 \<le> i \<and> i < int (length xs) \<and> x = xs ! nat i"
  by (auto simp: at_def)

lemma check_eq: "check b m = Some (Some x) \<longleftrightarrow> b \<and> m = Some (Some x)" "check b m = None \<longleftrightarrow> b \<and> m = None"
  by (auto simp: check_def)

lemma setlist_run_total: "int d \<le> sizecode pt \<Longrightarrow> \<exists>j. setlist_run pt d = Some j"
  by (induction d) auto

lemma operands_total:
  assumes "pc + 1 \<le> sizecode pt"
  shows "\<exists>r. operands pt pc q i = Some r"
proof -
  have "\<exists>j. setlist_run pt (nat (pc + 1 + GETARG_sBx i)) = Some j"
    if "0 < pc + 1 + GETARG_sBx i" "pc + 1 + GETARG_sBx i < sizecode pt"
    by (rule setlist_run_total) (use that in simp)
  then show ?thesis by (cases "getOpMode q") (auto simp: operands_def check_def Let_def)
qed

lemma operands_constant:
  "operands pt pc q i = Some (Some (b, c)) \<Longrightarrow> q = OP_GETGLOBAL \<or> q = OP_SETGLOBAL \<Longrightarrow> 0 \<le> b \<and> b < sizek pt"
  using GETARG_bounds [of i] by (auto simp: operands_def check_eq Let_def)

lemma operands_closure: "operands pt pc OP_CLOSURE i = Some (Some (b, c)) \<Longrightarrow> 0 \<le> b"
  using GETARG_bounds [of i] by (auto simp: operands_def check_eq Let_def)

lemma closure_ops_total:
  "\<forall>j\<in>set js. 0 \<le> pc + j \<and> pc + j < sizecode pt \<Longrightarrow> \<exists>r. closure_ops pt pc js = Some r"
  by (induction js) (auto simp: op_at_def)

lemma at_next: "0 \<le> pc \<Longrightarrow> pc + 1 < sizecode pt \<Longrightarrow> \<exists>i. at (code pt) (pc + 1) = Some i"
  by simp

lemma symb_call_total: "0 \<le> pc \<Longrightarrow> pc + 1 < sizecode pt \<Longrightarrow> \<exists>r. symb_call pt reg a b c pc lst = Some r"
  by (auto simp: symb_call_def check_def checkopenop_def)

text \<open>An instruction that is not the final return has a successor in the code.\<close>

lemma symb_op_total:
  assumes "bytes_ok pt" "0 \<le> pc" "q \<noteq> OP_RETURN \<Longrightarrow> pc + 1 < sizecode pt"
    and "operands pt pc q i = Some (Some (b, c))"
  shows "\<exists>r. symb_op pt lastpc reg q a b c pc lst = Some r"
proof (cases q)
  case OP_GETGLOBAL
  then show ?thesis using operands_constant [OF assms(4)] by (simp add: symb_op_def check_def)
next
  case OP_SETGLOBAL
  then show ?thesis using operands_constant [OF assms(4)] by (simp add: symb_op_def check_def)
next
  case OP_CLOSURE
  then have b: "0 \<le> b" using operands_closure assms(4) by blast
  let ?f = "pp pt ! nat b"
  have c: "\<exists>ok. closure_ops pt pc [1..nups ?f] = Some ok" if "pc + nups ?f < sizecode pt"
    by (rule closure_ops_total) (use that assms(2) in auto)
  show ?thesis
  proof (cases "b < sizep pt \<and> pc + nups ?f < sizecode pt")
    case True
    then obtain ok where "closure_ops pt pc [1..nups ?f] = Some ok" using c by blast
    then show ?thesis using OP_CLOSURE b True by (cases ok) (simp_all add: symb_op_def check_def)
  next
    case False
    then show ?thesis using OP_CLOSURE b by (auto simp: symb_op_def check_def)
  qed
next
  case OP_VARARG
  then show ?thesis using assms(2,3) by (auto simp: symb_op_def check_def checkopenop_def)
qed (use assms(2,3) symb_call_total [of pc pt reg a b c lst] in \<open>auto simp: symb_op_def check_def\<close>)

text \<open>The counters only grow, and \<^verbatim>\<open>last\<close> stays a position in the code.\<close>

lemma do_jump_ge: "pc \<le> do_jump lastpc reg pc b"
  by (simp add: do_jump_def Let_def)

lemma symb_op_bounds:
  assumes "symb_op pt lastpc reg q a b c pc lst = Some (Some (pc', lst'))" "bytes_ok pt"
  shows "pc \<le> pc' \<and> (lst' = lst \<or> lst' = pc)"
proof -
  have n: "0 \<le> nups f" if "at (pp pt) b = Some f" for f
    using that assms(2) by (auto simp: at_eq_Some bytes_ok_def)
  show ?thesis
    using assms(1) n do_jump_ge [of pc lastpc reg b]
    by (cases q) (auto simp: symb_op_def symb_call_def check_eq split: if_splits)
qed

definition ends_in_return :: "'n Proto \<Rightarrow> bool" where
  "ends_in_return pt \<longleftrightarrow> code pt \<noteq> [] \<and> GET_OPCODE (List.last (code pt)) = Some OP_RETURN"

lemma precheck_total: "\<exists>ok. precheck pt = Some ok"
  by (auto simp: precheck_def op_at_def)

lemma nth_last_code: "code pt \<noteq> [] \<Longrightarrow> code pt ! nat (sizecode pt - 1) = List.last (code pt)"
proof -
  assume "code pt \<noteq> []"
  moreover have "nat (sizecode pt - 1) = length (code pt) - 1" by linarith
  ultimately show ?thesis by (metis last_conv_nth)
qed

lemma precheck_return: "precheck pt = Some True \<Longrightarrow> ends_in_return pt"
  using nth_last_code [of pt]
  by (auto simp: precheck_def op_at_def at_eq_Some ends_in_return_def split: if_splits)

lemma not_last:
  assumes "ends_in_return pt" "at (code pt) pc = Some i" "GET_OPCODE i \<noteq> Some OP_RETURN"
  shows "pc + 1 < sizecode pt"
proof (rule ccontr)
  assume "\<not> pc + 1 < sizecode pt"
  then have "pc = sizecode pt - 1" using assms(2) by (simp add: at_eq_Some)
  then have "i = List.last (code pt)"
    using assms(1,2) nth_last_code [of pt] by (simp add: at_eq_Some ends_in_return_def)
  then show False using assms(1,3) by (simp add: ends_in_return_def)
qed

lemma symb_step_total:
  assumes "bytes_ok pt" "ends_in_return pt" "0 \<le> pc" "pc < sizecode pt"
  shows "\<exists>r. symb_step pt lastpc reg pc lst = Some r"
proof -
  obtain i where i: "at (code pt) pc = Some i" using assms(3,4) by simp
  show ?thesis
  proof (cases "GET_OPCODE i")
    case None
    then show ?thesis using i by (simp add: symb_step_def)
  next
    case (Some q)
    obtain r where r: "operands pt pc q i = Some r" using operands_total [of pc pt q i] assms(4) by auto
    let ?skip = "if testTMode q
      then if pc + 2 < sizecode pt then map_option (\<lambda>q. q = Some OP_JMP) (op_at pt (pc + 1)) else Some False
      else Some True"
    have "\<exists>ok. ?skip = Some ok" using assms(3) by (auto simp: op_at_def)
    then obtain ok where ok: "?skip = Some ok" ..
    have op: "\<exists>x. symb_op pt lastpc reg q (GETARG_A i) b c pc l = Some x" if "r = Some (b, c)" for b c l
      by (rule symb_op_total [OF assms(1,3)]) (use not_last [OF assms(2) i] Some r that in auto)
    show ?thesis
    proof (cases r)
      case None
      then show ?thesis using i Some r by (simp add: symb_step_def check_def)
    next
      case (Some bc)
      obtain b c where bc: "bc = (b, c)" by (cases bc)
      obtain x where "symb_op pt lastpc reg q (GETARG_A i) b c pc
          (if testAMode q \<and> GETARG_A i = reg then pc else lst) = Some x" using op Some bc by blast
      then show ?thesis using i \<open>GET_OPCODE i = Some q\<close> r Some bc ok
        by (auto simp: symb_step_def check_def Let_def simp del: bind_eq_Some_iff)
    qed
  qed
qed

lemma symb_step_bounds:
  assumes "symb_step pt lastpc reg pc lst = Some (Some (pc', lst'))" "bytes_ok pt"
  shows "pc \<le> pc' \<and> (lst' = lst \<or> lst' = pc)"
proof -
  obtain q a b c l where "symb_op pt lastpc reg q a b c pc l = Some (Some (pc', lst'))" "l = lst \<or> l = pc"
    using assms(1) by (auto simp: symb_step_def check_eq Let_def split: option.splits if_splits)
  then show ?thesis using symb_op_bounds [OF _ assms(2)] by blast
qed

lemma symb_loop_total:
  assumes "bytes_ok pt" "ends_in_return pt" "lastpc \<le> sizecode pt" "0 \<le> pc" "0 \<le> lst" "lst < sizecode pt"
  shows "\<exists>r. symb_loop pt lastpc reg pc lst = Some r \<and> (\<forall>l. r = Some l \<longrightarrow> 0 \<le> l \<and> l < sizecode pt)"
  using assms(4-6)
proof (induction "nat (lastpc - pc)" arbitrary: pc lst rule: less_induct)
  case less
  show ?case
  proof (cases "pc < lastpc")
    case False
    then show ?thesis using less.prems by (subst symb_loop.simps) simp
  next
    case True
    then have "pc < sizecode pt" using assms(3) by simp
    then obtain r where r: "symb_step pt lastpc reg pc lst = Some r"
      using symb_step_total [OF assms(1,2) less.prems(1)] by blast
    show ?thesis
    proof (cases r)
      case None
      then show ?thesis using True r by (subst symb_loop.simps) simp
    next
      case (Some s)
      then have s: "pc \<le> fst s" "snd s = lst \<or> snd s = pc"
        using symb_step_bounds [of pt lastpc reg pc lst "fst s" "snd s"] r assms(1) by auto
      have "\<exists>r. symb_loop pt lastpc reg (fst s + 1) (snd s) = Some r \<and>
          (\<forall>l. r = Some l \<longrightarrow> 0 \<le> l \<and> l < sizecode pt)"
        by (rule less.hyps) (use True s less.prems \<open>pc < sizecode pt\<close> in auto)
      then show ?thesis using True r Some by (subst symb_loop.simps) simp
    qed
  qed
qed

lemma symbexec_total:
  assumes "bytes_ok pt" "lastpc \<le> sizecode pt"
  shows "\<exists>i. symbexec pt lastpc reg = Some i"
proof -
  obtain ok where ok: "precheck pt = Some ok" using precheck_total by blast
  show ?thesis
  proof (cases ok)
    case True
    then have e: "ends_in_return pt" using ok precheck_return [of pt] by simp
    then have "0 < sizecode pt" by (simp add: ends_in_return_def)
    then obtain r where "symb_loop pt lastpc reg 0 (sizecode pt - 1) = Some r"
      "\<forall>l. r = Some l \<longrightarrow> 0 \<le> l \<and> l < sizecode pt"
      using symb_loop_total [OF assms(1) e assms(2), of 0 "sizecode pt - 1" reg] by auto
    then show ?thesis using ok True by (cases r) (auto simp: symbexec_def)
  qed (use ok in \<open>simp add: symbexec_def\<close>)
qed

section \<open>What a checked prototype guarantees\<close>

text \<open>
  The positions of instructions: a \<^verbatim>\<open>SETLIST\<close> whose C is zero is followed by a word that is a count
  and no instruction.
\<close>

definition takes_count :: "Instruction \<Rightarrow> bool" where
  "takes_count i \<longleftrightarrow> GET_OPCODE i = Some OP_SETLIST \<and> GETARG_C i = 0"

inductive instr_start :: "'n Proto \<Rightarrow> int \<Rightarrow> bool" for pt where
  first: "instr_start pt 0"
| succ: "instr_start pt pc \<Longrightarrow> at (code pt) pc = Some i \<Longrightarrow> instr_start pt (if takes_count i then pc + 2 else pc + 1)"

lemma instr_start_ge: "instr_start pt pc \<Longrightarrow> 0 \<le> pc"
  by (induction rule: instr_start.induct) auto

text \<open>Every position is an instruction or the count of the instruction before it.\<close>

lemma start_or_count:
  "int d \<le> sizecode pt \<Longrightarrow> instr_start pt (int d) \<or>
     (\<exists>i. 0 < d \<and> instr_start pt (int d - 1) \<and> at (code pt) (int d - 1) = Some i \<and> takes_count i)"
proof (induction d)
  case 0
  then show ?case by (simp add: instr_start.first)
next
  case (Suc d)
  then obtain i where i: "at (code pt) (int d) = Some i" by simp
  from Suc consider "instr_start pt (int d)"
    | i' where "0 < d" "instr_start pt (int d - 1)" "at (code pt) (int d - 1) = Some i'" "takes_count i'" by auto
  then show ?case
  proof cases
    case 1
    then show ?thesis using i instr_start.succ [OF 1 i] by (cases "takes_count i") (auto simp: add.commute)
  next
    case 2
    then show ?thesis using instr_start.succ [OF 2(2,3)] by (auto simp: add.commute)
  qed
qed

lemma start_or_not_count:
  assumes "int d \<le> sizecode pt" "d = 0 \<or> (\<exists>i. at (code pt) (int d - 1) = Some i \<and> \<not> takes_count i)"
  shows "instr_start pt (int d)"
  using start_or_count [OF assms(1)] assms(2) instr_start.first by fastforce

text \<open>The test of the checker: an even run of words that look like such a \<^verbatim>\<open>SETLIST\<close>.\<close>

lemma setlist_run_spec:
  "setlist_run pt d = Some j \<Longrightarrow> int d \<le> sizecode pt \<Longrightarrow> j \<le> d \<and>
     (\<forall>k. d - j \<le> k \<and> k < d \<longrightarrow> (\<exists>i. at (code pt) (int k) = Some i \<and> takes_count i)) \<and>
     instr_start pt (int (d - j))"
proof (induction d arbitrary: j)
  case 0
  then show ?case by (simp add: instr_start.first)
next
  case (Suc d)
  obtain i where i: "at (code pt) (int d) = Some i" using Suc.prems(2) by simp
  show ?case
  proof (cases "takes_count i")
    case False
    then have "j = 0" using Suc.prems(1) i by (auto simp: takes_count_def)
    then show ?thesis using start_or_not_count [of "Suc d" pt] Suc.prems(2) i False by auto
  next
    case True
    then obtain j' where j': "setlist_run pt d = Some j'" "j = Suc j'"
      using Suc.prems(1) i by (auto simp: takes_count_def)
    then show ?thesis using Suc.IH [OF j'(1)] Suc.prems(2) i True by (auto simp: less_Suc_eq)
  qed
qed

lemma even_run_start:
  assumes "setlist_run pt d = Some j" "int d \<le> sizecode pt" "even j"
  shows "instr_start pt (int d)"
proof -
  note run = setlist_run_spec [OF assms(1,2)]
  have "2 * k \<le> j \<Longrightarrow> instr_start pt (int (d - j + 2 * k))" for k
  proof (induction k)
    case 0
    have "d - j + 2 * 0 = d - j" by simp
    then show ?case using run by metis
  next
    case (Suc k)
    then have s: "instr_start pt (int (d - j + 2 * k))" by simp
    have "d - j \<le> d - j + 2 * k" "d - j + 2 * k < d" using conjunct1 [OF run] Suc.prems by simp_all
    then obtain i where "at (code pt) (int (d - j + 2 * k)) = Some i" "takes_count i"
      using run by blast
    from instr_start.succ [OF s this(1)] this(2) show ?case by (simp add: algebra_simps)
  qed
  from this [of "j div 2"] show ?thesis using assms(3) run by simp
qed

text \<open>
  The specification: an instruction whose registers, constants, functions, upvalues and jump target
  the interpreter can use.
\<close>

definition reg_ok :: "'n Proto \<Rightarrow> int \<Rightarrow> bool" where
  "reg_ok pt r \<longleftrightarrow> 0 \<le> r \<and> r < maxstacksize pt"

definition RK_ok :: "'n Proto \<Rightarrow> int \<Rightarrow> bool" where
  "RK_ok pt r \<longleftrightarrow> (if ISK r then INDEXK r < sizek pt else reg_ok pt r)"

text \<open>
  What the interpreter does with an instruction (\<^verbatim>\<open>luaV_execute\<close> in \<^verbatim>\<open>lvm.c\<close>): the registers that it names, with
  the runs of registers of loads, calls, returns, loops and lists.  A run that goes up to the top of the
  stack, where B or C is zero, has no end here.  \<^verbatim>\<open>TFORLOOP\<close> also copies into two registers above the first result, which lie
  in the slots that every stack has to spare.
\<close>

definition registers :: "Instruction \<Rightarrow> OpCode \<Rightarrow> int list" where
  "registers i q =
     (let a = GETARG_A i; b = GETARG_B i; c = GETARG_C i
      in a # (case q of
           OP_MOVE \<Rightarrow> [b] | OP_GETTABLE \<Rightarrow> [b] | OP_UNM \<Rightarrow> [b] | OP_NOT \<Rightarrow> [b] | OP_LEN \<Rightarrow> [b] | OP_TESTSET \<Rightarrow> [b]
         | OP_LOADNIL \<Rightarrow> b # [a..b]
         | OP_SELF \<Rightarrow> [b, a + 1]
         | OP_CONCAT \<Rightarrow> [b..c]
         | OP_FORLOOP \<Rightarrow> [a..a + 3]
         | OP_FORPREP \<Rightarrow> [a..a + 3]
         | OP_TFORLOOP \<Rightarrow> [a..a + 3] @ [a + 3..a + 2 + c]
         | OP_CALL \<Rightarrow> [a..a + b - 1] @ [a..a + c - 2]
         | OP_TAILCALL \<Rightarrow> [a..a + b - 1]
         | OP_RETURN \<Rightarrow> [a..a + b - 2]
         | OP_SETLIST \<Rightarrow> [a..a + b]
         | OP_VARARG \<Rightarrow> [a..a + b - 2]
         | _ \<Rightarrow> []))"

text \<open>The operands that are a register or a constant.\<close>

definition RK_operands :: "Instruction \<Rightarrow> OpCode \<Rightarrow> int list" where
  "RK_operands i q =
     (if q \<in> {OP_SETTABLE, OP_ADD, OP_SUB, OP_MUL, OP_DIV, OP_MOD, OP_POW, OP_EQ, OP_LT, OP_LE} then [GETARG_B i, GETARG_C i]
      else if q \<in> {OP_GETTABLE, OP_SELF} then [GETARG_C i] else [])"

text \<open>
  Where control can go next.  A test either skips the next instruction or goes on with it, which is
  a jump; a boolean load skips if C is not zero; a closure is followed by one word for each of its upvalues.
\<close>

definition successors :: "'n Proto \<Rightarrow> int \<Rightarrow> Instruction \<Rightarrow> OpCode \<Rightarrow> int list" where
  "successors pt pc i q =
     (case q of
        OP_RETURN \<Rightarrow> []
      | OP_JMP \<Rightarrow> [pc + 1 + GETARG_sBx i]
      | OP_FORPREP \<Rightarrow> [pc + 1 + GETARG_sBx i]
      | OP_FORLOOP \<Rightarrow> [pc + 1, pc + 1 + GETARG_sBx i]
      | OP_LOADBOOL \<Rightarrow> [if GETARG_C i \<noteq> 0 then pc + 2 else pc + 1]
      | OP_SETLIST \<Rightarrow> [if GETARG_C i = 0 then pc + 2 else pc + 1]
      | OP_CLOSURE \<Rightarrow> [pc + 1 + nups (pp pt ! nat (GETARG_Bx i))]
      | _ \<Rightarrow> if testTMode q then [pc + 1, pc + 2] else [pc + 1])"

text \<open>
  The specification: an instruction whose registers, constants, functions, upvalues and successors
  the interpreter can use.  An open call or \<^verbatim>\<open>VARARG\<close>, whose results go up to the top of the stack, is followed by an
  instruction that takes them from there.
\<close>

definition instr_safe :: "'n Proto \<Rightarrow> int \<Rightarrow> Instruction \<Rightarrow> OpCode \<Rightarrow> bool" where
  "instr_safe pt pc i q \<longleftrightarrow>
     (\<forall>r \<in> set (registers i q). reg_ok pt r) \<and>
     (\<forall>r \<in> set (RK_operands i q). RK_ok pt r) \<and>
     (q = OP_LOADK \<longrightarrow> GETARG_Bx i < sizek pt) \<and>
     (q \<in> {OP_GETGLOBAL, OP_SETGLOBAL} \<longrightarrow> (\<exists>v. at (pk pt) (GETARG_Bx i) = Some v \<and> ttype v = LUA_TSTRING)) \<and>
     (q \<in> {OP_GETUPVAL, OP_SETUPVAL} \<longrightarrow> GETARG_B i < nups pt) \<and>
     (q = OP_CONCAT \<longrightarrow> GETARG_B i < GETARG_C i) \<and>
     (q = OP_CLOSURE \<longrightarrow> GETARG_Bx i < sizep pt \<and>
        (\<forall>j. 1 \<le> j \<and> j \<le> nups (pp pt ! nat (GETARG_Bx i)) \<longrightarrow> op_at pt (pc + j) \<in> {Some (Some OP_MOVE), Some (Some OP_GETUPVAL)})) \<and>
     (q = OP_VARARG \<longrightarrow> is_vararg pt AND VARARG_ISVARARG \<noteq> 0 \<and> is_vararg pt AND VARARG_NEEDSARG = 0) \<and>
     (q \<in> {OP_CALL, OP_TAILCALL} \<and> GETARG_C i = 0 \<or> q = OP_VARARG \<and> GETARG_B i = 0 \<longrightarrow> checkopenop pt pc = Some True) \<and>
     (testTMode q \<longrightarrow> op_at pt (pc + 1) = Some (Some OP_JMP)) \<and>
     (\<forall>pc' \<in> set (successors pt pc i q). pc' < sizecode pt \<and> instr_start pt pc')"

lemma jump_start:
  assumes "operands pt pc q i = Some (Some (b, c))" "q \<in> {OP_JMP, OP_FORLOOP, OP_FORPREP}"
  shows "pc + 1 + GETARG_sBx i < sizecode pt \<and> instr_start pt (pc + 1 + GETARG_sBx i)"
proof -
  let ?dest = "pc + 1 + GETARG_sBx i"
  have m: "getOpMode q = iAsBx" "getBMode q = OpArgR" using assms(2) by auto
  have d: "0 \<le> ?dest" "?dest < sizecode pt"
    using assms(1) m by (auto simp: operands_def check_eq Let_def split: if_splits)
  show ?thesis
  proof (cases "?dest = 0")
    case True
    then show ?thesis using d instr_start.first [of pt] by simp
  next
    case False
    then obtain j where "setlist_run pt (nat ?dest) = Some j" "even j"
      using assms(1) m d by (auto simp: operands_def check_eq Let_def split: if_splits)
    then show ?thesis using even_run_start [of pt "nat ?dest" j] d by simp
  qed
qed

lemma opmode_T:
  "opmode 1 a b c m AND push_bit 7 1 \<noteq> 0" if "a = 0 \<or> a = 1"
  using that by (cases b; cases c; cases m) (auto simp: opmode_def)

lemma opmode_no_T:
  "opmode 0 a b c m AND push_bit 7 1 = 0" if "a = 0 \<or> a = 1"
  using that by (cases b; cases c; cases m) (auto simp: opmode_def)

lemma testTMode_iff: "testTMode q \<longleftrightarrow> q \<in> {OP_EQ, OP_LT, OP_LE, OP_TEST, OP_TESTSET, OP_TFORLOOP}"
  by (cases q) (simp_all add: testTMode_def mode_byte_def op_num_def OpCodes_def luaP_opmodes_def
      opmode_T opmode_no_T del: push_bit_of_1 push_bit_numeral push_bit_Suc)

text \<open>The operands of each format.\<close>

lemma operands_ABC:
  "operands pt pc q i = Some (Some (b, c)) \<Longrightarrow> getOpMode q = iABC \<Longrightarrow> b = GETARG_B i \<and> c = GETARG_C i \<and>
     checkArgMode pt (GETARG_B i) (getBMode q) \<and> checkArgMode pt (GETARG_C i) (getCMode q)"
  by (auto simp: operands_def check_eq Let_def)

lemma operands_ABx:
  "operands pt pc q i = Some (Some (b, c)) \<Longrightarrow> getOpMode q = iABx \<Longrightarrow>
     b = GETARG_Bx i \<and> (getBMode q = OpArgK \<longrightarrow> GETARG_Bx i < sizek pt)"
  by (auto simp: operands_def check_eq Let_def)

text \<open>Instructions start one after the other.\<close>

lemma start_next:
  assumes "instr_start pt pc" "at (code pt) pc = Some i" "\<not> takes_count i"
  shows "instr_start pt (pc + 1)"
  using instr_start.succ [OF assms(1,2)] assms(3) by simp

lemma start_after_op:
  assumes "instr_start pt pc" "op_at pt pc = Some (Some q)" "q \<noteq> OP_SETLIST"
  shows "instr_start pt (pc + 1)"
proof -
  obtain i where "at (code pt) pc = Some i" "GET_OPCODE i = Some q" using assms(2) by (auto simp: op_at_def)
  then show ?thesis using start_next [OF assms(1)] assms(3) by (simp add: takes_count_def)
qed

lemma closure_ops_spec:
  "closure_ops pt pc js = Some True \<Longrightarrow> j \<in> set js \<Longrightarrow> op_at pt (pc + j) = Some (Some OP_MOVE) \<or> op_at pt (pc + j) = Some (Some OP_GETUPVAL)"
  by (induction js) (auto split: bind_splits if_splits)

lemma closure_start:
  assumes "instr_start pt (pc + 1)" "\<forall>j. 1 \<le> j \<and> j \<le> int n \<longrightarrow> op_at pt (pc + j) \<in> {Some (Some OP_MOVE), Some (Some OP_GETUPVAL)}"
  shows "instr_start pt (pc + 1 + int n)"
  using assms(2)
proof (induction n)
  case 0
  then show ?case using assms(1) by simp
next
  case (Suc n)
  then have "instr_start pt (pc + 1 + int n)" by simp
  moreover have "op_at pt (pc + (1 + int n)) \<in> {Some (Some OP_MOVE), Some (Some OP_GETUPVAL)}" using Suc.prems by simp
  ultimately show ?case using start_after_op [of pt "pc + 1 + int n"] by (auto simp: algebra_simps)
qed

lemma step_registers:
  assumes "symb_op pt lastpc NO_REG q (GETARG_A i) b c pc l = Some (Some s)" "operands pt pc q i = Some (Some (b, c))"
    "reg_ok pt (GETARG_A i)"
  shows "\<forall>r \<in> set (registers i q). reg_ok pt r"
  using assms operands_ABC [OF assms(2)] GETARG_bounds [of i]
  by (cases q) (auto simp: registers_def symb_op_def symb_call_def check_eq Let_def reg_ok_def checkreg_def split: if_splits bind_splits)

lemma step_constants:
  assumes "operands pt pc q i = Some (Some (b, c))"
  shows "\<forall>r \<in> set (RK_operands i q). RK_ok pt r"
  using operands_ABC [OF assms] GETARG_bounds [of i]
  by (cases q) (auto simp: RK_operands_def RK_ok_def reg_ok_def checkreg_def)

lemma step_operands:
  assumes "symb_op pt lastpc NO_REG q (GETARG_A i) b c pc l = Some (Some s)" "operands pt pc q i = Some (Some (b, c))" "bytes_ok pt"
  shows "(q = OP_LOADK \<longrightarrow> GETARG_Bx i < sizek pt) \<and>
     (q \<in> {OP_GETGLOBAL, OP_SETGLOBAL} \<longrightarrow> (\<exists>v. at (pk pt) (GETARG_Bx i) = Some v \<and> ttype v = LUA_TSTRING)) \<and>
     (q \<in> {OP_GETUPVAL, OP_SETUPVAL} \<longrightarrow> GETARG_B i < nups pt) \<and>
     (q = OP_CONCAT \<longrightarrow> GETARG_B i < GETARG_C i) \<and>
     (q = OP_CLOSURE \<longrightarrow> GETARG_Bx i < sizep pt \<and>
        (\<forall>j. 1 \<le> j \<and> j \<le> nups (pp pt ! nat (GETARG_Bx i)) \<longrightarrow> op_at pt (pc + j) \<in> {Some (Some OP_MOVE), Some (Some OP_GETUPVAL)})) \<and>
     (q = OP_VARARG \<longrightarrow> is_vararg pt AND VARARG_ISVARARG \<noteq> 0 \<and> is_vararg pt AND VARARG_NEEDSARG = 0) \<and>
     (q \<in> {OP_CALL, OP_TAILCALL} \<and> GETARG_C i = 0 \<or> q = OP_VARARG \<and> GETARG_B i = 0 \<longrightarrow> checkopenop pt pc = Some True)"
  using assms operands_ABC [OF assms(2)] operands_ABx [OF assms(2)] GETARG_bounds [of i]
  by (cases q) (auto simp: symb_op_def symb_call_def check_eq Let_def at_eq_Some split: if_splits bind_splits dest!: closure_ops_spec)

lemma step_successors:
  assumes "symb_op pt lastpc NO_REG q (GETARG_A i) b c pc l = Some (Some s)" "operands pt pc q i = Some (Some (b, c))"
    "at (code pt) pc = Some i" "GET_OPCODE i = Some q" "instr_start pt pc" "bytes_ok pt" "ends_in_return pt"
    "testTMode q \<longrightarrow> pc + 2 < sizecode pt \<and> op_at pt (pc + 1) = Some (Some OP_JMP)" "q = OP_LOADBOOL \<longrightarrow> GETARG_C i \<le> 1"
  shows "\<forall>pc' \<in> set (successors pt pc i q). pc' < sizecode pt \<and> instr_start pt pc'"
proof -
  have next': "pc + 1 < sizecode pt" if "q \<noteq> OP_RETURN" using not_last [OF assms(7,3)] assms(4) that by auto
  have start: "instr_start pt (pc + 1)" if "q \<noteq> OP_SETLIST"
    using start_next [OF assms(5,3)] assms(4) that by (simp add: takes_count_def)
  have start2: "instr_start pt (pc + 2)" if "testTMode q"
  proof -
    have "q \<noteq> OP_SETLIST" using that by (auto simp: testTMode_iff)
    from start_after_op [OF start [OF this], of OP_JMP] show ?thesis using assms(8) that by (simp add: add.commute)
  qed
  consider "q = OP_RETURN" | "q \<in> {OP_JMP, OP_FORLOOP, OP_FORPREP}" | "q = OP_LOADBOOL" | "q = OP_SETLIST" | "q = OP_CLOSURE" | "testTMode q"
    | "q \<notin> {OP_RETURN, OP_JMP, OP_FORLOOP, OP_FORPREP, OP_LOADBOOL, OP_SETLIST, OP_CLOSURE}" "\<not> testTMode q" by blast
  then show ?thesis
  proof cases
    case 1
    then show ?thesis by (simp add: successors_def)
  next
    case 2
    then show ?thesis using jump_start [OF assms(2) 2] next' start by (auto simp: successors_def)
  next
    case 3
    have c: "GETARG_C i = c" using operands_ABC [OF assms(2)] 3 by simp
    have "pc + 2 < sizecode pt \<and> instr_start pt (pc + 2)" if "GETARG_C i \<noteq> 0"
    proof -
      have "c = 1" using that assms(9) 3 GETARG_bounds [of i] c by simp
      then obtain j where j: "pc + 2 < sizecode pt" "at (code pt) (pc + 1) = Some j" "GET_OPCODE j \<noteq> Some OP_SETLIST \<or> GETARG_C j \<noteq> 0"
        using assms(1) 3 by (auto simp: symb_op_def check_eq split: bind_splits)
      then show ?thesis using start_next [OF start j(2)] 3 by (auto simp: takes_count_def add.commute [of 2 pc])
    qed
    then show ?thesis using 3 next' start by (simp add: successors_def)
  next
    case 4
    have c: "GETARG_C i = c" using operands_ABC [OF assms(2)] 4 by simp
    have "instr_start pt (if takes_count i then pc + 2 else pc + 1)" using instr_start.succ [OF assms(5,3)] .
    then show ?thesis using 4 assms(1,4) c next' by (auto simp: successors_def takes_count_def symb_op_def check_eq split: if_splits)
  next
    case 5
    let ?n = "nups (pp pt ! nat (GETARG_Bx i))"
    note ops = step_operands [OF assms(1,2,6)]
    have b: "GETARG_Bx i < sizep pt" "0 \<le> GETARG_Bx i" using ops 5 GETARG_bounds [of i] by simp_all
    have n: "0 \<le> ?n" using assms(6) b by (auto simp: bytes_ok_def)
    have js: "\<forall>j. 1 \<le> j \<and> j \<le> int (nat ?n) \<longrightarrow> op_at pt (pc + j) \<in> {Some (Some OP_MOVE), Some (Some OP_GETUPVAL)}"
      using ops 5 n by simp
    have "instr_start pt (pc + 1 + ?n)" using closure_start [OF start js] 5 n by simp
    moreover have "pc + 1 + ?n < sizecode pt"
    proof (cases "?n = 0")
      case True
      then show ?thesis using next' 5 by simp
    next
      case False
      then have "op_at pt (pc + ?n) \<in> {Some (Some OP_MOVE), Some (Some OP_GETUPVAL)}" using js n by simp
      then obtain j where "at (code pt) (pc + ?n) = Some j" "GET_OPCODE j \<noteq> Some OP_RETURN" by (auto simp: op_at_def)
      from not_last [OF assms(7) this] show ?thesis by (simp add: algebra_simps)
    qed
    ultimately show ?thesis using 5 by (simp add: successors_def)
  next
    case 6
    then have "set (successors pt pc i q) = {pc + 1, pc + 2}" by (auto simp: successors_def testTMode_iff)
    then show ?thesis using 6 assms(8) start start2 by (auto simp: testTMode_iff)
  next
    case 7
    then have "successors pt pc i q = [pc + 1]" by (cases q) (auto simp: successors_def)
    then show ?thesis using 7 next' start by simp
  qed
qed

lemma symb_step_safe:
  assumes "symb_step pt lastpc NO_REG pc lst = Some (Some (pc', lst'))" "bytes_ok pt" "ends_in_return pt" "instr_start pt pc"
  shows "\<exists>i q. at (code pt) pc = Some i \<and> GET_OPCODE i = Some q \<and> ((q = OP_LOADBOOL \<longrightarrow> GETARG_C i \<le> 1) \<longrightarrow> instr_safe pt pc i q) \<and>
    pc' + 1 = (if takes_count i then pc + 2 else pc + 1)"
proof -
  obtain i q b c l where i: "at (code pt) pc = Some i" "GET_OPCODE i = Some q" "checkreg pt (GETARG_A i)"
    and o: "operands pt pc q i = Some (Some (b, c))"
    and skip: "testTMode q \<longrightarrow> pc + 2 < sizecode pt \<and> op_at pt (pc + 1) = Some (Some OP_JMP)"
    and op: "symb_op pt lastpc NO_REG q (GETARG_A i) b c pc l = Some (Some (pc', lst'))"
    using assms(1) by (auto simp: symb_step_def check_eq Let_def split: option.splits if_splits)
  have a: "reg_ok pt (GETARG_A i)" using i(3) GETARG_bounds [of i] by (simp add: reg_ok_def checkreg_def)
  have "takes_count i \<longleftrightarrow> q = OP_SETLIST \<and> GETARG_C i = 0" using i(2) by (simp add: takes_count_def)
  then have "pc' + 1 = (if takes_count i then pc + 2 else pc + 1)"
    using op operands_ABC [OF o]
    by (cases q) (auto simp: symb_op_def symb_call_def do_jump_def check_eq Let_def split: if_splits bind_splits)
  moreover have "instr_safe pt pc i q" if "q = OP_LOADBOOL \<longrightarrow> GETARG_C i \<le> 1"
    unfolding instr_safe_def
    using step_registers [OF op o a] step_constants [OF o] step_operands [OF op o assms(2)] skip
      step_successors [OF op o i(1,2) assms(4,2,3) skip that]
    by (intro conjI) simp_all
  ultimately show ?thesis using i(1,2) by blast
qed

text \<open>A successful run of the checker has visited every instruction.\<close>

lemma visited:
  assumes "symb_loop pt (sizecode pt) NO_REG 0 l0 = Some (Some r0)" "bytes_ok pt" "ends_in_return pt"
    and "instr_start pt pc"
  shows "pc < sizecode pt \<Longrightarrow> \<exists>lst r. symb_loop pt (sizecode pt) NO_REG pc lst = Some (Some r)"
  using assms(4)
proof (induction rule: instr_start.induct)
  case first
  then show ?case using assms(1) by blast
next
  case (succ pc i)
  then have pc: "pc < sizecode pt" by (simp split: if_splits)
  then obtain lst r where "symb_loop pt (sizecode pt) NO_REG pc lst = Some (Some r)" using succ by blast
  then obtain s where s: "symb_step pt (sizecode pt) NO_REG pc lst = Some (Some s)"
    "symb_loop pt (sizecode pt) NO_REG (fst s + 1) (snd s) = Some (Some r)"
    using pc by (subst (asm) symb_loop.simps) (auto split: option.splits)
  obtain i' where "at (code pt) pc = Some i'" "fst s + 1 = (if takes_count i' then pc + 2 else pc + 1)"
    using symb_step_safe [of pt _ pc lst "fst s" "snd s"] s(1) assms(2,3) succ.hyps(1) by fastforce
  then have "fst s + 1 = (if takes_count i then pc + 2 else pc + 1)" using succ.hyps(2) by simp
  then show ?case using s(2) by metis
qed

lemma checkcode_loop:
  assumes "luaG_checkcode pt = Some True"
  shows "ends_in_return pt \<and> (\<exists>r. symb_loop pt (sizecode pt) NO_REG 0 (sizecode pt - 1) = Some (Some r))"
proof -
  obtain ok i where ok: "precheck pt = Some ok" "symbexec pt (sizecode pt) NO_REG = Some i" "i \<noteq> 0"
    using assms precheck_total [of pt] by (auto simp: luaG_checkcode_def)
  then have ok_True: "ok" by (auto simp: symbexec_def split: if_splits)
  then obtain r where "symb_loop pt (sizecode pt) NO_REG 0 (sizecode pt - 1) = Some r" "r \<noteq> None"
    using ok by (auto simp: symbexec_def split: option.splits)
  then show ?thesis using ok(1) ok_True precheck_return [of pt] by auto
qed

section \<open>Properties\<close>

text \<open>
  C3: On any prototype whatever, the checker ends and reads only inside the arrays of the prototype,
  for every limit inside the code and every register it traces.
\<close>

theorem symbexec_in_bounds:
  assumes "bytes_ok pt" "lastpc \<le> sizecode pt"
  shows "(\<exists>i. symbexec pt lastpc reg = Some i) \<and> (\<exists>ok. luaG_checkcode pt = Some ok)"
  using symbexec_total [OF assms] symbexec_total [OF assms(1) order_refl, of NO_REG]
  by (auto simp: luaG_checkcode_def)

definition sample_proto :: "int Proto" where
  "sample_proto = Proto [String ''x'', Number 1]
     [CREATE_ABx OP_LOADK 0 1, CREATE_ABx OP_JMP 0 (0 + MAXARG_sBx), CREATE_ABC OP_RETURN 0 1 0]
     [] [] [] [] (Some ''=s'') 0 0 0 0 2 2"

lemma sample_bytes_ok: "bytes_ok sample_proto"
  by (simp add: bytes_ok_def sample_proto_def)

lemma sample_checked: "luaG_checkcode sample_proto = Some True"
  by code_simp

theorem symbexec_in_bounds_witness:
  "\<exists>i. symbexec sample_proto 3 0 = Some i"
proof -
  have "sizecode sample_proto = 3" by (simp add: sample_proto_def)
  then show ?thesis using symbexec_in_bounds [OF sample_bytes_ok, of 3 0] by simp
qed

text \<open>The positions that the interpreter can come to.\<close>

inductive vm_reaches :: "'n Proto \<Rightarrow> int \<Rightarrow> bool" for pt where
  entry: "vm_reaches pt 0"
| step: "vm_reaches pt pc \<Longrightarrow> at (code pt) pc = Some i \<Longrightarrow> GET_OPCODE i = Some q \<Longrightarrow> pc' \<in> set (successors pt pc i q) \<Longrightarrow>
    vm_reaches pt pc'"

text \<open>The compiler emits boolean loads only with C zero or one.\<close>

definition loadbool_ok :: "'n Proto \<Rightarrow> bool" where
  "loadbool_ok pt \<longleftrightarrow> (\<forall>i \<in> set (code pt). GET_OPCODE i = Some OP_LOADBOOL \<longrightarrow> GETARG_C i \<le> 1)"

lemma checked_safe:
  assumes "luaG_checkcode pt = Some True" "bytes_ok pt" "instr_start pt pc" "pc < sizecode pt"
  shows "\<exists>i q. at (code pt) pc = Some i \<and> GET_OPCODE i = Some q \<and> ((q = OP_LOADBOOL \<longrightarrow> GETARG_C i \<le> 1) \<longrightarrow> instr_safe pt pc i q)"
proof -
  obtain r where r: "ends_in_return pt" "symb_loop pt (sizecode pt) NO_REG 0 (sizecode pt - 1) = Some (Some r)"
    using checkcode_loop [OF assms(1)] by blast
  obtain lst r' where "symb_loop pt (sizecode pt) NO_REG pc lst = Some (Some r')"
    using visited [OF r(2) assms(2) r(1) assms(3,4)] by blast
  then obtain s where "symb_step pt (sizecode pt) NO_REG pc lst = Some (Some s)"
    using assms(4) by (subst (asm) symb_loop.simps) (auto split: option.splits)
  then show ?thesis using symb_step_safe [of pt _ pc lst "fst s" "snd s"] assms(2,3) r(1) by fastforce
qed

lemma checked_reaches:
  assumes "luaG_checkcode pt = Some True" "bytes_ok pt" "loadbool_ok pt" "vm_reaches pt pc"
  shows "0 \<le> pc \<and> pc < sizecode pt \<and> instr_start pt pc"
  using assms(4)
proof (induction rule: vm_reaches.induct)
  case entry
  have "ends_in_return pt" using checkcode_loop [OF assms(1)] by blast
  then show ?case by (simp add: ends_in_return_def instr_start.first)
next
  case (step pc i q pc')
  have "i \<in> set (code pt)" using step.hyps(2) by (auto simp: at_eq_Some)
  then have "GETARG_C i \<le> 1" if "q = OP_LOADBOOL" using assms(3) step.hyps(3) that by (simp add: loadbool_ok_def)
  then have "instr_safe pt pc i q" using checked_safe [OF assms(1,2), of pc] step by auto
  then have "pc' < sizecode pt \<and> instr_start pt pc'" using step.hyps(4) by (simp add: instr_safe_def)
  then show ?case using instr_start_ge by blast
qed

text \<open>
  C2: In a prototype that passes the check every instruction is an opcode whose operands the interpreter can use: the
  registers it names, with the whole runs of registers of calls, returns, loops and lists, its constants, upvalues
  and functions exist, a test is followed by a jump and an open call by an instruction that takes its results; and wherever
  control goes next is an instruction of the prototype. So control never runs off the end of the code or into
  the count of a \<^verbatim>\<open>SETLIST\<close>. Boolean loads with C above one are excepted: the interpreter skips for every C but
  zero, and the check looks only at one.
\<close>

theorem luaG_checkcode_sound:
  assumes "luaG_checkcode pt = Some True" "bytes_ok pt"
  shows "(\<forall>pc. instr_start pt pc \<and> pc < sizecode pt \<longrightarrow>
      (\<exists>i q. at (code pt) pc = Some i \<and> GET_OPCODE i = Some q \<and> ((q = OP_LOADBOOL \<longrightarrow> GETARG_C i \<le> 1) \<longrightarrow> instr_safe pt pc i q))) \<and>
    (loadbool_ok pt \<longrightarrow> (\<forall>pc. vm_reaches pt pc \<longrightarrow> 0 \<le> pc \<and> pc < sizecode pt \<and> instr_start pt pc))"
  using checked_safe [OF assms] checked_reaches [OF assms] by blast

theorem luaG_checkcode_sound_witness:
  "(\<exists>i q. at (code sample_proto) 0 = Some i \<and> GET_OPCODE i = Some q \<and> instr_safe sample_proto 0 i q) \<and> instr_start sample_proto 2"
proof -
  have g: "GET_OPCODE (CREATE_ABx OP_LOADK 0 1) = Some OP_LOADK" "GET_OPCODE (CREATE_ABx OP_JMP 0 (0 + MAXARG_sBx)) = Some OP_JMP"
    "GET_OPCODE (CREATE_ABC OP_RETURN 0 1 0) = Some OP_RETURN" "GETARG_sBx (CREATE_ABx OP_JMP 0 (0 + MAXARG_sBx)) = 0"
    "GET_OPCODE (CREATE_ABx OP_JMP 0 MAXARG_sBx) = Some OP_JMP" "GETARG_sBx (CREATE_ABx OP_JMP 0 MAXARG_sBx) = 0" by code_simp+
  have "loadbool_ok sample_proto" using g by (simp add: loadbool_ok_def sample_proto_def)
  moreover have "vm_reaches sample_proto 1"
    by (rule vm_reaches.step [OF vm_reaches.entry, of _ "CREATE_ABx OP_LOADK 0 1" OP_LOADK])
      (simp_all add: sample_proto_def g successors_def testTMode_iff)
  then have "vm_reaches sample_proto 2"
    by (rule vm_reaches.step [of _ _ "CREATE_ABx OP_JMP 0 (0 + MAXARG_sBx)" OP_JMP])
      (simp_all add: sample_proto_def g successors_def)
  moreover have "sizecode sample_proto = 3" "at (code sample_proto) 0 = Some (CREATE_ABx OP_LOADK 0 1)" by (simp_all add: sample_proto_def)
  ultimately show ?thesis
    using luaG_checkcode_sound [OF sample_checked sample_bytes_ok] instr_start.first [of sample_proto] g(1) by fastforce
qed

text \<open>A prototype that passes the check and runs off the end of its code.\<close>

definition skip_proto :: "int Proto" where
  "skip_proto = Proto [] [CREATE_ABC OP_LOADBOOL 0 1 2, CREATE_ABC OP_RETURN 0 1 0] [] [] [] [] (Some ''=s'') 0 0 0 0 2 2"

theorem loadbool_skip_unchecked:
  "luaG_checkcode skip_proto = Some True \<and> bytes_ok skip_proto \<and> vm_reaches skip_proto (sizecode skip_proto)"
proof -
  have "luaG_checkcode skip_proto = Some True" by code_simp
  moreover have g: "GET_OPCODE (CREATE_ABC OP_LOADBOOL 0 1 2) = Some OP_LOADBOOL" "GETARG_C (CREATE_ABC OP_LOADBOOL 0 1 2) = 2" by code_simp+
  have "vm_reaches skip_proto 2"
    by (rule vm_reaches.step [OF vm_reaches.entry, of _ "CREATE_ABC OP_LOADBOOL 0 1 2" OP_LOADBOOL])
      (simp_all add: skip_proto_def g successors_def)
  ultimately show ?thesis by (simp add: bytes_ok_def skip_proto_def)
qed

end
