(* ===== verification/LuaDump.thy ===== *)
theory LuaDump
  imports LuaZio LuaCheck
begin

text \<open>
  Precompiled chunks: the writer (\<^verbatim>\<open>lualib/ldump.c\<close>) and the reader (\<^verbatim>\<open>lualib/lundump.c\<close>).  A Lua
  number is the 64-bit pattern of a double, which both copy as it is; integers and sizes are four
  bytes, least significant first.  The function that receives the blocks of a dump is a parameter.
\<close>

section \<open>Bytes of integers\<close>

fun le_bytes :: "nat \<Rightarrow> int \<Rightarrow> char list" where
  "le_bytes 0 x = []"
| "le_bytes (Suc n) x = char_of (x mod 256) # le_bytes n (x div 256)"

fun le_value :: "char list \<Rightarrow> int" where
  "le_value [] = 0"
| "le_value (c # cs) = uchar c + 256 * le_value cs"

lemma length_le_bytes [simp]: "length (le_bytes n x) = n"
  by (induction n arbitrary: x) auto

lemma le_value_bytes: "le_value (le_bytes n x) = x mod 256 ^ n"
proof (induction n arbitrary: x)
  case (Suc n)
  have "x mod 256 ^ Suc n = x mod 256 + 256 * (x div 256 mod 256 ^ n)"
    by (simp add: mod_mult2_eq' zmod_zmult2_eq)
  then show ?case using Suc.IH [of "x div 256"] by (simp add: uchar_def)
qed simp

section \<open>Writing\<close>

type_synonym lua_Number = "64 word"
type_synonym 'w lua_Writer = "'w \<Rightarrow> char list \<Rightarrow> 'w \<times> int"

record 'w DumpState =
  wdata :: 'w
  strip :: bool
  status :: int

definition DumpBlock :: "'w lua_Writer \<Rightarrow> char list \<Rightarrow> 'w DumpState \<Rightarrow> 'w DumpState" where
  "DumpBlock w b D =
     (if status D = 0 then (let (d, st) = w (wdata D) b in D\<lparr>wdata := d, status := st\<rparr>) else D)"

definition DumpChar :: "'w lua_Writer \<Rightarrow> int \<Rightarrow> 'w DumpState \<Rightarrow> 'w DumpState" where
  "DumpChar w y D = DumpBlock w (le_bytes 1 y) D"

definition DumpInt :: "'w lua_Writer \<Rightarrow> int \<Rightarrow> 'w DumpState \<Rightarrow> 'w DumpState" where
  "DumpInt w x D = DumpBlock w (le_bytes 4 x) D"

definition DumpNumber :: "'w lua_Writer \<Rightarrow> lua_Number \<Rightarrow> 'w DumpState \<Rightarrow> 'w DumpState" where
  "DumpNumber w x D = DumpBlock w (le_bytes 8 (uint x)) D"

text \<open>A vector of four-byte elements.\<close>

definition DumpVector :: "'w lua_Writer \<Rightarrow> int list \<Rightarrow> 'w DumpState \<Rightarrow> 'w DumpState" where
  "DumpVector w xs D = DumpBlock w (concat (map (le_bytes 4) xs)) (DumpInt w (int (length xs)) D)"

definition DumpString :: "'w lua_Writer \<Rightarrow> char list option \<Rightarrow> 'w DumpState \<Rightarrow> 'w DumpState" where
  "DumpString w s D =
     (case s of
        None \<Rightarrow> DumpBlock w (le_bytes 4 0) D
      | Some x \<Rightarrow> DumpBlock w (x @ [NUL]) (DumpBlock w (le_bytes 4 (int (length x) + 1)) D))"

definition DumpConstant :: "'w lua_Writer \<Rightarrow> lua_Number TValue \<Rightarrow> 'w DumpState \<Rightarrow> 'w DumpState" where
  "DumpConstant w v D =
     (let D1 = DumpChar w (ttype v) D
      in case v of
           Boolean b \<Rightarrow> DumpChar w b D1
         | Number n \<Rightarrow> DumpNumber w n D1
         | String s \<Rightarrow> DumpString w (Some s) D1
         | Null_string \<Rightarrow> DumpString w None D1
         | _ \<Rightarrow> D1)"

definition DumpLocVar :: "'w lua_Writer \<Rightarrow> LocVar \<Rightarrow> 'w DumpState \<Rightarrow> 'w DumpState" where
  "DumpLocVar w v D = DumpInt w (endpc v) (DumpInt w (startpc v) (DumpString w (varname v) D))"

definition DumpDebug :: "'w lua_Writer \<Rightarrow> lua_Number Proto \<Rightarrow> 'w DumpState \<Rightarrow> 'w DumpState" where
  "DumpDebug w f D =
     (let D1 = DumpVector w (if strip D then [] else lineinfo f) D;
          vs = (if strip D then [] else locvars f);
          D2 = fold (DumpLocVar w) vs (DumpInt w (int (length vs)) D1);
          us = (if strip D then [] else upvalues f)
      in fold (DumpString w) us (DumpInt w (int (length us)) D2))"

lemma size_pp: "g \<in> set (pp f) \<Longrightarrow> size g < size f"
proof -
  assume "g \<in> set (pp f)"
  then have "size g \<le> size_list size (pp f)" by (rule size_list_estimation') simp
  then show ?thesis by (cases f) simp
qed

text \<open>\<^verbatim>\<open>DumpConstants\<close>, with what dumps the nested functions.\<close>

definition DumpConstants ::
  "'w lua_Writer \<Rightarrow> (lua_Number Proto \<Rightarrow> 'w DumpState \<Rightarrow> 'w DumpState) \<Rightarrow> lua_Number Proto \<Rightarrow> 'w DumpState \<Rightarrow> 'w DumpState" where
  "DumpConstants w nested f D =
     (let D1 = fold (DumpConstant w) (pk f) (DumpInt w (int (length (pk f))) D)
      in fold nested (pp f) (DumpInt w (int (length (pp f))) D1))"

lemma DumpConstants_cong [fundef_cong]:
  "f = g \<Longrightarrow> D = E \<Longrightarrow> (\<And>x D. x \<in> set (pp g) \<Longrightarrow> n x D = m x D) \<Longrightarrow> DumpConstants w n f D = DumpConstants w m g E"
  unfolding DumpConstants_def Let_def by (auto intro: fold_cong)

function DumpFunction ::
  "'w lua_Writer \<Rightarrow> lua_Number Proto \<Rightarrow> char list option \<Rightarrow> 'w DumpState \<Rightarrow> 'w DumpState" where
  "DumpFunction w f p D =
     (let D1 = DumpString w (if source f = p \<or> strip D then None else source f) D;
          D2 = DumpInt w (lastlinedefined f) (DumpInt w (linedefined f) D1);
          D3 = DumpChar w (maxstacksize f) (DumpChar w (is_vararg f) (DumpChar w (numparams f)
                 (DumpChar w (nups f) D2)));
          D4 = DumpVector w (map uint (code f)) D3;
          D5 = DumpConstants w (\<lambda>g. DumpFunction w g (source f)) f D4
      in DumpDebug w f D5)"
  by pat_completeness auto
termination
  by (relation "measure (\<lambda>(w, f, p, D). size f)") (auto intro: size_pp)

definition LUAC_VERSION :: int where "LUAC_VERSION = 81"
definition LUAC_FORMAT :: int where "LUAC_FORMAT = 0"
definition LUAC_HEADERSIZE :: nat where "LUAC_HEADERSIZE = 12"
definition LUA_SIGNATURE :: "char list" where "LUA_SIGNATURE = CHR 0x1B # ''Lua''"

text \<open>The header of a little-endian machine with four-byte integers and eight-byte doubles.\<close>

definition luaU_header :: "char list" where
  "luaU_header = LUA_SIGNATURE @ map char_of [LUAC_VERSION, LUAC_FORMAT, 1, 4, 4, 4, 8, 0]"

definition DumpHeader :: "'w lua_Writer \<Rightarrow> 'w DumpState \<Rightarrow> 'w DumpState" where
  "DumpHeader w D = DumpBlock w luaU_header D"

definition luaU_dump :: "'w lua_Writer \<Rightarrow> lua_Number Proto \<Rightarrow> 'w \<Rightarrow> bool \<Rightarrow> 'w \<times> int" where
  "luaU_dump w f d str =
     (let D = DumpFunction w f None (DumpHeader w \<lparr>wdata = d, strip = str, status = 0\<rparr>)
      in (wdata D, status D))"

section \<open>Reading\<close>

record LoadState =
  Z :: ZIO
  mbuf :: Mbuffer
  chunkname :: "char list"
  nCcalls :: nat

text \<open>A load fails with an error, or gives a value; \<open>None\<close> is a read outside the memory it may read.\<close>

type_synonym 'a load = "LoadState \<Rightarrow> (lua_throw + 'a \<times> LoadState) option"

definition ld_return :: "'a \<Rightarrow> 'a load" where
  "ld_return x S = Some (Inr (x, S))"

definition ld_bind :: "'a load \<Rightarrow> ('a \<Rightarrow> 'b load) \<Rightarrow> 'b load" where
  "ld_bind m f S =
     m S \<bind> (\<lambda>r. case r of Inl e \<Rightarrow> Some (Inl e) | Inr xs \<Rightarrow> f (fst xs) (snd xs))"

definition load_error :: "char list \<Rightarrow> 'a load" where
  "load_error why S = Some (Inl (LUA_ERRSYNTAX (chunkname S @ '': '' @ why @ '' in precompiled chunk'')))"

definition IF :: "bool \<Rightarrow> char list \<Rightarrow> unit load" where
  "IF c s = (if c then load_error s else ld_return ())"

definition LoadBlock :: "nat \<Rightarrow> char list load" where
  "LoadBlock n S = do {
     (z, b, r) \<leftarrow> luaZ_read (Z S) n;
     ld_bind (IF (r \<noteq> 0) ''unexpected end'') (\<lambda>_. ld_return b) (S\<lparr>Z := z\<rparr>)
   }"

text \<open>A \<^verbatim>\<open>char\<close> is signed.\<close>

definition LoadChar :: "int load" where
  "LoadChar = ld_bind (LoadBlock 1) (\<lambda>b. let x = le_value b in ld_return (if x < 128 then x else x - 256))"

definition LoadByte :: "int load" where
  "LoadByte = ld_bind LoadChar (\<lambda>x. ld_return (x mod 256))"

definition LoadInt :: "int load" where
  "LoadInt = ld_bind (LoadBlock 4) (\<lambda>b.
     let x = c_int (le_value b) in ld_bind (IF (x < 0) ''bad integer'') (\<lambda>_. ld_return x))"

definition LoadNumber :: "lua_Number load" where
  "LoadNumber = ld_bind (LoadBlock 8) (\<lambda>b. ld_return (word_of_int (le_value b)))"

text \<open>
  The room for a string in the buffer, and its copy by \<^verbatim>\<open>luaS_newlstr\<close>: memory is granted, unless the
  size cannot be counted.
\<close>

definition openspace :: "nat \<Rightarrow> unit load" where
  "openspace n S =
     (if n > buffsize (mbuf S) \<and> (int (max n LUA_MINBUFFER) + 1) mod 2 ^ 32 > MAX_SIZET
      then Some (Inl luaM_toobig) else ld_return () (S\<lparr>mbuf := luaZ_openspace (mbuf S) n\<rparr>))"

definition newlstr :: "char list \<Rightarrow> char list load" where
  "newlstr s S = (if int (length s) + 1 > MAX_SIZET - 16 then Some (Inl luaM_toobig) else ld_return s S)"

definition LoadString :: "char list option load" where
  "LoadString = ld_bind (LoadBlock 4) (\<lambda>b.
     let size = nat (le_value b)
     in if size = 0 then ld_return None
        else ld_bind (openspace size) (\<lambda>_. ld_bind (LoadBlock size) (\<lambda>s.
             ld_bind (newlstr (take (size - 1) s)) (\<lambda>t. ld_return (Some t)))))"

text \<open>\<^verbatim>\<open>luaM_newvector\<close>: the memory is granted, unless the size cannot be counted.\<close>

definition newvector :: "int \<Rightarrow> int \<Rightarrow> unit load" where
  "newvector n e S =
     (if (n + 1) mod 2 ^ 32 \<le> MAX_SIZET div e then ld_return () S else Some (Inl luaM_toobig))"

fun le_values :: "nat \<Rightarrow> char list \<Rightarrow> int list" where
  "le_values 0 b = []"
| "le_values (Suc n) b = le_value (take 4 b) # le_values n (drop 4 b)"

definition LoadVector :: "nat \<Rightarrow> int list load" where
  "LoadVector n = ld_bind (LoadBlock (n * 4)) (\<lambda>b. ld_return (le_values n b))"

fun load_list :: "nat \<Rightarrow> 'a load \<Rightarrow> 'a list load" where
  "load_list 0 m = ld_return []"
| "load_list (Suc n) m = ld_bind m (\<lambda>x. ld_bind (load_list n m) (\<lambda>xs. ld_return (x # xs)))"

definition LoadCode :: "Instruction list load" where
  "LoadCode = ld_bind LoadInt (\<lambda>n. ld_bind (newvector n 4) (\<lambda>_.
     ld_bind (LoadVector (nat n)) (\<lambda>xs. ld_return (map word_of_int xs))))"

definition LoadConstant :: "lua_Number TValue load" where
  "LoadConstant = ld_bind LoadChar (\<lambda>t.
     if t = LUA_TNIL then ld_return Nil_value
     else if t = LUA_TBOOLEAN then ld_bind LoadChar (\<lambda>b. ld_return (Boolean (if b \<noteq> 0 then 1 else 0)))
     else if t = LUA_TNUMBER then ld_bind LoadNumber (\<lambda>n. ld_return (Number n))
     else if t = LUA_TSTRING then ld_bind LoadString (\<lambda>s.
       ld_return (case s of Some x \<Rightarrow> String x | None \<Rightarrow> Null_string))
     else load_error ''bad constant'')"

text \<open>The constants, and the nested functions by the parameter.\<close>

definition LoadConstants ::
  "lua_Number Proto load \<Rightarrow> (lua_Number TValue list \<times> lua_Number Proto list) load" where
  "LoadConstants nested = ld_bind LoadInt (\<lambda>n. ld_bind (newvector n 16) (\<lambda>_.
     ld_bind (load_list (nat n) LoadConstant) (\<lambda>ks.
     ld_bind LoadInt (\<lambda>m. ld_bind (newvector m 4) (\<lambda>_.
     ld_bind (load_list (nat m) nested) (\<lambda>fs. ld_return (ks, fs)))))))"

definition LoadLocVar :: "LocVar load" where
  "LoadLocVar = ld_bind LoadString (\<lambda>s. ld_bind LoadInt (\<lambda>a. ld_bind LoadInt (\<lambda>b.
     ld_return \<lparr>varname = s, startpc = a, endpc = b\<rparr>)))"

definition LoadDebug :: "(int list \<times> LocVar list \<times> char list option list) load" where
  "LoadDebug = ld_bind LoadInt (\<lambda>n. ld_bind (newvector n 4) (\<lambda>_. ld_bind (LoadVector (nat n)) (\<lambda>ls.
     ld_bind LoadInt (\<lambda>n. ld_bind (newvector n 12) (\<lambda>_. ld_bind (load_list (nat n) LoadLocVar) (\<lambda>vs.
     ld_bind LoadInt (\<lambda>n. ld_bind (newvector n 4) (\<lambda>_. ld_bind (load_list (nat n) LoadString) (\<lambda>us.
     ld_return (map c_int ls, vs, us))))))))))"

definition LUAI_MAXCCALLS :: nat where
  "LUAI_MAXCCALLS = 200"

lemma ld_bind_mono [partial_function_mono]:
  assumes "\<And>S. mono_option (\<lambda>f. B f S)" "\<And>x S. mono_option (\<lambda>f. C f x S)"
  shows "mono_option (\<lambda>f. ld_bind (B f) (C f) S)"
  unfolding ld_bind_def
proof (rule bind_mono [OF assms(1)])
  show "mono_option (\<lambda>f. case r of Inl e \<Rightarrow> Some (Inl e) | Inr xs \<Rightarrow> C f (fst xs) (snd xs))" for r
    by (cases r) (simp_all add: assms(2) option.const_mono)
qed

lemma load_list_mono [partial_function_mono]:
  assumes "\<And>S. mono_option (\<lambda>f. B f S)"
  shows "mono_option (\<lambda>f. load_list n (B f) S)"
proof (induction n arbitrary: S)
  case 0
  then show ?case by (simp add: option.const_mono)
next
  case (Suc n)
  show ?case unfolding load_list.simps by (intro ld_bind_mono assms Suc.IH option.const_mono)
qed

lemma LoadConstants_mono [partial_function_mono]:
  assumes "\<And>S. mono_option (\<lambda>f. B f S)"
  shows "mono_option (\<lambda>f. LoadConstants (B f) S)"
  unfolding LoadConstants_def by (intro ld_bind_mono load_list_mono assms option.const_mono)

definition enter :: "unit load" where
  "enter S = (let S1 = S\<lparr>nCcalls := Suc (nCcalls S)\<rparr>
     in IF (nCcalls S1 > LUAI_MAXCCALLS) ''code too deep'' S1)"

definition leave :: "unit load" where
  "leave S = ld_return () (S\<lparr>nCcalls := nCcalls S - 1\<rparr>)"

definition check_load :: "lua_Number Proto \<Rightarrow> unit load" where
  "check_load f S = luaG_checkcode f \<bind> (\<lambda>ok. IF (\<not> ok) ''bad code'' S)"

partial_function (option) LoadFunction ::
  "char list option \<Rightarrow> LoadState \<Rightarrow> (lua_throw + lua_Number Proto \<times> LoadState) option" where
  "LoadFunction p S =
     ld_bind enter (\<lambda>_. ld_bind LoadString (\<lambda>s. ld_bind (ld_return (if s = None then p else s)) (\<lambda>src.
     ld_bind LoadInt (\<lambda>ld. ld_bind LoadInt (\<lambda>ll.
     ld_bind LoadByte (\<lambda>nu. ld_bind LoadByte (\<lambda>np. ld_bind LoadByte (\<lambda>va. ld_bind LoadByte (\<lambda>ms.
     ld_bind LoadCode (\<lambda>cd.
     ld_bind (LoadConstants (\<lambda>S. LoadFunction src S)) (\<lambda>kp.
     ld_bind LoadDebug (\<lambda>dbg.
     ld_bind (ld_return (Proto (fst kp) cd (snd kp) (fst dbg) (fst (snd dbg)) (snd (snd dbg)) src ld ll nu np va ms)) (\<lambda>f.
     ld_bind (check_load f) (\<lambda>_. ld_bind leave (\<lambda>_. ld_return f))))))))))))))) S"

definition LoadHeader :: "unit load" where
  "LoadHeader = ld_bind (LoadBlock LUAC_HEADERSIZE) (\<lambda>s. IF (s \<noteq> luaU_header) ''bad header'')"

definition luaU_undump ::
  "ZIO \<Rightarrow> Mbuffer \<Rightarrow> char list \<Rightarrow> nat \<Rightarrow> (lua_throw + lua_Number Proto \<times> LoadState) option" where
  "luaU_undump z buff name calls =
     (let nm = (if name \<noteq> [] \<and> (hd name = CHR ''@'' \<or> hd name = CHR ''='') then tl name
                else if name \<noteq> [] \<and> hd name = hd LUA_SIGNATURE then ''binary string'' else name)
      in ld_bind LoadHeader (\<lambda>_ S. LoadFunction (Some ''=?'') S)
           \<lparr>Z = z, mbuf = buff, chunkname = nm, nCcalls = calls\<rparr>)"

end
