(* ===== verification/LuaChunk.thy ===== *)
theory LuaChunk
  imports LuaDump
begin

text \<open>
  The round trip of precompiled chunks and the safety of the reader.  The bytes of a chunk are
  specified by \<open>chunk\<close>, independently of the code; the writer hands exactly these bytes to the
  writer function, block by block, and the reader gives the function back from them.
\<close>

section \<open>The format\<close>

fun string_bytes :: "char list option \<Rightarrow> char list" where
  "string_bytes None = le_bytes 4 0"
| "string_bytes (Some x) = le_bytes 4 (int (length x) + 1) @ x @ [NUL]"

definition constant_bytes :: "lua_Number TValue \<Rightarrow> char list" where
  "constant_bytes v = le_bytes 1 (ttype v) @
     (case v of Boolean b \<Rightarrow> le_bytes 1 b | Number n \<Rightarrow> le_bytes 8 (uint n) | String s \<Rightarrow> string_bytes (Some s)
      | Null_string \<Rightarrow> string_bytes None | _ \<Rightarrow> [])"

definition locvar_bytes :: "LocVar \<Rightarrow> char list" where
  "locvar_bytes v = string_bytes (varname v) @ le_bytes 4 (startpc v) @ le_bytes 4 (endpc v)"

definition vector_bytes :: "('a \<Rightarrow> char list) \<Rightarrow> 'a list \<Rightarrow> char list" where
  "vector_bytes b xs = le_bytes 4 (int (length xs)) @ concat (map b xs)"

definition debug_bytes :: "bool \<Rightarrow> lua_Number Proto \<Rightarrow> char list" where
  "debug_bytes s f = vector_bytes (le_bytes 4) (if s then [] else lineinfo f) @
     vector_bytes locvar_bytes (if s then [] else locvars f) @
     vector_bytes string_bytes (if s then [] else upvalues f)"

lemma vector_bytes_cong [fundef_cong]:
  "xs = ys \<Longrightarrow> (\<And>x. x \<in> set ys \<Longrightarrow> b x = c x) \<Longrightarrow> vector_bytes b xs = vector_bytes c ys"
  by (auto simp: vector_bytes_def intro!: arg_cong [of _ _ concat])

function function_bytes :: "bool \<Rightarrow> char list option \<Rightarrow> lua_Number Proto \<Rightarrow> char list" where
  "function_bytes s p f =
     string_bytes (if source f = p \<or> s then None else source f) @
     le_bytes 4 (linedefined f) @ le_bytes 4 (lastlinedefined f) @
     le_bytes 1 (nups f) @ le_bytes 1 (numparams f) @ le_bytes 1 (is_vararg f) @ le_bytes 1 (maxstacksize f) @
     vector_bytes (le_bytes 4) (map uint (code f)) @
     vector_bytes constant_bytes (pk f) @
     vector_bytes (function_bytes s (source f)) (pp f) @
     debug_bytes s f"
  by pat_completeness auto
termination
  by (relation "measure (\<lambda>(s, p, f). size f)") (auto intro: size_pp)

declare function_bytes.simps [simp del] DumpFunction.simps [simp del]

definition chunk :: "bool \<Rightarrow> lua_Number Proto \<Rightarrow> char list" where
  "chunk s f = luaU_header @ function_bytes s None f"

section \<open>The writer\<close>

definition writes :: "bool \<Rightarrow> ('w lua_Writer \<Rightarrow> 'w DumpState \<Rightarrow> 'w DumpState) \<Rightarrow> char list \<Rightarrow> bool" where
  "writes s m bs \<longleftrightarrow> (\<exists>bl. concat bl = bs \<and> (\<forall>w D. strip D = s \<longrightarrow> m w D = fold (DumpBlock w) bl D))"

lemma strip_DumpBlock [simp]: "strip (DumpBlock w b D) = strip D"
  by (simp add: DumpBlock_def split: prod.splits)

lemma strip_fold [simp]: "strip (fold (DumpBlock w) bl D) = strip D"
  by (induction bl arbitrary: D) auto

lemma writes_block: "writes s (\<lambda>w. DumpBlock w b) b"
  unfolding writes_def by (intro exI [of _ "[b]"]) simp

lemma writes_id: "writes s (\<lambda>w D. D) []"
  unfolding writes_def by (intro exI [of _ "[]"]) simp

lemma writes_comp:
  "writes s m b \<Longrightarrow> writes s n c \<Longrightarrow> writes s (\<lambda>w D. n w (m w D)) (b @ c)"
  unfolding writes_def
  by (elim exE conjE, rule_tac x = "bl @ bla" in exI) simp

lemma writes_fold:
  "(\<And>x. x \<in> set xs \<Longrightarrow> writes s (\<lambda>w. m w x) (b x)) \<Longrightarrow> writes s (\<lambda>w. fold (m w) xs) (concat (map b xs))"
proof (induction xs)
  case Nil
  then show ?case using writes_id by simp
next
  case (Cons x xs)
  from writes_comp [OF Cons.prems [of x] Cons.IH] Cons.prems show ?case by (simp add: comp_def)
qed

lemma writes_strip:
  "(s \<Longrightarrow> writes s (m True) b) \<Longrightarrow> (\<not> s \<Longrightarrow> writes s (m False) b) \<Longrightarrow> writes s (\<lambda>w D. m (strip D) w D) b"
  unfolding writes_def by (cases s) auto

lemma writes_char: "writes s (\<lambda>w. DumpChar w y) (le_bytes 1 y)"
  unfolding DumpChar_def by (rule writes_block)

lemma writes_int: "writes s (\<lambda>w. DumpInt w y) (le_bytes 4 y)"
  unfolding DumpInt_def by (rule writes_block)

lemma writes_string: "writes s (\<lambda>w. DumpString w x) (string_bytes x)"
proof (cases x)
  case None
  then show ?thesis using writes_block unfolding DumpString_def [abs_def] by (simp del: le_bytes.simps)
next
  case (Some y)
  from writes_comp [OF writes_block [of s "le_bytes 4 (int (length y) + 1)"] writes_block [of s "y @ [NUL]"]]
  show ?thesis using Some unfolding DumpString_def [abs_def] by (simp del: le_bytes.simps)
qed

lemma writes_vector: "writes s (\<lambda>w. DumpVector w xs) (vector_bytes (le_bytes 4) xs)"
  unfolding DumpVector_def vector_bytes_def by (rule writes_comp [OF writes_int writes_block])

lemma writes_list:
  "(\<And>x. x \<in> set xs \<Longrightarrow> writes s (\<lambda>w. m w x) (b x)) \<Longrightarrow>
     writes s (\<lambda>w D. fold (m w) xs (DumpInt w (int (length xs)) D)) (vector_bytes b xs)"
  unfolding vector_bytes_def by (rule writes_comp [OF writes_int writes_fold])

lemma writes_constant: "writes s (\<lambda>w. DumpConstant w v) (constant_bytes v)"
proof -
  note c = writes_char [of s "ttype v"]
  show ?thesis
    unfolding DumpConstant_def [abs_def] constant_bytes_def Let_def DumpNumber_def [abs_def]
    using writes_comp [OF c writes_char] writes_comp [OF c writes_block] writes_comp [OF c writes_string] c
    by (cases v) (simp_all only: TValue.case append_Nil2)
qed

lemma writes_locvar: "writes s (\<lambda>w. DumpLocVar w v) (locvar_bytes v)"
  using writes_comp [OF writes_comp [OF writes_string writes_int] writes_int]
  unfolding DumpLocVar_def [abs_def] locvar_bytes_def append_assoc .

lemma writes_cong: "writes s n b \<Longrightarrow> (\<And>w D. m w D = n w D) \<Longrightarrow> writes s m b"
  by (simp add: writes_def)

text \<open>A step that looks at the strip flag.\<close>

lemma writes_flag:
  "writes s (m s) b \<Longrightarrow> writes s (\<lambda>w D. m (strip D) w D) b"
  unfolding writes_def by auto

lemma writes_debug: "writes s (\<lambda>w. DumpDebug w f) (debug_bytes s f)"
proof -
  have "writes s (\<lambda>w D. let D1 = DumpVector w (if t then [] else lineinfo f) D;
          vs = (if t then [] else locvars f);
          D2 = fold (DumpLocVar w) vs (DumpInt w (int (length vs)) D1);
          us = (if t then [] else upvalues f)
      in fold (DumpString w) us (DumpInt w (int (length us)) D2)) (debug_bytes t f)" for t
    unfolding Let_def debug_bytes_def
    using writes_comp [OF writes_comp [OF writes_vector writes_list [OF writes_locvar]] writes_list [OF writes_string]]
    unfolding append_assoc .
  from writes_flag [where m = "\<lambda>t w D. let D1 = DumpVector w (if t then [] else lineinfo f) D;
          vs = (if t then [] else locvars f);
          D2 = fold (DumpLocVar w) vs (DumpInt w (int (length vs)) D1);
          us = (if t then [] else upvalues f)
      in fold (DumpString w) us (DumpInt w (int (length us)) D2)", OF this [of s]]
  show ?thesis unfolding DumpDebug_def [abs_def] .
qed

lemma writes_function: "writes s (\<lambda>w :: 'w lua_Writer. DumpFunction w f p) (function_bytes s p f)"
proof (induction s p f rule: function_bytes.induct)
  case (1 s p f)
  have n: "writes s (\<lambda>(w :: 'w lua_Writer) D. fold (\<lambda>g. DumpFunction w g (source f)) (pp f) (DumpInt w (int (length (pp f))) D))
      (vector_bytes (function_bytes s (source f)) (pp f))"
    by (rule writes_list) (rule "1.IH")
  have d: "writes s (\<lambda>(w :: 'w lua_Writer) D. DumpString w (if source f = p \<or> strip D then None else source f) D)
      (string_bytes (if source f = p \<or> s then None else source f))"
    by (rule writes_flag [where m = "\<lambda>t w. DumpString w (if source f = p \<or> t then None else source f)"], rule writes_string)
  have k: "writes s (\<lambda>(w :: 'w lua_Writer) D. fold (DumpConstant w) (pk f) (DumpInt w (int (length (pk f))) D))
      (vector_bytes constant_bytes (pk f))"
    by (rule writes_list) (rule writes_constant)
  note all = writes_comp [OF writes_comp [OF writes_comp [OF writes_comp [OF writes_comp [OF
    writes_comp [OF writes_comp [OF writes_comp [OF writes_comp [OF writes_comp [OF d
    writes_int [of s "linedefined f"]] writes_int [of s "lastlinedefined f"]]
    writes_char [of s "nups f"]] writes_char [of s "numparams f"]] writes_char [of s "is_vararg f"]]
    writes_char [of s "maxstacksize f"]] writes_vector [of s "map uint (code f)"]]
    k] n] writes_debug [of s f]]
  show ?case
    unfolding function_bytes.simps [of s p f]
  proof (rule writes_cong [OF all [unfolded append_assoc]])
    show "DumpFunction w f p D = (DumpDebug w f (fold (\<lambda>g. DumpFunction w g (source f)) (pp f)
      (DumpInt w (int (length (pp f))) (fold (DumpConstant w) (pk f) (DumpInt w (int (length (pk f)))
      (DumpVector w (map uint (code f)) (DumpChar w (maxstacksize f) (DumpChar w (is_vararg f)
      (DumpChar w (numparams f) (DumpChar w (nups f) (DumpInt w (lastlinedefined f) (DumpInt w (linedefined f)
      (DumpString w (if source f = p \<or> strip D then None else source f) D)))))))))))))" for w :: "'w lua_Writer" and D
      by (subst DumpFunction.simps) (simp only: DumpConstants_def Let_def)
  qed
qed


text \<open>Handing blocks to the writer function, up to the first block it refuses.\<close>

fun run_writer :: "'w lua_Writer \<Rightarrow> char list list \<Rightarrow> 'w \<Rightarrow> 'w \<times> int" where
  "run_writer w [] d = (d, 0)"
| "run_writer w (b # bl) d =
     (case w d b of (d', st) \<Rightarrow> if st = 0 then run_writer w bl d' else (d', st))"

lemma fold_refused: "status D \<noteq> 0 \<Longrightarrow> fold (DumpBlock w) bl D = D"
  by (induction bl) (simp_all add: DumpBlock_def)

lemma fold_run_writer:
  "status D = 0 \<Longrightarrow> fold (DumpBlock w) bl D =
     D\<lparr>wdata := fst (run_writer w bl (wdata D)), status := snd (run_writer w bl (wdata D))\<rparr>"
proof (induction bl arbitrary: D)
  case (Cons b bl)
  obtain d st where w: "w (wdata D) b = (d, st)" by fastforce
  show ?case
  proof (cases "st = 0")
    case True
    then show ?thesis using Cons w by (simp add: DumpBlock_def)
  next
    case False
    then show ?thesis using Cons.prems w by (simp add: DumpBlock_def [of w b] fold_refused)
  qed
qed simp

lemma writes_dump:
  "writes s (\<lambda>w :: 'w lua_Writer. \<lambda>D. DumpFunction w f None (DumpHeader w D)) (chunk s f)"
  unfolding chunk_def DumpHeader_def by (rule writes_comp [OF writes_block writes_function])

section \<open>The reader\<close>

text \<open>
  \<open>m\<close> reads the bytes \<open>bs\<close>, gives \<open>v\<close>, leaves the rest of the stream, and nests at most \<open>k\<close> calls.
\<close>

definition reads :: "nat \<Rightarrow> 'a load \<Rightarrow> char list \<Rightarrow> 'a \<Rightarrow> bool" where
  "reads k m bs v \<longleftrightarrow> (\<forall>S rest. zio_ok (Z S) \<and> stream (Z S) = bs @ rest \<and> nCcalls S + k \<le> LUAI_MAXCCALLS \<longrightarrow>
     (\<exists>S'. m S = Some (Inr (v, S')) \<and> zio_ok (Z S') \<and> stream (Z S') = rest \<and> nCcalls S' = nCcalls S))"

lemma reads_return: "reads k (ld_return v) [] v"
  by (simp add: reads_def ld_return_def)

lemma reads_bind:
  assumes "reads k m bs v" "reads k (f v) cs w"
  shows "reads k (ld_bind m f) (bs @ cs) w"
  unfolding reads_def
proof (intro allI impI, elim conjE)
  fix S :: LoadState and rest
  assume S: "zio_ok (Z S)" "stream (Z S) = (bs @ cs) @ rest" "nCcalls S + k \<le> LUAI_MAXCCALLS"
  then obtain S1 where 1: "m S = Some (Inr (v, S1))" "zio_ok (Z S1)" "stream (Z S1) = cs @ rest" "nCcalls S1 = nCcalls S"
    using assms(1) unfolding reads_def append_assoc by blast
  then obtain S2 where "f v S1 = Some (Inr (w, S2))" "zio_ok (Z S2)" "stream (Z S2) = rest" "nCcalls S2 = nCcalls S1"
    using assms(2) S(3) unfolding reads_def by fastforce
  then show "\<exists>S'. ld_bind m f S = Some (Inr (w, S')) \<and> zio_ok (Z S') \<and> stream (Z S') = rest \<and> nCcalls S' = nCcalls S"
    using 1 by (simp add: ld_bind_def)
qed

text \<open>A step that reads nothing, before and after.\<close>

lemma reads_skip: "reads k m [] v \<Longrightarrow> reads k (f v) cs w \<Longrightarrow> reads k (ld_bind m f) cs w"
  using reads_bind [of k m "[]" v f cs w] by simp

lemma reads_end: "reads k m bs v \<Longrightarrow> reads k (ld_bind m (\<lambda>x. ld_return (g x))) bs (g v)"
  using reads_bind [OF _ reads_return, of k m bs v "\<lambda>x. g x"] by simp

lemma reads_IF: "\<not> c \<Longrightarrow> reads k (IF c why) [] ()"
  using reads_return by (simp add: IF_def)

lemma reads_block:
  assumes "length bs = n"
  shows "reads k (LoadBlock n) bs bs"
  unfolding reads_def
proof (intro allI impI, elim conjE)
  fix S :: LoadState and rest
  assume S: "zio_ok (Z S)" "stream (Z S) = bs @ rest"
  then obtain z where "luaZ_read (Z S) n = Some (z, bs, 0)" "zio_ok z" "stream z = rest"
    using luaZ_read_ok [OF S(1), of n] assms by auto
  then show "\<exists>S'. LoadBlock n S = Some (Inr (bs, S')) \<and> zio_ok (Z S') \<and> stream (Z S') = rest \<and> nCcalls S' = nCcalls S"
    by (simp add: LoadBlock_def ld_bind_def IF_def ld_return_def)
qed

lemma le_value_byte: "0 \<le> x \<Longrightarrow> x < 256 \<Longrightarrow> le_value (le_bytes 1 x) = x"
  by (simp only: le_value_bytes) simp

lemma reads_signed:
  assumes "0 \<le> x" "x < 256"
  shows "reads k LoadChar (le_bytes 1 x) (if x < 128 then x else x - 256)"
proof -
  have "length (le_bytes 1 x) = 1" by (rule length_le_bytes)
  from reads_end [OF reads_block [OF this], of k "\<lambda>b. if le_value b < 128 then le_value b else le_value b - 256"]
  show ?thesis unfolding LoadChar_def Let_def le_value_byte [OF assms] .
qed

lemma reads_char: "0 \<le> x \<Longrightarrow> x < 128 \<Longrightarrow> reads k LoadChar (le_bytes 1 x) x"
  using reads_signed [of x k] by simp

lemma reads_byte:
  assumes "0 \<le> x" "x < 256"
  shows "reads k LoadByte (le_bytes 1 x) x"
proof -
  from reads_end [OF reads_signed [OF assms], of k "\<lambda>x. x mod 256"] show ?thesis
    using assms unfolding LoadByte_def by (simp add: mod_if split: if_splits)
qed

definition small :: "int \<Rightarrow> bool" where
  "small x \<longleftrightarrow> 0 \<le> x \<and> x \<le> INT_MAX"

lemma le_value_word: "0 \<le> x \<Longrightarrow> x < 2 ^ 32 \<Longrightarrow> le_value (le_bytes 4 x) = x"
  by (simp add: le_value_bytes del: le_bytes.simps)

lemma reads_int:
  assumes "small x"
  shows "reads k LoadInt (le_bytes 4 x) x"
proof -
  have x: "c_int (le_value (le_bytes 4 x)) = x"
    using assms le_value_word [of x] by (simp add: small_def c_int_eq)
  have "reads k (ld_bind (IF (x < 0) why) (\<lambda>_. ld_return x)) [] x" for why
    by (rule reads_skip [OF reads_IF reads_return]) (use assms in \<open>simp add: small_def\<close>)
  then show ?thesis
    using reads_bind [OF reads_block [of "le_bytes 4 x" 4], of k "\<lambda>b. let x = c_int (le_value b) in ld_bind (IF (x < 0) ''bad integer'') (\<lambda>_. ld_return x)" "[]" x]
    unfolding LoadInt_def by (simp add: x Let_def del: le_bytes.simps)
qed


lemma reads_openspace: "int n \<le> MAX_SIZET - 1 \<Longrightarrow> reads k (openspace n) [] ()"
  by (auto simp: reads_def openspace_def ld_return_def MAX_SIZET_def LUA_MINBUFFER_def max_def)

lemma reads_newlstr: "int (length x) + 1 \<le> MAX_SIZET - 16 \<Longrightarrow> reads k (newlstr x) [] x"
  by (auto simp: reads_def newlstr_def ld_return_def)

fun string_ok :: "char list option \<Rightarrow> bool" where
  "string_ok None = True"
| "string_ok (Some x) = (int (length x) + 1 \<le> MAX_SIZET - 16)"

lemma reads_string:
  assumes "string_ok x"
  shows "reads k LoadString (string_bytes x) x"
proof (cases x)
  case None
  have "reads k LoadString (le_bytes 4 0 @ []) None"
    unfolding LoadString_def Let_def
    by (rule reads_bind [OF reads_block [OF length_le_bytes]])
      (simp only: le_value_bytes mod_0 nat_zero_as_int [symmetric] simp_thms if_True, rule reads_return)
  then show ?thesis using None by (simp del: le_bytes.simps)
next
  case (Some y)
  let ?n = "length y + 1"
  have n: "nat (le_value (le_bytes 4 (int (length y) + 1))) = ?n" "int ?n \<le> MAX_SIZET - 1"
      "int (length y) + 1 \<le> MAX_SIZET - 16"
    using assms Some by (simp_all add: le_value_bytes MAX_SIZET_def nat_add_distrib del: le_bytes.simps)
  have "reads k (ld_bind (openspace ?n) (\<lambda>_. ld_bind (LoadBlock ?n) (\<lambda>s.
             ld_bind (newlstr (take (?n - 1) s)) (\<lambda>t. ld_return (Some t))))) (y @ [NUL]) (Some y)"
  proof (rule reads_skip [OF reads_openspace [OF n(2)]])
    have "reads k (ld_bind (newlstr (take (?n - 1) (y @ [NUL]))) (\<lambda>t. ld_return (Some t))) [] (Some y)"
      using reads_end [OF reads_newlstr [OF n(3)], of k Some] by simp
    then have "reads k (ld_bind (LoadBlock ?n) (\<lambda>s. ld_bind (newlstr (take (?n - 1) s)) (\<lambda>t. ld_return (Some t))))
        ((y @ [NUL]) @ []) (Some y)"
      by (rule reads_bind [OF reads_block, rotated]) simp
    then show "reads k (ld_bind (LoadBlock ?n) (\<lambda>s. ld_bind (newlstr (take (?n - 1) s)) (\<lambda>t. ld_return (Some t))))
        (y @ [NUL]) (Some y)" by simp
  qed
  then have "reads k LoadString (le_bytes 4 (int (length y) + 1) @ (y @ [NUL])) (Some y)"
    unfolding LoadString_def Let_def
    by (intro reads_bind [OF reads_block [OF length_le_bytes]]) (simp only: n(1), simp)
  then show ?thesis using Some by (simp del: le_bytes.simps)
qed

text \<open>Every vector that is loaded has its size in memory counted.\<close>

definition short :: "'a list \<Rightarrow> bool" where
  "short xs \<longleftrightarrow> length xs < 2 ^ 27"

lemma short_small [simp]: "short xs \<Longrightarrow> small (int (length xs))"
  by (simp add: short_def small_def)

lemma reads_newvector: "short xs \<Longrightarrow> e \<in> {4, 12, 16} \<Longrightarrow> reads k (newvector (int (length xs)) e) [] ()"
  by (auto simp: reads_def newvector_def ld_return_def MAX_SIZET_def short_def)

text \<open>A count, a vector of it, and what is done with it.\<close>

lemma reads_counted:
  assumes "short xs" "e \<in> {4, 12, 16}" "reads k (m (length xs)) bs v" "reads k (f v) cs w"
  shows "reads k (ld_bind LoadInt (\<lambda>n. ld_bind (newvector n e) (\<lambda>_. ld_bind (m (nat n)) f)))
    (le_bytes 4 (int (length xs)) @ bs @ cs) w"
proof (rule reads_bind [OF reads_int])
  show "small (int (length xs))" using assms(1) by simp
  show "reads k (ld_bind (newvector (int (length xs)) e) (\<lambda>_. ld_bind (m (nat (int (length xs)))) f)) (bs @ cs) w"
    by (rule reads_skip [OF reads_newvector [OF assms(1,2)]]) (simp, rule reads_bind, fact+)
qed

lemma reads_load_list:
  assumes "\<And>x. x \<in> set xs \<Longrightarrow> reads k m (b x) (v x)"
  shows "reads k (load_list (length xs) m) (concat (map b xs)) (map v xs)"
  using assms
proof (induction xs)
  case Nil
  then show ?case by (simp add: reads_return)
next
  case (Cons x xs)
  have "reads k (ld_bind (load_list (length xs) m) (\<lambda>xs. ld_return (v x # xs))) (concat (map b xs)) (v x # map v xs)"
    using reads_end [OF Cons.IH, of "\<lambda>xs. v x # xs"] Cons.prems by simp
  then show ?case using reads_bind [OF Cons.prems [of x]] by simp
qed

lemma le_values_concat:
  "le_values (length xs) (concat (map (le_bytes 4) xs)) = map (\<lambda>x. x mod 2 ^ 32) xs"
  by (induction xs) (simp_all add: le_value_bytes del: le_bytes.simps)

lemma length_concat_words: "length (concat (map (le_bytes 4) xs)) = length xs * 4"
  by (induction xs) (simp_all del: le_bytes.simps)

lemma reads_vector: "reads k (LoadVector (length xs)) (concat (map (le_bytes 4) xs)) (map (\<lambda>x. x mod 2 ^ 32) xs)"
  unfolding LoadVector_def
  using reads_end [OF reads_block [OF length_concat_words [of xs]], where k = k and g = "le_values (length xs)"]
  by (simp only: le_values_concat)

lemma reads_counted_words:
  assumes "short xs" "reads k (f (map (\<lambda>x. x mod 2 ^ 32) xs)) cs w"
  shows "reads k (ld_bind LoadInt (\<lambda>n. ld_bind (newvector n 4) (\<lambda>_. ld_bind (LoadVector (nat n)) f)))
    (vector_bytes (le_bytes 4) xs @ cs) w"
  unfolding vector_bytes_def append_assoc
  by (rule reads_counted [where m = LoadVector, OF assms(1) _ reads_vector]) (use assms(2) in simp_all)

lemma reads_counted_list:
  assumes "short xs" "e \<in> {4, 12, 16}" "\<And>x. x \<in> set xs \<Longrightarrow> reads k m (b x) (v x)" "reads k (f (map v xs)) cs w"
  shows "reads k (ld_bind LoadInt (\<lambda>n. ld_bind (newvector n e) (\<lambda>_. ld_bind (load_list (nat n) m) f)))
    (vector_bytes b xs @ cs) w"
  unfolding vector_bytes_def append_assoc
  by (rule reads_counted [where m = "\<lambda>n. load_list n m", OF assms(1,2) reads_load_list]) (use assms(3,4) in simp_all)

lemma reads_code: "short xs \<Longrightarrow> reads k LoadCode (vector_bytes (le_bytes 4) (map uint xs)) xs"
proof -
  assume s: "short xs"
  have m: "map word_of_int (map (\<lambda>x. x mod 2 ^ 32) (map uint xs)) = xs"
  proof (rule nth_equalityI)
    fix i
    show "map word_of_int (map (\<lambda>x. x mod 2 ^ 32) (map uint xs)) ! i = xs ! i"
      if "i < length (map word_of_int (map (\<lambda>x. x mod 2 ^ 32) (map uint xs)) :: Instruction list)"
      using that uint_lt2p [of "xs ! i"] by simp
  qed simp
  have "short (map uint xs)" using s by (simp add: short_def)
  from reads_counted_words [OF this, where k = k and f = "\<lambda>xs. ld_return (map word_of_int xs)" and cs = "[]"
      and w = xs, unfolded m, OF reads_return]
  show ?thesis unfolding LoadCode_def by simp
qed

fun constant_ok :: "lua_Number TValue \<Rightarrow> bool" where
  "constant_ok Nil_value = True"
| "constant_ok (Boolean b) = (b = 0 \<or> b = 1)"
| "constant_ok (Number n) = True"
| "constant_ok (String x) = string_ok (Some x)"
| "constant_ok Null_string = True"
| "constant_ok _ = False"

lemma reads_constant:
  assumes "constant_ok v"
  shows "reads k LoadConstant (constant_bytes v) v"
proof -
  have tag: "reads k LoadConstant (le_bytes 1 (ttype v) @ cs) v"
    if "reads k (if ttype v = LUA_TNIL then ld_return Nil_value
     else if ttype v = LUA_TBOOLEAN then ld_bind LoadChar (\<lambda>b. ld_return (Boolean (if b \<noteq> 0 then 1 else 0)))
     else if ttype v = LUA_TNUMBER then ld_bind LoadNumber (\<lambda>n. ld_return (Number n))
     else if ttype v = LUA_TSTRING then ld_bind LoadString (\<lambda>s.
       ld_return (case s of Some x \<Rightarrow> String x | None \<Rightarrow> Null_string))
     else load_error ''bad constant'') cs v" for cs
    unfolding LoadConstant_def
  proof (rule reads_bind [OF reads_char])
    show "0 \<le> ttype v" "ttype v < 128" by (cases v; simp add: lua_tags)+
  qed (rule that)
  have number: "reads k LoadNumber (le_bytes 8 (uint n)) n" for n :: lua_Number
  proof -
    have "le_value (le_bytes 8 (uint n)) = uint n"
      using uint_lt2p [of n] by (simp add: le_value_bytes mod_pos_pos_trivial del: le_bytes.simps)
    then show ?thesis unfolding LoadNumber_def
      using reads_end [OF reads_block [OF length_le_bytes [of 8 "uint n"]], where k = k and g = "\<lambda>b. word_of_int (le_value b) :: 64 word"]
      by simp
  qed
  show ?thesis
  proof (cases v)
    case Nil_value
    then show ?thesis using tag [of "[]"] reads_return [of k Nil_value] by (simp add: constant_bytes_def lua_tags)
  next
    case (Boolean b)
    then have "reads k (ld_bind LoadChar (\<lambda>b. ld_return (Boolean (if b \<noteq> 0 then 1 else 0)))) (le_bytes 1 b) (v :: lua_Number TValue)"
      using reads_end [OF reads_char [of b], where k = k and g = "\<lambda>b. Boolean (if b \<noteq> 0 then 1 else 0) :: lua_Number TValue"] assms
      by (auto simp del: le_bytes.simps)
    then show ?thesis using tag [of "le_bytes 1 b"] Boolean by (simp add: constant_bytes_def lua_tags del: le_bytes.simps)
  next
    case (Number n)
    then show ?thesis using tag [of "le_bytes 8 (uint n)"] reads_end [OF number [of n], of Number]
      by (simp add: constant_bytes_def lua_tags del: le_bytes.simps)
  next
    case (String x)
    have "reads k LoadString (string_bytes (Some x)) (Some x)" using assms String by (intro reads_string) simp
    from reads_end [OF this, of "\<lambda>s. (case s of Some x \<Rightarrow> String x | None \<Rightarrow> Null_string) :: lua_Number TValue"]
    show ?thesis using tag [of "string_bytes (Some x)"] String
      by (simp add: constant_bytes_def lua_tags del: le_bytes.simps string_bytes.simps)
  next
    case Null_string
    have "reads k LoadString (string_bytes None) None" by (intro reads_string) simp
    from reads_end [OF this, of "\<lambda>s. (case s of Some x \<Rightarrow> String x | None \<Rightarrow> Null_string) :: lua_Number TValue"]
    show ?thesis using tag [of "string_bytes None"] Null_string
      by (simp add: constant_bytes_def lua_tags del: le_bytes.simps string_bytes.simps)
  qed (use assms in simp_all)
qed

definition locvar_ok :: "LocVar \<Rightarrow> bool" where
  "locvar_ok v \<longleftrightarrow> string_ok (varname v) \<and> small (startpc v) \<and> small (endpc v)"

lemma reads_locvar:
  assumes "locvar_ok v"
  shows "reads k LoadLocVar (locvar_bytes v) v"
  unfolding LoadLocVar_def locvar_bytes_def
proof (rule reads_bind [OF reads_string])
  have v: "\<lparr>varname = varname v, startpc = startpc v, endpc = endpc v\<rparr> = v" by simp
  have "reads k (ld_bind LoadInt (\<lambda>b. ld_return \<lparr>varname = varname v, startpc = startpc v, endpc = b\<rparr>)) (le_bytes 4 (endpc v))
      \<lparr>varname = varname v, startpc = startpc v, endpc = endpc v\<rparr>"
    by (rule reads_end [OF reads_int]) (use assms in \<open>simp add: locvar_ok_def\<close>)
  from this [unfolded v] show "reads k (ld_bind LoadInt (\<lambda>a. ld_bind LoadInt (\<lambda>b. ld_return \<lparr>varname = varname v, startpc = a, endpc = b\<rparr>)))
      (le_bytes 4 (startpc v) @ le_bytes 4 (endpc v)) v"
    by (intro reads_bind [OF reads_int]) (use assms in \<open>simp_all add: locvar_ok_def del: le_bytes.simps\<close>)
qed (use assms in \<open>simp add: locvar_ok_def\<close>)


definition debug_ok :: "lua_Number Proto \<Rightarrow> bool" where
  "debug_ok f \<longleftrightarrow> short (lineinfo f) \<and> (\<forall>x\<in>set (lineinfo f). is_int x) \<and>
     short (locvars f) \<and> (\<forall>v\<in>set (locvars f). locvar_ok v) \<and>
     short (upvalues f) \<and> (\<forall>u\<in>set (upvalues f). string_ok u)"

lemma map_c_int: "\<forall>x\<in>set xs. is_int x \<Longrightarrow> map c_int (map (\<lambda>x. x mod 2 ^ 32) xs) = xs"
proof (induction xs)
  case (Cons x xs)
  have "c_int (x mod 2 ^ 32) = c_int x" by (simp add: c_int_def mod_add_left_eq)
  then show ?case using Cons by simp
qed simp

lemma reads_debug:
  assumes "debug_ok f"
  shows "reads k LoadDebug (debug_bytes s f)
    (if s then ([], [], []) else (lineinfo f, locvars f, upvalues f))"
proof -
  have *: "reads k LoadDebug (vector_bytes (le_bytes 4) ls @ vector_bytes locvar_bytes vs @ vector_bytes string_bytes us) (ls, vs, us)"
    if ok: "short ls" "\<forall>x\<in>set ls. is_int x" "short vs" "\<forall>v\<in>set vs. locvar_ok v" "short us" "\<forall>u\<in>set us. string_ok u"
    for ls vs us
  proof -
    note last = reads_return [of k "(ls, vs, us)"]
    have u: "reads k (ld_bind LoadInt (\<lambda>n. ld_bind (newvector n 4) (\<lambda>_. ld_bind (load_list (nat n) LoadString) (\<lambda>us.
        ld_return (map c_int (map (\<lambda>x. x mod 2 ^ 32) ls), vs, us))))) (vector_bytes string_bytes us @ []) (ls, vs, us)"
      by (rule reads_counted_list [OF ok(5) _ reads_string])
        (use ok(6) last in \<open>simp_all only: map_c_int [OF ok(2)] map_ident, simp\<close>)
    have v: "reads k (ld_bind LoadInt (\<lambda>n. ld_bind (newvector n 12) (\<lambda>_. ld_bind (load_list (nat n) LoadLocVar) (\<lambda>vs.
        ld_bind LoadInt (\<lambda>n. ld_bind (newvector n 4) (\<lambda>_. ld_bind (load_list (nat n) LoadString) (\<lambda>us.
        ld_return (map c_int (map (\<lambda>x. x mod 2 ^ 32) ls), vs, us)))))))) (vector_bytes locvar_bytes vs @
          vector_bytes string_bytes us @ []) (ls, vs, us)"
      by (rule reads_counted_list [OF ok(3) _ reads_locvar]) (use ok(4) u in \<open>simp_all only: map_ident, simp\<close>)
    have "reads k LoadDebug (vector_bytes (le_bytes 4) ls @ vector_bytes locvar_bytes vs @ vector_bytes string_bytes us @ [])
        (ls, vs, us)"
      unfolding LoadDebug_def by (rule reads_counted_words [OF ok(1)]) (rule v)
    then show ?thesis by simp
  qed
  show ?thesis
    using assms * [of "[]" "[]" "[]"] * [of "lineinfo f" "locvars f" "upvalues f"]
    by (simp add: debug_ok_def debug_bytes_def short_def)
qed


text \<open>The loads of a function between the two changes of the depth.\<close>

lemma ld_bind_assoc: "ld_bind (ld_bind m f) g = ld_bind m (\<lambda>x. ld_bind (f x) g)"
proof (rule ext)
  show "ld_bind (ld_bind m f) g S = ld_bind m (\<lambda>x. ld_bind (f x) g) S" for S
    by (cases "m S") (auto simp: ld_bind_def split: sum.splits)
qed

lemma ld_bind_return: "ld_bind (ld_return x) f = f x"
  by (rule ext) (simp add: ld_bind_def ld_return_def)

definition body :: "char list option \<Rightarrow> lua_Number Proto load" where
  "body p =
     ld_bind LoadString (\<lambda>s. 
     ld_bind LoadInt (\<lambda>ld. ld_bind LoadInt (\<lambda>ll.
     ld_bind LoadByte (\<lambda>nu. ld_bind LoadByte (\<lambda>np. ld_bind LoadByte (\<lambda>va. ld_bind LoadByte (\<lambda>ms.
     ld_bind LoadCode (\<lambda>cd.
     ld_bind (LoadConstants (LoadFunction (if s = None then p else s))) (\<lambda>kp.
     ld_bind LoadDebug (\<lambda>dbg.
     let f = Proto (fst kp) cd (snd kp) (fst dbg) (fst (snd dbg)) (snd (snd dbg))
           (if s = None then p else s) ld ll nu np va ms
     in ld_bind (check_load f) (\<lambda>_. ld_return f)))))))))))"

lemma LoadFunction_body:
  "LoadFunction p = ld_bind enter (\<lambda>_. ld_bind (body p) (\<lambda>f. ld_bind leave (\<lambda>_. ld_return f)))"
proof (rule ext)
  show "LoadFunction p S = ld_bind enter (\<lambda>_. ld_bind (body p) (\<lambda>f. ld_bind leave (\<lambda>_. ld_return f))) S" for S
    by (subst LoadFunction.simps) (simp only: body_def ld_bind_assoc ld_bind_return Let_def)
qed

lemma reads_nested:
  assumes "reads k m bs v"
  shows "reads (Suc k) (ld_bind enter (\<lambda>_. ld_bind m (\<lambda>x. ld_bind leave (\<lambda>_. ld_return x)))) bs v"
  unfolding reads_def
proof (intro allI impI, elim conjE)
  fix S :: LoadState and rest
  assume S: "zio_ok (Z S)" "stream (Z S) = bs @ rest" "nCcalls S + Suc k \<le> LUAI_MAXCCALLS"
  let ?S = "S\<lparr>nCcalls := Suc (nCcalls S)\<rparr>"
  obtain S' where "m ?S = Some (Inr (v, S'))" "zio_ok (Z S')" "stream (Z S') = rest" "nCcalls S' = nCcalls ?S"
    using assms [unfolded reads_def, rule_format, of ?S rest] S by auto
  then show "\<exists>S'. ld_bind enter (\<lambda>_. ld_bind m (\<lambda>x. ld_bind leave (\<lambda>_. ld_return x))) S = Some (Inr (v, S')) \<and>
      zio_ok (Z S') \<and> stream (Z S') = rest \<and> nCcalls S' = nCcalls S"
    using S(3) by (simp add: ld_bind_def enter_def leave_def ld_return_def IF_def)
qed

lemma reads_mono: "reads k m bs v \<Longrightarrow> k \<le> l \<Longrightarrow> reads l m bs v"
  unfolding reads_def by (meson add_le_mono le_refl le_trans)

lemma reads_check: "luaG_checkcode f = Some True \<Longrightarrow> reads k (check_load f) [] ()"
  by (simp add: reads_def check_load_def IF_def ld_return_def)

section \<open>What can be dumped\<close>

definition byte :: "int \<Rightarrow> bool" where
  "byte x \<longleftrightarrow> 0 \<le> x \<and> x < 256"

text \<open>A function whose fields have the values of their C types, that nests less than \<open>n\<close> deep.\<close>

fun dumpable :: "nat \<Rightarrow> lua_Number Proto \<Rightarrow> bool" where
  "dumpable 0 f = False"
| "dumpable (Suc n) f =
     (source f \<noteq> None \<and> string_ok (source f) \<and> small (linedefined f) \<and> small (lastlinedefined f) \<and>
      byte (nups f) \<and> byte (numparams f) \<and> byte (is_vararg f) \<and> byte (maxstacksize f) \<and>
      short (code f) \<and> short (pk f) \<and> (\<forall>v\<in>set (pk f). constant_ok v) \<and> debug_ok f \<and>
      luaG_checkcode f = Some True \<and> short (pp f) \<and> (\<forall>g\<in>set (pp f). dumpable n g))"

text \<open>What a stripped dump keeps.\<close>

function stripped :: "lua_Number Proto \<Rightarrow> lua_Number Proto" where
  "stripped f = Proto (pk f) (code f) (map stripped (pp f)) [] [] [] (Some ''=?'') (linedefined f)
     (lastlinedefined f) (nups f) (numparams f) (is_vararg f) (maxstacksize f)"
  by pat_completeness auto
termination
  by (relation "measure size") (auto intro: size_pp)

declare stripped.simps [simp del]

definition reloaded :: "bool \<Rightarrow> lua_Number Proto \<Rightarrow> lua_Number Proto" where
  "reloaded s f = (if s then stripped f else f)"


section \<open>The checker does not look at debug information\<close>

definition same_code :: "'n Proto \<Rightarrow> 'n Proto \<Rightarrow> bool" where
  "same_code f g \<longleftrightarrow> code f = code g \<and> pk f = pk g \<and> map nups (pp f) = map nups (pp g) \<and> nups f = nups g \<and>
     numparams f = numparams g \<and> is_vararg f = is_vararg g \<and> maxstacksize f = maxstacksize g"

lemma same_code_simps:
  assumes "same_code f g"
  shows "checkreg f r = checkreg g r" "checkArgMode f r m = checkArgMode g r m" "op_at f i = op_at g i"
    "checkopenop f i = checkopenop g i" "setlist_run f n = setlist_run g n" "closure_ops f i js = closure_ops g i js"
    "sizecode f = sizecode g" "sizek f = sizek g" "sizep f = sizep g"
proof -
  have e: "code f = code g" "pk f = pk g" "maxstacksize f = maxstacksize g" and l: "length (pp f) = length (pp g)"
    using assms map_eq_imp_length_eq by (auto simp: same_code_def)
  show *: "checkreg f r = checkreg g r" "op_at f i = op_at g i" for r i by (simp_all add: checkreg_def op_at_def e)
  show "checkArgMode f r m = checkArgMode g r m" by (cases m) (simp_all add: * e)
  show "checkopenop f i = checkopenop g i" by (simp add: checkopenop_def e)
  show "setlist_run f n = setlist_run g n" 
  proof (induction n)
    case (Suc n)
    show ?case unfolding setlist_run.simps e Suc ..
  qed simp
  show "closure_ops f i js = closure_ops g i js" 
  proof (induction js)
    case (Cons j js)
    show ?case unfolding closure_ops.simps * Cons ..
  qed simp
  show "sizecode f = sizecode g" "sizek f = sizek g" "sizep f = sizep g" using e l by simp_all
qed

lemma bind_nups:
  assumes "map nups xs = map nups ys"
  shows "at xs b \<bind> (\<lambda>h. K (nups h)) = at ys b \<bind> (\<lambda>h. K (nups h))"
proof -
  have "map_option nups (at xs b) = at (map nups xs) b" "map_option nups (at ys b) = at (map nups ys) b"
    by (auto simp: at_def)
  then have "map_option nups (at xs b) = map_option nups (at ys b)"
    unfolding assms by (rule trans [OF _ sym])
  then show ?thesis by (cases "at xs b"; cases "at ys b") auto
qed

lemma symb_op_same:
  assumes "same_code f g"
  shows "symb_op f lastpc reg q a b c pc lst = symb_op g lastpc reg q a b c pc lst"
proof (cases q)
  case OP_CLOSURE
  have m: "map nups (pp f) = map nups (pp g)" using assms by (simp add: same_code_def)
  show ?thesis
    unfolding symb_op_def OP_CLOSURE OpCode.case same_code_simps [OF assms]
    by (rule arg_cong [of _ _ "check _"]) (rule bind_nups [OF m])
qed (use assms in \<open>simp_all add: symb_op_def symb_call_def same_code_simps [OF assms] same_code_def\<close>)

lemma symb_step_same:
  assumes "same_code f g"
  shows "symb_step f lastpc reg pc lst = symb_step g lastpc reg pc lst"
proof -
  have c: "code f = code g" using assms by (simp add: same_code_def)
  have o: "operands f pc q i = operands g pc q i" for q i
    unfolding operands_def same_code_simps [OF assms] ..
  show ?thesis
    unfolding symb_step_def same_code_simps [OF assms] symb_op_same [OF assms] c o ..
qed

lemma symb_loop_same:
  assumes "same_code f g" "bytes_ok f"
  shows "symb_loop f lastpc reg pc lst = symb_loop g lastpc reg pc lst"
proof (induction "nat (lastpc - pc)" arbitrary: pc lst rule: less_induct)
  case less
  have "symb_loop f lastpc reg (fst s + 1) (snd s) = symb_loop g lastpc reg (fst s + 1) (snd s)"
    if "symb_step g lastpc reg pc lst = Some (Some s)" "pc < lastpc" for s
    using that symb_step_bounds [of f lastpc reg pc lst "fst s" "snd s"] assms(2)
    by (intro less) (auto simp: symb_step_same [OF assms(1)])
  then show ?case
    by (subst (1 2) symb_loop.simps)
      (auto simp: symb_step_same [OF assms(1)] split: option.splits intro!: bind_option_cong)
qed

lemma checkcode_same:
  assumes "same_code f g" "bytes_ok f" "luaG_checkcode f = Some True"
    "int (length (upvalues g)) \<le> nups g" "lineinfo g = []"
  shows "luaG_checkcode g = Some True"
proof -
  have e: "code f = code g" "numparams f = numparams g" "is_vararg f = is_vararg g" "maxstacksize f = maxstacksize g"
    using assms(1) by (auto simp: same_code_def)
  have "precheck f = Some True" 
    using assms(3) precheck_total [of f] by (auto simp: luaG_checkcode_def symbexec_def split: if_splits)
  then have "precheck g = Some True"
    using assms(4,5) unfolding precheck_def e same_code_simps(3) [OF assms(1)] by (auto split: if_splits)
  then show ?thesis
    using assms(3) \<open>precheck f = Some True\<close>
    by (simp add: luaG_checkcode_def symbexec_def e symb_loop_same [OF assms(1,2)])
qed


lemma reloaded_simps [simp]: "reloaded True = stripped" "reloaded False = (\<lambda>f. f)"
  by (simp_all add: reloaded_def fun_eq_iff)

lemma stripped_sel [simp]:
  "pk (stripped f) = pk f" "code (stripped f) = code f" "pp (stripped f) = map stripped (pp f)"
  "lineinfo (stripped f) = []" "locvars (stripped f) = []" "upvalues (stripped f) = []"
  "source (stripped f) = Some ''=?''" "linedefined (stripped f) = linedefined f"
  "lastlinedefined (stripped f) = lastlinedefined f" "nups (stripped f) = nups f"
  "numparams (stripped f) = numparams f" "is_vararg (stripped f) = is_vararg f"
  "maxstacksize (stripped f) = maxstacksize f"
  by (simp_all add: stripped.simps [of f])

lemma checkcode_stripped:
  assumes "luaG_checkcode f = Some True" "bytes_ok f"
  shows "luaG_checkcode (stripped f) = Some True"
  by (rule checkcode_same [OF _ assms(2,1)]) (use assms(2) in \<open>simp_all add: same_code_def bytes_ok_def\<close>)

section \<open>Reading back a function\<close>

lemma reads_function:
  assumes "dumpable n f" "if s then q = Some ''=?'' else p = None \<or> q = p"
  shows "reads n (LoadFunction q) (function_bytes s p f) (reloaded s f)"
  using assms
proof (induction n arbitrary: f p q)
  case (Suc n)
  let ?src = "if s then Some ''=?'' else source f"
  note ok = Suc.prems(1) [simplified dumpable.simps]
  have bytes: "bytes_ok f"
  proof -
    have "byte (nups g)" if "g \<in> set (pp f)" for g
    proof -
      have "dumpable n g" using ok that by blast
      then show ?thesis by (cases n) auto
    qed
    then show ?thesis using ok by (auto simp: bytes_ok_def byte_def)
  qed
  define o_str where "o_str = (if source f = p \<or> s then None else source f)"
  have src: "(if o_str = None then q else o_str) = ?src"
    using Suc.prems(2) ok by (auto simp: o_str_def)
  have checked: "luaG_checkcode (reloaded s f) = Some True"
    using ok checkcode_stripped [OF _ bytes] by (simp add: reloaded_def)
  have kpp: "reads n (LoadConstants (LoadFunction ?src))
      (vector_bytes constant_bytes (pk f) @ vector_bytes (function_bytes s (source f)) (pp f))
      (pk f, map (reloaded s) (pp f))"
  proof -
    have nested: "reads n (LoadFunction ?src) (function_bytes s (source f) g) (reloaded s g)" if "g \<in> set (pp f)" for g
      by (rule Suc.IH) (use ok that in auto)
    have fs: "reads n (ld_bind LoadInt (\<lambda>m. ld_bind (newvector m 4) (\<lambda>_. ld_bind (load_list (nat m) (LoadFunction ?src))
        (\<lambda>fs. ld_return (pk f, fs))))) (vector_bytes (function_bytes s (source f)) (pp f) @ [])
        (pk f, map (reloaded s) (pp f))"
      by (rule reads_counted_list [OF _ _ nested reads_return]) (use ok in simp_all)
    have "reads n (LoadConstants (LoadFunction ?src))
      (vector_bytes constant_bytes (pk f) @ vector_bytes (function_bytes s (source f)) (pp f) @ [])
      (pk f, map (reloaded s) (pp f))"
      unfolding LoadConstants_def
      by (rule reads_counted_list [where v = "\<lambda>v. v", OF _ _ reads_constant]) (use ok fs in auto)
    then show ?thesis by simp
  qed
  have whole: "Proto (pk f) (code f) (map (reloaded s) (pp f)) (if s then [] else lineinfo f)
      (if s then [] else locvars f) (if s then [] else upvalues f) ?src (linedefined f) (lastlinedefined f)
      (nups f) (numparams f) (is_vararg f) (maxstacksize f) = reloaded s f"
  proof (cases s)
    case True
    then show ?thesis by (simp add: reloaded_def stripped.simps [of f])
  next
    case False
    then show ?thesis by (cases f) (simp add: reloaded_def)
  qed
  have dbg: "reads n (ld_bind LoadDebug (\<lambda>dbg.
     let f' = Proto (fst (pk f, map (reloaded s) (pp f))) (code f) (snd (pk f, map (reloaded s) (pp f)))
       (fst dbg) (fst (snd dbg)) (snd (snd dbg))
       (if o_str = None then q else o_str) (linedefined f) (lastlinedefined f) (nups f) (numparams f) (is_vararg f)
       (maxstacksize f)
     in ld_bind (check_load f') (\<lambda>_. ld_return f'))) (debug_bytes s f @ []) (reloaded s f)"
  proof (rule reads_bind [OF reads_debug])
    have d: "fst (if s then ([], [], []) else (lineinfo f, locvars f, upvalues f)) = (if s then [] else lineinfo f)"
      "fst (snd (if s then ([], [], []) else (lineinfo f, locvars f, upvalues f))) = (if s then [] else locvars f)"
      "snd (snd (if s then ([], [], []) else (lineinfo f, locvars f, upvalues f))) = (if s then [] else upvalues f)"
      by simp_all
    have c: "reads n (ld_bind (check_load (reloaded s f)) (\<lambda>_. ld_return (reloaded s f))) [] (reloaded s f)"
      by (rule reads_skip [OF reads_check [OF checked] reads_return])
    then show "reads n (let f' = Proto (fst (pk f, map (reloaded s) (pp f))) (code f) (snd (pk f, map (reloaded s) (pp f)))
       (fst (if s then ([], [], []) else (lineinfo f, locvars f, upvalues f)))
       (fst (snd (if s then ([], [], []) else (lineinfo f, locvars f, upvalues f))))
       (snd (snd (if s then ([], [], []) else (lineinfo f, locvars f, upvalues f))))
       (if o_str = None then q else o_str) (linedefined f) (lastlinedefined f) (nups f) (numparams f) (is_vararg f)
       (maxstacksize f)
     in ld_bind (check_load f') (\<lambda>_. ld_return f')) [] (reloaded s f)"
      unfolding Let_def fst_conv snd_conv d src whole .
  qed (use ok in blast)
  have fields: "string_ok o_str" "small (linedefined f)" "small (lastlinedefined f)" "byte (nups f)" "byte (numparams f)"
      "byte (is_vararg f)" "byte (maxstacksize f)" "short (code f)"
    using ok by (auto simp: o_str_def)
  have byte: "reads n LoadByte (le_bytes 1 x) x" if "byte x" for x
    using that by (intro reads_byte) (auto simp: byte_def)
  have "reads n (body q) (string_bytes o_str @ le_bytes 4 (linedefined f) @ le_bytes 4 (lastlinedefined f) @
     le_bytes 1 (nups f) @ le_bytes 1 (numparams f) @ le_bytes 1 (is_vararg f) @ le_bytes 1 (maxstacksize f) @
     vector_bytes (le_bytes 4) (map uint (code f)) @
     (vector_bytes constant_bytes (pk f) @ vector_bytes (function_bytes s (source f)) (pp f)) @
     debug_bytes s f @ []) (reloaded s f)"
    unfolding body_def
    by (rule reads_bind, rule reads_string [OF fields(1)], rule reads_bind, rule reads_int [OF fields(2)],
      rule reads_bind, rule reads_int [OF fields(3)], rule reads_bind, rule byte [OF fields(4)],
      rule reads_bind, rule byte [OF fields(5)], rule reads_bind, rule byte [OF fields(6)],
      rule reads_bind, rule byte [OF fields(7)], rule reads_bind, rule reads_code [OF fields(8)],
      rule reads_bind, rule kpp [unfolded src [symmetric]], rule dbg)
  then have "reads n (body q) (function_bytes s p f) (reloaded s f)"
    unfolding function_bytes.simps [of s p f] o_str_def append_assoc append_Nil2 .
  from reads_nested [OF this] show ?case unfolding LoadFunction_body .
qed simp


section \<open>Every load ends\<close>

text \<open>
  At least \<open>200 - k\<close> calls deep, \<open>m\<close> ends on every stream, with an error or with a value that satisfies
  \<open>P\<close>, the stream well-formed and the depth as it was.
\<close>

definition loads :: "nat \<Rightarrow> 'a load \<Rightarrow> ('a \<Rightarrow> bool) \<Rightarrow> bool" where
  "loads k m P \<longleftrightarrow> (\<forall>S. zio_ok (Z S) \<and> LUAI_MAXCCALLS \<le> nCcalls S + k \<longrightarrow>
     (\<exists>r. m S = Some r \<and> (\<forall>v S'. r = Inr (v, S') \<longrightarrow> zio_ok (Z S') \<and> nCcalls S' = nCcalls S \<and> P v)))"

lemma loads_return: "P v \<Longrightarrow> loads k (ld_return v) P"
  by (simp add: loads_def ld_return_def)

lemma loads_error: "loads k (load_error why) P"
  by (simp add: loads_def load_error_def)

lemma loads_weaken: "loads k m P \<Longrightarrow> (\<And>v. P v \<Longrightarrow> Q v) \<Longrightarrow> loads k m Q"
  unfolding loads_def by fast

lemma loads_bind:
  assumes "loads k m P" "\<And>v. P v \<Longrightarrow> loads k (f v) Q"
  shows "loads k (ld_bind m f) Q"
  unfolding loads_def
proof (intro allI impI, elim conjE)
  fix S :: LoadState
  assume S: "zio_ok (Z S)" "LUAI_MAXCCALLS \<le> nCcalls S + k"
  then obtain r where r: "m S = Some r" "\<forall>v S'. r = Inr (v, S') \<longrightarrow> zio_ok (Z S') \<and> nCcalls S' = nCcalls S \<and> P v"
    using assms(1) unfolding loads_def by blast
  show "\<exists>r. ld_bind m f S = Some r \<and> (\<forall>v S'. r = Inr (v, S') \<longrightarrow> zio_ok (Z S') \<and> nCcalls S' = nCcalls S \<and> Q v)"
  proof (cases r)
    case (Inl e)
    then show ?thesis using r(1) by (simp add: ld_bind_def)
  next
    case (Inr vs)
    obtain v S1 where "vs = (v, S1)" by fastforce
    then show ?thesis using Inr r assms(2) [of v, unfolded loads_def, rule_format, of S1] S(2)
      by (auto simp: ld_bind_def)
  qed
qed

lemma loads_IF: "loads k (IF c why) (\<lambda>_. \<not> c)"
  by (simp add: IF_def loads_error loads_return)

lemma loads_block: "loads k (LoadBlock n) (\<lambda>b. length b = n)"
  unfolding loads_def
proof (intro allI impI, elim conjE)
  fix S :: LoadState
  assume "zio_ok (Z S)"
  then obtain z where "luaZ_read (Z S) n = Some (z, take n (stream (Z S)), n - length (stream (Z S)))" "zio_ok z"
    using luaZ_read_ok by blast
  then show "\<exists>r. LoadBlock n S = Some r \<and> (\<forall>v S'. r = Inr (v, S') \<longrightarrow> zio_ok (Z S') \<and> nCcalls S' = nCcalls S \<and> length v = n)"
    by (auto simp: LoadBlock_def ld_bind_def IF_def ld_return_def load_error_def)
qed

lemma loads_char: "loads k LoadChar (\<lambda>_. True)"
  unfolding LoadChar_def Let_def by (rule loads_bind [OF loads_block]) (rule loads_return, simp)

lemma loads_byte: "loads k LoadByte byte"
  unfolding LoadByte_def by (rule loads_bind [OF loads_char]) (rule loads_return, simp add: byte_def)

lemma loads_int: "loads k LoadInt (\<lambda>x. 0 \<le> x)"
  unfolding LoadInt_def Let_def
  by (rule loads_bind [OF loads_block], rule loads_bind [OF loads_IF], rule loads_return) simp

lemma loads_openspace: "loads k (openspace n) (\<lambda>_. True)"
  by (simp add: loads_def openspace_def ld_return_def)

lemma loads_newlstr: "loads k (newlstr x) (\<lambda>_. True)"
  by (simp add: loads_def newlstr_def ld_return_def)

lemma loads_newvector: "loads k (newvector n e) (\<lambda>_. True)"
  by (simp add: loads_def newvector_def ld_return_def)

lemma loads_string: "loads k LoadString (\<lambda>_. True)"
  unfolding LoadString_def Let_def
proof (rule loads_bind [OF loads_block])
  fix b
  have "loads k (ld_bind (openspace (nat (le_value b))) (\<lambda>_. ld_bind (LoadBlock (nat (le_value b))) (\<lambda>s.
             ld_bind (newlstr (take (nat (le_value b) - 1) s)) (\<lambda>t. ld_return (Some t))))) (\<lambda>_. True)"
    by (rule loads_bind [OF loads_openspace], rule loads_bind [OF loads_block], rule loads_bind [OF loads_newlstr],
      rule loads_return, simp)
  then show "loads k (if nat (le_value b) = 0 then ld_return None else ld_bind (openspace (nat (le_value b)))
       (\<lambda>_. ld_bind (LoadBlock (nat (le_value b))) (\<lambda>s.
             ld_bind (newlstr (take (nat (le_value b) - 1) s)) (\<lambda>t. ld_return (Some t))))) (\<lambda>_. True)"
    by (simp add: loads_return)
qed

lemma loads_vector: "loads k (LoadVector n) (\<lambda>_. True)"
  unfolding LoadVector_def by (rule loads_bind [OF loads_block]) (rule loads_return, simp)

lemma loads_list: "loads k m P \<Longrightarrow> loads k (load_list n m) (\<lambda>xs. \<forall>x\<in>set xs. P x)"
proof (induction n)
  case (Suc n)
  show ?case unfolding load_list.simps
    by (rule loads_bind [OF Suc.prems], rule loads_bind [OF Suc.IH [OF Suc.prems]], rule loads_return) simp
qed (simp add: loads_return)

lemma loads_code: "loads k LoadCode (\<lambda>_. True)"
  unfolding LoadCode_def
  by (rule loads_bind [OF loads_int], rule loads_bind [OF loads_newvector], rule loads_bind [OF loads_vector],
    rule loads_return, simp)

lemma loads_constant: "loads k LoadConstant (\<lambda>_. True)"
proof -
  have "loads k (ld_bind LoadChar (\<lambda>b. ld_return (Boolean (if b \<noteq> 0 then 1 else 0) :: lua_Number TValue))) (\<lambda>_. True)"
    by (rule loads_bind [OF loads_char]) (simp add: loads_return)
  moreover have "loads k LoadNumber (\<lambda>_. True)" unfolding LoadNumber_def
    by (rule loads_bind [OF loads_block]) (simp add: loads_return)
  then have "loads k (ld_bind LoadNumber (\<lambda>n. ld_return (Number n))) (\<lambda>_. True)"
    by (rule loads_bind) (simp add: loads_return)
  moreover have "loads k (ld_bind LoadString (\<lambda>s. ld_return ((case s of Some x \<Rightarrow> String x | None \<Rightarrow> Null_string)
      :: lua_Number TValue))) (\<lambda>_. True)"
    by (rule loads_bind [OF loads_string]) (simp add: loads_return)
  ultimately show ?thesis
    unfolding LoadConstant_def by (intro loads_bind [OF loads_char]) (simp add: loads_return loads_error)
qed

lemma loads_constants:
  assumes "loads k nested P"
  shows "loads k (LoadConstants nested) (\<lambda>kp. \<forall>g\<in>set (snd kp). P g)"
  unfolding LoadConstants_def
  by (rule loads_bind [OF loads_int], rule loads_bind [OF loads_newvector], rule loads_bind [OF loads_list [OF loads_constant]],
    rule loads_bind [OF loads_int], rule loads_bind [OF loads_newvector], rule loads_bind [OF loads_list [OF assms]],
    rule loads_return) simp

lemma loads_locvar: "loads k LoadLocVar (\<lambda>_. True)"
  unfolding LoadLocVar_def
  by (rule loads_bind [OF loads_string], rule loads_bind [OF loads_int], rule loads_bind [OF loads_int],
    rule loads_return, simp)

lemma loads_debug: "loads k LoadDebug (\<lambda>_. True)"
  unfolding LoadDebug_def
  by (rule loads_bind [OF loads_int], rule loads_bind [OF loads_newvector], rule loads_bind [OF loads_vector],
    rule loads_bind [OF loads_int], rule loads_bind [OF loads_newvector], rule loads_bind [OF loads_list [OF loads_locvar]],
    rule loads_bind [OF loads_int], rule loads_bind [OF loads_newvector], rule loads_bind [OF loads_list [OF loads_string]],
    rule loads_return, simp)

text \<open>A function the virtual machine may run: checked at every level, nested less than \<open>n\<close> deep.\<close>

fun accepted :: "nat \<Rightarrow> lua_Number Proto \<Rightarrow> bool" where
  "accepted 0 f = False"
| "accepted (Suc n) f = (luaG_checkcode f = Some True \<and> bytes_ok f \<and> (\<forall>g\<in>set (pp f). accepted n g))"

lemma accepted_byte: "accepted n g \<Longrightarrow> 0 \<le> nups g"
  by (cases n) (simp_all add: bytes_ok_def)

lemma loads_check:
  assumes "bytes_ok f"
  shows "loads k (check_load f) (\<lambda>_. luaG_checkcode f = Some True)"
proof -
  obtain ok where "luaG_checkcode f = Some ok"
    using symbexec_total [OF assms order_refl, of NO_REG] by (auto simp: luaG_checkcode_def)
  then show ?thesis
    by (cases ok) (simp_all add: loads_def check_load_def IF_def ld_return_def load_error_def)
qed

lemma loads_body:
  assumes "\<And>p. loads k (LoadFunction p) (accepted k)"
  shows "loads k (body p) (accepted (Suc k))"
  unfolding body_def Let_def
  by (rule loads_bind [OF loads_string], rule loads_bind [OF loads_int], rule loads_bind [OF loads_int],
    rule loads_bind [OF loads_byte], rule loads_bind [OF loads_byte], rule loads_bind [OF loads_byte],
    rule loads_bind [OF loads_byte], rule loads_bind [OF loads_code], rule loads_bind [OF loads_constants [OF assms]],
    rule loads_bind [OF loads_debug], rule loads_bind [OF loads_check])
   (auto simp: bytes_ok_def byte_def intro!: loads_return accepted_byte)

lemma loads_function: "loads k (LoadFunction p) (accepted k)"
proof (induction k arbitrary: p)
  case 0
  then show ?case
    by (auto simp: loads_def LoadFunction_body ld_bind_def enter_def IF_def load_error_def)
next
  case (Suc k)
  show ?case unfolding loads_def
  proof (intro allI impI, elim conjE)
    fix S :: LoadState
    assume S: "zio_ok (Z S)" "LUAI_MAXCCALLS \<le> nCcalls S + Suc k"
    let ?S = "S\<lparr>nCcalls := Suc (nCcalls S)\<rparr>"
    obtain r where r: "body p ?S = Some r"
      "\<forall>v S'. r = Inr (v, S') \<longrightarrow> zio_ok (Z S') \<and> nCcalls S' = nCcalls ?S \<and> accepted (Suc k) v"
      using loads_body [OF Suc.IH, unfolded loads_def, rule_format, of ?S p] S by auto
    show "\<exists>r. LoadFunction p S = Some r \<and>
        (\<forall>v S'. r = Inr (v, S') \<longrightarrow> zio_ok (Z S') \<and> nCcalls S' = nCcalls S \<and> accepted (Suc k) v)"
    proof (cases "Suc (nCcalls S) > LUAI_MAXCCALLS")
      case True
      then show ?thesis by (simp add: LoadFunction_body ld_bind_def enter_def IF_def load_error_def)
    next
      case False
      then show ?thesis using r
        by (cases r) (auto simp: LoadFunction_body ld_bind_def enter_def leave_def IF_def ld_return_def simp del: accepted.simps)
    qed
  qed
qed

section \<open>Properties\<close>

text \<open>
  C16: A dump hands the bytes of the chunk to the writer function in order, in a sequence of blocks that
  depends only on the function and the strip flag, stops at the first block the writer function
  refuses, and returns what it returned.
\<close>

theorem luaU_dump_writes_chunk:
  "\<exists>bl. concat bl = chunk s f \<and> (\<forall>(w :: 'w lua_Writer) d. luaU_dump w f d s = run_writer w bl d)"
proof -
  obtain bl where bl: "concat bl = chunk s f"
    "\<forall>(w :: 'w lua_Writer) D. strip D = s \<longrightarrow> DumpFunction w f None (DumpHeader w D) = fold (DumpBlock w) bl D"
    using writes_dump [of s f] unfolding writes_def by (elim exE conjE)
  have "luaU_dump w f d s = run_writer w bl d" for w :: "'w lua_Writer" and d
    using bl(2) by (simp add: luaU_dump_def fold_run_writer)
  then show ?thesis using bl(1) by (intro exI [of _ bl]) simp
qed

lemma length_luaU_header: "length luaU_header = LUAC_HEADERSIZE"
  by (simp add: luaU_header_def LUA_SIGNATURE_def LUAC_HEADERSIZE_def)

text \<open>
  C14: Loading what a dump wrote gives the function back: exactly, or without its debug information and
  named \<open>=?\<close> when it was stripped; and it stops at the end of the chunk, wherever the reader cuts it
  into blocks.
\<close>

theorem luaU_undump_dump:
  assumes "dumpable n f" "calls + n \<le> LUAI_MAXCCALLS" "zio_ok z" "stream z = chunk s f @ rest"
  shows "\<exists>S. luaU_undump z buff name calls = Some (Inr (reloaded s f, S)) \<and> stream (Z S) = rest \<and> nCcalls S = calls"
proof -
  have "reads n LoadHeader (luaU_header @ []) ()"
    unfolding LoadHeader_def
    by (rule reads_bind [OF reads_block [OF length_luaU_header]]) (rule reads_IF, simp)
  then have "reads n (ld_bind LoadHeader (\<lambda>_. LoadFunction (Some ''=?''))) ((luaU_header @ []) @ function_bytes s None f) (reloaded s f)"
    by (rule reads_bind) (rule reads_function [OF assms(1)], simp)
  then have r: "reads n (ld_bind LoadHeader (\<lambda>_. LoadFunction (Some ''=?''))) (chunk s f) (reloaded s f)"
    by (simp add: chunk_def)
  have "\<exists>S. ld_bind LoadHeader (\<lambda>_. LoadFunction (Some ''=?'')) \<lparr>Z = z, mbuf = buff, chunkname = nm, nCcalls = calls\<rparr>
      = Some (Inr (reloaded s f, S)) \<and> stream (Z S) = rest \<and> nCcalls S = calls" for nm
    using r [unfolded reads_def, rule_format, of "\<lparr>Z = z, mbuf = buff, chunkname = nm, nCcalls = calls\<rparr>" rest] assms(2-4)
    by auto
  then show ?thesis unfolding luaU_undump_def Let_def .
qed


definition sample_inner :: "lua_Number Proto" where
  "sample_inner = Proto [Nil_value, Boolean 1] [CREATE_ABC OP_RETURN 0 1 0] [] [7] [] []
     (Some ''@a'') 2 3 0 0 0 2"

definition sample_chunk :: "lua_Number Proto" where
  "sample_chunk = Proto [String ''x'', Number 1]
     [CREATE_ABx OP_LOADK 0 1, CREATE_ABx OP_JMP 0 (0 + MAXARG_sBx), CREATE_ABC OP_RETURN 0 1 0]
     [sample_inner] [1, 1, 2] [\<lparr>varname = Some ''v'', startpc = 0, endpc = 2\<rparr>] [] (Some ''@a'') 0 0 0 0 2 2"

lemma sample_checks: "luaG_checkcode sample_inner = Some True" "luaG_checkcode sample_chunk = Some True"
  by code_simp+

lemma sample_chunk_dumpable: "dumpable (Suc (Suc 0)) sample_chunk"
  using sample_checks
  by (simp add: sample_chunk_def sample_inner_def small_def byte_def short_def debug_ok_def is_int_def locvar_ok_def MAX_SIZET_def)

theorem luaU_undump_dump_witness:
  "\<exists>S. luaU_undump (luaZ_init [Some (chunk False sample_chunk)]) \<lparr>mbuffer = [], buffsize = 0\<rparr> ''=a'' 0
     = Some (Inr (sample_chunk, S)) \<and> stream (Z S) = [] \<and> nCcalls S = 0"
proof -
  have "stream (luaZ_init [Some (chunk False sample_chunk)]) = chunk False sample_chunk @ []"
    by (simp add: chunk_def luaU_header_def LUA_SIGNATURE_def)
  from luaU_undump_dump [OF sample_chunk_dumpable _ zio_ok_init(1) this, of 0] show ?thesis
    by (simp add: LUAI_MAXCCALLS_def)
qed

text \<open>
  C15: Loading any stream of bytes ends without reading outside the memory it may read, with an error or with a function
  that passes the code checker, as do all the functions nested in it, at most 200 deep.
\<close>

theorem luaU_undump_safe:
  assumes "zio_ok z" "calls \<le> LUAI_MAXCCALLS"
  shows "\<exists>r. luaU_undump z buff name calls = Some r \<and>
    (\<forall>f S. r = Inr (f, S) \<longrightarrow> accepted (LUAI_MAXCCALLS - calls) f)"
proof -
  let ?k = "LUAI_MAXCCALLS - calls"
  have "loads ?k (ld_bind LoadHeader (\<lambda>_. LoadFunction (Some ''=?''))) (accepted ?k)"
  proof (rule loads_bind)
    show "loads ?k LoadHeader (\<lambda>_. True)"
      unfolding LoadHeader_def by (rule loads_bind [OF loads_block]) (rule loads_weaken [OF loads_IF], simp)
  qed (rule loads_function)
  from this [unfolded loads_def, rule_format, of "\<lparr>Z = z, mbuf = buff, chunkname = nm, nCcalls = calls\<rparr>" for nm] assms
  have "\<exists>r. ld_bind LoadHeader (\<lambda>_. LoadFunction (Some ''=?'')) \<lparr>Z = z, mbuf = buff, chunkname = nm, nCcalls = calls\<rparr>
      = Some r \<and> (\<forall>f S. r = Inr (f, S) \<longrightarrow> accepted ?k f)" for nm
    by fastforce
  then show ?thesis unfolding luaU_undump_def Let_def .
qed


theorem luaU_undump_safe_witness:
  "\<exists>r. luaU_undump (luaZ_init [Some ''junk'']) \<lparr>mbuffer = [], buffsize = 0\<rparr> ''=a'' 0 = Some r"
  using luaU_undump_safe [OF zio_ok_init(1), of 0 "[Some ''junk'']" "\<lparr>mbuffer = [], buffsize = 0\<rparr>" "''=a''"] by auto

end
