(* ===== verification/LuaPattern.thy ===== *)
theory LuaPattern
  imports LuaZio
begin

text \<open>
  Pattern matching of the string library (\<^verbatim>\<open>lualib/lstrlib.c\<close>, lines 160 to 440).  A pointer into the
  subject or the pattern is an index; the byte after the last one is the terminator.  A result is
  \<open>None\<close> for a read outside a string or the capture array, an error that was raised, or a value.
  Subject and pattern do not change while a match runs and are parameters.
\<close>

section \<open>Results\<close>

type_synonym 'a res = "(lua_throw + 'a) option"

definition rreturn :: "'a \<Rightarrow> 'a res" where
  "rreturn x = Some (Inr x)"

definition rbind :: "'a res \<Rightarrow> ('a \<Rightarrow> 'b res) \<Rightarrow> 'b res" where
  "rbind m f = m \<bind> (\<lambda>r. case r of Inl e \<Rightarrow> Some (Inl e) | Inr x \<Rightarrow> f x)"

text \<open>The position that \<^verbatim>\<open>luaL_error\<close> puts before the message is left out.\<close>

definition luaL_error :: "char list \<Rightarrow> 'a res" where
  "luaL_error msg = Some (Inl (LUA_ERRRUN msg))"

text \<open>A text between single quotes.\<close>

definition LUA_QL :: "char list \<Rightarrow> char list" where
  "LUA_QL x = CHR 0x27 # x @ [CHR 0x27]"

definition cread :: "char list \<Rightarrow> nat \<Rightarrow> char res" where
  "cread x i = (if i < length x then rreturn (x ! i) else if i = length x then rreturn NUL else None)"

lemma rbind_simps [simp]:
  "rbind (Some (Inr x)) f = f x" "rbind (Some (Inl e)) f = Some (Inl e)" "rbind None f = None"
  "rbind (rreturn x) f = f x" "rbind (luaL_error msg) g = luaL_error msg"
  by (simp_all add: rbind_def rreturn_def luaL_error_def)

lemma rbind_cong [fundef_cong]:
  "m = m' \<Longrightarrow> (\<And>x. m' = Some (Inr x) \<Longrightarrow> f x = f' x) \<Longrightarrow> rbind m f = rbind m' f'"
  by (cases m') (auto simp: rbind_def split: sum.splits)

lemma rbind_Inr [simp]:
  "rbind m f = Some (Inr y) \<longleftrightarrow> (\<exists>x. m = Some (Inr x) \<and> f x = Some (Inr y))"
  by (cases m) (auto simp: rbind_def split: sum.splits)

lemma rreturn_Inr [simp]: "rreturn x = Some (Inr y) \<longleftrightarrow> x = y" "luaL_error msg \<noteq> Some (Inr y)"
  by (simp_all add: rreturn_def luaL_error_def)

lemma cread_in: "cread x i = Some (Inr c) \<Longrightarrow> i \<le> length x \<and> (c \<noteq> NUL \<longrightarrow> i < length x \<and> x ! i = c)"
  by (auto simp: cread_def rreturn_def split: if_splits)

text \<open>A result that is an error, or a value with the given property: no read out of bounds.\<close>

definition returns :: "'a res \<Rightarrow> ('a \<Rightarrow> bool) \<Rightarrow> bool" where
  "returns m P \<longleftrightarrow> (\<exists>r. m = Some r \<and> (\<forall>x. r = Inr x \<longrightarrow> P x))"

lemma returns_simps [simp]:
  "returns (rreturn x) P \<longleftrightarrow> P x" "returns (luaL_error msg) P" "\<not> returns None P" "returns (Some (Inl e)) P"
  "returns (Some (Inr x)) P \<longleftrightarrow> P x"
  by (auto simp: returns_def rreturn_def luaL_error_def)

lemma returns_bind: "returns m P \<Longrightarrow> (\<And>x. m = Some (Inr x) \<Longrightarrow> P x \<Longrightarrow> returns (f x) Q) \<Longrightarrow> returns (rbind m f) Q"
  unfolding returns_def by (elim exE conjE, rename_tac r, case_tac r) auto

lemma returns_mono: "returns m P \<Longrightarrow> (\<And>x. P x \<Longrightarrow> Q x) \<Longrightarrow> returns m Q"
  by (auto simp: returns_def)

lemma returns_Inr: "returns m P \<Longrightarrow> m = Some (Inr x) \<Longrightarrow> P x"
  by (auto simp: returns_def)

lemma returns_not_None: "returns m P \<Longrightarrow> m \<noteq> None"
  by (auto simp: returns_def)

section \<open>Classes\<close>

definition L_ESC :: char where "L_ESC = CHR ''%''"
definition SPECIALS :: "char list" where "SPECIALS = ''^$*+?.([%-''"

function class_loop :: "char list \<Rightarrow> nat \<Rightarrow> nat res" where
  "class_loop pat p =
     rbind (cread pat p) (\<lambda>c.
     if c = NUL then luaL_error (''malformed pattern (missing '' @ LUA_QL '']'' @ '')'')
     else rbind (if c = L_ESC
                 then rbind (cread pat (p + 1)) (\<lambda>d. rreturn (if d \<noteq> NUL then p + 2 else p + 1))
                 else rreturn (p + 1)) (\<lambda>p1.
          rbind (cread pat p1) (\<lambda>e. if e \<noteq> CHR '']'' then class_loop pat p1 else rreturn (p1 + 1))))"
  by pat_completeness auto

text \<open>The test of the loop reads the pattern one byte further in every turn.\<close>

termination
proof (relation "measure (\<lambda>(pat, p). length pat + 1 - p)")
  fix pat p c p1 e
  assume c: "cread pat p = Some (Inr c)" "c \<noteq> NUL"
    and p1: "(if c = L_ESC then rbind (cread pat (p + 1)) (\<lambda>d. rreturn (if d \<noteq> NUL then p + 2 else p + 1))
              else rreturn (p + 1)) = Some (Inr p1)"
  have "rbind (cread pat (p + 1)) (\<lambda>d. rreturn (if d \<noteq> NUL then p + 2 else p + 1)) = Some (Inr q) \<Longrightarrow> p < q" for q
    by (cases "cread pat (p + 1)") (auto simp: rbind_def rreturn_def split: sum.splits if_splits)
  then have "p < p1" using p1 by (auto simp: rreturn_def split: if_splits)
  then show "((pat, p1), (pat, p)) \<in> measure (\<lambda>(pat, p). length pat + 1 - p)"
    using cread_in [OF c(1)] c(2) by (simp add: diff_less_mono2)
qed simp

declare class_loop.simps [simp del]

definition classend :: "char list \<Rightarrow> nat \<Rightarrow> nat res" where
  "classend pat p =
     rbind (cread pat p) (\<lambda>c.
     if c = L_ESC then
       rbind (cread pat (p + 1)) (\<lambda>d.
         if d = NUL then luaL_error (''malformed pattern (ends with '' @ LUA_QL ''%'' @ '')'') else rreturn (p + 2))
     else if c = CHR ''['' then
       rbind (cread pat (p + 1)) (\<lambda>d. class_loop pat (if d = CHR ''^'' then p + 2 else p + 1))
     else rreturn (p + 1))"

definition match_class :: "char \<Rightarrow> char \<Rightarrow> bool" where
  "match_class c cl =
     (let k = tolower_C cl;
          res = (if k = CHR ''a'' then Some (isalpha_C c)
                 else if k = CHR ''c'' then Some (iscntrl_C c)
                 else if k = CHR ''d'' then Some (isdigit_C c)
                 else if k = CHR ''l'' then Some (islower_C c)
                 else if k = CHR ''p'' then Some (ispunct_C c)
                 else if k = CHR ''s'' then Some (isspace_C c)
                 else if k = CHR ''u'' then Some (isupper_C c)
                 else if k = CHR ''w'' then Some (isalnum_C c)
                 else if k = CHR ''x'' then Some (isxdigit_C c)
                 else if k = CHR ''z'' then Some (c = NUL)
                 else None)
      in case res of None \<Rightarrow> cl = c | Some r \<Rightarrow> if islower_C cl then r else \<not> r)"

function bracket_loop :: "char list \<Rightarrow> char \<Rightarrow> bool \<Rightarrow> nat \<Rightarrow> nat \<Rightarrow> bool res" where
  "bracket_loop pat c sig p ec =
     (if p < ec
      then rbind (cread pat p) (\<lambda>x.
        if x = L_ESC then
          rbind (cread pat (p + 1)) (\<lambda>y.
            if match_class c y then rreturn sig else bracket_loop pat c sig (p + 2) ec)
        else rbind (cread pat (p + 1)) (\<lambda>y.
          if y = CHR ''-'' \<and> p + 2 < ec then
            rbind (cread pat (p + 2)) (\<lambda>z.
              if uchar x \<le> uchar c \<and> uchar c \<le> uchar z then rreturn sig else bracket_loop pat c sig (p + 3) ec)
          else if x = c then rreturn sig
          else bracket_loop pat c sig (p + 1) ec))
      else rreturn (\<not> sig))"
  by pat_completeness auto
termination
  by (relation "measure (\<lambda>(pat, c, sig, p, ec). ec - p)") auto

declare bracket_loop.simps [simp del]

definition matchbracketclass :: "char list \<Rightarrow> char \<Rightarrow> nat \<Rightarrow> nat \<Rightarrow> bool res" where
  "matchbracketclass pat c p ec =
     rbind (cread pat (p + 1)) (\<lambda>d.
       if d = CHR ''^'' then bracket_loop pat c False (p + 2) ec else bracket_loop pat c True (p + 1) ec)"

definition singlematch :: "char list \<Rightarrow> char \<Rightarrow> nat \<Rightarrow> nat \<Rightarrow> bool res" where
  "singlematch pat c p ep =
     rbind (cread pat p) (\<lambda>x.
     if x = CHR ''.'' then rreturn True
     else if x = L_ESC then rbind (cread pat (p + 1)) (\<lambda>cl. rreturn (match_class c cl))
     else if x = CHR ''['' then matchbracketclass pat c p (ep - 1)
     else rreturn (x = c))"

section \<open>Captures\<close>

definition LUA_MAXCAPTURES :: nat where "LUA_MAXCAPTURES = 32"
definition CAP_UNFINISHED :: int where "CAP_UNFINISHED = - 1"
definition CAP_POSITION :: int where "CAP_POSITION = - 2"

record MatchState =
  level :: nat
  capture :: "(nat \<times> int) list"

definition cap_at :: "MatchState \<Rightarrow> nat \<Rightarrow> (nat \<times> int) res" where
  "cap_at ms i = (if i < length (capture ms) then rreturn (capture ms ! i) else None)"

definition check_capture :: "MatchState \<Rightarrow> char \<Rightarrow> nat res" where
  "check_capture ms l =
     (let i = uchar l - uchar (CHR ''1'')
      in if i < 0 \<or> i \<ge> int (level ms) then luaL_error ''invalid capture index''
         else rbind (cap_at ms (nat i)) (\<lambda>c.
           if snd c = CAP_UNFINISHED then luaL_error ''invalid capture index'' else rreturn (nat i)))"

fun close_loop :: "MatchState \<Rightarrow> nat \<Rightarrow> nat res" where
  "close_loop ms 0 = luaL_error ''invalid pattern capture''"
| "close_loop ms (Suc i) =
     rbind (cap_at ms i) (\<lambda>c. if snd c = CAP_UNFINISHED then rreturn i else close_loop ms i)"

definition capture_to_close :: "MatchState \<Rightarrow> nat res" where
  "capture_to_close ms = close_loop ms (level ms)"

text \<open>A match gives the end of the match or the null pointer, and the captures it leaves.\<close>

type_synonym match_res = "(nat option \<times> MatchState) res"

section \<open>Items\<close>

fun balance_loop :: "char \<Rightarrow> char \<Rightarrow> char list \<Rightarrow> nat \<Rightarrow> int \<Rightarrow> nat option" where
  "balance_loop b e [] s cont = None"
| "balance_loop b e (c # cs) s cont =
     (if c = e then if cont - 1 = 0 then Some (s + 1) else balance_loop b e cs (s + 1) (cont - 1)
      else if c = b then balance_loop b e cs (s + 1) (cont + 1)
      else balance_loop b e cs (s + 1) cont)"

definition matchbalance :: "char list \<Rightarrow> char list \<Rightarrow> nat \<Rightarrow> nat \<Rightarrow> nat option res" where
  "matchbalance src pat s p =
     rbind (cread pat p) (\<lambda>b.
     rbind (if b = NUL then rreturn NUL else cread pat (p + 1)) (\<lambda>e.
     if b = NUL \<or> e = NUL then luaL_error ''unbalanced pattern''
     else rbind (cread src s) (\<lambda>x.
       if x \<noteq> b then rreturn None
       else rreturn (balance_loop b e (drop (s + 1) src) (s + 1) 1))))"

text \<open>In the functions that call \<^verbatim>\<open>match\<close> on the rest of the pattern, that call is the parameter \<open>m\<close>.\<close>

function expand_count :: "char list \<Rightarrow> char list \<Rightarrow> nat \<Rightarrow> nat \<Rightarrow> nat \<Rightarrow> nat \<Rightarrow> nat res" where
  "expand_count src pat s p ep i =
     (if s + i < length src
      then rbind (singlematch pat (src ! (s + i)) p ep) (\<lambda>b.
        if b then expand_count src pat s p ep (i + 1) else rreturn i)
      else rreturn i)"
  by pat_completeness auto
termination
  by (relation "measure (\<lambda>(src, pat, s, p, ep, i). length src - (s + i))") auto

declare expand_count.simps [simp del]

fun max_try :: "(MatchState \<Rightarrow> nat \<Rightarrow> match_res) \<Rightarrow> MatchState \<Rightarrow> nat \<Rightarrow> nat \<Rightarrow> match_res" where
  "max_try m ms s i =
     rbind (m ms (s + i)) (\<lambda>(r, ms1).
       case r of
         Some e \<Rightarrow> rreturn (Some e, ms1)
       | None \<Rightarrow> (case i of 0 \<Rightarrow> rreturn (None, ms1) | Suc j \<Rightarrow> max_try m ms1 s j))"

declare max_try.simps [simp del]

definition max_expand ::
  "(MatchState \<Rightarrow> nat \<Rightarrow> match_res) \<Rightarrow> char list \<Rightarrow> char list \<Rightarrow> MatchState \<Rightarrow> nat \<Rightarrow> nat \<Rightarrow> nat \<Rightarrow> match_res" where
  "max_expand m src pat ms s p ep = rbind (expand_count src pat s p ep 0) (\<lambda>i. max_try m ms s i)"

function min_expand ::
  "(MatchState \<Rightarrow> nat \<Rightarrow> match_res) \<Rightarrow> char list \<Rightarrow> char list \<Rightarrow> MatchState \<Rightarrow> nat \<Rightarrow> nat \<Rightarrow> nat \<Rightarrow> match_res" where
  "min_expand m src pat ms s p ep =
     rbind (m ms s) (\<lambda>(r, ms1).
       case r of
         Some e \<Rightarrow> rreturn (Some e, ms1)
       | None \<Rightarrow>
           if s < length src
           then rbind (singlematch pat (src ! s) p ep) (\<lambda>b.
             if b then min_expand m src pat ms1 (s + 1) p ep else rreturn (None, ms1))
           else rreturn (None, ms1))"
  by pat_completeness auto
termination
  by (relation "measure (\<lambda>(m, src, pat, ms, s, p, ep). length src - s)") auto

declare min_expand.simps [simp del]

definition start_capture :: "(MatchState \<Rightarrow> nat \<Rightarrow> match_res) \<Rightarrow> MatchState \<Rightarrow> nat \<Rightarrow> int \<Rightarrow> match_res" where
  "start_capture m ms s what =
     (if level ms \<ge> LUA_MAXCAPTURES then luaL_error ''too many captures''
      else rbind (cap_at ms (level ms)) (\<lambda>_.
        rbind (m (ms\<lparr>capture := (capture ms)[level ms := (s, what)], level := level ms + 1\<rparr>) s) (\<lambda>(r, ms1).
          case r of
            Some e \<Rightarrow> rreturn (Some e, ms1)
          | None \<Rightarrow> rreturn (None, ms1\<lparr>level := level ms1 - 1\<rparr>))))"

definition end_capture :: "(MatchState \<Rightarrow> nat \<Rightarrow> match_res) \<Rightarrow> MatchState \<Rightarrow> nat \<Rightarrow> match_res" where
  "end_capture m ms s =
     rbind (capture_to_close ms) (\<lambda>l.
     rbind (cap_at ms l) (\<lambda>c.
     rbind (m (ms\<lparr>capture := (capture ms)[l := (fst c, int s - int (fst c))]\<rparr>) s) (\<lambda>(r, ms1).
       case r of
         Some e \<Rightarrow> rreturn (Some e, ms1)
       | None \<Rightarrow> rbind (cap_at ms1 l) (\<lambda>c1.
           rreturn (None, ms1\<lparr>capture := (capture ms1)[l := (fst c1, CAP_UNFINISHED)]\<rparr>)))))"

text \<open>The length of a capture is compared as a \<^verbatim>\<open>size_t\<close>, which makes a position capture too long.\<close>

definition match_capture :: "char list \<Rightarrow> MatchState \<Rightarrow> nat \<Rightarrow> char \<Rightarrow> nat option res" where
  "match_capture src ms s l =
     rbind (check_capture ms l) (\<lambda>i.
     rbind (cap_at ms i) (\<lambda>c.
       let len = nat (snd c mod 2 ^ 32)
       in if length src - s \<ge> len
          then if fst c + len \<le> length src
               then rreturn (if take len (drop (fst c) src) = take len (drop s src) then Some (s + len) else None)
               else None
          else rreturn None))"

definition match_default ::
  "(MatchState \<Rightarrow> nat \<Rightarrow> nat \<Rightarrow> match_res) \<Rightarrow> char list \<Rightarrow> char list \<Rightarrow> MatchState \<Rightarrow> nat \<Rightarrow> nat \<Rightarrow> match_res" where
  "match_default m src pat ms s p =
     rbind (classend pat p) (\<lambda>ep.
     rbind (if s < length src then singlematch pat (src ! s) p ep else rreturn False) (\<lambda>b.
     rbind (cread pat ep) (\<lambda>q.
       if q = CHR ''?'' then
         rbind (if b then m ms (s + 1) (ep + 1) else rreturn (None, ms)) (\<lambda>(r, ms1).
           case r of
             Some e \<Rightarrow> rreturn (Some e, ms1)
           | None \<Rightarrow> m ms1 s (ep + 1))
       else if q = CHR ''*'' then max_expand (\<lambda>ms s. m ms s (ep + 1)) src pat ms s p ep
       else if q = CHR ''+'' then
         (if b then max_expand (\<lambda>ms s. m ms s (ep + 1)) src pat ms (s + 1) p ep else rreturn (None, ms))
       else if q = CHR ''-'' then min_expand (\<lambda>ms s. m ms s (ep + 1)) src pat ms s p ep
       else if \<not> b then rreturn (None, ms)
       else m ms (s + 1) ep)))"

definition match_frontier ::
  "(MatchState \<Rightarrow> nat \<Rightarrow> nat \<Rightarrow> match_res) \<Rightarrow> char list \<Rightarrow> char list \<Rightarrow> MatchState \<Rightarrow> nat \<Rightarrow> nat \<Rightarrow> match_res" where
  "match_frontier m src pat ms s p =
     rbind (cread pat p) (\<lambda>c.
     if c \<noteq> CHR ''['' then luaL_error (''missing '' @ LUA_QL ''['' @ '' after '' @ LUA_QL ''%f'' @ '' in pattern'')
     else rbind (classend pat p) (\<lambda>ep.
       rbind (if s = 0 then rreturn NUL else cread src (s - 1)) (\<lambda>previous.
       rbind (matchbracketclass pat previous p (ep - 1)) (\<lambda>b.
       if b then rreturn (None, ms)
       else rbind (cread src s) (\<lambda>x.
         rbind (matchbracketclass pat x p (ep - 1)) (\<lambda>b.
         if \<not> b then rreturn (None, ms) else m ms s ep))))))"

text \<open>The body of \<^verbatim>\<open>match\<close>, with its calls of itself by \<open>m\<close>.\<close>

definition match_body ::
  "(MatchState \<Rightarrow> nat \<Rightarrow> nat \<Rightarrow> match_res) \<Rightarrow> char list \<Rightarrow> char list \<Rightarrow> MatchState \<Rightarrow> nat \<Rightarrow> nat \<Rightarrow> match_res" where
  "match_body m src pat ms s p =
     rbind (cread pat p) (\<lambda>c.
     if c = CHR ''('' then
       rbind (cread pat (p + 1)) (\<lambda>d.
         if d = CHR '')'' then start_capture (\<lambda>ms s. m ms s (p + 2)) ms s CAP_POSITION
         else start_capture (\<lambda>ms s. m ms s (p + 1)) ms s CAP_UNFINISHED)
     else if c = CHR '')'' then end_capture (\<lambda>ms s. m ms s (p + 1)) ms s
     else if c = L_ESC then
       rbind (cread pat (p + 1)) (\<lambda>d.
         if d = CHR ''b'' then
           rbind (matchbalance src pat s (p + 2)) (\<lambda>r.
             case r of None \<Rightarrow> rreturn (None, ms) | Some e \<Rightarrow> m ms e (p + 4))
         else if d = CHR ''f'' then match_frontier m src pat ms s (p + 2)
         else if isdigit_C d then
           rbind (match_capture src ms s d) (\<lambda>r.
             case r of None \<Rightarrow> rreturn (None, ms) | Some e \<Rightarrow> m ms e (p + 2))
         else match_default m src pat ms s p)
     else if c = NUL then rreturn (Some s, ms)
     else if c = CHR ''$'' then
       rbind (cread pat (p + 1)) (\<lambda>d.
         if d = NUL then rreturn (if s = length src then Some s else None, ms)
         else match_default m src pat ms s p)
     else match_default m src pat ms s p)"


section \<open>The calls of match are on the rest of the pattern\<close>

lemma class_loop_gt: "class_loop pat p = Some (Inr ep) \<Longrightarrow> p < ep"
proof (induction pat p rule: class_loop.induct)
  case (1 pat p)
  from "1.prems" obtain c p1 e where c: "cread pat p = Some (Inr c)" "c \<noteq> NUL"
    and p1: "(if c = L_ESC then rbind (cread pat (p + 1)) (\<lambda>d. rreturn (if d \<noteq> NUL then p + 2 else p + 1))
              else rreturn (p + 1)) = Some (Inr p1)"
    and e: "cread pat p1 = Some (Inr e)" "(if e \<noteq> CHR '']'' then class_loop pat p1 else rreturn (p1 + 1)) = Some (Inr ep)"
    by (subst (asm) class_loop.simps) (auto split: if_splits)
  have "p < p1" using p1 by (auto split: if_splits)
  then show ?case using "1.IH" [OF c p1 e(1)] e(2) by (auto split: if_splits)
qed

lemma classend_gt: "classend pat p = Some (Inr ep) \<Longrightarrow> p < ep \<and> p \<le> length pat"
  using class_loop_gt [of pat "p + 2" ep] class_loop_gt [of pat "p + 1" ep] cread_in [of pat p]
  by (auto simp: classend_def split: if_splits)

lemma start_capture_cong:
  "(\<And>ms s. m ms s = m' ms s) \<Longrightarrow> start_capture m ms s w = start_capture m' ms s w"
  by (simp add: start_capture_def)

lemma end_capture_cong:
  "(\<And>ms s. m ms s = m' ms s) \<Longrightarrow> end_capture m ms s = end_capture m' ms s"
  by (simp add: end_capture_def)

lemma match_default_cong:
  assumes "\<And>ms s q. p < q \<Longrightarrow> p \<le> length pat \<Longrightarrow> m ms s q = m' ms s q"
  shows "match_default m src pat ms s p = match_default m' src pat ms s p"
  unfolding match_default_def
proof (rule rbind_cong [OF refl])
  fix ep assume "classend pat p = Some (Inr ep)"
  then have "m ms s (ep + 1) = m' ms s (ep + 1)" "m ms s ep = m' ms s ep" for ms s
    using classend_gt [of pat p ep] by (auto intro: assms)
  then show "rbind (if s < length src then singlematch pat (src ! s) p ep else rreturn False) (\<lambda>b.
     rbind (cread pat ep) (\<lambda>q.
       if q = CHR ''?'' then
         rbind (if b then m ms (s + 1) (ep + 1) else rreturn (None, ms)) (\<lambda>(r, ms1).
           case r of
             Some e \<Rightarrow> rreturn (Some e, ms1)
           | None \<Rightarrow> m ms1 s (ep + 1))
       else if q = CHR ''*'' then max_expand (\<lambda>ms s. m ms s (ep + 1)) src pat ms s p ep
       else if q = CHR ''+'' then
         (if b then max_expand (\<lambda>ms s. m ms s (ep + 1)) src pat ms (s + 1) p ep else rreturn (None, ms))
       else if q = CHR ''-'' then min_expand (\<lambda>ms s. m ms s (ep + 1)) src pat ms s p ep
       else if \<not> b then rreturn (None, ms)
       else m ms (s + 1) ep)) =
     rbind (if s < length src then singlematch pat (src ! s) p ep else rreturn False) (\<lambda>b.
     rbind (cread pat ep) (\<lambda>q.
       if q = CHR ''?'' then
         rbind (if b then m' ms (s + 1) (ep + 1) else rreturn (None, ms)) (\<lambda>(r, ms1).
           case r of
             Some e \<Rightarrow> rreturn (Some e, ms1)
           | None \<Rightarrow> m' ms1 s (ep + 1))
       else if q = CHR ''*'' then max_expand (\<lambda>ms s. m' ms s (ep + 1)) src pat ms s p ep
       else if q = CHR ''+'' then
         (if b then max_expand (\<lambda>ms s. m' ms s (ep + 1)) src pat ms (s + 1) p ep else rreturn (None, ms))
       else if q = CHR ''-'' then min_expand (\<lambda>ms s. m' ms s (ep + 1)) src pat ms s p ep
       else if \<not> b then rreturn (None, ms)
       else m' ms (s + 1) ep))"
    by presburger
qed

lemma match_frontier_cong:
  assumes "\<And>ms s q. p < q \<Longrightarrow> p \<le> length pat \<Longrightarrow> m ms s q = m' ms s q"
  shows "match_frontier m src pat ms s p = match_frontier m' src pat ms s p"
  unfolding match_frontier_def
proof (rule rbind_cong [OF refl], rule if_cong [OF refl refl], rule rbind_cong [OF refl])
  fix ep assume "classend pat p = Some (Inr ep)"
  then have "m ms s ep = m' ms s ep" using classend_gt [of pat p ep] by (auto intro: assms)
  then show "rbind (if s = 0 then rreturn NUL else cread src (s - 1)) (\<lambda>previous.
       rbind (matchbracketclass pat previous p (ep - 1)) (\<lambda>b.
       if b then rreturn (None, ms)
       else rbind (cread src s) (\<lambda>x.
         rbind (matchbracketclass pat x p (ep - 1)) (\<lambda>b.
         if \<not> b then rreturn (None, ms) else m ms s ep)))) =
     rbind (if s = 0 then rreturn NUL else cread src (s - 1)) (\<lambda>previous.
       rbind (matchbracketclass pat previous p (ep - 1)) (\<lambda>b.
       if b then rreturn (None, ms)
       else rbind (cread src s) (\<lambda>x.
         rbind (matchbracketclass pat x p (ep - 1)) (\<lambda>b.
         if \<not> b then rreturn (None, ms) else m' ms s ep))))"
    by presburger
qed

lemma match_body_cong [fundef_cong]:
  assumes "src = src'" "pat = pat'" "ms = ms'" "s = s'" "p = p'"
    and "\<And>ms s q. p' < q \<Longrightarrow> p' \<le> length pat' \<Longrightarrow> m ms s q = m' ms s q"
  shows "match_body m src pat ms s p = match_body m' src' pat' ms' s' p'"
  unfolding match_body_def assms(1-5)
proof (rule rbind_cong [OF refl])
  fix c assume "cread pat' p' = Some (Inr c)"
  then have "p' \<le> length pat'" using cread_in by blast
  then have q: "m ms s q = m' ms s q" if "p' < q" for ms s q using assms(6) that by blast
  have "match_frontier m src' pat' ms' s' (p' + 2) = match_frontier m' src' pat' ms' s' (p' + 2)"
    by (rule match_frontier_cong) (simp add: q)
  moreover have "match_default m src' pat' ms' s' p' = match_default m' src' pat' ms' s' p'"
    by (rule match_default_cong) (simp add: q)
  moreover have "m ms s (p' + 1) = m' ms s (p' + 1)" "m ms s (p' + 2) = m' ms s (p' + 2)" "m ms s (p' + 4) = m' ms s (p' + 4)" for ms s
    by (simp_all add: q)
  ultimately show "(if c = CHR ''('' then
       rbind (cread pat' (p' + 1)) (\<lambda>d.
         if d = CHR '')'' then start_capture (\<lambda>ms s. m ms s (p' + 2)) ms' s' CAP_POSITION
         else start_capture (\<lambda>ms s. m ms s (p' + 1)) ms' s' CAP_UNFINISHED)
     else if c = CHR '')'' then end_capture (\<lambda>ms s. m ms s (p' + 1)) ms' s'
     else if c = L_ESC then
       rbind (cread pat' (p' + 1)) (\<lambda>d.
         if d = CHR ''b'' then
           rbind (matchbalance src' pat' s' (p' + 2)) (\<lambda>r.
             case r of None \<Rightarrow> rreturn (None, ms') | Some e \<Rightarrow> m ms' e (p' + 4))
         else if d = CHR ''f'' then match_frontier m src' pat' ms' s' (p' + 2)
         else if isdigit_C d then
           rbind (match_capture src' ms' s' d) (\<lambda>r.
             case r of None \<Rightarrow> rreturn (None, ms') | Some e \<Rightarrow> m ms' e (p' + 2))
         else match_default m src' pat' ms' s' p')
     else if c = NUL then rreturn (Some s', ms')
     else if c = CHR ''$'' then
       rbind (cread pat' (p' + 1)) (\<lambda>d.
         if d = NUL then rreturn (if s' = length src' then Some s' else None, ms')
         else match_default m src' pat' ms' s' p')
     else match_default m src' pat' ms' s' p') =
     (if c = CHR ''('' then
       rbind (cread pat' (p' + 1)) (\<lambda>d.
         if d = CHR '')'' then start_capture (\<lambda>ms s. m' ms s (p' + 2)) ms' s' CAP_POSITION
         else start_capture (\<lambda>ms s. m' ms s (p' + 1)) ms' s' CAP_UNFINISHED)
     else if c = CHR '')'' then end_capture (\<lambda>ms s. m' ms s (p' + 1)) ms' s'
     else if c = L_ESC then
       rbind (cread pat' (p' + 1)) (\<lambda>d.
         if d = CHR ''b'' then
           rbind (matchbalance src' pat' s' (p' + 2)) (\<lambda>r.
             case r of None \<Rightarrow> rreturn (None, ms') | Some e \<Rightarrow> m' ms' e (p' + 4))
         else if d = CHR ''f'' then match_frontier m' src' pat' ms' s' (p' + 2)
         else if isdigit_C d then
           rbind (match_capture src' ms' s' d) (\<lambda>r.
             case r of None \<Rightarrow> rreturn (None, ms') | Some e \<Rightarrow> m' ms' e (p' + 2))
         else match_default m' src' pat' ms' s' p')
     else if c = NUL then rreturn (Some s', ms')
     else if c = CHR ''$'' then
       rbind (cread pat' (p' + 1)) (\<lambda>d.
         if d = NUL then rreturn (if s' = length src' then Some s' else None, ms')
         else match_default m' src' pat' ms' s' p')
     else match_default m' src' pat' ms' s' p')"
    by presburger
qed

text \<open>\<^verbatim>\<open>match\<close>: the pattern gets shorter with every call, whatever the subject.\<close>

function match :: "char list \<Rightarrow> char list \<Rightarrow> MatchState \<Rightarrow> nat \<Rightarrow> nat \<Rightarrow> match_res" where
  "match src pat ms s p = match_body (match src pat) src pat ms s p"
  by pat_completeness auto
termination
  by (relation "measure (\<lambda>(src, pat, ms, s, p). length pat + 1 - p)") (auto intro: diff_less_mono2)

declare match.simps [simp del]

end
