(* ===== verification/LuaMatch.thy ===== *)
theory LuaMatch
  imports LuaPattern
begin

text \<open>
  What \<^verbatim>\<open>match\<close> promises.  \<open>matches\<close> says, without an order of trials, which parts of the subject a
  pattern can match and with which captures; the backtracking search of the code stays inside the
  strings, finds a match exactly if there is one, and restores the captures when there is none.
\<close>

section \<open>Reading strings\<close>

definition pch :: "char list \<Rightarrow> nat \<Rightarrow> char" where
  "pch x i = (if i < length x then x ! i else NUL)"

lemma cread_ok: "i \<le> length x \<Longrightarrow> cread x i = rreturn (pch x i)"
  by (simp add: cread_def pch_def)

lemma pch_in: "pch x i \<noteq> NUL \<Longrightarrow> i < length x"
  by (auto simp: pch_def split: if_splits)

lemma class_loop_total: "p \<le> length pat \<Longrightarrow> \<exists>r. class_loop pat p = Some r \<and> (\<forall>ep. r = Inr ep \<longrightarrow> ep \<le> length pat)"
proof (induction pat p rule: class_loop.induct)
  case (1 pat p)
  show ?case
  proof (cases "pch pat p = NUL")
    case True
    then show ?thesis using 1 by (subst class_loop.simps) (simp add: cread_ok luaL_error_def)
  next
    case False
    then have p: "p < length pat" by (rule pch_in)
    define p1 where "p1 = (if pch pat p = L_ESC then if pch pat (p + 1) \<noteq> NUL then p + 2 else p + 1 else p + 1)"
    have p1: "p1 \<le> length pat" using p pch_in [of pat "p + 1"] by (auto simp: p1_def)
    have step: "(if pch pat p = L_ESC then rbind (cread pat (p + 1)) (\<lambda>d. rreturn (if d \<noteq> NUL then p + 2 else p + 1))
        else rreturn (p + 1)) = Some (Inr p1)"
      using p by (auto simp: p1_def cread_ok rreturn_def)
    have c: "cread pat p = Some (Inr (pch pat p))" "cread pat p1 = Some (Inr (pch pat p1))"
      using p p1 by (simp_all add: cread_ok rreturn_def)
    have eq: "class_loop pat p = (if pch pat p1 \<noteq> CHR '']'' then class_loop pat p1 else rreturn (p1 + 1))"
      by (subst class_loop.simps) (use False c step in \<open>simp only: rbind_simps if_False\<close>)
    show ?thesis
    proof (cases "pch pat p1 = CHR '']''")
      case True
      then have "p1 < length pat" by (intro pch_in) simp
      then show ?thesis using True eq by (simp add: rreturn_def)
    next
      case neq: False
      then show ?thesis using "1.IH" [OF c(1) False step c(2) neq p1] eq by simp
    qed
  qed
qed

lemma classend_total:
  assumes "p \<le> length pat"
  shows "\<exists>r. classend pat p = Some r \<and> (\<forall>ep. r = Inr ep \<longrightarrow> p < ep \<and> (pch pat p \<noteq> NUL \<longrightarrow> ep \<le> length pat))"
proof -
  have "\<exists>r. classend pat p = Some r \<and> (\<forall>ep. r = Inr ep \<longrightarrow> pch pat p \<noteq> NUL \<longrightarrow> ep \<le> length pat)"
  proof (cases "pch pat p = L_ESC \<or> pch pat p = CHR ''[''")
    case True
    then have p: "p < length pat" by (intro pch_in) (auto simp: L_ESC_def)
    have "p + 2 \<le> length pat" if "pch pat (p + 1) \<noteq> NUL" using pch_in [OF that] by simp
    then show ?thesis
      using True p class_loop_total [of "p + 2" pat] class_loop_total [of "p + 1" pat]
      by (auto simp: classend_def cread_ok luaL_error_def rreturn_def L_ESC_def)
  next
    case False
    then show ?thesis using assms pch_in [of pat p]
      by (auto simp: classend_def cread_ok luaL_error_def rreturn_def)
  qed
  then show ?thesis using classend_gt by blast
qed

lemma bracket_loop_total: "ec \<le> length pat \<Longrightarrow> \<exists>b. bracket_loop pat c sig p ec = rreturn b"
proof (induction pat c sig p ec rule: bracket_loop.induct)
  case (1 pat c sig p ec)
  show ?case
  proof (cases "p < ec")
    case True
    then have r: "cread pat p = Some (Inr (pch pat p))" "cread pat (p + 1) = Some (Inr (pch pat (p + 1)))"
      "p + 2 < ec \<Longrightarrow> cread pat (p + 2) = Some (Inr (pch pat (p + 2)))"
      using "1.prems" by (simp_all add: cread_ok rreturn_def)
    note IH = "1.IH" [OF True r(1)]
    show ?thesis
    proof (cases "pch pat p = L_ESC")
      case esc: True
      then show ?thesis using IH(1) [OF esc r(2)] "1.prems" True r by (subst bracket_loop.simps) auto
    next
      case esc: False
      show ?thesis
      proof (cases "pch pat (p + 1) = CHR ''-'' \<and> p + 2 < ec")
        case range: True
        then show ?thesis using IH(2) [OF esc r(2) range r(3)] "1.prems" True r esc by (subst bracket_loop.simps) auto
      next
        case range: False
        then show ?thesis using IH(3) [OF esc r(2) range] "1.prems" True r esc by (subst bracket_loop.simps) auto
      qed
    qed
  qed (subst bracket_loop.simps, auto)
qed

lemma matchbracketclass_total:
  "p < ec \<Longrightarrow> ec \<le> length pat \<Longrightarrow> \<exists>b. matchbracketclass pat c p ec = rreturn b"
  using bracket_loop_total [of ec pat c False "p + 2"] bracket_loop_total [of ec pat c True "p + 1"]
  by (auto simp: matchbracketclass_def cread_ok)

text \<open>A bracket class has at least the two brackets.\<close>

lemma classend_bracket:
  assumes "classend pat p = Some (Inr ep)" "pch pat p = CHR ''[''"
  shows "p + 1 < ep"
proof -
  have "p < length pat" by (rule pch_in) (simp add: assms(2))
  then show ?thesis
    using assms class_loop_gt [of pat "p + 2" ep] class_loop_gt [of pat "p + 1" ep]
    by (auto simp: classend_def cread_ok L_ESC_def split: if_splits)
qed

lemma singlematch_total:
  assumes "classend pat p = Some (Inr ep)" "pch pat p \<noteq> NUL"
  shows "\<exists>b. singlematch pat c p ep = rreturn b"
proof -
  have p: "p < length pat" using pch_in assms(2) by blast
  then have ep: "ep \<le> length pat" using classend_total [of p pat] assms by auto
  show ?thesis
    using p matchbracketclass_total [of p "ep - 1" pat c] classend_bracket [OF assms(1)] ep
    by (auto simp: singlematch_def cread_ok)
qed

definition single :: "char list \<Rightarrow> char \<Rightarrow> nat \<Rightarrow> nat \<Rightarrow> bool" where
  "single pat c p ep \<longleftrightarrow> singlematch pat c p ep = Some (Inr True)"

lemma singlematch_single:
  "classend pat p = Some (Inr ep) \<Longrightarrow> pch pat p \<noteq> NUL \<Longrightarrow> singlematch pat c p ep = rreturn (single pat c p ep)"
  using singlematch_total [of pat p ep c] by (auto simp: single_def rreturn_def)

definition in_class :: "char list \<Rightarrow> char \<Rightarrow> nat \<Rightarrow> nat \<Rightarrow> bool" where
  "in_class pat c p ep \<longleftrightarrow> matchbracketclass pat c p (ep - 1) = Some (Inr True)"

lemma matchbracketclass_in:
  assumes "classend pat p = Some (Inr ep)" "pch pat p = CHR ''[''"
  shows "matchbracketclass pat c p (ep - 1) = rreturn (in_class pat c p ep)"
proof -
  have "p < length pat" by (rule pch_in) (simp add: assms(2))
  then have "ep \<le> length pat" using classend_total [of p pat] assms by auto
  then have "p < ep - 1" "ep - 1 \<le> length pat" using classend_bracket [OF assms] by arith+
  from matchbracketclass_total [OF this, of c] obtain b where "matchbracketclass pat c p (ep - 1) = rreturn b"
    by (elim exE)
  then show ?thesis by (cases b) (simp_all add: in_class_def rreturn_def)
qed

section \<open>Which parts of the subject a pattern matches\<close>

text \<open>
  The nesting after each byte of a balanced part: the opening byte counts up, then a closing byte
  down and any other opening byte up.
\<close>

fun nesting :: "char \<Rightarrow> char \<Rightarrow> char list \<Rightarrow> int" where
  "nesting b e [] = 1"
| "nesting b e (c # cs) = (if c = e then - 1 else if c = b then 1 else 0) + nesting b e cs"

definition balanced :: "char \<Rightarrow> char \<Rightarrow> char list \<Rightarrow> nat \<Rightarrow> nat \<Rightarrow> bool" where
  "balanced b e src s s1 \<longleftrightarrow> s1 \<le> length src \<and> s + 1 < s1 \<and> src ! s = b \<and>
     nesting b e (take (s1 - (s + 1)) (drop (s + 1) src)) = 0 \<and>
     (\<forall>k < s1 - (s + 1). nesting b e (take k (drop (s + 1) src)) > 0)"

text \<open>An item is what is neither a capture, an anchor, a balance, a frontier nor a back reference.\<close>

definition is_item :: "char list \<Rightarrow> nat \<Rightarrow> bool" where
  "is_item pat p \<longleftrightarrow> pch pat p \<notin> {CHR ''('', CHR '')'', NUL} \<and>
     \<not> (pch pat p = CHR ''$'' \<and> pch pat (p + 1) = NUL) \<and>
     \<not> (pch pat p = L_ESC \<and> (pch pat (p + 1) \<in> {CHR ''b'', CHR ''f''} \<or> isdigit_C (pch pat (p + 1))))"

definition repeats :: "char \<Rightarrow> nat \<Rightarrow> bool" where
  "repeats q n \<longleftrightarrow>
     (if q = CHR ''?'' then n \<le> 1 else if q = CHR ''*'' \<or> q = CHR ''-'' then True
      else if q = CHR ''+'' then 1 \<le> n else n = 1)"

definition after :: "char list \<Rightarrow> nat \<Rightarrow> nat" where
  "after pat ep = (if pch pat ep \<in> {CHR ''?'', CHR ''*'', CHR ''-'', CHR ''+''} then ep + 1 else ep)"

type_synonym captures = "(nat \<times> int) list"

inductive matches :: "char list \<Rightarrow> char list \<Rightarrow> captures \<Rightarrow> nat \<Rightarrow> nat \<Rightarrow> captures \<Rightarrow> nat \<Rightarrow> bool" for src pat where
  the_end: "pch pat p = NUL \<Longrightarrow> matches src pat c s p c s"
| at_end: "pch pat p = CHR ''$'' \<Longrightarrow> pch pat (p + 1) = NUL \<Longrightarrow> s = length src \<Longrightarrow> matches src pat c s p c s"
| position: "pch pat p = CHR ''('' \<Longrightarrow> pch pat (p + 1) = CHR '')'' \<Longrightarrow>
    matches src pat (c @ [(s, CAP_POSITION)]) s (p + 2) c' e \<Longrightarrow> matches src pat c s p c' e"
| opens: "pch pat p = CHR ''('' \<Longrightarrow> pch pat (p + 1) \<noteq> CHR '')'' \<Longrightarrow>
    matches src pat (c @ [(s, CAP_UNFINISHED)]) s (p + 1) c' e \<Longrightarrow> matches src pat c s p c' e"
| closes: "pch pat p = CHR '')'' \<Longrightarrow> l < length c \<Longrightarrow> snd (c ! l) = CAP_UNFINISHED \<Longrightarrow>
    \<forall>j. l < j \<and> j < length c \<longrightarrow> snd (c ! j) \<noteq> CAP_UNFINISHED \<Longrightarrow>
    matches src pat (c[l := (fst (c ! l), int s - int (fst (c ! l)))]) s (p + 1) c' e \<Longrightarrow> matches src pat c s p c' e"
| balance: "pch pat p = L_ESC \<Longrightarrow> pch pat (p + 1) = CHR ''b'' \<Longrightarrow>
    balanced (pch pat (p + 2)) (pch pat (p + 3)) src s s1 \<Longrightarrow>
    matches src pat c s1 (p + 4) c' e \<Longrightarrow> matches src pat c s p c' e"
| frontier: "pch pat p = L_ESC \<Longrightarrow> pch pat (p + 1) = CHR ''f'' \<Longrightarrow> pch pat (p + 2) = CHR ''['' \<Longrightarrow>
    classend pat (p + 2) = Some (Inr ep) \<Longrightarrow>
    \<not> in_class pat (if s = 0 then NUL else src ! (s - 1)) (p + 2) ep \<Longrightarrow> in_class pat (pch src s) (p + 2) ep \<Longrightarrow>
    matches src pat c s ep c' e \<Longrightarrow> matches src pat c s p c' e"
| backref: "pch pat p = L_ESC \<Longrightarrow> isdigit_C (pch pat (p + 1)) \<Longrightarrow>
    uchar (pch pat (p + 1)) - uchar (CHR ''1'') = int l \<Longrightarrow> l < length c \<Longrightarrow> c ! l = (i, int n) \<Longrightarrow>
    s + n \<le> length src \<Longrightarrow> take n (drop i src) = take n (drop s src) \<Longrightarrow>
    matches src pat c (s + n) (p + 2) c' e \<Longrightarrow> matches src pat c s p c' e"
| item: "is_item pat p \<Longrightarrow> classend pat p = Some (Inr ep) \<Longrightarrow> repeats (pch pat ep) n \<Longrightarrow> s + n \<le> length src \<Longrightarrow>
    \<forall>i<n. single pat (src ! (s + i)) p ep \<Longrightarrow>
    matches src pat c (s + n) (after pat ep) c' e \<Longrightarrow> matches src pat c s p c' e"


section \<open>The state of the captures\<close>

definition live :: "MatchState \<Rightarrow> captures" where
  "live ms = take (level ms) (capture ms)"

fun cap_ok :: "char list \<Rightarrow> nat \<Rightarrow> nat \<times> int \<Rightarrow> bool" where
  "cap_ok src s (i, n) \<longleftrightarrow> i \<le> length src \<and>
     (n = CAP_UNFINISHED \<and> i \<le> s \<or> n = CAP_POSITION \<or> 0 \<le> n \<and> int i + n \<le> int (length src))"

definition ms_ok :: "char list \<Rightarrow> nat \<Rightarrow> MatchState \<Rightarrow> bool" where
  "ms_ok src s ms \<longleftrightarrow> length (capture ms) = LUA_MAXCAPTURES \<and> level ms \<le> LUA_MAXCAPTURES \<and>
     (\<forall>x\<in>set (live ms). cap_ok src s x)"

lemma ms_ok_mono: "ms_ok src s ms \<Longrightarrow> s \<le> s' \<Longrightarrow> ms_ok src s' ms"
proof -
  have "cap_ok src s x \<Longrightarrow> s \<le> s' \<Longrightarrow> cap_ok src s' x" for x by (cases x) auto
  then show "ms_ok src s ms \<Longrightarrow> s \<le> s' \<Longrightarrow> ms_ok src s' ms" unfolding ms_ok_def by blast
qed

lemma length_live [simp]: "ms_ok src s ms \<Longrightarrow> length (live ms) = level ms"
  by (simp add: ms_ok_def live_def)

lemma live_nth: "ms_ok src s ms \<Longrightarrow> i < level ms \<Longrightarrow> live ms ! i = capture ms ! i \<and> i < length (capture ms)"
  by (simp add: ms_ok_def live_def)

lemma cap_at_live: "ms_ok src s ms \<Longrightarrow> i < level ms \<Longrightarrow> cap_at ms i = rreturn (live ms ! i)"
  using live_nth [of src s ms i] by (simp add: cap_at_def)

text \<open>
  The outcome of a search whose possible ends and captures are \<open>R\<close>: never a read out of bounds; at an end
  inside the subject, one of those that are possible; without a result only if there is none, and
  then with the captures of the start.
\<close>

definition outcome :: "char list \<Rightarrow> nat \<Rightarrow> MatchState \<Rightarrow> (captures \<Rightarrow> nat \<Rightarrow> bool) \<Rightarrow> match_res \<Rightarrow> bool" where
  "outcome src s ms R r =
     (case r of
        None \<Rightarrow> False
      | Some (Inl e) \<Rightarrow> True
      | Some (Inr (None, ms')) \<Rightarrow> length (capture ms') = LUA_MAXCAPTURES \<and> level ms' = level ms \<and> live ms' = live ms \<and>
          (\<forall>c e. \<not> R c e)
      | Some (Inr (Some e, ms')) \<Rightarrow> s \<le> e \<and> e \<le> length src \<and> ms_ok src e ms' \<and> R (live ms') e)"

lemma outcome_simps [simp]:
  "outcome src s ms R (luaL_error msg)" "outcome src s ms R (Some (Inl e))" "\<not> outcome src s ms R None"
  "outcome src s ms R (rreturn (None, ms')) \<longleftrightarrow> length (capture ms') = LUA_MAXCAPTURES \<and> level ms' = level ms \<and>
     live ms' = live ms \<and> (\<forall>c e. \<not> R c e)"
  "outcome src s ms R (rreturn (Some e', ms')) \<longleftrightarrow> s \<le> e' \<and> e' \<le> length src \<and> ms_ok src e' ms' \<and> R (live ms') e'"
  by (simp_all add: outcome_def luaL_error_def rreturn_def)

lemma outcome_cases:
  assumes "outcome src s ms R r"
  obtains (err) e where "r = Some (Inl e)"
  | (no) ms' where "r = rreturn (None, ms')" "length (capture ms') = LUA_MAXCAPTURES" "level ms' = level ms" "live ms' = live ms"
      "\<And>c e. \<not> R c e"
  | (yes) e ms' where "r = rreturn (Some e, ms')" "s \<le> e" "e \<le> length src" "ms_ok src e ms'" "R (live ms') e"
  using assms by (auto simp: outcome_def rreturn_def split: option.splits sum.splits prod.splits)

lemma ms_ok_same: "ms_ok src s ms \<Longrightarrow> length (capture ms') = LUA_MAXCAPTURES \<Longrightarrow> level ms' = level ms \<Longrightarrow> live ms' = live ms \<Longrightarrow> ms_ok src s ms'"
  by (simp add: ms_ok_def)

lemma outcome_start:
  "outcome src s' ms' R r \<Longrightarrow> s \<le> s' \<Longrightarrow> level ms' = level ms \<Longrightarrow> live ms' = live ms \<Longrightarrow> outcome src s ms R r"
  by (auto simp: outcome_def split: option.splits sum.splits)

lemma outcome_iff: "outcome src s ms R r \<Longrightarrow> (\<And>c e. R c e \<longleftrightarrow> Q c e) \<Longrightarrow> outcome src s ms Q r"
  by (auto simp: outcome_def split: option.splits sum.splits)

text \<open>A continuation that behaves so from every position with every captures.\<close>

definition cont_ok :: "char list \<Rightarrow> (MatchState \<Rightarrow> nat \<Rightarrow> match_res) \<Rightarrow> (captures \<Rightarrow> nat \<Rightarrow> captures \<Rightarrow> nat \<Rightarrow> bool) \<Rightarrow> bool" where
  "cont_ok src m R \<longleftrightarrow> (\<forall>ms s. s \<le> length src \<and> ms_ok src s ms \<longrightarrow> outcome src s ms (R (live ms) s) (m ms s))"

lemma cont_okD: "cont_ok src m R \<Longrightarrow> s \<le> length src \<Longrightarrow> ms_ok src s ms \<Longrightarrow> outcome src s ms (R (live ms) s) (m ms s)"
  by (simp add: cont_ok_def)

section \<open>Repetitions\<close>

lemma max_try_ok:
  assumes "cont_ok src m R" "s + i \<le> length src" "ms_ok src s ms"
  shows "outcome src s ms (\<lambda>c e. \<exists>n\<le>i. R (live ms) (s + n) c e) (max_try m ms s i)"
  using assms(2,3)
proof (induction i arbitrary: ms)
  case 0
  from cont_okD [OF assms(1), of s ms] 0 show ?case
    by (cases rule: outcome_cases) (auto simp: max_try.simps)
next
  case (Suc i)
  have "ms_ok src (s + Suc i) ms" using ms_ok_mono Suc.prems(2) by simp
  from cont_okD [OF assms(1) Suc.prems(1) this] show ?case
  proof (cases rule: outcome_cases)
    case (err e)
    then show ?thesis by (subst max_try.simps) simp
  next
    case (no ms')
    have "outcome src s ms' (\<lambda>c e. \<exists>n\<le>i. R (live ms') (s + n) c e) (max_try m ms' s i)"
      using Suc.prems no by (intro Suc.IH) (auto intro: ms_ok_same)
    then have "outcome src s ms (\<lambda>c e. \<exists>n\<le>i. R (live ms) (s + n) c e) (max_try m ms' s i)"
      using no outcome_start [of src s ms'] by simp
    then have "outcome src s ms (\<lambda>c e. \<exists>n\<le>Suc i. R (live ms) (s + n) c e) (max_try m ms' s i)"
      by (rule outcome_iff) (use no(5) in \<open>auto simp: le_Suc_eq\<close>)
    then show ?thesis using no by (subst max_try.simps) simp
  next
    case (yes e ms')
    then show ?thesis by (subst max_try.simps) (auto intro!: exI [of _ "Suc i"])
  qed
qed

lemma expand_count_ok:
  assumes "classend pat p = Some (Inr ep)" "pch pat p \<noteq> NUL" "s + i \<le> length src"
  shows "\<exists>n. expand_count src pat s p ep i = rreturn n \<and> i \<le> n \<and> s + n \<le> length src \<and>
    (\<forall>j. i \<le> j \<and> j < n \<longrightarrow> single pat (src ! (s + j)) p ep) \<and>
    (s + n < length src \<longrightarrow> \<not> single pat (src ! (s + n)) p ep)"
  using assms(3)
proof (induction "length src - (s + i)" arbitrary: i rule: less_induct)
  case less
  show ?case
  proof (cases "s + i < length src \<and> single pat (src ! (s + i)) p ep")
    case True
    then have "length src - (s + (i + 1)) < length src - (s + i)" "s + (i + 1) \<le> length src" by arith+
    from less(1) [OF this] obtain n where n: "expand_count src pat s p ep (i + 1) = rreturn n" "i + 1 \<le> n" "s + n \<le> length src"
      "\<forall>j. i + 1 \<le> j \<and> j < n \<longrightarrow> single pat (src ! (s + j)) p ep" "s + n < length src \<longrightarrow> \<not> single pat (src ! (s + n)) p ep"
      by (elim exE conjE)
    have "\<forall>j. i \<le> j \<and> j < n \<longrightarrow> single pat (src ! (s + j)) p ep"
      using n(4) True by (metis Suc_eq_plus1 Suc_leI le_neq_implies_less)
    then show ?thesis using n True singlematch_single [OF assms(1,2), of "src ! (s + i)"]
      by (subst expand_count.simps) (intro exI [of _ n], simp)
  next
    case False
    then show ?thesis using less(2) singlematch_single [OF assms(1,2), of "src ! (s + i)"]
      by (subst expand_count.simps) (intro exI [of _ i], auto)
  qed
qed


lemma max_expand_ok:
  assumes "cont_ok src m R" "classend pat p = Some (Inr ep)" "pch pat p \<noteq> NUL" "s \<le> length src" "ms_ok src s ms"
  shows "outcome src s ms
    (\<lambda>c e. \<exists>n. s + n \<le> length src \<and> (\<forall>i<n. single pat (src ! (s + i)) p ep) \<and> R (live ms) (s + n) c e)
    (max_expand m src pat ms s p ep)"
proof -
  obtain n where n: "expand_count src pat s p ep 0 = rreturn n" "s + n \<le> length src"
    "\<forall>j<n. single pat (src ! (s + j)) p ep" "s + n < length src \<longrightarrow> \<not> single pat (src ! (s + n)) p ep"
    using expand_count_ok [OF assms(2,3), of s 0 src] assms(4) by auto
  have le: "k \<le> n" if "s + k \<le> length src" "\<forall>i<k. single pat (src ! (s + i)) p ep" for k
    using n(4) that by (metis add_less_cancel_left leI order_less_le_trans)
  show ?thesis
    unfolding max_expand_def n(1) rbind_simps
    by (rule outcome_iff [OF max_try_ok [OF assms(1) n(2) assms(5)]])
      (use n(2,3) le in \<open>meson add_left_mono le_trans order_less_le_trans\<close>)
qed

lemma ex_shift: "\<not> Q 0 \<Longrightarrow> (\<And>n :: nat. P n \<longleftrightarrow> Q (Suc n)) \<Longrightarrow> (\<exists>n. P n) \<longleftrightarrow> (\<exists>n. Q n)"
  by (metis not0_implies_Suc)

lemma min_expand_ok:
  assumes "cont_ok src m R" "classend pat p = Some (Inr ep)" "pch pat p \<noteq> NUL" "s \<le> length src" "ms_ok src s ms"
  shows "outcome src s ms
    (\<lambda>c e. \<exists>n. s + n \<le> length src \<and> (\<forall>i<n. single pat (src ! (s + i)) p ep) \<and> R (live ms) (s + n) c e)
    (min_expand m src pat ms s p ep)"
  using assms(4,5)
proof (induction "length src - s" arbitrary: s ms rule: less_induct)
  case less
  from cont_okD [OF assms(1) less(2,3)] show ?case
  proof (cases rule: outcome_cases)
    case (err e)
    then show ?thesis by (subst min_expand.simps) simp
  next
    case (yes e ms')
    then show ?thesis by (subst min_expand.simps) (auto intro!: exI [of _ 0])
  next
    case (no ms')
    show ?thesis
    proof (cases "s < length src \<and> single pat (src ! s) p ep")
      case True
      have "outcome src (s + 1) ms' (\<lambda>c e. \<exists>n. s + 1 + n \<le> length src \<and>
          (\<forall>i<n. single pat (src ! (s + 1 + i)) p ep) \<and> R (live ms') (s + 1 + n) c e) (min_expand m src pat ms' (s + 1) p ep)"
        using True less no by (intro less(1)) (auto intro: ms_ok_same ms_ok_mono [of src s])
      then have "outcome src s ms (\<lambda>c e. \<exists>n. s + 1 + n \<le> length src \<and>
          (\<forall>i<n. single pat (src ! (s + 1 + i)) p ep) \<and> R (live ms) (s + 1 + n) c e) (min_expand m src pat ms' (s + 1) p ep)"
        using no outcome_start [of src "s + 1" ms'] by simp
      then have "outcome src s ms (\<lambda>c e. \<exists>n. s + n \<le> length src \<and>
          (\<forall>i<n. single pat (src ! (s + i)) p ep) \<and> R (live ms) (s + n) c e) (min_expand m src pat ms' (s + 1) p ep)"
      proof (rule outcome_iff)
        fix c e
        show "(\<exists>n. s + 1 + n \<le> length src \<and> (\<forall>i<n. single pat (src ! (s + 1 + i)) p ep) \<and> R (live ms) (s + 1 + n) c e) \<longleftrightarrow>
            (\<exists>n. s + n \<le> length src \<and> (\<forall>i<n. single pat (src ! (s + i)) p ep) \<and> R (live ms) (s + n) c e)"
          (is "(\<exists>n. ?L n) \<longleftrightarrow> (\<exists>n. ?R n)")
        proof (rule ex_shift)
          show "\<not> ?R 0" using no(5) by simp
          show "?L n \<longleftrightarrow> ?R (Suc n)" for n
            using True by (auto simp: less_Suc_eq_0_disj)
        qed
      qed
      then show ?thesis using no True singlematch_single [OF assms(2,3), of "src ! s"]
        by (subst min_expand.simps) simp
    next
      case False
      have "n = 0" if "s + n \<le> length src" "\<forall>i<n. single pat (src ! (s + i)) p ep" for n
        using that False by (cases n) auto
      then have none: "\<not> (\<exists>n. s + n \<le> length src \<and> (\<forall>i<n. single pat (src ! (s + i)) p ep) \<and> R (live ms) (s + n) c e)" for c e
        using no(5) [of c e] by (metis add_0_right)
      have "min_expand m src pat ms s p ep = rreturn (None, ms')"
        using no(1) False singlematch_single [OF assms(2,3), of "src ! s"] by (subst min_expand.simps) simp
      then show ?thesis using no none by simp
    qed
  qed
qed

section \<open>Captures\<close>

lemma start_capture_ok:
  assumes "cont_ok src m R" "s \<le> length src" "ms_ok src s ms" "w = CAP_POSITION \<or> w = CAP_UNFINISHED"
  shows "outcome src s ms (R (live ms @ [(s, w)]) s) (start_capture m ms s w)"
proof (cases "level ms \<ge> LUA_MAXCAPTURES")
  case True
  then show ?thesis by (simp add: start_capture_def)
next
  case False
  let ?ms = "ms\<lparr>capture := (capture ms)[level ms := (s, w)], level := level ms + 1\<rparr>"
  have l: "level ms < length (capture ms)" using False assms(3) by (simp add: ms_ok_def)
  have live: "live ?ms = live ms @ [(s, w)]"
    using l by (simp add: live_def take_Suc_conv_app_nth)
  have ok: "ms_ok src s ?ms"
    using assms(2,3,4) False live by (auto simp: ms_ok_def)
  have c: "cap_at ms (level ms) = rreturn (capture ms ! level ms)" using l by (simp add: cap_at_def)
  from cont_okD [OF assms(1,2) ok] show ?thesis
  proof (cases rule: outcome_cases)
    case (no ms')
    have "live (ms'\<lparr>level := level ms' - 1\<rparr>) = take (level ms) (live ms')"
      using no(3) by (simp add: live_def min_def)
    also have "\<dots> = live ms" using no(4) live assms(3) by simp
    finally show ?thesis using no False c live by (simp add: start_capture_def)
  qed (use False c live in \<open>simp_all add: start_capture_def\<close>)
qed

lemma close_loop_cases:
  assumes "ms_ok src s ms" "n \<le> level ms"
  shows "(\<exists>l<n. close_loop ms n = rreturn l \<and> snd (live ms ! l) = CAP_UNFINISHED \<and>
      (\<forall>j. l < j \<and> j < n \<longrightarrow> snd (live ms ! j) \<noteq> CAP_UNFINISHED)) \<or>
    (\<exists>msg. close_loop ms n = luaL_error msg)"
  using assms(2)
proof (induction n)
  case (Suc n)
  have c: "cap_at ms n = rreturn (live ms ! n)" using cap_at_live [OF assms(1)] Suc.prems by simp
  show ?case
  proof (cases "snd (live ms ! n) = CAP_UNFINISHED")
    case True
    then show ?thesis using c by (intro disjI1 exI [of _ n]) simp
  next
    case False
    then have e: "close_loop ms (Suc n) = close_loop ms n" using c by simp
    from Suc show ?thesis unfolding e using False by (auto simp: less_Suc_eq)
  qed
qed auto


definition closes_at :: "captures \<Rightarrow> nat \<Rightarrow> bool" where
  "closes_at c l \<longleftrightarrow> l < length c \<and> snd (c ! l) = CAP_UNFINISHED \<and>
     (\<forall>j. l < j \<and> j < length c \<longrightarrow> snd (c ! j) \<noteq> CAP_UNFINISHED)"

lemma closes_at_unique: "closes_at c l \<Longrightarrow> closes_at c k \<Longrightarrow> k = l"
  unfolding closes_at_def by (metis linorder_neqE_nat)

lemma end_capture_ok:
  assumes "cont_ok src m R" "s \<le> length src" "ms_ok src s ms"
  shows "outcome src s ms
    (\<lambda>c e. \<exists>l. closes_at (live ms) l \<and> R ((live ms)[l := (fst (live ms ! l), int s - int (fst (live ms ! l)))]) s c e)
    (end_capture m ms s)"
  using close_loop_cases [OF assms(3) order_refl]
proof (elim disjE exE conjE)
  fix msg assume "close_loop ms (level ms) = luaL_error msg"
  then show ?thesis by (simp add: end_capture_def capture_to_close_def)
next
  fix l
  assume l: "l < level ms" "close_loop ms (level ms) = rreturn l" "snd (live ms ! l) = CAP_UNFINISHED"
    "\<forall>j. l < j \<and> j < level ms \<longrightarrow> snd (live ms ! j) \<noteq> CAP_UNFINISHED"
  have at: "closes_at (live ms) l" using l assms(3) by (simp add: closes_at_def)
  let ?i = "fst (live ms ! l)"
  let ?ms = "ms\<lparr>capture := (capture ms)[l := (?i, int s - int ?i)]\<rparr>"
  have len: "l < length (live ms)" using l(1) assms(3) by simp
  have live: "live ?ms = (live ms)[l := (?i, int s - int ?i)]" by (simp add: live_def take_update_swap)
  have "cap_ok src s (live ms ! l)" using assms(3) nth_mem [OF len] by (auto simp: ms_ok_def)
  then have i: "?i \<le> s" using l(3) by (cases "live ms ! l") (auto simp: CAP_UNFINISHED_def CAP_POSITION_def)
  have "cap_ok src s x" if "x \<in> set (live ?ms)" for x
  proof -
    have "x \<in> insert (?i, int s - int ?i) (set (live ms))" using that set_update_subset_insert unfolding live by fastforce
    then show ?thesis using i assms(2,3) by (auto simp: ms_ok_def)
  qed
  then have ok: "ms_ok src s ?ms" using assms(3) by (simp add: ms_ok_def)
  have c: "cap_at ms l = rreturn (live ms ! l)" by (rule cap_at_live [OF assms(3) l(1)])
  have run: "end_capture m ms s = rbind (m ?ms s) (\<lambda>(r, ms1).
       case r of
         Some e \<Rightarrow> rreturn (Some e, ms1)
       | None \<Rightarrow> rbind (cap_at ms1 l) (\<lambda>c1.
           rreturn (None, ms1\<lparr>capture := (capture ms1)[l := (fst c1, CAP_UNFINISHED)]\<rparr>)))"
    by (simp add: end_capture_def capture_to_close_def l(2) c)
  have iff: "(\<exists>k. closes_at (live ms) k \<and> R ((live ms)[k := (fst (live ms ! k), int s - int (fst (live ms ! k)))]) s c e)
      \<longleftrightarrow> R (live ?ms) s c e" for c e
    using at closes_at_unique [OF at] unfolding live by blast
  from cont_okD [OF assms(1,2) ok] show ?thesis
    unfolding iff
  proof (cases rule: outcome_cases)
    case (no ms')
    have c1: "cap_at ms' l = rreturn (?i, int s - int ?i)"
    proof -
      have "ms_ok src s ms'" using ms_ok_same [OF ok no(2-4)] .
      from cap_at_live [OF this, of l] show ?thesis using no(3,4) l(1) len unfolding live by simp
    qed
    have "live (ms'\<lparr>capture := (capture ms')[l := (?i, CAP_UNFINISHED)]\<rparr>) = (live ms')[l := (?i, CAP_UNFINISHED)]"
      by (simp add: live_def take_update_swap)
    also have "\<dots> = (live ms)[l := (?i, CAP_UNFINISHED)]" using no(4) unfolding live by simp
    also have "\<dots> = live ms" using l(3) by (metis list_update_id prod.collapse)
    finally show "outcome src s ms (R (live ?ms) s) (end_capture m ms s)"
      using no run c1 by simp
  qed (simp_all add: run)
qed

section \<open>Balanced parts and back references\<close>

lemma balance_loop_iff:
  "0 < cont \<Longrightarrow> balance_loop b e cs s cont = Some s1 \<longleftrightarrow>
     (\<exists>k. 0 < k \<and> k \<le> length cs \<and> s1 = s + k \<and> nesting b e (take k cs) - 1 + cont = 0 \<and>
       (\<forall>j<k. nesting b e (take j cs) - 1 + cont > 0))"
proof (induction cs arbitrary: s cont)
  case (Cons c cs)
  define w where "w = (if c = e then - 1 else if c = b then 1 else 0 :: int)"
  have nest: "nesting b e (take (Suc k) (c # cs)) - 1 + cont = nesting b e (take k cs) - 1 + (cont + w)" for k
    by (simp add: w_def)
  have w: "0 \<le> cont + w" using Cons.prems by (simp add: w_def)
  show ?case
  proof (cases "cont + w = 0")
    case True
    then have r: "balance_loop b e (c # cs) s cont = Some (s + 1)" using Cons.prems by (auto simp: w_def split: if_splits)
    show ?thesis
    proof
      assume "balance_loop b e (c # cs) s cont = Some s1"
      then show "\<exists>k. 0 < k \<and> k \<le> length (c # cs) \<and> s1 = s + k \<and> nesting b e (take k (c # cs)) - 1 + cont = 0 \<and>
          (\<forall>j<k. nesting b e (take j (c # cs)) - 1 + cont > 0)"
        using r True nest [of 0] Cons.prems by (intro exI [of _ 1]) simp
    next
      assume "\<exists>k. 0 < k \<and> k \<le> length (c # cs) \<and> s1 = s + k \<and> nesting b e (take k (c # cs)) - 1 + cont = 0 \<and>
          (\<forall>j<k. nesting b e (take j (c # cs)) - 1 + cont > 0)"
      then obtain k where k: "0 < k" "s1 = s + k" "\<forall>j<k. nesting b e (take j (c # cs)) - 1 + cont > 0" by blast
      have "\<not> 1 < k" using k(3) nest [of 0] True by (metis One_nat_def nesting.simps(1) diff_self add_0 take_0 less_irrefl)
      then show "balance_loop b e (c # cs) s cont = Some s1" using r k(1,2) by simp
    qed
  next
    case False
    then have r: "balance_loop b e (c # cs) s cont = balance_loop b e cs (s + 1) (cont + w)"
      using Cons.prems by (auto simp: w_def)
    have "(\<exists>k. 0 < k \<and> k \<le> length cs \<and> s1 = s + 1 + k \<and> nesting b e (take k cs) - 1 + (cont + w) = 0 \<and>
       (\<forall>j<k. nesting b e (take j cs) - 1 + (cont + w) > 0)) \<longleftrightarrow>
       (\<exists>k. 0 < k \<and> k \<le> length (c # cs) \<and> s1 = s + k \<and> nesting b e (take k (c # cs)) - 1 + cont = 0 \<and>
       (\<forall>j<k. nesting b e (take j (c # cs)) - 1 + cont > 0))"
    proof (rule ex_shift)
      fix k
      have all: "(\<forall>j<Suc k. nesting b e (take j (c # cs)) - 1 + cont > 0) \<longleftrightarrow>
          (\<forall>j<k. nesting b e (take j cs) - 1 + (cont + w) > 0)"
        using Cons.prems nest unfolding less_Suc_eq_0_disj by auto
      show "(0 < k \<and> k \<le> length cs \<and> s1 = s + 1 + k \<and> nesting b e (take k cs) - 1 + (cont + w) = 0 \<and>
          (\<forall>j<k. nesting b e (take j cs) - 1 + (cont + w) > 0)) \<longleftrightarrow>
        (0 < Suc k \<and> Suc k \<le> length (c # cs) \<and> s1 = s + Suc k \<and> nesting b e (take (Suc k) (c # cs)) - 1 + cont = 0 \<and>
          (\<forall>j<Suc k. nesting b e (take j (c # cs)) - 1 + cont > 0))"
        unfolding all nest using False by (cases k) auto
    qed simp
    then show ?thesis unfolding r using Cons.IH [of "cont + w" "s + 1"] w False by auto
  qed
qed auto


lemma matchbalance_ok:
  assumes "p \<le> length pat" "s \<le> length src"
  shows "(\<exists>msg. matchbalance src pat s p = luaL_error msg) \<or>
    (p + 2 \<le> length pat \<and> (\<exists>r. matchbalance src pat s p = rreturn r \<and>
       (\<forall>s1. r = Some s1 \<longleftrightarrow> balanced (pch pat p) (pch pat (p + 1)) src s s1)))"
proof (cases "pch pat p = NUL \<or> pch pat (p + 1) = NUL")
  case True
  then show ?thesis
  proof (cases "pch pat p = NUL")
    case False
    then show ?thesis using True assms pch_in [of pat p] by (auto simp: matchbalance_def cread_ok)
  qed (use assms in \<open>auto simp: matchbalance_def cread_ok\<close>)
next
  case False
  let ?b = "pch pat p" and ?e = "pch pat (p + 1)"
  have p: "p + 1 < length pat" using False pch_in by blast
  have run: "matchbalance src pat s p =
      rreturn (if pch src s \<noteq> ?b then None else balance_loop ?b ?e (drop (s + 1) src) (s + 1) 1)"
    using False p assms(2) by (auto simp: matchbalance_def cread_ok)
  have "(if pch src s \<noteq> ?b then None else balance_loop ?b ?e (drop (s + 1) src) (s + 1) 1) = Some s1
      \<longleftrightarrow> balanced ?b ?e src s s1" for s1
  proof (cases "pch src s = ?b")
    case True
    then have s: "s < length src" using False pch_in [of src s] by simp
    then have c: "src ! s = ?b" using True by (simp add: pch_def)
    have "balance_loop ?b ?e (drop (s + 1) src) (s + 1) 1 = Some s1 \<longleftrightarrow>
        (\<exists>k. 0 < k \<and> k \<le> length (drop (s + 1) src) \<and> s1 = s + 1 + k \<and> nesting ?b ?e (take k (drop (s + 1) src)) = 0 \<and>
          (\<forall>j<k. nesting ?b ?e (take j (drop (s + 1) src)) > 0))" (is "_ \<longleftrightarrow> (\<exists>k. ?P k)")
      using balance_loop_iff [of 1 ?b ?e "drop (s + 1) src" "s + 1" s1] by simp
    also have "\<dots> \<longleftrightarrow> balanced ?b ?e src s s1"
    proof
      assume "\<exists>k. ?P k"
      then show "balanced ?b ?e src s s1" using s c unfolding balanced_def by (auto simp: le_diff_conv2)
    next
      assume b: "balanced ?b ?e src s s1"
      then have "?P (s1 - (s + 1))" unfolding balanced_def by (simp add: diff_le_mono)
      then show "\<exists>k. ?P k" by (rule exI)
    qed
    finally show ?thesis using True by simp
  next
    case neq: False
    then have "s < length src \<longrightarrow> src ! s \<noteq> ?b" by (auto simp: pch_def [of src])
    then show ?thesis using neq by (auto simp: balanced_def)
  qed
  then have "\<forall>s1. (if pch src s \<noteq> ?b then None else balance_loop ?b ?e (drop (s + 1) src) (s + 1) 1) = Some s1
      \<longleftrightarrow> balanced ?b ?e src s s1" by (rule allI)
  moreover have "p + 2 \<le> length pat" using p by simp
  ultimately show ?thesis using run by blast
qed

lemma balanced_range: "balanced b e src s s1 \<Longrightarrow> s \<le> s1 \<and> s1 \<le> length src"
  by (simp add: balanced_def)

text \<open>The subject is a Lua string, whose length is bounded by \<^verbatim>\<open>luaS_newlstr\<close>.\<close>

definition lua_string :: "char list \<Rightarrow> bool" where
  "lua_string x \<longleftrightarrow> int (length x) + 1 \<le> MAX_SIZET - 16"

definition refers :: "char list \<Rightarrow> captures \<Rightarrow> nat \<Rightarrow> char \<Rightarrow> nat \<Rightarrow> bool" where
  "refers src c s d s1 \<longleftrightarrow> (\<exists>l i n. uchar d - uchar (CHR ''1'') = int l \<and> l < length c \<and> c ! l = (i, int n) \<and>
     s1 = s + n \<and> s1 \<le> length src \<and> take n (drop i src) = take n (drop s src))"

lemma match_capture_ok:
  assumes "ms_ok src s ms" "s \<le> length src" "lua_string src"
  shows "(\<exists>msg. match_capture src ms s d = luaL_error msg) \<or>
    (\<exists>r. match_capture src ms s d = rreturn r \<and> (\<forall>s1. r = Some s1 \<longleftrightarrow> refers src (live ms) s d s1))"
proof (cases "check_capture ms d")
  case None
  then show ?thesis
    using cap_at_live [OF assms(1), of "nat (uchar d - uchar (CHR ''1''))"]
    by (auto simp: check_capture_def Let_def luaL_error_def rreturn_def nat_less_iff split: if_splits)
next
  case (Some x)
  show ?thesis
  proof (cases x)
    case (Inl e)
    then have "\<exists>msg. check_capture ms d = luaL_error msg"
      using Some cap_at_live [OF assms(1), of "nat (uchar d - uchar (CHR ''1''))"]
      by (auto simp: check_capture_def Let_def luaL_error_def rreturn_def nat_less_iff split: if_splits)
    then show ?thesis by (auto simp: match_capture_def)
  next
    case (Inr l)
    have d: "uchar d - uchar (CHR ''1'') = int l" "l < level ms" "snd (live ms ! l) \<noteq> CAP_UNFINISHED"
      using Some Inr cap_at_live [OF assms(1), of "nat (uchar d - uchar (CHR ''1''))"]
      by (auto simp: check_capture_def Let_def luaL_error_def rreturn_def nat_less_iff split: if_splits)
    obtain i n where c: "live ms ! l = (i, n)" by fastforce
    have len: "l < length (live ms)" using d(2) assms(1) by simp
    have ok: "cap_ok src s (i, n)" using assms(1) nth_mem [OF len] c by (auto simp: ms_ok_def)
    have run: "match_capture src ms s d =
      (let len = nat (n mod 2 ^ 32)
       in if length src - s \<ge> len
          then if i + len \<le> length src
               then rreturn (if take len (drop i src) = take len (drop s src) then Some (s + len) else None)
               else None
          else rreturn None)"
      unfolding match_capture_def Some Inr rbind_simps cap_at_live [OF assms(1) d(2)] c fst_conv snd_conv ..
    have ref: "refers src (live ms) s d s1 \<longleftrightarrow> (0 \<le> n \<and> s1 = s + nat n \<and> s1 \<le> length src \<and>
        take (nat n) (drop i src) = take (nat n) (drop s src))" for s1
      using d(1) len c by (auto simp: refers_def)
    have small: "int (length src) < 2 ^ 32 - 2" using assms(3) by (simp add: lua_string_def MAX_SIZET_def)
    show ?thesis
    proof (cases "n = CAP_POSITION")
      case True
      then have "nat (n mod 2 ^ 32) = 4294967294" by (simp add: CAP_POSITION_def)
      moreover have "\<not> 4294967294 \<le> length src - s" using small by simp
      ultimately have "match_capture src ms s d = rreturn None" using run by simp
      then show ?thesis using ref True by (simp add: CAP_POSITION_def)
    next
      case False
      then have n: "0 \<le> n" "int i + n \<le> int (length src)" using ok d(3) c by auto
      then have m: "nat (n mod 2 ^ 32) = nat n" "i + nat n \<le> length src" using small by auto
      show ?thesis using ref n m assms(2) unfolding run Let_def m(1) by (auto simp: le_diff_conv2)
    qed
  qed
qed


section \<open>Inversion of the relation\<close>

lemma matches_end: "pch pat p = NUL \<Longrightarrow> matches src pat c s p c' e \<longleftrightarrow> c' = c \<and> e = s"
  by (subst matches.simps) (auto simp: is_item_def L_ESC_def)

lemma matches_dollar:
  "pch pat p = CHR ''$'' \<Longrightarrow> pch pat (p + 1) = NUL \<Longrightarrow>
     matches src pat c s p c' e \<longleftrightarrow> s = length src \<and> c' = c \<and> e = s"
  by (subst matches.simps) (auto simp: is_item_def L_ESC_def)

lemma matches_position:
  "pch pat p = CHR ''('' \<Longrightarrow> pch pat (p + 1) = CHR '')'' \<Longrightarrow>
     matches src pat c s p c' e \<longleftrightarrow> matches src pat (c @ [(s, CAP_POSITION)]) s (p + 2) c' e"
  by (subst matches.simps) (auto simp: is_item_def L_ESC_def)

lemma matches_opens:
  "pch pat p = CHR ''('' \<Longrightarrow> pch pat (p + 1) \<noteq> CHR '')'' \<Longrightarrow>
     matches src pat c s p c' e \<longleftrightarrow> matches src pat (c @ [(s, CAP_UNFINISHED)]) s (p + 1) c' e"
  by (subst matches.simps) (auto simp: is_item_def L_ESC_def)

lemma matches_closes:
  "pch pat p = CHR '')'' \<Longrightarrow>
     matches src pat c s p c' e \<longleftrightarrow>
       (\<exists>l. closes_at c l \<and> matches src pat (c[l := (fst (c ! l), int s - int (fst (c ! l)))]) s (p + 1) c' e)"
  by (subst matches.simps) (auto simp: is_item_def L_ESC_def closes_at_def)

lemma not_digit [simp]: "\<not> isdigit_C (CHR ''b'')" "\<not> isdigit_C (CHR ''f'')"
  by (simp_all add: isdigit_C_def uchar_def)

lemma matches_balance:
  assumes "pch pat p = L_ESC" "pch pat (p + 1) = CHR ''b''"
  shows "matches src pat c s p c' e \<longleftrightarrow>
    (\<exists>s1. balanced (pch pat (p + 2)) (pch pat (p + 3)) src s s1 \<and> matches src pat c s1 (p + 4) c' e)"
proof
  assume "matches src pat c s p c' e"
  then show "\<exists>s1. balanced (pch pat (p + 2)) (pch pat (p + 3)) src s s1 \<and> matches src pat c s1 (p + 4) c' e"
  proof (cases rule: matches.cases)
    case (balance s1)
    then show ?thesis by (intro exI [of _ s1] conjI)
  qed (use assms in \<open>simp_all add: is_item_def L_ESC_def\<close>)
qed (use assms in \<open>elim exE conjE, rule matches.balance\<close>)

lemma matches_frontier:
  assumes "pch pat p = L_ESC" "pch pat (p + 1) = CHR ''f''"
  shows "matches src pat c s p c' e \<longleftrightarrow>
       (\<exists>ep. pch pat (p + 2) = CHR ''['' \<and> classend pat (p + 2) = Some (Inr ep) \<and>
         \<not> in_class pat (if s = 0 then NUL else src ! (s - 1)) (p + 2) ep \<and> in_class pat (pch src s) (p + 2) ep \<and>
         matches src pat c s ep c' e)"
proof
  assume "matches src pat c s p c' e"
  then show "\<exists>ep. pch pat (p + 2) = CHR ''['' \<and> classend pat (p + 2) = Some (Inr ep) \<and>
         \<not> in_class pat (if s = 0 then NUL else src ! (s - 1)) (p + 2) ep \<and> in_class pat (pch src s) (p + 2) ep \<and>
         matches src pat c s ep c' e"
  proof (cases rule: matches.cases)
    case (frontier ep)
    then show ?thesis by (intro exI [of _ ep] conjI)
  qed (use assms in \<open>simp_all add: is_item_def L_ESC_def\<close>)
qed (use assms in \<open>elim exE conjE, rule matches.frontier\<close>)

lemma matches_backref:
  assumes "pch pat p = L_ESC" "isdigit_C (pch pat (p + 1))"
  shows "matches src pat c s p c' e \<longleftrightarrow>
       (\<exists>s1. refers src c s (pch pat (p + 1)) s1 \<and> matches src pat c s1 (p + 2) c' e)"
proof
  assume "matches src pat c s p c' e"
  then show "\<exists>s1. refers src c s (pch pat (p + 1)) s1 \<and> matches src pat c s1 (p + 2) c' e"
  proof (cases rule: matches.cases)
    case (backref l i n)
    then show ?thesis unfolding refers_def by (intro exI [of _ "s + n"]) blast
  next
    case balance
    then show ?thesis using assms by simp
  next
    case frontier
    then show ?thesis using assms by simp
  qed (use assms in \<open>simp_all add: is_item_def L_ESC_def\<close>)
next
  assume "\<exists>s1. refers src c s (pch pat (p + 1)) s1 \<and> matches src pat c s1 (p + 2) c' e"
  then show "matches src pat c s p c' e"
    unfolding refers_def using assms by (elim exE conjE) (simp only:, rule matches.backref)
qed

lemma matches_item:
  assumes "is_item pat p" "classend pat p = Some (Inr ep)"
  shows "matches src pat c s p c' e \<longleftrightarrow>
       (\<exists>n. s + n \<le> length src \<and> repeats (pch pat ep) n \<and> (\<forall>i<n. single pat (src ! (s + i)) p ep) \<and>
         matches src pat c (s + n) (after pat ep) c' e)"
proof
  assume "matches src pat c s p c' e"
  then show "\<exists>n. s + n \<le> length src \<and> repeats (pch pat ep) n \<and> (\<forall>i<n. single pat (src ! (s + i)) p ep) \<and>
         matches src pat c (s + n) (after pat ep) c' e"
  proof (cases rule: matches.cases)
    case (item ep' n)
    then show ?thesis using assms(2) by (intro exI [of _ n]) simp
  qed (use assms(1) in \<open>simp_all add: is_item_def L_ESC_def\<close>)
qed (use assms in \<open>elim exE conjE, rule matches.item\<close>)

section \<open>Items and the whole match\<close>

lemma outcome_rbind_opt:
  assumes "s \<le> length src" "ms_ok src s ms"
    "r = None \<Longrightarrow> \<forall>c e. \<not> R c e" "\<And>s1. r = Some s1 \<Longrightarrow> s \<le> s1 \<and> outcome src s1 ms R (m ms s1)"
  shows "outcome src s ms R (case r of None \<Rightarrow> rreturn (None, ms) | Some e \<Rightarrow> m ms e)"
  using assms by (cases r) (auto simp: ms_ok_def intro: outcome_start)

lemma match_default_ok:
  assumes "is_item pat p" "s \<le> length src" "ms_ok src s ms"
    and m: "\<And>q. p < q \<Longrightarrow> q \<le> length pat \<Longrightarrow> cont_ok src (\<lambda>ms s. m ms s q) (\<lambda>c s. matches src pat c s q)"
  shows "outcome src s ms (matches src pat (live ms) s p) (match_default m src pat ms s p)"
proof -
  have nz: "pch pat p \<noteq> NUL" using assms(1) by (simp add: is_item_def)
  then have p: "p < length pat" by (rule pch_in)
  obtain r where r: "classend pat p = Some r" "\<forall>ep. r = Inr ep \<longrightarrow> p < ep \<and> ep \<le> length pat"
    using classend_total [of p pat] p nz by auto
  show ?thesis
  proof (cases r)
    case (Inl e)
    then show ?thesis using r(1) by (simp add: match_default_def)
  next
    case (Inr ep)
    have ce: "classend pat p = Some (Inr ep)" and ep: "p < ep" "ep \<le> length pat" using r Inr by auto
    let ?q = "pch pat ep"
    define b where "b \<longleftrightarrow> s < length src \<and> single pat (src ! s) p ep"
    have one: "(if s < length src then singlematch pat (src ! s) p ep else rreturn False) = rreturn b"
      using singlematch_single [OF ce nz] by (simp add: b_def)
    have c1: "cont_ok src (\<lambda>ms s. m ms s (ep + 1)) (\<lambda>c s. matches src pat c s (ep + 1))" if "?q \<noteq> NUL"
      using m [of "ep + 1"] ep(1) pch_in [OF that] by simp
    note inv = matches_item [OF assms(1) ce]
    have run: "match_default m src pat ms s p =
       (if ?q = CHR ''?'' then
         rbind (if b then m ms (s + 1) (ep + 1) else rreturn (None, ms)) (\<lambda>(r, ms1).
           case r of
             Some e \<Rightarrow> rreturn (Some e, ms1)
           | None \<Rightarrow> m ms1 s (ep + 1))
       else if ?q = CHR ''*'' then max_expand (\<lambda>ms s. m ms s (ep + 1)) src pat ms s p ep
       else if ?q = CHR ''+'' then
         (if b then max_expand (\<lambda>ms s. m ms s (ep + 1)) src pat ms (s + 1) p ep else rreturn (None, ms))
       else if ?q = CHR ''-'' then min_expand (\<lambda>ms s. m ms s (ep + 1)) src pat ms s p ep
       else if \<not> b then rreturn (None, ms)
       else m ms (s + 1) ep)"
      unfolding match_default_def ce rbind_simps one cread_ok [OF ep(2)] ..
    have b_none: "n = 0" if "\<not> b" "s + n \<le> length src" "\<forall>i<n. single pat (src ! (s + i)) p ep" for n
      using that by (cases n) (auto simp: b_def)
    have s1: "s + 1 \<le> length src" "ms_ok src (s + 1) ms" if b
      using that ms_ok_mono [OF assms(3)] by (auto simp: b_def)
    consider "?q = CHR ''?''" | "?q = CHR ''*''" | "?q = CHR ''+''" | "?q = CHR ''-''"
      | "?q \<notin> {CHR ''?'', CHR ''*'', CHR ''+'', CHR ''-''}" by auto
    then show ?thesis
    proof cases
      case 1
      have c: "cont_ok src (\<lambda>ms s. m ms s (ep + 1)) (\<lambda>c s. matches src pat c s (ep + 1))" by (rule c1) (simp add: 1)
      have a: "after pat ep = ep + 1" "repeats ?q n \<longleftrightarrow> n \<le> 1" for n using 1 by (simp_all add: after_def repeats_def)
      have zero: "outcome src s ms' (\<lambda>c e. matches src pat (live ms') s (ep + 1) c e) (m ms' s (ep + 1))"
        if "ms_ok src s ms'" for ms'
        using cont_okD [OF c assms(2) that] .
      show ?thesis
      proof (cases b)
        case False
        have "outcome src s ms (matches src pat (live ms) s p) (m ms s (ep + 1))"
        proof (rule outcome_iff [OF zero [OF assms(3)]])
          show "matches src pat (live ms) s (ep + 1) c e \<longleftrightarrow> matches src pat (live ms) s p c e" for c e
            unfolding inv a using b_none [OF False] assms(2) by (metis (no_types, lifting) add_0_right less_nat_zero_code zero_le)
        qed
        then show ?thesis unfolding run using 1 False by simp
      next
        case True
        have P: "matches src pat (live ms) s p c e \<longleftrightarrow>
            matches src pat (live ms) (s + 1) (ep + 1) c e \<or> matches src pat (live ms) s (ep + 1) c e" for c e
          unfolding inv a using True assms(2)
          by (auto simp: b_def le_Suc_eq intro: exI [of _ 0] exI [of _ "Suc 0"])
        from cont_okD [OF c s1 [OF True]] show ?thesis
        proof (cases rule: outcome_cases)
          case (err e)
          then show ?thesis unfolding run using 1 True by simp
        next
          case (yes e ms')
          then show ?thesis unfolding run using 1 True P by simp
        next
          case (no ms')
          have "outcome src s ms' (matches src pat (live ms') s (ep + 1)) (m ms' s (ep + 1))"
            using zero ms_ok_same [OF assms(3) no(2-4)] by blast
          then have "outcome src s ms (matches src pat (live ms) s (ep + 1)) (m ms' s (ep + 1))"
            using no(3,4) outcome_start [of src s ms'] by simp
          then have "outcome src s ms (matches src pat (live ms) s p) (m ms' s (ep + 1))"
            by (rule outcome_iff) (use no(5) P in auto)
          then show ?thesis unfolding run using 1 True no(1) by simp
        qed
      qed
    next
      case 2
      have c: "cont_ok src (\<lambda>ms s. m ms s (ep + 1)) (\<lambda>c s. matches src pat c s (ep + 1))" by (rule c1) (simp add: 2)
      have a: "after pat ep = ep + 1" "repeats ?q n" for n using 2 by (simp_all add: after_def repeats_def)
      have "outcome src s ms (matches src pat (live ms) s p) (max_expand (\<lambda>ms s. m ms s (ep + 1)) src pat ms s p ep)"
        by (rule outcome_iff [OF max_expand_ok [OF c ce nz assms(2,3)]]) (use a in \<open>simp add: inv\<close>)
      then show ?thesis unfolding run using 2 by simp
    next
      case 3
      have c: "cont_ok src (\<lambda>ms s. m ms s (ep + 1)) (\<lambda>c s. matches src pat c s (ep + 1))" by (rule c1) (simp add: 3)
      have a: "after pat ep = ep + 1" "repeats ?q n \<longleftrightarrow> 1 \<le> n" for n using 3 by (simp_all add: after_def repeats_def)
      show ?thesis
      proof (cases b)
        case False
        have "\<not> matches src pat (live ms) s p c e" for c e
          unfolding inv a using b_none [OF False] by fastforce
        then show ?thesis unfolding run using 3 False assms(3) by (simp add: ms_ok_def)
      next
        case True
        have "outcome src s ms (matches src pat (live ms) s p) (max_expand (\<lambda>ms s. m ms s (ep + 1)) src pat ms (s + 1) p ep)"
        proof (rule outcome_iff [OF outcome_start [OF max_expand_ok [OF c ce nz s1 [OF True]] _ refl refl]])
          show "(\<exists>n. s + 1 + n \<le> length src \<and> (\<forall>i<n. single pat (src ! (s + 1 + i)) p ep) \<and>
              matches src pat (live ms) (s + 1 + n) (ep + 1) c e) \<longleftrightarrow> matches src pat (live ms) s p c e" for c e
            unfolding inv a
          proof (rule ex_shift)
            fix n
            show "(s + 1 + n \<le> length src \<and> (\<forall>i<n. single pat (src ! (s + 1 + i)) p ep) \<and>
                matches src pat (live ms) (s + 1 + n) (ep + 1) c e) \<longleftrightarrow>
              (s + Suc n \<le> length src \<and> 1 \<le> Suc n \<and> (\<forall>i<Suc n. single pat (src ! (s + i)) p ep) \<and>
                matches src pat (live ms) (s + Suc n) (ep + 1) c e)"
              using True by (auto simp: b_def less_Suc_eq_0_disj)
          qed simp
        qed simp
        then show ?thesis unfolding run using 3 True by simp
      qed
    next
      case 4
      have c: "cont_ok src (\<lambda>ms s. m ms s (ep + 1)) (\<lambda>c s. matches src pat c s (ep + 1))" by (rule c1) (simp add: 4)
      have a: "after pat ep = ep + 1" "repeats ?q n" for n using 4 by (simp_all add: after_def repeats_def)
      have "outcome src s ms (matches src pat (live ms) s p) (min_expand (\<lambda>ms s. m ms s (ep + 1)) src pat ms s p ep)"
        by (rule outcome_iff [OF min_expand_ok [OF c ce nz assms(2,3)]]) (use a in \<open>simp add: inv\<close>)
      then show ?thesis unfolding run using 4 by simp
    next
      case 5
      have a: "after pat ep = ep" "repeats ?q n \<longleftrightarrow> n = 1" for n using 5 by (simp_all add: after_def repeats_def)
      show ?thesis
      proof (cases b)
        case False
        have "\<not> matches src pat (live ms) s p c e" for c e
          unfolding inv a using b_none [OF False] by fastforce
        then show ?thesis unfolding run using 5 False assms(3) by (simp add: ms_ok_def)
      next
        case True
        have P: "matches src pat (live ms) s p c e \<longleftrightarrow> matches src pat (live ms) (s + 1) ep c e" for c e
          unfolding inv a using True by (auto simp: b_def)
        have "outcome src s ms (matches src pat (live ms) (s + 1) ep) (m ms (s + 1) ep)"
          using outcome_start [OF cont_okD [OF m [OF ep] s1 [OF True]]] by simp
        then have "outcome src s ms (matches src pat (live ms) s p) (m ms (s + 1) ep)"
          by (rule outcome_iff) (simp add: P)
        then show ?thesis unfolding run using 5 True by simp
      qed
    qed
  qed
qed


lemma match_frontier_ok:
  assumes "pch pat p = L_ESC" "pch pat (p + 1) = CHR ''f''" "s \<le> length src" "ms_ok src s ms"
    and m: "\<And>q. p < q \<Longrightarrow> q \<le> length pat \<Longrightarrow> cont_ok src (\<lambda>ms s. m ms s q) (\<lambda>c s. matches src pat c s q)"
  shows "outcome src s ms (matches src pat (live ms) s p) (match_frontier m src pat ms s (p + 2))"
proof -
  have p: "p + 2 \<le> length pat" using pch_in [of pat "p + 1"] assms(2) by simp
  note inv = matches_frontier [OF assms(1,2)]
  show ?thesis
  proof (cases "pch pat (p + 2) = CHR ''[''")
    case False
    then show ?thesis using p by (simp add: match_frontier_def cread_ok)
  next
    case True
    obtain r where r: "classend pat (p + 2) = Some r" "\<forall>ep. r = Inr ep \<longrightarrow> p + 2 < ep \<and> ep \<le> length pat"
      using classend_total [OF p] True by auto
    show ?thesis
    proof (cases r)
      case (Inl e)
      then show ?thesis using r(1) p True by (simp add: match_frontier_def cread_ok)
    next
      case (Inr ep)
      then have ce: "classend pat (p + 2) = Some (Inr ep)" and ep: "p < ep" "ep \<le> length pat" using r by auto
      define prev where "prev = (if s = 0 then NUL else src ! (s - 1))"
      have pr: "(if s = 0 then rreturn NUL else cread src (s - 1)) = rreturn prev"
        using assms(3) by (auto simp: prev_def cread_def)
      have run: "match_frontier m src pat ms s (p + 2) =
          (if in_class pat prev (p + 2) ep then rreturn (None, ms)
           else if \<not> in_class pat (pch src s) (p + 2) ep then rreturn (None, ms) else m ms s ep)"
        unfolding match_frontier_def cread_ok [OF p] rbind_simps True ce pr cread_ok [OF assms(3)]
          matchbracketclass_in [OF ce True]
        by simp
      have P: "matches src pat (live ms) s p c e \<longleftrightarrow>
          \<not> in_class pat prev (p + 2) ep \<and> in_class pat (pch src s) (p + 2) ep \<and> matches src pat (live ms) s ep c e" for c e
        unfolding inv prev_def using True ce by auto
      show ?thesis
      proof (cases "\<not> in_class pat prev (p + 2) ep \<and> in_class pat (pch src s) (p + 2) ep")
        case True
        then show ?thesis unfolding run using outcome_iff [OF cont_okD [OF m [OF ep] assms(3,4)]] P by simp
      next
        case False
        then show ?thesis unfolding run using P assms(4) by (auto simp: ms_ok_def)
      qed
    qed
  qed
qed

lemma match_body_ok:
  assumes "lua_string src" "s \<le> length src" "ms_ok src s ms" "p \<le> length pat"
    and m: "\<And>q. p < q \<Longrightarrow> q \<le> length pat \<Longrightarrow> cont_ok src (\<lambda>ms s. m ms s q) (\<lambda>c s. matches src pat c s q)"
  shows "outcome src s ms (matches src pat (live ms) s p) (match_body m src pat ms s p)"
proof -
  let ?c = "pch pat p" and ?d = "pch pat (p + 1)"
  have d: "cread pat (p + 1) = rreturn ?d" if "?c \<noteq> NUL" using pch_in [OF that] by (simp add: cread_ok)
  have go: "outcome src s1 ms (matches src pat (live ms) s1 q) (m ms s1 q)"
    if "p < q" "q \<le> length pat" "s \<le> s1" "s1 \<le> length src" for q s1
    using cont_okD [OF m [OF that(1,2)] that(4) ms_ok_mono [OF assms(3) that(3)]] .
  have default: "outcome src s ms (matches src pat (live ms) s p) (match_default m src pat ms s p)" if "is_item pat p"
    by (rule match_default_ok [OF that assms(2,3) m])
  note run = match_body_def [of m src pat ms s p, unfolded cread_ok [OF assms(4)] rbind_simps]
  have same: "length (capture ms) = LUA_MAXCAPTURES" using assms(3) by (simp add: ms_ok_def)
  have nodollar: "CHR ''$'' \<noteq> L_ESC" "CHR ''('' \<noteq> L_ESC" "CHR '')'' \<noteq> L_ESC" "NUL \<noteq> L_ESC" by (simp_all add: L_ESC_def)
  consider (position) "?c = CHR ''(''" "?d = CHR '')''" | (opens) "?c = CHR ''(''" "?d \<noteq> CHR '')''" | (closes) "?c = CHR '')''"
    | (bal) "?c = L_ESC" "?d = CHR ''b''" | (front) "?c = L_ESC" "?d = CHR ''f''" | (ref) "?c = L_ESC" "isdigit_C ?d"
    | (fin) "?c = NUL" | (dollar) "?c = CHR ''$''" "?d = NUL" | (it) "is_item pat p"
    by (auto simp: is_item_def)
  then show ?thesis
  proof cases
    case position
    have q: "p < p + 2" "p + 2 \<le> length pat" using pch_in [of pat "p + 1"] position(2) by simp_all
    from start_capture_ok [OF m [OF q] assms(2,3), of CAP_POSITION] show ?thesis
      unfolding run using position d matches_position [OF position] by (simp add: outcome_iff)
  next
    case opens
    have q: "p < p + 1" "p + 1 \<le> length pat" using pch_in [of pat p] opens(1) by simp_all
    from start_capture_ok [OF m [OF q] assms(2,3), of CAP_UNFINISHED] show ?thesis
      unfolding run using opens d matches_opens [OF opens] by (simp add: outcome_iff)
  next
    case closes
    have q: "p < p + 1" "p + 1 \<le> length pat" using pch_in [of pat p] closes by simp_all
    from end_capture_ok [OF m [OF q] assms(2,3)] show ?thesis
      unfolding run using closes matches_closes [OF closes, of src "live ms" s] by (simp add: outcome_iff)
  next
    case bal
    have p2: "p + 2 \<le> length pat" using pch_in [of pat "p + 1"] bal(2) by simp
    have eq: "match_body m src pat ms s p = rbind (matchbalance src pat s (p + 2)) (\<lambda>r.
             case r of None \<Rightarrow> rreturn (None, ms) | Some e \<Rightarrow> m ms e (p + 4))"
      unfolding run using bal d nodollar by (simp add: L_ESC_def)
    from matchbalance_ok [OF p2 assms(2)] show ?thesis
    proof (elim disjE exE conjE)
      fix r assume r: "p + 2 + 2 \<le> length pat" "matchbalance src pat s (p + 2) = rreturn r"
        "\<forall>s1. r = Some s1 \<longleftrightarrow> balanced (pch pat (p + 2)) (pch pat (p + 2 + 1)) src s s1"
      have P: "matches src pat (live ms) s p c e \<longleftrightarrow> (\<exists>s1. r = Some s1 \<and> matches src pat (live ms) s1 (p + 4) c e)" for c e
        using r(3) matches_balance [OF bal] by (simp add: numeral_3_eq_3)
      show ?thesis
      proof (cases r)
        case None
        then show ?thesis using eq r(2) P same by simp
      next
        case (Some s1)
        then have "s \<le> s1" "s1 \<le> length src" using r(3) balanced_range by blast+
        then have "outcome src s ms (matches src pat (live ms) s1 (p + 4)) (m ms s1 (p + 4))"
          using go [of "p + 4" s1] r(1) outcome_start by simp
        then have "outcome src s ms (matches src pat (live ms) s p) (m ms s1 (p + 4))"
          by (rule outcome_iff) (simp add: P Some)
        then show ?thesis using eq r(2) Some by simp
      qed
    qed (simp add: eq)
  next
    case front
    then have "match_body m src pat ms s p = match_frontier m src pat ms s (p + 2)"
      unfolding run using d nodollar by (simp add: L_ESC_def)
    then show ?thesis using match_frontier_ok [OF front assms(2,3) m] by simp
  next
    case ref
    have d0: "?d \<noteq> CHR ''b''" "?d \<noteq> CHR ''f''" using ref(2) not_digit by metis+
    have p2: "p + 2 \<le> length pat" using ref(2) pch_in [of pat "p + 1"] by (cases "?d = NUL") (simp_all add: isdigit_C_def uchar_def)
    have eq: "match_body m src pat ms s p = rbind (match_capture src ms s ?d) (\<lambda>r.
             case r of None \<Rightarrow> rreturn (None, ms) | Some e \<Rightarrow> m ms e (p + 2))"
      unfolding run using ref d d0 nodollar by (simp add: L_ESC_def)
    from match_capture_ok [OF assms(3,2,1), of ?d] show ?thesis
    proof (elim disjE exE conjE)
      fix r assume r: "match_capture src ms s ?d = rreturn r" "\<forall>s1. r = Some s1 \<longleftrightarrow> refers src (live ms) s ?d s1"
      have P: "matches src pat (live ms) s p c e \<longleftrightarrow> (\<exists>s1. r = Some s1 \<and> matches src pat (live ms) s1 (p + 2) c e)" for c e
        using r(2) matches_backref [OF ref] by simp
      show ?thesis
      proof (cases r)
        case None
        then show ?thesis using eq r(1) P same by simp
      next
        case (Some s1)
        then have "s \<le> s1" "s1 \<le> length src" using r(2) by (auto simp: refers_def)
        then have "outcome src s ms (matches src pat (live ms) s1 (p + 2)) (m ms s1 (p + 2))"
          using go [of "p + 2" s1] p2 outcome_start by simp
        then have "outcome src s ms (matches src pat (live ms) s p) (m ms s1 (p + 2))"
          by (rule outcome_iff) (simp add: P Some)
        then show ?thesis using eq r(1) Some by simp
      qed
    qed (simp add: eq)
  next
    case fin
    then show ?thesis unfolding run using nodollar assms(2,3) matches_end [OF fin] by (simp add: L_ESC_def)
  next
    case dollar
    then show ?thesis unfolding run using nodollar d assms(2,3) same matches_dollar [OF dollar] by (auto simp: L_ESC_def)
  next
    case it
    then have "match_body m src pat ms s p = match_default m src pat ms s p"
      unfolding run using d by (auto simp: is_item_def)
    then show ?thesis using default [OF it] by simp
  qed
qed

lemma match_ok:
  assumes "lua_string src" "p \<le> length pat"
  shows "cont_ok src (\<lambda>ms s. match src pat ms s p) (\<lambda>c s. matches src pat c s p)"
  using assms(2)
proof (induction "length pat - p" arbitrary: p rule: less_induct)
  case less
  have m: "cont_ok src (\<lambda>ms s. match src pat ms s q) (\<lambda>c s. matches src pat c s q)" if "p < q" "q \<le> length pat" for q
    using that by (intro less(1)) auto
  have "outcome src s ms (matches src pat (live ms) s p) (match src pat ms s p)"
    if "s \<le> length src" "ms_ok src s ms" for s ms
    unfolding match.simps [of src pat ms s p] by (rule match_body_ok [OF assms(1) that less(2) m])
  then show ?case by (simp add: cont_ok_def)
qed

lemma match_outcome:
  "lua_string src \<Longrightarrow> p \<le> length pat \<Longrightarrow> s \<le> length src \<Longrightarrow> ms_ok src s ms \<Longrightarrow>
     outcome src s ms (matches src pat (live ms) s p) (match src pat ms s p)"
  using cont_okD [OF match_ok] by blast

text \<open>The state in which every match starts.\<close>

definition fresh :: "MatchState \<Rightarrow> bool" where
  "fresh ms \<longleftrightarrow> level ms = 0 \<and> length (capture ms) = LUA_MAXCAPTURES"

lemma fresh_ok: "fresh ms \<Longrightarrow> ms_ok src s ms \<and> live ms = []"
  by (simp add: fresh_def ms_ok_def live_def)

section \<open>Properties\<close>

text \<open>
  C5: Matching any pattern, well-formed or not, against any subject ends and reads only inside the
  pattern, the subject (and their terminators) and the array of captures; a match ends inside the
  subject, not before its start, and every closed capture is a part of the subject; when there is no
  match the captures are those before.
\<close>

theorem match_safe:
  assumes "lua_string src" "p \<le> length pat" "s \<le> length src" "ms_ok src s ms"
  shows "\<exists>r. match src pat ms s p = Some r \<and>
    (\<forall>ms'. r = Inr (None, ms') \<longrightarrow> level ms' = level ms \<and> live ms' = live ms) \<and>
    (\<forall>e ms'. r = Inr (Some e, ms') \<longrightarrow> s \<le> e \<and> e \<le> length src \<and> ms_ok src e ms')"
  using match_outcome [OF assms] by (cases rule: outcome_cases) (auto simp: rreturn_def)

lemma sample_subject: "lua_string ''key = value''" "fresh \<lparr>level = 0, capture = replicate 32 (0, 0)\<rparr>"
  by (simp_all add: lua_string_def MAX_SIZET_def fresh_def LUA_MAXCAPTURES_def)

theorem match_safe_witness:
  "\<exists>r. match ''key = value'' ''(%w+)%s*=[^'' \<lparr>level = 0, capture = replicate 32 (0, 0)\<rparr> 0 0 = Some r"
  using match_safe [where pat = "''(%w+)%s*=[^''", OF sample_subject(1) le0 le0 conjunct1 [OF fresh_ok [OF sample_subject(2)]]]
  by (elim exE conjE) (rule exI)

text \<open>
  C4: The backtracking search is exact: without an error it finds a match from a position if and only if
  the pattern can match there in some way, and the end and the captures it returns are one such way.
\<close>

theorem match_exact:
  assumes "lua_string src" "p \<le> length pat" "s \<le> length src" "ms_ok src s ms"
    and "match src pat ms s p = Some (Inr (r, ms'))"
  shows "case r of Some e \<Rightarrow> matches src pat (live ms) s p (live ms') e
    | None \<Rightarrow> \<not> (\<exists>c e. matches src pat (live ms) s p c e)"
  using match_outcome [OF assms(1-4)] assms(5)
  by (cases rule: outcome_cases) (auto simp: rreturn_def)

lemma sample_run: "match ''aab'' ''a-(a)b'' \<lparr>level = 0, capture = replicate 32 (0, 0)\<rparr> 0 0 =
    Some (Inr (Some 3, \<lparr>level = 1, capture = (1, 1) # replicate 31 (0, 0)\<rparr>))"
  by code_simp

theorem match_exact_witness: "matches ''aab'' ''a-(a)b'' [] 0 0 [(1, 1)] 3"
proof -
  have s: "lua_string ''aab''" by (simp add: lua_string_def MAX_SIZET_def)
  from match_exact [OF s _ _ _ sample_run] fresh_ok [OF sample_subject(2)] show ?thesis
    by (simp add: live_def numeral_eq_Suc)
qed

end
