(* ===== verification/LuaStrlib.thy ===== *)
theory LuaStrlib
  imports LuaMatch LuaChunk
begin

text \<open>
  The functions of the string library (\<^verbatim>\<open>lualib/lstrlib.c\<close>).  Arguments come checked and converted, as
  \<^verbatim>\<open>luaL_checklstring\<close> and its like return them; results are the values pushed.  A number made from an
  integer is kept as that integer.  The text a \<^verbatim>\<open>luaL_Buffer\<close> collects is a list of characters.
\<close>

section \<open>Substrings\<close>

definition str_len :: "char list \<Rightarrow> int" where
  "str_len s = int (length s)"

definition posrelat :: "int \<Rightarrow> nat \<Rightarrow> int" where
  "posrelat pos len =
     (let pos = (if pos < 0 then c_int (pos + (c_int (int len) + 1)) else pos)
      in if pos \<ge> 0 then pos else 0)"

text \<open>\<open>n\<close> bytes from the place \<open>i\<close>, all of them bytes of the string.\<close>

definition slice :: "char list \<Rightarrow> int \<Rightarrow> int \<Rightarrow> char list res" where
  "slice s i n = (if 0 \<le> i \<and> 0 \<le> n \<and> i + n \<le> int (length s) then rreturn (take (nat n) (drop (nat i) s)) else None)"

definition str_sub :: "char list \<Rightarrow> int \<Rightarrow> int \<Rightarrow> char list res" where
  "str_sub s i j =
     (let l = length s;
          start = posrelat i l;
          en = posrelat j l;
          start = (if start < 1 then 1 else start);
          en = (if en > int l then int l else en)
      in if start \<le> en then slice s (start - 1) (en - start + 1) else rreturn [])"

fun reverse_loop :: "char list \<Rightarrow> nat \<Rightarrow> char list" where
  "reverse_loop s 0 = []"
| "reverse_loop s (Suc l) = s ! l # reverse_loop s l"

definition str_reverse :: "char list \<Rightarrow> char list" where
  "str_reverse s = reverse_loop s (length s)"

definition str_lower :: "char list \<Rightarrow> char list" where
  "str_lower s = map tolower_C s"

definition str_upper :: "char list \<Rightarrow> char list" where
  "str_upper s = map toupper_C s"

fun rep_loop :: "char list \<Rightarrow> nat \<Rightarrow> char list" where
  "rep_loop s 0 = []"
| "rep_loop s (Suc n) = s @ rep_loop s n"

definition str_rep :: "char list \<Rightarrow> int \<Rightarrow> char list" where
  "str_rep s n = rep_loop s (nat n)"

text \<open>\<open>room n\<close>: the stack of the caller has space for \<open>n\<close> more values.\<close>

definition luaL_checkstack :: "(int \<Rightarrow> bool) \<Rightarrow> int \<Rightarrow> char list \<Rightarrow> unit res" where
  "luaL_checkstack room n msg = (if room n then rreturn () else luaL_error (''stack overflow ('' @ msg @ '')''))"

fun byte_loop :: "char list \<Rightarrow> int \<Rightarrow> nat \<Rightarrow> nat \<Rightarrow> int list res" where
  "byte_loop s posi i 0 = rreturn []"
| "byte_loop s posi i (Suc n) =
     rbind (if 0 \<le> posi + int i - 1 then cread s (nat (posi + int i - 1)) else None) (\<lambda>c.
     rbind (byte_loop s posi (Suc i) n) (\<lambda>cs. rreturn (uchar c # cs)))"

definition str_byte :: "(int \<Rightarrow> bool) \<Rightarrow> char list \<Rightarrow> int \<Rightarrow> int option \<Rightarrow> int list res" where
  "str_byte room s i j =
     (let l = length s;
          posi = posrelat i l;
          pose = posrelat (case j of None \<Rightarrow> posi | Some j \<Rightarrow> j) l;
          posi = (if posi \<le> 0 then 1 else posi);
          pose = (if pose > int l then int l else pose)
      in if posi > pose then rreturn []
         else (let n = c_int (pose - posi + 1)
               in if c_int (posi + n) \<le> pose then luaL_error ''string slice too long''
                  else rbind (luaL_checkstack room n ''string slice too long'') (\<lambda>_. byte_loop s posi 0 (nat n))))"

text \<open>What \<^verbatim>\<open>lua_getinfo\<close> says of the running function, if there is a stack frame.\<close>

record lua_Debug =
  namewhat :: "char list"
  ar_name :: "char list option"

definition luaL_argerror :: "lua_Debug option \<Rightarrow> nat \<Rightarrow> char list \<Rightarrow> 'a res" where
  "luaL_argerror ar narg extramsg =
     (case ar of
        None \<Rightarrow> luaL_error (''bad argument #'' @ int_text (int narg) @ '' ('' @ extramsg @ '')'')
      | Some d \<Rightarrow>
          (let narg = (if namewhat d = ''method'' then int narg - 1 else int narg)
           in if namewhat d = ''method'' \<and> narg = 0
              then luaL_error (''calling '' @ LUA_QL (case ar_name d of None \<Rightarrow> ''(null)'' | Some x \<Rightarrow> x) @ '' on bad self ('' @ extramsg @ '')'')
              else luaL_error (''bad argument #'' @ int_text narg @ '' to '' @
                     LUA_QL (case ar_name d of None \<Rightarrow> ''?'' | Some x \<Rightarrow> x) @ '' ('' @ extramsg @ '')'')))"

fun char_loop :: "lua_Debug option \<Rightarrow> nat \<Rightarrow> int list \<Rightarrow> char list res" where
  "char_loop ar i [] = rreturn []"
| "char_loop ar i (c # cs) =
     (if c mod 256 \<noteq> c then luaL_argerror ar i ''invalid value''
      else rbind (char_loop ar (Suc i) cs) (\<lambda>r. rreturn (char_of c # r)))"

definition str_char :: "lua_Debug option \<Rightarrow> int list \<Rightarrow> char list res" where
  "str_char ar cs = char_loop ar 1 cs"

text \<open>\<^verbatim>\<open>string.dump\<close>: a Lua function, or \<open>None\<close> for one written in C, which \<^verbatim>\<open>lua_dump\<close> refuses.\<close>

definition lstr_writer :: "char list lua_Writer" where
  "lstr_writer B b = (B @ b, 0)"

definition str_dump :: "lua_Number Proto option \<Rightarrow> char list res" where
  "str_dump f =
     (case f of
        None \<Rightarrow> luaL_error ''unable to dump given function''
      | Some p \<Rightarrow> (let (B, st) = luaU_dump lstr_writer p [] False
                  in if st \<noteq> 0 then luaL_error ''unable to dump given function'' else rreturn B))"

section \<open>Plain search\<close>

text \<open>\<open>memchr\<close> of at most \<open>n\<close> bytes from \<open>a\<close> on; it stops at the byte it looks for, and a read past the string is \<open>None\<close>.\<close>

fun memchr :: "char list \<Rightarrow> char \<Rightarrow> nat \<Rightarrow> nat \<Rightarrow> nat option res" where
  "memchr s c a 0 = rreturn None"
| "memchr s c a (Suc n) =
     (if a < length s then if s ! a = c then rreturn (Some a) else memchr s c (Suc a) n else None)"

text \<open>\<open>memcmp\<close> of \<open>n\<close> bytes at \<open>i\<close> with the pattern after its first byte.\<close>

definition memcmp_eq :: "char list \<Rightarrow> nat \<Rightarrow> char list \<Rightarrow> nat \<Rightarrow> nat \<Rightarrow> bool res" where
  "memcmp_eq x i y j n =
     (if i + n \<le> length x \<and> j + n \<le> length y then rreturn (take n (drop i x) = take n (drop j y)) else None)"

lemma memchr_ge: "memchr s c a n = Some (Inr (Some i)) \<Longrightarrow> a \<le> i \<and> i < a + n"
  by (induction s c a n rule: memchr.induct) (auto simp: rreturn_def split: if_splits)

function find_loop :: "char list \<Rightarrow> char list \<Rightarrow> nat \<Rightarrow> nat \<Rightarrow> nat \<Rightarrow> nat option res" where
  "find_loop src pat s1 l1 l2 =
     (if l1 > 0
      then rbind (cread pat 0) (\<lambda>c. rbind (memchr src c s1 l1) (\<lambda>init.
             case init of
               None \<Rightarrow> rreturn None
             | Some i \<Rightarrow> rbind (memcmp_eq src (i + 1) pat 1 l2) (\<lambda>b.
                 if b then rreturn (Some i)
                 else find_loop src pat (i + 1) (l1 - (i + 1 - s1)) l2)))
      else rreturn None)"
  by pat_completeness auto

termination
  by (relation "measure (\<lambda>(src, pat, s1, l1, l2). l1)") (auto dest: memchr_ge)

declare find_loop.simps [simp del]

definition lmemfind :: "char list \<Rightarrow> nat \<Rightarrow> nat \<Rightarrow> char list \<Rightarrow> nat option res" where
  "lmemfind src s1 l1 pat =
     (if length pat = 0 then rreturn (Some s1)
      else if length pat > l1 then rreturn None
      else find_loop src pat s1 (l1 - (length pat - 1)) (length pat - 1))"

section \<open>Find, match and gmatch\<close>

text \<open>The whole match is \<open>se\<close>, which is missing when only the captures are wanted.\<close>

definition push_onecapture :: "char list \<Rightarrow> MatchState \<Rightarrow> nat \<Rightarrow> (nat \<times> nat) option \<Rightarrow> int TValue res" where
  "push_onecapture src ms i se =
     (if i \<ge> level ms
      then if i = 0
           then (case se of None \<Rightarrow> None
                 | Some (s, e) \<Rightarrow> rbind (slice src (int s) (int e - int s)) (\<lambda>x. rreturn (String x)))
           else luaL_error ''invalid capture index''
      else rbind (cap_at ms i) (\<lambda>c.
        if snd c = CAP_UNFINISHED then luaL_error ''unfinished capture''
        else if snd c = CAP_POSITION then rreturn (Number (int (fst c) + 1))
        else rbind (slice src (int (fst c)) (snd c)) (\<lambda>x. rreturn (String x))))"

fun capture_loop :: "char list \<Rightarrow> MatchState \<Rightarrow> nat \<Rightarrow> nat \<Rightarrow> (nat \<times> nat) option \<Rightarrow> int TValue list res" where
  "capture_loop src ms i 0 se = rreturn []"
| "capture_loop src ms i (Suc n) se =
     rbind (push_onecapture src ms i se) (\<lambda>v. rbind (capture_loop src ms (Suc i) n se) (\<lambda>vs. rreturn (v # vs)))"

definition push_captures :: "(int \<Rightarrow> bool) \<Rightarrow> char list \<Rightarrow> MatchState \<Rightarrow> (nat \<times> nat) option \<Rightarrow> int TValue list res" where
  "push_captures room src ms se =
     (let nlevels = (if level ms = 0 \<and> se \<noteq> None then 1 else level ms)
      in rbind (luaL_checkstack room (int nlevels) ''too many captures'') (\<lambda>_. capture_loop src ms 0 nlevels se))"

text \<open>The search from one position to the next: where the match starts, where it ends, its captures.\<close>

function scan :: "char list \<Rightarrow> char list \<Rightarrow> bool \<Rightarrow> MatchState \<Rightarrow> nat \<Rightarrow> nat \<Rightarrow> (nat \<times> nat \<times> MatchState) option res" where
  "scan src pat anchor ms s1 p =
     rbind (match src pat (ms\<lparr>level := 0\<rparr>) s1 p) (\<lambda>(r, ms1).
       case r of
         Some e \<Rightarrow> rreturn (Some (s1, e, ms1))
       | None \<Rightarrow> if s1 < length src \<and> \<not> anchor then scan src pat anchor ms1 (s1 + 1) p else rreturn None)"
  by pat_completeness auto
termination
  by (relation "measure (\<lambda>(src, pat, anchor, ms, s1, p). length src - s1)") auto

declare scan.simps [simp del]

text \<open>The captures of a state that no match has used.\<close>

definition no_captures :: MatchState where
  "no_captures = \<lparr>level = 0, capture = replicate LUA_MAXCAPTURES (0, 0)\<rparr>"

definition str_find_aux ::
  "(int \<Rightarrow> bool) \<Rightarrow> bool \<Rightarrow> char list \<Rightarrow> char list \<Rightarrow> int \<Rightarrow> bool \<Rightarrow> int TValue list res" where
  "str_find_aux room fnd s p i plain =
     (let init = posrelat i (length s) - 1;
          init = (if init < 0 then 0 else if init > int (length s) then int (length s) else init)
      in if fnd \<and> (plain \<or> (\<forall>c\<in>set (c_str p). c \<notin> set SPECIALS))
         then rbind (lmemfind s (nat init) (length s - nat init) p) (\<lambda>r.
           case r of
             Some s2 \<Rightarrow> rreturn [Number (int s2 + 1), Number (int s2 + int (length p))]
           | None \<Rightarrow> rreturn [Nil_value])
         else rbind (cread p 0) (\<lambda>c.
           rbind (scan s p (c = CHR ''^'') no_captures (nat init) (if c = CHR ''^'' then 1 else 0)) (\<lambda>r.
           case r of
             Some (s1, e, ms) \<Rightarrow>
               if fnd
               then rbind (push_captures room s ms None) (\<lambda>vs. rreturn (Number (int s1 + 1) # Number (int e) # vs))
               else push_captures room s ms (Some (s1, e))
           | None \<Rightarrow> rreturn [Nil_value])))"

definition str_find :: "(int \<Rightarrow> bool) \<Rightarrow> char list \<Rightarrow> char list \<Rightarrow> int \<Rightarrow> bool \<Rightarrow> int TValue list res" where
  "str_find room s p i plain = str_find_aux room True s p i plain"

definition str_match :: "(int \<Rightarrow> bool) \<Rightarrow> char list \<Rightarrow> char list \<Rightarrow> int \<Rightarrow> int TValue list res" where
  "str_match room s p i = str_find_aux room False s p i False"

text \<open>One step of the iterator: the new start position and the captures, or the end.\<close>

definition gmatch_aux :: "(int \<Rightarrow> bool) \<Rightarrow> char list \<Rightarrow> char list \<Rightarrow> nat \<Rightarrow> (nat \<times> int TValue list) option res" where
  "gmatch_aux room s p start =
     (if start \<le> length s
      then rbind (scan s p False no_captures start 0) (\<lambda>r.
        case r of
          None \<Rightarrow> rreturn None
        | Some (src, e, ms) \<Rightarrow>
            rbind (push_captures room s ms (Some (src, e))) (\<lambda>vs.
              rreturn (Some (if e = src then e + 1 else e, vs))))
      else rreturn None)"

text \<open>\<^verbatim>\<open>string.gmatch\<close>: the subject, the pattern and the position the iterator starts with.\<close>

definition gmatch :: "char list \<Rightarrow> char list \<Rightarrow> char list \<times> char list \<times> nat" where
  "gmatch s p = (s, p, 0)"

definition gfind_nodef :: "'a res" where
  "gfind_nodef = luaL_error (LUA_QL ''string.gfind'' @ '' was renamed to '' @ LUA_QL ''string.gmatch'')"


section \<open>Substitution\<close>

text \<open>\<^verbatim>\<open>luaL_addvalue\<close> of a string or of a number.\<close>

definition value_text :: "int TValue \<Rightarrow> char list" where
  "value_text v = (case v of String x \<Rightarrow> x | Number n \<Rightarrow> int_text n | _ \<Rightarrow> [])"

fun add_s :: "char list \<Rightarrow> MatchState \<Rightarrow> nat \<Rightarrow> nat \<Rightarrow> char list \<Rightarrow> char list res" where
  "add_s src ms s e [] = rreturn []"
| "add_s src ms s e (c # cs) =
     (if c \<noteq> L_ESC then rbind (add_s src ms s e cs) (\<lambda>r. rreturn (c # r))
      else (case cs of
        [] \<Rightarrow> rreturn [NUL]
      | d # ds \<Rightarrow>
          if \<not> isdigit_C d then rbind (add_s src ms s e ds) (\<lambda>r. rreturn (d # r))
          else if d = CHR ''0'' then
            rbind (slice src (int s) (int e - int s)) (\<lambda>x. rbind (add_s src ms s e ds) (\<lambda>r. rreturn (x @ r)))
          else
            rbind (push_onecapture src ms (nat (uchar d - uchar (CHR ''1''))) (Some (s, e))) (\<lambda>v.
            rbind (add_s src ms s e ds) (\<lambda>r. rreturn (value_text v @ r)))))"

text \<open>
  The replacement: a template, a function or a table.  Calling the function and indexing the table run
  code of the script, which may raise an error or change the state \<open>'st\<close>; they are parameters.
\<close>

datatype 'st repl =
    Repl_string "char list"
  | Repl_function "int TValue list \<Rightarrow> 'st \<Rightarrow> lua_throw + int TValue \<times> 'st"
  | Repl_table "int TValue \<Rightarrow> 'st \<Rightarrow> lua_throw + int TValue \<times> 'st"

definition luaL_typename :: "'n TValue \<Rightarrow> char list" where
  "luaL_typename v =
     (case v of Nil_value \<Rightarrow> ''nil'' | Boolean b \<Rightarrow> ''boolean'' | LightUserdata p \<Rightarrow> ''userdata'' | Number n \<Rightarrow> ''number''
      | String s \<Rightarrow> ''string'' | Null_string \<Rightarrow> ''string'' | Table a \<Rightarrow> ''table'' | Function a \<Rightarrow> ''function''
      | Userdata a \<Rightarrow> ''userdata'' | Thread a \<Rightarrow> ''thread'')"

definition add_value ::
  "(int \<Rightarrow> bool) \<Rightarrow> char list \<Rightarrow> MatchState \<Rightarrow> 'st repl \<Rightarrow> nat \<Rightarrow> nat \<Rightarrow> 'st \<Rightarrow> (char list \<times> 'st) res" where
  "add_value room src ms repl s e st =
     (let finish = (\<lambda>r. case r of
          Inl err \<Rightarrow> Some (Inl err)
        | Inr (v, st1) \<Rightarrow>
            if l_isfalse v then rbind (slice src (int s) (int e - int s)) (\<lambda>x. rreturn (x, st1))
            else if ttype v = LUA_TSTRING \<or> ttype v = LUA_TNUMBER then rreturn (value_text v, st1)
            else luaL_error (''invalid replacement value (a '' @ luaL_typename v @ '')''))
      in case repl of
           Repl_string news \<Rightarrow> rbind (add_s src ms s e news) (\<lambda>x. rreturn (x, st))
         | Repl_function call \<Rightarrow> rbind (push_captures room src ms (Some (s, e))) (\<lambda>vs. finish (call vs st))
         | Repl_table get \<Rightarrow> rbind (push_onecapture src ms 0 (Some (s, e))) (\<lambda>v. finish (get v st)))"

text \<open>The loop of \<^verbatim>\<open>str_gsub\<close>: what it adds to the buffer, where it stops, the number of substitutions.\<close>

function gsub_loop ::
  "(int \<Rightarrow> bool) \<Rightarrow> char list \<Rightarrow> char list \<Rightarrow> 'st repl \<Rightarrow> int \<Rightarrow> bool \<Rightarrow> MatchState \<Rightarrow> nat \<Rightarrow> nat \<Rightarrow> int \<Rightarrow> 'st
     \<Rightarrow> (char list \<times> nat \<times> int \<times> 'st) res" where
  "gsub_loop room src pat repl max_s anchor ms p s n st =
     (if n < max_s
      then rbind (match src pat (ms\<lparr>level := 0\<rparr>) s p) (\<lambda>(r, ms1).
        rbind (case r of
                 Some e \<Rightarrow> rbind (add_value room src ms1 repl s e st) (\<lambda>(x, st1). rreturn (x, n + 1, st1))
               | None \<Rightarrow> rreturn ([], n, st)) (\<lambda>(x, n1, st1).
        let skip = (case r of Some e \<Rightarrow> e > s | None \<Rightarrow> False)
        in if \<not> skip \<and> \<not> s < length src then rreturn (x, s, n1, st1)
           else let s1 = (if skip then the r else s + 1);
                    y = (if skip then x else x @ [src ! s])
                in if anchor then rreturn (y, s1, n1, st1)
                   else rbind (gsub_loop room src pat repl max_s anchor ms1 p s1 n1 st1) (\<lambda>(z, w). rreturn (y @ z, w))))
      else rreturn ([], s, n, st))"
  by pat_completeness auto

text \<open>Every turn makes a substitution or takes a byte of the subject.\<close>

termination
proof (relation "measures [\<lambda>(room, src, pat, repl, max_s, anchor, ms, p, s, n, st). nat (max_s - n),
    \<lambda>(room, src, pat, repl, max_s, anchor, ms, p, s, n, st). length src - s]", goal_cases)
  case 1
  show ?case by simp
next
  case (2 room src pat repl max_s anchor ms p s n st x r ms1 y x' y' n1 st1)
  then show ?case by (cases r) (auto simp: Let_def)
qed

declare gsub_loop.simps [simp del]

definition str_gsub ::
  "(int \<Rightarrow> bool) \<Rightarrow> char list \<Rightarrow> char list \<Rightarrow> 'st repl \<Rightarrow> int option \<Rightarrow> 'st \<Rightarrow> (char list \<times> int \<times> 'st) res" where
  "str_gsub room src pat repl m st =
     rbind (cread pat 0) (\<lambda>c.
     let max_s = (case m of None \<Rightarrow> c_int (int (length src) + 1) | Some k \<Rightarrow> k);
         anchor = (c = CHR ''^'')
     in rbind (gsub_loop room src pat repl max_s anchor no_captures (if anchor then 1 else 0) 0 0 st) (\<lambda>(x, s, n, st1).
        rbind (slice src (int s) (int (length src) - int s)) (\<lambda>y. rreturn (x @ y, n, st1))))"


section \<open>Formats\<close>

definition MAX_ITEM :: nat where "MAX_ITEM = 512"
definition FLAGS :: "char list" where "FLAGS = ''-+ #0''"
definition LUA_INTFRMLEN :: "char list" where "LUA_INTFRMLEN = ''l''"
definition MAX_FORMAT :: nat where "MAX_FORMAT = (length FLAGS + 1) + (length LUA_INTFRMLEN + 1) + 10"

definition quoted_char :: "char \<Rightarrow> char list" where
  "quoted_char c =
     (if c = CHR 0x22 \<or> c = CHR 0x5C \<or> c = CHR 0x0A then [CHR 0x5C, c]
      else if c = CHR 0x0D then [CHR 0x5C, CHR ''r'']
      else if c = NUL then CHR 0x5C # ''000''
      else [c])"

definition addquoted :: "char list \<Rightarrow> char list" where
  "addquoted s = CHR 0x22 # concat (map quoted_char s) @ [CHR 0x22]"

function skip_flags :: "char list \<Rightarrow> nat \<Rightarrow> nat res" where
  "skip_flags x p = rbind (cread x p) (\<lambda>c. if c \<noteq> NUL \<and> c \<in> set FLAGS then skip_flags x (p + 1) else rreturn p)"
  by pat_completeness auto
termination
  by (relation "measure (\<lambda>(x, p). length x - p)") (auto dest!: cread_in)

declare skip_flags.simps [simp del]

definition skip_digit :: "char list \<Rightarrow> nat \<Rightarrow> nat res" where
  "skip_digit x p = rbind (cread x p) (\<lambda>c. rreturn (if isdigit_C c then p + 1 else p))"

text \<open>
  A buffer of the C stack that holds a text of the given size with its terminator.  \<open>form\<close> has
  \<open>MAX_FORMAT\<close> bytes, \<open>buff\<close> has \<open>MAX_ITEM\<close>.
\<close>

definition buffer :: "nat \<Rightarrow> char list \<Rightarrow> char list res" where
  "buffer cap x = (if length x + 1 \<le> cap then rreturn x else None)"

definition scanformat :: "char list \<Rightarrow> nat \<Rightarrow> (nat \<times> char list) res" where
  "scanformat x strfrmt =
     rbind (skip_flags x strfrmt) (\<lambda>p.
     if p - strfrmt \<ge> length FLAGS + 1 then luaL_error ''invalid format (repeated flags)''
     else
       rbind (skip_digit x p) (\<lambda>p.
       rbind (skip_digit x p) (\<lambda>p.
       rbind (cread x p) (\<lambda>c.
       rbind (if c = CHR ''.'' then rbind (skip_digit x (p + 1)) (\<lambda>p. skip_digit x p) else rreturn p) (\<lambda>p.
       rbind (cread x p) (\<lambda>c.
       if isdigit_C c then luaL_error ''invalid format (width or precision too long)''
       else rbind (buffer MAX_FORMAT (CHR ''%'' # take (p - strfrmt) (drop strfrmt x) @ [c])) (\<lambda>form.
         rreturn (p, form))))))))"

definition addintlen :: "char list \<Rightarrow> char list res" where
  "addintlen form =
     (if form = [] then None else buffer MAX_FORMAT (butlast form @ LUA_INTFRMLEN @ [last form]))"

text \<open>
  \<^verbatim>\<open>sprintf\<close> with one conversion.  Floating-point numbers are the type \<open>'n\<close>; how one is cast to an
  integer and how it is printed is given by the record \<open>double_ops\<close>.
\<close>

record 'n double_ops =
  to_int :: "'n \<Rightarrow> int"
  to_long :: "'n \<Rightarrow> int"
  to_ulong :: "'n \<Rightarrow> int"
  print_double :: "char list \<Rightarrow> 'n \<Rightarrow> char list"

datatype 'n c_arg = C_int int | C_long int | C_ulong int | C_double 'n | C_text "char list"

record conversion =
  cv_flags :: "char list"
  cv_width :: nat
  cv_precision :: "nat option"

definition number_of :: "char list \<Rightarrow> nat" where
  "number_of = foldl (\<lambda>n c. 10 * n + nat (uchar c - uchar (CHR ''0''))) 0"

definition conversion_of :: "char list \<Rightarrow> conversion" where
  "conversion_of form =
     (let x = drop 1 form;
          fl = takeWhile (\<lambda>c. c \<in> set FLAGS) x;
          x = drop (length fl) x;
          w = takeWhile isdigit_C x;
          x = drop (length w) x
      in \<lparr>cv_flags = fl, cv_width = number_of w,
          cv_precision = (case x of c # y \<Rightarrow> if c = CHR ''.'' then Some (number_of (takeWhile isdigit_C y)) else None
                          | [] \<Rightarrow> None)\<rparr>)"

definition pad :: "conversion \<Rightarrow> bool \<Rightarrow> char list \<Rightarrow> char list \<Rightarrow> char list" where
  "pad cv zeros sign bd =
     (let n = cv_width cv - (length sign + length bd)
      in if CHR ''-'' \<in> set (cv_flags cv) then sign @ bd @ replicate n (CHR '' '')
         else if zeros \<and> CHR ''0'' \<in> set (cv_flags cv) then sign @ replicate n (CHR ''0'') @ bd
         else replicate n (CHR '' '') @ sign @ bd)"

definition base_digit :: "bool \<Rightarrow> nat \<Rightarrow> char" where
  "base_digit upper d = (if upper then ''0123456789ABCDEF'' else ''0123456789abcdef'') ! d"

fun base_digits :: "bool \<Rightarrow> nat \<Rightarrow> nat \<Rightarrow> nat \<Rightarrow> char list" where
  "base_digits upper b 0 n = []"
| "base_digits upper b (Suc k) n = (if n = 0 then [] else base_digits upper b k (n div b) @ [base_digit upper (n mod b)])"

text \<open>The digits of a 32-bit magnitude: as many as the precision asks for, which is one if none is given.\<close>

definition magnitude :: "conversion \<Rightarrow> bool \<Rightarrow> nat \<Rightarrow> nat \<Rightarrow> char list" where
  "magnitude cv upper b n =
     (let x = base_digits upper b 32 n
      in replicate ((case cv_precision cv of None \<Rightarrow> 1 | Some k \<Rightarrow> k) - length x) (CHR ''0'') @ x)"

definition sprintf :: "'n double_ops \<Rightarrow> char list \<Rightarrow> 'n c_arg \<Rightarrow> char list" where
  "sprintf ops form a =
     (let cv = conversion_of form;
          conv = last form;
          alt = CHR ''#'' \<in> set (cv_flags cv);
          zeros = (cv_precision cv = None)
      in case a of
           C_int c \<Rightarrow> pad cv True [] [char_of (c mod 256)]
         | C_text s \<Rightarrow> pad cv True [] (case cv_precision cv of None \<Rightarrow> c_str s | Some k \<Rightarrow> take k (c_str s))
         | C_long i \<Rightarrow>
             pad cv zeros (if i < 0 then ''-'' else if CHR ''+'' \<in> set (cv_flags cv) then ''+''
                           else if CHR '' '' \<in> set (cv_flags cv) then '' '' else [])
               (magnitude cv False 10 (nat \<bar>i\<bar>))
         | C_ulong u \<Rightarrow>
             (if conv = CHR ''o'' then
                (let x = magnitude cv False 8 (nat u)
                 in pad cv zeros [] (if alt \<and> (x = [] \<or> hd x \<noteq> CHR ''0'') then CHR ''0'' # x else x))
              else if conv = CHR ''u'' then pad cv zeros [] (magnitude cv False 10 (nat u))
              else pad cv zeros (if alt \<and> u \<noteq> 0 then [CHR ''0'', conv] else [])
                     (magnitude cv (conv = CHR ''X'') 16 (nat u)))
         | C_double d \<Rightarrow> print_double ops form d)"

text \<open>An argument as \<^verbatim>\<open>luaL_checknumber\<close> and \<^verbatim>\<open>luaL_checklstring\<close> see it, with the name of its type.\<close>

record 'n lua_arg =
  as_number :: "'n option"
  as_lstring :: "char list option"
  arg_typename :: "char list"

definition luaL_typerror :: "lua_Debug option \<Rightarrow> nat \<Rightarrow> 'n lua_arg \<Rightarrow> char list \<Rightarrow> 'a res" where
  "luaL_typerror ar narg a tname = luaL_argerror ar narg (tname @ '' expected, got '' @ arg_typename a)"

definition luaL_checknumber :: "lua_Debug option \<Rightarrow> nat \<Rightarrow> 'n lua_arg \<Rightarrow> 'n res" where
  "luaL_checknumber ar narg a = (case as_number a of None \<Rightarrow> luaL_typerror ar narg a ''number'' | Some n \<Rightarrow> rreturn n)"

definition luaL_checklstring :: "lua_Debug option \<Rightarrow> nat \<Rightarrow> 'n lua_arg \<Rightarrow> char list res" where
  "luaL_checklstring ar narg a = (case as_lstring a of None \<Rightarrow> luaL_typerror ar narg a ''string'' | Some s \<Rightarrow> rreturn s)"

text \<open>What one format item adds to the result; \<open>addsize\<close> adds what stands in \<open>buff\<close> before the first NUL.\<close>

definition format_item :: "lua_Debug option \<Rightarrow> 'n double_ops \<Rightarrow> nat \<Rightarrow> 'n lua_arg \<Rightarrow> char list \<Rightarrow> char \<Rightarrow> char list res" where
  "format_item ar ops narg a form c =
     (let addsize = (\<lambda>form v. rbind (buffer MAX_ITEM (sprintf ops form v)) (\<lambda>buff. rreturn (c_str buff)))
      in if c = CHR ''c'' then rbind (luaL_checknumber ar narg a) (\<lambda>n. addsize form (C_int (to_int ops n)))
         else if c \<in> {CHR ''d'', CHR ''i''} then
           rbind (addintlen form) (\<lambda>form. rbind (luaL_checknumber ar narg a) (\<lambda>n. addsize form (C_long (to_long ops n))))
         else if c \<in> {CHR ''o'', CHR ''u'', CHR ''x'', CHR ''X''} then
           rbind (addintlen form) (\<lambda>form. rbind (luaL_checknumber ar narg a) (\<lambda>n. addsize form (C_ulong (to_ulong ops n))))
         else if c \<in> {CHR ''e'', CHR ''E'', CHR ''f'', CHR ''g'', CHR ''G''} then
           rbind (luaL_checknumber ar narg a) (\<lambda>n. addsize form (C_double n))
         else if c = CHR ''q'' then rbind (luaL_checklstring ar narg a) (\<lambda>s. rreturn (addquoted s))
         else if c = CHR ''s'' then
           rbind (luaL_checklstring ar narg a) (\<lambda>s.
             if CHR ''.'' \<notin> set (c_str form) \<and> length s \<ge> 100 then rreturn s else addsize form (C_text s))
         else luaL_error (''invalid option '' @ LUA_QL (CHR ''%'' # c_str [c]) @ '' to '' @ LUA_QL ''format''))"

lemma skip_flags_ge: "skip_flags x p = Some (Inr q) \<Longrightarrow> p \<le> q"
proof (induction x p rule: skip_flags.induct)
  case (1 x p)
  from 1(2) show ?case
    by (subst (asm) skip_flags.simps) (fastforce split: if_splits dest: 1(1))
qed

lemma skip_digit_ge: "skip_digit x p = Some (Inr q) \<Longrightarrow> p \<le> q \<and> q \<le> p + 1"
  by (auto simp: skip_digit_def split: if_splits)

lemma scanformat_ge: "scanformat x p = Some (Inr (q, form)) \<Longrightarrow> p \<le> q"
  unfolding scanformat_def
  by (auto dest!: skip_flags_ge skip_digit_ge split: if_splits)

text \<open>The arguments after the format: the call has \<open>length args + 1\<close> of them, and one past the last is not there to read.\<close>

definition format_arg :: "'n lua_arg list \<Rightarrow> nat \<Rightarrow> 'n lua_arg res" where
  "format_arg args narg = (if 2 \<le> narg \<and> narg \<le> length args + 1 then rreturn (args ! (narg - 2)) else None)"

function format_loop :: "lua_Debug option \<Rightarrow> 'n double_ops \<Rightarrow> 'n lua_arg list \<Rightarrow> char list \<Rightarrow> nat \<Rightarrow> nat \<Rightarrow> char list res" where
  "format_loop ar ops args x p narg =
     (if p < length x
      then if x ! p \<noteq> L_ESC then rbind (format_loop ar ops args x (p + 1) narg) (\<lambda>r. rreturn (x ! p # r))
           else rbind (cread x (p + 1)) (\<lambda>c.
             if c = L_ESC then rbind (format_loop ar ops args x (p + 2) narg) (\<lambda>r. rreturn (c # r))
             else if narg + 1 > length args + 1 then luaL_argerror ar (narg + 1) ''no value''
             else rbind (scanformat x (p + 1)) (\<lambda>(q, form).
               rbind (cread x q) (\<lambda>c.
               rbind (format_arg args (narg + 1)) (\<lambda>a.
               rbind (format_item ar ops (narg + 1) a form c) (\<lambda>y.
               rbind (format_loop ar ops args x (q + 1) (narg + 1)) (\<lambda>r. rreturn (y @ r)))))))
      else rreturn [])"
  by pat_completeness auto
termination
  by (relation "measure (\<lambda>(ar, ops, args, x, p, narg). length x - p)") (auto dest: scanformat_ge)

declare format_loop.simps [simp del]

definition str_format :: "lua_Debug option \<Rightarrow> 'n double_ops \<Rightarrow> char list \<Rightarrow> 'n lua_arg list \<Rightarrow> char list res" where
  "str_format ar ops strfrmt args = format_loop ar ops args strfrmt 0 1"

end
