(* ===== verification/LuaStrSub.thy ===== *)
theory LuaStrSub
  imports LuaStrlib
begin

text \<open>
  Properties of the string functions that do not match patterns: substrings and their bytes, for every
  positive, negative or zero position, and the plain search.
\<close>

section \<open>Positions\<close>

text \<open>The place a position stands for: a negative one counts from the end, the last character being \<open>- 1\<close>.\<close>

definition place :: "char list \<Rightarrow> int \<Rightarrow> int" where
  "place s i = (if i < 0 then int (length s) + 1 + i else i)"

text \<open>The characters of a string at the places \<open>i\<close> to \<open>j\<close>, those there are.\<close>

definition chars_between :: "char list \<Rightarrow> int \<Rightarrow> int \<Rightarrow> char list" where
  "chars_between s i j = map (\<lambda>k. s ! nat (k - 1)) (filter (\<lambda>k. i \<le> k \<and> k \<le> j) [1..int (length s)])"

lemma filter_upto: "filter (\<lambda>k. a \<le> k \<and> k \<le> b) [lo..hi] = [max a lo..min b hi]"
  by (rule sorted_distinct_set_unique) (auto simp: sorted_wrt_filter)

lemma map_upto_take:
  assumes "1 \<le> a" "b \<le> int (length s)" "a \<le> b + 1"
  shows "map (\<lambda>k. s ! nat (k - 1)) [a..b] = take (nat (b - a + 1)) (drop (nat (a - 1)) s)"
proof (rule nth_equalityI)
  fix k assume k: "k < length (map (\<lambda>k. s ! nat (k - 1)) [a..b])"
  then have "nat (a + int k - 1) = nat (a - 1) + k" using assms by simp
  then show "map (\<lambda>k. s ! nat (k - 1)) [a..b] ! k = take (nat (b - a + 1)) (drop (nat (a - 1)) s) ! k"
    using k assms by simp
qed (use assms in auto)

lemma posrelat_place:
  assumes "is_int i" "int (length s) < INT_MAX"
  shows "posrelat i (length s) = max 0 (place s i)"
  using assms by (auto simp: posrelat_def place_def is_int_def c_int_eq Let_def add.commute)

lemma posrelat_nonneg: "0 \<le> posrelat i l"
  by (simp add: posrelat_def Let_def)

lemma slice_ok: "0 \<le> i \<Longrightarrow> 0 \<le> n \<Longrightarrow> i + n \<le> int (length s) \<Longrightarrow>
    slice s i n = rreturn (take (nat n) (drop (nat i) s))"
  by (simp add: slice_def)

lemma chars_between_take:
  assumes "1 \<le> a" "b \<le> int (length s)" "a \<le> b + 1"
    and "\<And>k. 1 \<le> k \<Longrightarrow> k \<le> int (length s) \<Longrightarrow> i \<le> k \<and> k \<le> j \<longleftrightarrow> a \<le> k \<and> k \<le> b"
  shows "chars_between s i j = take (nat (b - a + 1)) (drop (nat (a - 1)) s)"
proof -
  have "filter (\<lambda>k. i \<le> k \<and> k \<le> j) [1..int (length s)] = filter (\<lambda>k. a \<le> k \<and> k \<le> b) [1..int (length s)]"
    using assms(4) by (intro filter_cong) auto
  also have "\<dots> = [a..b]" using assms(1,2) by (simp add: filter_upto)
  finally show ?thesis using assms(1-3) by (simp add: chars_between_def map_upto_take)
qed

lemma chars_between_empty:
  assumes "\<And>k. 1 \<le> k \<Longrightarrow> k \<le> int (length s) \<Longrightarrow> \<not> (i \<le> k \<and> k \<le> j)"
  shows "chars_between s i j = []"
  using assms by (auto simp: chars_between_def filter_empty_conv)

lemma str_sub_between:
  assumes "is_int i" "is_int j" "int (length s) < INT_MAX"
  shows "str_sub s i j = rreturn (chars_between s (place s i) (place s j))"
proof -
  define a where "a = max 1 (place s i)"
  define b where "b = min (int (length s)) (max 0 (place s j))"
  have eq: "str_sub s i j = (if a \<le> b then slice s (a - 1) (b - a + 1) else rreturn [])"
    unfolding str_sub_def posrelat_place [OF assms(1,3)] posrelat_place [OF assms(2,3)] a_def b_def Let_def max_def min_def
    by simp
  show ?thesis
  proof (cases "a \<le> b")
    case True
    then have "chars_between s (place s i) (place s j) = take (nat (b - a + 1)) (drop (nat (a - 1)) s)"
      by (intro chars_between_take) (auto simp: a_def b_def)
    then show ?thesis using True by (simp add: eq slice_ok a_def b_def)
  next
    case False
    then have "chars_between s (place s i) (place s j) = []"
      by (intro chars_between_empty) (auto simp: a_def b_def)
    then show ?thesis using False by (simp add: eq)
  qed
qed

section \<open>Bytes\<close>

lemma byte_loop_ok:
  "1 \<le> posi \<Longrightarrow> posi - 1 + int i + int n \<le> int (length s) \<Longrightarrow>
     byte_loop s posi i n = rreturn (map uchar (take n (drop (nat (posi - 1) + i) s)))"
proof (induction n arbitrary: i)
  case (Suc n)
  define k where "k = nat (posi - 1) + i"
  have k: "nat (posi + int i - 1) = k" "k < length s" using Suc.prems by (auto simp: k_def)
  have "byte_loop s posi (Suc i) n = rreturn (map uchar (take n (drop (Suc k) s)))"
    using Suc.IH [of "Suc i"] Suc.prems by (simp add: k_def)
  then show ?case
    using Suc.prems k by (simp add: k_def [symmetric] cread_def Cons_nth_drop_Suc [symmetric])
qed simp

lemma str_byte_between:
  assumes "is_int i" "is_int j" "int (length s) < INT_MAX" "\<And>n. room n"
  shows "str_byte room s i (Some j) = rreturn (map uchar (chars_between s (place s i) (place s j)))"
proof -
  define a where "a = max 1 (place s i)"
  define b where "b = min (int (length s)) (max 0 (place s j))"
  have b: "b < INT_MAX" "0 \<le> b" using assms(3) by (auto simp: b_def)
  have ab: "(if max 0 (place s i) \<le> 0 then 1 else max 0 (place s i)) = a"
    "(if max 0 (place s j) > int (length s) then int (length s) else max 0 (place s j)) = b"
    by (auto simp: a_def b_def)
  have eq: "str_byte room s i (Some j) =
      (if a > b then rreturn []
       else (let n = c_int (b - a + 1)
             in if c_int (a + n) \<le> b then luaL_error ''string slice too long'' else byte_loop s a 0 (nat n)))"
    unfolding str_byte_def option.case posrelat_place [OF assms(1,3)] posrelat_place [OF assms(2,3)] Let_def ab
    by (simp add: luaL_checkstack_def assms(4))
  show ?thesis
  proof (cases "a \<le> b")
    case True
    have 1: "c_int (b - a + 1) = b - a + 1" "c_int (a + (b - a + 1)) = b + 1"
      using True b by (auto intro!: c_int_eq simp: a_def)
    have "chars_between s (place s i) (place s j) = take (nat (b - a + 1)) (drop (nat (a - 1)) s)"
      using True by (intro chars_between_take) (auto simp: a_def b_def)
    moreover have "byte_loop s a 0 (nat (b - a + 1)) = rreturn (map uchar (take (nat (b - a + 1)) (drop (nat (a - 1)) s)))"
      using byte_loop_ok [of a 0 "nat (b - a + 1)" s] True by (simp add: a_def b_def)
    ultimately show ?thesis using True 1 by (simp add: eq)
  next
    case False
    then have "chars_between s (place s i) (place s j) = []"
      by (intro chars_between_empty) (auto simp: a_def b_def)
    then show ?thesis using False by (simp add: eq)
  qed
qed

lemma char_loop_uchar: "char_loop ar i (map uchar s) = rreturn s"
  by (induction s arbitrary: i) (simp_all add: uchar_def)

text \<open>
  \<^verbatim>\<open>string.byte\<close> followed by \<^verbatim>\<open>string.char\<close> is \<^verbatim>\<open>string.sub\<close>, and all three treat positions alike: for every
  pair of positions, in order or not, inside the string or not, counted from the start or from the end,
  the result is the characters between the two places.
\<close>

theorem str_byte_char_sub:
  assumes "is_int i" "is_int j" "int (length s) < INT_MAX" "\<And>n. room n"
  shows "rbind (str_byte room s i (Some j)) (str_char ar) = str_sub s i j \<and>
    str_sub s i j = rreturn (chars_between s (place s i) (place s j))"
  using str_sub_between [OF assms(1-3)] str_byte_between [OF assms]
  by (simp add: str_char_def char_loop_uchar)

theorem str_byte_char_sub_witness:
  "str_sub ''protect'' (- 4) 20 = rreturn ''tect'' \<and>
   rbind (str_byte (\<lambda>n. True) ''protect'' (- 4) (Some 20)) (str_char None) = rreturn ''tect''"
  using str_byte_char_sub [of "- 4" 20 "''protect''" "\<lambda>n. True" None]
  by (simp add: is_int_def place_def chars_between_def upto.simps)

section \<open>The plain search\<close>

definition occurs :: "char list \<Rightarrow> char list \<Rightarrow> nat \<Rightarrow> bool" where
  "occurs src pat i \<longleftrightarrow> i + length pat \<le> length src \<and> take (length pat) (drop i src) = pat"

lemma memchr_first:
  "a + n \<le> length s \<Longrightarrow> \<exists>r. memchr s c a n = rreturn r \<and>
     (case r of None \<Rightarrow> \<forall>k. a \<le> k \<and> k < a + n \<longrightarrow> s ! k \<noteq> c
      | Some i \<Rightarrow> a \<le> i \<and> i < a + n \<and> s ! i = c \<and> (\<forall>k. a \<le> k \<and> k < i \<longrightarrow> s ! k \<noteq> c))"
proof (induction s c a n rule: memchr.induct)
  case (2 s c a n)
  show ?case
  proof (cases "s ! a = c")
    case False
    with 2 obtain r where r: "memchr s c (Suc a) n = rreturn r"
      "case r of None \<Rightarrow> \<forall>k. Suc a \<le> k \<and> k < Suc a + n \<longrightarrow> s ! k \<noteq> c
       | Some i \<Rightarrow> Suc a \<le> i \<and> i < Suc a + n \<and> s ! i = c \<and> (\<forall>k. Suc a \<le> k \<and> k < i \<longrightarrow> s ! k \<noteq> c)" by auto
    have "s ! k \<noteq> c" if "a \<le> k" "Suc a \<le> k \<Longrightarrow> s ! k \<noteq> c" for k using that False by (cases "k = a") auto
    then show ?thesis using r False 2(2) by (intro exI [of _ r]) (auto split: option.splits)
  next
    case True
    then show ?thesis by (intro exI [of _ "Some a"]) (use 2(2) in auto)
  qed
qed (auto simp: rreturn_def)

lemma occurs_Cons:
  "occurs src (c # p) i \<longleftrightarrow> i < length src \<and> src ! i = c \<and> i + 1 + length p \<le> length src \<and> take (length p) (drop (i + 1) src) = p"
  by (auto simp: occurs_def Cons_nth_drop_Suc [symmetric])

text \<open>Where the search may still begin: \<open>l1\<close> places from \<open>s1\<close> on.\<close>

lemma find_loop_first:
  assumes "s1 + l1 + l2 = length src" "length pat = l2 + 1"
  shows "\<exists>r. find_loop src pat s1 l1 l2 = rreturn r \<and>
    (case r of Some i \<Rightarrow> s1 \<le> i \<and> occurs src pat i \<and> (\<forall>k. s1 \<le> k \<and> k < i \<longrightarrow> \<not> occurs src pat k)
     | None \<Rightarrow> \<forall>k\<ge>s1. \<not> occurs src pat k)"
  using assms
proof (induction src pat s1 l1 l2 rule: find_loop.induct)
  case (1 src pat s1 l1 l2)
  obtain c p where pat: "pat = c # p" "length p = l2" using 1(3) by (cases pat) auto
  have far: "\<not> occurs src pat k" if "k \<ge> s1 + l1" for k using that 1(2,3) by (auto simp: occurs_def)
  have head: "cread pat 0 = Some (Inr c)" using pat by (simp add: cread_def rreturn_def)
  obtain r0 where r0: "memchr src c s1 l1 = Some (Inr r0)"
    "case r0 of None \<Rightarrow> \<forall>k. s1 \<le> k \<and> k < s1 + l1 \<longrightarrow> src ! k \<noteq> c
     | Some i \<Rightarrow> s1 \<le> i \<and> i < s1 + l1 \<and> src ! i = c \<and> (\<forall>k. s1 \<le> k \<and> k < i \<longrightarrow> src ! k \<noteq> c)"
    using memchr_first [of s1 l1 src c] 1(2) by (auto simp: rreturn_def)
  show ?case
  proof (cases "l1 > 0 \<and> r0 \<noteq> None")
    case False
    then have "find_loop src pat s1 l1 l2 = rreturn None" using head r0(1) by (subst find_loop.simps) auto
    moreover have "\<not> occurs src pat k" if "k \<ge> s1" for k
    proof (cases "k < s1 + l1")
      case True
      then show ?thesis using False r0(2) that pat by (auto simp: occurs_Cons)
    qed (use far in auto)
    ultimately show ?thesis by auto
  next
    case True
    then obtain i where l1: "l1 > 0" and i: "memchr src c s1 l1 = Some (Inr (Some i))"
      and found: "s1 \<le> i" "i < s1 + l1" "i < length src" "src ! i = c" "\<forall>k. s1 \<le> k \<and> k < i \<longrightarrow> src ! k \<noteq> c"
      using r0 1(2) by auto
    have cmp: "memcmp_eq src (i + 1) pat 1 l2 = rreturn (occurs src pat i)"
      using found 1(2) pat by (auto simp: memcmp_eq_def occurs_Cons)
    have before: "\<not> occurs src pat k" if "s1 \<le> k" "k < i" for k
      using found that pat by (auto simp: occurs_Cons)
    show ?thesis
    proof (cases "occurs src pat i")
      case True
      then have "find_loop src pat s1 l1 l2 = rreturn (Some i)" using l1 head i cmp by (subst find_loop.simps) simp
      then show ?thesis using True before found by auto
    next
      case no: False
      have eq: "find_loop src pat s1 l1 l2 = find_loop src pat (i + 1) (l1 - (i + 1 - s1)) l2"
        using l1 head i cmp no by (subst find_loop.simps) simp
      have all: "\<not> occurs src pat k" if "s1 \<le> k" "k < i + 1" for k
        using before no that by (cases "k = i") auto
      from "1.IH" [OF l1 head i refl, of False] cmp no found 1(2,3) obtain r where
        r: "find_loop src pat (i + 1) (l1 - (i + 1 - s1)) l2 = rreturn r"
          "case r of Some m \<Rightarrow> i + 1 \<le> m \<and> occurs src pat m \<and> (\<forall>k. i + 1 \<le> k \<and> k < m \<longrightarrow> \<not> occurs src pat k)
           | None \<Rightarrow> \<forall>k\<ge>i + 1. \<not> occurs src pat k"
        by (auto simp: rreturn_def)
      show ?thesis
        by (rule exI [of _ r]) (use r all found in \<open>auto simp: eq split: option.splits\<close>, (meson not_le_imp_less)+)
    qed
  qed
qed

lemma lmemfind_first:
  assumes "s1 + l1 = length src"
  shows "\<exists>r. lmemfind src s1 l1 pat = rreturn r \<and>
    (case r of Some i \<Rightarrow> s1 \<le> i \<and> occurs src pat i \<and> (\<forall>k. s1 \<le> k \<and> k < i \<longrightarrow> \<not> occurs src pat k)
     | None \<Rightarrow> \<forall>k\<ge>s1. \<not> occurs src pat k)"
proof -
  consider "pat = []" | "pat \<noteq> []" "length pat > l1" | "pat \<noteq> []" "length pat \<le> l1" by linarith
  then show ?thesis
  proof cases
    case 3
    then show ?thesis
      using find_loop_first [of s1 "l1 - (length pat - 1)" "length pat - 1" src pat] assms
      by (simp add: lmemfind_def Suc_leI)
  qed (use assms in \<open>auto simp: lmemfind_def occurs_def\<close>)
qed

text \<open>
  C31: \<^verbatim>\<open>string.find\<close> with the plain option finds the first occurrence of the searched text from the start
  position on, wherever there is one, compares only bytes of the two strings, and answers nil exactly if
  there is none.
\<close>

theorem str_find_plain:
  assumes "is_int i" "int (length s) < INT_MAX"
  defines "from \<equiv> min (length s) (nat (max 1 (place s i) - 1))"
  shows "(\<exists>k. str_find room s p i True = rreturn [Number (int k + 1), Number (int k + int (length p))] \<and>
       from \<le> k \<and> occurs s p k \<and> (\<forall>m. from \<le> m \<and> m < k \<longrightarrow> \<not> occurs s p m)) \<or>
    str_find room s p i True = rreturn [Nil_value] \<and> (\<forall>m\<ge>from. \<not> occurs s p m)"
proof -
  define init where "init = (let init = posrelat i (length s) - 1
    in if init < 0 then 0 else if init > int (length s) then int (length s) else init)"
  have init: "nat init = from"
    unfolding init_def from_def posrelat_place [OF assms(1,2)] Let_def max_def min_def by auto
  have "from \<le> length s" by (simp add: from_def)
  then have "from + (length s - from) = length s" by simp
  from lmemfind_first [OF this, of p] obtain r where r: "lmemfind s from (length s - from) p = rreturn r"
    "case r of Some i \<Rightarrow> from \<le> i \<and> occurs s p i \<and> (\<forall>k. from \<le> k \<and> k < i \<longrightarrow> \<not> occurs s p k)
     | None \<Rightarrow> \<forall>k\<ge>from. \<not> occurs s p k" by (elim exE conjE)
  have "str_find room s p i True =
      rbind (lmemfind s (nat init) (length s - nat init) p) (\<lambda>r.
        case r of Some s2 \<Rightarrow> rreturn [Number (int s2 + 1), Number (int s2 + int (length p))] | None \<Rightarrow> rreturn [Nil_value])"
    by (simp add: str_find_def str_find_aux_def init_def Let_def)
  then show ?thesis using r by (cases r) (auto simp: init)
qed

theorem str_find_plain_witness:
  "str_find (\<lambda>n. True) ''a.b.c'' ''.'' 3 True = rreturn [Number 4, Number 4] \<and> occurs ''a.b.c'' ''.'' 3"
proof -
  have "str_find (\<lambda>n. True) ''a.b.c'' ''.'' 3 True = rreturn [Number 4, Number 4]" by code_simp
  then show ?thesis
    using str_find_plain [of 3 "''a.b.c''" "\<lambda>n. True" "''.''"]
    by (auto simp: is_int_def place_def rreturn_def)
qed

end
