(* ===== verification/LuaStrFind.thy ===== *)
theory LuaStrFind
  imports LuaStrSub
begin

text \<open>
  Properties of the string functions that search for a pattern: \<^verbatim>\<open>find\<close>, \<^verbatim>\<open>match\<close>, \<^verbatim>\<open>gmatch\<close> and
  \<^verbatim>\<open>gsub\<close>.  They rest on the contract of \<^verbatim>\<open>match\<close>, \<open>match_outcome\<close>.
\<close>

section \<open>Values of captures\<close>

definition capture_value :: "char list \<Rightarrow> nat \<times> int \<Rightarrow> int TValue" where
  "capture_value src c =
     (if snd c = CAP_POSITION then Number (int (fst c) + 1) else String (take (nat (snd c)) (drop (fst c) src)))"

definition values_of :: "char list \<Rightarrow> captures \<Rightarrow> (nat \<times> nat) option \<Rightarrow> int TValue list" where
  "values_of src c se =
     (if c = [] then (case se of None \<Rightarrow> [] | Some (s, e) \<Rightarrow> [String (take (e - s) (drop s src))])
      else map (capture_value src) c)"

definition inside :: "char list \<Rightarrow> (nat \<times> nat) option \<Rightarrow> bool" where
  "inside src se \<longleftrightarrow> (case se of None \<Rightarrow> True | Some (s, e) \<Rightarrow> s \<le> e \<and> e \<le> length src)"

lemma push_onecapture_level:
  assumes "ms_ok src e ms" "i < level ms"
  shows "returns (push_onecapture src ms i se) (\<lambda>v. v = capture_value src (live ms ! i))"
proof -
  obtain a n where c: "live ms ! i = (a, n)" by force
  then have ok: "cap_ok src e (a, n)"
    using assms nth_mem [of i "live ms"] by (auto simp: ms_ok_def live_def)
  then show ?thesis
    using assms c by (auto simp: push_onecapture_def cap_at_live capture_value_def slice_ok)
qed

lemma push_onecapture_whole:
  assumes "s \<le> e" "e \<le> length src" "level ms \<le> i"
  shows "returns (push_onecapture src ms i (Some (s, e))) (\<lambda>v. v = String (take (e - s) (drop s src)))"
  using assms by (simp add: push_onecapture_def slice_ok flip: of_nat_diff)

lemma capture_loop_ok:
  assumes "ms_ok src e ms"
  shows "i + n \<le> level ms \<Longrightarrow>
    returns (capture_loop src ms i n se) (\<lambda>vs. vs = map (capture_value src) (take n (drop i (live ms))))"
proof (induction n arbitrary: i)
  case (Suc n)
  then have "i < length (live ms)" using assms by simp
  then show ?case
    using Suc assms push_onecapture_level [OF assms, of i se]
    by (auto intro!: returns_bind [where P = "\<lambda>v. v = capture_value src (live ms ! i)"]
        returns_bind [OF Suc.IH [of "Suc i"]] simp: Cons_nth_drop_Suc [symmetric])
qed simp

lemma push_captures_ok:
  assumes "ms_ok src e ms" "inside src se"
  shows "returns (push_captures room src ms se) (\<lambda>vs. vs = values_of src (live ms) se)"
proof (cases "level ms = 0 \<and> se \<noteq> None")
  case True
  then obtain s e' where se: "se = Some (s, e')" by auto
  then have "returns (push_onecapture src ms 0 se) (\<lambda>v. v = String (take (e' - s) (drop s src)))"
    using push_onecapture_whole [of s e' src ms 0] True assms(2) by (simp add: inside_def)
  then have "returns (capture_loop src ms 0 1 se) (\<lambda>vs. vs = [String (take (e' - s) (drop s src))])"
    by (auto intro: returns_bind)
  then show ?thesis
    using True se by (auto simp: push_captures_def luaL_checkstack_def values_of_def live_def)
next
  case False
  have "returns (capture_loop src ms 0 (level ms) se) (\<lambda>vs. vs = map (capture_value src) (live ms))"
    using capture_loop_ok [OF assms(1), of 0 "level ms" se] assms(1) by simp
  moreover have "level ms = 0 \<longleftrightarrow> live ms = []"
    using length_live [OF assms(1)] by (metis length_0_conv)
  ultimately show ?thesis
    using False by (cases se; cases "room (int (level ms))")
      (auto simp: push_captures_def luaL_checkstack_def values_of_def Let_def elim!: returns_mono)
qed

section \<open>The search for the first match\<close>

text \<open>The positions at which the search tries the pattern, from \<open>start\<close> on.\<close>

definition tried :: "char list \<Rightarrow> bool \<Rightarrow> nat \<Rightarrow> nat \<Rightarrow> bool" where
  "tried src anchor start k \<longleftrightarrow> start \<le> k \<and> k \<le> length src \<and> (anchor \<longrightarrow> k = start)"

definition can_match :: "char list \<Rightarrow> char list \<Rightarrow> nat \<Rightarrow> nat \<Rightarrow> bool" where
  "can_match src pat p k \<longleftrightarrow> (\<exists>c e. matches src pat [] k p c e)"

definition first_match ::
  "char list \<Rightarrow> char list \<Rightarrow> bool \<Rightarrow> nat \<Rightarrow> nat \<Rightarrow> nat \<Rightarrow> captures \<Rightarrow> nat \<Rightarrow> bool" where
  "first_match src pat anchor start p k c e \<longleftrightarrow> tried src anchor start k \<and> matches src pat [] k p c e \<and>
     (\<forall>m<k. tried src anchor start m \<longrightarrow> \<not> can_match src pat p m)"

definition search_result ::
  "char list \<Rightarrow> char list \<Rightarrow> bool \<Rightarrow> nat \<Rightarrow> nat \<Rightarrow> (nat \<times> nat \<times> MatchState) option \<Rightarrow> bool" where
  "search_result src pat anchor start p r \<longleftrightarrow>
     (case r of
        None \<Rightarrow> \<forall>k. tried src anchor start k \<longrightarrow> \<not> can_match src pat p k
      | Some (k, e, ms) \<Rightarrow> first_match src pat anchor start p k (live ms) e \<and> k \<le> e \<and> e \<le> length src \<and> ms_ok src e ms)"

lemma match_from_start:
  assumes "lua_string src" "p \<le> length pat" "s \<le> length src" "length (capture ms) = LUA_MAXCAPTURES"
  shows "returns (match src pat (ms\<lparr>level := 0\<rparr>) s p) (\<lambda>(r, ms1). length (capture ms1) = LUA_MAXCAPTURES \<and>
    (case r of None \<Rightarrow> \<not> can_match src pat p s
     | Some e \<Rightarrow> s \<le> e \<and> e \<le> length src \<and> ms_ok src e ms1 \<and> matches src pat [] s p (live ms1) e))"
proof -
  have f: "ms_ok src s (ms\<lparr>level := 0\<rparr>)" "live (ms\<lparr>level := 0\<rparr>) = []"
    using fresh_ok [of "ms\<lparr>level := 0\<rparr>" src s] assms(4) by (auto simp: fresh_def)
  from match_outcome [OF assms(1-3) f(1)] show ?thesis
    by (cases rule: outcome_cases) (auto simp: f can_match_def ms_ok_def)
qed

lemma tried_step: "tried src False s1 k \<longleftrightarrow> s1 \<le> length src \<and> k = s1 \<or> tried src False (s1 + 1) k"
  by (auto simp: tried_def)

lemma search_here:
  "s1 \<le> e \<Longrightarrow> e \<le> length src \<Longrightarrow> ms_ok src e ms \<Longrightarrow> matches src pat [] s1 p (live ms) e \<Longrightarrow>
     search_result src pat anchor s1 p (Some (s1, e, ms))"
  by (auto simp: search_result_def first_match_def tried_def)

lemma search_later:
  assumes "\<not> can_match src pat p s1" "search_result src pat False (s1 + 1) p r"
  shows "search_result src pat False s1 p r"
proof (cases r)
  case None
  then show ?thesis using assms by (auto simp: search_result_def tried_step [of src s1])
next
  case (Some x)
  obtain k e ms where x: "x = (k, e, ms)" by (cases x) auto
  show ?thesis
    using assms Some x by (auto simp: search_result_def first_match_def tried_step [of src s1])
qed

lemma search_fails:
  "\<not> can_match src pat p s1 \<Longrightarrow> \<not> (s1 < length src \<and> \<not> anchor) \<Longrightarrow> search_result src pat anchor s1 p None"
  by (auto simp: search_result_def tried_def) (metis le_antisym linorder_not_less order_trans)

lemma scan_first:
  assumes "lua_string src" "p \<le> length pat"
  shows "s1 \<le> length src \<Longrightarrow> length (capture ms) = LUA_MAXCAPTURES \<Longrightarrow>
    returns (scan src pat anchor ms s1 p) (search_result src pat anchor s1 p)"
proof (induction "length src - s1" arbitrary: s1 ms rule: less_induct)
  case less
  have "returns (case r of Some e \<Rightarrow> rreturn (Some (s1, e, ms1))
      | None \<Rightarrow> if s1 < length src \<and> \<not> anchor then scan src pat anchor ms1 (s1 + 1) p else rreturn None)
      (search_result src pat anchor s1 p)"
    if len: "length (capture ms1) = LUA_MAXCAPTURES"
      and r: "case r of None \<Rightarrow> \<not> can_match src pat p s1
        | Some e \<Rightarrow> s1 \<le> e \<and> e \<le> length src \<and> ms_ok src e ms1 \<and> matches src pat [] s1 p (live ms1) e" for r ms1
  proof (cases r)
    case None
    show ?thesis
    proof (cases "s1 < length src \<and> \<not> anchor")
      case True
      then have "returns (scan src pat anchor ms1 (s1 + 1) p) (search_result src pat anchor (s1 + 1) p)"
        using less(1) [of "s1 + 1" ms1] len by (simp add: diff_less_mono2)
      then show ?thesis using True None r by (auto elim!: returns_mono intro: search_later)
    qed (use None r search_fails in auto)
  qed (use r search_here in auto)
  then show ?case
    by (subst scan.simps, intro returns_bind [OF match_from_start [OF assms less(2,3)]]) auto
qed

section \<open>Find and match\<close>

text \<open>The position at which the search starts, and what is returned for a match.\<close>

definition search_from :: "char list \<Rightarrow> int \<Rightarrow> nat" where
  "search_from s i = min (length s) (nat (posrelat i (length s) - 1))"

definition found :: "bool \<Rightarrow> char list \<Rightarrow> nat \<Rightarrow> captures \<Rightarrow> nat \<Rightarrow> int TValue list" where
  "found fnd s k c e =
     (if fnd then Number (int k + 1) # Number (int e) # values_of s c None else values_of s c (Some (k, e)))"

lemma str_find_aux_pattern:
  assumes "lua_string s" "fnd \<Longrightarrow> \<exists>c\<in>set (c_str p). c \<in> set SPECIALS"
  defines "anchor \<equiv> pch p 0 = CHR ''^''"
  shows "returns (str_find_aux room fnd s p i False) (\<lambda>vs.
    (vs = [Nil_value] \<and> (\<forall>k. tried s anchor (search_from s i) k \<longrightarrow> \<not> can_match s p (of_bool anchor) k)) \<or>
    (\<exists>k c e. first_match s p anchor (search_from s i) (of_bool anchor) k c e \<and> vs = found fnd s k c e))"
    (is "returns ?m ?P")
proof -
  have init: "nat (if posrelat i (length s) - 1 < 0 then 0
      else if posrelat i (length s) - 1 > int (length s) then int (length s) else posrelat i (length s) - 1) = search_from s i"
    by (auto simp: search_from_def)
  have "anchor \<Longrightarrow> 0 < length p" unfolding anchor_def by (rule pch_in) simp
  then have p: "of_bool anchor \<le> length p" by (cases anchor) (simp_all add: Suc_leI)
  have c: "cread p 0 = rreturn (pch p 0)" by (simp add: cread_ok)
  have "?m = rbind (scan s p anchor no_captures (search_from s i) (of_bool anchor)) (\<lambda>r.
           case r of
             Some (s1, e, ms) \<Rightarrow>
               if fnd
               then rbind (push_captures room s ms None) (\<lambda>vs. rreturn (Number (int s1 + 1) # Number (int e) # vs))
               else push_captures room s ms (Some (s1, e))
           | None \<Rightarrow> rreturn [Nil_value])"
    using assms(2) unfolding str_find_aux_def Let_def init c rbind_simps anchor_def [symmetric] by (auto simp: anchor_def)
  also have "returns \<dots> ?P"
  proof (rule returns_bind [OF scan_first [OF assms(1) p]])
    fix r assume r: "search_result s p anchor (search_from s i) (of_bool anchor) r"
    show "returns (case r of
             Some (s1, e, ms) \<Rightarrow>
               if fnd
               then rbind (push_captures room s ms None) (\<lambda>vs. rreturn (Number (int s1 + 1) # Number (int e) # vs))
               else push_captures room s ms (Some (s1, e))
           | None \<Rightarrow> rreturn [Nil_value]) ?P"
    proof (cases r)
      case None
      then show ?thesis using r by (simp add: search_result_def)
    next
      case (Some x)
      then obtain k e ms where x: "r = Some (k, e, ms)" by (cases x) auto
      then have k: "first_match s p anchor (search_from s i) (of_bool anchor) k (live ms) e" "k \<le> e"
        "e \<le> length s" "ms_ok s e ms" using r by (simp_all add: search_result_def)
      have caps: "returns (push_captures room s ms None) (\<lambda>vs. vs = values_of s (live ms) None)"
        "returns (push_captures room s ms (Some (k, e))) (\<lambda>vs. vs = values_of s (live ms) (Some (k, e)))"
        using k by (intro push_captures_ok; simp add: inside_def)+
      have "vs = found fnd s k (live ms) e \<Longrightarrow> ?P vs" for vs using k(1) by blast
      then have hit: "returns m ?P" if "returns m (\<lambda>vs. vs = found fnd s k (live ms) e)" for m
        using that by (intro returns_mono [of m _ ?P])
      show ?thesis unfolding x option.case prod.case
      proof (rule hit, cases fnd)
        case True
        show "returns (if fnd then rbind (push_captures room s ms None) (\<lambda>vs. rreturn (Number (int k + 1) # Number (int e) # vs))
            else push_captures room s ms (Some (k, e))) (\<lambda>vs. vs = found fnd s k (live ms) e)"
          unfolding if_P [OF True] by (rule returns_bind [OF caps(1)]) (simp add: found_def True)
      qed (use caps in \<open>simp add: found_def\<close>)
    qed
  qed (simp_all add: search_from_def no_captures_def)
  finally show ?thesis .
qed


text \<open>
  C27: \<^verbatim>\<open>string.find\<close> with a pattern and \<^verbatim>\<open>string.match\<close> return the leftmost match: nil exactly if the
  pattern can match from none of the positions tried, otherwise the place and the captures of a match
  from the first position from which there is one; an anchored pattern is tried only once.
\<close>

theorem str_find_leftmost:
  assumes "lua_string s" "fnd \<Longrightarrow> \<exists>c\<in>set (c_str p). c \<in> set SPECIALS"
    and "str_find_aux room fnd s p i False = Some (Inr vs)"
  defines "anchor \<equiv> pch p 0 = CHR ''^''"
  shows "(vs = [Nil_value] \<and> (\<forall>k. tried s anchor (search_from s i) k \<longrightarrow> \<not> can_match s p (of_bool anchor) k)) \<or>
    (\<exists>k c e. first_match s p anchor (search_from s i) (of_bool anchor) k c e \<and> vs = found fnd s k c e)"
  using returns_Inr [OF str_find_aux_pattern [OF assms(1,2)] assms(3)] by (simp add: anchor_def)

theorem str_find_leftmost_witness:
  "\<exists>k c e. first_match ''f(ab)'' ''%((%a+)'' False 0 0 k c e \<and>
     [Number 2, Number 4, String ''ab''] = found True ''f(ab)'' k c e"
proof -
  have "str_find_aux (\<lambda>n. True) True ''f(ab)'' ''%((%a+)'' 1 False = Some (Inr [Number 2, Number 4, String ''ab''])"
    by code_simp
  then show ?thesis
    using str_find_leftmost [of "''f(ab)''" True "''%((%a+)''" "\<lambda>n. True" 1]
    by (simp add: lua_string_def MAX_SIZET_def c_str_def SPECIALS_def pch_def search_from_def posrelat_def)
qed

section \<open>Iteration\<close>

lemma gmatch_aux_ok:
  assumes "lua_string s"
  shows "returns (gmatch_aux room s p start)
    (\<lambda>r. \<forall>start' vs. r = Some (start', vs) \<longrightarrow> start \<le> length s \<and> start < start' \<and> start' \<le> length s + 1)"
proof (cases "start \<le> length s")
  case True
  have "returns (case r of
          None \<Rightarrow> rreturn None
        | Some (src, e, ms) \<Rightarrow>
            rbind (push_captures room s ms (Some (src, e))) (\<lambda>vs.
              rreturn (Some (if e = src then e + 1 else e, vs))))
      (\<lambda>r. \<forall>start' vs. r = Some (start', vs) \<longrightarrow> start \<le> length s \<and> start < start' \<and> start' \<le> length s + 1)"
    if r: "search_result s p False start 0 r" for r
  proof (cases r)
    case (Some x)
    then obtain k e ms where x: "r = Some (k, e, ms)" by (cases x) auto
    then have k: "start \<le> k" "k \<le> e" "e \<le> length s" "ms_ok s e ms"
      using r by (auto simp: search_result_def first_match_def tried_def)
    then have "returns (push_captures room s ms (Some (k, e))) (\<lambda>vs. vs = values_of s (live ms) (Some (k, e)))"
      by (intro push_captures_ok) (simp_all add: inside_def)
    then show ?thesis unfolding x option.case prod.case
      by (rule returns_bind) (use k in auto)
  qed simp
  then show ?thesis
    using True by (auto simp: gmatch_aux_def no_captures_def intro!: returns_bind [OF scan_first [OF assms]])
qed (simp add: gmatch_aux_def)

text \<open>What a \<^verbatim>\<open>for\<close> loop over \<^verbatim>\<open>string.gmatch\<close> sees in at most \<open>n\<close> calls; \<open>None\<close> if that was not enough.\<close>

fun gmatch_run :: "(int \<Rightarrow> bool) \<Rightarrow> char list \<Rightarrow> char list \<Rightarrow> nat \<Rightarrow> nat \<Rightarrow> int TValue list list option res" where
  "gmatch_run room s p 0 start = rreturn None"
| "gmatch_run room s p (Suc n) start =
     rbind (gmatch_aux room s p start) (\<lambda>r.
       case r of
         None \<Rightarrow> rreturn (Some [])
       | Some (start', vs) \<Rightarrow> rbind (gmatch_run room s p n start') (\<lambda>x. rreturn (map_option ((#) vs) x)))"

lemma gmatch_run_ends:
  assumes "lua_string s"
  shows "start \<le> length s + 1 \<Longrightarrow> length s + 1 < start + n \<Longrightarrow>
    returns (gmatch_run room s p n start) (\<lambda>r. \<exists>xs. r = Some xs \<and> length xs \<le> length s + 1 - start)"
proof (induction n arbitrary: start)
  case (Suc n)
  show ?case unfolding gmatch_run.simps
  proof (rule returns_bind [OF gmatch_aux_ok [OF assms]])
    fix r :: "(nat \<times> int TValue list) option"
    assume r: "\<forall>start' vs. r = Some (start', vs) \<longrightarrow> start \<le> length s \<and> start < start' \<and> start' \<le> length s + 1"
    show "returns (case r of
         None \<Rightarrow> rreturn (Some [])
       | Some (start', vs) \<Rightarrow> rbind (gmatch_run room s p n start') (\<lambda>x. rreturn (map_option ((#) vs) x)))
       (\<lambda>r. \<exists>xs. r = Some xs \<and> length xs \<le> length s + 1 - start)"
    proof (cases r)
      case (Some x)
      obtain start' vs where x: "x = (start', vs)" by (cases x)
      then have "start < start'" "start' \<le> length s + 1" using r Some by auto
      moreover from this have "returns (gmatch_run room s p n start') (\<lambda>r. \<exists>xs. r = Some xs \<and> length xs \<le> length s + 1 - start')"
        using Suc by simp
      ultimately show ?thesis unfolding Some x option.case prod.case by (auto elim!: returns_bind)
    qed simp
  qed
qed simp

section \<open>What a substitution is\<close>

text \<open>
  The replacement of one match, from the captures \<open>c\<close> of the match and its ends.  A template is read into
  its items first: plain characters, the whole match and numbered captures.
\<close>

datatype item = Char char | Whole | Capture nat

fun template :: "char list \<Rightarrow> item list" where
  "template [] = []"
| "template [c] = [Char (if c = L_ESC then NUL else c)]"
| "template (c # d # ds) =
     (if c \<noteq> L_ESC then Char c # template (d # ds)
      else (if \<not> isdigit_C d then Char d else if d = CHR ''0'' then Whole else Capture (nat (uchar d - uchar (CHR ''1''))))
        # template ds)"

definition span :: "char list \<Rightarrow> nat \<Rightarrow> nat \<Rightarrow> char list" where
  "span src s e = take (e - s) (drop s src)"

definition run_error :: "char list \<Rightarrow> lua_throw + 'a" where
  "run_error msg = Inl (LUA_ERRRUN msg)"

text \<open>A capture by its number; without captures the first one is the whole match.\<close>

definition one_capture :: "char list \<Rightarrow> captures \<Rightarrow> nat \<Rightarrow> nat \<Rightarrow> nat \<Rightarrow> lua_throw + int TValue" where
  "one_capture src c s e i =
     (if i < length c
      then if snd (c ! i) = CAP_UNFINISHED then run_error ''unfinished capture'' else Inr (capture_value src (c ! i))
      else if i = 0 then Inr (String (span src s e)) else run_error ''invalid capture index'')"

definition all_captures :: "char list \<Rightarrow> captures \<Rightarrow> nat \<Rightarrow> nat \<Rightarrow> lua_throw + int TValue list" where
  "all_captures src c s e =
     (if \<exists>x \<in> set c. snd x = CAP_UNFINISHED then run_error ''unfinished capture''
      else Inr (if c = [] then [String (span src s e)] else map (capture_value src) c))"

definition item_text :: "char list \<Rightarrow> captures \<Rightarrow> nat \<Rightarrow> nat \<Rightarrow> item \<Rightarrow> lua_throw + char list" where
  "item_text src c s e it =
     (case it of Char x \<Rightarrow> Inr [x] | Whole \<Rightarrow> Inr (span src s e)
      | Capture i \<Rightarrow> map_sum id value_text (one_capture src c s e i))"

fun items_text :: "char list \<Rightarrow> captures \<Rightarrow> nat \<Rightarrow> nat \<Rightarrow> item list \<Rightarrow> lua_throw + char list" where
  "items_text src c s e [] = Inr []"
| "items_text src c s e (it # its) =
     (case item_text src c s e it of Inl err \<Rightarrow> Inl err | Inr x \<Rightarrow> map_sum id ((@) x) (items_text src c s e its))"

text \<open>What the script answers for a match: false and nil keep it, strings and numbers replace it.\<close>

definition answer :: "char list \<Rightarrow> lua_throw + int TValue \<times> 'st \<Rightarrow> lua_throw + char list \<times> 'st" where
  "answer whole r =
     (case r of
        Inl err \<Rightarrow> Inl err
      | Inr (v, st) \<Rightarrow>
          (case v of
             Nil_value \<Rightarrow> Inr (whole, st)
           | Boolean b \<Rightarrow> if b = 0 then Inr (whole, st) else run_error ''invalid replacement value (a boolean)''
           | String x \<Rightarrow> Inr (x, st)
           | Null_string \<Rightarrow> Inr ([], st)
           | Number n \<Rightarrow> Inr (int_text n, st)
           | v \<Rightarrow> run_error (''invalid replacement value (a '' @ luaL_typename v @ '')'')))"

definition replacement ::
  "(int \<Rightarrow> bool) \<Rightarrow> char list \<Rightarrow> 'st repl \<Rightarrow> captures \<Rightarrow> nat \<Rightarrow> nat \<Rightarrow> 'st \<Rightarrow> lua_throw + char list \<times> 'st" where
  "replacement room src repl c s e st =
     (case repl of
        Repl_string news \<Rightarrow> map_sum id (\<lambda>x. (x, st)) (items_text src c s e (template news))
      | Repl_function call \<Rightarrow>
          if \<not> room (int (max 1 (length c))) then run_error ''stack overflow (too many captures)''
          else (case all_captures src c s e of Inl err \<Rightarrow> Inl err | Inr vs \<Rightarrow> answer (span src s e) (call vs st))
      | Repl_table get \<Rightarrow>
          (case one_capture src c s e 0 of Inl err \<Rightarrow> Inl err | Inr v \<Rightarrow> answer (span src s e) (get v st)))"




section \<open>The replacement of one match\<close>








section \<open>The loop of gsub\<close>






section \<open>Consequences of the specification\<close>





section \<open>The properties of gmatch and gsub\<close>

text \<open>
  C29: A loop over \<^verbatim>\<open>string.gmatch\<close> ends whatever the pattern matches, the empty string included: the
  iterator never reads outside the strings, every call moves the start on, and after at most one match for
  each byte and one more it answers nil.
\<close>

theorem gmatch_ends:
  assumes "lua_string s"
  shows "returns (gmatch_run room s p (length s + 2) 0) (\<lambda>r. \<exists>xs. r = Some xs \<and> length xs \<le> length s + 1)"
  using gmatch_run_ends [OF assms, of 0 "length s + 2" room p] by simp

theorem gmatch_ends_witness:
  "returns (gmatch_run (\<lambda>n. True) ''one two'' ''%a*'' 9 0) (\<lambda>r. \<exists>xs. r = Some xs \<and> length xs \<le> 8)"
  using gmatch_ends [of "''one two''" "\<lambda>n. True" "''%a*''"] by (simp add: lua_string_def MAX_SIZET_def numeral_eq_Suc)



end
