(* ===== verification/LuaStrFormat.thy ===== *)
theory LuaStrFormat
  imports LuaStrFind
begin

text \<open>
  \<^verbatim>\<open>string.format\<close> fills two buffers of fixed size on the C stack, one with the conversion and one with the
  formatted item.  \<^verbatim>\<open>scanformat\<close> lets only conversions through whose width and precision have at most two
  digits, which is what keeps both buffers from overflowing.
\<close>

section \<open>Parts of a string\<close>

definition between :: "char list \<Rightarrow> nat \<Rightarrow> nat \<Rightarrow> char list" where
  "between x p q = take (q - p) (drop p x)"

lemma between_append: "p \<le> q \<Longrightarrow> q \<le> r \<Longrightarrow> between x p r = between x p q @ between x q r"
  using take_add [of "q - p" "r - q" "drop p x"] by (simp add: between_def)

lemma between_one: "p < length x \<Longrightarrow> between x p (p + 1) = [x ! p]"
  by (simp add: between_def take_Suc hd_drop_conv_nth)

lemma between_same [simp]: "between x p p = []"
  by (simp add: between_def)

lemma length_between: "q \<le> length x \<Longrightarrow> length (between x p q) = q - p"
  by (simp add: between_def)

lemma pch_here: "p < length x \<Longrightarrow> pch x p = x ! p"
  by (simp add: pch_def)

section \<open>Conversions\<close>

definition all_digits :: "char list \<Rightarrow> bool" where
  "all_digits x \<longleftrightarrow> (\<forall>d\<in>set x. isdigit_C d)"

text \<open>Flags, at most two digits, at most two digits after a point, the length modifier \<open>m\<close> and a letter.\<close>

definition conversion_shape :: "char list \<Rightarrow> char list \<Rightarrow> bool" where
  "conversion_shape m form \<longleftrightarrow> (\<exists>fl w pr c. form = CHR ''%'' # fl @ w @ pr @ m @ [c] \<and>
     set fl \<subseteq> set FLAGS \<and> length fl \<le> 5 \<and> length w \<le> 2 \<and> all_digits w \<and>
     (pr = [] \<or> (\<exists>ds. pr = CHR ''.'' # ds \<and> length ds \<le> 2 \<and> all_digits ds)) \<and> \<not> isdigit_C c)"

lemma skip_flags_ok:
  "p \<le> length x \<Longrightarrow> \<exists>q. skip_flags x p = rreturn q \<and> p \<le> q \<and> q \<le> length x \<and> set (between x p q) \<subseteq> set FLAGS"
proof (induction x p rule: skip_flags.induct)
  case (1 x p)
  have c: "cread x p = rreturn (pch x p)" using 1(2) by (simp add: cread_ok)
  show ?case
  proof (cases "pch x p \<noteq> NUL \<and> pch x p \<in> set FLAGS")
    case True
    then have p: "p < length x" using pch_in by blast
    with True c obtain q where q: "skip_flags x (p + 1) = rreturn q" "p + 1 \<le> q" "q \<le> length x"
        "set (between x (p + 1) q) \<subseteq> set FLAGS"
      using 1(1) [of "pch x p"] by (auto simp: rreturn_def)
    have "between x p q = between x p (p + 1) @ between x (p + 1) q" using q(2) by (intro between_append) simp_all
    then show ?thesis using True c q p
      by (intro exI [of _ q]) (subst skip_flags.simps, auto simp: between_one [simplified] pch_here)
  next
    case False
    then show ?thesis using 1(2) c
      by (intro exI [of _ p]) (subst skip_flags.simps, auto)
  qed
qed

lemma skip_digit_ok:
  "p \<le> length x \<Longrightarrow>
     \<exists>q. skip_digit x p = rreturn q \<and> p \<le> q \<and> q \<le> length x \<and> q \<le> p + 1 \<and> all_digits (between x p q)"
proof -
  assume p: "p \<le> length x"
  show ?thesis
  proof (cases "isdigit_C (pch x p)")
    case True
    then have "p < length x" by (intro pch_in) (auto simp: isdigit_C_def uchar_def)
    then show ?thesis using True p
      by (auto simp: skip_digit_def cread_ok between_one [simplified] pch_here all_digits_def)
  qed (use p in \<open>auto simp: skip_digit_def cread_ok all_digits_def\<close>)
qed

lemma skip_two_digits:
  assumes "p \<le> length x"
  obtains q r where "skip_digit x p = rreturn q" "skip_digit x q = rreturn r" "p \<le> r" "r \<le> length x" "r \<le> p + 2"
    "all_digits (between x p r)"
proof -
  obtain q where q: "skip_digit x p = rreturn q" "p \<le> q" "q \<le> length x" "q \<le> p + 1" "all_digits (between x p q)"
    using skip_digit_ok [OF assms] by auto
  obtain r where r: "skip_digit x q = rreturn r" "q \<le> r" "r \<le> length x" "r \<le> q + 1" "all_digits (between x q r)"
    using skip_digit_ok [OF q(3)] by auto
  show ?thesis
    by (rule that [OF q(1) r(1)]) (use q r between_append [of p q r x] in \<open>auto simp: all_digits_def\<close>)
qed

lemma scanformat_ok:
  assumes "p \<le> length x"
  shows "returns (scanformat x p) (\<lambda>(q, form). q \<le> length x \<and> conversion_shape [] form \<and> length form \<le> 12 \<and> last form = pch x q)"
proof -
  obtain p1 where p1: "skip_flags x p = rreturn p1" "p \<le> p1" "p1 \<le> length x" "set (between x p p1) \<subseteq> set FLAGS"
    using skip_flags_ok [OF assms] by auto
  obtain q2 p2 where p2: "skip_digit x p1 = rreturn q2" "skip_digit x q2 = rreturn p2" "p1 \<le> p2" "p2 \<le> length x"
    "p2 \<le> p1 + 2" "all_digits (between x p1 p2)"
    using skip_two_digits [OF p1(3)] by metis
  have "\<exists>p3. (if pch x p2 = CHR ''.'' then rbind (skip_digit x (p2 + 1)) (\<lambda>p. skip_digit x p) else rreturn p2) = rreturn p3 \<and>
      p2 \<le> p3 \<and> p3 \<le> length x \<and> p3 \<le> p2 + 3 \<and>
      (between x p2 p3 = [] \<or> (\<exists>ds. between x p2 p3 = CHR ''.'' # ds \<and> length ds \<le> 2 \<and> all_digits ds))"
  proof (cases "pch x p2 = CHR ''.''")
    case True
    then have l: "p2 < length x" by (intro pch_in) simp
    then obtain q3 p3 where p3: "skip_digit x (p2 + 1) = rreturn q3" "skip_digit x q3 = rreturn p3" "p2 + 1 \<le> p3"
      "p3 \<le> length x" "p3 \<le> p2 + 1 + 2" "all_digits (between x (p2 + 1) p3)"
      using skip_two_digits [of "p2 + 1" x] by (metis Suc_eq_plus1 Suc_leI)
    moreover have "between x p2 p3 = x ! p2 # between x (p2 + 1) p3"
      using between_append [of p2 "p2 + 1" p3 x] p3(3) between_one [OF l] by simp
    ultimately show ?thesis using True l by (intro exI [of _ p3]) (auto simp: pch_here length_between)
  qed (use p2 in auto)
  then obtain p3 where p3: "(if pch x p2 = CHR ''.'' then rbind (skip_digit x (p2 + 1)) (\<lambda>p. skip_digit x p) else rreturn p2) = rreturn p3"
      "p2 \<le> p3" "p3 \<le> length x" "p3 \<le> p2 + 3"
      "between x p2 p3 = [] \<or> (\<exists>ds. between x p2 p3 = CHR ''.'' # ds \<and> length ds \<le> 2 \<and> all_digits ds)"
    by (elim exE conjE)
  have parts: "take (p3 - p) (drop p x) = between x p p1 @ between x p1 p2 @ between x p2 p3"
    using between_append [of p p1 p3 x] between_append [of p1 p2 p3 x] p1 p2 p3 by (simp add: between_def)
  have eq: "scanformat x p =
     (if p1 - p \<ge> length FLAGS + 1 then luaL_error ''invalid format (repeated flags)''
      else if isdigit_C (pch x p3) then luaL_error ''invalid format (width or precision too long)''
      else rbind (buffer MAX_FORMAT (CHR ''%'' # take (p3 - p) (drop p x) @ [pch x p3])) (\<lambda>form. rreturn (p3, form)))"
    by (simp only: scanformat_def p1(1) p2(1,2) rbind_simps cread_ok [OF p2(4)] cread_ok [OF p3(3)] p3(1))
  show ?thesis
  proof (cases "p1 - p \<ge> length FLAGS + 1 \<or> isdigit_C (pch x p3)")
    case False
    then have len: "p1 - p \<le> 5" by (simp add: FLAGS_def)
    have "length (between x p p1) \<le> 5" "length (between x p1 p2) \<le> 2"
      using len p1 p2 by (simp_all add: length_between)
    then have "conversion_shape [] (CHR ''%'' # take (p3 - p) (drop p x) @ [pch x p3])"
      unfolding parts conversion_shape_def using False p1(4) p2(6) p3(5)
      by - (rule exI [of _ "between x p p1"], rule exI [of _ "between x p1 p2"], rule exI [of _ "between x p2 p3"],
          rule exI [of _ "pch x p3"], simp only: append_assoc append_Nil simp_thms de_Morgan_disj)
    moreover have "length (take (p3 - p) (drop p x)) \<le> 10" using len p2 p3 by simp
    ultimately show ?thesis using False p3(3) eq
      by (simp add: buffer_def MAX_FORMAT_def FLAGS_def LUA_INTFRMLEN_def)
  next
    case True
    then show ?thesis unfolding eq by (cases "p1 - p \<ge> length FLAGS + 1") simp_all
  qed
qed

section \<open>Widths\<close>

lemma number_of_two: "length x \<le> 2 \<Longrightarrow> all_digits x \<Longrightarrow> number_of x \<le> 99"
proof -
  have d: "isdigit_C c \<Longrightarrow> nat (uchar c - uchar CHR ''0'') \<le> 9" for c by (simp add: isdigit_C_def nat_le_iff uchar_def)
  assume "length x \<le> 2" "all_digits x"
  then consider "x = []" | c where "x = [c]" "isdigit_C c" | c e where "x = [c, e]" "isdigit_C c" "isdigit_C e"
    by (cases x; cases "tl x") (auto simp: all_digits_def)
  then show ?thesis
  proof cases
    case 2
    then show ?thesis using d [of c] by (simp add: number_of_def)
  next
    case 3
    then show ?thesis using d [of c] d [of e] by (simp add: number_of_def)
  qed (simp add: number_of_def)
qed

lemma conversion_bounds:
  assumes "conversion_shape m form" "m = [] \<or> m = LUA_INTFRMLEN"
  shows "cv_width (conversion_of form) \<le> 99 \<and> (\<forall>k. cv_precision (conversion_of form) = Some k \<longrightarrow> k \<le> 99) \<and>
    (last form \<noteq> CHR ''.'' \<longrightarrow> CHR ''.'' \<in> set form \<longrightarrow> cv_precision (conversion_of form) \<noteq> None)"
proof -
  let ?F = "\<lambda>c. c \<in> set FLAGS"
  obtain fl w pr c where s': "form = CHR ''%'' # fl @ w @ pr @ m @ [c]" "set fl \<subseteq> set FLAGS" "length w \<le> 2" "all_digits w"
     "pr = [] \<or> (\<exists>ds. pr = CHR ''.'' # ds \<and> length ds \<le> 2 \<and> all_digits ds)" "\<not> isdigit_C c"
    using assms(1) unfolding conversion_shape_def by metis
  define t where "t = m @ [c]"
  have s: "form = CHR ''%'' # fl @ w @ pr @ t" "set fl \<subseteq> set FLAGS" "length w \<le> 2" "all_digits w"
     "pr = [] \<or> (\<exists>ds. pr = CHR ''.'' # ds \<and> length ds \<le> 2 \<and> all_digits ds)" "t = [c] \<or> t = [CHR ''l'', c]" "\<not> isdigit_C c"
    using s' assms(2) by (auto simp: t_def LUA_INTFRMLEN_def)
  define v where "v = dropWhile ?F (w @ pr @ t)"
  have fl: "takeWhile ?F (drop 1 form) = fl @ takeWhile ?F (w @ pr @ t)"
    using s(1,2) by (simp add: takeWhile_append2 subset_iff)
  then have v: "drop (length (takeWhile ?F (drop 1 form))) (drop 1 form) = v"
    using s(1) by (simp add: v_def dropWhile_eq_drop)
  have point: "\<not> ?F (CHR ''.'')" "\<not> isdigit_C (CHR ''.'')" "\<not> isdigit_C (CHR ''l'')"
    by (simp_all add: FLAGS_def isdigit_C_def uchar_def)
  have t: "takeWhile isdigit_C t = []" using s(6,7) point by auto
  have "\<exists>w' t'. v = w' @ pr @ t' \<and> length w' \<le> 2 \<and> all_digits w' \<and> takeWhile isdigit_C t' = [] \<and> 
      set t' \<subseteq> set t \<and> (pr \<noteq> [] \<longrightarrow> t' = t)"
  proof (cases "\<forall>x\<in>set w. ?F x")
    case False
    then have "v = dropWhile ?F w @ pr @ t" by (auto simp: v_def dropWhile_append1)
    moreover have "length (dropWhile ?F w) \<le> 2" using s(3) length_dropWhile_le le_trans by blast
    moreover have "all_digits (dropWhile ?F w)" using s(4) by (auto simp: all_digits_def dest: set_dropWhileD)
    ultimately show ?thesis using t by blast
  next
    case True
    then have v: "v = dropWhile ?F (pr @ t)" by (simp add: v_def dropWhile_append2)
    show ?thesis
    proof (cases pr)
      case Nil
      have "takeWhile isdigit_C (dropWhile ?F t) = []" using s(6,7) point by auto
      then show ?thesis using v Nil by (intro exI [of _ "[]"] exI [of _ "dropWhile ?F t"])
        (auto simp: all_digits_def dest: set_dropWhileD)
    next
      case (Cons a ds)
      then have "v = pr @ t" using s(5) v point by auto
      then show ?thesis using t by (intro exI [of _ "[]"] exI [of _ t]) (auto simp: all_digits_def)
    qed
  qed
  then obtain w' t' where w': "v = w' @ pr @ t'" "length w' \<le> 2" "all_digits w'" "takeWhile isdigit_C t' = []"
      "set t' \<subseteq> set t" "pr \<noteq> [] \<longrightarrow> t' = t" by (elim exE conjE)
  have "takeWhile isdigit_C (pr @ t') = []" using s(5) w'(4) point by auto
  then have w: "takeWhile isdigit_C v = w'" "drop (length (takeWhile isdigit_C v)) v = pr @ t'"
    using w'(1,3) by (simp_all add: all_digits_def takeWhile_append2)
  have w2: "drop (length w') v = pr @ t'" using w(2) unfolding w(1) .
  have cv: "cv_width (conversion_of form) = number_of w'"
    "cv_precision (conversion_of form) = (case pr @ t' of c # y \<Rightarrow> if c = CHR ''.'' then Some (number_of (takeWhile isdigit_C y)) else None
                          | [] \<Rightarrow> None)"
    unfolding conversion_of_def Let_def v w(1) w2 by simp_all
  have prec: "number_of (takeWhile isdigit_C (tl (pr @ t'))) \<le> 99"
  proof (cases pr)
    case Nil
    have "\<not> isdigit_C x" if "x \<in> set t'" for x using that w'(5) s(6,7) point by auto
    then have "takeWhile isdigit_C (tl t') = []" by (cases t'; cases "tl t'") auto
    then show ?thesis using Nil by (simp add: number_of_def)
  next
    case (Cons a ds)
    then have "takeWhile isdigit_C (tl (pr @ t')) = ds" "length ds \<le> 2" "all_digits ds"
      using s(5) w'(4) by (auto simp: all_digits_def takeWhile_append2)
    then show ?thesis using number_of_two by simp
  qed
  have "CHR ''.'' \<in> set form \<Longrightarrow> last form \<noteq> CHR ''.'' \<Longrightarrow> pr \<noteq> []"
    using s point by (auto simp: all_digits_def)
  then show ?thesis
    using number_of_two [OF w'(2,3)] prec s(5) unfolding cv by (auto split: list.splits)
qed


lemma base_digits_length: "length (base_digits upper b k n) \<le> k"
proof (induction k arbitrary: n)
  case (Suc k)
  from Suc.IH [of "n div b"] show ?case by simp
qed simp

lemma magnitude_length: "(\<forall>k. cv_precision cv = Some k \<longrightarrow> k \<le> 99) \<Longrightarrow> length (magnitude cv upper b n) \<le> 99"
  using base_digits_length [of upper b 32 n] by (auto simp: magnitude_def Let_def split: option.splits)

lemma pad_length: "length (pad cv zeros sign bd) = max (cv_width cv) (length sign + length bd)"
  by (auto simp: pad_def Let_def)

lemma sprintf_integer_length:
  assumes "conversion_shape m form" "m = [] \<or> m = LUA_INTFRMLEN" "a = C_int i \<or> a = C_long i \<or> a = C_ulong i"
  shows "length (sprintf ops form a) < MAX_ITEM"
proof -
  note b = conversion_bounds [OF assms(1,2)]
  have m: "length (magnitude (conversion_of form) upper k n) \<le> 99" for upper k n
    using b by (intro magnitude_length) simp
  from assms(3) show ?thesis
  proof (elim disjE)
    assume a: "a = C_long i"
    show ?thesis using b m [of False 10 "nat (- i)"] m [of False 10 "nat i"] unfolding a
      by (simp add: sprintf_def pad_length Let_def MAX_ITEM_def)
  next
    assume a: "a = C_ulong i"
    show ?thesis using b m [of False 8 "nat i"] m [of False 10 "nat i"] m [of "last form = CHR ''X''" 16 "nat i"] m [of "last form = CHR ''X''" 16 0] unfolding a
      by (simp add: sprintf_def pad_length Let_def MAX_ITEM_def)
  qed (use b in \<open>simp add: sprintf_def pad_length Let_def MAX_ITEM_def\<close>)
qed

text \<open>A text is only formatted if it is short or cut by a precision.\<close>

lemma sprintf_text_length:
  assumes "conversion_shape [] form" "last form = CHR ''s''" "CHR ''.'' \<in> set form \<or> length s < 100"
  shows "length (sprintf ops form (C_text s)) < MAX_ITEM"
proof -
  note b = conversion_bounds [OF assms(1) disjI1 [OF refl]]
  have "length (c_str s) \<le> length s" by (simp add: c_str_def length_takeWhile_le)
  then have "length (case cv_precision (conversion_of form) of None \<Rightarrow> c_str s | Some k \<Rightarrow> take k (c_str s)) \<le> 99"
    using assms(2,3) b by (auto split: option.splits)
  then show ?thesis using b by (simp add: sprintf_def pad_length Let_def MAX_ITEM_def)
qed

lemma addintlen_ok:
  assumes "conversion_shape [] form" "length form \<le> 12"
  shows "returns (addintlen form) (conversion_shape LUA_INTFRMLEN)"
proof -
  obtain fl w pr c where s: "form = CHR ''%'' # fl @ w @ pr @ [] @ [c]" "set fl \<subseteq> set FLAGS" "length fl \<le> 5" "length w \<le> 2" "all_digits w"
     "pr = [] \<or> (\<exists>ds. pr = CHR ''.'' # ds \<and> length ds \<le> 2 \<and> all_digits ds)" "\<not> isdigit_C c"
    using assms(1) unfolding conversion_shape_def by metis
  then have "conversion_shape LUA_INTFRMLEN (CHR ''%'' # fl @ w @ pr @ LUA_INTFRMLEN @ [c])"
    unfolding conversion_shape_def by metis
  then show ?thesis using s(1) assms(2)
    by (simp add: addintlen_def buffer_def MAX_FORMAT_def FLAGS_def LUA_INTFRMLEN_def butlast_append)
qed

text \<open>
  What the code relies on in \<^verbatim>\<open>sprintf\<close>: a floating-point number printed with a width and a precision
  of at most 99 fits into \<open>MAX_ITEM\<close> bytes.
\<close>

definition doubles_fit :: "'n double_ops \<Rightarrow> bool" where
  "doubles_fit ops \<longleftrightarrow> (\<forall>form d. cv_width (conversion_of form) \<le> 99 \<and>
     (\<forall>k. cv_precision (conversion_of form) = Some k \<longrightarrow> k \<le> 99) \<longrightarrow> length (print_double ops form d) < MAX_ITEM)"

lemma returns_if: "(P \<Longrightarrow> returns m Q) \<Longrightarrow> (\<not> P \<Longrightarrow> returns m' Q) \<Longrightarrow> returns (if P then m else m') Q"
  by simp

lemma check_returns:
  "returns (luaL_checknumber ar narg a) (\<lambda>_. True)" "returns (luaL_checklstring ar narg a) (\<lambda>_. True)"
  "returns (luaL_argerror ar narg msg) P"
  by (auto simp: luaL_checknumber_def luaL_checklstring_def luaL_typerror_def luaL_argerror_def Let_def split: option.splits)

lemma format_item_ok:
  fixes ops :: "'n double_ops" and a :: "'n lua_arg"
  assumes "doubles_fit ops" "conversion_shape [] form" "length form \<le> 12" "last form = c"
  shows "returns (format_item ar ops narg a form c) (\<lambda>_. True)"
proof -
  have add: "returns (rbind (buffer MAX_ITEM (sprintf ops form v)) (\<lambda>buff. rreturn (c_str buff))) (\<lambda>_. True)"
    if "length (sprintf ops form v) < MAX_ITEM" for form v
    using that by (simp add: buffer_def)
  have num: "returns (rbind (luaL_checknumber ar narg a) f) (\<lambda>_. True)" if "\<And>n. returns (f n) (\<lambda>_. True)" for f :: "'n \<Rightarrow> char list res"
    using that by (auto intro: returns_bind [OF check_returns(1)])
  have str: "returns (rbind (luaL_checklstring ar narg a) f) (\<lambda>_. True)" if "\<And>n. returns (f n) (\<lambda>_. True)" for f :: "char list \<Rightarrow> char list res"
    using that by (auto intro: returns_bind [OF check_returns(2)])
  have int: "returns (rbind (addintlen form) f) (\<lambda>_. True)"
    if "\<And>form. conversion_shape LUA_INTFRMLEN form \<Longrightarrow> returns (f form) (\<lambda>_. True)" for f :: "char list \<Rightarrow> char list res"
    using that by (auto intro: returns_bind [OF addintlen_ok [OF assms(2,3)]])
  have dbl: "length (sprintf ops form (C_double d)) < MAX_ITEM" for d
    using assms(1) conversion_bounds [OF assms(2)] by (simp add: doubles_fit_def sprintf_def Let_def)
  have sub: "CHR ''.'' \<in> set (c_str form) \<Longrightarrow> CHR ''.'' \<in> set form" by (auto simp: c_str_def dest: set_takeWhileD)
  note ilen = sprintf_integer_length [OF assms(2) disjI1 [OF refl]] sprintf_integer_length [OF _ disjI2 [OF refl]]
  have as_text: "returns (if CHR ''.'' \<notin> set (c_str form) \<and> length s \<ge> 100 then rreturn s
      else rbind (buffer MAX_ITEM (sprintf ops form (C_text s))) (\<lambda>buff. rreturn (c_str buff))) (\<lambda>_. True)"
    if "c = CHR ''s''" for s
  proof (rule returns_if)
    assume "\<not> (CHR ''.'' \<notin> set (c_str form) \<and> length s \<ge> 100)"
    then have "CHR ''.'' \<in> set form \<or> length s < 100" using sub by auto
    then show "returns (rbind (buffer MAX_ITEM (sprintf ops form (C_text s))) (\<lambda>buff. rreturn (c_str buff))) (\<lambda>_. True)"
      using that assms(4) by (intro add sprintf_text_length [OF assms(2)]) auto
  qed simp
  show ?thesis
    unfolding format_item_def Let_def
    by (intro returns_if num str int add dbl as_text) (auto intro: ilen)
qed

lemma format_loop_ok:
  assumes "doubles_fit ops"
  shows "1 \<le> narg \<Longrightarrow> returns (format_loop ar ops args x p narg) (\<lambda>_. True)"
proof (induction "length x - p" arbitrary: p narg rule: less_induct)
  case less
  have tail: "returns (rbind (format_loop ar ops args x q n) (\<lambda>r. rreturn (f r))) (\<lambda>_. True)" if "p < q" "p < length x" "1 \<le> n" for q n and f :: "char list \<Rightarrow> char list"
    using that by (auto intro: returns_bind [OF less(1)])
  show ?case
  proof (cases "p < length x \<and> x ! p = L_ESC \<and> pch x (p + 1) \<noteq> L_ESC \<and> \<not> narg + 1 > length args + 1")
    case False
    then show ?thesis
      using less(2) by (subst format_loop.simps) (auto simp: tail cread_ok check_returns)
  next
    case True
    then have c: "cread x (p + 1) = rreturn (pch x (p + 1))" and p: "p + 1 \<le> length x" by (simp_all add: cread_ok)
    have arg: "format_arg args (Suc narg) = rreturn (args ! (narg - 1))"
      using True less(2) by (simp add: format_arg_def numeral_2_eq_2)
    have "returns (rbind (scanformat x (p + 1)) (\<lambda>(q, form).
               rbind (cread x q) (\<lambda>c.
               rbind (format_arg args (narg + 1)) (\<lambda>a.
               rbind (format_item ar ops (narg + 1) a form c) (\<lambda>y.
               rbind (format_loop ar ops args x (q + 1) (narg + 1)) (\<lambda>r. rreturn (y @ r))))))) (\<lambda>_. True)"
      by (rule returns_bind [OF scanformat_ok [OF p]])
        (auto simp: cread_ok True arg dest!: scanformat_ge intro!: returns_bind [OF format_item_ok [OF assms]] tail)
    then show ?thesis using True by (subst format_loop.simps) (simp only: c rbind_simps if_True if_False simp_thms)
  qed
qed


text \<open>
  C30: \<^verbatim>\<open>string.format\<close> never overflows \<^verbatim>\<open>form\<close> or \<^verbatim>\<open>buff\<close> and reads only inside the format and its
  arguments (\<open>format_arg\<close>), for every format, well-formed or not, and all arguments, too few included: it ends with an
  error or with the formatted text.  Of \<^verbatim>\<open>sprintf\<close> it needs only that a floating-point number printed with a width and a
  precision below 100 fits.
\<close>

theorem str_format_safe:
  assumes "doubles_fit ops"
  shows "(\<exists>e. str_format ar ops strfrmt args = Some (Inl e)) \<or> (\<exists>x. str_format ar ops strfrmt args = Some (Inr x))"
proof -
  obtain r where "str_format ar ops strfrmt args = Some r"
    using format_loop_ok [OF assms order_refl, of ar args strfrmt 0] unfolding str_format_def returns_def by blast
  then show ?thesis by (cases r) simp_all
qed

text \<open>The witness prints a number as its sign and its integer part.\<close>

definition whole_numbers :: "int double_ops" where
  "whole_numbers = \<lparr>to_int = id, to_long = id, to_ulong = (\<lambda>n. n mod 4294967296),
     print_double = (\<lambda>form d. pad (conversion_of form) True [] (take 400 (int_text d)))\<rparr>"

lemma whole_numbers_fit: "doubles_fit whole_numbers"
  by (auto simp: doubles_fit_def whole_numbers_def pad_length MAX_ITEM_def min_def)

definition sample_args :: "int lua_arg list" where
  "sample_args =
     [\<lparr>as_number = Some 7, as_lstring = None, arg_typename = ''number''\<rparr>,
      \<lparr>as_number = None, as_lstring = Some ''ab'', arg_typename = ''string''\<rparr>,
      \<lparr>as_number = None, as_lstring = Some ''x'', arg_typename = ''string''\<rparr>]"

lemma sample_format:
  "str_format None whole_numbers ''%5.2d|%-4s|%q'' sample_args = Some (Inr (''   07|ab  |'' @ [CHR 0x22, CHR ''x'', CHR 0x22]))"
  by code_simp

theorem str_format_safe_witness:
  "str_format None whole_numbers ''%5.2d|%-4s|%q'' sample_args \<noteq> None \<and> str_format None whole_numbers ''%100d'' sample_args \<noteq> None"
proof -
  have "str_format None whole_numbers x sample_args \<noteq> None" for x
    using str_format_safe [OF whole_numbers_fit, of None x sample_args] by auto
  then show ?thesis by simp
qed

end
