(* ===== verification/LuaLex.thy ===== *)
theory LuaLex
  imports LuaStrFormat
begin

text \<open>
  The lexical analyser (\<^verbatim>\<open>lualib/llex.c\<close>, \<^verbatim>\<open>llex.h\<close>).  A function that changes the lexer's state returns the
  new state; a raised error ends it, and \<open>None\<close> is a read or a slice outside a block of memory.  The
  buffer for tokens is the text it holds and the size of its memory.
\<close>

section \<open>Tokens\<close>

definition FIRST_RESERVED :: int where "FIRST_RESERVED = 257"

definition luaX_tokens :: "char list list" where
  "luaX_tokens =
     [''and'', ''break'', ''do'', ''else'', ''elseif'',
      ''end'', ''false'', ''for'', ''function'', ''if'',
      ''in'', ''local'', ''nil'', ''not'', ''or'', ''repeat'',
      ''return'', ''then'', ''true'', ''until'', ''while'',
      ''..'', ''...'', ''=='', ''>='', ''<='', ''~='',
      ''<number>'', ''<name>'', ''<string>'', ''<eof>'']"

definition TK_WHILE :: int where "TK_WHILE = 277"
definition TK_CONCAT :: int where "TK_CONCAT = 278"
definition TK_DOTS :: int where "TK_DOTS = 279"
definition TK_EQ :: int where "TK_EQ = 280"
definition TK_GE :: int where "TK_GE = 281"
definition TK_LE :: int where "TK_LE = 282"
definition TK_NE :: int where "TK_NE = 283"
definition TK_NUMBER :: int where "TK_NUMBER = 284"
definition TK_NAME :: int where "TK_NAME = 285"
definition TK_STRING :: int where "TK_STRING = 286"
definition TK_EOS :: int where "TK_EOS = 287"

definition NUM_RESERVED :: nat where "NUM_RESERVED = nat (TK_WHILE - FIRST_RESERVED + 1)"

datatype 'n SemInfo = Sem_unset | Sem_r 'n | Sem_ts "char list"

record 'n Token =
  token :: int
  seminfo :: "'n SemInfo"

text \<open>\<open>anchored\<close>: the strings entered in the table of constants of the function being compiled, the field \<^verbatim>\<open>fs->h\<close>.\<close>

record 'n LexState =
  current :: int
  linenumber :: int
  lastline :: int
  tok :: "'n Token"
  lookahead :: "'n Token"
  lex_z :: ZIO
  buff :: "char list"
  buff_size :: nat
  lex_source :: "char list"
  decpoint :: char
  anchored :: "char list list"

text \<open>
  What the lexer uses of its surroundings: \<^verbatim>\<open>strtod\<close>, the decimal point of the current locale, and
  whether the allocator grants a block.
\<close>

record 'n lex_env =
  strtod :: "char list \<Rightarrow> 'n \<times> nat"
  num_of_ulong :: "32 word \<Rightarrow> 'n"
  locale_point :: char
  grants :: "nat \<Rightarrow> bool"

section \<open>Errors\<close>

definition MAXSRC :: nat where "MAXSRC = 80"

text \<open>\<^verbatim>\<open>luaX_init\<close>: the number of a reserved word, from one, and zero for any other string.\<close>

fun word_index :: "char list list \<Rightarrow> char list \<Rightarrow> nat" where
  "word_index [] s = 0"
| "word_index (w # ws) s = (if w = s then 1 else (let k = word_index ws s in if k = 0 then 0 else k + 1))"

definition reserved :: "char list \<Rightarrow> nat" where
  "reserved s = word_index (take NUM_RESERVED luaX_tokens) s"

definition luaX_token2str :: "int \<Rightarrow> char list res" where
  "luaX_token2str t =
     (if t < FIRST_RESERVED then
        (if t < 0 \<or> 255 < t then None
         else rreturn (if iscntrl_C (char_of t) then ''char('' @ int_text t @ '')'' else [char_of t]))
      else if nat (t - FIRST_RESERVED) < length luaX_tokens
      then rreturn (luaX_tokens ! nat (t - FIRST_RESERVED)) else None)"

text \<open>The error with the position it gets, and no token named.\<close>

definition plain_error :: "'n LexState \<Rightarrow> char list \<Rightarrow> 'a res" where
  "plain_error ls msg =
     Some (Inl (LUA_ERRSYNTAX (luaO_chunkid (c_str (lex_source ls)) MAXSRC @ '':'' @ int_text (linenumber ls) @ '': '' @ msg)))"

definition lx_save :: "'n lex_env \<Rightarrow> 'n LexState \<Rightarrow> int \<Rightarrow> 'n LexState res" where
  "lx_save env ls c =
     rbind (if length (buff ls) + 1 > buff_size ls then
              (if int (buff_size ls) \<ge> MAX_SIZET div 2 then plain_error ls ''lexical element too long''
               else if \<not> grants env (buff_size ls * 2) then Some (Inl LUA_ERRMEM)
               else rreturn (ls\<lparr>buff_size := buff_size ls * 2\<rparr>))
            else rreturn ls) (\<lambda>ls.
     if length (buff ls) < buff_size ls then rreturn (ls\<lparr>buff := buff ls @ [char_of (c mod 256)]\<rparr>) else None)"

definition txtToken :: "'n lex_env \<Rightarrow> 'n LexState \<Rightarrow> int \<Rightarrow> char list res" where
  "txtToken env ls t =
     (if t = TK_NAME \<or> t = TK_STRING \<or> t = TK_NUMBER
      then rbind (lx_save env ls 0) (\<lambda>ls. rreturn (c_str (buff ls)))
      else luaX_token2str t)"

definition luaX_lexerror :: "'n lex_env \<Rightarrow> 'n LexState \<Rightarrow> char list \<Rightarrow> int \<Rightarrow> 'a res" where
  "luaX_lexerror env ls msg t =
     (if t \<noteq> 0 then rbind (txtToken env ls t) (\<lambda>x. plain_error ls (msg @ '' near '' @ LUA_QL x))
      else plain_error ls msg)"

definition luaX_syntaxerror :: "'n lex_env \<Rightarrow> 'n LexState \<Rightarrow> char list \<Rightarrow> 'a res" where
  "luaX_syntaxerror env ls msg = luaX_lexerror env ls msg (token (tok ls))"

text \<open>The new string and its entry in the table; the limit is the one of \<^verbatim>\<open>luaS_newlstr\<close>.\<close>

definition luaX_newstring :: "'n lex_env \<Rightarrow> 'n LexState \<Rightarrow> char list \<Rightarrow> (char list \<times> 'n LexState) res" where
  "luaX_newstring env ls s =
     (if int (length s) + 1 > MAX_SIZET - 16 then Some (Inl luaM_toobig)
      else if \<not> grants env (length s) then Some (Inl LUA_ERRMEM)
      else rreturn (s, ls\<lparr>anchored := (if s \<in> set (anchored ls) then anchored ls else s # anchored ls)\<rparr>))"

section \<open>Characters\<close>

definition lx_next :: "'n LexState \<Rightarrow> 'n LexState res" where
  "lx_next ls = (case zgetc (lex_z ls) of None \<Rightarrow> None | Some (z, c) \<Rightarrow> rreturn (ls\<lparr>lex_z := z, current := c\<rparr>))"

definition save_and_next :: "'n lex_env \<Rightarrow> 'n LexState \<Rightarrow> 'n LexState res" where
  "save_and_next env ls = rbind (lx_save env ls (current ls)) lx_next"

definition at :: "'n LexState \<Rightarrow> char \<Rightarrow> bool" where
  "at ls c \<longleftrightarrow> current ls = uchar c"

definition current_is :: "(char \<Rightarrow> bool) \<Rightarrow> 'n LexState \<Rightarrow> bool" where
  "current_is P ls \<longleftrightarrow> current ls \<noteq> EOZ \<and> P (char_of (current ls))"

definition currIsNewline :: "'n LexState \<Rightarrow> bool" where
  "currIsNewline ls \<longleftrightarrow> at ls (CHR 0x0A) \<or> at ls (CHR 0x0D)"

definition inclinenumber :: "'n lex_env \<Rightarrow> 'n LexState \<Rightarrow> 'n LexState res" where
  "inclinenumber env ls =
     rbind (lx_next ls) (\<lambda>ls1.
     rbind (if currIsNewline ls1 \<and> current ls1 \<noteq> current ls then lx_next ls1 else rreturn ls1) (\<lambda>ls2.
     let ls3 = ls2\<lparr>linenumber := c_int (linenumber ls2 + 1)\<rparr>
     in if linenumber ls3 \<ge> MAX_INT then luaX_syntaxerror env ls3 ''chunk has too many lines'' else rreturn ls3))"

definition resetbuffer :: "'n LexState \<Rightarrow> 'n LexState" where
  "resetbuffer ls = ls\<lparr>buff := []\<rparr>"

definition luaX_setinput :: "'n lex_env \<Rightarrow> 'n LexState \<Rightarrow> ZIO \<Rightarrow> char list \<Rightarrow> 'n LexState res" where
  "luaX_setinput env ls z src =
     (if \<not> grants env LUA_MINBUFFER then Some (Inl LUA_ERRMEM)
      else lx_next (ls\<lparr>decpoint := CHR ''.'', lookahead := (lookahead ls)\<lparr>token := TK_EOS\<rparr>, lex_z := z,
        linenumber := 1, lastline := 1, lex_source := src, buff_size := LUA_MINBUFFER\<rparr>))"

text \<open>\<^verbatim>\<open>strchr\<close> finds the terminator of the set as well.\<close>

definition check_next :: "'n lex_env \<Rightarrow> 'n LexState \<Rightarrow> char list \<Rightarrow> (bool \<times> 'n LexState) res" where
  "check_next env ls s =
     (if char_of (current ls mod 256) \<notin> set s \<union> {NUL} then rreturn (False, ls)
      else rbind (save_and_next env ls) (\<lambda>ls. rreturn (True, ls)))"


section \<open>The loops end\<close>

text \<open>
  Every read from a stream, the one past its end included, uses up a block of the reader, a byte of the
  current block or the count; so a loop that reads in every turn ends on any stream.
\<close>

definition zio_less :: "(ZIO \<times> ZIO) set" where
  "zio_less = measures [\<lambda>z. length (zreader z), \<lambda>z. length (zblock z) - zp z, \<lambda>z. of_bool (zn z = 0)]"

lemma wf_zio_less: "wf zio_less" and trans_zio_less: "trans zio_less"
  by (auto simp: zio_less_def trans_def)

lemma zgetc_less: "zgetc z = Some (z', c) \<Longrightarrow> (z', z) \<in> zio_less"
  by (cases "zreader z" rule: script_bytes.cases) (auto simp: zgetc_def zio_less_def split: if_splits)

definition ls_less :: "('n LexState \<times> 'n LexState) set" where
  "ls_less = inv_image zio_less lex_z"

lemma wf_ls_less: "wf ls_less"
  by (simp add: ls_less_def wf_zio_less)

lemma ls_less_trans [trans]: "(a, b) \<in> ls_less \<Longrightarrow> (b, c) \<in> ls_less \<Longrightarrow> (a, c) \<in> ls_less"
  using trans_zio_less by (auto simp: ls_less_def trans_def)

lemma ls_less_same: "lex_z a = lex_z a' \<Longrightarrow> lex_z b = lex_z b' \<Longrightarrow> (a, b) \<in> ls_less \<longleftrightarrow> (a', b') \<in> ls_less"
  by (simp add: ls_less_def)

lemma lx_next_less: "lx_next ls = Some (Inr ls1) \<Longrightarrow> (ls1, ls) \<in> ls_less"
  by (auto simp: lx_next_def ls_less_def split: option.splits, erule zgetc_less)

lemma lx_save_same: "lx_save env ls c = Some (Inr ls1) \<Longrightarrow> lex_z ls1 = lex_z ls"
  by (auto simp: lx_save_def plain_error_def split: if_splits)

lemma save_and_next_less: "save_and_next env ls = Some (Inr ls1) \<Longrightarrow> (ls1, ls) \<in> ls_less"
  by (auto simp: save_and_next_def dest!: lx_save_same lx_next_less) (simp add: ls_less_def)

lemma no_lexerror [simp]: "luaX_lexerror env ls msg t \<noteq> Some (Inr x)" "plain_error ls msg \<noteq> Some (Inr x)"
  by (auto simp: luaX_lexerror_def plain_error_def)

lemma inclinenumber_less: "inclinenumber env ls = Some (Inr ls1) \<Longrightarrow> (ls1, ls) \<in> ls_less"
  by (auto simp: inclinenumber_def luaX_syntaxerror_def Let_def dest!: lx_next_less split: if_splits)
    (auto simp: ls_less_def intro: trans_zio_less [THEN transD])

lemma check_next_less: "check_next env ls s = Some (Inr (b, ls1)) \<Longrightarrow> ls1 = ls \<or> (ls1, ls) \<in> ls_less"
  by (auto simp: check_next_def dest: save_and_next_less split: if_splits)

section \<open>Numbers\<close>

definition buffreplace :: "'n LexState \<Rightarrow> char \<Rightarrow> char \<Rightarrow> 'n LexState" where
  "buffreplace ls from to = ls\<lparr>buff := map (\<lambda>c. if c = from then to else c) (buff ls)\<rparr>"

definition trydecpoint :: "'n lex_env \<Rightarrow> 'n LexState \<Rightarrow> ('n SemInfo \<times> 'n LexState) res" where
  "trydecpoint env ls =
     (let old = decpoint ls;
          ls = buffreplace (ls\<lparr>decpoint := locale_point env\<rparr>) old (locale_point env)
      in case luaO_str2d (strtod env) (num_of_ulong env) (c_str (buff ls)) of
           None \<Rightarrow> luaX_lexerror env (buffreplace ls (decpoint ls) (CHR ''.'')) ''malformed number'' TK_NUMBER
         | Some r \<Rightarrow> rreturn (Sem_r r, ls))"

text \<open>\<open>save_while P\<close>: the loop that saves characters as long as they are of the kind \<open>P\<close>.\<close>

function save_while :: "'n lex_env \<Rightarrow> (char \<Rightarrow> bool) \<Rightarrow> 'n LexState \<Rightarrow> 'n LexState res" where
  "save_while env P ls =
     (if current_is P ls then rbind (save_and_next env ls) (\<lambda>ls. save_while env P ls) else rreturn ls)"
  by pat_completeness auto
termination
  by (relation "inv_image ls_less (\<lambda>(env, P, ls). ls)") (auto simp: wf_ls_less dest: save_and_next_less)

declare save_while.simps [simp del]

definition read_numeral :: "'n lex_env \<Rightarrow> 'n LexState \<Rightarrow> ('n SemInfo \<times> 'n LexState) res" where
  "read_numeral env ls =
     rbind (save_and_next env ls) (\<lambda>ls.
     rbind (save_while env (\<lambda>c. isdigit_C c \<or> c = CHR ''.'') ls) (\<lambda>ls.
     rbind (check_next env ls ''Ee'') (\<lambda>(e, ls).
     rbind (if e then check_next env ls ''+-'' else rreturn (False, ls)) (\<lambda>(_, ls).
     rbind (save_while env (\<lambda>c. isalnum_C c \<or> c = CHR ''_'') ls) (\<lambda>ls.
     rbind (lx_save env ls 0) (\<lambda>ls.
     let ls = buffreplace ls (CHR ''.'') (decpoint ls)
     in case luaO_str2d (strtod env) (num_of_ulong env) (c_str (buff ls)) of
          None \<Rightarrow> trydecpoint env ls
        | Some r \<Rightarrow> rreturn (Sem_r r, ls)))))))"

section \<open>Strings\<close>

function sep_loop :: "'n lex_env \<Rightarrow> 'n LexState \<Rightarrow> int \<Rightarrow> (int \<times> 'n LexState) res" where
  "sep_loop env ls count =
     (if at ls (CHR ''='') then rbind (save_and_next env ls) (\<lambda>ls. sep_loop env ls (c_int (count + 1))) else rreturn (count, ls))"
  by pat_completeness auto
termination
  by (relation "inv_image ls_less (\<lambda>(env, ls, n). ls)") (auto simp: wf_ls_less dest: save_and_next_less)

declare sep_loop.simps [simp del]

definition skip_sep :: "'n lex_env \<Rightarrow> 'n LexState \<Rightarrow> (int \<times> 'n LexState) res" where
  "skip_sep env ls =
     rbind (save_and_next env ls) (\<lambda>ls1.
     rbind (sep_loop env ls1 0) (\<lambda>(count, ls2).
     rreturn (if current ls2 = current ls then count else - count - 1, ls2)))"

lemma save_while_less: "save_while env P ls = Some (Inr ls1) \<Longrightarrow> ls1 = ls \<or> (ls1, ls) \<in> ls_less"
proof (induction env P ls rule: save_while.induct)
  case (1 env P ls)
  show ?case using 1(2)
    by (subst (asm) save_while.simps) (auto split: if_splits, metis 1(1) ls_less_trans save_and_next_less)
qed

lemma sep_loop_less: "sep_loop env ls n = Some (Inr (m, ls1)) \<Longrightarrow> ls1 = ls \<or> (ls1, ls) \<in> ls_less"
proof (induction env ls n rule: sep_loop.induct)
  case (1 env ls n)
  show ?case using 1(2)
    by (subst (asm) sep_loop.simps) (auto split: if_splits, metis 1(1) ls_less_trans save_and_next_less)
qed

lemma skip_sep_less: "skip_sep env ls = Some (Inr (m, ls1)) \<Longrightarrow> (ls1, ls) \<in> ls_less"
  by (auto simp: skip_sep_def dest!: save_and_next_less sep_loop_less intro: ls_less_trans)

text \<open>The loop of a long string or, without \<open>keep\<close>, of a long comment.\<close>

function long_loop :: "'n lex_env \<Rightarrow> bool \<Rightarrow> int \<Rightarrow> 'n LexState \<Rightarrow> 'n LexState res" where
  "long_loop env keep sep ls =
     (if current ls = EOZ then
        luaX_lexerror env ls (if keep then ''unfinished long string'' else ''unfinished long comment'') TK_EOS
      else if at ls (CHR ''['') then
        rbind (skip_sep env ls) (\<lambda>(n, ls).
          if n = sep then
            rbind (save_and_next env ls) (\<lambda>ls.
              if sep = 0 then luaX_lexerror env ls ''nesting of [[...]] is deprecated'' (uchar (CHR ''[''))
              else long_loop env keep sep ls)
          else long_loop env keep sep ls)
      else if at ls (CHR '']'') then
        rbind (skip_sep env ls) (\<lambda>(n, ls).
          if n = sep then save_and_next env ls else long_loop env keep sep ls)
      else if currIsNewline ls then
        rbind (lx_save env ls 10) (\<lambda>ls.
        rbind (inclinenumber env ls) (\<lambda>ls.
          long_loop env keep sep (if keep then ls else resetbuffer ls)))
      else rbind (if keep then save_and_next env ls else lx_next ls) (\<lambda>ls. long_loop env keep sep ls))"
  by pat_completeness auto
termination
proof (relation "inv_image ls_less (\<lambda>(env, keep, sep, ls). ls)", goal_cases)
  case 1
  show ?case by (simp add: wf_ls_less)
qed (auto dest!: skip_sep_less save_and_next_less lx_next_less inclinenumber_less lx_save_same
      intro: trans_zio_less [THEN transD] split: if_splits simp: ls_less_def resetbuffer_def)

declare long_loop.simps [simp del]

definition read_long_string :: "'n lex_env \<Rightarrow> bool \<Rightarrow> int \<Rightarrow> 'n LexState \<Rightarrow> ('n SemInfo \<times> 'n LexState) res" where
  "read_long_string env keep sep ls =
     rbind (save_and_next env ls) (\<lambda>ls.
     rbind (if currIsNewline ls then inclinenumber env ls else rreturn ls) (\<lambda>ls.
     rbind (long_loop env keep sep ls) (\<lambda>ls.
     if keep then
       rbind (slice (buff ls) (2 + sep) (int (length (buff ls)) - 2 * (2 + sep))) (\<lambda>s.
       rbind (luaX_newstring env ls s) (\<lambda>(ts, ls). rreturn (Sem_ts ts, ls)))
     else rreturn (Sem_unset, ls))))"

text \<open>At most three digits of an escape sequence.\<close>

fun decimal_escape :: "nat \<Rightarrow> int \<Rightarrow> 'n LexState \<Rightarrow> (int \<times> 'n LexState) res" where
  "decimal_escape 0 c ls = rreturn (c, ls)"
| "decimal_escape (Suc k) c ls =
     rbind (lx_next ls) (\<lambda>ls1.
       let c1 = 10 * c + (current ls - uchar (CHR ''0''))
       in if 0 < k \<and> current_is isdigit_C ls1 then decimal_escape k c1 ls1 else rreturn (c1, ls1))"

definition simple_escapes :: "(char \<times> int) list" where
  "simple_escapes =
     [(CHR ''a'', 7), (CHR ''b'', 8), (CHR ''f'', 12), (CHR ''n'', 10), (CHR ''r'', 13), (CHR ''t'', 9), (CHR ''v'', 11)]"

text \<open>What follows a backslash.\<close>

definition escape :: "'n lex_env \<Rightarrow> 'n LexState \<Rightarrow> 'n LexState res" where
  "escape env ls =
     (if current ls = EOZ then rreturn ls
      else if currIsNewline ls then rbind (lx_save env ls 10) (inclinenumber env)
      else case map_of simple_escapes (char_of (current ls)) of
             Some c \<Rightarrow> rbind (lx_save env ls c) lx_next
           | None \<Rightarrow>
               if \<not> current_is isdigit_C ls then save_and_next env ls
               else rbind (decimal_escape 3 0 ls) (\<lambda>(c, ls).
                      if c > 255 then luaX_lexerror env ls ''escape sequence too large'' TK_STRING
                      else lx_save env ls c))"

lemma decimal_escape_less: "decimal_escape k c ls = Some (Inr (d, ls1)) \<Longrightarrow> ls1 = ls \<or> (ls1, ls) \<in> ls_less"
proof (induction k c ls rule: decimal_escape.induct)
  case (2 k c ls)
  from 2(2) show ?case
    by (auto simp: Let_def split: if_splits dest: lx_next_less) (metis 2(1) ls_less_trans lx_next_less)
qed simp

lemma escape_less: "escape env ls = Some (Inr ls1) \<Longrightarrow> lex_z ls1 = lex_z ls \<or> (ls1, ls) \<in> ls_less"
  by (auto simp: escape_def split: if_splits option.splits
      dest!: lx_save_same lx_next_less inclinenumber_less save_and_next_less decimal_escape_less)
    (auto simp: ls_less_def)

function string_loop :: "'n lex_env \<Rightarrow> int \<Rightarrow> 'n LexState \<Rightarrow> 'n LexState res" where
  "string_loop env del ls =
     (if current ls \<noteq> del then
        (if current ls = EOZ then luaX_lexerror env ls ''unfinished string'' TK_EOS
         else if currIsNewline ls then luaX_lexerror env ls ''unfinished string'' TK_STRING
         else if at ls (CHR 0x5C) then
           rbind (lx_next ls) (\<lambda>ls. rbind (escape env ls) (\<lambda>ls. string_loop env del ls))
         else rbind (save_and_next env ls) (\<lambda>ls. string_loop env del ls))
      else rreturn ls)"
  by pat_completeness auto

termination
proof (relation "inv_image ls_less (\<lambda>(env, del, ls). ls)", goal_cases)
  case 1
  show ?case by (simp add: wf_ls_less)
next
  case (2 env del ls ls1 ls2)
  then show ?case using ls_less_trans by (auto dest!: lx_next_less escape_less) (simp add: ls_less_def)
qed (auto dest: save_and_next_less)

declare string_loop.simps [simp del]

definition read_string :: "'n lex_env \<Rightarrow> int \<Rightarrow> 'n LexState \<Rightarrow> ('n SemInfo \<times> 'n LexState) res" where
  "read_string env del ls =
     rbind (save_and_next env ls) (\<lambda>ls.
     rbind (string_loop env del ls) (\<lambda>ls.
     rbind (save_and_next env ls) (\<lambda>ls.
     rbind (slice (buff ls) 1 (int (length (buff ls)) - 2)) (\<lambda>s.
     rbind (luaX_newstring env ls s) (\<lambda>(ts, ls). rreturn (Sem_ts ts, ls))))))"

section \<open>The next token\<close>

function skip_line :: "'n LexState \<Rightarrow> 'n LexState res" where
  "skip_line ls = (if \<not> currIsNewline ls \<and> current ls \<noteq> EOZ then rbind (lx_next ls) skip_line else rreturn ls)"
  by pat_completeness auto
termination
  by (relation ls_less) (auto simp: wf_ls_less dest: lx_next_less)

declare skip_line.simps [simp del]

lemma skip_line_less: "skip_line ls = Some (Inr ls1) \<Longrightarrow> ls1 = ls \<or> (ls1, ls) \<in> ls_less"
proof (induction ls rule: skip_line.induct)
  case (1 ls)
  show ?case using 1(2)
    by (subst (asm) skip_line.simps) (auto split: if_splits, metis 1(1) ls_less_trans lx_next_less)
qed

text \<open>The part of a comment after its two dashes.\<close>

definition comment :: "'n lex_env \<Rightarrow> 'n LexState \<Rightarrow> 'n LexState res" where
  "comment env ls =
     (if at ls (CHR ''['') then
        rbind (skip_sep env ls) (\<lambda>(sep, ls).
        let ls = resetbuffer ls
        in if sep \<ge> 0 then rbind (read_long_string env False sep ls) (\<lambda>(_, ls). rreturn (resetbuffer ls))
           else skip_line ls)
      else skip_line ls)"

text \<open>A character, and the token if an equals sign follows.\<close>

definition with_equals :: "'n LexState \<Rightarrow> char \<Rightarrow> int \<Rightarrow> (int \<times> 'n SemInfo \<times> 'n LexState) res" where
  "with_equals ls c t =
     rbind (lx_next ls) (\<lambda>ls.
       if \<not> at ls (CHR ''='') then rreturn (uchar c, Sem_unset, ls)
       else rbind (lx_next ls) (\<lambda>ls. rreturn (t, Sem_unset, ls)))"


definition read_name :: "'n lex_env \<Rightarrow> 'n LexState \<Rightarrow> (int \<times> 'n SemInfo \<times> 'n LexState) res" where
  "read_name env ls =
     rbind (save_and_next env ls) (\<lambda>ls.
     rbind (save_while env (\<lambda>c. isalnum_C c \<or> c = CHR ''_'') ls) (\<lambda>ls.
     rbind (luaX_newstring env ls (buff ls)) (\<lambda>(ts, ls).
     rreturn (if reserved ts > 0 then (int (reserved ts) - 1 + FIRST_RESERVED, Sem_unset, ls)
              else (TK_NAME, Sem_ts ts, ls)))))"

lemma luaX_newstring_same: "luaX_newstring env ls s = Some (Inr (t, ls1)) \<Longrightarrow> lex_z ls1 = lex_z ls \<and> t = s"
  by (auto simp: luaX_newstring_def split: if_splits)

lemma long_loop_less: "long_loop env keep sep ls = Some (Inr ls1) \<Longrightarrow> (ls1, ls) \<in> ls_less"
proof (induction ls rule: wf_induct_rule [OF wf_ls_less])
  case (1 ls)
  have step: "(ls1, ls) \<in> ls_less" if "(a, ls) \<in> ls_less" "long_loop env keep sep a = Some (Inr ls1)" for a
    using that 1(1) ls_less_trans by blast
  have reset: "(resetbuffer b, a) \<in> ls_less \<longleftrightarrow> (b, a) \<in> ls_less" "lex_z b = lex_z c \<Longrightarrow> (a, b) \<in> ls_less \<Longrightarrow> (a, c) \<in> ls_less"
    for a b c :: "'a LexState" by (simp_all add: ls_less_def resetbuffer_def)
  have eq: "long_loop env keep sep ls = Some (Inr ls1)" by fact
  consider "current ls = EOZ" | "current ls \<noteq> EOZ" "at ls (CHR ''['')" | "current ls \<noteq> EOZ" "\<not> at ls (CHR ''['')" "at ls (CHR '']'')"
    | "current ls \<noteq> EOZ" "\<not> at ls (CHR ''['')" "\<not> at ls (CHR '']'')" "currIsNewline ls"
    | "current ls \<noteq> EOZ" "\<not> at ls (CHR ''['')" "\<not> at ls (CHR '']'')" "\<not> currIsNewline ls" by blast
  then show ?case
  proof cases
    case 2
    then show ?thesis using eq
      by (subst (asm) long_loop.simps) (auto split: if_splits dest!: skip_sep_less dest: save_and_next_less step ls_less_trans)
  next
    case 3
    then show ?thesis using eq
      by (subst (asm) long_loop.simps) (auto split: if_splits dest!: skip_sep_less dest: save_and_next_less step ls_less_trans)
  next
    case 4
    then obtain a b where ab: "lx_save env ls 10 = Some (Inr a)" "inclinenumber env a = Some (Inr b)"
      "long_loop env keep sep (if keep then b else resetbuffer b) = Some (Inr ls1)"
      using eq by (subst (asm) long_loop.simps) auto
    have "(b, ls) \<in> ls_less" using ab(1,2) inclinenumber_less lx_save_same reset(2) by blast
    then have "((if keep then b else resetbuffer b), ls) \<in> ls_less" by (simp add: reset)
    then show ?thesis using ab(3) by (rule step)
  next
    case 5
    then obtain a where a: "(if keep then save_and_next env ls else lx_next ls) = Some (Inr a)"
      "long_loop env keep sep a = Some (Inr ls1)"
      using eq by (subst (asm) long_loop.simps) auto
    have "(a, ls) \<in> ls_less" using a(1) save_and_next_less lx_next_less by (auto split: if_splits)
    then show ?thesis using a(2) by (rule step)
  qed (use eq in \<open>subst (asm) long_loop.simps, simp\<close>)
qed

lemma read_long_string_less:
  assumes "read_long_string env keep sep ls = Some (Inr (s, ls1))"
  shows "(ls1, ls) \<in> ls_less"
proof -
  obtain a b c where a: "save_and_next env ls = Some (Inr a)"
    and b: "(if currIsNewline a then inclinenumber env a else rreturn a) = Some (Inr b)"
    and c: "long_loop env keep sep b = Some (Inr c)" and d: "lex_z ls1 = lex_z c"
    using assms unfolding read_long_string_def by (cases keep) (auto dest!: luaX_newstring_same)
  have "b = a \<or> (b, a) \<in> ls_less" using b inclinenumber_less by (auto split: if_splits)
  then have "(c, ls) \<in> ls_less"
    using save_and_next_less [OF a] long_loop_less [OF c] by (meson ls_less_trans)
  then show ?thesis using d by (simp add: ls_less_def)
qed

lemma comment_less: "comment env ls = Some (Inr ls1) \<Longrightarrow> lex_z ls1 = lex_z ls \<or> (ls1, ls) \<in> ls_less"
  by (auto simp: comment_def Let_def resetbuffer_def split: if_splits
      dest!: skip_sep_less read_long_string_less skip_line_less)
    (auto simp: ls_less_def intro: trans_zio_less [THEN transD])

function lex_loop :: "'n lex_env \<Rightarrow> 'n LexState \<Rightarrow> (int \<times> 'n SemInfo \<times> 'n LexState) res" where
  "lex_loop env ls =
     (if currIsNewline ls then rbind (inclinenumber env ls) (lex_loop env)
      else if at ls (CHR ''-'') then
        rbind (lx_next ls) (\<lambda>ls.
          if \<not> at ls (CHR ''-'') then rreturn (uchar (CHR ''-''), Sem_unset, ls)
          else rbind (lx_next ls) (\<lambda>ls. rbind (comment env ls) (lex_loop env)))
      else if at ls (CHR ''['') then
        rbind (skip_sep env ls) (\<lambda>(sep, ls).
          if sep \<ge> 0 then rbind (read_long_string env True sep ls) (\<lambda>(s, ls). rreturn (TK_STRING, s, ls))
          else if sep = - 1 then rreturn (uchar (CHR ''[''), Sem_unset, ls)
          else luaX_lexerror env ls ''invalid long string delimiter'' TK_STRING)
      else if at ls (CHR ''='') then with_equals ls (CHR ''='') TK_EQ
      else if at ls (CHR ''<'') then with_equals ls (CHR ''<'') TK_LE
      else if at ls (CHR ''>'') then with_equals ls (CHR ''>'') TK_GE
      else if at ls (CHR ''~'') then with_equals ls (CHR ''~'') TK_NE
      else if at ls (CHR 0x22) \<or> at ls (CHR 0x27) then
        rbind (read_string env (current ls) ls) (\<lambda>(s, ls). rreturn (TK_STRING, s, ls))
      else if at ls (CHR ''.'') then
        rbind (save_and_next env ls) (\<lambda>ls.
        rbind (check_next env ls ''.'') (\<lambda>(two, ls).
          if two then
            rbind (check_next env ls ''.'') (\<lambda>(three, ls).
              rreturn (if three then TK_DOTS else TK_CONCAT, Sem_unset, ls))
          else if \<not> current_is isdigit_C ls then rreturn (uchar (CHR ''.''), Sem_unset, ls)
          else rbind (read_numeral env ls) (\<lambda>(s, ls). rreturn (TK_NUMBER, s, ls))))
      else if current ls = EOZ then rreturn (TK_EOS, Sem_unset, ls)
      else if current_is isspace_C ls then rbind (lx_next ls) (lex_loop env)
      else if current_is isdigit_C ls then rbind (read_numeral env ls) (\<lambda>(s, ls). rreturn (TK_NUMBER, s, ls))
      else if current_is isalpha_C ls \<or> at ls (CHR ''_'') then read_name env ls
      else rbind (lx_next ls) (\<lambda>ls1. rreturn (current ls, Sem_unset, ls1)))"
  by pat_completeness auto

termination
proof (relation "inv_image ls_less (\<lambda>(env, ls). ls)", goal_cases)
  case 1
  show ?case by (simp add: wf_ls_less)
next
  case (3 env ls ls1 ls2 ls3)
  then show ?case
    by (auto dest!: lx_next_less comment_less) (auto simp: ls_less_def intro: trans_zio_less [THEN transD])
qed (auto dest: inclinenumber_less lx_next_less)

declare lex_loop.simps [simp del]

definition llex :: "'n lex_env \<Rightarrow> 'n LexState \<Rightarrow> (int \<times> 'n SemInfo \<times> 'n LexState) res" where
  "llex env ls = lex_loop env (resetbuffer ls)"

text \<open>A token with no value leaves the field \<^verbatim>\<open>seminfo\<close> as it is.\<close>

definition set_token :: "'n Token \<Rightarrow> int \<Rightarrow> 'n SemInfo \<Rightarrow> 'n Token" where
  "set_token t k s = (case s of Sem_unset \<Rightarrow> t\<lparr>token := k\<rparr> | _ \<Rightarrow> \<lparr>token = k, seminfo = s\<rparr>)"

definition luaX_next :: "'n lex_env \<Rightarrow> 'n LexState \<Rightarrow> 'n LexState res" where
  "luaX_next env ls =
     (let ls = ls\<lparr>lastline := linenumber ls\<rparr>
      in if token (lookahead ls) \<noteq> TK_EOS
         then rreturn (ls\<lparr>tok := lookahead ls, lookahead := (lookahead ls)\<lparr>token := TK_EOS\<rparr>\<rparr>)
         else rbind (llex env ls) (\<lambda>(k, s, ls). rreturn (ls\<lparr>tok := set_token (tok ls) k s\<rparr>)))"

definition luaX_lookahead :: "'n lex_env \<Rightarrow> 'n LexState \<Rightarrow> 'n LexState res" where
  "luaX_lookahead env ls =
     rbind (llex env ls) (\<lambda>(k, s, ls). rreturn (ls\<lparr>lookahead := set_token (lookahead ls) k s\<rparr>))"

end
