(* ===== verification/LuaLexSafe.thy ===== *)
theory LuaLexSafe
  imports LuaLex
begin

text \<open>
  The invariant of the lexer and its safety.  \<^verbatim>\<open>zgetc\<close> must not be called again once it has returned
  \<open>EOZ\<close>, since it leaves a wrapped count of bytes behind; the invariant says where the lexer may read.
\<close>

section \<open>The invariant\<close>

definition token_ok :: "int \<Rightarrow> bool" where
  "token_ok t \<longleftrightarrow> 0 \<le> t \<and> t \<le> 255 \<or> FIRST_RESERVED \<le> t \<and> t \<le> TK_EOS"

definition buffer_ok :: "'n LexState \<Rightarrow> bool" where
  "buffer_ok ls \<longleftrightarrow> length (buff ls) \<le> buff_size ls \<and> (\<exists>k\<le>26. buff_size ls = 2 ^ (k + 5))"

definition lex_ok :: "'n LexState \<Rightarrow> bool" where
  "lex_ok ls \<longleftrightarrow> (current ls = EOZ \<or> (\<exists>c. current ls = uchar c)) \<and> (current ls \<noteq> EOZ \<longrightarrow> zio_ok (lex_z ls)) \<and>
     buffer_ok ls \<and> token_ok (token (tok ls)) \<and> token_ok (token (lookahead ls)) \<and> 1 \<le> linenumber ls \<and> linenumber ls < MAX_INT"

text \<open>What every function of the lexer leaves as it is; lines only increase.\<close>

definition goes :: "'n LexState \<Rightarrow> 'n LexState \<Rightarrow> bool" where
  "goes ls ls1 \<longleftrightarrow> lex_ok ls1 \<and> tok ls1 = tok ls \<and> lookahead ls1 = lookahead ls \<and> lastline ls1 = lastline ls \<and>
     linenumber ls \<le> linenumber ls1"

lemma goes_trans: "goes a b \<Longrightarrow> goes b c \<Longrightarrow> goes a c"
  by (auto simp: goes_def)

lemma goes_refl: "lex_ok ls \<Longrightarrow> goes ls ls"
  by (simp add: goes_def)

lemma goes_ok: "goes a b \<Longrightarrow> lex_ok b"
  by (simp add: goes_def)

lemma buff_reset [simp]: "buff (resetbuffer ls) = []"
  by (simp add: resetbuffer_def)

lemma goes_resetbuffer: "goes a b \<Longrightarrow> goes a (resetbuffer b)"
  by (auto simp: goes_def lex_ok_def buffer_ok_def resetbuffer_def)

section \<open>Errors\<close>

lemma plain_error_ok [simp]: "returns (plain_error ls msg) P"
  by (simp add: plain_error_def)

lemma buffer_size: "buffer_ok ls \<Longrightarrow> 32 \<le> buff_size ls \<and> buff_size ls \<le> 2147483648"
proof -
  assume "buffer_ok ls"
  then obtain k :: nat where k: "k \<le> 26" "buff_size ls = 2 ^ (k + 5)" by (auto simp: buffer_ok_def)
  have "(2 :: nat) ^ 5 \<le> 2 ^ (k + 5)" "(2 :: nat) ^ (k + 5) \<le> 2 ^ 31" using k(1) by (intro power_increasing; simp)+
  then show ?thesis using k(2) by simp
qed

lemma lx_save_buffer:
  assumes "buffer_ok ls"
  shows "returns (lx_save env ls c) (\<lambda>ls1. buffer_ok ls1 \<and>
    (\<exists>n. ls1 = ls\<lparr>buff_size := n, buff := buff ls @ [char_of (c mod 256)]\<rparr>))"
proof (cases "length (buff ls) + 1 > buff_size ls")
  case True
  obtain k :: nat where k: "k \<le> 26" "buff_size ls = 2 ^ (k + 5)" using assms by (auto simp: buffer_ok_def)
  have len: "length (buff ls) + 1 \<le> buff_size ls * 2" using buffer_size [OF assms] assms by (auto simp: buffer_ok_def)
  have "buffer_ok (ls\<lparr>buff_size := buff_size ls * 2, buff := buff ls @ [char_of (c mod 256)]\<rparr>)"
    if "int (buff_size ls) < MAX_SIZET div 2"
  proof -
    have "k < 26" using that k by (cases "k = 26") (auto simp: MAX_SIZET_def)
    then have "\<exists>k'\<le>26. buff_size ls * 2 = 2 ^ (k' + 5)" using k(2) by (intro exI [of _ "k + 1"]) (simp add: power_add)
    then show ?thesis using len by (simp add: buffer_ok_def)
  qed
  then show ?thesis using True len by (auto simp: lx_save_def plain_error_def)
next
  case False
  then show ?thesis using assms by (auto simp: lx_save_def buffer_ok_def intro!: exI [of _ "buff_size ls"])
qed

lemma lx_save_ok:
  assumes "lex_ok ls"
  shows "returns (lx_save env ls c) (\<lambda>ls1. goes ls ls1 \<and> buff ls1 = buff ls @ [char_of (c mod 256)] \<and>
    current ls1 = current ls \<and> lex_z ls1 = lex_z ls)"
  by (rule returns_mono [OF lx_save_buffer]) (use assms in \<open>auto simp: goes_def lex_ok_def\<close>)

lemma tokens_length: "length luaX_tokens = 31"
  by (simp add: luaX_tokens_def)

lemma token2str_ok: "token_ok t \<Longrightarrow> returns (luaX_token2str t) (\<lambda>_. True)"
  by (auto simp: luaX_token2str_def token_ok_def tokens_length FIRST_RESERVED_def TK_EOS_def)

lemma lexerror_ok:
  assumes "buffer_ok ls" "token_ok t"
  shows "returns (luaX_lexerror env ls msg t) P"
proof -
  have "returns (txtToken env ls t) (\<lambda>_. True)"
    unfolding txtToken_def
    by (auto intro!: returns_bind [OF lx_save_buffer [OF assms(1)]] token2str_ok [OF assms(2)] returns_if)
  then show ?thesis
    by (auto simp: luaX_lexerror_def intro!: returns_bind [where P = "\<lambda>_. True"])
qed

lemma token_consts: "token_ok TK_EOS" "token_ok TK_STRING" "token_ok TK_NUMBER" "token_ok TK_NAME" "token_ok (uchar c)"
  "token_ok TK_EQ" "token_ok TK_LE" "token_ok TK_GE" "token_ok TK_NE" "token_ok TK_DOTS" "token_ok TK_CONCAT"
  using uchar_range [of c]
  by (auto simp: token_ok_def TK_EOS_def TK_STRING_def TK_NUMBER_def TK_NAME_def FIRST_RESERVED_def
      TK_EQ_def TK_LE_def TK_GE_def TK_NE_def TK_DOTS_def TK_CONCAT_def)

section \<open>Reading\<close>

lemma lx_next_ok:
  assumes "lex_ok ls" "current ls \<noteq> EOZ"
  shows "returns (lx_next ls) (\<lambda>ls1. goes ls ls1 \<and> buff ls1 = buff ls)"
proof -
  have z: "zio_ok (lex_z ls)" using assms by (simp add: lex_ok_def)
  show ?thesis
  proof (cases "stream (lex_z ls)")
    case Nil
    then show ?thesis using zgetc_end [OF z Nil] assms by (auto simp: lx_next_def goes_def lex_ok_def buffer_ok_def)
  next
    case (Cons c cs)
    then show ?thesis using zgetc_ok [OF z Cons] assms by (auto simp: lx_next_def goes_def lex_ok_def buffer_ok_def)
  qed
qed

lemma save_and_next_ok:
  assumes "lex_ok ls" "current ls \<noteq> EOZ"
  shows "returns (save_and_next env ls) (\<lambda>ls1. goes ls ls1 \<and> buff ls1 = buff ls @ [char_of (current ls)])"
  unfolding save_and_next_def
proof (rule returns_bind [OF lx_save_ok [OF assms(1)]])
  fix x assume x: "goes ls x \<and> buff x = buff ls @ [char_of (current ls mod 256)] \<and> current x = current ls \<and> lex_z x = lex_z ls"
  obtain c where "current ls = uchar c" using assms by (auto simp: lex_ok_def)
  then have "char_of (current ls mod 256) = (char_of (current ls) :: char)" using uchar_range [of c] by (simp add: uchar_def)
  then show "returns (lx_next x) (\<lambda>ls1. goes ls ls1 \<and> buff ls1 = buff ls @ [char_of (current ls)])"
    using x assms(2) by (intro returns_mono [OF lx_next_ok]) (auto intro: goes_trans goes_ok)
qed

lemma newline_not_EOZ: "currIsNewline ls \<Longrightarrow> current ls \<noteq> EOZ" "at ls c \<Longrightarrow> current ls \<noteq> EOZ"
  "current_is P ls \<Longrightarrow> current ls \<noteq> EOZ"
  by (auto simp: currIsNewline_def at_def current_is_def)

lemma inclinenumber_ok:
  assumes "lex_ok ls" "currIsNewline ls"
  shows "returns (inclinenumber env ls) (\<lambda>ls1. goes ls ls1 \<and> buff ls1 = buff ls)"
  unfolding inclinenumber_def
proof (rule returns_bind [OF lx_next_ok [OF assms(1) newline_not_EOZ(1) [OF assms(2)]]])
  fix a assume a: "goes ls a \<and> buff a = buff ls"
  have "returns (if currIsNewline a \<and> current a \<noteq> current ls then lx_next a else rreturn a) (\<lambda>b. goes ls b \<and> buff b = buff ls)"
    using a by (auto intro!: returns_if returns_mono [OF lx_next_ok] intro: goes_ok goes_trans simp: newline_not_EOZ(1))
  then show "returns (rbind (if currIsNewline a \<and> current a \<noteq> current ls then lx_next a else rreturn a) (\<lambda>ls2.
     let ls3 = ls2\<lparr>linenumber := c_int (linenumber ls2 + 1)\<rparr>
     in if linenumber ls3 \<ge> MAX_INT then luaX_syntaxerror env ls3 ''chunk has too many lines'' else rreturn ls3))
     (\<lambda>ls1. goes ls ls1 \<and> buff ls1 = buff ls)"
  proof (rule returns_bind)
    fix b assume b: "goes ls b \<and> buff b = buff ls"
    then have l: "c_int (linenumber b + 1) = linenumber b + 1" by (intro c_int_eq) (auto simp: goes_def lex_ok_def MAX_INT_def)
    let ?b = "b\<lparr>linenumber := linenumber b + 1\<rparr>"
    show "returns (let ls3 = b\<lparr>linenumber := c_int (linenumber b + 1)\<rparr>
     in if linenumber ls3 \<ge> MAX_INT then luaX_syntaxerror env ls3 ''chunk has too many lines'' else rreturn ls3)
     (\<lambda>ls1. goes ls ls1 \<and> buff ls1 = buff ls)"
      unfolding l Let_def
    proof (rule returns_if)
      assume "linenumber ?b \<ge> MAX_INT"
      show "returns (luaX_syntaxerror env ?b ''chunk has too many lines'') (\<lambda>ls1. goes ls ls1 \<and> buff ls1 = buff ls)"
        using b by (auto simp: luaX_syntaxerror_def goes_def lex_ok_def buffer_ok_def intro!: lexerror_ok)
    next
      assume "\<not> linenumber ?b \<ge> MAX_INT"
      then show "returns (rreturn ?b) (\<lambda>ls1. goes ls ls1 \<and> buff ls1 = buff ls)"
        using b by (auto simp: goes_def lex_ok_def buffer_ok_def)
    qed
  qed
qed

lemma check_next_ok:
  assumes "lex_ok ls" "NUL \<notin> set s" "CHR 0xFF \<notin> set s"
  shows "returns (check_next env ls s) (\<lambda>(b, ls1). goes ls ls1)"
proof (cases "current ls = EOZ")
  case True
  moreover have "char_of (255 :: int) = CHR 0xFF" by code_simp
  ultimately have "char_of (current ls mod 256) = CHR 0xFF" by (simp add: EOZ_def)
  then show ?thesis using assms by (simp add: check_next_def goes_refl)
next
  case False
  then show ?thesis
    by (auto simp: check_next_def goes_refl assms intro!: returns_if returns_bind [OF save_and_next_ok [OF assms(1) False]])
qed

section \<open>Loops\<close>

lemma buffreplace_goes: "goes a b \<Longrightarrow> goes a (buffreplace b x y)"
  by (auto simp: goes_def lex_ok_def buffer_ok_def buffreplace_def)

lemma lexerror_returns: "lex_ok ls \<Longrightarrow> token_ok t \<Longrightarrow> returns (luaX_lexerror env ls msg t) P"
  by (rule lexerror_ok) (simp_all add: lex_ok_def)

lemma save_while_ok: "lex_ok ls \<Longrightarrow> returns (save_while env P ls) (goes ls)"
proof (induction ls rule: wf_induct_rule [OF wf_ls_less])
  case (1 ls)
  show ?case
  proof (cases "current_is P ls")
    case True
    have "returns (rbind (save_and_next env ls) (\<lambda>ls. save_while env P ls)) (goes ls)"
      by (rule returns_bind [OF save_and_next_ok [OF 1(2) newline_not_EOZ(3) [OF True]]])
        (auto dest: save_and_next_less intro!: returns_mono [OF 1(1)] intro: goes_ok goes_trans)
    then show ?thesis using True by (subst save_while.simps) simp
  qed (use 1(2) in \<open>subst save_while.simps, simp add: goes_refl\<close>)
qed

text \<open>A separator: the count fits into an \<^verbatim>\<open>int\<close> since every equals sign takes a byte of the buffer.\<close>

lemma sep_loop_ok:
  "lex_ok ls \<Longrightarrow> 0 \<le> n \<Longrightarrow> n < int (length (buff ls)) \<Longrightarrow>
     returns (sep_loop env ls n) (\<lambda>(m, ls1). goes ls ls1 \<and> n \<le> m \<and> m < int (length (buff ls1)) \<and>
       int (length (buff ls1)) = int (length (buff ls)) + (m - n))"
proof (induction ls arbitrary: n rule: wf_induct_rule [OF wf_ls_less])
  case (1 ls)
  show ?case
  proof (cases "at ls (CHR ''='')")
    case True
    have "returns (sep_loop env ls1 (c_int (n + 1))) (\<lambda>(m, ls2). goes ls ls2 \<and> n \<le> m \<and> m < int (length (buff ls2)) \<and>
       int (length (buff ls2)) = int (length (buff ls)) + (m - n))"
      if s: "save_and_next env ls = Some (Inr ls1)" and g: "goes ls ls1 \<and> buff ls1 = buff ls @ [char_of (current ls)]" for ls1
    proof -
      have "length (buff ls1) \<le> 2147483648"
        using g buffer_size [of ls1] by (auto simp: goes_def lex_ok_def buffer_ok_def)
      then have c: "c_int (n + 1) = n + 1" using g 1(3,4) by (intro c_int_eq) auto
      show ?thesis unfolding c
        by (rule returns_mono [OF 1(1) [OF save_and_next_less [OF s]]])
          (use g 1(3,4) in \<open>auto intro: goes_ok goes_trans\<close>)
    qed
    then show ?thesis using True
      by (subst sep_loop.simps) (auto intro!: returns_bind [OF save_and_next_ok [OF 1(2) newline_not_EOZ(2) [OF True]]])
  qed (use 1 in \<open>subst sep_loop.simps, simp add: goes_refl\<close>)
qed

definition sep_read :: "'n LexState \<Rightarrow> int \<Rightarrow> 'n LexState \<Rightarrow> bool" where
  "sep_read ls n ls1 \<longleftrightarrow> goes ls ls1 \<and> length (buff ls) \<le> length (buff ls1) \<and>
    (0 \<le> n \<longrightarrow> current ls1 \<noteq> EOZ \<and> int (length (buff ls1)) = int (length (buff ls)) + 1 + n)"

lemma skip_sep_ok:
  assumes "lex_ok ls" "current ls \<noteq> EOZ"
  shows "returns (skip_sep env ls) (\<lambda>(n, ls1). sep_read ls n ls1)"
  unfolding skip_sep_def
proof (rule returns_bind [OF save_and_next_ok [OF assms]])
  fix a assume a: "goes ls a \<and> buff a = buff ls @ [char_of (current ls)]"
  show "returns (rbind (sep_loop env a 0) (\<lambda>(count, ls2). rreturn (if current ls2 = current ls then count else - count - 1, ls2)))
    (\<lambda>(n, ls1). sep_read ls n ls1)"
    by (rule returns_bind [OF sep_loop_ok [of a 0]]) (use a assms(2) in \<open>auto simp: sep_read_def intro: goes_ok goes_trans\<close>)
qed

section \<open>Strings and comments\<close>

text \<open>A long string ends with a delimiter as long as the one it began with, both in the buffer.\<close>

lemma long_loop_ok:
  "lex_ok ls \<Longrightarrow> 0 \<le> sep \<Longrightarrow> returns (long_loop env keep sep ls) (\<lambda>ls1. goes ls ls1 \<and>
     (keep \<longrightarrow> int (length (buff ls)) + 2 + sep \<le> int (length (buff ls1))))"
proof (induction ls rule: wf_induct_rule [OF wf_ls_less])
  case (1 ls)
  let ?Q = "\<lambda>ls ls1. goes ls ls1 \<and> (keep \<longrightarrow> int (length (buff ls)) + 2 + sep \<le> int (length (buff ls1)))"
  have again: "returns (long_loop env keep sep a) (?Q ls)" if "(a, ls) \<in> ls_less" "goes ls a" "keep \<Longrightarrow> length (buff ls) \<le> length (buff a)" for a
    by (rule returns_mono [OF 1(1) [OF that(1)]]) (use that 1(3) in \<open>auto intro: goes_ok goes_trans\<close>)
  note eq = long_loop.simps [of env keep sep ls]
  consider "current ls = EOZ" | "current ls \<noteq> EOZ" "at ls (CHR ''['')" | "current ls \<noteq> EOZ" "\<not> at ls (CHR ''['')" "at ls (CHR '']'')"
    | "current ls \<noteq> EOZ" "\<not> at ls (CHR ''['')" "\<not> at ls (CHR '']'')" "currIsNewline ls"
    | "current ls \<noteq> EOZ" "\<not> at ls (CHR ''['')" "\<not> at ls (CHR '']'')" "\<not> currIsNewline ls" by blast
  then show ?case
  proof cases
    case 1
    then show ?thesis unfolding eq by (simp add: lexerror_returns [OF \<open>lex_ok ls\<close> token_consts(1)])
  next
    case 2
    have "returns (if n = sep then
            rbind (save_and_next env a) (\<lambda>ls.
              if sep = 0 then luaX_lexerror env ls ''nesting of [[...]] is deprecated'' (uchar (CHR ''[''))
              else long_loop env keep sep ls)
          else long_loop env keep sep a) (?Q ls)" if s: "skip_sep env ls = Some (Inr (n, a))" and a: "sep_read ls n a" for n a
    proof (rule returns_if)
      assume n: "n = sep"
      then have "lex_ok a" "current a \<noteq> EOZ" using a \<open>0 \<le> sep\<close> by (auto simp: sep_read_def goes_def)
      then show "returns (rbind (save_and_next env a) (\<lambda>ls.
              if sep = 0 then luaX_lexerror env ls ''nesting of [[...]] is deprecated'' (uchar (CHR ''[''))
              else long_loop env keep sep ls)) (?Q ls)"
        using a skip_sep_less [OF s]
        by (intro returns_bind [OF save_and_next_ok] returns_if lexerror_returns again token_consts)
          (auto simp: sep_read_def dest: save_and_next_less intro: goes_ok goes_trans ls_less_trans)
    next
      assume "n \<noteq> sep"
      show "returns (long_loop env keep sep a) (?Q ls)"
        using a skip_sep_less [OF s] by (intro again) (auto simp: sep_read_def)
    qed
    then show ?thesis unfolding eq using 2 by (auto intro!: returns_bind [OF skip_sep_ok [OF \<open>lex_ok ls\<close> 2(1)]])
  next
    case 3
    have "returns (if n = sep then save_and_next env a else long_loop env keep sep a) (?Q ls)"
      if s: "skip_sep env ls = Some (Inr (n, a))" and a: "sep_read ls n a" for n a
    proof (rule returns_if)
      assume n: "n = sep"
      then have ok: "lex_ok a" "current a \<noteq> EOZ" using a \<open>0 \<le> sep\<close> by (auto simp: sep_read_def goes_def)
      show "returns (save_and_next env a) (?Q ls)"
        by (rule returns_mono [OF save_and_next_ok [OF ok]]) (use a n \<open>0 \<le> sep\<close> in \<open>auto simp: sep_read_def intro: goes_trans\<close>)
    next
      assume "n \<noteq> sep"
      show "returns (long_loop env keep sep a) (?Q ls)"
        using a skip_sep_less [OF s] by (intro again) (auto simp: sep_read_def)
    qed
    then show ?thesis unfolding eq using 3 by (auto intro!: returns_bind [OF skip_sep_ok [OF \<open>lex_ok ls\<close> 3(1)]])
  next
    case 4
    have "returns (rbind (inclinenumber env a) (\<lambda>ls. long_loop env keep sep (if keep then ls else resetbuffer ls))) (?Q ls)"
      if a: "goes ls a" "buff a = buff ls @ [char_of (10 mod 256 :: int)]" "current a = current ls" "lex_z a = lex_z ls" for a
    proof (rule returns_bind [OF inclinenumber_ok])
      fix b assume b: "inclinenumber env a = Some (Inr b)" "goes a b \<and> buff b = buff a"
      then have "(b, ls) \<in> ls_less" using inclinenumber_less [OF b(1)] a(4) by (simp add: ls_less_def)
      then have "((if keep then b else resetbuffer b), ls) \<in> ls_less" by (simp add: ls_less_def resetbuffer_def)
      then show "returns (long_loop env keep sep (if keep then b else resetbuffer b)) (?Q ls)"
        by (rule again) (use a b in \<open>auto intro: goes_trans goes_resetbuffer\<close>)
    qed (use a 4 in \<open>auto simp: currIsNewline_def at_def intro: goes_ok\<close>)
    then show ?thesis unfolding eq using 4 by (auto intro!: returns_bind [OF lx_save_ok [OF \<open>lex_ok ls\<close>]])
  next
    case 5
    have "returns (if keep then save_and_next env ls else lx_next ls)
        (\<lambda>a. goes ls a \<and> (keep \<longrightarrow> length (buff ls) \<le> length (buff a)))"
      using save_and_next_ok [OF \<open>lex_ok ls\<close> 5(1), of env] lx_next_ok [OF \<open>lex_ok ls\<close> 5(1)]
      by (auto elim!: returns_mono)
    then have "returns (rbind (if keep then save_and_next env ls else lx_next ls) (\<lambda>ls. long_loop env keep sep ls)) (?Q ls)"
    proof (rule returns_bind)
      fix a assume a: "(if keep then save_and_next env ls else lx_next ls) = Some (Inr a)"
        "goes ls a \<and> (keep \<longrightarrow> length (buff ls) \<le> length (buff a))"
      have "(a, ls) \<in> ls_less" using a(1) by (auto split: if_splits dest: save_and_next_less lx_next_less)
      then show "returns (long_loop env keep sep a) (?Q ls)" using a(2) by (intro again) auto
    qed
    then show ?thesis unfolding eq using 5 by simp
  qed
qed

lemma newstring_ok: "lex_ok ls \<Longrightarrow> returns (luaX_newstring env ls s) (\<lambda>(t, ls1). goes ls ls1 \<and> t = s)"
  by (auto simp: luaX_newstring_def goes_def lex_ok_def buffer_ok_def)

lemma read_long_string_ok:
  assumes "lex_ok ls" "current ls \<noteq> EOZ" "0 \<le> sep" "keep \<Longrightarrow> int (length (buff ls)) = 1 + sep"
  shows "returns (read_long_string env keep sep ls) (\<lambda>(s, ls1). goes ls ls1)"
  unfolding read_long_string_def
proof (rule returns_bind [OF save_and_next_ok [OF assms(1,2)]])
  fix a assume a: "goes ls a \<and> buff a = buff ls @ [char_of (current ls)]"
  have "returns (if currIsNewline a then inclinenumber env a else rreturn a) (\<lambda>b. goes a b \<and> buff b = buff a)"
    using a goes_ok [of ls a] by (intro returns_if inclinenumber_ok) (simp_all add: goes_refl)
  then show "returns (rbind (if currIsNewline a then inclinenumber env a else rreturn a) (\<lambda>ls.
     rbind (long_loop env keep sep ls) (\<lambda>ls.
     if keep then
       rbind (slice (buff ls) (2 + sep) (int (length (buff ls)) - 2 * (2 + sep))) (\<lambda>s.
       rbind (luaX_newstring env ls s) (\<lambda>(ts, ls). rreturn (Sem_ts ts, ls)))
     else rreturn (Sem_unset, ls)))) (\<lambda>(s, ls1). goes ls ls1)"
  proof (rule returns_bind)
    fix b assume b: "goes a b \<and> buff b = buff a"
    then have gb: "goes ls b" using a goes_trans by blast
    show "returns (rbind (long_loop env keep sep b) (\<lambda>ls.
     if keep then
       rbind (slice (buff ls) (2 + sep) (int (length (buff ls)) - 2 * (2 + sep))) (\<lambda>s.
       rbind (luaX_newstring env ls s) (\<lambda>(ts, ls). rreturn (Sem_ts ts, ls)))
     else rreturn (Sem_unset, ls))) (\<lambda>(s, ls1). goes ls ls1)"
    proof (rule returns_bind [OF long_loop_ok [OF goes_ok [OF gb] assms(3)]])
      fix c assume c: "goes b c \<and> (keep \<longrightarrow> int (length (buff b)) + 2 + sep \<le> int (length (buff c)))"
      then have gc: "goes ls c" using gb goes_trans by blast
      show "returns (if keep then
         rbind (slice (buff c) (2 + sep) (int (length (buff c)) - 2 * (2 + sep))) (\<lambda>s.
         rbind (luaX_newstring env c s) (\<lambda>(ts, ls). rreturn (Sem_ts ts, ls)))
        else rreturn (Sem_unset, c)) (\<lambda>(s, ls1). goes ls ls1)"
      proof (rule returns_if)
        assume keep
        then have len: "2 * (2 + sep) \<le> int (length (buff c))" using a b c assms(4) by simp
        have "returns (rbind (luaX_newstring env c s) (\<lambda>(ts, ls). rreturn (Sem_ts ts, ls))) (\<lambda>(s, ls1). goes ls ls1)" for s
          by (rule returns_bind [OF newstring_ok [OF goes_ok [OF gc]]]) (use gc in \<open>auto intro: goes_trans\<close>)
        then show "returns (rbind (slice (buff c) (2 + sep) (int (length (buff c)) - 2 * (2 + sep))) (\<lambda>s.
         rbind (luaX_newstring env c s) (\<lambda>(ts, ls). rreturn (Sem_ts ts, ls)))) (\<lambda>(s, ls1). goes ls ls1)"
          using len assms(3) by (simp add: slice_ok)
      qed (use gc in simp)
    qed
  qed
qed

lemma decimal_escape_ok:
  "lex_ok ls \<Longrightarrow> current_is isdigit_C ls \<Longrightarrow>
     returns (decimal_escape k c ls) (\<lambda>(d, ls1). goes ls ls1 \<and> length (buff ls) \<le> length (buff ls1))"
proof (induction k arbitrary: c ls)
  case (Suc k)
  show ?case unfolding decimal_escape.simps Let_def
    by (rule returns_bind [OF lx_next_ok [OF Suc(2) newline_not_EOZ(3) [OF Suc(3)]]])
      (auto intro!: returns_mono [OF Suc(1)] returns_if intro: goes_ok goes_trans)
qed (simp add: goes_refl)

lemma escape_ok:
  assumes "lex_ok ls"
  shows "returns (escape env ls) (\<lambda>ls1. goes ls ls1 \<and> length (buff ls) \<le> length (buff ls1))"
proof (cases "current ls = EOZ")
  case True
  then show ?thesis by (simp add: escape_def goes_refl assms)
next
  case False
  have 1: "returns (rbind (lx_save env ls 10) (inclinenumber env)) (\<lambda>ls1. goes ls ls1 \<and> length (buff ls) \<le> length (buff ls1))"
    if "currIsNewline ls"
    by (rule returns_bind [OF lx_save_ok [OF assms]], rule returns_mono [OF inclinenumber_ok])
      (use that in \<open>auto simp: currIsNewline_def at_def intro: goes_ok goes_trans\<close>)
  have 2: "returns (rbind (lx_save env ls c) lx_next) (\<lambda>ls1. goes ls ls1 \<and> length (buff ls) \<le> length (buff ls1))" for c
    by (rule returns_bind [OF lx_save_ok [OF assms]], rule returns_mono [OF lx_next_ok])
      (use False in \<open>auto intro: goes_ok goes_trans\<close>)
  have 3: "returns (rbind (decimal_escape 3 0 ls) (\<lambda>(c, ls).
      if c > 255 then luaX_lexerror env ls ''escape sequence too large'' TK_STRING else lx_save env ls c))
    (\<lambda>ls1. goes ls ls1 \<and> length (buff ls) \<le> length (buff ls1))" if "current_is isdigit_C ls"
    by (rule returns_bind [OF decimal_escape_ok [OF assms that]], clarify)
      (auto intro!: returns_if lexerror_returns token_consts returns_mono [OF lx_save_ok] intro: goes_ok goes_trans)
  have 4: "returns (save_and_next env ls) (\<lambda>ls1. goes ls ls1 \<and> length (buff ls) \<le> length (buff ls1))"
    by (rule returns_mono [OF save_and_next_ok [OF assms False]]) auto
  show ?thesis
    using False 1 2 3 4 by (auto simp: escape_def split: option.splits)
qed

lemma string_loop_ok:
  "lex_ok ls \<Longrightarrow> del \<noteq> EOZ \<Longrightarrow> returns (string_loop env del ls) (\<lambda>ls1. goes ls ls1 \<and> length (buff ls) \<le> length (buff ls1) \<and>
     current ls1 = del)"
proof (induction ls rule: wf_induct_rule [OF wf_ls_less])
  case (1 ls)
  let ?Q = "\<lambda>ls1. goes ls ls1 \<and> length (buff ls) \<le> length (buff ls1) \<and> current ls1 = del"
  have again: "returns (string_loop env del a) ?Q" if "(a, ls) \<in> ls_less" "goes ls a" "length (buff ls) \<le> length (buff a)" for a
    by (rule returns_mono [OF 1(1) [OF that(1)]]) (use that 1(3) in \<open>auto intro: goes_ok goes_trans\<close>)
  show ?case
  proof (cases "current ls = EOZ \<or> current ls = del")
    case True
    then show ?thesis
      by (subst string_loop.simps) (use 1(2,3) in \<open>auto intro: lexerror_returns token_consts goes_refl\<close>)
  next
    case False
    have bs: "returns (rbind (escape env a) (\<lambda>ls. string_loop env del ls)) ?Q"
      if "lx_next ls = Some (Inr a)" "goes ls a \<and> buff a = buff ls" for a
    proof (rule returns_bind [OF escape_ok])
      fix b assume b: "escape env a = Some (Inr b)" "goes a b \<and> length (buff a) \<le> length (buff b)"
      have "(b, ls) \<in> ls_less"
        using escape_less [OF b(1)] lx_next_less [OF that(1)] ls_less_trans by (auto simp: ls_less_def dest: trans_zio_less [THEN transD])
      then show "returns (string_loop env del b) ?Q" using that b by (intro again) (auto intro: goes_trans)
    qed (use that in \<open>auto intro: goes_ok\<close>)
    have other: "returns (rbind (save_and_next env ls) (\<lambda>ls. string_loop env del ls)) ?Q"
      by (rule returns_bind [OF save_and_next_ok [OF 1(2)]]) (use False in \<open>auto intro!: again dest: save_and_next_less\<close>)
    show ?thesis
      by (subst string_loop.simps)
        (use False 1(2) other in \<open>auto intro!: returns_if lexerror_returns token_consts returns_bind [OF lx_next_ok [OF 1(2)]] bs\<close>)
  qed
qed


lemma read_string_ok:
  assumes "lex_ok ls" "current ls \<noteq> EOZ"
  shows "returns (read_string env (current ls) ls) (\<lambda>(s, ls1). goes ls ls1)"
  unfolding read_string_def
proof (rule returns_bind [OF save_and_next_ok [OF assms]])
  fix a assume a: "goes ls a \<and> buff a = buff ls @ [char_of (current ls)]"
  show "returns (rbind (string_loop env (current ls) a) (\<lambda>ls.
     rbind (save_and_next env ls) (\<lambda>ls.
     rbind (slice (buff ls) 1 (int (length (buff ls)) - 2)) (\<lambda>s.
     rbind (luaX_newstring env ls s) (\<lambda>(ts, ls). rreturn (Sem_ts ts, ls)))))) (\<lambda>(s, ls1). goes ls ls1)"
  proof (rule returns_bind [OF string_loop_ok])
    fix b assume b: "goes a b \<and> length (buff a) \<le> length (buff b) \<and> current b = current ls"
    show "returns (rbind (save_and_next env b) (\<lambda>ls.
     rbind (slice (buff ls) 1 (int (length (buff ls)) - 2)) (\<lambda>s.
     rbind (luaX_newstring env ls s) (\<lambda>(ts, ls). rreturn (Sem_ts ts, ls))))) (\<lambda>(s, ls1). goes ls ls1)"
    proof (rule returns_bind [OF save_and_next_ok])
      fix c assume c: "goes b c \<and> buff c = buff b @ [char_of (current b)]"
      then have gc: "goes ls c" using a b goes_trans by blast
      have len: "2 \<le> length (buff c)" using a b c by auto
      have "returns (rbind (luaX_newstring env c s) (\<lambda>(ts, ls). rreturn (Sem_ts ts, ls))) (\<lambda>(s, ls1). goes ls ls1)" for s
        by (rule returns_bind [OF newstring_ok [OF goes_ok [OF gc]]]) (use gc in \<open>auto intro: goes_trans\<close>)
      then show "returns (rbind (slice (buff c) 1 (int (length (buff c)) - 2)) (\<lambda>s.
         rbind (luaX_newstring env c s) (\<lambda>(ts, ls). rreturn (Sem_ts ts, ls)))) (\<lambda>(s, ls1). goes ls ls1)"
        using len by (simp add: slice_ok)
    qed (use a b assms in \<open>auto intro: goes_ok\<close>)
  qed (use a assms in \<open>auto intro: goes_ok\<close>)
qed

section \<open>Numbers\<close>

lemma trydecpoint_ok:
  assumes "goes l0 ls"
  shows "returns (trydecpoint env ls) (\<lambda>(s, ls1). goes l0 ls1)"
proof -
  have "goes l0 (buffreplace (ls\<lparr>decpoint := locale_point env\<rparr>) (decpoint ls) (locale_point env))"
    using assms by (intro buffreplace_goes) (auto simp: goes_def lex_ok_def buffer_ok_def)
  then show ?thesis
    by (auto simp: trydecpoint_def Let_def split: option.splits
        intro!: lexerror_returns token_consts goes_ok [OF buffreplace_goes])
qed

lemma read_numeral_ok:
  assumes "lex_ok ls" "current ls \<noteq> EOZ"
  shows "returns (read_numeral env ls) (\<lambda>(s, ls1). goes ls ls1)"
proof -
  have sets: "NUL \<notin> set ''Ee''" "CHR 0xFF \<notin> set ''Ee''" "NUL \<notin> set ''+-''" "CHR 0xFF \<notin> set ''+-''" by simp_all
  have 6: "returns (let ls = buffreplace f (CHR ''.'') (decpoint f)
     in case luaO_str2d (strtod env) (num_of_ulong env) (c_str (buff ls)) of
          None \<Rightarrow> trydecpoint env ls | Some r \<Rightarrow> rreturn (Sem_r r, ls)) (\<lambda>(s, ls1). goes ls ls1)" if "goes ls f" for f
    using buffreplace_goes [OF that] trydecpoint_ok [OF buffreplace_goes [OF that]] by (auto simp: Let_def split: option.splits)
  have 5: "returns (rbind (lx_save env e 0) (\<lambda>ls. let ls = buffreplace ls (CHR ''.'') (decpoint ls)
     in case luaO_str2d (strtod env) (num_of_ulong env) (c_str (buff ls)) of
          None \<Rightarrow> trydecpoint env ls | Some r \<Rightarrow> rreturn (Sem_r r, ls))) (\<lambda>(s, ls1). goes ls ls1)" if "goes ls e" for e
    by (rule returns_bind [OF lx_save_ok [OF goes_ok [OF that]]], rule 6) (use that goes_trans in blast)
  have 3: "returns (if e then check_next env d ''+-'' else rreturn (False, d)) (\<lambda>(b, ls1). goes ls ls1)" if "goes ls d" for d e
  proof (rule returns_if)
    show "returns (check_next env d ''+-'') (\<lambda>(b, ls1). goes ls ls1)"
      by (rule returns_mono [OF check_next_ok [OF goes_ok [OF that] sets(3,4)]]) (use that goes_trans in blast)
  qed (use that in simp)
  have 4: "returns (rbind (save_while env P c) f) (\<lambda>(s, ls1). goes ls ls1)"
    if "goes ls c" "\<And>d. goes ls d \<Longrightarrow> returns (f d) (\<lambda>(s, ls1). goes ls ls1)" for P c f
    by (rule returns_bind [OF save_while_ok [OF goes_ok [OF that(1)]]]) (use that goes_trans in blast)
  show ?thesis
    unfolding read_numeral_def
  proof (rule returns_bind [OF save_and_next_ok [OF assms]], rule 4)
    fix c assume c: "goes ls c"
    show "returns (rbind (check_next env c ''Ee'') (\<lambda>(e, ls).
     rbind (if e then check_next env ls ''+-'' else rreturn (False, ls)) (\<lambda>(_, ls).
     rbind (save_while env (\<lambda>c. isalnum_C c \<or> c = CHR ''_'') ls) (\<lambda>ls.
     rbind (lx_save env ls 0) (\<lambda>ls.
     let ls = buffreplace ls (CHR ''.'') (decpoint ls)
     in case luaO_str2d (strtod env) (num_of_ulong env) (c_str (buff ls)) of
          None \<Rightarrow> trydecpoint env ls
        | Some r \<Rightarrow> rreturn (Sem_r r, ls)))))) (\<lambda>(s, ls1). goes ls ls1)"
    proof (rule returns_bind [OF check_next_ok [OF goes_ok [OF c] sets(1,2)]], clarify)
      fix e d assume d: "goes c d"
      have gd: "goes ls d" using c d by (rule goes_trans)
      show "returns (rbind (if e then check_next env d ''+-'' else rreturn (False, d)) (\<lambda>(_, ls).
         rbind (save_while env (\<lambda>c. isalnum_C c \<or> c = CHR ''_'') ls) (\<lambda>ls.
         rbind (lx_save env ls 0) (\<lambda>ls.
         let ls = buffreplace ls (CHR ''.'') (decpoint ls)
         in case luaO_str2d (strtod env) (num_of_ulong env) (c_str (buff ls)) of
              None \<Rightarrow> trydecpoint env ls
            | Some r \<Rightarrow> rreturn (Sem_r r, ls))))) (\<lambda>(s, ls1). goes ls ls1)"
        by (rule returns_bind [OF 3 [OF gd]], clarify, rule 4, assumption, rule 5)
    qed
  qed (use assms in auto)
qed

section \<open>Tokens\<close>

lemma skip_line_ok: "lex_ok ls \<Longrightarrow> returns (skip_line ls) (\<lambda>ls1. goes ls ls1 \<and> buff ls1 = buff ls)"
proof (induction ls rule: wf_induct_rule [OF wf_ls_less])
  case (1 ls)
  show ?case
  proof (cases "\<not> currIsNewline ls \<and> current ls \<noteq> EOZ")
    case True
    have "returns (rbind (lx_next ls) skip_line) (\<lambda>ls1. goes ls ls1 \<and> buff ls1 = buff ls)"
      by (rule returns_bind [OF lx_next_ok [OF 1(2) conjunct2 [OF True]]])
        (auto dest: lx_next_less intro!: returns_mono [OF 1(1)] intro: goes_ok goes_trans)
    then show ?thesis using True by (subst skip_line.simps) simp
  qed (use 1(2) in \<open>subst skip_line.simps, auto simp: goes_refl\<close>)
qed

lemma comment_ok:
  assumes "lex_ok ls" "buff ls = []"
  shows "returns (comment env ls) (\<lambda>ls1. goes ls ls1 \<and> buff ls1 = [])"
proof (cases "at ls (CHR ''['')")
  case True
  have "returns (let ls = resetbuffer a
        in if sep \<ge> 0 then rbind (read_long_string env False sep ls) (\<lambda>(_, ls). rreturn (resetbuffer ls))
           else skip_line ls) (\<lambda>ls1. goes ls ls1 \<and> buff ls1 = [])" if a: "sep_read ls sep a" for sep a
    unfolding Let_def
  proof (rule returns_if)
    have g: "goes ls (resetbuffer a)" using a by (intro goes_resetbuffer) (simp add: sep_read_def)
    show "returns (skip_line (resetbuffer a)) (\<lambda>ls1. goes ls ls1 \<and> buff ls1 = [])"
      by (rule returns_mono [OF skip_line_ok [OF goes_ok [OF g]]]) (use g in \<open>auto simp: resetbuffer_def intro: goes_trans\<close>)
    assume sep: "0 \<le> sep"
    then have c: "current (resetbuffer a) \<noteq> EOZ" using a by (simp add: sep_read_def resetbuffer_def)
    show "returns (rbind (read_long_string env False sep (resetbuffer a)) (\<lambda>(_, ls). rreturn (resetbuffer ls)))
       (\<lambda>ls1. goes ls ls1 \<and> buff ls1 = [])"
      by (rule returns_bind [OF read_long_string_ok [OF goes_ok [OF g] c sep]])
        (use g in \<open>auto intro: goes_resetbuffer [OF goes_trans]\<close>)
  qed
  then show ?thesis using True
    by (auto simp: comment_def intro!: returns_bind [OF skip_sep_ok [OF assms(1) newline_not_EOZ(2) [OF True]]])
next
  case False
  then show ?thesis using skip_line_ok [OF assms(1)] assms(2) by (auto simp: comment_def elim: returns_mono)
qed


definition lexed :: "'n LexState \<Rightarrow> int \<times> 'n SemInfo \<times> 'n LexState \<Rightarrow> bool" where
  "lexed ls = (\<lambda>(k, s, ls1). goes ls ls1 \<and> token_ok k)"

lemma with_equals_ok:
  assumes "lex_ok ls" "at ls c" "token_ok t"
  shows "returns (with_equals ls c t) (lexed ls)"
  unfolding with_equals_def
proof (rule returns_bind [OF lx_next_ok [OF assms(1) newline_not_EOZ(2) [OF assms(2)]]])
  fix a assume a: "goes ls a \<and> buff a = buff ls"
  show "returns (if \<not> at a (CHR ''='') then rreturn (uchar c, Sem_unset, a)
       else rbind (lx_next a) (\<lambda>ls. rreturn (t, Sem_unset, ls))) (lexed ls)"
    using a assms(3)
    by (auto simp: lexed_def token_consts newline_not_EOZ(2) intro!: returns_if returns_bind [OF lx_next_ok] intro: goes_ok goes_trans)
qed

lemma read_name_ok:
  assumes "lex_ok ls" "current ls \<noteq> EOZ"
  shows "returns (read_name env ls) (lexed ls)"
proof -
  have index: "word_index ws s \<le> length ws" for ws s by (induction ws) (auto simp: Let_def)
  have r: "reserved s \<le> 21" for s
    using index [of "take NUM_RESERVED luaX_tokens" s] by (simp add: reserved_def NUM_RESERVED_def TK_WHILE_def FIRST_RESERVED_def)
  have res: "0 < reserved s \<Longrightarrow> token_ok (int (reserved s) - 1 + FIRST_RESERVED)" for s
    using r [of s] by (simp add: token_ok_def FIRST_RESERVED_def TK_EOS_def)
  have 3: "returns (rbind (luaX_newstring env c x) (\<lambda>(ts, ls).
     rreturn (if reserved ts > 0 then (int (reserved ts) - 1 + FIRST_RESERVED, Sem_unset, ls)
              else (TK_NAME, Sem_ts ts, ls)))) (lexed ls)" if "goes ls c" for c x
    by (rule returns_bind [OF newstring_ok [OF goes_ok [OF that]]])
      (use that in \<open>auto simp: lexed_def res token_consts intro: goes_trans\<close>)
  have 2: "returns (rbind (save_while env P b) f) (lexed ls)" if "goes ls b" "\<And>c. goes ls c \<Longrightarrow> returns (f c) (lexed ls)" for P b f
    by (rule returns_bind [OF save_while_ok [OF goes_ok [OF that(1)]]]) (use that goes_trans in blast)
  show ?thesis unfolding read_name_def
    by (rule returns_bind [OF save_and_next_ok [OF assms]], rule 2, simp, rule 3)
qed

lemma lexed_trans: "goes a b \<Longrightarrow> lexed b x \<Longrightarrow> lexed a x"
  by (cases x) (auto simp: lexed_def intro: goes_trans)

lemma pair_lexed: "returns m (\<lambda>(s, ls1). goes ls ls1) \<Longrightarrow> token_ok k \<Longrightarrow> returns (rbind m (\<lambda>(s, ls). rreturn (k, s, ls))) (lexed ls)"
  by (erule returns_bind) (auto simp: lexed_def)

lemma dots_ok:
  assumes "lex_ok ls" "current ls \<noteq> EOZ"
  shows "returns (rbind (save_and_next env ls) (\<lambda>ls.
        rbind (check_next env ls ''.'') (\<lambda>(two, ls).
          if two then
            rbind (check_next env ls ''.'') (\<lambda>(three, ls).
              rreturn (if three then TK_DOTS else TK_CONCAT, Sem_unset, ls))
          else if \<not> current_is isdigit_C ls then rreturn (uchar (CHR ''.''), Sem_unset, ls)
          else rbind (read_numeral env ls) (\<lambda>(s, ls). rreturn (TK_NUMBER, s, ls))))) (lexed ls)"
proof (rule returns_bind [OF save_and_next_ok [OF assms]])
  fix a assume a: "goes ls a \<and> buff a = buff ls @ [char_of (current ls)]"
  have dot: "NUL \<notin> set ''.''" "CHR 0xFF \<notin> set ''.''" by simp_all
  have "returns (if two then
            rbind (check_next env b ''.'') (\<lambda>(three, ls).
              rreturn (if three then TK_DOTS else TK_CONCAT, Sem_unset, ls))
          else if \<not> current_is isdigit_C b then rreturn (uchar (CHR ''.''), Sem_unset, b)
          else rbind (read_numeral env b) (\<lambda>(s, ls). rreturn (TK_NUMBER, s, ls))) (lexed ls)" if "goes a b" for two b
  proof -
    have b: "goes ls b" using a that goes_trans by blast
    have three: "returns (rbind (check_next env b ''.'') (\<lambda>(three, ls).
              rreturn (if three then TK_DOTS else TK_CONCAT, Sem_unset, ls))) (lexed ls)"
      by (rule returns_bind [OF check_next_ok [OF goes_ok [OF b] dot]])
        (use b in \<open>auto simp: lexed_def token_consts intro: goes_trans\<close>)
    have num: "returns (rbind (read_numeral env b) (\<lambda>(s, ls). rreturn (TK_NUMBER, s, ls))) (lexed ls)" if "current_is isdigit_C b"
      by (rule pair_lexed [OF returns_mono [OF read_numeral_ok [OF goes_ok [OF b] newline_not_EOZ(3) [OF that]]]])
        (use b in \<open>auto simp: token_consts intro: goes_trans\<close>)
    show ?thesis using three num b by (auto simp: lexed_def token_consts)
  qed
  then show "returns (rbind (check_next env a ''.'') (\<lambda>(two, ls).
          if two then
            rbind (check_next env ls ''.'') (\<lambda>(three, ls).
              rreturn (if three then TK_DOTS else TK_CONCAT, Sem_unset, ls))
          else if \<not> current_is isdigit_C ls then rreturn (uchar (CHR ''.''), Sem_unset, ls)
          else rbind (read_numeral env ls) (\<lambda>(s, ls). rreturn (TK_NUMBER, s, ls)))) (lexed ls)"
    by (intro returns_bind [OF check_next_ok [OF goes_ok dot]]) (use a in auto)
qed

lemma brackets_ok:
  assumes "lex_ok ls" "current ls \<noteq> EOZ" "buff ls = []"
  shows "returns (rbind (skip_sep env ls) (\<lambda>(sep, ls).
          if sep \<ge> 0 then rbind (read_long_string env True sep ls) (\<lambda>(s, ls). rreturn (TK_STRING, s, ls))
          else if sep = - 1 then rreturn (uchar (CHR ''[''), Sem_unset, ls)
          else luaX_lexerror env ls ''invalid long string delimiter'' TK_STRING)) (lexed ls)"
proof (rule returns_bind [OF skip_sep_ok [OF assms(1,2)]], clarify)
  fix n a assume a: "sep_read ls n a"
  then have g: "goes ls a" by (simp add: sep_read_def)
  show "returns (if n \<ge> 0 then rbind (read_long_string env True n a) (\<lambda>(s, ls). rreturn (TK_STRING, s, ls))
          else if n = - 1 then rreturn (uchar (CHR ''[''), Sem_unset, a)
          else luaX_lexerror env a ''invalid long string delimiter'' TK_STRING) (lexed ls)"
  proof (intro returns_if)
    assume "0 \<le> n"
    then show "returns (rbind (read_long_string env True n a) (\<lambda>(s, ls). rreturn (TK_STRING, s, ls))) (lexed ls)"
      using a assms(3) g
      by (intro pair_lexed [OF returns_mono [OF read_long_string_ok [OF goes_ok [OF g]]]])
        (auto simp: sep_read_def token_consts intro: goes_trans)
  qed (use g in \<open>auto simp: lexed_def token_consts intro: lexerror_returns goes_ok\<close>)
qed

lemma lex_loop_ok: "lex_ok ls \<Longrightarrow> buff ls = [] \<Longrightarrow> returns (lex_loop env ls) (lexed ls)"
proof (induction ls rule: wf_induct_rule [OF wf_ls_less])
  case (1 ls)
  have again: "returns (lex_loop env a) (lexed ls)" if "(a, ls) \<in> ls_less" "goes ls a" "buff a = []" for a
    by (rule returns_mono [OF 1(1) [OF that(1)]]) (use that in \<open>auto intro: goes_ok lexed_trans\<close>)
  have newline: "returns (rbind (inclinenumber env ls) (lex_loop env)) (lexed ls)" if "currIsNewline ls"
    by (rule returns_bind [OF inclinenumber_ok [OF 1(2) that]]) (use 1(3) in \<open>auto intro!: again dest: inclinenumber_less\<close>)
  have space: "returns (rbind (lx_next ls) (lex_loop env)) (lexed ls)" if "current ls \<noteq> EOZ"
    by (rule returns_bind [OF lx_next_ok [OF 1(2) that]]) (use 1(3) in \<open>auto intro!: again dest: lx_next_less\<close>)
  have minus: "returns (rbind (lx_next ls) (\<lambda>ls.
          if \<not> at ls (CHR ''-'') then rreturn (uchar (CHR ''-''), Sem_unset, ls)
          else rbind (lx_next ls) (\<lambda>ls. rbind (comment env ls) (lex_loop env)))) (lexed ls)" if "current ls \<noteq> EOZ"
  proof (rule returns_bind [OF lx_next_ok [OF 1(2) that]])
    fix a assume a: "lx_next ls = Some (Inr a)" "goes ls a \<and> buff a = buff ls"
    have "returns (rbind (lx_next a) (\<lambda>ls. rbind (comment env ls) (lex_loop env))) (lexed ls)" if "at a (CHR ''-'')"
    proof (rule returns_bind [OF lx_next_ok [OF goes_ok [OF conjunct1 [OF a(2)]] newline_not_EOZ(2) [OF that]]])
      fix b assume b: "lx_next a = Some (Inr b)" "goes a b \<and> buff b = buff a"
      show "returns (rbind (comment env b) (lex_loop env)) (lexed ls)"
      proof (rule returns_bind [OF comment_ok])
        fix c assume c: "comment env b = Some (Inr c)" "goes b c \<and> buff c = []"
        have "(c, ls) \<in> ls_less"
          using comment_less [OF c(1)] lx_next_less [OF a(1)] lx_next_less [OF b(1)]
          by (auto simp: ls_less_def intro: trans_zio_less [THEN transD])
        then show "returns (lex_loop env c) (lexed ls)" using a b c goes_trans by (blast intro: again)
      qed (use a b 1(3) in \<open>auto intro: goes_ok\<close>)
    qed
    then show "returns (if \<not> at a (CHR ''-'') then rreturn (uchar (CHR ''-''), Sem_unset, a)
          else rbind (lx_next a) (\<lambda>ls. rbind (comment env ls) (lex_loop env))) (lexed ls)"
      using a by (auto simp: lexed_def token_consts)
  qed
  have char: "returns (rbind (lx_next ls) (\<lambda>ls1. rreturn (current ls, Sem_unset, ls1))) (lexed ls)" if "current ls \<noteq> EOZ"
    by (rule returns_bind [OF lx_next_ok [OF 1(2) that]])
      (use 1(2) that token_consts(5) in \<open>auto simp: lexed_def lex_ok_def\<close>)
  have str: "returns (rbind (read_string env (current ls) ls) (\<lambda>(s, ls). rreturn (TK_STRING, s, ls))) (lexed ls)" if "current ls \<noteq> EOZ"
    by (rule pair_lexed [OF read_string_ok [OF 1(2) that] token_consts(2)])
  have num: "returns (rbind (read_numeral env ls) (\<lambda>(s, ls). rreturn (TK_NUMBER, s, ls))) (lexed ls)" if "current ls \<noteq> EOZ"
    by (rule pair_lexed [OF read_numeral_ok [OF 1(2) that] token_consts(3)])
  have "lexed ls (TK_EOS, Sem_unset, ls)" by (simp add: lexed_def goes_refl 1(2) token_consts)
  then show ?case
    by (subst lex_loop.simps)
      (intro returns_if newline minus brackets_ok with_equals_ok str dots_ok space num read_name_ok char 1(2,3) token_consts;
        auto simp: newline_not_EOZ)
qed

lemma llex_ok: "lex_ok ls \<Longrightarrow> returns (llex env ls) (lexed ls)"
  unfolding llex_def
  by (rule returns_mono [OF lex_loop_ok])
    (auto simp: lexed_def goes_def lex_ok_def buffer_ok_def resetbuffer_def)


section \<open>Every token takes a byte\<close>

definition ls_le :: "'n LexState \<Rightarrow> 'n LexState \<Rightarrow> bool" where
  "ls_le a b \<longleftrightarrow> lex_z a = lex_z b \<or> (a, b) \<in> ls_less"

lemma ls_le_less: "ls_le a b \<Longrightarrow> (b, c) \<in> ls_less \<Longrightarrow> (a, c) \<in> ls_less"
  by (auto simp: ls_le_def ls_less_def intro: trans_zio_less [THEN transD])

lemma ls_le_trans: "ls_le a b \<Longrightarrow> ls_le b c \<Longrightarrow> ls_le a c"
  by (auto simp: ls_le_def ls_less_def intro: trans_zio_less [THEN transD])

lemma ls_le_refl [simp]: "ls_le a a"
  by (simp add: ls_le_def)

lemma ls_le_steps:
  "lx_save env ls c = Some (Inr ls1) \<Longrightarrow> ls_le ls1 ls" "save_while env P ls = Some (Inr ls1) \<Longrightarrow> ls_le ls1 ls"
  "check_next env ls s = Some (Inr (b, ls1)) \<Longrightarrow> ls_le ls1 ls" "escape env ls = Some (Inr ls1) \<Longrightarrow> ls_le ls1 ls"
  "luaX_newstring env ls s = Some (Inr (t, ls1)) \<Longrightarrow> ls_le ls1 ls" "comment env ls = Some (Inr ls1) \<Longrightarrow> ls_le ls1 ls"
  by (auto simp: ls_le_def buffreplace_def dest: lx_save_same save_while_less check_next_less escape_less luaX_newstring_same comment_less)

lemma string_loop_le: "string_loop env del ls = Some (Inr ls1) \<Longrightarrow> ls_le ls1 ls"
proof (induction ls rule: wf_induct_rule [OF wf_ls_less])
  case (1 ls)
  have step: "ls_le ls1 ls" if "(a, ls) \<in> ls_less" "string_loop env del a = Some (Inr ls1)" for a
    using 1(1) [OF that] that(1) ls_le_less by (auto simp: ls_le_def [of ls1 ls])
  show ?case
  proof (cases "current ls \<noteq> del \<and> at ls (CHR 0x5C)")
    case True
    then obtain a b where "lx_next ls = Some (Inr a)" "escape env a = Some (Inr b)" "string_loop env del b = Some (Inr ls1)"
      using 1(2) by (subst (asm) string_loop.simps) (auto split: if_splits)
    then show ?thesis using ls_le_less [OF ls_le_steps(4) lx_next_less] step by blast
  next
    case False
    then show ?thesis using 1(2)
      by (subst (asm) string_loop.simps) (auto split: if_splits dest: save_and_next_less intro: step)
  qed
qed

lemma read_string_less: "read_string env del ls = Some (Inr (s, ls1)) \<Longrightarrow> (ls1, ls) \<in> ls_less"
  by (auto simp: read_string_def dest!: ls_le_steps(5) string_loop_le save_and_next_less)
    (meson ls_le_less ls_less_trans)

lemma trydecpoint_same: "trydecpoint env ls = Some (Inr (s, ls1)) \<Longrightarrow> lex_z ls1 = lex_z ls"
  by (auto simp: trydecpoint_def Let_def buffreplace_def split: option.splits)

lemma read_numeral_less:
  assumes "read_numeral env ls = Some (Inr (s, ls1))"
  shows "(ls1, ls) \<in> ls_less"
proof -
  obtain a b e c g d f h where "save_and_next env ls = Some (Inr a)" "save_while env (\<lambda>c. isdigit_C c \<or> c = CHR ''.'') a = Some (Inr b)"
    "check_next env b ''Ee'' = Some (Inr (e, c))" "(if e then check_next env c ''+-'' else rreturn (False, c)) = Some (Inr (g, d))"
    "save_while env (\<lambda>c. isalnum_C c \<or> c = CHR ''_'') d = Some (Inr f)" "lx_save env f 0 = Some (Inr h)"
    and eq: "(let ls = buffreplace h (CHR ''.'') (decpoint h)
     in case luaO_str2d (strtod env) (num_of_ulong env) (c_str (buff ls)) of
          None \<Rightarrow> trydecpoint env ls
        | Some r \<Rightarrow> rreturn (Sem_r r, ls)) = Some (Inr (s, ls1))"
    using assms by (auto simp: read_numeral_def)
  then have "(a, ls) \<in> ls_less" "ls_le b a" "ls_le c b" "ls_le d c" "ls_le f d" "ls_le h f"
    by (auto dest: save_and_next_less ls_le_steps split: if_splits)
  moreover have "lex_z ls1 = lex_z h"
    using eq by (auto simp: Let_def buffreplace_def split: option.splits dest: trydecpoint_same)
  ultimately show ?thesis using ls_le_trans ls_le_less by (metis ls_le_def)
qed

lemma read_name_less: "read_name env ls = Some (Inr (k, s, ls1)) \<Longrightarrow> (ls1, ls) \<in> ls_less"
  by (auto simp: read_name_def split: if_splits dest!: ls_le_steps(5) ls_le_steps(2) save_and_next_less intro: ls_le_less)

lemma with_equals_less: "with_equals ls c t = Some (Inr (k, s, ls1)) \<Longrightarrow> (ls1, ls) \<in> ls_less"
  by (auto simp: with_equals_def split: if_splits dest!: lx_next_less intro: ls_less_trans)

lemma lex_loop_less: "lex_loop env ls = Some (Inr (k, s, ls1)) \<Longrightarrow> k = TK_EOS \<or> (ls1, ls) \<in> ls_less"
proof (induction ls rule: wf_induct_rule [OF wf_ls_less])
  case (1 ls)
  have step: "k = TK_EOS \<or> (ls1, ls) \<in> ls_less" if "(a, ls) \<in> ls_less" "lex_loop env a = Some (Inr (k, s, ls1))" for a
    using 1(1) [OF that] that(1) ls_less_trans by blast
  consider (again) "currIsNewline ls \<or> at ls (CHR ''-'')" | (sep) "\<not> currIsNewline ls" "at ls (CHR ''['')"
    | (dot) "\<not> currIsNewline ls" "at ls (CHR ''.'')"
    | (other) "\<not> currIsNewline ls" "\<not> at ls (CHR ''-'')" "\<not> at ls (CHR ''['')" "\<not> at ls (CHR ''.'')"
    by blast
  then show ?case
  proof cases
    case again
    show ?thesis
    proof (cases "currIsNewline ls")
      case True
      then show ?thesis using 1(2) by (subst (asm) lex_loop.simps) (auto dest: inclinenumber_less step)
    next
      case False
      then have "at ls (CHR ''-'')" using again by blast
      then have eq: "rbind (lx_next ls) (\<lambda>ls.
          if \<not> at ls (CHR ''-'') then rreturn (uchar (CHR ''-''), Sem_unset, ls)
          else rbind (lx_next ls) (\<lambda>ls. rbind (comment env ls) (lex_loop env))) = Some (Inr (k, s, ls1))"
        using 1(2) False by (subst (asm) lex_loop.simps) simp
      show ?thesis
      proof (cases "lx_next ls = Some (Inr ls1)")
        case False
        then obtain a b c where "lx_next ls = Some (Inr a)" "lx_next a = Some (Inr b)" "comment env b = Some (Inr c)"
          "lex_loop env c = Some (Inr (k, s, ls1))" using eq by (auto split: if_splits)
        then show ?thesis using ls_less_trans [OF ls_le_less [OF ls_le_steps(6) lx_next_less] lx_next_less] step by blast
      qed (auto dest: lx_next_less)
    qed
  next
    case sep
    then have "\<not> at ls (CHR ''-'')" by (auto simp: at_def)
    then show ?thesis using 1(2) sep
      by (subst (asm) lex_loop.simps)
        (auto split: if_splits dest!: skip_sep_less dest: read_long_string_less ls_less_trans)
  next
    case dot
    then have "\<not> at ls c" if "c \<in> set ''-[=<>~'' \<or> c = CHR 0x22 \<or> c = CHR 0x27" for c using that by (auto simp: at_def)
    then have "rbind (save_and_next env ls) (\<lambda>ls.
        rbind (check_next env ls ''.'') (\<lambda>(two, ls).
          if two then
            rbind (check_next env ls ''.'') (\<lambda>(three, ls).
              rreturn (if three then TK_DOTS else TK_CONCAT, Sem_unset, ls))
          else if \<not> current_is isdigit_C ls then rreturn (uchar (CHR ''.''), Sem_unset, ls)
          else rbind (read_numeral env ls) (\<lambda>(s, ls). rreturn (TK_NUMBER, s, ls)))) = Some (Inr (k, s, ls1))"
      using 1(2) dot by (subst (asm) lex_loop.simps) simp
    then obtain a two b where a: "save_and_next env ls = Some (Inr a)" "check_next env a ''.'' = Some (Inr (two, b))"
      and b: "(if two then
            rbind (check_next env b ''.'') (\<lambda>(three, ls).
              rreturn (if three then TK_DOTS else TK_CONCAT, Sem_unset, ls))
          else if \<not> current_is isdigit_C b then rreturn (uchar (CHR ''.''), Sem_unset, b)
          else rbind (read_numeral env b) (\<lambda>(s, ls). rreturn (TK_NUMBER, s, ls))) = Some (Inr (k, s, ls1))"
      by auto
    have num: "ls_le ls1 b" if "read_numeral env b = Some (Inr (s, ls1))" using read_numeral_less [OF that] by (simp add: ls_le_def)
    have "(b, ls) \<in> ls_less" using a ls_le_less [OF ls_le_steps(3) save_and_next_less] by blast
    moreover have "ls_le ls1 b" using b by (auto split: if_splits dest: ls_le_steps(3) num)
    ultimately show ?thesis using ls_le_less by blast
  next
    case other
    then show ?thesis using 1(2)
      by (subst (asm) lex_loop.simps)
        (auto split: if_splits dest: with_equals_less read_string_less read_numeral_less read_name_less lx_next_less step)
  qed
qed


section \<open>The properties\<close>

text \<open>The state between two tokens: the buffer is not looked at before it is emptied.\<close>

definition between_tokens :: "'n LexState \<Rightarrow> bool" where
  "between_tokens ls \<longleftrightarrow> lex_ok (resetbuffer ls)"

lemma llex_between: "between_tokens ls \<Longrightarrow> returns (llex env ls) (lexed (resetbuffer ls))"
  using lex_loop_ok [of "resetbuffer ls"] by (simp add: llex_def between_tokens_def)

lemma set_token_simps [simp]: "token (set_token t k s) = k"
  by (cases s) (simp_all add: set_token_def)

lemma next_ok:
  assumes "between_tokens ls"
  shows "returns (luaX_next env ls) (\<lambda>ls1. between_tokens ls1 \<and> token_ok (token (tok ls1)) \<and>
    lastline ls1 = linenumber ls \<and> linenumber ls \<le> linenumber ls1)"
proof (cases "token (lookahead ls) = TK_EOS")
  case True
  have "between_tokens (ls\<lparr>lastline := linenumber ls\<rparr>)"
    using assms by (simp add: between_tokens_def resetbuffer_def lex_ok_def buffer_ok_def)
  then have "returns (rbind (llex env (ls\<lparr>lastline := linenumber ls\<rparr>)) (\<lambda>(k, s, ls). rreturn (ls\<lparr>tok := set_token (tok ls) k s\<rparr>)))
     (\<lambda>ls1. between_tokens ls1 \<and> token_ok (token (tok ls1)) \<and> lastline ls1 = linenumber ls \<and> linenumber ls \<le> linenumber ls1)"
    by (rule returns_bind [OF llex_between])
      (auto simp: lexed_def goes_def between_tokens_def resetbuffer_def lex_ok_def buffer_ok_def)
  then show ?thesis using True by (simp add: luaX_next_def)
next
  case False
  then show ?thesis using assms
    by (auto simp: luaX_next_def between_tokens_def resetbuffer_def lex_ok_def buffer_ok_def token_consts)
qed

text \<open>
  C32: Reading the next token of any input, well-formed or not, ends with a token or an error: the stream
  is never read again after its end, the buffer never overflows, the part of it that makes a string always
  lies inside it, an error message never looks outside the table of token names, and the line counter only
  goes up and never wraps.  The same holds for looking one token ahead.
\<close>

theorem luaX_next_safe:
  assumes "between_tokens ls"
  shows "returns (luaX_next env ls) (\<lambda>ls1. between_tokens ls1 \<and> token_ok (token (tok ls1)) \<and>
      lastline ls1 = linenumber ls \<and> linenumber ls \<le> linenumber ls1) \<and>
    returns (luaX_lookahead env ls) (\<lambda>ls1. between_tokens ls1 \<and> token_ok (token (lookahead ls1)) \<and>
      tok ls1 = tok ls \<and> linenumber ls \<le> linenumber ls1)"
proof -
  have "returns (luaX_lookahead env ls) (\<lambda>ls1. between_tokens ls1 \<and> token_ok (token (lookahead ls1)) \<and>
      tok ls1 = tok ls \<and> linenumber ls \<le> linenumber ls1)"
    unfolding luaX_lookahead_def
    by (rule returns_bind [OF llex_between [OF assms]])
      (auto simp: lexed_def goes_def between_tokens_def resetbuffer_def lex_ok_def buffer_ok_def)
  then show ?thesis using next_ok [OF assms] by blast
qed

text \<open>A lexer for samples: no numbers, a memory that is always granted.\<close>

definition sample_env :: "unit lex_env" where
  "sample_env = \<lparr>strtod = (\<lambda>s. ((), length s)), num_of_ulong = (\<lambda>n. ()), locale_point = CHR ''.'', grants = (\<lambda>n. True)\<rparr>"

definition sample_lexer :: "char list \<Rightarrow> unit LexState" where
  "sample_lexer x =
     \<lparr>current = 10, linenumber = 1, lastline = 1, tok = \<lparr>token = TK_EOS, seminfo = Sem_unset\<rparr>,
      lookahead = \<lparr>token = TK_EOS, seminfo = Sem_unset\<rparr>, lex_z = \<lparr>zn = length x, zp = 0, zblock = x, zreader = []\<rparr>, buff = [], buff_size = LUA_MINBUFFER,
      lex_source = ''=sample'', decpoint = CHR ''.'', anchored = []\<rparr>"

lemma sample_between: "between_tokens (sample_lexer x)"
proof -
  have "10 = uchar (CHR 0x0A)" by (simp add: uchar_def)
  moreover have "\<exists>k\<le>26. (32 :: nat) = 2 ^ (k + 5)" by (intro exI [of _ 0]) simp
  ultimately show ?thesis
    by (auto simp: between_tokens_def lex_ok_def buffer_ok_def resetbuffer_def sample_lexer_def LUA_MINBUFFER_def
        token_consts MAX_INT_def zio_ok_def)
qed

theorem luaX_next_safe_witness:
  "returns (luaX_next sample_env (sample_lexer ''x = [[''))
     (\<lambda>ls1. between_tokens ls1 \<and> token_ok (token (tok ls1)) \<and> lastline ls1 = 1 \<and> 1 \<le> linenumber ls1)"
  using luaX_next_safe [OF sample_between, of sample_env "''x = [[''"] by (simp add: sample_lexer_def)

text \<open>The tokens of a chunk in at most \<open>n\<close> calls; \<open>None\<close> if the end has not been reached.\<close>

fun lex_chunk :: "'n lex_env \<Rightarrow> nat \<Rightarrow> 'n LexState \<Rightarrow> 'n Token list option res" where
  "lex_chunk env 0 ls = rreturn None"
| "lex_chunk env (Suc n) ls =
     rbind (luaX_next env ls) (\<lambda>ls1.
       if token (tok ls1) = TK_EOS then rreturn (Some [])
       else rbind (lex_chunk env n ls1) (\<lambda>x. rreturn (map_option ((#) (tok ls1)) x)))"

lemma next_less:
  assumes "luaX_next env ls = Some (Inr ls1)" "token (lookahead ls) = TK_EOS" "token (tok ls1) \<noteq> TK_EOS" "between_tokens ls"
  shows "(ls1, ls) \<in> ls_less \<and> token (lookahead ls1) = TK_EOS"
proof -
  let ?ls = "ls\<lparr>lastline := linenumber ls\<rparr>"
  obtain k s a where a: "llex env ?ls = Some (Inr (k, s, a))" "ls1 = a\<lparr>tok := set_token (tok a) k s\<rparr>"
    using assms(1,2) by (auto simp: luaX_next_def)
  then have "k \<noteq> TK_EOS" using assms(3) by simp
  then have "(a, resetbuffer ?ls) \<in> ls_less" using lex_loop_less a(1) by (force simp: llex_def)
  moreover have "between_tokens ?ls" using assms(4) by (simp add: between_tokens_def resetbuffer_def lex_ok_def buffer_ok_def)
  then have "lexed (resetbuffer ?ls) (k, s, a)" using returns_Inr [OF llex_between a(1)] by blast
  ultimately show ?thesis using a(2) assms(2) by (simp add: ls_less_def resetbuffer_def lexed_def goes_def)
qed

lemma lex_chunk_ends:
  "between_tokens ls \<Longrightarrow> token (lookahead ls) = TK_EOS \<Longrightarrow> \<exists>n. returns (lex_chunk env n ls) (\<lambda>r. r \<noteq> None)"
proof (induction ls rule: wf_induct_rule [OF wf_ls_less])
  case (1 ls)
  show ?case
  proof (cases "\<exists>ls1. luaX_next env ls = Some (Inr ls1) \<and> token (tok ls1) \<noteq> TK_EOS")
    case True
    then obtain ls1 where ls1: "luaX_next env ls = Some (Inr ls1)" "token (tok ls1) \<noteq> TK_EOS" by blast
    have "between_tokens ls1" using returns_Inr [OF next_ok [OF 1(2)] ls1(1)] by blast
    then obtain n where "returns (lex_chunk env n ls1) (\<lambda>r. r \<noteq> None)"
      using next_less [OF ls1(1) 1(3) ls1(2) 1(2)] 1(1) by blast
    then have "returns (rbind (lex_chunk env n ls1) (\<lambda>x. rreturn (map_option ((#) (tok ls1)) x))) (\<lambda>r. r \<noteq> None)"
      by (rule returns_bind) auto
    then show ?thesis using ls1 by (intro exI [of _ "Suc n"]) simp
  next
    case False
    then show ?thesis
      by (intro exI [of _ "Suc 0"]) (auto intro!: returns_bind [OF next_ok [OF 1(2)]])
  qed
qed

lemma setinput_ok:
  assumes "zio_ok z" "token_ok (token (tok ls))"
  shows "returns (luaX_setinput env ls z src) (\<lambda>ls1. between_tokens ls1 \<and> token (lookahead ls1) = TK_EOS)"
proof -
  let ?ls = "\<lambda>z c. ls\<lparr>decpoint := CHR ''.'', lookahead := (lookahead ls)\<lparr>token := TK_EOS\<rparr>,
    linenumber := 1, lastline := 1, lex_source := src, buff_size := LUA_MINBUFFER, lex_z := z, current := c\<rparr>"
  have "\<exists>k\<le>26. (32 :: nat) = 2 ^ (k + 5)" by (intro exI [of _ 0]) simp
  then have ok: "between_tokens (?ls z' c)" if "c = EOZ \<or> zio_ok z' \<and> (\<exists>x. c = uchar x)" for z' c
    using assms(2) that
    by (auto simp: between_tokens_def lex_ok_def buffer_ok_def resetbuffer_def LUA_MINBUFFER_def token_consts MAX_INT_def)
  show ?thesis
  proof (cases "stream z")
    case Nil
    from zgetc_end [OF assms(1) Nil] show ?thesis
      using ok by (auto simp: luaX_setinput_def lx_next_def)
  next
    case (Cons c cs)
    from zgetc_ok [OF assms(1) Cons] show ?thesis
      using ok by (auto simp: luaX_setinput_def lx_next_def)
  qed
qed

text \<open>
  C33: Reading a chunk token by token comes to its end or to an error after finitely many tokens, for
  every input and however the reader cuts it into blocks.
\<close>

theorem lexer_ends:
  assumes "zio_ok z" "token_ok (token (tok ls))"
  shows "\<exists>n. returns (rbind (luaX_setinput env ls z src) (lex_chunk env n)) (\<lambda>r. r \<noteq> None)"
proof (cases "\<exists>ls1. luaX_setinput env ls z src = Some (Inr ls1)")
  case True
  then obtain ls1 where ls1: "luaX_setinput env ls z src = Some (Inr ls1)" by blast
  from returns_Inr [OF setinput_ok [OF assms] this] obtain n where "returns (lex_chunk env n ls1) (\<lambda>r. r \<noteq> None)"
    using lex_chunk_ends by blast
  then show ?thesis using ls1 by auto
next
  case False
  then show ?thesis by (intro exI [of _ 0] returns_bind [OF setinput_ok [OF assms]]) auto
qed

theorem lexer_ends_witness:
  "\<exists>n. returns (rbind (luaX_setinput sample_env (sample_lexer []) (luaZ_init [Some ''a'', Some ''b =1'']) ''=x'') (lex_chunk sample_env n))
     (\<lambda>r. r \<noteq> None)"
  using lexer_ends [of "luaZ_init [Some ''a'', Some ''b =1'']" "sample_lexer []" sample_env "''=x''"]
  by (simp add: sample_lexer_def token_consts)

lemma dot_and_nul:
  "rbind (luaX_next sample_env (sample_lexer [CHR ''.'', NUL, CHR '' ''])) (\<lambda>ls. rreturn (token (tok ls))) = rreturn TK_CONCAT"
  by code_simp

end
