(* ===== verification/LuaQuote.thy ===== *)
theory LuaQuote
  imports LuaLexSafe
begin

text \<open>
  Exact runs of the lexer when memory is granted: \<open>state ls x b n\<close> says that the text \<open>x\<close> is still to be read,
  the current character first, that the buffer holds \<open>b\<close>, and that the line is \<open>n\<close>.  They show that a string
  written by \<^verbatim>\<open>string.format\<close> with \<^verbatim>\<open>%q\<close> is read back as it was, and which token a name is.
\<close>

section \<open>Exact steps\<close>

definition reads :: "'n LexState \<Rightarrow> char list \<Rightarrow> bool" where
  "reads ls x \<longleftrightarrow>
     (case x of [] \<Rightarrow> current ls = EOZ | c # cs \<Rightarrow> current ls = uchar c \<and> zio_ok (lex_z ls) \<and> stream (lex_z ls) = cs)"

definition state :: "'n LexState \<Rightarrow> char list \<Rightarrow> char list \<Rightarrow> int \<Rightarrow> bool" where
  "state ls x b n \<longleftrightarrow> reads ls x \<and> buff ls = b \<and> buffer_ok ls \<and> linenumber ls = n"

text \<open>Text that fits into the buffer.\<close>

definition fits :: "nat \<Rightarrow> bool" where
  "fits n \<longleftrightarrow> n < 2147483648"

lemma uchar_inj: "uchar c = uchar d \<longleftrightarrow> c = d"
  by (simp add: uchar_def)

lemma state_current:
  "state ls (c # x) b n \<Longrightarrow> current ls = uchar c" "state ls (c # x) b n \<Longrightarrow> at ls d \<longleftrightarrow> c = d"
  "state ls (c # x) b n \<Longrightarrow> currIsNewline ls \<longleftrightarrow> c = CHR 0x0A \<or> c = CHR 0x0D"
  "state ls (c # x) b n \<Longrightarrow> current_is P ls \<longleftrightarrow> P c"
  by (auto simp: state_def reads_def at_def currIsNewline_def current_is_def uchar_inj)

lemma state_end: "state ls [] b n \<Longrightarrow> \<not> currIsNewline ls" "state ls [] b n \<Longrightarrow> \<not> current_is P ls"
  by (auto simp: state_def reads_def currIsNewline_def current_is_def at_def) (metis uchar_not_EOZ)+

lemma next_exact:
  assumes "state ls (c # x) b n"
  shows "\<exists>ls1. lx_next ls = rreturn ls1 \<and> state ls1 x b n"
proof -
  have z: "zio_ok (lex_z ls)" "stream (lex_z ls) = x" using assms by (auto simp: state_def reads_def)
  show ?thesis
  proof (cases x)
    case Nil
    then show ?thesis using zgetc_end [OF z(1)] z(2) assms
      by (auto simp: lx_next_def state_def reads_def buffer_ok_def)
  next
    case (Cons d y)
    then show ?thesis using zgetc_ok [OF z(1), of d y] z(2) assms
      by (auto simp: lx_next_def state_def reads_def buffer_ok_def)
  qed
qed

lemma save_exact:
  assumes "state ls x b n" "fits (length b)" "\<And>k. grants env k" "d = char_of (c mod 256)"
  shows "\<exists>ls1. lx_save env ls c = rreturn ls1 \<and> state ls1 x (b @ [d]) n"
proof -
  have ok: "buffer_ok ls" and b: "buff ls = b" using assms(1) by (simp_all add: state_def)
  have "\<exists>s. lx_save env ls c = rreturn (ls\<lparr>buff_size := s, buff := b @ [d]\<rparr>)"
  proof (cases "length (buff ls) + 1 > buff_size ls")
    case True
    have "buff_size ls < 2147483648" using True ok assms(2) b by (simp add: buffer_ok_def fits_def)
    moreover obtain k where "k \<le> 26" "buff_size ls = 2 ^ (k + 5)" using ok by (auto simp: buffer_ok_def)
    ultimately have "k < 26" by (cases "k = 26") auto
    then have "(2 :: nat) ^ (k + 5) \<le> 2 ^ 30" by (intro power_increasing) simp_all
    then have "buff_size ls \<le> 1073741824" using \<open>buff_size ls = 2 ^ (k + 5)\<close> by simp
    then have "int (buff_size ls) < MAX_SIZET div 2" by (simp add: MAX_SIZET_def)
    moreover have "length b < buff_size ls * 2" using ok b buffer_size [OF ok] by (simp add: buffer_ok_def)
    ultimately show ?thesis using True assms(3,4) b by (auto simp: lx_save_def rreturn_def)
  next
    case False
    then have "lx_save env ls c = rreturn (ls\<lparr>buff_size := buff_size ls, buff := b @ [d]\<rparr>)" using assms(4) b by (simp add: lx_save_def)
    then show ?thesis by blast
  qed
  then obtain s where s: "lx_save env ls c = rreturn (ls\<lparr>buff_size := s, buff := b @ [d]\<rparr>)" by blast
  then have "buffer_ok (ls\<lparr>buff_size := s, buff := b @ [d]\<rparr>)"
    using returns_Inr [OF lx_save_buffer [OF ok, of env c]] by (auto simp: rreturn_def)
  then show ?thesis using s assms(1) by (auto simp: state_def reads_def split: list.splits)
qed

lemma save_and_next_exact:
  assumes "state ls (c # x) b n" "fits (length b)" "\<And>k. grants env k"
  shows "\<exists>ls1. save_and_next env ls = rreturn ls1 \<and> state ls1 x (b @ [c]) n"
proof -
  have "c = char_of (current ls mod 256)" using state_current(1) [OF assms(1)] uchar_range [of c] by (simp add: uchar_def)
  from save_exact [OF assms this] obtain a where a: "lx_save env ls (current ls) = rreturn a" "state a (c # x) (b @ [c]) n"
    by blast
  then show ?thesis using next_exact [OF a(2)] by (auto simp: save_and_next_def)
qed

lemma inclinenumber_exact:
  assumes "state ls (c # x) b n" "c = CHR 0x0A \<or> c = CHR 0x0D" "x \<noteq> []" "hd x \<noteq> CHR 0x0A" "hd x \<noteq> CHR 0x0D"
    "0 \<le> n" "n + 1 < MAX_INT"
  shows "\<exists>ls1. inclinenumber env ls = rreturn ls1 \<and> state ls1 x b (n + 1)"
proof -
  obtain a where a: "lx_next ls = rreturn a" "state a x b n" using next_exact [OF assms(1)] by blast
  obtain d y where x: "x = d # y" using assms(3) by (cases x) auto
  have "\<not> currIsNewline a" using state_current(3) [of a d y] a(2) assms(4,5) x by simp
  moreover have "linenumber a = n" "c_int (n + 1) = n + 1" using a(2) assms(6,7) by (auto simp: state_def MAX_INT_def intro: c_int_eq)
  ultimately have "inclinenumber env ls = rreturn (a\<lparr>linenumber := n + 1\<rparr>)"
    using a(1) assms(7) by (simp add: inclinenumber_def Let_def)
  moreover have "state (a\<lparr>linenumber := n + 1\<rparr>) x b (n + 1)" using a(2) by (auto simp: state_def reads_def buffer_ok_def split: list.splits)
  ultimately show ?thesis by blast
qed

section \<open>Reading a quoted string\<close>

definition newlines :: "char list \<Rightarrow> int" where
  "newlines s = int (length (filter (\<lambda>c. c = CHR 0x0A) s))"

lemma quoted_hd: "x = concat (map quoted_char s) @ CHR 0x22 # rest \<Longrightarrow> x \<noteq> [] \<and> hd x \<noteq> CHR 0x0A \<and> hd x \<noteq> CHR 0x0D"
  by (cases s) (auto simp: quoted_char_def)

lemma zeros_exact:
  assumes "state ls (CHR ''0'' # CHR ''0'' # CHR ''0'' # x) b n"
  shows "\<exists>ls1. decimal_escape 3 0 ls = rreturn (0, ls1) \<and> state ls1 x b n"
proof -
  obtain a1 a2 a3 where a: "lx_next ls = rreturn a1" "state a1 (CHR ''0'' # CHR ''0'' # x) b n"
    "lx_next a1 = rreturn a2" "state a2 (CHR ''0'' # x) b n" "lx_next a2 = rreturn a3" "state a3 x b n"
    using next_exact [OF assms] next_exact by metis
  have d: "isdigit_C (CHR ''0'')" by (simp add: isdigit_C_def uchar_def)
  have "current_is isdigit_C a1" "current_is isdigit_C a2"
    using state_current(4) [OF a(2)] state_current(4) [OF a(4)] d by simp_all
  then show ?thesis
    using a state_current(1) [OF assms] state_current(1) [OF a(2)] state_current(1) [OF a(4)]
    by (intro exI [of _ a3]) (simp add: numeral_3_eq_3 Let_def)
qed

lemma escape_exact:
  assumes "state ls (tl (quoted_char c) @ x) b n" "fits (length b)" "\<And>k. grants env k"
    "quoted_char c \<noteq> [c]" "x \<noteq> []" "hd x \<noteq> CHR 0x0A" "hd x \<noteq> CHR 0x0D" "0 \<le> n" "c = CHR 0x0A \<Longrightarrow> n + 1 < MAX_INT"
  shows "\<exists>ls1. escape env ls = rreturn ls1 \<and> state ls1 x (b @ [c]) (n + newlines [c])"
proof -
  consider "c = CHR 0x0A" | "c = CHR 0x22 \<or> c = CHR 0x5C" | "c = CHR 0x0D" | "c = NUL"
    using assms(4) by (auto simp: quoted_char_def split: if_splits)
  then show ?thesis
  proof cases
    case 1
    then have s: "state ls (CHR 0x0A # x) b n" using assms(1) by (simp add: quoted_char_def)
    obtain a where a: "lx_save env ls 10 = rreturn a" "state a (CHR 0x0A # x) (b @ [CHR 0x0A]) n"
      using save_exact [OF s assms(2,3), of "CHR 0x0A" 10] by (auto simp: char_of_def)
    obtain d where "inclinenumber env a = rreturn d" "state d x (b @ [CHR 0x0A]) (n + 1)"
      using inclinenumber_exact [OF a(2)] assms(5-8) assms(9) [OF 1] by blast
    then show ?thesis using a 1 state_current [OF s] by (auto simp: escape_def newlines_def)
  next
    case 2
    then have s: "state ls (c # x) b n" using assms(1) by (auto simp: quoted_char_def)
    have "map_of simple_escapes c = None" "\<not> isdigit_C c" "c \<noteq> CHR 0x0A" "c \<noteq> CHR 0x0D"
      using 2 by (auto simp: simple_escapes_def isdigit_C_def uchar_def)
    then have "escape env ls = save_and_next env ls"
      using state_current [OF s] by (simp add: escape_def)
    then show ?thesis using save_and_next_exact [OF s assms(2,3)] \<open>c \<noteq> CHR 0x0A\<close> by (simp add: newlines_def)
  next
    case 3
    then have s: "state ls (CHR ''r'' # x) b n" using assms(1) by (simp add: quoted_char_def)
    obtain a where a: "lx_save env ls 13 = rreturn a" "state a (CHR ''r'' # x) (b @ [CHR 0x0D]) n"
      using save_exact [OF s assms(2,3), of "CHR 0x0D" 13] by (auto simp: char_of_def)
    moreover have "escape env ls = rbind (lx_save env ls 13) lx_next"
      using state_current [OF s] by (simp add: escape_def simple_escapes_def)
    ultimately show ?thesis using next_exact [OF a(2)] 3 by (simp add: newlines_def)
  next
    case 4
    then have s: "state ls (CHR ''0'' # CHR ''0'' # CHR ''0'' # x) b n" using assms(1) by (simp add: quoted_char_def)
    obtain a where a: "decimal_escape 3 0 ls = rreturn (0, a)" "state a x b n" using zeros_exact [OF s] by blast
    have "map_of simple_escapes (CHR ''0'') = None" "isdigit_C (CHR ''0'')"
      by (simp_all add: simple_escapes_def isdigit_C_def uchar_def)
    then have "escape env ls = lx_save env a 0"
      using state_current [OF s] a(1) by (simp add: escape_def)
    moreover have "NUL = char_of (0 mod 256 :: int)" by code_simp
    ultimately have "\<exists>ls1. escape env ls = rreturn ls1 \<and> state ls1 x (b @ [NUL]) n"
      using save_exact [OF a(2) assms(2,3), of NUL 0] by simp
    moreover have "newlines [NUL] = 0" by (simp add: newlines_def)
    ultimately show ?thesis using 4 by simp
  qed
qed

lemma string_loop_exact:
  assumes "\<And>k. grants env k"
  shows "state ls (concat (map quoted_char s) @ CHR 0x22 # rest) b n \<Longrightarrow> fits (length b + length s) \<Longrightarrow>
    0 \<le> n \<Longrightarrow> n + newlines s < MAX_INT \<Longrightarrow>
    \<exists>ls1. string_loop env (uchar (CHR 0x22)) ls = rreturn ls1 \<and> state ls1 (CHR 0x22 # rest) (b @ s) (n + newlines s)"
proof (induction s arbitrary: ls b n)
  case Nil
  then show ?case using state_current(1) [of ls "CHR 0x22" rest b n]
    by (intro exI [of _ ls]) (subst string_loop.simps, simp add: newlines_def)
next
  case (Cons c s)
  define x where "x = concat (map quoted_char s) @ CHR 0x22 # rest"
  have hd: "x \<noteq> []" "hd x \<noteq> CHR 0x0A" "hd x \<noteq> CHR 0x0D" using quoted_hd [OF x_def] by simp_all
  have st: "state ls (quoted_char c @ x) b n" using Cons.prems(1) by (simp add: x_def)
  have f: "fits (length b)" using Cons.prems(2) by (simp add: fits_def)
  have n: "newlines (c # s) = newlines [c] + newlines s" "0 \<le> newlines [c]" "0 \<le> newlines s" by (simp_all add: newlines_def)
  have more: "\<exists>ls1. string_loop env (uchar (CHR 0x22)) a = rreturn ls1 \<and> state ls1 (CHR 0x22 # rest) (b @ c # s) (n + newlines (c # s))"
    if "state a x (b @ [c]) (n + newlines [c])" for a
    using Cons.IH [of a "b @ [c]" "n + newlines [c]"] that Cons.prems(2-4) n by (simp add: x_def add.assoc)
  show ?case
  proof (cases "quoted_char c = [c]")
    case True
    then have s: "state ls (c # x) b n" using st by simp
    have c: "c \<noteq> CHR 0x22" "c \<noteq> CHR 0x5C" "c \<noteq> CHR 0x0A" "c \<noteq> CHR 0x0D" using True by (auto simp: quoted_char_def)
    obtain a where a: "save_and_next env ls = rreturn a" "state a x (b @ [c]) n" using save_and_next_exact [OF s f assms] by blast
    have "string_loop env (uchar (CHR 0x22)) ls = string_loop env (uchar (CHR 0x22)) a"
      using state_current [OF s] a(1) c by (subst string_loop.simps) (simp add: uchar_inj)
    then show ?thesis using more [of a] a(2) c by (simp add: newlines_def)
  next
    case False
    then have "hd (quoted_char c) = CHR 0x5C" "quoted_char c \<noteq> []" by (auto simp: quoted_char_def split: if_splits)
    then have s: "state ls (CHR 0x5C # tl (quoted_char c) @ x) b n" using st by (cases "quoted_char c") auto
    obtain a where a: "lx_next ls = rreturn a" "state a (tl (quoted_char c) @ x) b n" using next_exact [OF s] by blast
    have "c = CHR 0x0A \<Longrightarrow> n + 1 < MAX_INT" using Cons.prems(4) n by (simp add: newlines_def)
    then obtain d where d: "escape env a = rreturn d" "state d x (b @ [c]) (n + newlines [c])"
      using escape_exact [OF a(2) f assms False hd Cons.prems(3)] by blast
    have "string_loop env (uchar (CHR 0x22)) ls = string_loop env (uchar (CHR 0x22)) d"
      using state_current [OF s] a(1) d(1) by (subst string_loop.simps) (simp add: uchar_inj)
    then show ?thesis using more [OF d(2)] by simp
  qed
qed


lemma newstring_exact:
  assumes "state ls x b n" "\<And>k. grants env k" "fits (length s)"
  shows "\<exists>ls1. luaX_newstring env ls s = rreturn (s, ls1) \<and> state ls1 x b n"
  using assms by (auto simp: luaX_newstring_def fits_def MAX_SIZET_def state_def reads_def buffer_ok_def split: list.splits)

lemma read_string_exact:
  assumes "\<And>k. grants env k" "state ls (addquoted s @ rest) [] n" "fits (length s + 2)" "0 \<le> n" "n + newlines s < MAX_INT"
  shows "\<exists>ls1 b. read_string env (current ls) ls = rreturn (Sem_ts s, ls1) \<and> state ls1 rest b (n + newlines s)"
proof -
  have f: "fits k" if "k \<le> length s + 2" for k using that assms(3) by (simp add: fits_def)
  have s: "state ls (CHR 0x22 # concat (map quoted_char s) @ CHR 0x22 # rest) [] n" using assms(2) by (simp add: addquoted_def)
  obtain a where a: "save_and_next env ls = rreturn a" "state a (concat (map quoted_char s) @ CHR 0x22 # rest) [CHR 0x22] n"
    using save_and_next_exact [OF s f assms(1)] by auto
  obtain d where d: "string_loop env (uchar (CHR 0x22)) a = rreturn d" "state d (CHR 0x22 # rest) ([CHR 0x22] @ s) (n + newlines s)"
    using string_loop_exact [OF assms(1) a(2) f assms(4,5)] by auto
  obtain e where e: "save_and_next env d = rreturn e" "state e rest (([CHR 0x22] @ s) @ [CHR 0x22]) (n + newlines s)"
    using save_and_next_exact [OF d(2) f assms(1)] by auto
  then have "slice (buff e) 1 (int (length (buff e)) - 2) = rreturn s" by (simp add: state_def slice_ok)
  moreover obtain g where "luaX_newstring env e s = rreturn (s, g)" "state g rest (([CHR 0x22] @ s) @ [CHR 0x22]) (n + newlines s)"
    using newstring_exact [OF e(2) assms(1) f, of s] by auto
  ultimately show ?thesis
    using a(1) d(1) e(1) state_current(1) [OF s] by (auto simp: read_string_def)
qed

text \<open>
  C34: What \<^verbatim>\<open>string.format\<close> writes for \<^verbatim>\<open>%q\<close> the lexer reads back: for every string, with any bytes in it,
  quotes, backslashes, line breaks and NULs included, and whatever follows, the next token is a string
  token with that value, the rest of the input is untouched, and the line counter has gone up by the
  number of line breaks in the string.
\<close>

theorem quoted_read_back:
  assumes "\<And>k. grants env k" "reads ls (addquoted s @ rest)" "buffer_ok (resetbuffer ls)"
    and "fits (length s + 2)" "0 \<le> linenumber ls" "linenumber ls + newlines s < MAX_INT"
  shows "\<exists>ls1. llex env ls = rreturn (TK_STRING, Sem_ts s, ls1) \<and> reads ls1 rest \<and>
    linenumber ls1 = linenumber ls + newlines s"
proof -
  have st: "state (resetbuffer ls) (addquoted s @ rest) [] (linenumber ls)"
    using assms(2,3) by (auto simp: state_def reads_def resetbuffer_def split: list.splits)
  then have q: "state (resetbuffer ls) (CHR 0x22 # concat (map quoted_char s) @ CHR 0x22 # rest) [] (linenumber ls)"
    by (simp add: addquoted_def)
  have "llex env ls = rbind (read_string env (current (resetbuffer ls)) (resetbuffer ls)) (\<lambda>(s, ls). rreturn (TK_STRING, s, ls))"
    unfolding llex_def using state_current(2,3) [OF q] by (subst lex_loop.simps) simp
  moreover obtain ls1 b where "read_string env (current (resetbuffer ls)) (resetbuffer ls) = rreturn (Sem_ts s, ls1)"
    "state ls1 rest b (linenumber ls + newlines s)"
    using read_string_exact [OF assms(1) st assms(4-6)] by blast
  ultimately show ?thesis by (auto simp: state_def)
qed

theorem quoted_read_back_witness:
  "\<exists>ls1. llex sample_env (sample_lexer [] \<lparr>current := uchar (CHR 0x22),
       lex_z := luaZ_init [Some (tl (addquoted [CHR 0x22, CHR 0x0A, NUL])), Some ''+ 1'']\<rparr>)
     = rreturn (TK_STRING, Sem_ts [CHR 0x22, CHR 0x0A, NUL], ls1) \<and> reads ls1 ''+ 1'' \<and> linenumber ls1 = 2"
proof -
  let ?s = "[CHR 0x22, CHR 0x0A, NUL]"
  let ?ls = "sample_lexer [] \<lparr>current := uchar (CHR 0x22), lex_z := luaZ_init [Some (tl (addquoted ?s)), Some ''+ 1'']\<rparr>"
  have "reads ?ls (addquoted ?s @ ''+ 1'')" by (simp add: reads_def addquoted_def quoted_char_def luaZ_init_def zio_ok_def stream_def)
  moreover have "buffer_ok (resetbuffer ?ls)"
    using sample_between [of "[]"] by (simp add: between_tokens_def lex_ok_def buffer_ok_def resetbuffer_def)
  ultimately show ?thesis
    using quoted_read_back [of sample_env ?ls ?s "''+ 1''"]
    by (simp add: sample_env_def sample_lexer_def fits_def newlines_def MAX_INT_def)
qed

section \<open>Names\<close>

definition name_char :: "char \<Rightarrow> bool" where
  "name_char c \<longleftrightarrow> isalnum_C c \<or> c = CHR ''_''"

lemma save_while_exact:
  assumes "\<And>k. grants env k" "rest = [] \<or> \<not> P (hd rest)"
  shows "state ls (w @ rest) b n \<Longrightarrow> \<forall>c\<in>set w. P c \<Longrightarrow> fits (length b + length w) \<Longrightarrow>
    \<exists>ls1. save_while env P ls = rreturn ls1 \<and> state ls1 rest (b @ w) n"
proof (induction w arbitrary: ls b)
  case Nil
  then have "\<not> current_is P ls" using assms(2) state_current(4) [of ls _ _ b n P] state_end(2) [of ls b n P] by (cases rest) auto
  then show ?case using Nil by (intro exI [of _ ls]) (subst save_while.simps, simp)
next
  case (Cons c w)
  then have s: "state ls (c # w @ rest) b n" "fits (length b)" by (simp_all add: fits_def)
  obtain a where a: "save_and_next env ls = rreturn a" "state a (w @ rest) (b @ [c]) n"
    using save_and_next_exact [OF s assms(1)] by blast
  then have "save_while env P ls = save_while env P a"
    using state_current(4) [OF s(1)] Cons.prems(2) by (subst save_while.simps) simp
  then show ?case using Cons.IH [OF a(2)] Cons.prems by simp
qed

lemma nth_take_set: "i < k \<Longrightarrow> k \<le> length xs \<Longrightarrow> xs ! i \<in> set (take k xs)"
  by (metis length_take min.absorb2 nth_mem nth_take)

lemma reserved_index: "(\<exists>i. word_index ws s = Suc i \<and> i < length ws \<and> ws ! i = s) \<or> word_index ws s = 0 \<and> s \<notin> set ws"
  by (induction ws) (auto simp: Let_def)

text \<open>
  A word, a letter or underscore and then letters, digits and underscores up to the first other
  character, is one token: its own token if it is one of the reserved words, otherwise a name with that
  text.  The rest of the input is untouched.
\<close>

theorem word_is_token:
  assumes "\<And>k. grants env k" "reads ls (w @ rest)" "buffer_ok (resetbuffer ls)" "fits (length w)"
    and "w \<noteq> []" "\<forall>c\<in>set w. name_char c" "\<not> isdigit_C (hd w)" "rest = [] \<or> \<not> name_char (hd rest)"
  shows "\<exists>k s ls1. llex env ls = rreturn (k, s, ls1) \<and> reads ls1 rest \<and> linenumber ls1 = linenumber ls \<and>
    (if w \<in> set (take NUM_RESERVED luaX_tokens)
     then FIRST_RESERVED \<le> k \<and> k \<le> TK_WHILE \<and> luaX_tokens ! nat (k - FIRST_RESERVED) = w
     else k = TK_NAME \<and> s = Sem_ts w)"
proof -
  obtain c v where w: "w = c # v" using assms(5) by (cases w) auto
  have st: "state (resetbuffer ls) (c # v @ rest) [] (linenumber ls)"
    using assms(2,3) w by (auto simp: state_def reads_def resetbuffer_def)
  have c: "name_char c" "isalpha_C c \<or> c = CHR ''_''" "\<not> isspace_C c" "\<not> isdigit_C c"
    using assms(6,7) w by (auto simp: name_char_def isalnum_C_def isalpha_C_def isspace_C_def isupper_C_def islower_C_def uchar_def)
  have "\<not> name_char d" if "d \<in> {CHR 0x0A, CHR 0x0D, CHR ''-'', CHR ''['', CHR ''='', CHR ''<'', CHR ''>'', CHR ''~'', CHR 0x22, CHR 0x27, CHR ''.''}" for d
    using that by (auto simp: name_char_def isalnum_C_def isalpha_C_def isdigit_C_def isupper_C_def islower_C_def uchar_def)
  then have no: "c \<notin> {CHR 0x0A, CHR 0x0D, CHR ''-'', CHR ''['', CHR ''='', CHR ''<'', CHR ''>'', CHR ''~'', CHR 0x22, CHR 0x27, CHR ''.''}"
    using c(1) by blast
  have "current (resetbuffer ls) \<noteq> EOZ" using state_current(1) [OF st] by simp
  then have eq: "llex env ls = read_name env (resetbuffer ls)"
    unfolding llex_def using no c state_current(2-4) [OF st] by (subst lex_loop.simps) (simp add: no [simplified])
  have f: "fits (length ([] :: char list))" by (simp add: fits_def)
  obtain a where a: "save_and_next env (resetbuffer ls) = rreturn a" "state a (v @ rest) ([] @ [c]) (linenumber ls)"
    using save_and_next_exact [OF st f assms(1)] by blast
  obtain b where b: "save_while env name_char a = rreturn b" "state b rest w (linenumber ls)"
    using save_while_exact [of env rest name_char a v "[c]" "linenumber ls"] assms(1,4,6,8) a(2) w by auto
  obtain d where d: "luaX_newstring env b w = rreturn (w, d)" "state d rest w (linenumber ls)"
    using newstring_exact [OF b(2) assms(1) assms(4)] by blast
  have run: "llex env ls = rreturn (if reserved w > 0 then (int (reserved w) - 1 + FIRST_RESERVED, Sem_unset, d)
              else (TK_NAME, Sem_ts w, d))"
    using a(1) b d(1) unfolding eq read_name_def name_char_def by (simp add: state_def name_char_def [abs_def])
  have r: "reads d rest" "linenumber d = linenumber ls" using d(2) by (simp_all add: state_def)
  consider (word) i where "reserved w = Suc i" "i < 21" "luaX_tokens ! i = w" "w \<in> set (take NUM_RESERVED luaX_tokens)"
    | (name) "reserved w = 0" "w \<notin> set (take NUM_RESERVED luaX_tokens)"
    using reserved_index [of "take NUM_RESERVED luaX_tokens" w] unfolding reserved_def [symmetric]
    by (auto simp: NUM_RESERVED_def TK_WHILE_def FIRST_RESERVED_def tokens_length nth_take_set)
  then show ?thesis
  proof cases
    case word
    then show ?thesis using run r
      by (intro exI [of _ "int i + 257"] exI [of _ Sem_unset] exI [of _ d]) (auto simp: FIRST_RESERVED_def TK_WHILE_def)
  next
    case name
    then show ?thesis using run r by auto
  qed
qed

theorem word_is_token_witness:
  "\<exists>k s ls1. llex sample_env (sample_lexer ''nd x'' \<lparr>current := uchar (CHR ''e'')\<rparr>) = rreturn (k, s, ls1) \<and> reads ls1 '' x'' \<and>
     luaX_tokens ! nat (k - FIRST_RESERVED) = ''end''"
proof -
  let ?ls = "sample_lexer ''nd x'' \<lparr>current := uchar (CHR ''e'')\<rparr>"
  have "reads ?ls (''end'' @ '' x'')" by (simp add: reads_def sample_lexer_def zio_ok_def stream_def)
  moreover have "buffer_ok (resetbuffer ?ls)"
    using sample_between [of "''nd x''"] by (simp add: between_tokens_def lex_ok_def buffer_ok_def resetbuffer_def)
  moreover have "\<forall>c\<in>set ''end''. name_char c" "\<not> isdigit_C (CHR ''e'')" "\<not> name_char (CHR '' '')"
    by (simp_all add: name_char_def isalnum_C_def isalpha_C_def isdigit_C_def isupper_C_def islower_C_def uchar_def)
  moreover have "''end'' \<in> set (take NUM_RESERVED luaX_tokens)"
    by (simp add: NUM_RESERVED_def TK_WHILE_def FIRST_RESERVED_def luaX_tokens_def numeral_eq_Suc)
  ultimately show ?thesis
    using word_is_token [of sample_env ?ls "''end''" "'' x''"] by (simp add: sample_env_def fits_def) blast
qed

end
