(* ===== verification/LuaString.thy ===== *)
theory LuaString
  imports LuaPattern "HOL-Library.Multiset"
begin

unbundle bit_operations_syntax

text \<open>
  The table of strings (\<^verbatim>\<open>lualib/lstring.c\<close>): Lua keeps one object for every text.  The table is a
  vector of chains; a chain is the list of its strings, first one first.  A string has the address
  of its object, its hash and its text, and the collector's flag that it is dead but not yet swept.
\<close>

section \<open>Hashing\<close>

text \<open>\<^verbatim>\<open>lmod\<close>: the remainder by a power of two.\<close>

definition lmod :: "32 word \<Rightarrow> int \<Rightarrow> nat" where
  "lmod s sz = unat (s AND (word_of_int sz - 1))"

function hash_loop :: "char list \<Rightarrow> nat \<Rightarrow> nat \<Rightarrow> 32 word \<Rightarrow> 32 word" where
  "hash_loop str step l1 h =
     (if l1 \<ge> step \<and> step > 0
      then hash_loop str step (l1 - step)
             (h XOR (push_bit 5 h + drop_bit 2 h + word_of_int (uchar (str ! (l1 - 1)))))
      else h)"
  by pat_completeness auto
termination by (relation "measure (\<lambda>(str, step, l1, h). l1)") auto

declare hash_loop.simps [simp del]

definition str_hash :: "char list \<Rightarrow> 32 word" where
  "str_hash str = hash_loop str (length str div 32 + 1) (length str) (of_nat (length str))"

section \<open>The table\<close>

record TString =
  ts_addr :: nat
  ts_hash :: "32 word"
  ts_text :: "char list"
  ts_dead :: bool

record stringtable =
  strt_hash :: "TString list list"
  strt_nuse :: nat
  strt_size :: int

definition sizeof_TString :: int where "sizeof_TString = 16"
definition sizeof_Udata :: int where "sizeof_Udata = 24"

text \<open>One step of the rehash: a string goes to the front of its new chain.\<close>

definition rechain :: "int \<Rightarrow> TString list list \<Rightarrow> TString \<Rightarrow> TString list list" where
  "rechain newsize nh p = (let h1 = lmod (ts_hash p) newsize in nh[h1 := p # nh ! h1])"

text \<open>The parameters say whether the collector sweeps strings and whether memory is granted.\<close>

definition luaS_resize :: "bool \<Rightarrow> (int \<Rightarrow> bool) \<Rightarrow> stringtable \<Rightarrow> int \<Rightarrow> stringtable res" where
  "luaS_resize sweeping gr tb newsize =
     (if sweeping then rreturn tb
      else case luaM_reallocv (gr (newsize * 4)) 0 0 newsize 4 of
             Inl e \<Rightarrow> Some (Inl e)
           | Inr _ \<Rightarrow>
               rreturn (tb\<lparr>strt_hash := foldl (foldl (rechain newsize)) (replicate (nat newsize) []) (strt_hash tb),
                            strt_size := newsize\<rparr>))"

definition newlstr ::
  "bool \<Rightarrow> (int \<Rightarrow> bool) \<Rightarrow> stringtable \<Rightarrow> nat \<Rightarrow> char list \<Rightarrow> 32 word \<Rightarrow> (stringtable \<times> TString) res" where
  "newlstr sweeping gr tb addr str h =
     (if int (length str) + 1 > MAX_SIZET - sizeof_TString then Some (Inl luaM_toobig)
      else if \<not> gr ((int (length str) + 1) + sizeof_TString) then Some (Inl LUA_ERRMEM)
      else
        (let ts = \<lparr>ts_addr = addr, ts_hash = h, ts_text = str, ts_dead = False\<rparr>;
             i = lmod h (strt_size tb);
             tb1 = tb\<lparr>strt_hash := (strt_hash tb)[i := ts # strt_hash tb ! i], strt_nuse := strt_nuse tb + 1\<rparr>
         in if i \<ge> length (strt_hash tb) then None
            else if int (strt_nuse tb1) > strt_size tb1 \<and> strt_size tb1 \<le> MAX_INT div 2
                 then rbind (luaS_resize sweeping gr tb1 (strt_size tb1 * 2)) (\<lambda>tb2. rreturn (tb2, ts))
                 else rreturn (tb1, ts)))"

text \<open>The search down a chain: the position of the string with the given text.\<close>

fun find_text :: "char list \<Rightarrow> TString list \<Rightarrow> nat option" where
  "find_text str [] = None"
| "find_text str (ts # o1) =
     (if length (ts_text ts) = length str \<and> ts_text ts = str then Some 0 else map_option Suc (find_text str o1))"

definition luaS_newlstr ::
  "bool \<Rightarrow> (int \<Rightarrow> bool) \<Rightarrow> stringtable \<Rightarrow> nat \<Rightarrow> char list \<Rightarrow> (stringtable \<times> TString) res" where
  "luaS_newlstr sweeping gr tb addr str =
     (let h = str_hash str; i = lmod h (strt_size tb)
      in if i \<ge> length (strt_hash tb) then None
         else case find_text str (strt_hash tb ! i) of
                Some j \<Rightarrow>
                  (let ts = (strt_hash tb ! i ! j)\<lparr>ts_dead := False\<rparr>
                   in rreturn (tb\<lparr>strt_hash := (strt_hash tb)[i := (strt_hash tb ! i)[j := ts]]\<rparr>, ts))
              | None \<Rightarrow> newlstr sweeping gr tb addr str h)"

section \<open>User data\<close>

record Udata =
  u_len :: int
  u_metatable :: "nat option"
  u_env :: "nat option"

text \<open>The list of user data hangs off the main thread.\<close>

definition luaS_newudata :: "bool \<Rightarrow> (nat \<times> Udata) list \<Rightarrow> nat \<Rightarrow> int \<Rightarrow> nat option \<Rightarrow>
    ((nat \<times> Udata) list \<times> nat) res" where
  "luaS_newudata granted chain addr s e =
     (if s > MAX_SIZET - sizeof_Udata then Some (Inl luaM_toobig)
      else if \<not> granted then Some (Inl LUA_ERRMEM)
      else rreturn ((addr, \<lparr>u_len = s, u_metatable = None, u_env = e\<rparr>) # chain, addr))"

section \<open>The invariant\<close>

definition all_strings :: "stringtable \<Rightarrow> TString list" where
  "all_strings tb = concat (strt_hash tb)"

definition chained :: "int \<Rightarrow> TString list list \<Rightarrow> bool" where
  "chained sz b \<longleftrightarrow> length b = nat sz \<and>
     (\<forall>i < length b. \<forall>ts \<in> set (b ! i). ts_hash ts = str_hash (ts_text ts) \<and> lmod (ts_hash ts) sz = i)"

definition strt_ok :: "stringtable \<Rightarrow> bool" where
  "strt_ok tb \<longleftrightarrow>
     (\<exists>k \<le> 30. strt_size tb = 2 ^ k) \<and> chained (strt_size tb) (strt_hash tb) \<and>
     distinct (map ts_text (all_strings tb)) \<and> strt_nuse tb = length (all_strings tb)"

text \<open>What the table is for: the object of every text.\<close>

definition interned :: "stringtable \<Rightarrow> char list \<rightharpoonup> nat" where
  "interned tb = map_of (map (\<lambda>ts. (ts_text ts, ts_addr ts)) (all_strings tb))"

lemma lmod_mod: "k \<le> 31 \<Longrightarrow> lmod s (2 ^ k) = unat s mod 2 ^ k"
proof -
  have "(word_of_int (2 ^ k) - 1 :: 32 word) = mask k"
    by (simp add: mask_eq_decr_exp)
  then have "lmod s (2 ^ k) = unat (take_bit k s)" by (simp add: lmod_def take_bit_eq_mask)
  also have "\<dots> = take_bit k (unat s)" by (rule unsigned_take_bit_eq)
  finally show ?thesis by (simp only: take_bit_eq_mod)
qed

lemma lmod_less: "k \<le> 31 \<Longrightarrow> lmod s (2 ^ k) < 2 ^ k"
  by (simp add: lmod_mod)

lemma mset_concat_update:
  "i < length xs \<Longrightarrow> mset (concat (xs[i := p # xs ! i])) = add_mset p (mset (concat xs))"
proof (induction xs arbitrary: i)
  case (Cons x xs)
  then show ?case by (cases i) auto
qed simp

lemma chained_push:
  assumes "chained (2 ^ k) b" "k \<le> 31" "ts_hash ts = str_hash (ts_text ts)" "i = lmod (ts_hash ts) (2 ^ k)"
  shows "chained (2 ^ k) (b[i := ts # b ! i])"
  unfolding chained_def
proof (intro conjI allI impI ballI)
  fix j t
  assume j: "j < length (b[i := ts # b ! i])" "t \<in> set (b[i := ts # b ! i] ! j)"
  then have "t = ts \<and> j = i \<or> t \<in> set (b ! j)" by (cases "i = j") (auto simp: nth_list_update)
  then show "ts_hash t = str_hash (ts_text t)" "lmod (ts_hash t) (2 ^ k) = j"
    using assms j by (auto simp: chained_def)
qed (use assms in \<open>auto simp: chained_def\<close>)

lemma chained_in_range: "chained (2 ^ k) b \<Longrightarrow> k \<le> 31 \<Longrightarrow> lmod s (2 ^ k) < length b"
  using lmod_less [of k s] by (simp add: chained_def nat_power_eq)

lemma rechain_chain:
  assumes "chained (2 ^ k) nh" "k \<le> 31" "\<forall>ts \<in> set c. ts_hash ts = str_hash (ts_text ts)"
  shows "chained (2 ^ k) (foldl (rechain (2 ^ k)) nh c) \<and>
    mset (concat (foldl (rechain (2 ^ k)) nh c)) = mset (concat nh) + mset c"
  using assms
proof (induction c arbitrary: nh)
  case (Cons ts c)
  have "chained (2 ^ k) (rechain (2 ^ k) nh ts)"
    unfolding rechain_def Let_def using Cons.prems by (intro chained_push) auto
  moreover have "mset (concat (rechain (2 ^ k) nh ts)) = add_mset ts (mset (concat nh))"
    unfolding rechain_def Let_def by (rule mset_concat_update [OF chained_in_range]) (use Cons.prems in auto)
  ultimately show ?case using Cons.IH [of "rechain (2 ^ k) nh ts"] Cons.prems by simp
qed simp

lemma rechain_all:
  assumes "chained (2 ^ k) nh" "k \<le> 31" "\<forall>c \<in> set b. \<forall>ts \<in> set c. ts_hash ts = str_hash (ts_text ts)"
  shows "chained (2 ^ k) (foldl (foldl (rechain (2 ^ k))) nh b) \<and>
    mset (concat (foldl (foldl (rechain (2 ^ k))) nh b)) = mset (concat nh) + mset (concat b)"
  using assms
proof (induction b arbitrary: nh)
  case (Cons c b)
  then show ?case using rechain_chain [of k nh c] Cons.IH [of "foldl (rechain (2 ^ k)) nh c"] by auto
qed simp

lemma chained_hash: "chained s b \<Longrightarrow> c \<in> set b \<Longrightarrow> ts \<in> set c \<Longrightarrow> ts_hash ts = str_hash (ts_text ts)"
  by (auto simp: chained_def in_set_conv_nth [of c])

lemma interned_mset:
  assumes "distinct (map ts_text xs)" "mset xs = mset ys"
  shows "map_of (map (\<lambda>ts. (ts_text ts, ts_addr ts)) xs) = map_of (map (\<lambda>ts. (ts_text ts, ts_addr ts)) ys)"
proof (rule map_of_inject_set [THEN iffD2])
  have "mset (map ts_text xs) = mset (map ts_text ys)" using assms(2) by simp
  then have "distinct (map ts_text ys)" using assms(1) mset_eq_imp_distinct_iff by blast
  then show "distinct (map fst (map (\<lambda>ts. (ts_text ts, ts_addr ts)) ys))" by (simp add: comp_def)
  show "set (map (\<lambda>ts. (ts_text ts, ts_addr ts)) xs) = set (map (\<lambda>ts. (ts_text ts, ts_addr ts)) ys)"
    using mset_eq_setD [OF assms(2)] by auto
qed (use assms(1) in \<open>simp add: comp_def\<close>)

lemma find_text_Some:
  "find_text str c = Some j \<Longrightarrow> j < length c \<and> ts_text (c ! j) = str"
  by (induction c arbitrary: j) (auto split: if_splits)

lemma find_text_None: "find_text str c = None \<longleftrightarrow> (\<forall>ts \<in> set c. ts_text ts \<noteq> str)"
  by (induction c) auto

lemma find_text_all:
  assumes "strt_ok tb" "find_text str (strt_hash tb ! lmod (str_hash str) (strt_size tb)) = None"
    "ts \<in> set (all_strings tb)"
  shows "ts_text ts \<noteq> str"
proof
  assume str: "ts_text ts = str"
  obtain i where "i < length (strt_hash tb)" "ts \<in> set (strt_hash tb ! i)"
    using assms(3) by (auto simp: all_strings_def in_set_conv_nth [of _ "strt_hash tb"])
  then show False
    using assms(1, 2) str unfolding strt_ok_def chained_def find_text_None by metis
qed

lemma strt_size_ok: "strt_ok tb \<Longrightarrow> lmod h (strt_size tb) < length (strt_hash tb)"
  using chained_in_range [of _ "strt_hash tb" h] by (auto simp: strt_ok_def)

section \<open>Resizing and interning\<close>

lemma luaS_resize_ok:
  assumes "strt_ok tb" "k \<le> 30"
  shows "returns (luaS_resize sweeping gr tb (2 ^ k)) (\<lambda>tb'. strt_ok tb' \<and> mset (all_strings tb') = mset (all_strings tb))"
proof -
  let ?nh = "foldl (foldl (rechain (2 ^ k))) (replicate (nat (2 ^ k)) []) (strt_hash tb)"
  have "chained (2 ^ k) (replicate (nat (2 ^ k)) [])" by (simp add: chained_def)
  moreover have "\<forall>c \<in> set (strt_hash tb). \<forall>ts \<in> set c. ts_hash ts = str_hash (ts_text ts)"
    using assms(1) chained_hash unfolding strt_ok_def by blast
  ultimately have nh: "chained (2 ^ k) ?nh" "mset (concat ?nh) = mset (concat (strt_hash tb))"
    using rechain_all [of k "replicate (nat (2 ^ k)) []" "strt_hash tb"] assms(2) by auto
  let ?tb = "tb\<lparr>strt_hash := ?nh, strt_size := 2 ^ k\<rparr>"
  have m: "mset (all_strings ?tb) = mset (all_strings tb)" using nh by (simp add: all_strings_def)
  have "mset (map ts_text (all_strings ?tb)) = mset (map ts_text (all_strings tb))" using m by simp
  then have "distinct (map ts_text (all_strings ?tb))"
    using assms(1) mset_eq_imp_distinct_iff unfolding strt_ok_def by blast
  moreover have "length (all_strings ?tb) = length (all_strings tb)" using m by (rule mset_eq_length)
  ultimately have "strt_ok ?tb" using assms nh(1) unfolding strt_ok_def by auto
  then show ?thesis using m assms(1) by (auto simp: luaS_resize_def split: sum.splits)
qed

lemma newlstr_ok:
  assumes "strt_ok tb" "\<forall>ts \<in> set (all_strings tb). ts_text ts \<noteq> str"
  shows "returns (newlstr sweeping gr tb addr str (str_hash str)) (\<lambda>(tb', ts). strt_ok tb' \<and>
    ts = \<lparr>ts_addr = addr, ts_hash = str_hash str, ts_text = str, ts_dead = False\<rparr> \<and>
    mset (all_strings tb') = add_mset ts (mset (all_strings tb)))"
proof -
  let ?ts = "\<lparr>ts_addr = addr, ts_hash = str_hash str, ts_text = str, ts_dead = False\<rparr>"
  let ?i = "lmod (str_hash str) (strt_size tb)"
  let ?tb = "tb\<lparr>strt_hash := (strt_hash tb)[?i := ?ts # strt_hash tb ! ?i], strt_nuse := strt_nuse tb + 1\<rparr>"
  obtain k where k: "k \<le> 30" "strt_size tb = 2 ^ k" using assms(1) unfolding strt_ok_def by blast
  have i: "?i < length (strt_hash tb)" by (rule strt_size_ok [OF assms(1)])
  have m: "mset (all_strings ?tb) = add_mset ?ts (mset (all_strings tb))"
    unfolding all_strings_def using mset_concat_update [OF i] by simp
  have "mset (map ts_text (all_strings ?tb)) = mset (str # map ts_text (all_strings tb))" using m by simp
  then have "distinct (map ts_text (all_strings ?tb)) = distinct (str # map ts_text (all_strings tb))"
    by (rule mset_eq_imp_distinct_iff)
  moreover have "length (all_strings ?tb) = Suc (length (all_strings tb))" using arg_cong [OF m, of size] by simp
  moreover have "chained (2 ^ k) (strt_hash ?tb)"
    using assms(1) k unfolding strt_ok_def by (simp, intro chained_push) simp_all
  ultimately have ok: "strt_ok ?tb" using assms k unfolding strt_ok_def by auto
  have "returns (luaS_resize sweeping gr ?tb (strt_size ?tb * 2))
      (\<lambda>tb'. strt_ok tb' \<and> mset (all_strings tb') = mset (all_strings ?tb))"
    if "strt_size ?tb \<le> MAX_INT div 2"
  proof -
    have "(2::int) ^ k < 2 ^ 30" using that k by (simp add: MAX_INT_def)
    then have "Suc k \<le> 30" by (metis Suc_leI power_less_imp_less_exp one_less_numeral_iff semiring_norm(76))
    then show ?thesis using luaS_resize_ok [OF ok, of "Suc k" sweeping gr] k by (simp add: mult.commute)
  qed
  then show ?thesis
    using i ok m unfolding newlstr_def Let_def by (auto intro!: returns_bind intro: returns_mono)
qed

lemma map_concat_update:
  assumes "i < length xs" "j < length (xs ! i)" "f y = f (xs ! i ! j)"
  shows "map f (concat (xs[i := (xs ! i)[j := y]])) = map f (concat xs)"
proof -
  have "map f ((xs ! i)[j := y]) = map f (xs ! i)"
    using assms(2, 3) by (metis list_update_id map_update)
  then have "map (map f) (xs[i := (xs ! i)[j := y]]) = map (map f) xs"
    using assms(1) by (metis list_update_id map_update)
  then show ?thesis by (metis map_concat)
qed

lemma revive_ok:
  assumes "strt_ok tb" "i < length (strt_hash tb)" "j < length (strt_hash tb ! i)"
  defines "ts \<equiv> (strt_hash tb ! i ! j)\<lparr>ts_dead := False\<rparr>"
  defines "tb' \<equiv> tb\<lparr>strt_hash := (strt_hash tb)[i := (strt_hash tb ! i)[j := ts]]\<rparr>"
  shows "strt_ok tb' \<and> interned tb' = interned tb \<and> ts \<in> set (all_strings tb')"
proof -
  have "map f (all_strings tb') = map f (all_strings tb)" if "f ts = f (strt_hash tb ! i ! j)" for f :: "TString \<Rightarrow> 'a"
    unfolding all_strings_def tb'_def using map_concat_update [OF assms(2, 3) that] by simp
  from this [of ts_text] this [of "\<lambda>ts. (ts_text ts, ts_addr ts)"] this [of "\<lambda>_. ()"]
  have m: "map ts_text (all_strings tb') = map ts_text (all_strings tb)"
    "map (\<lambda>ts. (ts_text ts, ts_addr ts)) (all_strings tb') = map (\<lambda>ts. (ts_text ts, ts_addr ts)) (all_strings tb)"
    by (simp_all add: ts_def)
  have old: "chained (strt_size tb) (strt_hash tb)" using assms(1) by (simp add: strt_ok_def)
  have "strt_hash tb ! i ! j \<in> set (strt_hash tb ! i)" using assms(3) by simp
  then have "ts_hash (strt_hash tb ! i ! j) = str_hash (ts_text (strt_hash tb ! i ! j)) \<and>
      lmod (ts_hash (strt_hash tb ! i ! j)) (strt_size tb) = i"
    using old assms(2) unfolding chained_def by blast
  then have el: "ts_hash ts = str_hash (ts_text ts)" "lmod (ts_hash ts) (strt_size tb) = i" by (auto simp: ts_def)
  have "chained (strt_size tb) (strt_hash tb')"
    unfolding chained_def
  proof (intro conjI allI impI ballI)
    fix n t assume n: "n < length (strt_hash tb')" "t \<in> set (strt_hash tb' ! n)"
    then have "t \<in> set (strt_hash tb ! n) \<or> n = i \<and> t = ts"
      by (cases "i = n") (auto simp: tb'_def nth_list_update dest: set_update_subset_insert [THEN subsetD])
    then show "ts_hash t = str_hash (ts_text t)" "lmod (ts_hash t) (strt_size tb) = n"
      using old n el by (auto simp: chained_def tb'_def)
  qed (use old in \<open>simp add: chained_def tb'_def\<close>)
  moreover have "length (all_strings tb') = length (all_strings tb)" using arg_cong [OF m(1), of length] by simp
  moreover have "ts \<in> set (all_strings tb')"
    using assms(2, 3) by (auto simp: all_strings_def tb'_def set_update_memI intro!: bexI [OF _ set_update_memI])
  ultimately show ?thesis using assms(1) m by (simp add: strt_ok_def interned_def tb'_def)
qed

lemma luaS_newlstr_granted:
  assumes "\<forall>n. gr n" "length str < 2 ^ 31" "strt_size tb \<le> 2 ^ 28" "0 \<le> strt_size tb"
    "luaS_newlstr sweeping gr tb addr str = Some r"
  shows "\<not> isl r"
  using assms by (auto simp: luaS_newlstr_def newlstr_def luaS_resize_def luaM_reallocv_def luaM_realloc_def Let_def rbind_def
    rreturn_def MAX_SIZET_def sizeof_TString_def split: if_splits option.splits)

lemma luaS_newlstr_result:
  assumes "strt_ok tb"
  shows "\<exists>r. luaS_newlstr sweeping gr tb addr str = Some r \<and>
    (\<forall>tb' ts. r = Inr (tb', ts) \<longrightarrow> strt_ok tb' \<and> ts \<in> set (all_strings tb') \<and> ts_text ts = str \<and> \<not> ts_dead ts \<and>
       ts_addr ts = (case interned tb str of Some a \<Rightarrow> a | None \<Rightarrow> addr) \<and>
       interned tb' = (interned tb)(str \<mapsto> ts_addr ts))"
proof -
  let ?i = "lmod (str_hash str) (strt_size tb)"
  have i: "?i < length (strt_hash tb)" by (rule strt_size_ok [OF assms])
  have dist: "distinct (map ts_text (all_strings tb))" using assms by (simp add: strt_ok_def)
  have got: "interned tb (ts_text ts) = Some (ts_addr ts)" if "ts \<in> set (all_strings tb)" for ts
    unfolding interned_def using dist that by (intro map_of_is_SomeI) (auto simp: comp_def)
  show ?thesis
  proof (cases "find_text str (strt_hash tb ! ?i)")
    case (Some j)
    have j: "j < length (strt_hash tb ! ?i)" "ts_text (strt_hash tb ! ?i ! j) = str" using find_text_Some [OF Some] by auto
    have "strt_hash tb ! ?i ! j \<in> set (all_strings tb)" using i j(1) by (auto simp: all_strings_def intro!: bexI [of _ "strt_hash tb ! ?i"])
    from got [OF this] j(2) have "interned tb str = Some (ts_addr (strt_hash tb ! ?i ! j))" by simp
    then show ?thesis
      using Some i j revive_ok [OF assms i j(1)] by (auto simp: luaS_newlstr_def Let_def rreturn_def)
  next
    case None
    have new: "\<forall>ts \<in> set (all_strings tb). ts_text ts \<noteq> str" using find_text_all [OF assms None] by blast
    then have "interned tb str = None" by (force simp: interned_def map_of_eq_None_iff)
    moreover have "interned tb' = (interned tb)(str \<mapsto> ts_addr ts)"
      if "strt_ok tb'" "mset (all_strings tb') = add_mset ts (mset (all_strings tb))" "ts_text ts = str" for tb' ts
    proof -
      have "mset (all_strings tb') = mset (ts # all_strings tb)" using that(2) by simp
      then show ?thesis
        using interned_mset [of "all_strings tb'" "ts # all_strings tb"] that(1, 3) by (simp add: interned_def strt_ok_def)
    qed
    moreover have "ts \<in> set (all_strings tb')" if "mset (all_strings tb') = add_mset ts (mset (all_strings tb))" for tb' ts
      using that by (metis set_mset_mset union_single_eq_member)
    ultimately show ?thesis
      using None i newlstr_ok [OF assms new, of sweeping gr addr]
      by (fastforce simp: luaS_newlstr_def Let_def returns_def)
  qed
qed

text \<open>
  C11: The string table has one object for every text: interning a text, which fails for want of memory
  or for a text or a table that is too big only, returns the object the text had,
  no longer dead, or the new object, which it then has; every other text keeps its object, also
  when the table is resized, and the search never leaves the table.
\<close>

theorem luaS_newlstr_interns:
  assumes "strt_ok tb"
  shows "\<exists>r. luaS_newlstr sweeping gr tb addr str = Some r \<and>
    ((\<forall>n. gr n) \<and> length str < 2 ^ 31 \<and> strt_size tb \<le> 2 ^ 28 \<longrightarrow> \<not> isl r) \<and>
    (\<forall>tb' ts. r = Inr (tb', ts) \<longrightarrow> strt_ok tb' \<and> ts \<in> set (all_strings tb') \<and> ts_text ts = str \<and> \<not> ts_dead ts \<and>
       ts_addr ts = (case interned tb str of Some a \<Rightarrow> a | None \<Rightarrow> addr) \<and>
       interned tb' = (interned tb)(str \<mapsto> ts_addr ts))"
proof -
  have "0 \<le> strt_size tb" using assms by (auto simp: strt_ok_def)
  then show ?thesis
    using luaS_newlstr_result [OF assms, of sweeping gr addr str] luaS_newlstr_granted [of gr str tb sweeping addr] by blast
qed

theorem luaS_newlstr_interns_witness:
  "\<exists>r. luaS_newlstr False (\<lambda>_. True) \<lparr>strt_hash = [[], []], strt_nuse = 0, strt_size = 2\<rparr> 7 ''x'' = Some r \<and> \<not> isl r \<and>
    (\<forall>tb' ts. r = Inr (tb', ts) \<longrightarrow> strt_ok tb' \<and> ts \<in> set (all_strings tb') \<and> ts_text ts = ''x'' \<and> \<not> ts_dead ts \<and>
       ts_addr ts = 7 \<and> interned tb' = [''x'' \<mapsto> 7])"
proof -
  let ?tb = "\<lparr>strt_hash = [[], []], strt_nuse = 0, strt_size = 2\<rparr>"
  have "chained 2 (strt_hash ?tb)" by (simp add: chained_def less_Suc_eq_0_disj numeral_2_eq_2 all_conj_distrib)
  moreover have "\<exists>k \<le> 30. (2::int) = 2 ^ k" by (intro exI [of _ 1]) simp
  ultimately have "strt_ok ?tb" by (simp add: strt_ok_def all_strings_def)
  moreover have "interned ?tb = Map.empty" by (simp add: interned_def all_strings_def)
  ultimately show ?thesis using luaS_newlstr_interns [of ?tb False "\<lambda>_. True" 7 "''x''"] by auto
qed

end
