(* ===== verification/LuaTable.thy ===== *)
theory LuaTable
  imports LuaString
begin

text \<open>
  Tables (\<^verbatim>\<open>lualib/ltable.c\<close>): an array part for the keys 1 to \<^verbatim>\<open>sizearray\<close> and a hash part, a
  vector of nodes in which the keys with one main position are chained.  A pointer to a node is its
  index, a pointer to a value says where the value is.  \<open>None\<close> is an access outside a vector, a write
  to the shared dummy node or a null link followed.  The operations on doubles are a parameter, as is
  the allocator's answer to a request of some number of bytes.
\<close>

section \<open>Numbers\<close>

record 'n num_ops =
  numeq :: "'n \<Rightarrow> 'n \<Rightarrow> bool"
  cast_num :: "int \<Rightarrow> 'n"
  number2int :: "'n \<Rightarrow> int"
  num_words :: "'n \<Rightarrow> 32 word list"

definition numints :: nat where "numints = 2"

text \<open>
  What the code relies on: equality is a partial equivalence that only \<^verbatim>\<open>NaN\<close> fails and that
  is identity but for the two zeros; every \<open>int\<close> converts exactly and back.
\<close>

definition num_ok :: "'n num_ops \<Rightarrow> bool" where
  "num_ok N \<longleftrightarrow>
     (\<forall>x y. numeq N x y \<longrightarrow> numeq N y x) \<and>
     (\<forall>x y z. numeq N x y \<longrightarrow> numeq N y z \<longrightarrow> numeq N x z) \<and>
     (\<forall>x y. numeq N x y \<longrightarrow> x = y \<or> numeq N x (cast_num N 0)) \<and>
     (\<forall>j k. is_int j \<longrightarrow> is_int k \<longrightarrow> (numeq N (cast_num N j) (cast_num N k) \<longleftrightarrow> j = k)) \<and>
     (\<forall>k x. is_int k \<longrightarrow> numeq N x (cast_num N k) \<longrightarrow> number2int N x = k) \<and>
     (\<forall>x. is_int (number2int N x)) \<and>
     (\<forall>x. length (num_words N x) = numints)"

definition numisnan :: "'n num_ops \<Rightarrow> 'n \<Rightarrow> bool" where
  "numisnan N x \<longleftrightarrow> \<not> numeq N x x"

section \<open>The table\<close>

text \<open>The collector turns the key of a removed entry into a dead key, which keeps the pointer.\<close>

datatype 'n NKey = Key "'n TValue" | Dead_key "'n TValue"

record 'n Node =
  i_val :: "'n TValue"
  i_key :: "'n NKey"
  i_next :: "nat option"

datatype 'n nodes = dummynode | Nodes "'n Node list"

record 'n Table =
  flags :: int
  lsizenode :: nat
  metatable :: "nat option"
  array :: "'n TValue list"
  node :: "'n nodes"
  lastfree :: int
  sizearray :: int

datatype tvref = nilobject | In_array nat | In_node nat

definition MAXBITS :: int where "MAXBITS = 26"
definition MAXASIZE :: int where "MAXASIZE = 67108864"
definition sizeof_TValue :: int where "sizeof_TValue = 16"
definition sizeof_Node :: int where "sizeof_Node = 32"
definition sizeof_Table :: int where "sizeof_Table = 32"

definition twoto :: "nat \<Rightarrow> int" where
  "twoto x = 2 ^ x"

definition sizenode :: "'n Table \<Rightarrow> int" where
  "sizenode t = twoto (lsizenode t)"

definition empty_node :: "'n Node" where
  "empty_node = \<lparr>i_val = Nil_value, i_key = Key Nil_value, i_next = None\<rparr>"

definition gnode :: "'n Table \<Rightarrow> nat \<Rightarrow> 'n Node option" where
  "gnode t i = (case node t of
      dummynode \<Rightarrow> if i = 0 then Some empty_node else None
    | Nodes ns \<Rightarrow> if i < length ns then Some (ns ! i) else None)"

definition set_node :: "'n Table \<Rightarrow> nat \<Rightarrow> ('n Node \<Rightarrow> 'n Node) \<Rightarrow> 'n Table option" where
  "set_node t i f = (case node t of
      dummynode \<Rightarrow> None
    | Nodes ns \<Rightarrow> if i < length ns then Some (t\<lparr>node := Nodes (ns[i := f (ns ! i)])\<rparr>) else None)"

fun read_ref :: "'n Table \<Rightarrow> tvref \<Rightarrow> 'n TValue option" where
  "read_ref t nilobject = Some Nil_value"
| "read_ref t (In_array i) = (if i < length (array t) then Some (array t ! i) else None)"
| "read_ref t (In_node i) = map_option i_val (gnode t i)"

fun write_ref :: "'n Table \<Rightarrow> tvref \<Rightarrow> 'n TValue \<Rightarrow> 'n Table option" where
  "write_ref t nilobject v = None"
| "write_ref t (In_array i) v = (if i < length (array t) then Some (t\<lparr>array := (array t)[i := v]\<rparr>) else None)"
| "write_ref t (In_node i) v = set_node t i (\<lambda>n. n\<lparr>i_val := v\<rparr>)"

section \<open>Main positions\<close>

definition hashpow2 :: "'n Table \<Rightarrow> 32 word \<Rightarrow> nat" where
  "hashpow2 t n = lmod n (sizenode t)"

definition hashmod :: "'n Table \<Rightarrow> nat \<Rightarrow> nat" where
  "hashmod t n = n mod nat ((sizenode t - 1) OR 1)"

definition hashnum :: "'n num_ops \<Rightarrow> 'n Table \<Rightarrow> 'n \<Rightarrow> nat" where
  "hashnum N t n =
     (if numeq N n (cast_num N 0) then 0
      else let a = num_words N n in hashmod t (unat (foldl (+) (hd a) (tl a))))"

text \<open>The payload of a nil or of a null string is not defined.\<close>

fun mainposition :: "'n num_ops \<Rightarrow> 'n Table \<Rightarrow> 'n TValue \<Rightarrow> nat option" where
  "mainposition N t (Number n) = Some (hashnum N t n)"
| "mainposition N t (String s) = Some (hashpow2 t (str_hash s))"
| "mainposition N t (Boolean b) = Some (hashpow2 t (word_of_int b))"
| "mainposition N t (LightUserdata p) = Some (hashmod t p)"
| "mainposition N t (Table p) = Some (hashmod t p)"
| "mainposition N t (Function p) = Some (hashmod t p)"
| "mainposition N t (Userdata p) = Some (hashmod t p)"
| "mainposition N t (Thread p) = Some (hashmod t p)"
| "mainposition N t Nil_value = None"
| "mainposition N t Null_string = None"

fun arrayindex :: "'n num_ops \<Rightarrow> 'n TValue \<Rightarrow> int" where
  "arrayindex N (Number n) = (let k = number2int N n in if numeq N (cast_num N k) n then k else - 1)"
| "arrayindex N key = - 1"

section \<open>Search\<close>

text \<open>The walk down a chain that every search does, with the test of its key.\<close>

partial_function (option) chain_find :: "('n Node \<Rightarrow> bool) \<Rightarrow> 'n Table \<Rightarrow> nat \<Rightarrow> nat option option" where
  "chain_find P t i = do {
     n \<leftarrow> gnode t i;
     if P n then Some (Some i)
     else case i_next n of None \<Rightarrow> Some None | Some j \<Rightarrow> chain_find P t j
   }"

fun is_number_key :: "'n num_ops \<Rightarrow> 'n \<Rightarrow> 'n NKey \<Rightarrow> bool" where
  "is_number_key N nk (Key (Number x)) = numeq N x nk"
| "is_number_key N nk k = False"

fun is_string_key :: "char list \<Rightarrow> 'n NKey \<Rightarrow> bool" where
  "is_string_key s (Key (String x)) = (x = s)"
| "is_string_key s k = False"

fun rawequal_key :: "'n num_ops \<Rightarrow> 'n TValue \<Rightarrow> 'n NKey \<Rightarrow> bool" where
  "rawequal_key N key (Key k) = luaO_rawequalObj (numeq N) k key"
| "rawequal_key N key (Dead_key k) = False"

definition node_ref :: "nat option \<Rightarrow> tvref" where
  "node_ref r = (case r of None \<Rightarrow> nilobject | Some i \<Rightarrow> In_node i)"

definition luaH_getnum :: "'n num_ops \<Rightarrow> 'n Table \<Rightarrow> int \<Rightarrow> tvref option" where
  "luaH_getnum N t key =
     (if c_uint (key - 1) < c_uint (sizearray t) then Some (In_array (nat (key - 1)))
      else let nk = cast_num N key
           in map_option node_ref (chain_find (\<lambda>n. is_number_key N nk (i_key n)) t (hashnum N t nk)))"

definition luaH_getstr :: "'n Table \<Rightarrow> char list \<Rightarrow> tvref option" where
  "luaH_getstr t key =
     map_option node_ref (chain_find (\<lambda>n. is_string_key key (i_key n)) t (hashpow2 t (str_hash key)))"

definition get_default :: "'n num_ops \<Rightarrow> 'n Table \<Rightarrow> 'n TValue \<Rightarrow> tvref option" where
  "get_default N t key = do {
     mp \<leftarrow> mainposition N t key;
     map_option node_ref (chain_find (\<lambda>n. rawequal_key N key (i_key n)) t mp)
   }"

definition luaH_get :: "'n num_ops \<Rightarrow> 'n Table \<Rightarrow> 'n TValue \<Rightarrow> tvref option" where
  "luaH_get N t key = (case key of
      Nil_value \<Rightarrow> Some nilobject
    | String s \<Rightarrow> luaH_getstr t s
    | Number n \<Rightarrow>
        (let k = number2int N n
         in if numeq N (cast_num N k) n then luaH_getnum N t k else get_default N t key)
    | _ \<Rightarrow> get_default N t key)"

section \<open>Traversal\<close>

text \<open>The pointer of a collectable value; that of a string is its text.\<close>

fun gcvalue :: "'n TValue \<Rightarrow> (char list + nat) option" where
  "gcvalue (String s) = Some (Inl s)"
| "gcvalue (Table p) = Some (Inr p)"
| "gcvalue (Function p) = Some (Inr p)"
| "gcvalue (Userdata p) = Some (Inr p)"
| "gcvalue (Thread p) = Some (Inr p)"
| "gcvalue v = None"

fun same_dead_key :: "'n TValue \<Rightarrow> 'n NKey \<Rightarrow> bool" where
  "same_dead_key key (Dead_key k) = (gcvalue key \<noteq> None \<and> gcvalue k = gcvalue key)"
| "same_dead_key key (Key k) = False"

definition findindex :: "'n num_ops \<Rightarrow> 'n Table \<Rightarrow> 'n TValue \<Rightarrow> int res" where
  "findindex N t key =
     (if key = Nil_value then rreturn (- 1)
      else let i = arrayindex N key
           in if 0 < i \<and> i \<le> sizearray t then rreturn (i - 1)
              else do {
                mp \<leftarrow> mainposition N t key;
                r \<leftarrow> chain_find (\<lambda>n. rawequal_key N key (i_key n) \<or> same_dead_key key (i_key n)) t mp;
                case r of
                  Some j \<Rightarrow> rreturn (int j + sizearray t)
                | None \<Rightarrow> luaL_error (''invalid key to '' @ LUA_QL ''next'')
              })"

function next_array :: "'n Table \<Rightarrow> nat \<Rightarrow> nat option option" where
  "next_array t i =
     (if int i < sizearray t
      then if i < length (array t)
           then if array t ! i \<noteq> Nil_value then Some (Some i) else next_array t (Suc i)
           else None
      else Some None)"
  by pat_completeness auto
termination by (relation "measure (\<lambda>(t, i). nat (sizearray t) - i)") auto

function next_node :: "'n Table \<Rightarrow> nat \<Rightarrow> nat option option" where
  "next_node t i =
     (if int i < sizenode t
      then case gnode t i of
             None \<Rightarrow> None
           | Some n \<Rightarrow> if i_val n \<noteq> Nil_value then Some (Some i) else next_node t (Suc i)
      else Some None)"
  by pat_completeness auto
termination by (relation "measure (\<lambda>(t, i). nat (sizenode t) - i)") auto

declare next_array.simps [simp del] next_node.simps [simp del]

fun key2tval :: "'n NKey \<Rightarrow> 'n TValue option" where
  "key2tval (Key k) = Some k"
| "key2tval (Dead_key k) = None"

definition luaH_next :: "'n num_ops \<Rightarrow> 'n Table \<Rightarrow> 'n TValue \<Rightarrow> ('n TValue \<times> 'n TValue) option res" where
  "luaH_next N t key = rbind (findindex N t key) (\<lambda>i. do {
     r \<leftarrow> next_array t (nat (i + 1));
     case r of
       Some j \<Rightarrow> rreturn (Some (Number (cast_num N (int j + 1)), array t ! j))
     | None \<Rightarrow> do {
         r2 \<leftarrow> next_node t (nat (max (i + 1) (sizearray t) - sizearray t));
         case r2 of
           None \<Rightarrow> rreturn None
         | Some j \<Rightarrow> do {
             n \<leftarrow> gnode t j;
             k \<leftarrow> key2tval (i_key n);
             rreturn (Some (k, i_val n))
           }
       }
   })"

section \<open>Counting for a rehash\<close>

function computesizes_loop :: "int list \<Rightarrow> int \<Rightarrow> nat \<Rightarrow> int \<Rightarrow> int \<Rightarrow> int \<Rightarrow> int \<Rightarrow> (int \<times> int) option" where
  "computesizes_loop nums narray i twotoi a na n =
     (if twotoi div 2 < narray
      then if i < length nums
           then (let a1 = (if nums ! i > 0 then a + nums ! i else a);
                     (n1, na1) = (if nums ! i > 0 \<and> a1 > twotoi div 2 then (twotoi, a1) else (n, na))
                 in if a1 = narray then Some (n1, na1)
                    else computesizes_loop nums narray (Suc i) (c_int (twotoi * 2)) a1 na1 n1)
           else None
      else Some (n, na))"
  by pat_completeness auto
termination by (relation "measure (\<lambda>(nums, narray, i, twotoi, a, na, n). length nums - i)") auto

declare computesizes_loop.simps [simp del]

text \<open>The new size of the array part and the number of keys that go there.\<close>

definition computesizes :: "int list \<Rightarrow> int \<Rightarrow> (int \<times> int) option" where
  "computesizes nums narray = computesizes_loop nums narray 0 1 0 0 0"

definition countint :: "'n num_ops \<Rightarrow> 'n TValue \<Rightarrow> int list \<Rightarrow> (int list \<times> int) option" where
  "countint N key nums =
     (let k = arrayindex N key
      in if 0 < k \<and> k \<le> MAXASIZE
         then (let b = nat (ceillog2 (word_of_int k))
               in if b < length nums then Some (nums[b := nums ! b + 1], 1) else None)
         else Some (nums, 0))"

text \<open>The entries of the array from index \<open>i\<close> (from 1) to the limit of a slice: the count and the next index.\<close>

function count_slice :: "'n TValue list \<Rightarrow> int \<Rightarrow> int \<Rightarrow> int \<Rightarrow> (int \<times> int) option" where
  "count_slice arr i lim lc =
     (if i \<le> lim
      then if 1 \<le> i \<and> nat (i - 1) < length arr
           then count_slice arr (i + 1) lim (if arr ! nat (i - 1) \<noteq> Nil_value then lc + 1 else lc)
           else None
      else Some (lc, i))"
  by pat_completeness auto
termination by (relation "measure (\<lambda>(arr, i, lim, lc). nat (lim + 1 - i))") auto

declare count_slice.simps [simp del]

function numusearray_loop :: "'n Table \<Rightarrow> int list \<Rightarrow> nat \<Rightarrow> int \<Rightarrow> int \<Rightarrow> int \<Rightarrow> (int list \<times> int) option" where
  "numusearray_loop t nums lg ttlg i ause =
     (if int lg \<le> MAXBITS
      then (let lim = (if ttlg > sizearray t then sizearray t else ttlg)
            in if ttlg > sizearray t \<and> i > lim then Some (nums, ause)
               else case count_slice (array t) i lim 0 of
                      None \<Rightarrow> None
                    | Some (lc, i1) \<Rightarrow>
                        (if lg < length nums
                         then numusearray_loop t (nums[lg := nums ! lg + lc]) (Suc lg) (c_int (ttlg * 2)) i1 (ause + lc)
                         else None))
      else Some (nums, ause))"
  by pat_completeness auto
termination by (relation "measure (\<lambda>(t, nums, lg, ttlg, i, ause). nat (MAXBITS + 1) - lg)") (auto simp: MAXBITS_def)

declare numusearray_loop.simps [simp del]

definition numusearray :: "'n Table \<Rightarrow> int list \<Rightarrow> (int list \<times> int) option" where
  "numusearray t nums = numusearray_loop t nums 0 1 1 0"

fun numusehash_loop :: "'n num_ops \<Rightarrow> 'n Table \<Rightarrow> nat \<Rightarrow> int list \<Rightarrow> int \<Rightarrow> int \<Rightarrow> (int list \<times> int \<times> int) option" where
  "numusehash_loop N t 0 nums ause totaluse = Some (nums, ause, totaluse)"
| "numusehash_loop N t (Suc i) nums ause totaluse = do {
     n \<leftarrow> gnode t i;
     if i_val n \<noteq> Nil_value
     then do {
       k \<leftarrow> key2tval (i_key n);
       (nums1, c) \<leftarrow> countint N k nums;
       numusehash_loop N t i nums1 (ause + c) (totaluse + 1)
     }
     else numusehash_loop N t i nums ause totaluse
   }"

text \<open>The keys in use, and the count of integer keys raised by those of the hash part.\<close>

definition numusehash :: "'n num_ops \<Rightarrow> 'n Table \<Rightarrow> int list \<Rightarrow> int \<Rightarrow> (int list \<times> int \<times> int) option" where
  "numusehash N t nums pnasize = do {
     (nums1, ause, totaluse) \<leftarrow> numusehash_loop N t (nat (sizenode t)) nums 0 0;
     Some (nums1, pnasize + ause, totaluse)
   }"

section \<open>Resizing\<close>

definition alloc :: "(int \<Rightarrow> bool) \<Rightarrow> int \<Rightarrow> int \<Rightarrow> int \<Rightarrow> unit res" where
  "alloc gr on n e =
     (case luaM_reallocv (gr (n * e)) 0 on n e of Inl err \<Rightarrow> Some (Inl err) | Inr _ \<Rightarrow> rreturn ())"

definition setarrayvector :: "(int \<Rightarrow> bool) \<Rightarrow> 'n Table \<Rightarrow> int \<Rightarrow> 'n Table res" where
  "setarrayvector gr t sz = rbind (alloc gr (sizearray t) sz sizeof_TValue) (\<lambda>_.
     rreturn (t\<lparr>array := take (nat sz) (take (nat (sizearray t)) (array t)
                           @ replicate (nat sz - nat (sizearray t)) Nil_value),
                sizearray := sz\<rparr>))"

definition setnodevector :: "(int \<Rightarrow> bool) \<Rightarrow> 'n Table \<Rightarrow> int \<Rightarrow> 'n Table res" where
  "setnodevector gr t sz =
     (if sz = 0 then rreturn (t\<lparr>node := dummynode, lsizenode := 0, lastfree := 0\<rparr>)
      else (let lsize = ceillog2 (word_of_int sz)
            in if lsize > MAXBITS then luaL_error ''table overflow''
               else (let sz1 = twoto (nat lsize)
                     in rbind (alloc gr 0 sz1 sizeof_Node) (\<lambda>_.
                          rreturn (t\<lparr>node := Nodes (replicate (nat sz1) empty_node), lsizenode := nat lsize,
                                     lastfree := sz1\<rparr>)))))"

text \<open>
  The insertion of a new key and the rehash call each other; the operations between them take the
  insertion as an argument, the state first and the key second.
\<close>

type_synonym 'n inserter = "'n Table \<Rightarrow> 'n TValue \<Rightarrow> ('n Table \<times> tvref) res"

definition set_with :: "'n inserter \<Rightarrow> 'n num_ops \<Rightarrow> 'n Table \<Rightarrow> 'n TValue \<Rightarrow> ('n Table \<times> tvref) res" where
  "set_with nk N t key = luaH_get N t key \<bind> (\<lambda>p.
     if p \<noteq> nilobject then rreturn (t\<lparr>flags := 0\<rparr>, p)
     else if key = Nil_value then luaL_error ''table index is nil''
     else if (case key of Number x \<Rightarrow> numisnan N x | _ \<Rightarrow> False) then luaL_error ''table index is NaN''
     else nk (t\<lparr>flags := 0\<rparr>) key)"

definition setnum_with :: "'n inserter \<Rightarrow> 'n num_ops \<Rightarrow> 'n Table \<Rightarrow> int \<Rightarrow> ('n Table \<times> tvref) res" where
  "setnum_with nk N t key = luaH_getnum N t key \<bind> (\<lambda>p.
     if p \<noteq> nilobject then rreturn (t, p) else nk t (Number (cast_num N key)))"

definition setstr_with :: "'n inserter \<Rightarrow> 'n Table \<Rightarrow> char list \<Rightarrow> ('n Table \<times> tvref) res" where
  "setstr_with nk t key = luaH_getstr t key \<bind> (\<lambda>p.
     if p \<noteq> nilobject then rreturn (t, p) else nk t (String key))"

fun rfold :: "('s \<Rightarrow> 'e \<Rightarrow> 's res) \<Rightarrow> 's \<Rightarrow> 'e list \<Rightarrow> 's res" where
  "rfold f s [] = rreturn s"
| "rfold f s (x # xs) = rbind (f s x) (\<lambda>s1. rfold f s1 xs)"

text \<open>One element of the slice that vanishes from the array; the value is read after the insertion.\<close>

definition reinsert_slice :: "'n inserter \<Rightarrow> 'n num_ops \<Rightarrow> 'n Table \<Rightarrow> nat \<Rightarrow> 'n Table res" where
  "reinsert_slice nk N t i =
     (if i < length (array t)
      then if array t ! i \<noteq> Nil_value
           then rbind (setnum_with nk N t (int i + 1)) (\<lambda>(t1, r).
                  if i < length (array t1) then write_ref t1 r (array t1 ! i) \<bind> rreturn else None)
           else rreturn t
      else None)"

definition reinsert_node :: "'n inserter \<Rightarrow> 'n num_ops \<Rightarrow> 'n Table \<Rightarrow> 'n Node \<Rightarrow> 'n Table res" where
  "reinsert_node nk N t old =
     (if i_val old \<noteq> Nil_value
      then key2tval (i_key old) \<bind> (\<lambda>k. rbind (set_with nk N t k) (\<lambda>(t1, r). write_ref t1 r (i_val old) \<bind> rreturn))
      else rreturn t)"

definition node_list :: "'n nodes \<Rightarrow> 'n Node list" where
  "node_list ns = (case ns of dummynode \<Rightarrow> [empty_node] | Nodes xs \<Rightarrow> xs)"

definition resize_with :: "'n inserter \<Rightarrow> 'n num_ops \<Rightarrow> (int \<Rightarrow> bool) \<Rightarrow> 'n Table \<Rightarrow> int \<Rightarrow> int \<Rightarrow> 'n Table res" where
  "resize_with nk N gr t nasize nhsize =
     (let oldasize = sizearray t; nold = node_list (node t)
      in rbind (if nasize > oldasize then setarrayvector gr t nasize else rreturn t) (\<lambda>t1.
         rbind (setnodevector gr t1 nhsize) (\<lambda>t2.
         rbind (if nasize < oldasize
                then rbind (rfold (reinsert_slice nk N) (t2\<lparr>sizearray := nasize\<rparr>) [nat nasize..<nat oldasize]) (\<lambda>t3.
                     rbind (alloc gr oldasize nasize sizeof_TValue) (\<lambda>_.
                       rreturn (t3\<lparr>array := take (nat nasize) (array t3)\<rparr>)))
                else rreturn t2) (\<lambda>t4.
           rfold (reinsert_node nk N) t4 (rev nold)))))"

definition rehash_with :: "'n inserter \<Rightarrow> 'n num_ops \<Rightarrow> (int \<Rightarrow> bool) \<Rightarrow> 'n Table \<Rightarrow> 'n TValue \<Rightarrow> 'n Table res" where
  "rehash_with nk N gr t ek = do {
     (nums1, nasize1) \<leftarrow> numusearray t (replicate (nat MAXBITS + 1) 0);
     (nums2, nasize2, hashuse) \<leftarrow> numusehash N t nums1 nasize1;
     (nums3, c) \<leftarrow> countint N ek nums2;
     (nasize, na) \<leftarrow> computesizes nums3 (nasize2 + c);
     resize_with nk N gr t nasize (nasize1 + hashuse + 1 - na)
   }"

section \<open>Insertion\<close>

text \<open>The pointer steps down before the test of the node, and once more when nothing is free.\<close>

function getfreepos :: "'n Table \<Rightarrow> ('n Table \<times> nat option) option" where
  "getfreepos t =
     (let t1 = t\<lparr>lastfree := lastfree t - 1\<rparr>
      in if lastfree t > 0
         then case gnode t (nat (lastfree t1)) of
                None \<Rightarrow> None
              | Some n \<Rightarrow> if i_key n = Key Nil_value then Some (t1, Some (nat (lastfree t1))) else getfreepos t1
         else Some (t1, None))"
  by pat_completeness auto
termination by (relation "measure (\<lambda>t. nat (lastfree t))") auto

declare getfreepos.simps [simp del]

text \<open>The walk to the node before \<open>mp\<close> in a chain.\<close>

partial_function (option) find_previous :: "'n Table \<Rightarrow> nat \<Rightarrow> nat \<Rightarrow> nat option" where
  "find_previous t othern mp = do {
     n \<leftarrow> gnode t othern;
     case i_next n of
       None \<Rightarrow> None
     | Some j \<Rightarrow> if j = mp then Some othern else find_previous t j mp
   }"

text \<open>The node in which the key goes, and the table with its place made; \<open>n\<close> is a free place.\<close>

definition make_place :: "'n num_ops \<Rightarrow> 'n Table \<Rightarrow> nat \<Rightarrow> 'n Node \<Rightarrow> nat \<Rightarrow> ('n Table \<times> nat) option" where
  "make_place N t mp mpn n = do {
     k \<leftarrow> key2tval (i_key mpn);
     othern \<leftarrow> mainposition N t k;
     if othern \<noteq> mp
     then do {
       prev \<leftarrow> find_previous t othern mp;
       t1 \<leftarrow> set_node t prev (\<lambda>x. x\<lparr>i_next := Some n\<rparr>);
       x \<leftarrow> gnode t1 mp;
       t2 \<leftarrow> set_node t1 n (\<lambda>_. x);
       t3 \<leftarrow> set_node t2 mp (\<lambda>x. x\<lparr>i_next := None, i_val := Nil_value\<rparr>);
       Some (t3, mp)
     }
     else do {
       t1 \<leftarrow> set_node t n (\<lambda>x. x\<lparr>i_next := i_next mpn\<rparr>);
       t2 \<leftarrow> set_node t1 mp (\<lambda>x. x\<lparr>i_next := Some n\<rparr>);
       Some (t2, n)
     }
   }"

definition put_key :: "'n Table \<Rightarrow> nat \<Rightarrow> 'n TValue \<Rightarrow> ('n Table \<times> tvref) res" where
  "put_key t i key = set_node t i (\<lambda>x. x\<lparr>i_key := Key key\<rparr>) \<bind> (\<lambda>t1. rreturn (t1, In_node i))"

lemma rbind_mono [partial_function_mono]:
  assumes "mono_option m" "\<And>x. mono_option (\<lambda>f. b f x)"
  shows "mono_option (\<lambda>f. rbind (m f) (b f))"
  unfolding rbind_def
proof (rule bind_mono [OF assms(1)])
  show "mono_option (\<lambda>f. case r of Inl e \<Rightarrow> Some (Inl e) | Inr x \<Rightarrow> b f x)" for r
    by (cases r) (simp_all add: assms(2) option.const_mono)
qed

lemma rfold_mono [partial_function_mono]:
  assumes "\<And>s x. mono_option (\<lambda>f. b f s x)"
  shows "mono_option (\<lambda>f. rfold (b f) s xs)"
proof (induction xs arbitrary: s)
  case (Cons x xs)
  show ?case unfolding rfold.simps by (rule rbind_mono [OF assms Cons.IH])
qed (simp add: option.const_mono)

lemma set_with_mono [partial_function_mono]:
  assumes "\<And>t k. mono_option (\<lambda>f. nk f t k)"
  shows "mono_option (\<lambda>f. set_with (nk f) N t key)"
  unfolding set_with_def by (intro bind_mono option.const_mono if_mono assms)

lemma setnum_with_mono [partial_function_mono]:
  assumes "\<And>t k. mono_option (\<lambda>f. nk f t k)"
  shows "mono_option (\<lambda>f. setnum_with (nk f) N t key)"
  unfolding setnum_with_def by (intro bind_mono option.const_mono if_mono assms)

lemma reinsert_slice_mono [partial_function_mono]:
  assumes "\<And>t k. mono_option (\<lambda>f. nk f t k)"
  shows "mono_option (\<lambda>f. reinsert_slice (nk f) N t i)"
  unfolding reinsert_slice_def by (intro rbind_mono setnum_with_mono option.const_mono if_mono assms)

lemma reinsert_node_mono [partial_function_mono]:
  assumes "\<And>t k. mono_option (\<lambda>f. nk f t k)"
  shows "mono_option (\<lambda>f. reinsert_node (nk f) N t old)"
  unfolding reinsert_node_def by (intro bind_mono rbind_mono set_with_mono option.const_mono if_mono assms)

lemma resize_with_mono [partial_function_mono]:
  assumes "\<And>t k. mono_option (\<lambda>f. nk f t k)"
  shows "mono_option (\<lambda>f. resize_with (nk f) N gr t nasize nhsize)"
  unfolding resize_with_def Let_def
  by (intro rbind_mono rfold_mono reinsert_slice_mono reinsert_node_mono option.const_mono if_mono assms)

lemma rehash_with_mono [partial_function_mono]:
  assumes "\<And>t k. mono_option (\<lambda>f. nk f t k)"
  shows "mono_option (\<lambda>f. rehash_with (nk f) N gr t ek)"
  unfolding rehash_with_def
proof (intro bind_mono option.const_mono)
qed (auto split: prod.split intro!: bind_mono option.const_mono resize_with_mono assms)

partial_function (option) newkey :: "'n num_ops \<Rightarrow> (int \<Rightarrow> bool) \<Rightarrow> 'n Table \<Rightarrow> 'n TValue \<Rightarrow> ('n Table \<times> tvref) res" where
  "newkey N gr t key = do {
     mp \<leftarrow> mainposition N t key;
     mpn \<leftarrow> gnode t mp;
     if i_val mpn \<noteq> Nil_value \<or> node t = dummynode
     then do {
       (t1, r) \<leftarrow> getfreepos t;
       case r of
         None \<Rightarrow> rbind (rehash_with (newkey N gr) N gr t1 key) (\<lambda>t2. set_with (newkey N gr) N t2 key)
       | Some n \<Rightarrow> make_place N t1 mp mpn n \<bind> (\<lambda>(t2, i). put_key t2 i key)
     }
     else put_key t mp key
   }"

definition luaH_set :: "'n num_ops \<Rightarrow> (int \<Rightarrow> bool) \<Rightarrow> 'n Table \<Rightarrow> 'n TValue \<Rightarrow> ('n Table \<times> tvref) res" where
  "luaH_set N gr t key = set_with (newkey N gr) N t key"

definition luaH_setnum :: "'n num_ops \<Rightarrow> (int \<Rightarrow> bool) \<Rightarrow> 'n Table \<Rightarrow> int \<Rightarrow> ('n Table \<times> tvref) res" where
  "luaH_setnum N gr t key = setnum_with (newkey N gr) N t key"

definition luaH_setstr :: "'n num_ops \<Rightarrow> (int \<Rightarrow> bool) \<Rightarrow> 'n Table \<Rightarrow> char list \<Rightarrow> ('n Table \<times> tvref) res" where
  "luaH_setstr N gr t key = setstr_with (newkey N gr) t key"

definition resize :: "'n num_ops \<Rightarrow> (int \<Rightarrow> bool) \<Rightarrow> 'n Table \<Rightarrow> int \<Rightarrow> int \<Rightarrow> 'n Table res" where
  "resize N gr t nasize nhsize = resize_with (newkey N gr) N gr t nasize nhsize"

definition rehash :: "'n num_ops \<Rightarrow> (int \<Rightarrow> bool) \<Rightarrow> 'n Table \<Rightarrow> 'n TValue \<Rightarrow> 'n Table res" where
  "rehash N gr t ek = rehash_with (newkey N gr) N gr t ek"

definition luaH_resizearray :: "'n num_ops \<Rightarrow> (int \<Rightarrow> bool) \<Rightarrow> 'n Table \<Rightarrow> int \<Rightarrow> 'n Table res" where
  "luaH_resizearray N gr t nasize = resize N gr t nasize (if node t = dummynode then 0 else sizenode t)"

section \<open>New tables\<close>

definition luaH_new :: "(int \<Rightarrow> bool) \<Rightarrow> int \<Rightarrow> int \<Rightarrow> 'n Table res" where
  "luaH_new gr narray nhash = rbind (alloc gr 0 1 sizeof_Table) (\<lambda>_.
     rbind (setarrayvector gr \<lparr>flags = 255, lsizenode = 0, metatable = None, array = [], node = dummynode,
                               lastfree = 0, sizearray = 0\<rparr> narray) (\<lambda>t.
       setnodevector gr t nhash))"

text \<open>The bytes in use after the parts of a table are freed.\<close>

definition luaH_free :: "32 word \<Rightarrow> 'n Table \<Rightarrow> 32 word" where
  "luaH_free totalbytes t =
     totalbytes - (if node t \<noteq> dummynode then word_of_int (sizenode t * sizeof_Node) else 0)
       - word_of_int (sizearray t * sizeof_TValue) - word_of_int sizeof_Table"

section \<open>Boundaries\<close>

definition nil_at :: "'n num_ops \<Rightarrow> 'n Table \<Rightarrow> int \<Rightarrow> bool option" where
  "nil_at N t k = do { r \<leftarrow> luaH_getnum N t k; v \<leftarrow> read_ref t r; Some (v = Nil_value) }"

partial_function (option) linear_search :: "'n num_ops \<Rightarrow> 'n Table \<Rightarrow> int \<Rightarrow> int option" where
  "linear_search N t i = do {
     b \<leftarrow> nil_at N t (c_int i);
     if b then Some (i - 1) else linear_search N t (c_uint (i + 1))
   }"

text \<open>The binary search between a present index and an absent one, over any test of an index.\<close>

partial_function (option) binary_search :: "(int \<Rightarrow> bool option) \<Rightarrow> int \<Rightarrow> int \<Rightarrow> int option" where
  "binary_search isnil i j =
     (if c_uint (j - i) > 1
      then (let m = c_uint (i + j) div 2
            in isnil m \<bind> (\<lambda>b. if b then binary_search isnil i m else binary_search isnil m j))
      else Some i)"

partial_function (option) unbound_loop :: "'n num_ops \<Rightarrow> 'n Table \<Rightarrow> int \<Rightarrow> int \<Rightarrow> int option" where
  "unbound_loop N t i j = do {
     b \<leftarrow> nil_at N t (c_int j);
     if b then binary_search (\<lambda>m. nil_at N t (c_int m)) i j
     else if c_uint (j * 2) > MAX_INT then linear_search N t 1
     else unbound_loop N t j (c_uint (j * 2))
   }"

definition unbound_search :: "'n num_ops \<Rightarrow> 'n Table \<Rightarrow> int \<Rightarrow> int option" where
  "unbound_search N t j = unbound_loop N t j (c_uint (j + 1))"

definition array_nil :: "'n Table \<Rightarrow> int \<Rightarrow> bool option" where
  "array_nil t m = (if 0 < m \<and> nat (m - 1) < length (array t) then Some (array t ! nat (m - 1) = Nil_value) else None)"

definition luaH_getn :: "'n num_ops \<Rightarrow> 'n Table \<Rightarrow> int option" where
  "luaH_getn N t =
     (let j = sizearray t
      in if j > 0
         then array_nil t j \<bind> (\<lambda>b.
                if b then binary_search (array_nil t) 0 j
                else if node t = dummynode then Some j else unbound_search N t j)
         else if node t = dummynode then Some j else unbound_search N t j)"

end
