(* ===== verification/LuaTableChain.thy ===== *)
theory LuaTableChain
  imports LuaTable
begin

text \<open>
  The chains of the hash part.  The invariant is stated over the list of nodes and the function that
  gives a key its main position: the links are injective and without cycle, and every key is on the
  chain of its main position, which holds a key that is at home.  A search therefore ends and
  finds a key exactly when some node has it, and a new key can be put in a free node.
\<close>

section \<open>Links\<close>

definition links :: "'n Node list \<Rightarrow> nat rel" where
  "links xs = {(i, j). i < length xs \<and> i_next (xs ! i) = Some j}"

definition nokey :: "'n Node \<Rightarrow> bool" where
  "nokey n \<longleftrightarrow> i_key n = Key Nil_value"

fun kval :: "'n NKey \<Rightarrow> 'n TValue" where
  "kval (Key k) = k"
| "kval (Dead_key k) = k"

text \<open>The function that gives the main positions of a size is \<open>mp\<close>.\<close>

definition at_home :: "('n TValue \<Rightarrow> nat option) \<Rightarrow> 'n Node list \<Rightarrow> nat \<Rightarrow> bool" where
  "at_home mp xs m \<longleftrightarrow> m < length xs \<and> mp (kval (i_key (xs ! m))) = Some m"

definition chains_ok :: "('n TValue \<Rightarrow> nat option) \<Rightarrow> 'n Node list \<Rightarrow> bool" where
  "chains_ok mp xs \<longleftrightarrow>
     (\<forall>i j. (i, j) \<in> links xs \<longrightarrow> j < length xs \<and> \<not> nokey (xs ! j)) \<and>
     (\<forall>i < length xs. nokey (xs ! i) \<longrightarrow> i_next (xs ! i) = None \<and> i_val (xs ! i) = Nil_value) \<and>
     (\<forall>i i' j. (i, j) \<in> links xs \<longrightarrow> (i', j) \<in> links xs \<longrightarrow> i = i') \<and>
     (\<exists>rank :: nat \<Rightarrow> nat. \<forall>i j. (i, j) \<in> links xs \<longrightarrow> rank j < rank i) \<and>
     (\<forall>i < length xs. \<not> nokey (xs ! i) \<longrightarrow>
        (\<exists>m. mp (kval (i_key (xs ! i))) = Some m \<and> (m, i) \<in> (links xs)\<^sup>* \<and> at_home mp xs m)) \<and>
     (\<forall>i < length xs. i_val (xs ! i) \<noteq> Nil_value \<longrightarrow> (\<exists>k. i_key (xs ! i) = Key k)) \<and>
     mp Nil_value = None"

lemma links_source: "(i, j) \<in> links xs \<Longrightarrow> i < length xs"
  by (simp add: links_def)

lemma chains_okD:
  assumes "chains_ok mp xs"
  shows "(i, j) \<in> links xs \<Longrightarrow> i < length xs \<and> j < length xs \<and> \<not> nokey (xs ! j)"
    and "(i, j) \<in> links xs \<Longrightarrow> (i', j) \<in> links xs \<Longrightarrow> i = i'"
    and "i < length xs \<Longrightarrow> nokey (xs ! i) \<Longrightarrow> i_next (xs ! i) = None \<and> i_val (xs ! i) = Nil_value"
    and "i < length xs \<Longrightarrow> \<not> nokey (xs ! i) \<Longrightarrow>
      \<exists>m. mp (kval (i_key (xs ! i))) = Some m \<and> (m, i) \<in> (links xs)\<^sup>* \<and> at_home mp xs m"
    and "i < length xs \<Longrightarrow> i_val (xs ! i) \<noteq> Nil_value \<Longrightarrow> \<exists>k. i_key (xs ! i) = Key k"
    and "mp Nil_value = None"
proof -
  note c = assms [unfolded chains_ok_def]
  note c1 = c [THEN conjunct1, rule_format] and c2 = c [THEN conjunct2]
  note d1 = c2 [THEN conjunct1, rule_format] and d2 = c2 [THEN conjunct2]
  note e1 = d2 [THEN conjunct1, rule_format] and e2 = d2 [THEN conjunct2, THEN conjunct2]
  note f1 = e2 [THEN conjunct1, rule_format] and f2 = e2 [THEN conjunct2]
  show "(i, j) \<in> links xs \<Longrightarrow> i < length xs \<and> j < length xs \<and> \<not> nokey (xs ! j)" using c1 links_source by metis
  show "(i, j) \<in> links xs \<Longrightarrow> (i', j) \<in> links xs \<Longrightarrow> i = i'" by (rule e1)
  show "i < length xs \<Longrightarrow> nokey (xs ! i) \<Longrightarrow> i_next (xs ! i) = None \<and> i_val (xs ! i) = Nil_value" by (rule d1)
  show "i < length xs \<Longrightarrow> \<not> nokey (xs ! i) \<Longrightarrow>
      \<exists>m. mp (kval (i_key (xs ! i))) = Some m \<and> (m, i) \<in> (links xs)\<^sup>* \<and> at_home mp xs m" by (rule f1)
  show "i < length xs \<Longrightarrow> i_val (xs ! i) \<noteq> Nil_value \<Longrightarrow> \<exists>k. i_key (xs ! i) = Key k"
    by (rule f2 [THEN conjunct1, rule_format])
  show "mp Nil_value = None" by (rule f2 [THEN conjunct2])
qed

lemma chains_rank:
  assumes "chains_ok mp xs"
  obtains rank :: "nat \<Rightarrow> nat" where "\<And>i j. (i, j) \<in> links xs \<Longrightarrow> rank j < rank i"
  using assms unfolding chains_ok_def by blast

lemma links_in: "(i, j) \<in> (links xs)\<^sup>* \<Longrightarrow> chains_ok mp xs \<Longrightarrow> i < length xs \<Longrightarrow> j < length xs"
  by (induction rule: rtrancl_induct) (auto dest: chains_okD(1))

section \<open>Search\<close>

lemma gnode_nth: "gnode t i = (if i < length (node_list (node t)) then Some (node_list (node t) ! i) else None)"
  by (cases "node t") (auto simp: gnode_def node_list_def)

lemma chain_find_ok:
  assumes "chains_ok mp (node_list (node t))" "i < length (node_list (node t))"
  shows "\<exists>r. chain_find P t i = Some r \<and>
    (case r of
       None \<Rightarrow> \<forall>j. (i, j) \<in> (links (node_list (node t)))\<^sup>* \<longrightarrow> \<not> P (node_list (node t) ! j)
     | Some j \<Rightarrow> (i, j) \<in> (links (node_list (node t)))\<^sup>* \<and> P (node_list (node t) ! j))"
proof -
  let ?xs = "node_list (node t)"
  obtain rank :: "nat \<Rightarrow> nat" where rank: "\<And>i j. (i, j) \<in> links ?xs \<Longrightarrow> rank j < rank i"
    using chains_rank [OF assms(1)] by blast
  show ?thesis using assms(2)
  proof (induction "rank i" arbitrary: i rule: less_induct)
    case less
    show ?case
    proof (cases "P (?xs ! i) \<or> i_next (?xs ! i) = None")
      case True
      have "j = i" if "(i, j) \<in> (links ?xs)\<^sup>*" "i_next (?xs ! i) = None" for j
        using that by (auto simp: links_def elim: converse_rtranclE)
      then have "\<forall>j. (i, j) \<in> (links ?xs)\<^sup>* \<longrightarrow> \<not> P (?xs ! j)" if "i_next (?xs ! i) = None" "\<not> P (?xs ! i)"
        using that by metis
      then show ?thesis using True less.prems by (subst chain_find.simps) (auto simp: gnode_nth)
    next
      case False
      then obtain j where j: "i_next (?xs ! i) = Some j" by blast
      then have l: "(i, j) \<in> links ?xs" using less.prems by (simp add: links_def)
      then have "j < length ?xs" using chains_okD(1) [OF assms(1)] by blast
      from less.hyps [OF rank [OF l] this] obtain r where r: "chain_find P t j = Some r"
        "case r of None \<Rightarrow> \<forall>k. (j, k) \<in> (links ?xs)\<^sup>* \<longrightarrow> \<not> P (?xs ! k)
           | Some k \<Rightarrow> (j, k) \<in> (links ?xs)\<^sup>* \<and> P (?xs ! k)" by blast
      have "k = i \<or> (j, k) \<in> (links ?xs)\<^sup>*" if "(i, k) \<in> (links ?xs)\<^sup>*" for k
        using that j by (auto simp: links_def elim: converse_rtranclE)
      moreover have "(i, k) \<in> (links ?xs)\<^sup>*" if "(j, k) \<in> (links ?xs)\<^sup>*" for k
        using l that by (rule converse_rtrancl_into_rtrancl)
      moreover have "chain_find P t i = Some r"
        using False j r(1) less.prems by (subst chain_find.simps) (simp add: gnode_nth)
      ultimately show ?thesis using False r(2) by (fastforce split: option.splits)
    qed
  qed
qed

lemma find_previous_ok:
  assumes "chains_ok mp (node_list (node t))" "(i, j) \<in> (links (node_list (node t)))\<^sup>+"
  shows "\<exists>p. find_previous t i j = Some p \<and> (p, j) \<in> links (node_list (node t))"
  using assms(2)
proof (induction rule: converse_trancl_induct)
  case (base i)
  then show ?case by (subst find_previous.simps) (auto simp: gnode_nth links_def)
next
  case (step i k)
  then have "find_previous t i j = (if k = j then Some i else find_previous t k j)"
    by (subst find_previous.simps) (auto simp: gnode_nth links_def)
  then show ?case using step by auto
qed

section \<open>Placing a key\<close>

lemma at_home_key: "at_home mp xs m \<Longrightarrow> mp Nil_value = None \<Longrightarrow> \<not> nokey (xs ! m)"
  by (auto simp: at_home_def nokey_def)

text \<open>The key goes into its main position, whose value is nil.\<close>

lemma place_home:
  assumes ok: "chains_ok mp xs" and m: "m < length xs" "i_val (xs ! m) = Nil_value" "mp k = Some m"
  shows "chains_ok mp (xs[m := (xs ! m)\<lparr>i_key := Key k\<rparr>])"
proof -
  let ?ys = "xs[m := (xs ! m)\<lparr>i_key := Key k\<rparr>]"
  have nth: "?ys ! i = (if i = m then (xs ! m)\<lparr>i_key := Key k\<rparr> else xs ! i)" if "i < length xs" for i
    using that m(1) by (simp add: nth_list_update)
  have l: "links ?ys = links xs" using m(1) by (auto simp: links_def nth_list_update split: if_splits)
  have k: "k \<noteq> Nil_value" using m(3) chains_okD(6) [OF ok] by auto
  have nk: "nokey (?ys ! i) \<Longrightarrow> nokey (xs ! i) \<and> i \<noteq> m" if "i < length xs" for i
    using that k by (cases "i = m") (auto simp: nth nokey_def)
  have home: "at_home mp ?ys i" if "at_home mp xs i \<or> i = m" for i
    using that m by (auto simp: at_home_def nth)
  show ?thesis unfolding chains_ok_def l
  proof (intro conjI allI impI)
    show "\<exists>rank :: nat \<Rightarrow> nat. \<forall>i j. (i, j) \<in> links xs \<longrightarrow> rank j < rank i" using chains_rank [OF ok] by metis
    fix i j assume "(i, j) \<in> links xs"
    then show "j < length ?ys" "\<not> nokey (?ys ! j)" using chains_okD(1) [OF ok] nk by auto
  next
    fix i i' j assume "(i, j) \<in> links xs" "(i', j) \<in> links xs"
    then show "i = i'" by (rule chains_okD(2) [OF ok])
  next
    fix i assume i: "i < length ?ys" "nokey (?ys ! i)"
    then have "nokey (xs ! i)" "i \<noteq> m" using nk [of i] by auto
    then show "i_next (?ys ! i) = None" "i_val (?ys ! i) = Nil_value"
      using chains_okD(3) [OF ok, of i] i(1) by (simp_all add: nth)
  next
    fix i assume i: "i < length ?ys" "\<not> nokey (?ys ! i)"
    show "\<exists>m. mp (kval (i_key (?ys ! i))) = Some m \<and> (m, i) \<in> (links xs)\<^sup>* \<and> at_home mp ?ys m"
    proof (cases "i = m")
      case True
      then show ?thesis using m home by (auto simp: nth)
    next
      case False
      then show ?thesis using i chains_okD(4) [OF ok, of i] home by (auto simp: nth)
    qed
  next
    fix i assume "i < length ?ys" "i_val (?ys ! i) \<noteq> Nil_value"
    then show "\<exists>k. i_key (?ys ! i) = Key k" using m chains_okD(5) [OF ok, of i] by (cases "i = m") (auto simp: nth)
  qed (rule chains_okD(6) [OF ok])
qed

text \<open>The node at the main position is at home: the key goes into a free node right after it.\<close>

lemma place_free:
  assumes ok: "chains_ok mp xs" and m: "at_home mp xs m" "mp k = Some m" and n: "n < length xs" "nokey (xs ! n)"
  shows "chains_ok mp (xs[n := (xs ! n)\<lparr>i_next := i_next (xs ! m), i_key := Key k\<rparr>, m := (xs ! m)\<lparr>i_next := Some n\<rparr>])"
proof -
  let ?ys = "xs[n := (xs ! n)\<lparr>i_next := i_next (xs ! m), i_key := Key k\<rparr>, m := (xs ! m)\<lparr>i_next := Some n\<rparr>]"
  have ml: "m < length xs" using m(1) by (simp add: at_home_def)
  have ne: "n \<noteq> m" using at_home_key [OF m(1) chains_okD(6) [OF ok]] n(2) by auto
  have nth: "?ys ! i = (if i = m then (xs ! m)\<lparr>i_next := Some n\<rparr>
      else if i = n then (xs ! n)\<lparr>i_next := i_next (xs ! m), i_key := Key k\<rparr> else xs ! i)" if "i < length xs" for i
    using that ml n(1) ne by (simp add: nth_list_update)
  have nn: "i_next (xs ! n) = None" "i_val (xs ! n) = Nil_value" using chains_okD(3) [OF ok n] by auto
  have l: "(i, j) \<in> links ?ys \<longleftrightarrow> i = m \<and> j = n \<or> i = n \<and> (m, j) \<in> links xs \<or> i \<noteq> m \<and> (i, j) \<in> links xs" for i j
    using ml n(1) ne nn by (cases "i < length xs") (auto simp: links_def nth)
  have nj: "(i, n) \<notin> links xs" "(n, i) \<notin> links xs" for i
    using chains_okD(1) [OF ok] n(2) nn by (auto simp: links_def)
  have k: "k \<noteq> Nil_value" using m(2) chains_okD(6) [OF ok] by auto
  have nk: "nokey (?ys ! i) \<Longrightarrow> nokey (xs ! i) \<and> i \<noteq> n \<and> i \<noteq> m" if "i < length xs" for i
    using that k at_home_key [OF m(1) chains_okD(6) [OF ok]]
    by (cases "i = n"; cases "i = m") (auto simp: nth nokey_def)
  have home: "at_home mp ?ys i" if "at_home mp xs i" "i \<noteq> n" for i
    using that by (auto simp: at_home_def nth)
  have one: "(i, j) \<in> (links ?ys)\<^sup>*" if "(i, j) \<in> links xs" for i j
  proof (cases "i = m")
    case True
    then have "(m, n) \<in> links ?ys" "(n, j) \<in> links ?ys" using that l by auto
    then show ?thesis using True by (meson r_into_rtrancl rtrancl_trans)
  next
    case False
    then show ?thesis using that l by blast
  qed
  have reach: "(i, j) \<in> (links ?ys)\<^sup>*" if "(i, j) \<in> (links xs)\<^sup>*" for i j
    using that by (induction rule: rtrancl_induct) (auto intro: rtrancl_trans [OF _ one])
  show ?thesis unfolding chains_ok_def
  proof (intro conjI allI impI)
    obtain rank :: "nat \<Rightarrow> nat" where rank: "\<And>i j. (i, j) \<in> links xs \<Longrightarrow> rank j < rank i"
      using chains_rank [OF ok] by blast
    define r where "r i = (if i = n then 2 * rank m else 2 * rank i + 1)" for i
    have "r j < r i" if "(i, j) \<in> links ?ys" for i j
      using that rank [of i j] rank [of m j] nj [of i] nj [of j] nj [of m] ne by (auto simp: r_def l)
    then show "\<exists>rank :: nat \<Rightarrow> nat. \<forall>i j. (i, j) \<in> links ?ys \<longrightarrow> rank j < rank i" by blast
  next
    fix i j assume "(i, j) \<in> links ?ys"
    then show "j < length ?ys" "\<not> nokey (?ys ! j)"
      using chains_okD(1) [OF ok] n(1) nk unfolding l by (auto dest: nk)
  next
    fix i i' j assume "(i, j) \<in> links ?ys" "(i', j) \<in> links ?ys"
    then show "i = i'" using nj chains_okD(2) [OF ok] unfolding l by blast
  next
    fix i assume i: "i < length ?ys" "nokey (?ys ! i)"
    then have "nokey (xs ! i)" "i \<noteq> m" "i \<noteq> n" using nk [of i] by auto
    then show "i_next (?ys ! i) = None" "i_val (?ys ! i) = Nil_value"
      using chains_okD(3) [OF ok, of i] i(1) by (simp_all add: nth)
  next
    fix i assume i: "i < length ?ys" "\<not> nokey (?ys ! i)"
    show "\<exists>m. mp (kval (i_key (?ys ! i))) = Some m \<and> (m, i) \<in> (links ?ys)\<^sup>* \<and> at_home mp ?ys m"
    proof (cases "i = n")
      case True
      moreover have "(m, n) \<in> links ?ys" using l by blast
      ultimately show ?thesis using m home [OF m(1)] n(1) ne by (auto simp: nth)
    next
      case False
      then have key: "i_key (?ys ! i) = i_key (xs ! i)" "\<not> nokey (xs ! i)" using i by (auto simp: nth nokey_def split: if_splits)
      obtain h where h: "mp (kval (i_key (xs ! i))) = Some h" "(h, i) \<in> (links xs)\<^sup>*" "at_home mp xs h"
        using chains_okD(4) [OF ok, of i] key i by auto
      have "h \<noteq> n" using at_home_key [OF h(3) chains_okD(6) [OF ok]] n(2) by auto
      then show ?thesis using h key(1) home reach by auto
    qed
  next
    fix i assume "i < length ?ys" "i_val (?ys ! i) \<noteq> Nil_value"
    then show "\<exists>k. i_key (?ys ! i) = Key k" using nn chains_okD(5) [OF ok, of i] by (cases "i = n"; cases "i = m") (auto simp: nth)
  qed (rule chains_okD(6) [OF ok])
qed

text \<open>
  The node at the main position is away from its home: it moves to the free node, its predecessor
  follows it there, and the key takes its place, alone in its chain.
\<close>

lemma place_moved:
  assumes ok: "chains_ok mp xs" and m: "m < length xs" "mp k = Some m" "\<not> at_home mp xs m"
    and n: "n < length xs" "nokey (xs ! n)" and p: "(p, m) \<in> links xs"
  shows "chains_ok mp (xs[p := (xs ! p)\<lparr>i_next := Some n\<rparr>, n := xs ! m,
    m := (xs ! m)\<lparr>i_next := None, i_val := Nil_value, i_key := Key k\<rparr>])"
proof -
  let ?ys = "xs[p := (xs ! p)\<lparr>i_next := Some n\<rparr>, n := xs ! m,
    m := (xs ! m)\<lparr>i_next := None, i_val := Nil_value, i_key := Key k\<rparr>]"
  have mk: "\<not> nokey (xs ! m)" and pl: "p < length xs" using chains_okD(1) [OF ok p] by auto
  have nn: "i_next (xs ! n) = None" using chains_okD(3) [OF ok n] by auto
  have ne: "n \<noteq> m" "p \<noteq> n" using n(2) mk p nn by (auto simp: links_def)
  have pm: "p \<noteq> m" using chains_rank [OF ok] p by (metis less_irrefl)
  have nth: "?ys ! i = (if i = m then (xs ! m)\<lparr>i_next := None, i_val := Nil_value, i_key := Key k\<rparr>
      else if i = n then xs ! m else if i = p then (xs ! p)\<lparr>i_next := Some n\<rparr> else xs ! i)" if "i < length xs" for i
    using that m(1) n(1) pl ne pm by (simp add: nth_list_update)
  have nj: "(i, n) \<notin> links xs" "(n, i) \<notin> links xs" for i
    using chains_okD(1) [OF ok] n(2) nn by (auto simp: links_def)
  have onlyp: "(i, m) \<in> links xs \<longleftrightarrow> i = p" for i using chains_okD(2) [OF ok _ p] p by blast
  have pj: "(p, j) \<in> links xs \<longleftrightarrow> j = m" for j using p by (auto simp: links_def)
  have l: "(i, j) \<in> links ?ys \<longleftrightarrow>
      i = p \<and> j = n \<or> i = n \<and> (m, j) \<in> links xs \<or> i \<noteq> m \<and> i \<noteq> p \<and> (i, j) \<in> links xs" for i j
  proof (cases "i < length xs")
    case True
    then show ?thesis using m(1) n(1) ne pm nn pl by (auto simp: links_def nth)
  qed (use pl n(1) in \<open>auto simp: links_def\<close>)
  have k: "k \<noteq> Nil_value" using m(2) chains_okD(6) [OF ok] by auto
  have nk: "nokey (?ys ! i) \<Longrightarrow> nokey (xs ! i) \<and> i \<noteq> n \<and> i \<noteq> m" if "i < length xs" for i
    using that k mk by (cases "i = n"; cases "i = m"; cases "i = p") (auto simp: nth nokey_def)
  have home: "at_home mp ?ys i" if "at_home mp xs i" "i \<noteq> n" for i
    using that m(3) by (cases "i = p") (auto simp: at_home_def nth)
  have homem: "at_home mp ?ys m" using m by (simp add: at_home_def nth)
  define s where "s i = (if i = m then n else i)" for i
  have one: "(s i, s j) \<in> links ?ys" if "(i, j) \<in> links xs" for i j
    using that nj [of i] nj [of j] onlyp pj pm unfolding l s_def by auto
  have reach: "(s i, s j) \<in> (links ?ys)\<^sup>*" if "(i, j) \<in> (links xs)\<^sup>*" for i j
    using that by (induction rule: rtrancl_induct) (auto intro: rtrancl_into_rtrancl [OF _ one])
  show ?thesis unfolding chains_ok_def
  proof (intro conjI allI impI)
    obtain rank :: "nat \<Rightarrow> nat" where rank: "\<And>i j. (i, j) \<in> links xs \<Longrightarrow> rank j < rank i"
      using chains_rank [OF ok] by blast
    have "(rank(n := rank m)) j < (rank(n := rank m)) i" if "(i, j) \<in> links ?ys" for i j
      using that rank [of i j] rank [of m j] rank [OF p] nj [of i] nj [of j] nj [of m] ne pm by (auto simp: l)
    then show "\<exists>rank :: nat \<Rightarrow> nat. \<forall>i j. (i, j) \<in> links ?ys \<longrightarrow> rank j < rank i" by blast
  next
    fix i j assume "(i, j) \<in> links ?ys"
    then show "j < length ?ys" "\<not> nokey (?ys ! j)"
      using chains_okD(1) [OF ok] n(1) unfolding l by (auto dest: nk)
  next
    fix i i' j assume "(i, j) \<in> links ?ys" "(i', j) \<in> links ?ys"
    then show "i = i'" using nj chains_okD(2) [OF ok] unfolding l by blast
  next
    fix i assume i: "i < length ?ys" "nokey (?ys ! i)"
    then have "nokey (xs ! i)" "i \<noteq> n" "i \<noteq> m" using nk by auto
    moreover have "i \<noteq> p" using \<open>nokey (xs ! i)\<close> chains_okD(3) [OF ok, of i] i p by (auto simp: links_def)
    ultimately show "i_next (?ys ! i) = None" "i_val (?ys ! i) = Nil_value"
      using i chains_okD(3) [OF ok, of i] by (auto simp: nth)
  next
    fix i assume i: "i < length ?ys" "\<not> nokey (?ys ! i)"
    show "\<exists>h. mp (kval (i_key (?ys ! i))) = Some h \<and> (h, i) \<in> (links ?ys)\<^sup>* \<and> at_home mp ?ys h"
    proof (cases "i = m")
      case True
      then show ?thesis using m homem by (auto simp: nth)
    next
      case False
      define j where "j = (if i = n then m else i)"
      have e: "i_key (?ys ! i) = i_key (xs ! j)"
        using i False by (cases "i = n"; cases "i = p") (auto simp: j_def nth)
      moreover have "j < length xs" "s j = i" using i False m(1) by (auto simp: j_def s_def)
      ultimately have j: "j < length xs" "\<not> nokey (xs ! j)" "i_key (?ys ! i) = i_key (xs ! j)" "s j = i"
        using i(2) by (auto simp: nokey_def)
      obtain h where h: "mp (kval (i_key (xs ! j))) = Some h" "(h, j) \<in> (links xs)\<^sup>*" "at_home mp xs h"
        using chains_okD(4) [OF ok j(1, 2)] by auto
      have "h \<noteq> n" using at_home_key [OF h(3) chains_okD(6) [OF ok]] n(2) by auto
      moreover have "s h = h" using h(3) m(3) by (auto simp: s_def)
      ultimately show ?thesis using h j home reach [OF h(2)] by auto
    qed
  next
    fix i assume "i < length ?ys" "i_val (?ys ! i) \<noteq> Nil_value"
    then show "\<exists>k. i_key (?ys ! i) = Key k"
      using m(1) chains_okD(5) [OF ok, of i] chains_okD(5) [OF ok, of m] by (cases "i = n"; cases "i = m"; cases "i = p") (auto simp: nth)
  qed (rule chains_okD(6) [OF ok])
qed

end
