(* ===== verification/LuaTableOk.thy ===== *)
theory LuaTableOk
  imports LuaTableChain
begin

text \<open>
  The invariant of a table, its entries, and the insertion of a key while the hash part has room.
  Most of the invariant does not depend on where a key lies, so it is stated over the multiset of the
  keys and values of the nodes.
\<close>

section \<open>Keys\<close>

abbreviation same :: "'n num_ops \<Rightarrow> 'n TValue \<Rightarrow> 'n TValue \<Rightarrow> bool" where
  "same N a b \<equiv> luaO_rawequalObj (numeq N) a b"

fun valid_key :: "'n num_ops \<Rightarrow> 'n TValue \<Rightarrow> bool" where
  "valid_key N Nil_value = False"
| "valid_key N Null_string = False"
| "valid_key N (Number x) = numeq N x x"
| "valid_key N k = True"

definition in_array :: "'n num_ops \<Rightarrow> 'n Table \<Rightarrow> 'n TValue \<Rightarrow> bool" where
  "in_array N t k \<longleftrightarrow> 0 < arrayindex N k \<and> arrayindex N k \<le> sizearray t"

lemma num_okD:
  assumes "num_ok N"
  shows "numeq N x y \<Longrightarrow> numeq N y x" "numeq N x y \<Longrightarrow> numeq N y z \<Longrightarrow> numeq N x z"
    "numeq N x y \<Longrightarrow> x = y \<or> numeq N x (cast_num N 0)"
    "is_int j \<Longrightarrow> is_int k \<Longrightarrow> numeq N (cast_num N j) (cast_num N k) \<longleftrightarrow> j = k"
    "is_int k \<Longrightarrow> numeq N x (cast_num N k) \<Longrightarrow> number2int N x = k"
    "is_int (number2int N x)"
  using assms unfolding num_ok_def by blast+

lemma is_int_0 [simp]: "is_int 0"
  by (simp add: is_int_def)

lemma same_cases:
  "same N a b \<longleftrightarrow> (case a of Number x \<Rightarrow> (case b of Number y \<Rightarrow> numeq N x y | _ \<Rightarrow> False) | _ \<Rightarrow> a = b)"
  by (cases a; cases b) (auto simp: luaO_rawequalObj_def lua_tags)

lemma same_numbers [simp]:
  "same N a (Number y) \<longleftrightarrow> (\<exists>x. a = Number x \<and> numeq N x y)"
  "same N (Number x) b \<longleftrightarrow> (\<exists>y. b = Number y \<and> numeq N x y)"
  by (cases a; auto simp: same_cases) (cases b; auto simp: same_cases)

lemma same_other: "\<nexists>x. b = Number x \<Longrightarrow> same N a b \<longleftrightarrow> a = b"
  by (cases a) (auto simp: same_cases split: TValue.splits)

lemma same_refl: "valid_key N k \<Longrightarrow> same N k k"
  by (cases k) (auto simp: same_cases)

lemma same_sym: "num_ok N \<Longrightarrow> same N a b \<Longrightarrow> same N b a"
  using num_okD(1) [of N] by (cases "\<exists>x. b = Number x") (auto simp: same_other)

lemma same_trans: "num_ok N \<Longrightarrow> same N a b \<Longrightarrow> same N b c \<Longrightarrow> same N a c"
proof (cases "\<exists>x. b = Number x")
  case True
  assume "num_ok N" "same N a b" "same N b c"
  then show ?thesis using True num_okD(2) [of N] by fastforce
next
  case False
  assume "same N a b" "same N b c"
  then show ?thesis using False by (simp add: same_other)
qed

lemma same_valid: "num_ok N \<Longrightarrow> same N a b \<Longrightarrow> valid_key N a \<Longrightarrow> valid_key N b"
proof (cases "\<exists>x. b = Number x")
  case True
  assume N: "num_ok N" and s: "same N a b"
  obtain x y where x: "b = Number y" "numeq N x y" using True s by auto
  have "numeq N y y" by (rule num_okD(2) [OF N num_okD(1) [OF N x(2)] x(2)])
  then show ?thesis using x by simp
qed (simp add: same_other)

lemma hashnum_same: "num_ok N \<Longrightarrow> numeq N x y \<Longrightarrow> hashnum N t x = hashnum N t y"
proof -
  assume N: "num_ok N" and x: "numeq N x y"
  have "numeq N x (cast_num N 0) \<longleftrightarrow> numeq N y (cast_num N 0)"
    using x num_okD(1,2) [OF N] by blast
  then show ?thesis using num_okD(3) [OF N x] by (auto simp: hashnum_def)
qed

lemma same_mainposition: "num_ok N \<Longrightarrow> same N a b \<Longrightarrow> mainposition N t a = mainposition N t b"
  by (cases "\<exists>x. b = Number x") (auto simp: same_other hashnum_same)

lemma number2int_same: "num_ok N \<Longrightarrow> numeq N x y \<Longrightarrow> number2int N x = number2int N y"
proof -
  assume N: "num_ok N" and x: "numeq N x y"
  show ?thesis
  proof (cases "x = y")
    case False
    then have "numeq N x (cast_num N 0)" using num_okD(3) [OF N x] by simp
    moreover from this have "numeq N y (cast_num N 0)" using x num_okD(1,2) [OF N] by blast
    ultimately show ?thesis using num_okD(5) [OF N is_int_0] by simp
  qed simp
qed

lemma same_arrayindex: "num_ok N \<Longrightarrow> same N a b \<Longrightarrow> arrayindex N a = arrayindex N b"
proof (cases "\<exists>x. b = Number x")
  case True
  assume N: "num_ok N" and s: "same N a b"
  obtain x y where x: "a = Number x" "b = Number y" "numeq N x y" using True s by auto
  have "numeq N c x \<longleftrightarrow> numeq N c y" for c using x num_okD(1,2) [OF N] by blast
  then show ?thesis using x number2int_same [OF N x(3)] by (simp add: Let_def)
qed (simp add: same_other)

lemma same_in_array: "num_ok N \<Longrightarrow> same N a b \<Longrightarrow> in_array N t a \<longleftrightarrow> in_array N t b"
  by (simp add: in_array_def same_arrayindex)

text \<open>A key of the array part is the number its index converts to.\<close>

lemma arrayindex_key:
  assumes "num_ok N" "0 < arrayindex N k"
  shows "k = Number (cast_num N (arrayindex N k))" "is_int (arrayindex N k)" "valid_key N k"
proof -
  obtain x where k: "k = Number x" "arrayindex N k = number2int N x" "numeq N (cast_num N (number2int N x)) x"
    using assms(2) by (cases k) (auto simp: Let_def split: if_splits)
  show i: "is_int (arrayindex N k)" using k num_okD(6) [OF assms(1)] by simp
  have "\<not> numeq N (cast_num N (arrayindex N k)) (cast_num N 0)"
    using num_okD(4) [OF assms(1) i is_int_0] assms(2) by simp
  then show "k = Number (cast_num N (arrayindex N k))" using num_okD(3) [OF assms(1)] k by metis
  show "valid_key N k" using k(1) num_okD(2) [OF assms(1) num_okD(1) [OF assms(1) k(3)] k(3)] by simp
qed

lemma arrayindex_cast: "num_ok N \<Longrightarrow> is_int k \<Longrightarrow> arrayindex N (Number (cast_num N k)) = k"
  by (simp add: Let_def num_okD(4) num_okD(5))

lemma valid_cast: "num_ok N \<Longrightarrow> is_int k \<Longrightarrow> valid_key N (Number (cast_num N k))"
  by (simp add: num_okD(4))

section \<open>The invariant\<close>

abbreviation nodes_of :: "'n Table \<Rightarrow> 'n Node list" where
  "nodes_of t \<equiv> node_list (node t)"

definition kv :: "'n Node \<Rightarrow> 'n NKey \<times> 'n TValue" where
  "kv n = (i_key n, i_val n)"

definition kvs :: "'n Table \<Rightarrow> ('n NKey \<times> 'n TValue) multiset" where
  "kvs t = mset (map kv (nodes_of t))"

definition holds_key :: "'n num_ops \<Rightarrow> 'n TValue \<Rightarrow> 'n NKey \<times> 'n TValue \<Rightarrow> bool" where
  "holds_key N k p = rawequal_key N k (fst p)"

definition keys_ok :: "'n num_ops \<Rightarrow> 'n Table \<Rightarrow> ('n NKey \<times> 'n TValue) multiset \<Rightarrow> bool" where
  "keys_ok N t M \<longleftrightarrow>
     (\<forall>k v. (Key k, v) \<in># M \<longrightarrow> k \<noteq> Nil_value \<longrightarrow> valid_key N k \<and> \<not> in_array N t k) \<and>
     (\<forall>k. valid_key N k \<longrightarrow> size (filter_mset (holds_key N k) M) \<le> 1)"

definition nodes_shape :: "'n Table \<Rightarrow> bool" where
  "nodes_shape t \<longleftrightarrow> (case node t of
      dummynode \<Rightarrow> lsizenode t = 0 \<and> lastfree t \<le> 0
    | Nodes xs \<Rightarrow> length xs = 2 ^ lsizenode t \<and> lsizenode t \<le> 26 \<and> lastfree t \<le> 2 ^ lsizenode t \<and>
        (\<forall>i < length xs. lastfree t \<le> int i \<longrightarrow> \<not> nokey (xs ! i)))"

definition array_shape :: "'n Table \<Rightarrow> bool" where
  "array_shape t \<longleftrightarrow> 0 \<le> sizearray t \<and> sizearray t \<le> int (length (array t)) \<and> sizearray t \<le> MAXASIZE"

text \<open>While the array part shrinks its vector is longer than \<^verbatim>\<open>sizearray\<close>.\<close>

definition core_ok :: "'n num_ops \<Rightarrow> 'n Table \<Rightarrow> bool" where
  "core_ok N t \<longleftrightarrow> nodes_shape t \<and> array_shape t \<and> chains_ok (mainposition N t) (nodes_of t) \<and> keys_ok N t (kvs t)"

definition table_ok :: "'n num_ops \<Rightarrow> 'n Table \<Rightarrow> bool" where
  "table_ok N t \<longleftrightarrow> core_ok N t \<and> sizearray t = int (length (array t))"

definition array_entries :: "'n num_ops \<Rightarrow> 'n Table \<Rightarrow> ('n TValue \<times> 'n TValue) set" where
  "array_entries N t =
     {(Number (cast_num N (int i + 1)), array t ! i) | i. int i < sizearray t \<and> array t ! i \<noteq> Nil_value}"

definition hash_entries :: "('n NKey \<times> 'n TValue) multiset \<Rightarrow> ('n TValue \<times> 'n TValue) set" where
  "hash_entries M = {(k, v). (Key k, v) \<in># M \<and> v \<noteq> Nil_value}"

text \<open>The entries: the pairs of a key and its value other than nil.\<close>

definition entries :: "'n num_ops \<Rightarrow> 'n Table \<Rightarrow> ('n TValue \<times> 'n TValue) set" where
  "entries N t = array_entries N t \<union> hash_entries (kvs t)"

lemma length_nodes: "nodes_shape t \<Longrightarrow> length (nodes_of t) = 2 ^ lsizenode t"
  by (auto simp: nodes_shape_def node_list_def split: nodes.splits)

lemma hashmod_less: "nodes_shape t \<Longrightarrow> hashmod t n < 2 ^ lsizenode t"
proof -
  assume "nodes_shape t"
  then have l: "lsizenode t \<le> 26" by (auto simp: nodes_shape_def split: nodes.splits)
  have s: "sizenode t = 2 ^ lsizenode t" by (simp add: sizenode_def twoto_def)
  show ?thesis
  proof (cases "lsizenode t")
    case 0
    then show ?thesis using s by (simp add: hashmod_def)
  next
    case (Suc k)
    have "odd ((2::int) ^ Suc k - 1)" by simp
    then have "((2::int) ^ Suc k - 1) OR 1 = 2 ^ Suc k - 1"
      by (simp only: or_one_eq) simp
    then have "nat ((sizenode t - 1) OR 1) = 2 ^ Suc k - 1" using s Suc
      by (simp only: nat_diff_distrib' zero_le_power zero_le_numeral nat_power_eq one_le_power nat_numeral)
    moreover have "n mod (2 ^ Suc k - 1) < 2 ^ Suc k - (1::nat)"
    proof (rule mod_less_divisor)
      have "1 < (2::nat) ^ Suc k" by (rule one_less_power) simp_all
      then show "0 < 2 ^ Suc k - (1::nat)" by (rule zero_less_diff [THEN iffD2])
    qed
    ultimately show ?thesis using Suc unfolding hashmod_def by simp
  qed
qed

lemma hashpow2_less: "nodes_shape t \<Longrightarrow> hashpow2 t n < 2 ^ lsizenode t"
proof -
  assume "nodes_shape t"
  then have "lsizenode t \<le> 31" by (auto simp: nodes_shape_def split: nodes.splits)
  then show ?thesis unfolding hashpow2_def sizenode_def twoto_def by (rule lmod_less)
qed

lemma hashnum_less: "nodes_shape t \<Longrightarrow> hashnum N t n < 2 ^ lsizenode t"
  by (simp add: hashnum_def hashmod_less Let_def)

lemma mainposition_less:
  assumes "nodes_shape t" "k \<noteq> Nil_value" "k \<noteq> Null_string"
  obtains m where "mainposition N t k = Some m" "m < length (nodes_of t)"
  using assms by (cases k) (auto simp: length_nodes hashnum_less hashpow2_less hashmod_less)

lemma mainposition_cong: "lsizenode t = lsizenode t' \<Longrightarrow> mainposition N t = mainposition N t'"
proof -
  assume a: "lsizenode t = lsizenode t'"
  have "mainposition N t k = mainposition N t' k" for k
    using a by (cases k) (auto simp: hashnum_def hashmod_def hashpow2_def sizenode_def)
  then show ?thesis by (rule ext)
qed

lemma rawequal_key_iff: "rawequal_key N k nk \<longleftrightarrow> (\<exists>a. nk = Key a \<and> same N a k)"
  by (cases nk) auto

lemma kvs_mem: "p \<in># kvs t \<longleftrightarrow> (\<exists>i < length (nodes_of t). p = kv (nodes_of t ! i))"
  by (auto simp: kvs_def in_set_conv_nth) (metis image_eqI nth_mem)

lemma filter_one: "size (filter_mset P M) \<le> 1 \<Longrightarrow> p \<in># M \<Longrightarrow> q \<in># M \<Longrightarrow> P p \<Longrightarrow> P q \<Longrightarrow> p = q"
proof (rule ccontr)
  assume a: "size (filter_mset P M) \<le> 1" "p \<in># M" "q \<in># M" "P p" "P q" "p \<noteq> q"
  obtain R where R: "M = add_mset p R" using a(2) by (metis mset_add)
  then have "q \<in># R" using a(3, 6) by simp
  then obtain S where "R = add_mset q S" by (metis mset_add)
  then show False using a R by simp
qed

lemma core_okD:
  assumes "core_ok N t"
  shows "nodes_shape t" "array_shape t" "chains_ok (mainposition N t) (nodes_of t)" "keys_ok N t (kvs t)"
  using assms by (simp_all add: core_ok_def)

section \<open>Lookup\<close>

definition slot_ok :: "'n num_ops \<Rightarrow> 'n Table \<Rightarrow> 'n TValue \<Rightarrow> tvref \<Rightarrow> bool" where
  "slot_ok N t k r \<longleftrightarrow> (case r of
      In_array i \<Rightarrow> in_array N t k \<and> i = nat (arrayindex N k - 1)
    | In_node i \<Rightarrow> \<not> in_array N t k \<and> i < length (nodes_of t) \<and> rawequal_key N k (i_key (nodes_of t ! i))
    | nilobject \<Rightarrow> \<not> in_array N t k \<and> (\<forall>i < length (nodes_of t). \<not> rawequal_key N k (i_key (nodes_of t ! i))))"

lemma slot_chain:
  assumes N: "num_ok N" and ok: "core_ok N t" and k: "valid_key N k" "\<not> in_array N t k"
    and m: "mainposition N t k = Some m" and P: "\<And>n. P n \<longleftrightarrow> rawequal_key N k (i_key n)"
  shows "\<exists>r. chain_find P t m = Some r \<and> slot_ok N t k (node_ref r)"
proof -
  note c = core_okD(3) [OF ok]
  have kk: "k \<noteq> Nil_value" "k \<noteq> Null_string" using k(1) by auto
  have ml: "m < length (nodes_of t)" using mainposition_less [OF core_okD(1) [OF ok] kk] m by (metis option.inject)
  obtain r where r: "chain_find P t m = Some r"
    "case r of None \<Rightarrow> \<forall>j. (m, j) \<in> (links (nodes_of t))\<^sup>* \<longrightarrow> \<not> P (nodes_of t ! j)
     | Some j \<Rightarrow> (m, j) \<in> (links (nodes_of t))\<^sup>* \<and> P (nodes_of t ! j)"
    using chain_find_ok [OF c ml] by blast
  have "\<not> rawequal_key N k (i_key (nodes_of t ! i))"
    if "i < length (nodes_of t)" "\<forall>j. (m, j) \<in> (links (nodes_of t))\<^sup>* \<longrightarrow> \<not> P (nodes_of t ! j)" for i
  proof
    note th = that
    assume "rawequal_key N k (i_key (nodes_of t ! i))"
    then obtain a where a: "i_key (nodes_of t ! i) = Key a" "same N a k" by (auto simp: rawequal_key_iff)
    then have "valid_key N a" using same_valid [OF N same_sym [OF N a(2)] k(1)] by simp
    then have nk: "\<not> nokey (nodes_of t ! i)" using a(1) by (auto simp: nokey_def)
    obtain h where "mainposition N t a = Some h" "(h, i) \<in> (links (nodes_of t))\<^sup>*"
      using chains_okD(4) [OF c th(1) nk] a(1) by auto
    then have "(m, i) \<in> (links (nodes_of t))\<^sup>*" using same_mainposition [OF N a(2), of t] m by simp
    then show False using th(2) a P by (auto simp: rawequal_key_iff)
  qed
  then show ?thesis
    using r k(2) links_in [OF _ c ml] by (auto simp: slot_ok_def node_ref_def P split: option.splits)
qed

lemma is_number_key_iff: "is_number_key N x nk \<longleftrightarrow> rawequal_key N (Number x) nk"
  by (cases "(N, x, nk)" rule: is_number_key.cases) auto

lemma is_string_key_iff: "is_string_key s nk \<longleftrightarrow> rawequal_key N (String s) nk"
  by (cases "(s, nk)" rule: is_string_key.cases) (auto simp: same_other)

lemma rawequal_key_same: "num_ok N \<Longrightarrow> same N a b \<Longrightarrow> rawequal_key N a nk \<longleftrightarrow> rawequal_key N b nk"
  by (cases nk) (auto intro: same_trans same_sym)

lemma slot_same: "num_ok N \<Longrightarrow> same N a b \<Longrightarrow> slot_ok N t a r \<longleftrightarrow> slot_ok N t b r"
  using rawequal_key_same [of N a b] by (auto simp: slot_ok_def same_in_array same_arrayindex split: tvref.splits)

lemma MAXASIZE_bounds: "array_shape t \<Longrightarrow> 0 \<le> sizearray t \<and> sizearray t \<le> 67108864"
  by (simp add: array_shape_def MAXASIZE_def)

lemma getnum_test:
  assumes "is_int k" "array_shape t"
  shows "c_uint (k - 1) < c_uint (sizearray t) \<longleftrightarrow> 0 < k \<and> k \<le> sizearray t"
proof (cases "0 < k")
  case True
  then show ?thesis using assms MAXASIZE_bounds [OF assms(2)] by (auto simp: c_uint_def is_int_def)
next
  case False
  have "c_uint (k - 1) = (k - 1 + 4294967296) mod 4294967296"
    unfolding c_uint_def by (rule mod_add_self2 [symmetric])
  also have "\<dots> = k - 1 + 4294967296" using False assms(1) by (intro mod_pos_pos_trivial) (simp_all add: is_int_def)
  finally show ?thesis using False assms(1) MAXASIZE_bounds [OF assms(2)] by (simp add: c_uint_def is_int_def)
qed

lemma luaH_getnum_slot:
  assumes N: "num_ok N" and ok: "core_ok N t" and k: "is_int k"
  shows "\<exists>r. luaH_getnum N t k = Some r \<and> slot_ok N t (Number (cast_num N k)) r"
proof -
  let ?k = "Number (cast_num N k)"
  have a: "arrayindex N ?k = k" by (rule arrayindex_cast [OF N k])
  show ?thesis
  proof (cases "0 < k \<and> k \<le> sizearray t")
    case True
    then show ?thesis using a by (simp add: luaH_getnum_def getnum_test [OF k core_okD(2) [OF ok]] slot_ok_def in_array_def)
  next
    case False
    then have "\<not> in_array N t ?k" using a by (simp add: in_array_def)
    from slot_chain [OF N ok valid_cast [OF N k] this, of "hashnum N t (cast_num N k)"
        "\<lambda>n. is_number_key N (cast_num N k) (i_key n)"]
    show ?thesis using False
      by (auto simp: luaH_getnum_def Let_def getnum_test [OF k core_okD(2) [OF ok]] is_number_key_iff)
  qed
qed

lemma luaH_get_slot:
  assumes N: "num_ok N" and ok: "core_ok N t" and k: "valid_key N k"
  shows "\<exists>r. luaH_get N t k = Some r \<and> slot_ok N t k r"
proof -
  have default: "\<exists>r. get_default N t k = Some r \<and> slot_ok N t k r" if "\<not> in_array N t k"
  proof -
    have kk: "k \<noteq> Nil_value" "k \<noteq> Null_string" using k by auto
    obtain m where m: "mainposition N t k = Some m" using mainposition_less [OF core_okD(1) [OF ok] kk] by blast
    show ?thesis
      using slot_chain [OF N ok k that m, of "\<lambda>n. rawequal_key N k (i_key n)"] m by (auto simp: get_default_def)
  qed
  show ?thesis
  proof (cases k)
    case (Number x)
    show ?thesis
    proof (cases "numeq N (cast_num N (number2int N x)) x")
      case True
      then have "same N (Number (cast_num N (number2int N x))) k" using Number by simp
      then show ?thesis
        using luaH_getnum_slot [OF N ok num_okD(6) [OF N], of x] Number True
          slot_same [OF N, of "Number (cast_num N (number2int N x))" k t] by (auto simp: luaH_get_def)
    next
      case False
      then have "\<not> in_array N t k" using Number by (simp add: in_array_def Let_def)
      then show ?thesis using default Number False by (simp add: luaH_get_def)
    qed
  next
    case (String s)
    then have "\<not> in_array N t k" by (simp add: in_array_def)
    from slot_chain [OF N ok k this, of "hashpow2 t (str_hash s)" "\<lambda>n. is_string_key s (i_key n)"]
    show ?thesis using String by (auto simp: luaH_get_def luaH_getstr_def is_string_key_iff)
  qed (use default k in \<open>auto simp: luaH_get_def in_array_def\<close>)
qed

text \<open>What a slot holds, in terms of the entries.\<close>

lemma keys_okD:
  assumes "keys_ok N t M"
  shows "(Key k, v) \<in># M \<Longrightarrow> k \<noteq> Nil_value \<Longrightarrow> valid_key N k \<and> \<not> in_array N t k"
    and "valid_key N k \<Longrightarrow> size (filter_mset (holds_key N k) M) \<le> 1"
  using assms unfolding keys_ok_def by blast+

lemma chains_kvs:
  assumes "chains_ok mp (nodes_of t)" "(nk, v) \<in># kvs t" "v \<noteq> Nil_value"
  shows "\<exists>k. nk = Key k \<and> k \<noteq> Nil_value"
proof -
  obtain i where i: "i < length (nodes_of t)" "nk = i_key (nodes_of t ! i)" "v = i_val (nodes_of t ! i)"
    using assms(2) by (auto simp: kvs_mem kv_def)
  then show ?thesis using assms(1, 3) chains_okD(3, 5) [OF assms(1) i(1)] by (auto simp: nokey_def)
qed

lemma array_entry:
  assumes "num_ok N" "array_shape t" "(k, v) \<in> array_entries N t"
  shows "in_array N t k" "array t ! nat (arrayindex N k - 1) = v" "v \<noteq> Nil_value"
proof -
  obtain i where i: "k = Number (cast_num N (int i + 1))" "v = array t ! i" "int i < sizearray t" "v \<noteq> Nil_value"
    using assms(3) by (auto simp: array_entries_def)
  have "is_int (int i + 1)" using i(3) MAXASIZE_bounds [OF assms(2)] by (simp add: is_int_def)
  from arrayindex_cast [OF assms(1) this] have a: "arrayindex N k = int i + 1" using i(1) by simp
  show "in_array N t k" "array t ! nat (arrayindex N k - 1) = v" "v \<noteq> Nil_value"
    using a i by (simp_all add: in_array_def)
qed

lemma in_array_entry:
  assumes "num_ok N" "in_array N t k"
  shows "array t ! nat (arrayindex N k - 1) = v \<Longrightarrow> v \<noteq> Nil_value \<Longrightarrow> (k, v) \<in> array_entries N t"
proof -
  assume v: "array t ! nat (arrayindex N k - 1) = v" "v \<noteq> Nil_value"
  have p: "0 < arrayindex N k" "arrayindex N k \<le> sizearray t" using assms(2) by (auto simp: in_array_def)
  have "int (nat (arrayindex N k - 1)) + 1 = arrayindex N k" "int (nat (arrayindex N k - 1)) < sizearray t"
    using p by auto
  then show "(k, v) \<in> array_entries N t"
    using v arrayindex_key(1) [OF assms(1) p(1)] unfolding array_entries_def by (metis (mono_tags, lifting) mem_Collect_eq)
qed

lemma hash_entry:
  assumes "core_ok N t" "(k, v) \<in> hash_entries (kvs t)"
  shows "valid_key N k" "\<not> in_array N t k" "v \<noteq> Nil_value" "(Key k, v) \<in># kvs t"
proof -
  have kv: "(Key k, v) \<in># kvs t" "v \<noteq> Nil_value" using assms(2) by (auto simp: hash_entries_def)
  moreover have "k \<noteq> Nil_value" using chains_kvs [OF core_okD(3) [OF assms(1)] kv] by auto
  ultimately show "valid_key N k" "\<not> in_array N t k" "v \<noteq> Nil_value" "(Key k, v) \<in># kvs t"
    using keys_okD(1) [OF core_okD(4) [OF assms(1)]] by auto
qed

lemma slot_value:
  assumes N: "num_ok N" and ok: "core_ok N t" and k: "valid_key N k" and s: "slot_ok N t k r"
  shows "\<exists>v. read_ref t r = Some v \<and> (v \<noteq> Nil_value \<longrightarrow> (\<exists>k'. (k', v) \<in> entries N t \<and> same N k' k)) \<and>
    (\<forall>k' w. (k', w) \<in> entries N t \<longrightarrow> same N k' k \<longrightarrow> w = v)"
proof -
  have arr: "in_array N t k \<and> array t ! nat (arrayindex N k - 1) = w"
    if "(k', w) \<in> array_entries N t" "same N k' k" for k' w
    using array_entry [OF N core_okD(2) [OF ok] that(1)] same_in_array [OF N that(2)] same_arrayindex [OF N that(2)] by simp
  have hash: "\<not> in_array N t k" "(Key k', w) \<in># kvs t" if "(k', w) \<in> hash_entries (kvs t)" "same N k' k" for k' w
    using hash_entry [OF ok that(1)] same_in_array [OF N that(2)] by simp_all
  show ?thesis
  proof (cases r)
    case nilobject
    have "\<not> same N k' k" if "(Key k', w) \<in># kvs t" for k' w
      using s nilobject that unfolding slot_ok_def kvs_mem by (auto simp: rawequal_key_iff kv_def)
    then have "\<not> same N k' k" if "(k', w) \<in> hash_entries (kvs t)" for k' w using hash(2) [OF that] by blast
    then show ?thesis
      using nilobject s arr by (auto simp: entries_def slot_ok_def)
  next
    case (In_array i)
    then have i: "in_array N t k" "i = nat (arrayindex N k - 1)" using s by (auto simp: slot_ok_def)
    have "i < length (array t)" using i core_okD(2) [OF ok] by (auto simp: in_array_def array_shape_def)
    then show ?thesis
      using In_array i arr hash in_array_entry [OF N i(1) refl] same_refl [OF k] by (auto simp: entries_def)
  next
    case (In_node i)
    let ?n = "nodes_of t ! i"
    have i: "\<not> in_array N t k" "i < length (nodes_of t)" "rawequal_key N k (i_key ?n)"
      using s In_node by (auto simp: slot_ok_def)
    then obtain a where a: "i_key ?n = Key a" "same N a k" by (auto simp: rawequal_key_iff)
    have mem: "(Key a, i_val ?n) \<in># kvs t" using i(2) a(1) by (auto simp: kvs_mem kv_def)
    have "(Key k', w) = (Key a, i_val ?n)" if "(k', w) \<in> hash_entries (kvs t)" "same N k' k" for k' w
      using keys_okD(2) [OF core_okD(4) [OF ok] k] hash(2) [OF that] mem
      by (rule filter_one) (use that(2) a(2) in \<open>auto simp: holds_key_def\<close>)
    moreover have "(a, i_val ?n) \<in> hash_entries (kvs t)" if "i_val ?n \<noteq> Nil_value"
      using mem that by (auto simp: hash_entries_def)
    ultimately show ?thesis
      using In_node i arr a by (auto simp: entries_def gnode_nth)
  qed
qed

text \<open>The value that the search gives.\<close>

definition lookup :: "'n num_ops \<Rightarrow> 'n Table \<Rightarrow> 'n TValue \<Rightarrow> 'n TValue option" where
  "lookup N t k = luaH_get N t k \<bind> read_ref t"

lemma lookup_entries:
  assumes "num_ok N" "core_ok N t" "valid_key N k"
  shows "\<exists>v. lookup N t k = Some v \<and> (v \<noteq> Nil_value \<longrightarrow> (\<exists>k'. (k', v) \<in> entries N t \<and> same N k' k)) \<and>
    (\<forall>k' w. (k', w) \<in> entries N t \<longrightarrow> same N k' k \<longrightarrow> w = v)"
  using luaH_get_slot [OF assms] slot_value [OF assms] unfolding lookup_def by fastforce

lemma entry_valid:
  assumes "num_ok N" "core_ok N t" "(k, v) \<in> entries N t"
  shows "valid_key N k" "v \<noteq> Nil_value"
proof -
  consider "(k, v) \<in> array_entries N t" | "(k, v) \<in> hash_entries (kvs t)" using assms(3) by (auto simp: entries_def)
  then have "valid_key N k \<and> v \<noteq> Nil_value"
  proof cases
    case 1
    note a = array_entry [OF assms(1) core_okD(2) [OF assms(2)] 1]
    have "0 < arrayindex N k" using a(1) by (simp add: in_array_def)
    from arrayindex_key(3) [OF assms(1) this] show ?thesis using a(3) by simp
  next
    case 2
    show ?thesis using hash_entry(1, 3) [OF assms(2) 2] by simp
  qed
  then show "valid_key N k" "v \<noteq> Nil_value" by simp_all
qed

text \<open>Two tables with the same entries up to one key answer alike on every other key.\<close>

lemma lookup_eq:
  assumes N: "num_ok N" and ok: "core_ok N t" "core_ok N t'" and k: "valid_key N k"
    and e: "\<And>k' v. same N k' k \<Longrightarrow> (k', v) \<in> entries N t \<longleftrightarrow> (k', v) \<in> entries N t'"
  shows "lookup N t k = lookup N t' k"
proof -
  obtain v where v: "lookup N t k = Some v" "v \<noteq> Nil_value \<longrightarrow> (\<exists>k'. (k', v) \<in> entries N t \<and> same N k' k)"
    "\<forall>k' w. (k', w) \<in> entries N t \<longrightarrow> same N k' k \<longrightarrow> w = v"
    using lookup_entries [OF N ok(1) k] by blast
  obtain v' where v': "lookup N t' k = Some v'" "v' \<noteq> Nil_value \<longrightarrow> (\<exists>k'. (k', v') \<in> entries N t' \<and> same N k' k)"
    "\<forall>k' w. (k', w) \<in> entries N t' \<longrightarrow> same N k' k \<longrightarrow> w = v'"
    using lookup_entries [OF N ok(2) k] by blast
  have "v = v'" using v v' e by (cases "v = Nil_value"; cases "v' = Nil_value") metis+
  then show ?thesis using v(1) v'(1) by simp
qed

end
