(* ===== verification/LuaTableInsert.thy ===== *)
theory LuaTableInsert
  imports LuaTableOk
begin

text \<open>Insertion while the hash part has room, and writing to the slot of a key.\<close>

section \<open>Free places\<close>

lemma gnode_lastfree [simp]: "gnode (t\<lparr>lastfree := l\<rparr>) i = gnode t i"
  by (simp add: gnode_def)

lemma getfreepos_ok:
  assumes "node t = Nodes xs" "lastfree t \<le> int (length xs)"
  shows "\<exists>l r. getfreepos t = Some (t\<lparr>lastfree := l\<rparr>, r) \<and>
    (case r of
       None \<Rightarrow> l \<le> lastfree t \<and> (\<forall>i. int i < lastfree t \<longrightarrow> \<not> nokey (xs ! i))
     | Some n \<Rightarrow> n < length xs \<and> nokey (xs ! n) \<and> l = int n \<and> l < lastfree t \<and>
         (\<forall>i. n < i \<longrightarrow> int i < lastfree t \<longrightarrow> \<not> nokey (xs ! i)))"
  using assms
proof (induction t rule: getfreepos.induct)
  case (1 t)
  let ?t = "t\<lparr>lastfree := lastfree t - 1\<rparr>"
  show ?case
  proof (cases "0 < lastfree t")
    case False
    then show ?thesis by (subst getfreepos.simps) (auto simp: Let_def intro!: exI [of _ "lastfree t - 1"] exI [of _ None])
  next
    case True
    define n where "n = nat (lastfree t - 1)"
    have n: "int n = lastfree t - 1" "n < length xs" using True 1(3) by (auto simp: n_def)
    have g: "gnode t n = Some (xs ! n)" using 1(2) n(2) by (simp add: gnode_def)
    show ?thesis
    proof (cases "nokey (xs ! n)")
      case nk: True
      then have "getfreepos t = Some (?t, Some n)"
        using True g by (subst getfreepos.simps) (simp add: Let_def n_def nokey_def)
      then show ?thesis using nk n
        by (intro exI [of _ "lastfree t - 1"] exI [of _ "Some n"]) auto
    next
      case nk: False
      then have e: "getfreepos t = getfreepos ?t"
        using True g by (subst getfreepos.simps) (simp add: Let_def n_def nokey_def)
      obtain l r where r: "getfreepos ?t = Some (?t\<lparr>lastfree := l\<rparr>, r)"
        "case r of
           None \<Rightarrow> l \<le> lastfree ?t \<and> (\<forall>i. int i < lastfree ?t \<longrightarrow> \<not> nokey (xs ! i))
         | Some n \<Rightarrow> n < length xs \<and> nokey (xs ! n) \<and> l = int n \<and> l < lastfree ?t \<and>
             (\<forall>i. n < i \<longrightarrow> int i < lastfree ?t \<longrightarrow> \<not> nokey (xs ! i))"
        using 1(1) [OF refl True, of "xs ! n"] g nk 1(2,3) unfolding nokey_def n_def by auto
      have last: "\<not> nokey (xs ! i)" if "int i < lastfree t" "\<not> int i < lastfree t - 1" for i
      proof -
        have "i = n" using that n(1) by simp
        then show ?thesis using nk by simp
      qed
      show ?thesis
        using e r last by (intro exI [of _ l] exI [of _ r]) (auto split: option.splits)
    qed
  qed
qed

section \<open>The effect of an insertion\<close>

definition nkeys :: "('n NKey \<times> 'n TValue) multiset \<Rightarrow> nat" where
  "nkeys M = size (filter_mset (\<lambda>p. fst p \<noteq> Key Nil_value) M)"

text \<open>One pair without value makes room for the new key; the pairs are otherwise the same.\<close>

definition placed :: "'n num_ops \<Rightarrow> 'n Table \<Rightarrow> 'n Table \<Rightarrow> 'n TValue \<Rightarrow> nat \<Rightarrow> bool" where
  "placed N t t' k i \<longleftrightarrow>
     (\<exists>old R. kvs t = add_mset old R \<and> snd old = Nil_value \<and> kvs t' = add_mset (Key k, Nil_value) R) \<and>
     i < length (nodes_of t') \<and> kv (nodes_of t' ! i) = (Key k, Nil_value) \<and> nodes_shape t' \<and>
     chains_ok (mainposition N t') (nodes_of t') \<and>
     array t' = array t \<and> sizearray t' = sizearray t \<and> lsizenode t' = lsizenode t \<and> node t' \<noteq> dummynode"

lemma filter_add: "size (filter_mset P R) \<le> size (filter_mset P (add_mset x R))"
  by simp

lemma filter_none: "\<forall>p \<in># M. \<not> P p \<Longrightarrow> filter_mset P M = {#}"
  by (induction M) auto

lemma keys_ok_placed:
  assumes N: "num_ok N" and ok: "keys_ok N t (add_mset old R)" and k: "valid_key N k" "\<not> in_array N t k"
    and new: "\<forall>p \<in># add_mset old R. \<not> holds_key N k p"
  shows "keys_ok N t (add_mset (Key k, v) R)"
  unfolding keys_ok_def
proof (intro conjI allI impI)
  fix a w assume a: "(Key a, w) \<in># add_mset (Key k, v) R" "a \<noteq> Nil_value"
  then show "valid_key N a" "\<not> in_array N t a" using k keys_okD(1) [OF ok, of a w] by auto
next
  fix a assume a: "valid_key N a"
  show "size (filter_mset (holds_key N a) (add_mset (Key k, v) R)) \<le> 1"
  proof (cases "same N k a")
    case True
    have "\<not> holds_key N a p" if "p \<in># R" for p
      using new that rawequal_key_same [OF N True] by (simp add: holds_key_def)
    then have e: "filter_mset (holds_key N a) R = {#}" by (intro filter_none) blast
    have "size (filter_mset (holds_key N a) (add_mset (Key k, v) R)) \<le> Suc (size (filter_mset (holds_key N a) R))" by simp
    then show ?thesis unfolding e by (simp only: size_empty One_nat_def)
  next
    case False
    then have "size (filter_mset (holds_key N a) (add_mset (Key k, v) R)) = size (filter_mset (holds_key N a) R)"
      by (simp add: holds_key_def)
    then show ?thesis using keys_okD(2) [OF ok a] filter_add [of "holds_key N a" R old] by linarith
  qed
qed

lemma keys_ok_cong: "sizearray t = sizearray t' \<Longrightarrow> keys_ok N t = keys_ok N t'"
  by (rule ext) (simp add: keys_ok_def in_array_def)

lemma slot_nil_new:
  "slot_ok N t k nilobject \<Longrightarrow> p \<in># kvs t \<Longrightarrow> \<not> holds_key N k p"
  by (auto simp: slot_ok_def kvs_mem holds_key_def kv_def)

lemma placed_ok:
  assumes N: "num_ok N" and ok: "core_ok N t" and k: "valid_key N k" and s: "slot_ok N t k nilobject"
    and p: "placed N t t' k i"
  shows "core_ok N t'" "entries N t' = entries N t" "slot_ok N t' k (In_node i)" "nkeys (kvs t') \<le> Suc (nkeys (kvs t))"
proof -
  obtain old R where R: "kvs t = add_mset old R" "snd old = Nil_value" "kvs t' = add_mset (Key k, Nil_value) R"
    using p unfolding placed_def by blast
  have same: "array t' = array t" "sizearray t' = sizearray t" using p unfolding placed_def by auto
  have kn: "\<not> in_array N t k" using s by (simp add: slot_ok_def)
  have ko: "keys_ok N t (add_mset old R)" using core_okD(4) [OF ok] R(1) by simp
  have new: "\<forall>p \<in># add_mset old R. \<not> holds_key N k p" using slot_nil_new [OF s] R(1) by simp
  from keys_ok_placed [OF N ko k kn new] have "keys_ok N t' (kvs t')" using R(3) keys_ok_cong [OF same(2)] by metis
  then show "core_ok N t'"
    using p core_okD(2) [OF ok] same unfolding core_ok_def placed_def by (simp add: array_shape_def)
  show "entries N t' = entries N t"
    using R same by (cases old) (auto simp: entries_def array_entries_def hash_entries_def)
  have "rawequal_key N k (i_key (nodes_of t' ! i))" using p same_refl [OF k] unfolding placed_def kv_def by simp
  then show "slot_ok N t' k (In_node i)" using p kn same by (auto simp: slot_ok_def placed_def in_array_def)
  show "nkeys (kvs t') \<le> Suc (nkeys (kvs t))" using R by (simp add: nkeys_def)
qed

lemma snd_kv: "snd (kv n) = i_val n"
  by (simp add: kv_def)

lemma map_kv_update: "i < length xs \<Longrightarrow> kv y = kv (xs ! i) \<Longrightarrow> map kv (xs[i := y]) = map kv xs"
  by (metis list_update_id map_update)

lemma mset_kv_update:
  "i < length xs \<Longrightarrow> mset (map kv (xs[i := y])) = add_mset (kv y) (mset (map kv xs) - {#kv (xs ! i)#})"
  by (simp add: map_update mset_update)

lemma kvs_split: "i < length xs \<Longrightarrow> mset (map kv xs) = add_mset (kv (xs ! i)) (mset (map kv xs) - {#kv (xs ! i)#})"
  by (subst add_mset_remove_trivial_If) (auto intro: image_eqI [of _ kv])

section \<open>Insertion with room\<close>

definition room :: "'n num_ops \<Rightarrow> 'n Table \<Rightarrow> 'n TValue \<Rightarrow> bool" where
  "room N t k \<longleftrightarrow> node t \<noteq> dummynode \<and>
     ((\<exists>i < length (nodes_of t). nokey (nodes_of t ! i)) \<or>
      (\<exists>m < length (nodes_of t). mainposition N t k = Some m \<and> i_val (nodes_of t ! m) = Nil_value))"

lemma put_home:
  assumes ok: "core_ok N t" and nd: "node t = Nodes xs" and m: "mainposition N t k = Some m" "m < length xs"
    "i_val (xs ! m) = Nil_value"
  shows "\<exists>t'. put_key t m k = rreturn (t', In_node m) \<and> placed N t t' k m"
proof -
  let ?ys = "xs[m := (xs ! m)\<lparr>i_key := Key k\<rparr>]"
  let ?t = "t\<lparr>node := Nodes ?ys\<rparr>"
  have xs: "nodes_of t = xs" using nd by (simp add: node_list_def)
  have mp: "mainposition N ?t = mainposition N t" by (rule mainposition_cong) simp
  have c: "chains_ok (mainposition N t) xs" using core_okD(3) [OF ok] xs by simp
  have "chains_ok (mainposition N ?t) ?ys" unfolding mp using place_home [OF c m(2,3,1)] .
  moreover have "k \<noteq> Nil_value" using m(1) by auto
  then have "nodes_shape ?t"
    using core_okD(1) [OF ok] nd m(2) by (auto simp: nodes_shape_def nth_list_update nokey_def)
  moreover have "mset (map kv ?ys) = add_mset (Key k, Nil_value) (mset (map kv xs) - {#kv (xs ! m)#})"
    using mset_kv_update [OF m(2), of "(xs ! m)\<lparr>i_key := Key k\<rparr>"] m(3) by (simp add: kv_def)
  ultimately have "placed N t ?t k m"
    using m kvs_split [OF m(2)] xs unfolding placed_def
    by (auto simp: kvs_def node_list_def kv_def intro!: exI [of _ "kv (xs ! m)"])
  then show ?thesis using nd m(2) by (auto simp: put_key_def set_node_def)
qed

lemma place_in_free:
  assumes ok: "core_ok N t" and nd: "node t = Nodes xs" and m: "mainposition N t k = Some m" "m < length xs"
    "i_val (xs ! m) \<noteq> Nil_value"
    and n: "n < length xs" "nokey (xs ! n)" "\<forall>i. n < i \<longrightarrow> i < length xs \<longrightarrow> \<not> nokey (xs ! i)"
  shows "\<exists>t2 t' i. make_place N (t\<lparr>lastfree := int n\<rparr>) m (xs ! m) n = Some (t2, i) \<and>
    put_key t2 i k = rreturn (t', In_node i) \<and> placed N t t' k i"
proof -
  let ?t = "t\<lparr>lastfree := int n\<rparr>"
  have xs: "nodes_of t = xs" "nodes_of ?t = xs" using nd by (simp_all add: node_list_def)
  have mp: "mainposition N t' = mainposition N t" if "lsizenode t' = lsizenode t" for t'
    by (rule mainposition_cong) (simp add: that)
  have c: "chains_ok (mainposition N t) xs" using core_okD(3) [OF ok] xs by simp
  have c1: "chains_ok (mainposition N ?t) (nodes_of ?t)" using c xs(2) mp [of ?t] by simp
  have nv: "i_val (xs ! n) = Nil_value" "i_next (xs ! n) = None" using chains_okD(3) [OF c n(1,2)] by auto
  have ne: "n \<noteq> m" using nv m(3) by auto
  have k: "k \<noteq> Nil_value" using m(1) by auto
  obtain a where a: "i_key (xs ! m) = Key a" using chains_okD(5) [OF c m(2,3)] by blast
  have mk: "\<not> nokey (xs ! m)" using chains_okD(3) [OF c m(2)] m(3) by auto
  obtain h where h: "mainposition N t a = Some h" "(h, m) \<in> (links xs)\<^sup>*" "at_home (mainposition N t) xs h"
    using chains_okD(4) [OF c m(2) mk] a by auto
  have sh: "length xs = 2 ^ lsizenode t" "lsizenode t \<le> 26" using core_okD(1) [OF ok] nd by (auto simp: nodes_shape_def)
  have shape: "nodes_shape (t\<lparr>lastfree := int n, node := Nodes ys\<rparr>)"
    if "length ys = length xs" "\<And>i. i < length xs \<Longrightarrow> nokey (ys ! i) \<Longrightarrow> nokey (xs ! i) \<and> i \<noteq> n" for ys
    using that sh n(1) n(3) unfolding nodes_shape_def by (fastforce simp: of_nat_less_iff [symmetric])
  show ?thesis
  proof (cases "h = m")
    case True
    let ?y = "(xs ! n)\<lparr>i_next := i_next (xs ! m)\<rparr>" and ?z = "(xs ! m)\<lparr>i_next := Some n\<rparr>"
    let ?ys = "xs[n := ?y\<lparr>i_key := Key k\<rparr>, m := ?z]"
    let ?t' = "?t\<lparr>node := Nodes ?ys\<rparr>"
    have home: "at_home (mainposition N t) xs m" using h(3) True by simp
    have "make_place N ?t m (xs ! m) n = Some (?t\<lparr>node := Nodes (xs[n := ?y, m := ?z])\<rparr>, n)"
      using a h(1) True nd m(2) n(1) ne mp [of ?t] by (simp add: make_place_def set_node_def)
    moreover have "put_key (?t\<lparr>node := Nodes (xs[n := ?y, m := ?z])\<rparr>) n k = rreturn (?t', In_node n)"
      using n(1) ne by (simp add: put_key_def set_node_def list_update_swap)
    moreover have "placed N t ?t' k n"
      unfolding placed_def
    proof (intro conjI)
      show "chains_ok (mainposition N ?t') (nodes_of ?t')"
        using place_free [OF c home m(1) n(1,2)] mp [of ?t'] by (simp add: node_list_def)
      have "nokey (?ys ! i) \<Longrightarrow> nokey (xs ! i) \<and> i \<noteq> n" if "i < length xs" for i
        using that k mk n(1) ne by (cases "i = m"; cases "i = n") (auto simp: nokey_def)
      then show "nodes_shape ?t'" by (intro shape) simp_all
      have e: "map kv ?ys = map kv (xs[n := ?y\<lparr>i_key := Key k\<rparr>])"
        using m(2) ne by (intro map_kv_update) (simp_all add: kv_def)
      show "\<exists>old R. kvs t = add_mset old R \<and> snd old = Nil_value \<and> kvs ?t' = add_mset (Key k, Nil_value) R"
        using kvs_split [OF n(1)] mset_kv_update [OF n(1), of "?y\<lparr>i_key := Key k\<rparr>"] nv(1) xs e
        by (intro exI [of _ "kv (xs ! n)"] exI [of _ "mset (map kv xs) - {#kv (xs ! n)#}"])
          (simp add: kvs_def node_list_def kv_def)
    qed (use n(1) ne nv in \<open>simp_all add: node_list_def kv_def\<close>)
    ultimately show ?thesis by blast
  next
    case False
    have "(h, m) \<in> (links xs)\<^sup>+" using h(2) False by (metis rtranclD)
    then obtain p where p: "find_previous ?t h m = Some p" "(p, m) \<in> links xs"
      using find_previous_ok [OF c1] xs(2) by metis
    have pl: "p < length xs" using p(2) by (simp add: links_def)
    have pn: "p \<noteq> n" using p(2) nv by (auto simp: links_def)
    have pm: "p \<noteq> m" using chains_rank [OF c] p(2) by (metis less_irrefl)
    let ?x = "(xs ! p)\<lparr>i_next := Some n\<rparr>" and ?z = "(xs ! m)\<lparr>i_next := None, i_val := Nil_value\<rparr>"
    let ?ys = "xs[p := ?x, n := xs ! m, m := ?z\<lparr>i_key := Key k\<rparr>]"
    let ?t' = "?t\<lparr>node := Nodes ?ys\<rparr>"
    have away: "\<not> at_home (mainposition N t) xs m" using a h(1) False by (simp add: at_home_def)
    have "make_place N ?t m (xs ! m) n = Some (?t\<lparr>node := Nodes (xs[p := ?x, n := xs ! m, m := ?z])\<rparr>, m)"
      using a h(1) False nd m(2) n(1) ne p pl pn pm mp [of ?t]
      by (simp add: make_place_def set_node_def gnode_def)
    moreover have "put_key (?t\<lparr>node := Nodes (xs[p := ?x, n := xs ! m, m := ?z])\<rparr>) m k = rreturn (?t', In_node m)"
      using m(2) by (simp add: put_key_def set_node_def)
    moreover have "placed N t ?t' k m"
      unfolding placed_def
    proof (intro conjI)
      show "chains_ok (mainposition N ?t') (nodes_of ?t')"
        using place_moved [OF c m(2,1) away n(1,2) p(2)] mp [of ?t'] by (simp add: node_list_def)
      have "nokey (?ys ! i) \<Longrightarrow> nokey (xs ! i) \<and> i \<noteq> n" if "i < length xs" for i
        using that k mk n(1) ne pn pm by (cases "i = m"; cases "i = n"; cases "i = p") (auto simp: nokey_def)
      then show "nodes_shape ?t'" by (intro shape) simp_all
      have e: "map kv (xs[p := ?x]) = map kv xs" using pl by (intro map_kv_update) (simp_all add: kv_def)
      have "mset (map kv ?ys) = add_mset (Key k, Nil_value) (mset (map kv (xs[p := ?x, n := xs ! m])) - {#kv (xs ! m)#})"
        using m(2) ne pm mset_kv_update [of m "xs[p := ?x, n := xs ! m]"] by (simp add: kv_def)
      also have "mset (map kv (xs[p := ?x, n := xs ! m])) = add_mset (kv (xs ! m)) (mset (map kv xs) - {#kv (xs ! n)#})"
        using n(1) pn e mset_kv_update [of n "xs[p := ?x]"] by simp
      finally show "\<exists>old R. kvs t = add_mset old R \<and> snd old = Nil_value \<and> kvs ?t' = add_mset (Key k, Nil_value) R"
        using kvs_split [OF n(1)] nv(1) xs(1) snd_kv [of "xs ! n"]
        by (intro exI [of _ "kv (xs ! n)"] exI [of _ "mset (map kv xs) - {#kv (xs ! n)#}"])
          (simp add: kvs_def node_list_def)
    qed (use m(2) in \<open>simp_all add: node_list_def kv_def\<close>)
    ultimately show ?thesis by blast
  qed
qed

lemma newkey_room:
  assumes ok: "core_ok N t" and k: "valid_key N k" and r: "room N t k"
  shows "\<exists>t' i. newkey N gr t k = rreturn (t', In_node i) \<and> placed N t t' k i"
proof -
  obtain xs where nd: "node t = Nodes xs" using r by (cases "node t") (auto simp: room_def)
  have xs: "nodes_of t = xs" using nd by (simp add: node_list_def)
  have kk: "k \<noteq> Nil_value" "k \<noteq> Null_string" using k by auto
  obtain m where m: "mainposition N t k = Some m" "m < length xs"
    using mainposition_less [OF core_okD(1) [OF ok] kk] xs by metis
  have g: "gnode t m = Some (xs ! m)" using nd m(2) by (simp add: gnode_def)
  show ?thesis
  proof (cases "i_val (xs ! m) = Nil_value")
    case True
    then have "newkey N gr t k = put_key t m k" using m g nd by (subst newkey.simps) simp
    then show ?thesis using put_home [OF ok nd m True] by auto
  next
    case False
    have lf: "lastfree t \<le> int (length xs)" "\<forall>i < length xs. lastfree t \<le> int i \<longrightarrow> \<not> nokey (xs ! i)"
      using core_okD(1) [OF ok] nd by (auto simp: nodes_shape_def)
    obtain i where i: "i < length xs" "nokey (xs ! i)" using r m False xs by (auto simp: room_def)
    obtain l fr where fr: "getfreepos t = Some (t\<lparr>lastfree := l\<rparr>, fr)"
      "case fr of
         None \<Rightarrow> l \<le> lastfree t \<and> (\<forall>i. int i < lastfree t \<longrightarrow> \<not> nokey (xs ! i))
       | Some n \<Rightarrow> n < length xs \<and> nokey (xs ! n) \<and> l = int n \<and> l < lastfree t \<and>
           (\<forall>i. n < i \<longrightarrow> int i < lastfree t \<longrightarrow> \<not> nokey (xs ! i))"
      using getfreepos_ok [OF nd lf(1)] by blast
    obtain n where n: "fr = Some n" using fr(2) i lf(2) by (cases fr) (auto simp: not_le [symmetric])
    have n2: "n < length xs" "nokey (xs ! n)" "l = int n" "\<forall>i. n < i \<longrightarrow> i < length xs \<longrightarrow> \<not> nokey (xs ! i)"
      using fr(2) n lf(2) by (auto simp: not_le [symmetric])
    from place_in_free [OF ok nd m False n2(1,2,4)] obtain t2 t' j where
      p: "make_place N (t\<lparr>lastfree := int n\<rparr>) m (xs ! m) n = Some (t2, j)"
      "put_key t2 j k = rreturn (t', In_node j)" "placed N t t' k j" by blast
    have "newkey N gr t k = rreturn (t', In_node j)"
      using m(1) g False fr(1) n n2(3) p by (subst newkey.simps) simp
    then show ?thesis using p(3) by blast
  qed
qed

section \<open>Writing to a slot\<close>

lemma write_node_ok:
  assumes N: "num_ok N" and ok: "core_ok N t" and k: "valid_key N k" and i: "slot_ok N t k (In_node i)"
  shows "\<exists>t' a R. write_ref t (In_node i) v = Some t' \<and> core_ok N t' \<and> a = (case i_key (nodes_of t ! i) of Key a \<Rightarrow> a) \<and>
    i_key (nodes_of t ! i) = Key a \<and> same N a k \<and>
    kvs t = add_mset (Key a, i_val (nodes_of t ! i)) R \<and> kvs t' = add_mset (Key a, v) R \<and>
    (\<forall>p \<in># R. \<not> holds_key N k p) \<and> array t' = array t \<and> sizearray t' = sizearray t \<and>
    flags t' = flags t \<and> node t' \<noteq> dummynode"
proof -
  let ?xs = "nodes_of t"
  have il: "i < length ?xs" "rawequal_key N k (i_key (?xs ! i))" "\<not> in_array N t k" using i by (auto simp: slot_ok_def)
  obtain a where a: "i_key (?xs ! i) = Key a" "same N a k" using il(2) by (auto simp: rawequal_key_iff)
  have va: "valid_key N a" using same_valid [OF N same_sym [OF N a(2)] k] .
  have na: "\<not> nokey (?xs ! i)" using va a by (auto simp: nokey_def)
  have "node t \<noteq> dummynode" using na il(1) by (auto simp: node_list_def nokey_def empty_node_def)
  then have nd: "node t = Nodes ?xs" by (cases "node t") (simp_all add: node_list_def)
  let ?ys = "?xs[i := (?xs ! i)\<lparr>i_val := v\<rparr>]"
  let ?t = "t\<lparr>node := Nodes ?ys\<rparr>"
  let ?R = "kvs t - {#kv (?xs ! i)#}"
  have w: "write_ref t (In_node i) v = Some ?t" using nd il(1) by (cases "node t") (auto simp: set_node_def)
  have ys: "nodes_of ?t = ?ys" by (simp add: node_list_def)
  have kvi: "kv (?xs ! i) = (Key a, i_val (?xs ! i))" using a by (simp add: kv_def)
  have R: "kvs t = add_mset (Key a, i_val (?xs ! i)) ?R"
    using kvs_split [OF il(1)] kvi by (simp add: kvs_def)
  have R': "kvs ?t = add_mset (Key a, v) ?R"
    using mset_kv_update [OF il(1), of "(?xs ! i)\<lparr>i_val := v\<rparr>"] a(1) unfolding kvs_def ys by (simp add: kv_def)
  have none: "\<forall>p \<in># ?R. \<not> holds_key N k p"
  proof (rule ccontr)
    assume "\<not> (\<forall>p \<in># ?R. \<not> holds_key N k p)"
    then obtain p S where "?R = add_mset p S" "holds_key N k p" by (metis mset_add)
    then have "size (filter_mset (holds_key N k) (kvs t)) \<ge> 2"
      by (subst R) (simp add: holds_key_def a(2))
    then show False using keys_okD(2) [OF core_okD(4) [OF ok] k] by simp
  qed
  have nth: "?ys ! j = (if j = i then (?xs ! i)\<lparr>i_val := v\<rparr> else ?xs ! j)" if "j < length ?xs" for j
    using that il(1) by (simp add: nth_list_update)
  have l: "links ?ys = links ?xs" using il(1) by (auto simp: links_def nth_list_update split: if_splits)
  have ky: "i_key (?ys ! j) = i_key (?xs ! j)" if "j < length ?xs" for j using that by (simp add: nth)
  have hm: "at_home mp ?ys j \<longleftrightarrow> at_home mp ?xs j" for mp j by (auto simp: at_home_def ky)
  have nk: "nokey (?ys ! j) \<longleftrightarrow> nokey (?xs ! j)" if "j < length ?xs" for j using that by (simp add: nokey_def ky)
  have c: "chains_ok (mainposition N t) ?xs" by (rule core_okD(3) [OF ok])
  have "chains_ok (mainposition N t) ?ys" unfolding chains_ok_def l hm
  proof (intro conjI allI impI)
    show "\<exists>rank :: nat \<Rightarrow> nat. \<forall>i j. (i, j) \<in> links ?xs \<longrightarrow> rank j < rank i" using chains_rank [OF c] by metis
    fix p q assume "(p, q) \<in> links ?xs"
    then show "q < length ?ys" "\<not> nokey (?ys ! q)" using chains_okD(1) [OF c] nk by auto
  next
    fix p p' q assume "(p, q) \<in> links ?xs" "(p', q) \<in> links ?xs"
    then show "p = p'" by (rule chains_okD(2) [OF c])
  next
    fix j assume j: "j < length ?ys" "nokey (?ys ! j)"
    then have "nokey (?xs ! j)" "j \<noteq> i" using nk na by auto
    then show "i_next (?ys ! j) = None" "i_val (?ys ! j) = Nil_value"
      using chains_okD(3) [OF c, of j] j(1) by (simp_all add: nth)
  next
    fix j assume j: "j < length ?ys" "\<not> nokey (?ys ! j)"
    then show "\<exists>m. mainposition N t (kval (i_key (?ys ! j))) = Some m \<and> (m, j) \<in> (links ?xs)\<^sup>* \<and> at_home (mainposition N t) ?xs m"
      using chains_okD(4) [OF c, of j] by (simp add: ky nk)
  next
    fix j assume j: "j < length ?ys" "i_val (?ys ! j) \<noteq> Nil_value"
    then show "\<exists>k. i_key (?ys ! j) = Key k" using a(1) chains_okD(5) [OF c, of j] by (cases "j = i") (auto simp: nth)
  qed (rule chains_okD(6) [OF c])
  moreover have "mainposition N ?t = mainposition N t" by (rule mainposition_cong) simp
  moreover have "nodes_shape ?t" using core_okD(1) [OF ok] nd nk by (cases "node t") (auto simp: nodes_shape_def)
  moreover have "keys_ok N ?t (kvs ?t)"
  proof -
    have "keys_ok N t (kvs ?t)" unfolding keys_ok_def
    proof (intro conjI allI impI)
      fix b w assume b: "(Key b, w) \<in># kvs ?t" "b \<noteq> Nil_value"
      then have "\<exists>w. (Key b, w) \<in># kvs t" 
      proof -
        have "(Key b, w) = (Key a, v) \<or> (Key b, w) \<in># ?R" using b(1) unfolding R' by simp
        then show ?thesis
        proof
          assume "(Key b, w) = (Key a, v)"
          then show ?thesis by (subst R) auto
        qed (subst R, auto)
      qed
      then show "valid_key N b" "\<not> in_array N t b" using keys_okD(1) [OF core_okD(4) [OF ok]] b(2) by auto
    next
      fix b assume "valid_key N b"
      from keys_okD(2) [OF core_okD(4) [OF ok] this] show "size (filter_mset (holds_key N b) (kvs ?t)) \<le> 1"
        by (subst R') (subst (asm) R, simp add: holds_key_def split: if_splits)
    qed
    then show ?thesis using keys_ok_cong [of t ?t N] by simp
  qed
  ultimately have "core_ok N ?t" using core_okD(2) [OF ok] unfolding core_ok_def ys by (simp add: array_shape_def)
  then show ?thesis using w a R R' none by (intro exI [of _ ?t] exI [of _ a] exI [of _ ?R]) simp
qed

text \<open>Every key that the hash part holds has a value, as in a table just resized.\<close>

definition full :: "'n Table \<Rightarrow> bool" where
  "full t \<longleftrightarrow> (\<forall>a w. (Key a, w) \<in># kvs t \<longrightarrow> a \<noteq> Nil_value \<longrightarrow> w \<noteq> Nil_value)"

definition stored_key :: "'n Table \<Rightarrow> tvref \<Rightarrow> 'n TValue \<Rightarrow> 'n TValue" where
  "stored_key t r k = (case r of In_node i \<Rightarrow> kval (i_key (nodes_of t ! i)) | _ \<Rightarrow> k)"

text \<open>The parts of a table that a write leaves alone.\<close>

definition same_frame :: "'n Table \<Rightarrow> 'n Table \<Rightarrow> bool" where
  "same_frame t t' \<longleftrightarrow> sizearray t' = sizearray t \<and> length (array t') = length (array t) \<and>
     (\<forall>j. sizearray t \<le> int j \<longrightarrow> array t' ! j = array t ! j) \<and> lsizenode t' = lsizenode t \<and>
     (node t' = dummynode \<longleftrightarrow> node t = dummynode)"

lemma same_frame_refl [simp]: "same_frame t t"
  by (simp add: same_frame_def)

lemma same_frame_trans: "same_frame t u \<Longrightarrow> same_frame u v \<Longrightarrow> same_frame t v"
  by (simp add: same_frame_def)

lemma same_frame_in_array: "same_frame t t' \<Longrightarrow> in_array N t' k = in_array N t k"
  by (simp add: same_frame_def in_array_def)

lemma array_entries_update:
  assumes N: "num_ok N" and sh: "array_shape t" and k: "in_array N t k" and i: "i = nat (arrayindex N k - 1)"
  shows "(k', w) \<in> array_entries N (t\<lparr>array := (array t)[i := v]\<rparr>) \<longleftrightarrow>
    (if same N k' k then v \<noteq> Nil_value \<and> k' = k \<and> w = v else (k', w) \<in> array_entries N t)"
proof -
  have ai: "int i + 1 = arrayindex N k" "int i < sizearray t" "i < length (array t)"
    using k sh i by (auto simp: in_array_def array_shape_def)
  have kk: "k = Number (cast_num N (int i + 1))"
    using arrayindex_key(1) [OF N, of k] k ai(1) by (auto simp: in_array_def)
  have j: "numeq N (cast_num N (int j + 1)) (cast_num N (int i + 1)) \<longleftrightarrow> j = i" if "int j < sizearray t" for j
  proof -
    have "is_int (int j + 1)" "is_int (int i + 1)"
      using that ai(2) MAXASIZE_bounds [OF sh] by (auto simp: is_int_def)
    from num_okD(4) [OF N this] show ?thesis by simp
  qed
  have "(k', w) \<in> array_entries N (t\<lparr>array := (array t)[i := v]\<rparr>) \<longleftrightarrow>
      (\<exists>j. int j < sizearray t \<and> k' = Number (cast_num N (int j + 1)) \<and> w = (if j = i then v else array t ! j) \<and> w \<noteq> Nil_value)"
    using ai(3) by (auto simp: array_entries_def nth_list_update)
  also have "\<dots> \<longleftrightarrow> (if same N k' k then v \<noteq> Nil_value \<and> k' = k \<and> w = v else (k', w) \<in> array_entries N t)"
    unfolding kk array_entries_def same_numbers using j ai(2) by (auto split: if_splits)
  finally show ?thesis .
qed

lemma nodes_shape_cong:
  "node t' = node t \<Longrightarrow> lsizenode t' = lsizenode t \<Longrightarrow> lastfree t' = lastfree t \<Longrightarrow> nodes_shape t' = nodes_shape t"
  by (cases "node t") (simp_all add: nodes_shape_def)

lemma core_ok_cong:
  assumes "core_ok N t" "node t' = node t" "lsizenode t' = lsizenode t" "lastfree t' = lastfree t"
    "sizearray t' = sizearray t" "sizearray t \<le> int (length (array t'))"
  shows "core_ok N t'"
  using assms nodes_shape_cong [OF assms(2-4)] mainposition_cong [OF assms(3), of N] keys_ok_cong [OF assms(5), of N]
  by (simp add: core_ok_def kvs_def array_shape_def)

lemma entry_key_array: "num_ok N \<Longrightarrow> core_ok N t \<Longrightarrow> same N k' k \<Longrightarrow> in_array N t k \<Longrightarrow> (k', w) \<notin> hash_entries (kvs t)"
  using hash_entry(2) same_in_array by metis

lemma entry_key_hash: "num_ok N \<Longrightarrow> core_ok N t \<Longrightarrow> same N k' k \<Longrightarrow> \<not> in_array N t k \<Longrightarrow> (k', w) \<notin> array_entries N t"
  using array_entry(1) core_okD(2) same_in_array by metis

lemma write_slot:
  assumes N: "num_ok N" and ok: "core_ok N t" and k: "valid_key N k" and s: "slot_ok N t k r" and r: "r \<noteq> nilobject"
  shows "\<exists>t'. write_ref t r v = Some t' \<and> core_ok N t' \<and> same_frame t t' \<and> flags t' = flags t \<and>
    same N (stored_key t r k) k \<and> nkeys (kvs t') = nkeys (kvs t) \<and> (v \<noteq> Nil_value \<longrightarrow> full t \<longrightarrow> full t') \<and>
    (\<forall>k' w. (k', w) \<in> entries N t' \<longleftrightarrow>
      (if same N k' k then v \<noteq> Nil_value \<and> k' = stored_key t r k \<and> w = v else (k', w) \<in> entries N t))"
proof (cases r)
  case nilobject
  then show ?thesis using r by simp
next
  case (In_array i)
  then have i: "in_array N t k" "i = nat (arrayindex N k - 1)" using s by (auto simp: slot_ok_def)
  let ?t = "t\<lparr>array := (array t)[i := v]\<rparr>"
  have il: "i < length (array t)" "int i < sizearray t" using i core_okD(2) [OF ok] by (auto simp: in_array_def array_shape_def)
  have kv: "kvs ?t = kvs t" by (simp add: kvs_def)
  have "core_ok N ?t" using core_okD(2) [OF ok] by (intro core_ok_cong [OF ok]) (simp_all add: array_shape_def)
  moreover have "(k', w) \<in> entries N ?t \<longleftrightarrow>
      (if same N k' k then v \<noteq> Nil_value \<and> k' = k \<and> w = v else (k', w) \<in> entries N t)" for k' w
    using array_entries_update [OF N core_okD(2) [OF ok] i, of k' w v] entry_key_array [OF N ok _ i(1)]
    unfolding entries_def kv by auto
  ultimately show ?thesis
    using In_array il same_refl [OF k] kv by (auto simp: stored_key_def same_frame_def full_def)
next
  case (In_node i)
  from s In_node have si: "slot_ok N t k (In_node i)" by simp
  obtain t' a R where w: "write_ref t (In_node i) v = Some t'" "core_ok N t'" "i_key (nodes_of t ! i) = Key a" "same N a k"
    "kvs t = add_mset (Key a, i_val (nodes_of t ! i)) R" "kvs t' = add_mset (Key a, v) R" "\<forall>p \<in># R. \<not> holds_key N k p"
    "array t' = array t" "sizearray t' = sizearray t" "flags t' = flags t" "node t' \<noteq> dummynode"
    using write_node_ok [OF N ok k si] by blast
  have ls: "lsizenode t' = lsizenode t" "node t \<noteq> dummynode"
    using w(1) by (auto simp: set_node_def split: nodes.splits if_splits)
  have nin: "\<not> in_array N t k" using si by (simp add: slot_ok_def)
  have st: "stored_key t r k = a" using In_node w(3) by (simp add: stored_key_def)
  have ae: "array_entries N t' = array_entries N t" using w(8,9) by (simp add: array_entries_def)
  have "\<not> same N k' k" if "(Key k', x) \<in># R" for k' x using w(7) that by (force simp: holds_key_def)
  then have "(k', x) \<in> entries N t' \<longleftrightarrow>
      (if same N k' k then v \<noteq> Nil_value \<and> k' = a \<and> x = v else (k', x) \<in> entries N t)" for k' x
    using entry_key_hash [OF N ok _ nin, of k' x] w(4) unfolding entries_def ae hash_entries_def w(5,6) by auto
  moreover have "full t'" if "full t" "v \<noteq> Nil_value" using that w(5,6) by (auto simp: full_def)
  moreover have "nkeys (kvs t') = nkeys (kvs t)" using w(5,6) by (simp add: nkeys_def)
  ultimately show ?thesis
    using In_node w ls st by (intro exI [of _ t']) (simp add: same_frame_def)
qed

section \<open>One insertion\<close>

definition inserted :: "'n num_ops \<Rightarrow> 'n Table \<Rightarrow> 'n Table \<Rightarrow> 'n TValue \<Rightarrow> 'n TValue \<Rightarrow> bool" where
  "inserted N t t' k v \<longleftrightarrow> core_ok N t' \<and> full t' \<and> same_frame t t' \<and> entries N t' = insert (k, v) (entries N t) \<and>
     nkeys (kvs t') \<le> nkeys (kvs t) + (if in_array N t k then 0 else 1)"

lemma insert_slot:
  assumes N: "num_ok N" and ok: "core_ok N t" and k: "valid_key N k" and p: "slot_ok N t k p"
    and rm: "in_array N t k \<or> room N t k" and new: "\<forall>k' w. (k', w) \<in> entries N t \<longrightarrow> \<not> same N k' k"
    and fl: "full t" and v: "v \<noteq> Nil_value"
  shows "\<exists>t1 r t2. (if p \<noteq> nilobject then rreturn (t, p) else newkey N gr t k) = rreturn (t1, r) \<and>
    write_ref t1 r v = Some t2 \<and> array t1 = array t \<and> inserted N t t2 k v"
proof (cases p)
  case (In_array i)
  then have ia: "in_array N t k" using p by (simp add: slot_ok_def)
  obtain t2 where w: "write_ref t p v = Some t2" "core_ok N t2" "same_frame t t2" "same N (stored_key t p k) k"
    "nkeys (kvs t2) = nkeys (kvs t)" "full t2" "\<forall>k' w. (k', w) \<in> entries N t2 \<longleftrightarrow>
      (if same N k' k then v \<noteq> Nil_value \<and> k' = stored_key t p k \<and> w = v else (k', w) \<in> entries N t)"
    using write_slot [OF N ok k p, of v] In_array fl v by auto
  have "stored_key t p k = k" using In_array by (simp add: stored_key_def)
  then have "(a, b) \<in> entries N t2 \<longleftrightarrow> (a, b) \<in> insert (k, v) (entries N t)" for a b
    using w(7) v new same_refl [OF k] by auto
  then have "entries N t2 = insert (k, v) (entries N t)" by auto
  then have "inserted N t t2 k v" using w unfolding inserted_def by simp
  then show ?thesis using In_array w(1) by (intro exI [of _ t] exI [of _ p] exI [of _ t2]) simp
next
  case (In_node i)
  then have "i < length (nodes_of t)" "rawequal_key N k (i_key (nodes_of t ! i))" using p by (auto simp: slot_ok_def)
  then obtain a where i: "i < length (nodes_of t)" "kv (nodes_of t ! i) = (Key a, i_val (nodes_of t ! i))" and sk: "same N a k"
    by (auto simp: rawequal_key_iff kv_def)
  have a: "(Key a, i_val (nodes_of t ! i)) \<in># kvs t" "same N a k" using i sk unfolding kvs_mem by metis+
  have "a \<noteq> Nil_value" using same_valid [OF N same_sym [OF N a(2)] k] by auto
  then have "i_val (nodes_of t ! i) \<noteq> Nil_value" using fl a(1) by (auto simp: full_def)
  then have "(a, i_val (nodes_of t ! i)) \<in> entries N t" using a(1) by (auto simp: entries_def hash_entries_def)
  then show ?thesis using new a(2) by blast
next
  case nilobject
  then have nin: "\<not> in_array N t k" and s: "slot_ok N t k nilobject" using p by (auto simp: slot_ok_def)
  obtain t1 i where t1: "newkey N gr t k = rreturn (t1, In_node i)" "placed N t t1 k i"
    using newkey_room [OF ok k, of gr] rm nin by blast
  note pl = placed_ok [OF N ok k s t1(2)]
  obtain old R where R: "kvs t = add_mset old R" "kvs t1 = add_mset (Key k, Nil_value) R" "array t1 = array t"
    "sizearray t1 = sizearray t" "lsizenode t1 = lsizenode t" "node t1 \<noteq> dummynode" "kv (nodes_of t1 ! i) = (Key k, Nil_value)"
    using t1(2) unfolding placed_def by blast
  have nd: "node t \<noteq> dummynode" using rm nin by (simp add: room_def)
  obtain t2 where w: "write_ref t1 (In_node i) v = Some t2" "core_ok N t2" "same_frame t1 t2"
    "nkeys (kvs t2) = nkeys (kvs t1)" "\<forall>k' w. (k', w) \<in> entries N t2 \<longleftrightarrow>
      (if same N k' k then v \<noteq> Nil_value \<and> k' = stored_key t1 (In_node i) k \<and> w = v else (k', w) \<in> entries N t1)"
    using write_slot [OF N pl(1) k pl(3), of v] by auto
  have "kvs t2 = add_mset (Key k, v) R"
    using write_node_ok [OF N pl(1) k pl(3), of v] w(1) R(2,7) by (auto simp: kv_def)
  then have "full t2" using fl v R(1) unfolding full_def by auto
  moreover have "stored_key t1 (In_node i) k = k" using R(7) by (simp add: stored_key_def kv_def)
  then have "(a, b) \<in> entries N t2 \<longleftrightarrow> (a, b) \<in> insert (k, v) (entries N t)" for a b
    using w(5) v new pl(2) same_refl [OF k] by auto
  then have "entries N t2 = insert (k, v) (entries N t)" by auto
  moreover have "same_frame t t1" using R nd by (simp add: same_frame_def)
  then have "same_frame t t2" using w(3) same_frame_trans by blast
  ultimately have "inserted N t t2 k v" using w(2,4) pl(4) nin unfolding inserted_def by simp
  then show ?thesis using nilobject t1(1) w(1) R(3)
    by (intro exI [of _ t1] exI [of _ "In_node i"] exI [of _ t2]) simp
qed

lemma flags_frame:
  "core_ok N t \<Longrightarrow> core_ok N (t\<lparr>flags := f\<rparr>)" "slot_ok N (t\<lparr>flags := f\<rparr>) k p = slot_ok N t k p"
  "entries N (t\<lparr>flags := f\<rparr>) = entries N t" "kvs (t\<lparr>flags := f\<rparr>) = kvs t" "full (t\<lparr>flags := f\<rparr>) = full t"
  "in_array N (t\<lparr>flags := f\<rparr>) k = in_array N t k"
proof -
  show "core_ok N t \<Longrightarrow> core_ok N (t\<lparr>flags := f\<rparr>)" by (rule core_ok_cong) (auto dest: core_okD(2) simp: array_shape_def)
  show kv: "kvs (t\<lparr>flags := f\<rparr>) = kvs t" by (simp add: kvs_def)
  show ia: "in_array N (t\<lparr>flags := f\<rparr>) k = in_array N t k" for k by (simp add: in_array_def)
  show "slot_ok N (t\<lparr>flags := f\<rparr>) k p = slot_ok N t k p" by (cases p) (simp_all add: slot_ok_def ia)
  show "entries N (t\<lparr>flags := f\<rparr>) = entries N t" by (simp add: entries_def array_entries_def kv)
  show "full (t\<lparr>flags := f\<rparr>) = full t" by (simp add: full_def kv)
qed

lemma room_flags: "room N (t\<lparr>flags := f\<rparr>) k = room N t k"
  using mainposition_cong [of "t\<lparr>flags := f\<rparr>" t N] by (simp add: room_def)

lemma set_room:
  assumes N: "num_ok N" and ok: "core_ok N t" and k: "valid_key N k"
    and rm: "in_array N t k \<or> room N t k" and new: "\<forall>k' w. (k', w) \<in> entries N t \<longrightarrow> \<not> same N k' k"
    and fl: "full t" and v: "v \<noteq> Nil_value"
  shows "\<exists>t1 r t2. set_with (newkey N gr) N t k = rreturn (t1, r) \<and>
    write_ref t1 r v = Some t2 \<and> array t1 = array t \<and> inserted N t t2 k v"
proof -
  let ?t = "t\<lparr>flags := 0\<rparr>"
  obtain p where p: "luaH_get N t k = Some p" "slot_ok N t k p" using luaH_get_slot [OF N ok k] by blast
  have "set_with (newkey N gr) N t k = (if p \<noteq> nilobject then rreturn (?t, p) else newkey N gr ?t k)"
    using k p(1) by (cases k) (auto simp: set_with_def numisnan_def)
  moreover have "\<exists>t1 r t2. (if p \<noteq> nilobject then rreturn (?t, p) else newkey N gr ?t k) = rreturn (t1, r) \<and>
    write_ref t1 r v = Some t2 \<and> array t1 = array ?t \<and> inserted N ?t t2 k v"
    using N flags_frame(1) [OF ok] k p(2) rm new fl v
    by (intro insert_slot) (simp_all add: flags_frame room_flags)
  ultimately show ?thesis by (simp add: inserted_def flags_frame same_frame_def)
qed

lemma setnum_room:
  assumes N: "num_ok N" and ok: "core_ok N t" and k: "is_int k"
    and rm: "in_array N t (Number (cast_num N k)) \<or> room N t (Number (cast_num N k))"
    and new: "\<forall>k' w. (k', w) \<in> entries N t \<longrightarrow> \<not> same N k' (Number (cast_num N k))"
    and fl: "full t" and v: "v \<noteq> Nil_value"
  shows "\<exists>t1 r t2. setnum_with (newkey N gr) N t k = rreturn (t1, r) \<and>
    write_ref t1 r v = Some t2 \<and> array t1 = array t \<and> inserted N t t2 (Number (cast_num N k)) v"
proof -
  obtain p where p: "luaH_getnum N t k = Some p" "slot_ok N t (Number (cast_num N k)) p"
    using luaH_getnum_slot [OF N ok k] by blast
  then show ?thesis
    using insert_slot [OF N ok valid_cast [OF N k] p(2) rm new fl v, of gr] by (simp add: setnum_with_def)
qed

end
