(* ===== verification/LuaTableResize.thy ===== *)
theory LuaTableResize
  imports LuaTableInsert
begin

text \<open>
  Resizing.  The entries that are moved are a list of pairs still to insert; while the list fits in
  the hash part an insertion never calls the rehash again, so the resize ends and keeps every entry.
\<close>

section \<open>Entries to insert\<close>

definition capacity :: "'n Table \<Rightarrow> nat" where
  "capacity t = (if node t = dummynode then 0 else length (nodes_of t))"

definition pending :: "'n num_ops \<Rightarrow> nat \<Rightarrow> 'n Table \<Rightarrow> ('n TValue \<times> 'n TValue) list \<Rightarrow> bool" where
  "pending N c t ps \<longleftrightarrow> core_ok N t \<and> full t \<and>
     (\<forall>(k, v) \<in> set ps. valid_key N k \<and> v \<noteq> Nil_value \<and> (\<forall>k' w. (k', w) \<in> entries N t \<longrightarrow> \<not> same N k' k)) \<and>
     sorted_wrt (\<lambda>p q. \<not> same N (fst p) (fst q)) ps \<and>
     nkeys (kvs t) + length (filter (\<lambda>p. \<not> in_array N t (fst p)) ps) \<le> c \<and> c \<le> capacity t"

lemma nkeys_filter: "nkeys (mset (map kv xs)) = length (filter (\<lambda>n. \<not> nokey n) xs)"
  by (induction xs) (simp_all add: nkeys_def nokey_def kv_def)

lemma nkeys_room:
  assumes "nkeys (kvs t) < capacity t"
  shows "room N t k"
proof -
  have "length (filter (\<lambda>n. \<not> nokey n) (nodes_of t)) < length (nodes_of t)"
    using assms unfolding kvs_def nkeys_filter capacity_def by (simp split: if_splits)
  then have "\<exists>n \<in> set (nodes_of t). nokey n" by (metis filter_True less_irrefl)
  then show ?thesis using assms by (auto simp: room_def capacity_def in_set_conv_nth split: if_splits)
qed

lemma pendingD:
  assumes "pending N c t ((k, v) # ps)"
  shows "core_ok N t" "full t" "valid_key N k" "v \<noteq> Nil_value" "\<forall>k' w. (k', w) \<in> entries N t \<longrightarrow> \<not> same N k' k"
    "in_array N t k \<or> room N t k"
proof -
  show "core_ok N t" "full t" "valid_key N k" "v \<noteq> Nil_value" "\<forall>k' w. (k', w) \<in> entries N t \<longrightarrow> \<not> same N k' k"
    using assms unfolding pending_def by auto
  have "nkeys (kvs t) < capacity t" if "\<not> in_array N t k" using assms that unfolding pending_def by simp
  then show "in_array N t k \<or> room N t k" using nkeys_room by blast
qed

lemma frame_capacity:
  "same_frame t t' \<Longrightarrow> nodes_shape t \<Longrightarrow> nodes_shape t' \<Longrightarrow> capacity t' = capacity t"
  by (simp add: capacity_def same_frame_def length_nodes)

lemma pending_step:
  assumes N: "num_ok N" and p: "pending N c t ((k, v) # ps)" and i: "inserted N t t' k v"
  shows "pending N c t' ps"
proof -
  have f: "same_frame t t'" using i unfolding inserted_def by blast
  have cap: "capacity t' = capacity t"
    using frame_capacity [OF f] pendingD(1) [OF p] i core_okD(1) unfolding inserted_def by blast
  have new: "\<not> same N k' a" if "(a, b) \<in> set ps" "(k', w) \<in> entries N t'" for a b k' w
    using p i that unfolding pending_def inserted_def by (fastforce simp: case_prod_beta)
  have "nkeys (kvs t') + length (filter (\<lambda>p. \<not> in_array N t' (fst p)) ps) \<le> c"
    using p i unfolding pending_def inserted_def by (auto simp: same_frame_in_array split: if_splits)
  then show ?thesis using p i new unfolding pending_def inserted_def cap by auto
qed

definition node_items :: "'n Node list \<Rightarrow> ('n TValue \<times> 'n TValue) list" where
  "node_items xs = map (\<lambda>n. (kval (i_key n), i_val n)) (filter (\<lambda>n. i_val n \<noteq> Nil_value) xs)"

definition array_items :: "'n num_ops \<Rightarrow> 'n TValue list \<Rightarrow> nat list \<Rightarrow> ('n TValue \<times> 'n TValue) list" where
  "array_items N arr is = map (\<lambda>i. (Number (cast_num N (int i + 1)), arr ! i)) (filter (\<lambda>i. arr ! i \<noteq> Nil_value) is)"

lemma node_items_simps [simp]:
  "node_items [] = []"
  "node_items (n # xs) = (if i_val n \<noteq> Nil_value then [(kval (i_key n), i_val n)] else []) @ node_items xs"
  by (simp_all add: node_items_def)

lemma array_items_simps [simp]:
  "array_items N arr [] = []"
  "array_items N arr (i # is) = (if arr ! i \<noteq> Nil_value then [(Number (cast_num N (int i + 1)), arr ! i)] else []) @ array_items N arr is"
  by (simp_all add: array_items_def)

lemma array_items_cong: "(\<And>i. i \<in> set is \<Longrightarrow> arr ! i = arr' ! i) \<Longrightarrow> array_items N arr is = array_items N arr' is"
  by (induction "is") auto

lemma fold_nodes:
  assumes N: "num_ok N"
  shows "pending N c t (node_items xs) \<Longrightarrow> (\<forall>n \<in> set xs. i_val n \<noteq> Nil_value \<longrightarrow> (\<exists>k. i_key n = Key k)) \<Longrightarrow>
    \<exists>t'. rfold (reinsert_node (newkey N gr) N) t xs = rreturn t' \<and> pending N c t' [] \<and> same_frame t t' \<and>
      entries N t' = set (node_items xs) \<union> entries N t"
proof (induction xs arbitrary: t)
  case Nil
  then show ?case by (intro exI [of _ t]) simp
next
  case (Cons n xs)
  show ?case
  proof (cases "i_val n = Nil_value")
    case True
    then show ?thesis using Cons by (simp add: reinsert_node_def)
  next
    case False
    then obtain k where k: "i_key n = Key k" using Cons.prems(2) by auto
    have p: "pending N c t ((k, i_val n) # node_items xs)" using Cons.prems(1) False k by simp
    obtain t1 r t2 where t: "set_with (newkey N gr) N t k = rreturn (t1, r)" "write_ref t1 r (i_val n) = Some t2"
      "inserted N t t2 k (i_val n)"
      using set_room [OF N pendingD(1) [OF p] pendingD(3) [OF p] pendingD(6) [OF p] pendingD(5) [OF p] pendingD(2) [OF p] False]
      by blast
    then have "reinsert_node (newkey N gr) N t n = rreturn t2" using False k by (simp add: reinsert_node_def)
    moreover obtain t' where "rfold (reinsert_node (newkey N gr) N) t2 xs = rreturn t'" "pending N c t' []"
      "same_frame t2 t'" "entries N t' = set (node_items xs) \<union> entries N t2"
      using Cons.IH [OF pending_step [OF N p t(3)]] Cons.prems(2) by auto
    moreover have "same_frame t t2" using t(3) by (simp add: inserted_def)
    ultimately show ?thesis
      using t(3) False k same_frame_trans [OF \<open>same_frame t t2\<close>] unfolding inserted_def by auto
  qed
qed

lemma fold_slice:
  assumes N: "num_ok N"
  shows "pending N c t (array_items N (array t) is @ rest) \<Longrightarrow>
    \<forall>i \<in> set is. sizearray t \<le> int i \<and> i < length (array t) \<and> is_int (int i + 1) \<Longrightarrow>
    \<exists>t'. rfold (reinsert_slice (newkey N gr) N) t is = rreturn t' \<and> pending N c t' rest \<and> same_frame t t' \<and>
      entries N t' = set (array_items N (array t) is) \<union> entries N t"
proof (induction "is" arbitrary: t)
  case Nil
  then show ?case by (intro exI [of _ t]) simp
next
  case (Cons i "is")
  have i: "sizearray t \<le> int i" "i < length (array t)" "is_int (int i + 1)" using Cons.prems(2) by auto
  show ?case
  proof (cases "array t ! i = Nil_value")
    case True
    then show ?thesis using Cons i by (simp add: reinsert_slice_def)
  next
    case False
    let ?k = "Number (cast_num N (int i + 1))"
    have p: "pending N c t ((?k, array t ! i) # array_items N (array t) is @ rest)" using Cons.prems(1) False by simp
    obtain t1 r t2 where t: "setnum_with (newkey N gr) N t (int i + 1) = rreturn (t1, r)"
      "write_ref t1 r (array t ! i) = Some t2" "array t1 = array t" "inserted N t t2 ?k (array t ! i)"
      using setnum_room [OF N pendingD(1) [OF p] i(3) pendingD(6) [OF p] pendingD(5) [OF p] pendingD(2) [OF p] False]
      by blast
    then have "reinsert_slice (newkey N gr) N t i = rreturn t2" using False i(2) by (simp add: reinsert_slice_def)
    moreover have f: "same_frame t t2" using t(4) by (simp add: inserted_def)
    then have e: "array_items N (array t2) is = array_items N (array t) is"
      using Cons.prems(2) by (intro array_items_cong) (auto simp: same_frame_def)
    moreover obtain t' where "rfold (reinsert_slice (newkey N gr) N) t2 is = rreturn t'" "pending N c t' rest"
      "same_frame t2 t'" "entries N t' = set (array_items N (array t) is) \<union> entries N t2"
      using Cons.IH [of t2] pending_step [OF N p t(4)] Cons.prems(2) f e by (auto simp: same_frame_def)
    ultimately show ?thesis
      using t(4) False same_frame_trans [OF f] unfolding inserted_def by auto
  qed
qed

section \<open>Fresh node vectors\<close>

lemma chains_blank: "set xs \<subseteq> {empty_node} \<Longrightarrow> chains_ok (mainposition N t) xs"
proof -
  assume a: "set xs \<subseteq> {empty_node}"
  have e: "xs ! i = empty_node" if "i < length xs" for i using a nth_mem [OF that] by blast
  have "links xs = {}" using e by (auto simp: links_def empty_node_def)
  then show ?thesis using e by (auto simp: chains_ok_def nokey_def empty_node_def)
qed

text \<open>A table whose hash part was replaced by an empty one.\<close>

definition blank :: "'n Table \<Rightarrow> 'n Table \<Rightarrow> bool" where
  "blank t t' \<longleftrightarrow> nodes_shape t' \<and> set (nodes_of t') \<subseteq> {empty_node} \<and> array t' = array t \<and> sizearray t' = sizearray t"

lemma blank_ok:
  assumes "blank t t'" "array_shape t"
  shows "core_ok N t'" "full t'" "nkeys (kvs t') = 0" "entries N t' = array_entries N t" "in_array N t' k = in_array N t k"
proof -
  have m: "p = (Key Nil_value, Nil_value)" if "p \<in># kvs t'" for p
    using assms(1) that by (auto simp: blank_def kvs_mem kv_def empty_node_def dest!: subsetD [OF _ nth_mem])
  have "keys_ok N t' (kvs t')"
    unfolding keys_ok_def
  proof (intro conjI allI impI)
    fix k v assume "(Key k, v) \<in># kvs t'" "k \<noteq> Nil_value"
    then show "valid_key N k" "\<not> in_array N t' k" using m by auto
  next
    fix k assume k: "valid_key N k"
    have "filter_mset (holds_key N k) (kvs t') = {#}"
    proof (intro filter_none ballI)
      fix p assume "p \<in># kvs t'"
      then show "\<not> holds_key N k p" using m [of p] k by (cases k) (auto simp: holds_key_def same_cases)
    qed
    then show "size (filter_mset (holds_key N k) (kvs t')) \<le> 1" by (simp only: size_empty)
  qed
  then show "core_ok N t'" using assms chains_blank by (auto simp: core_ok_def blank_def array_shape_def)
  show "full t'" using m by (auto simp: full_def)
  have "filter_mset (\<lambda>p. fst p \<noteq> Key Nil_value) (kvs t') = {#}"
    by (intro filter_none ballI) (auto dest: m)
  then show "nkeys (kvs t') = 0" by (simp only: nkeys_def size_empty)
  have "hash_entries (kvs t') = {}" using m by (auto simp: hash_entries_def)
  then show "entries N t' = array_entries N t" using assms(1) by (auto simp: entries_def array_entries_def blank_def)
  show "in_array N t' k = in_array N t k" using assms(1) by (simp add: in_array_def blank_def)
qed

text \<open>An error occurs only when memory is refused or a size is exceeded; \<open>B\<close> says that neither happens.\<close>

definition returns_if :: "bool \<Rightarrow> 'a res \<Rightarrow> ('a \<Rightarrow> bool) \<Rightarrow> bool" where
  "returns_if B m P \<longleftrightarrow> (\<exists>r. m = Some r \<and> (B \<longrightarrow> \<not> isl r) \<and> (\<forall>x. r = Inr x \<longrightarrow> P x))"

lemma returns_if_simps [simp]:
  "returns_if B (rreturn x) P \<longleftrightarrow> P x" "returns_if B (luaL_error msg) P \<longleftrightarrow> \<not> B"
  by (auto simp: returns_if_def rreturn_def luaL_error_def)

lemma returns_if_bind:
  "returns_if B m P \<Longrightarrow> (\<And>x. m = Some (Inr x) \<Longrightarrow> P x \<Longrightarrow> returns_if B (f x) Q) \<Longrightarrow> returns_if B (rbind m f) Q"
  unfolding returns_if_def by (elim exE conjE, rename_tac r, case_tac r) auto

lemma returns_if_mono: "returns_if B m P \<Longrightarrow> (\<And>x. P x \<Longrightarrow> Q x) \<Longrightarrow> (C \<Longrightarrow> B) \<Longrightarrow> returns_if C m Q"
  by (auto simp: returns_if_def)

lemma returns_if_returns: "returns_if B m P \<Longrightarrow> returns m P"
  by (auto simp: returns_if_def returns_def)

lemma alloc_returns [simp]:
  "returns_if B (alloc gr on n e) P \<longleftrightarrow> (B \<longrightarrow> alloc gr on n e = rreturn ()) \<and> (alloc gr on n e = rreturn () \<longrightarrow> P ())"
  by (auto simp: returns_if_def alloc_def rreturn_def split: sum.splits)

definition all_granted :: "(int \<Rightarrow> bool) \<Rightarrow> bool" where
  "all_granted gr \<longleftrightarrow> (\<forall>n. gr n)"

lemma alloc_granted:
  assumes "all_granted gr" "0 \<le> n" "n \<le> MAXASIZE" "0 < e" "e \<le> 32"
  shows "alloc gr on n e = rreturn ()"
proof -
  have "(n + 1) mod 2 ^ 32 \<le> MAX_SIZET div 32" using assms(2,3) by (simp add: MAXASIZE_def MAX_SIZET_def)
  also have "\<dots> \<le> MAX_SIZET div e" using assms(4,5) by (intro zdiv_mono2) (simp_all add: MAX_SIZET_def)
  finally show ?thesis using assms(1) by (simp add: alloc_def luaM_reallocv_def luaM_realloc_def all_granted_def)
qed

lemma element_sizes [simp]: "0 < sizeof_TValue" "sizeof_TValue \<le> 32" "0 < sizeof_Node" "sizeof_Node \<le> 32" "0 < sizeof_Table"
    "sizeof_Table \<le> 32"
  by (simp_all add: sizeof_TValue_def sizeof_Node_def sizeof_Table_def)

lemma rbind_assoc: "rbind (rbind m f) g = rbind m (\<lambda>x. rbind (f x) g)"
  by (cases m) (auto simp: rbind_def split: sum.splits)

lemma ceillog2_small:
  assumes "x \<noteq> 0" "unat x \<le> 2 ^ 26"
  shows "ceillog2 x \<le> 26"
proof (cases "x = 1")
  case True
  then show ?thesis using luaO_log2_floor [of 1] by (simp add: ceillog2_def)
next
  case False
  then have "(2::nat) ^ nat (ceillog2 x - 1) < 2 ^ 26" using luaO_log2_floor [of x] assms by auto
  then have "nat (ceillog2 x - 1) < 26" by (rule power_less_imp_less_exp [rotated]) simp
  then show ?thesis by linarith
qed

lemma setnodevector_ok:
  assumes "0 \<le> sz" "sz \<le> INT_MAX"
  shows "returns_if (all_granted gr \<and> sz \<le> MAXASIZE) (setnodevector gr t sz) (\<lambda>t'. blank t t' \<and> nat sz \<le> capacity t' \<and> (sz = 0 \<longrightarrow> node t' = dummynode) \<and>
    flags t' = flags t)"
proof (cases "sz = 0")
  case True
  then show ?thesis by (simp add: setnodevector_def blank_def nodes_shape_def node_list_def capacity_def)
next
  case False
  let ?l = "ceillog2 (word_of_int sz)"
  have w: "unat (word_of_int sz :: 32 word) = nat sz"
  proof -
    have "uint (word_of_int sz :: 32 word) = sz" using assms by (simp add: uint_word_of_int)
    then show ?thesis by (simp add: unat_eq_nat_uint)
  qed
  then have nz: "(word_of_int sz :: 32 word) \<noteq> 0" using False assms(1) by (metis nat_0_iff unat_0 order_antisym)
  from nz have l: "nat sz \<le> 2 ^ nat ?l" "0 \<le> ?l" using luaO_log2_floor [of "word_of_int sz"] w by auto
  have small: "?l \<le> 26" if "sz \<le> MAXASIZE"
    by (rule ceillog2_small) (use that w nz in \<open>simp_all add: MAXASIZE_def\<close>)
  have granted: "alloc gr 0 (twoto (nat ?l)) sizeof_Node = rreturn ()" if "all_granted gr" "sz \<le> MAXASIZE"
  proof (rule alloc_granted [OF that(1)])
    show "twoto (nat ?l) \<le> MAXASIZE"
      using small [OF that(2)] power_increasing [of "nat ?l" 26 "2::int"] by (simp add: twoto_def MAXASIZE_def)
  qed (simp_all add: twoto_def)
  have "blank t (t\<lparr>node := Nodes (replicate (nat (twoto (nat ?l))) empty_node), lsizenode := nat ?l, lastfree := twoto (nat ?l)\<rparr>)"
    if "?l \<le> MAXBITS"
    using that l(2) by (auto simp: blank_def nodes_shape_def node_list_def twoto_def nat_power_eq MAXBITS_def)
  then show ?thesis
    using False l small granted
    by (auto simp: setnodevector_def Let_def capacity_def node_list_def twoto_def nat_power_eq MAXBITS_def intro!: returns_if_bind)
qed

section \<open>The entries to move\<close>

abbreviation distinct_keys :: "'n num_ops \<Rightarrow> ('n TValue \<times> 'n TValue) list \<Rightarrow> bool" where
  "distinct_keys N ps \<equiv> sorted_wrt (\<lambda>p q. \<not> same N (fst p) (fst q)) ps"

lemma array_items_distinct:
  assumes N: "num_ok N" and b: "int b \<le> INT_MAX"
  shows "distinct_keys N (array_items N arr [a..<b])"
proof -
  have "sorted_wrt (\<lambda>i j. \<not> numeq N (cast_num N (int i + 1)) (cast_num N (int j + 1))) (filter (\<lambda>i. arr ! i \<noteq> Nil_value) [a..<b])"
  proof (rule sorted_wrt_mono_rel)
    show "sorted_wrt (<) (filter (\<lambda>i. arr ! i \<noteq> Nil_value) [a..<b])" by (rule sorted_wrt_filter) simp
    fix i j assume "i \<in> set (filter (\<lambda>i. arr ! i \<noteq> Nil_value) [a..<b])" "j \<in> set (filter (\<lambda>i. arr ! i \<noteq> Nil_value) [a..<b])" "i < j"
    then have "is_int (int i + 1)" "is_int (int j + 1)" "i \<noteq> j" using b by (auto simp: is_int_def)
    then show "\<not> numeq N (cast_num N (int i + 1)) (cast_num N (int j + 1))" using num_okD(4) [OF N] by simp
  qed
  then show ?thesis by (simp add: array_items_def sorted_wrt_map)
qed

lemma node_items_distinct:
  assumes "\<forall>k. valid_key N k \<longrightarrow> size (filter_mset (holds_key N k) (mset (map kv xs))) \<le> 1"
    "\<forall>n \<in> set xs. i_val n \<noteq> Nil_value \<longrightarrow> (\<exists>k. i_key n = Key k \<and> valid_key N k)" "num_ok N"
  shows "distinct_keys N (node_items xs)"
  using assms
proof (induction xs)
  case (Cons n xs)
  have "size (filter_mset (holds_key N k) (mset (map kv xs))) \<le> 1" if "valid_key N k" for k
    using Cons.prems(1) that filter_add [of "holds_key N k" "mset (map kv xs)" "kv n"] by fastforce
  then have ih: "distinct_keys N (node_items xs)" using Cons by auto
  have "\<not> same N (kval (i_key n)) (kval (i_key m))" if "i_val n \<noteq> Nil_value" "m \<in> set xs" "i_val m \<noteq> Nil_value" for m
  proof
    note th = that
    assume s: "same N (kval (i_key n)) (kval (i_key m))"
    obtain a where a1: "i_key n = Key a" "valid_key N a" using Cons.prems(2) th(1) by auto
    obtain b where b1: "i_key m = Key b" using Cons.prems(2) th(2,3) by auto
    note a = a1 b1
    have "holds_key N a (kv n)" "holds_key N a (kv m)"
      using a s same_refl [OF a(2)] same_sym [OF Cons.prems(3)] by (auto simp: holds_key_def kv_def)
    moreover obtain S where "mset (map kv xs) = add_mset (kv m) S"
      using th(2) by (metis image_eqI list.set_map mset_add set_mset_mset)
    ultimately have "size (filter_mset (holds_key N a) (mset (map kv (n # xs)))) \<ge> 2" by simp
    then show False using Cons.prems(1) a(2) by fastforce
  qed
  then show ?case using ih by (auto simp: node_items_def)
qed simp

text \<open>The entries that leave their place when the array part gets size \<open>na\<close>.\<close>

definition items_of :: "'n num_ops \<Rightarrow> 'n Table \<Rightarrow> int \<Rightarrow> ('n TValue \<times> 'n TValue) list" where
  "items_of N t na = array_items N (array t) [nat na..<nat (sizearray t)] @ node_items (rev (nodes_of t))"

definition hash_bound :: "'n num_ops \<Rightarrow> 'n Table \<Rightarrow> int \<Rightarrow> nat" where
  "hash_bound N t na = length (filter (\<lambda>p. \<not> (0 < arrayindex N (fst p) \<and> arrayindex N (fst p) \<le> na)) (items_of N t na))"

definition staying :: "'n num_ops \<Rightarrow> 'n Table \<Rightarrow> int \<Rightarrow> ('n TValue \<times> 'n TValue) set" where
  "staying N t na = {(k, v). (k, v) \<in> array_entries N t \<and> arrayindex N k \<le> na}"

lemma valued_nodes:
  assumes "core_ok N t" "n \<in> set (nodes_of t)" "i_val n \<noteq> Nil_value"
  shows "\<exists>k. i_key n = Key k \<and> valid_key N k \<and> \<not> in_array N t k"
proof -
  have m: "(i_key n, i_val n) \<in># kvs t" using assms(2) by (auto simp: kvs_def kv_def)
  then obtain k where k: "i_key n = Key k" "k \<noteq> Nil_value" using chains_kvs [OF core_okD(3) [OF assms(1)] m assms(3)] by blast
  then show ?thesis using keys_okD(1) [OF core_okD(4) [OF assms(1)]] m by auto
qed

lemma set_node_items:
  assumes "core_ok N t"
  shows "set (node_items (rev (nodes_of t))) = hash_entries (kvs t)"
proof -
  have "(k, v) \<in> set (node_items (rev (nodes_of t))) \<longleftrightarrow> (k, v) \<in> hash_entries (kvs t)" for k v
    using valued_nodes [OF assms] by (force simp: node_items_def hash_entries_def kvs_def kv_def image_iff)
  then show ?thesis by auto
qed

lemma set_array_items:
  assumes "num_ok N" "array_shape t"
  shows "set (array_items N (array t) [nat na..<nat (sizearray t)]) \<union> staying N t na = array_entries N t"
    and "(k, v) \<in> set (array_items N (array t) [nat na..<nat (sizearray t)]) \<Longrightarrow> in_array N t k \<and> (0 \<le> na \<longrightarrow> na < arrayindex N k) \<and> v \<noteq> Nil_value"
proof -
  have a: "arrayindex N (Number (cast_num N (int i + 1))) = int i + 1" if "int i < sizearray t" for i
    using that MAXASIZE_bounds [OF assms(2)] by (intro arrayindex_cast [OF assms(1)]) (simp add: is_int_def)
  show "(k, v) \<in> set (array_items N (array t) [nat na..<nat (sizearray t)]) \<Longrightarrow> in_array N t k \<and> (0 \<le> na \<longrightarrow> na < arrayindex N k) \<and> v \<noteq> Nil_value"
    using a by (auto simp: array_items_def in_array_def simp del: arrayindex.simps)
  have "(k, v) \<in> set (array_items N (array t) [nat na..<nat (sizearray t)]) \<union> staying N t na \<longleftrightarrow> (k, v) \<in> array_entries N t" for k v
    using a by (auto simp: array_items_def staying_def array_entries_def image_iff simp del: arrayindex.simps) force
  then show "set (array_items N (array t) [nat na..<nat (sizearray t)]) \<union> staying N t na = array_entries N t" by auto
qed

lemma items_entries:
  assumes "num_ok N" "core_ok N t"
  shows "set (items_of N t na) \<union> staying N t na = entries N t"
  using set_array_items(1) [OF assms(1) core_okD(2) [OF assms(2)], of na] set_node_items [OF assms(2)]
  unfolding items_of_def entries_def set_append by blast

lemma items_distinct:
  assumes N: "num_ok N" and ok: "core_ok N t"
  shows "distinct_keys N (items_of N t na)"
proof -
  have n: "distinct_keys N (node_items (rev (nodes_of t)))"
    using keys_okD(2) [OF core_okD(4) [OF ok]] valued_nodes [OF ok] N
    by (intro node_items_distinct) (auto simp: kvs_def rev_map [symmetric])
  have "distinct_keys N (array_items N (array t) [nat na..<nat (sizearray t)])"
    using MAXASIZE_bounds [OF core_okD(2) [OF ok]] by (intro array_items_distinct [OF N]) simp
  moreover have "\<not> same N (fst p) (fst q)"
    if "p \<in> set (array_items N (array t) [nat na..<nat (sizearray t)])" "q \<in> set (node_items (rev (nodes_of t)))" for p q
    using that set_array_items(2) [OF N core_okD(2) [OF ok], of "fst p" "snd p" na] same_in_array [OF N, of "fst p" "fst q"]
      hash_entry(2) [OF ok, of "fst q" "snd q"] set_node_items [OF ok] by auto
  ultimately show ?thesis using n by (simp add: items_of_def sorted_wrt_append)
qed

lemma staying_new:
  assumes N: "num_ok N" and ok: "core_ok N t" and na: "0 \<le> na" and p: "(k, v) \<in> set (items_of N t na)"
    and s: "(k', w) \<in> staying N t na"
  shows "\<not> same N k' k"
proof
  assume sm: "same N k' k"
  have k': "in_array N t k'" "arrayindex N k' \<le> na"
    using s array_entry(1) [OF N core_okD(2) [OF ok]] by (auto simp: staying_def)
  then show False
    using p same_arrayindex [OF N sm] same_in_array [OF N sm, of t] na set_array_items(2) [OF N core_okD(2) [OF ok], of k v na]
      hash_entry(2) [OF ok, of k v] set_node_items [OF ok] unfolding items_of_def by auto
qed

text \<open>The table with an empty hash part and the new size has everything else still to insert.\<close>

lemma pending_start:
  assumes N: "num_ok N" and ok: "core_ok N t" and na: "0 \<le> na"
    and t': "core_ok N t'" "full t'" "nkeys (kvs t') = 0" "entries N t' = staying N t na" "sizearray t' = na"
    and c: "hash_bound N t na \<le> capacity t'"
  shows "pending N (hash_bound N t na) t' (items_of N t na)"
proof -
  have "(k, v) \<in> entries N t" if "(k, v) \<in> set (items_of N t na)" for k v
    using items_entries [OF N ok, of na] that by blast
  then have "valid_key N k \<and> v \<noteq> Nil_value" if "(k, v) \<in> set (items_of N t na)" for k v
    using entry_valid [OF N ok] that by blast
  moreover have "filter (\<lambda>p. \<not> in_array N t' (fst p)) (items_of N t na) =
      filter (\<lambda>p. \<not> (0 < arrayindex N (fst p) \<and> arrayindex N (fst p) \<le> na)) (items_of N t na)"
    by (simp add: in_array_def t'(5))
  ultimately show ?thesis
    using t' c items_distinct [OF N ok] staying_new [OF N ok na] unfolding pending_def hash_bound_def by auto
qed

section \<open>Resize\<close>

lemma array_sizearray: "array (t\<lparr>array := a, sizearray := n\<rparr>) = a" "sizearray (t\<lparr>array := a, sizearray := n\<rparr>) = n"
  by simp_all

lemma node_array: "node (t\<lparr>array := a\<rparr>) = node t"
  by simp

lemma pending_take:
  assumes "pending N c t ps"
  defines "t' \<equiv> t\<lparr>array := take (nat (sizearray t)) (array t)\<rparr>"
  shows "pending N c t' ps" "entries N t' = entries N t" "sizearray t' = int (length (array t'))" "node t' = node t"
proof -
  have ok: "core_ok N t" using assms(1) by (simp add: pending_def)
  have sh: "0 \<le> sizearray t" "sizearray t \<le> int (length (array t))" using core_okD(2) [OF ok] by (auto simp: array_shape_def)
  have kv: "kvs t' = kvs t" by (simp add: kvs_def t'_def)
  have "core_ok N t'" using sh by (intro core_ok_cong [OF ok]) (simp_all add: t'_def)
  moreover have "array_entries N t' = array_entries N t" by (auto simp: array_entries_def t'_def)
  then show e: "entries N t' = entries N t" by (simp add: entries_def kv)
  moreover have "in_array N t' k = in_array N t k" "capacity t' = capacity t" for k
    by (simp_all add: in_array_def capacity_def t'_def)
  ultimately show "pending N c t' ps" using assms(1) by (simp add: pending_def full_def kv)
  show "sizearray t' = int (length (array t'))" "node t' = node t" using sh by (simp_all add: t'_def)
qed

definition resized :: "'n num_ops \<Rightarrow> 'n Table \<Rightarrow> int \<Rightarrow> 'n Table \<Rightarrow> bool" where
  "resized N t na t' \<longleftrightarrow> table_ok N t' \<and> full t' \<and> entries N t' = entries N t \<and> sizearray t' = na \<and>
     nkeys (kvs t') \<le> hash_bound N t na"

lemma resize_tail:
  assumes N: "num_ok N" and ok: "core_ok N t" and p: "pending N (hash_bound N t na) t4 (node_items (rev (nodes_of t)))"
    and e: "set (node_items (rev (nodes_of t))) \<union> entries N t4 = entries N t"
    and s: "sizearray t4 = int (length (array t4))" "sizearray t4 = na"
  shows "\<exists>t'. rfold (reinsert_node (newkey N gr) N) t4 (rev (nodes_of t)) = rreturn t' \<and> resized N t na t' \<and> capacity t' = capacity t4"
proof -
  have "\<forall>n \<in> set (rev (nodes_of t)). i_val n \<noteq> Nil_value \<longrightarrow> (\<exists>k. i_key n = Key k)" using valued_nodes [OF ok] by auto
  from fold_nodes [OF N p this, of gr] obtain t' where
    t': "rfold (reinsert_node (newkey N gr) N) t4 (rev (nodes_of t)) = rreturn t'" "pending N (hash_bound N t na) t' []"
      "same_frame t4 t'" "entries N t' = set (node_items (rev (nodes_of t))) \<union> entries N t4" by blast
  have "core_ok N t4" "core_ok N t'" using p t'(2) by (simp_all add: pending_def)
  then have "capacity t' = capacity t4" using frame_capacity [OF t'(3)] core_okD(1) by blast
  moreover have "resized N t na t'"
    using t' e s unfolding resized_def table_ok_def pending_def by (auto simp: same_frame_def)
  ultimately show ?thesis using t'(1) by blast
qed

lemma array_entries_grow:
  assumes "array_shape t" "sizearray t \<le> na"
  shows "array_entries N (t\<lparr>array := take (nat na) (take (nat (sizearray t)) (array t) @ replicate (nat na - nat (sizearray t)) Nil_value),
      sizearray := na\<rparr>) = array_entries N t"
proof -
  let ?a = "take (nat na) (take (nat (sizearray t)) (array t) @ replicate (nat na - nat (sizearray t)) Nil_value)"
  have "?a ! i = (if int i < sizearray t then array t ! i else Nil_value)" if "int i < na" for i
  proof -
    have "i < nat na" using that by linarith
    moreover have "length (take (nat (sizearray t)) (array t)) = nat (sizearray t)"
      using assms(1) by (auto simp: array_shape_def min_def)
    moreover have "i - nat (sizearray t) < nat na - nat (sizearray t)" if "\<not> i < nat (sizearray t)"
      using that \<open>i < nat na\<close> by linarith
    ultimately show ?thesis using that by (auto simp: nth_append)
  qed
  then have nth: "\<And>i. int i < na \<Longrightarrow> a ! i = (if int i < sizearray t then array t ! i else Nil_value)" if "a = ?a" for a
    using that by blast
  have "{(Number (cast_num N (int i + 1)), a ! i) | i. int i < na \<and> a ! i \<noteq> Nil_value} =
      {(Number (cast_num N (int i + 1)), array t ! i) | i. int i < sizearray t \<and> array t ! i \<noteq> Nil_value}" if "a = ?a" for a
    using nth [OF that] assms(2) by (intro Collect_cong ex_cong1) (auto split: if_splits)
  then show ?thesis unfolding array_entries_def by (simp only: Table.select_convs Table.update_convs array_sizearray)
qed

lemma staying_all: "num_ok N \<Longrightarrow> array_shape t \<Longrightarrow> sizearray t \<le> na \<Longrightarrow> staying N t na = array_entries N t"
  by (force simp: staying_def in_array_def dest: array_entry(1))

lemma staying_cut:
  assumes "num_ok N" "array_shape t" "0 \<le> na" "na \<le> sizearray t" "array t' = array t" "sizearray t' = na"
  shows "array_entries N t' = staying N t na"
proof -
  have a: "arrayindex N (Number (cast_num N (int i + 1))) = int i + 1" if "int i < sizearray t" for i
    using that MAXASIZE_bounds [OF assms(2)] by (intro arrayindex_cast [OF assms(1)]) (simp add: is_int_def)
  have "(k, v) \<in> array_entries N t' \<longleftrightarrow> (k, v) \<in> staying N t na" for k v
    using a assms(4-6) by (auto simp: staying_def array_entries_def simp del: arrayindex.simps)
  then show ?thesis by auto
qed

lemma resize_ok:
  assumes N: "num_ok N" and ok: "table_ok N t" and na: "0 \<le> na" "na \<le> MAXASIZE"
    and nh: "hash_bound N t na \<le> nat nh" "0 \<le> nh" "nh \<le> INT_MAX"
  shows "returns_if (all_granted gr \<and> nh \<le> MAXASIZE) (resize N gr t na nh) (\<lambda>t'. resized N t na t' \<and> nat nh \<le> capacity t')"
proof -
  have core: "core_ok N t" and sz: "sizearray t = int (length (array t))" using ok by (simp_all add: table_ok_def)
  note sh = core_okD(2) [OF core]
  let ?B = "node_items (rev (nodes_of t))" and ?c = "hash_bound N t na" and ?G = "all_granted gr \<and> nh \<le> MAXASIZE"
  have tail: "returns_if ?G (rfold (reinsert_node (newkey N gr) N) t4 (rev (nodes_of t))) (\<lambda>t'. resized N t na t' \<and> nat nh \<le> capacity t')"
    if "pending N ?c t4 ?B" "set ?B \<union> entries N t4 = entries N t" "sizearray t4 = int (length (array t4))" "sizearray t4 = na"
      "nat nh \<le> capacity t4" for t4
    using resize_tail [OF N core that(1-4), of gr] that(5) by auto
  show ?thesis
  proof (cases "na < sizearray t")
    case False
    let ?t1 = "if na > sizearray t then t\<lparr>array := take (nat na) (take (nat (sizearray t)) (array t)
        @ replicate (nat na - nat (sizearray t)) Nil_value), sizearray := na\<rparr> else t"
    have na_sz: "sizearray t \<le> na" using False by simp
    have t1: "array_shape ?t1" "array_entries N ?t1 = array_entries N t" "sizearray ?t1 = na" "sizearray ?t1 = int (length (array ?t1))"
      using sh sz na False array_entries_grow [OF sh na_sz] by (auto simp: array_shape_def)
    have items: "items_of N t na = ?B" using False na by (simp add: items_of_def nat_mono)
    have "returns_if ?G (rfold (reinsert_node (newkey N gr) N) t2 (rev (nodes_of t))) (\<lambda>t'. resized N t na t' \<and> nat nh \<le> capacity t')"
      if t2: "blank ?t1 t2" "nat nh \<le> capacity t2" for t2
    proof (rule tail)
      note b = blank_ok [OF t2(1) t1(1)]
      have e: "entries N t2 = staying N t na" using b(4) t1(2) staying_all [OF N sh na_sz] by simp
      have s2: "sizearray t2 = na" "array t2 = array ?t1" using t2(1) t1(3) by (simp_all add: blank_def)
      show "pending N ?c t2 ?B"
        using pending_start [OF N core na(1) b(1-3) e s2(1)] nh(1) t2(2) items by simp
      show "set ?B \<union> entries N t2 = entries N t" using items_entries [OF N core, of na] items e by simp
      show "sizearray t2 = int (length (array t2))" "sizearray t2 = na" "nat nh \<le> capacity t2"
        using s2 t1(3,4) t2(2) by simp_all
    qed
    then have last: "returns_if ?G (rbind (setnodevector gr ?t1 nh) (\<lambda>t2. rfold (reinsert_node (newkey N gr) N) t2 (rev (nodes_of t))))
        (\<lambda>t'. resized N t na t' \<and> nat nh \<le> capacity t')"
      by (intro returns_if_bind [OF setnodevector_ok [OF nh(2,3)]]) blast
    have "returns_if ?G (if na > sizearray t then setarrayvector gr t na else rreturn t) (\<lambda>t1. t1 = ?t1)"
      using na alloc_granted [of gr na sizeof_TValue] by (auto simp: setarrayvector_def intro!: returns_if_bind)
    then have "returns_if ?G (rbind (if na > sizearray t then setarrayvector gr t na else rreturn t)
        (\<lambda>t1. rbind (setnodevector gr t1 nh) (\<lambda>t2. rfold (reinsert_node (newkey N gr) N) t2 (rev (nodes_of t)))))
        (\<lambda>t'. resized N t na t' \<and> nat nh \<le> capacity t')"
      by (rule returns_if_bind) (use last in blast)
    then show ?thesis using False unfolding resize_def resize_with_def Let_def by simp
  next
    case True
    have "returns_if ?G (rbind (rfold (reinsert_slice (newkey N gr) N) (t2\<lparr>sizearray := na\<rparr>) [nat na..<nat (sizearray t)])
        (\<lambda>t3. rbind (alloc gr (sizearray t) na sizeof_TValue) (\<lambda>_.
          rbind (rreturn (t3\<lparr>array := take (nat na) (array t3)\<rparr>)) (\<lambda>t4. rfold (reinsert_node (newkey N gr) N) t4 (rev (nodes_of t))))))
        (\<lambda>t'. resized N t na t' \<and> nat nh \<le> capacity t')"
      if t2: "blank t t2" "nat nh \<le> capacity t2" for t2
    proof -
      let ?t3 = "t2\<lparr>sizearray := na\<rparr>" and ?A = "array_items N (array t) [nat na..<nat (sizearray t)]"
      have "nodes_shape ?t3" using t2(1) nodes_shape_cong [of ?t3 t2] by (simp add: blank_def)
      moreover have ar: "array ?t3 = array t" using t2(1) by (simp add: blank_def)
      moreover have a3: "array_shape ?t3" using ar sh na True by (simp add: array_shape_def)
      ultimately have "blank ?t3 ?t3" using t2(1) by (simp add: blank_def)
      note b = blank_ok [OF this a3]
      have e: "entries N ?t3 = staying N t na" using b(4) staying_cut [OF N sh na(1) _ ar] True by simp
      have cap3: "capacity ?t3 = capacity t2" by (simp add: capacity_def)
      have p: "pending N ?c ?t3 (array_items N (array ?t3) [nat na..<nat (sizearray t)] @ ?B)"
        using pending_start [OF N core na(1) b(1-3) e] nh(1) t2(2) cap3 ar by (simp add: items_of_def)
      have "\<forall>i \<in> set [nat na..<nat (sizearray t)]. sizearray ?t3 \<le> int i \<and> i < length (array ?t3) \<and> is_int (int i + 1)"
        using ar sz na MAXASIZE_bounds [OF sh] by (auto simp: is_int_def)
      from fold_slice [OF N p this, of gr] ar obtain u where
        u: "rfold (reinsert_slice (newkey N gr) N) ?t3 [nat na..<nat (sizearray t)] = rreturn u" "pending N ?c u ?B"
          "same_frame ?t3 u" "entries N u = set ?A \<union> entries N ?t3" by auto
      have su: "sizearray u = na" using u(3) by (simp add: same_frame_def)
      note tk = pending_take [OF u(2), unfolded su]
      have "capacity u = capacity t2"
        using frame_capacity [OF u(3)] u(2) core_okD(1) \<open>nodes_shape ?t3\<close> cap3 unfolding pending_def by metis
      then have cap: "nat nh \<le> capacity (u\<lparr>array := take (nat na) (array u)\<rparr>)" 
        using t2(2) by (simp only: capacity_def Table.select_convs Table.update_convs node_array)
      have "set ?B \<union> entries N (u\<lparr>array := take (nat na) (array u)\<rparr>) = entries N t"
        using tk(2) u(4) e items_entries [OF N core, of na] by (auto simp: items_of_def)
      from tail [OF tk(1) this _ _ cap] tk(3) su
      show ?thesis unfolding u(1) using na alloc_granted [of gr na sizeof_TValue] by (auto intro!: returns_if_bind)
    qed
    then have "returns_if ?G (rbind (setnodevector gr t nh) (\<lambda>t2.
        rbind (rfold (reinsert_slice (newkey N gr) N) (t2\<lparr>sizearray := na\<rparr>) [nat na..<nat (sizearray t)])
        (\<lambda>t3. rbind (alloc gr (sizearray t) na sizeof_TValue) (\<lambda>_.
          rbind (rreturn (t3\<lparr>array := take (nat na) (array t3)\<rparr>)) (\<lambda>t4. rfold (reinsert_node (newkey N gr) N) t4 (rev (nodes_of t)))))))
        (\<lambda>t'. resized N t na t' \<and> nat nh \<le> capacity t')"
      by (intro returns_if_bind [OF setnodevector_ok [OF nh(2,3)]]) blast
    then show ?thesis using True unfolding resize_def resize_with_def Let_def by (simp add: rbind_assoc)
  qed
qed

end
