(* ===== verification/LuaTableCount.thy ===== *)
theory LuaTableCount
  imports LuaTableResize
begin

text \<open>
  Counting the integer keys by slices between powers of two, and the sizes chosen from the counts.
  The counters are described by their partial sums: the sum up to slice \<open>j\<close> is the number of keys
  from 1 to \<open>2 ^ j\<close>.
\<close>

section \<open>Slices\<close>

definition upto_slice :: "int list \<Rightarrow> nat \<Rightarrow> int" where
  "upto_slice nums j = sum_list (take (Suc j) nums)"

definition counts :: "int list \<Rightarrow> (int \<Rightarrow> int) \<Rightarrow> bool" where
  "counts nums f \<longleftrightarrow> length nums = 27 \<and> (\<forall>j \<le> 26. upto_slice nums j = f (2 ^ j))"

lemma sum_take_update:
  "b < length xs \<Longrightarrow> sum_list (take m (xs[b := xs ! b + d])) = sum_list (take m xs) + (if b < m then d else 0)"
  for d :: int
proof (induction xs arbitrary: b m)
  case (Cons x xs)
  then show ?case by (cases b; cases m) auto
qed simp

lemma upto_slice_update:
  "b < length nums \<Longrightarrow> upto_slice (nums[b := nums ! b + d]) j = upto_slice nums j + (if b \<le> j then d else 0)"
  unfolding upto_slice_def by (simp add: sum_take_update less_Suc_eq_le)

lemma ceillog2_slice:
  assumes "0 < k" "k \<le> MAXASIZE"
  shows "0 \<le> ceillog2 (word_of_int k)" "ceillog2 (word_of_int k) \<le> 26"
    "nat (ceillog2 (word_of_int k)) \<le> j \<longleftrightarrow> k \<le> 2 ^ j"
proof -
  let ?l = "ceillog2 (word_of_int k)"
  have "uint (word_of_int k :: 32 word) = k" using assms by (simp add: uint_word_of_int MAXASIZE_def)
  then have w: "unat (word_of_int k :: 32 word) = nat k" by (simp add: unat_eq_nat_uint)
  then have nz: "(word_of_int k :: 32 word) \<noteq> 0" using assms(1) by (metis nat_0_iff not_less unat_0)
  have l: "nat k \<le> 2 ^ nat ?l" "0 \<le> ?l" "(word_of_int k :: 32 word) = 1 \<or> 2 ^ nat (?l - 1) < nat k"
    using luaO_log2_floor [of "word_of_int k"] w nz by auto
  show "0 \<le> ?l" by (rule l(2))
  have one: "?l = 0" if "(word_of_int k :: 32 word) = 1"
    using that luaO_log2_floor [of 0] by (simp add: ceillog2_def)
  have less: "2 ^ nat (?l - 1) < nat k" if "?l \<noteq> 0" using l(3) one that by auto
  show iff: "nat ?l \<le> j \<longleftrightarrow> k \<le> 2 ^ j" for j
  proof
    assume "nat ?l \<le> j"
    then have "(2::nat) ^ nat ?l \<le> 2 ^ j" by (intro power_increasing) simp_all
    then have "nat k \<le> 2 ^ j" using l(1) by linarith
    then show "k \<le> 2 ^ j" by (simp add: nat_le_iff)
  next
    assume k: "k \<le> 2 ^ j"
    show "nat ?l \<le> j"
    proof (rule ccontr)
      assume "\<not> nat ?l \<le> j"
      then have "j \<le> nat (?l - 1)" "?l \<noteq> 0" by auto
      then have "(2::nat) ^ j \<le> 2 ^ nat (?l - 1)" "2 ^ nat (?l - 1) < nat k"
        using less by (auto intro: power_increasing)
      then have "2 ^ j < nat k" by linarith
      then show False using k by (simp add: zless_nat_eq_int_zless)
    qed
  qed
  show "?l \<le> 26" using iff [of 26] assms(2) by (simp add: MAXASIZE_def)
qed

abbreviation small_key :: "'n num_ops \<Rightarrow> 'n TValue \<Rightarrow> int \<Rightarrow> bool" where
  "small_key N k m \<equiv> 0 < arrayindex N k \<and> arrayindex N k \<le> m"

lemma countint_ok:
  assumes "counts nums f"
  shows "\<exists>nums'. countint N key nums = Some (nums', if small_key N key MAXASIZE then 1 else 0) \<and>
    counts nums' (\<lambda>m. f m + (if small_key N key m then 1 else 0))"
proof (cases "small_key N key MAXASIZE")
  case True
  let ?b = "nat (ceillog2 (word_of_int (arrayindex N key)))"
  note b = ceillog2_slice [OF True [THEN conjunct1] True [THEN conjunct2]]
  have "?b < length nums" using b(2) assms by (simp add: counts_def)
  then show ?thesis using True b assms
    by (intro exI [of _ "nums[?b := nums ! ?b + 1]"]) (simp add: countint_def Let_def counts_def upto_slice_update)
next
  case False
  have "(2::int) ^ j \<le> MAXASIZE" if "j \<le> 26" for j
    using power_increasing [OF that, of "2::int"] by (simp add: MAXASIZE_def)
  then have "\<not> small_key N key (2 ^ j)" if "j \<le> 26" for j using False that by fastforce
  then have "counts nums (\<lambda>m. f m + (if small_key N key m then 1 else 0))" using assms unfolding counts_def by auto
  then show ?thesis using False by (auto simp: countint_def Let_def)
qed

section \<open>The array part\<close>

definition used :: "'n TValue list \<Rightarrow> nat \<Rightarrow> nat" where
  "used arr m = length (filter (\<lambda>i. arr ! i \<noteq> Nil_value) [0..<m])"

lemma used_Suc: "used arr (Suc m) = used arr m + (if arr ! m \<noteq> Nil_value then 1 else 0)"
  by (simp add: used_def)

lemma used_split: "a \<le> b \<Longrightarrow> used arr b = used arr a + length (filter (\<lambda>i. arr ! i \<noteq> Nil_value) [a..<b])"
  using upt_add_eq_append [of 0 a "b - a"] by (simp add: used_def)

lemma used_le: "used arr m \<le> m"
  by (metis diff_zero length_filter_le length_upt used_def)

lemma count_slice_ok:
  assumes "c \<le> l" "l \<le> length arr"
  shows "count_slice arr (int c + 1) (int l) lc = Some (lc + int (used arr l) - int (used arr c), int l + 1)"
  using assms
proof (induction "l - c" arbitrary: c lc)
  case 0
  then show ?case by (subst count_slice.simps) simp
next
  case (Suc n)
  then have "c < l" by simp
  then have "count_slice arr (int c + 1) (int l) lc =
      count_slice arr (int (Suc c) + 1) (int l) (if arr ! c \<noteq> Nil_value then lc + 1 else lc)"
    using Suc.prems by (subst count_slice.simps) (simp add: add.commute)
  also have "\<dots> = Some ((if arr ! c \<noteq> Nil_value then lc + 1 else lc) + int (used arr l) - int (used arr (Suc c)), int l + 1)"
    using Suc \<open>c < l\<close> by (intro Suc.hyps(1)) auto
  finally show ?case by (simp add: used_Suc)
qed

lemma c_int_double: "i \<le> 26 \<Longrightarrow> c_int (2 ^ i * 2) = 2 ^ Suc i"
proof -
  assume "i \<le> 26"
  then have "(2::int) ^ i \<le> 2 ^ 26" by (intro power_increasing) simp_all
  then have "(2::int) ^ i \<le> 67108864" by simp
  moreover have "(0::int) \<le> 2 ^ i" by simp
  ultimately have "- 2147483648 \<le> (2::int) ^ i * 2" "(2::int) ^ i * 2 \<le> INT_MAX" by linarith+
  then show ?thesis by (simp add: c_int_eq mult.commute)
qed

lemma sum_zero: "\<forall>x \<in> set xs. x = (0 :: int) \<Longrightarrow> sum_list xs = 0"
  by (induction xs) auto

lemma numusearray_loop_ok:
  assumes "length nums = 27" "sizearray t = int s" "s \<le> length (array t)" "s \<le> 2 ^ 26" "lg \<le> 27"
    "\<forall>j < lg. upto_slice nums j = int (used (array t) (min (2 ^ j) s))" "\<forall>j < 27. lg \<le> j \<longrightarrow> nums ! j = 0"
    "c = (if lg = 0 then 0 else min (2 ^ (lg - 1)) s)"
  shows "\<exists>nums'. numusearray_loop t nums lg (2 ^ lg) (int c + 1) (int (used (array t) c)) = Some (nums', int (used (array t) s)) \<and>
    length nums' = 27 \<and> (\<forall>j \<le> 26. upto_slice nums' j = int (used (array t) (min (2 ^ j) s)))"
  using assms
proof (induction "27 - lg" arbitrary: lg nums c)
  case 0
  then have "lg = 27" "c = s" by auto
  then show ?case using 0 by (subst numusearray_loop.simps) (simp add: MAXBITS_def less_Suc_eq_le [symmetric])
next
  case (Suc n)
  have lg: "lg \<le> 26" using Suc.hyps(2) by simp
  have upt: "upto_slice nums j = int (used (array t) c)" if "lg \<le> j" "j < 27" for j
  proof -
    have "take lg (take (Suc j) nums) = take lg nums" using that by (simp add: min_def)
    then have "take (Suc j) nums = take lg nums @ drop lg (take (Suc j) nums)" by (metis append_take_drop_id)
    moreover have "\<forall>x \<in> set (drop lg (take (Suc j) nums)). x = 0"
      using Suc.prems(1,7) that by (auto simp: in_set_conv_nth)
    then have "sum_list (drop lg (take (Suc j) nums)) = 0" by (rule sum_zero)
    ultimately have "upto_slice nums j = sum_list (take lg nums)" unfolding upto_slice_def by (metis add.right_neutral sum_list_append)
    moreover have "sum_list (take lg nums) = int (used (array t) c)"
      using Suc.prems(6,8) by (cases lg) (auto simp: used_def upto_slice_def)
    ultimately show ?thesis by simp
  qed
  show ?case
  proof (cases "2 ^ lg > sizearray t \<and> int c + 1 > sizearray t")
    case True
    then have c: "c = s" using Suc.prems(2,8) by (auto split: if_splits)
    have "upto_slice nums j = int (used (array t) (min (2 ^ j) s))" if "j \<le> 26" for j
    proof (cases "j < lg")
      case False
      have "(2::nat) ^ lg \<le> 2 ^ j" using False by (intro power_increasing) simp_all
      moreover have "s < 2 ^ lg" using True Suc.prems(2) by (metis of_nat_less_iff of_nat_numeral of_nat_power)
      ultimately have "s < 2 ^ j" by (rule less_le_trans [rotated])
      then have "min (2 ^ j) s = s" by simp
      then show ?thesis using upt [of j] False that c by simp
    qed (use Suc.prems(6) in simp)
    then show ?thesis
      using True c Suc.prems(1,2) lg by (subst numusearray_loop.simps) (simp add: MAXBITS_def)
  next
    case False
    let ?l = "min (2 ^ lg) s"
    have lim: "(if 2 ^ lg > sizearray t then sizearray t else 2 ^ lg) = int ?l"
      using Suc.prems(2) by (auto simp: min_def)
    have cl: "c \<le> ?l"
    proof (cases lg)
      case (Suc m)
      have "(2::nat) ^ m \<le> 2 ^ Suc m" by simp
      then show ?thesis using Suc.prems(8) Suc by (auto simp: min_def)
    qed (use Suc.prems(8) in simp)
    let ?d = "int (used (array t) ?l) - int (used (array t) c)"
    let ?nums = "nums[lg := nums ! lg + ?d]"
    have sl: "count_slice (array t) (int c + 1) (int ?l) 0 = Some (?d, int ?l + 1)"
      using count_slice_ok [OF cl, of "array t" 0] Suc.prems(3) by simp
    have p2: "c_int (2 ^ lg * 2) = 2 ^ Suc lg" using lg by (rule c_int_double)
    have nb: "\<not> (2 ^ lg > sizearray t \<and> int c + 1 > int ?l)" using False Suc.prems(2) lim by (auto split: if_splits)
    have "numusearray_loop t nums lg (2 ^ lg) (int c + 1) (int (used (array t) c)) =
        numusearray_loop t ?nums (Suc lg) (2 ^ Suc lg) (int ?l + 1) (int (used (array t) ?l))"
      using lg sl p2 Suc.prems(1) nb
      by (subst numusearray_loop.simps) (simp only: lim Let_def MAXBITS_def of_nat_le_iff of_nat_numeral if_False if_True simp_thms option.case prod.case, simp)
    moreover have "\<exists>nums'. numusearray_loop t ?nums (Suc lg) (2 ^ Suc lg) (int ?l + 1) (int (used (array t) ?l)) =
        Some (nums', int (used (array t) s)) \<and>
        length nums' = 27 \<and> (\<forall>j \<le> 26. upto_slice nums' j = int (used (array t) (min (2 ^ j) s)))"
    proof (rule Suc.hyps(1))
      show "\<forall>j < Suc lg. upto_slice ?nums j = int (used (array t) (min (2 ^ j) s))"
      proof (intro allI impI)
        fix j assume "j < Suc lg"
        then show "upto_slice ?nums j = int (used (array t) (min (2 ^ j) s))"
          using Suc.prems(1,6) lg upt [of lg] by (cases "j = lg") (auto simp: upto_slice_update)
      qed
      show "\<forall>j < 27. Suc lg \<le> j \<longrightarrow> ?nums ! j = 0" using Suc.prems(7) by (auto simp: nth_list_update)
    qed (use Suc.hyps(2) Suc.prems(1-4) lg in simp_all)
    ultimately show ?thesis by (simp only:)
  qed
qed

lemma numusearray_ok:
  assumes "sizearray t = int s" "s \<le> length (array t)" "s \<le> 2 ^ 26"
  shows "\<exists>nums. numusearray t (replicate (nat MAXBITS + 1) 0) = Some (nums, int (used (array t) s)) \<and>
    counts nums (\<lambda>m. int (used (array t) (min (nat m) s)))"
proof -
  have "\<exists>nums'. numusearray_loop t (replicate 27 0) 0 (2 ^ 0) (int 0 + 1) (int (used (array t) 0)) = Some (nums', int (used (array t) s)) \<and>
    length nums' = 27 \<and> (\<forall>j \<le> 26. upto_slice nums' j = int (used (array t) (min (2 ^ j) s)))"
    by (rule numusearray_loop_ok) (use assms in auto)
  then show ?thesis by (simp add: numusearray_def counts_def MAXBITS_def used_def nat_power_eq eval_nat_numeral(3) [symmetric])
qed

section \<open>The hash part\<close>

definition small_items :: "'n num_ops \<Rightarrow> ('n TValue \<times> 'n TValue) list \<Rightarrow> int \<Rightarrow> nat" where
  "small_items N ps m = length (filter (\<lambda>p. small_key N (fst p) m) ps)"

lemma small_items_simps [simp]:
  "small_items N [] m = 0"
  "small_items N (p # ps) m = (if small_key N (fst p) m then 1 else 0) + small_items N ps m"
  "small_items N (ps @ qs) m = small_items N ps m + small_items N qs m"
  by (simp_all add: small_items_def)

lemma numusehash_loop_ok:
  assumes "\<forall>n \<in> set (nodes_of t). i_val n \<noteq> Nil_value \<longrightarrow> (\<exists>k. i_key n = Key k)"
    "i \<le> length (nodes_of t)" "counts nums f"
  shows "\<exists>nums'. numusehash_loop N t i nums ause tot =
      Some (nums', ause + int (small_items N (node_items (take i (nodes_of t))) MAXASIZE), tot + int (length (node_items (take i (nodes_of t))))) \<and>
    counts nums' (\<lambda>m. f m + int (small_items N (node_items (take i (nodes_of t))) m))"
  using assms(2, 3)
proof (induction i arbitrary: nums ause tot f)
  case 0
  then show ?case by simp
next
  case (Suc i)
  let ?n = "nodes_of t ! i"
  have il: "i < length (nodes_of t)" using Suc.prems(1) by simp
  have g: "gnode t i = Some ?n" using il by (simp add: gnode_nth)
  have tk: "take (Suc i) (nodes_of t) = take i (nodes_of t) @ [?n]" using il by (rule take_Suc_conv_app_nth)
  have ap: "node_items (xs @ ys) = node_items xs @ node_items ys" for xs ys :: "'a Node list" by (simp add: node_items_def)
  show ?case
  proof (cases "i_val ?n = Nil_value")
    case True
    then show ?thesis using Suc g tk ap by simp
  next
    case False
    then obtain k where k: "i_key ?n = Key k" using assms(1) il nth_mem by metis
    obtain nums1 where n1: "countint N k nums = Some (nums1, if small_key N k MAXASIZE then 1 else 0)"
      "counts nums1 (\<lambda>m. f m + (if small_key N k m then 1 else 0))" using countint_ok [OF Suc.prems(2)] by blast
    let ?P = "node_items (take i (nodes_of t))"
    have items: "node_items (take (Suc i) (nodes_of t)) = ?P @ [(k, i_val ?n)]" using tk ap False k by simp
    have "numusehash_loop N t (Suc i) nums ause tot =
        numusehash_loop N t i nums1 (ause + (if small_key N k MAXASIZE then 1 else 0)) (tot + 1)"
      using g False k n1(1) by simp
    moreover obtain nums' where n2: "numusehash_loop N t i nums1 (ause + (if small_key N k MAXASIZE then 1 else 0)) (tot + 1) =
        Some (nums', ause + (if small_key N k MAXASIZE then 1 else 0) + int (small_items N ?P MAXASIZE), tot + 1 + int (length ?P))"
      "counts nums' (\<lambda>m. f m + (if small_key N k m then 1 else 0) + int (small_items N ?P m))"
      using Suc.IH [OF _ n1(2)] Suc.prems(1) by fastforce
    moreover have "int (small_items N (?P @ [(k, i_val ?n)]) m) = (if small_key N k m then 1 else 0) + int (small_items N ?P m)" for m
      by simp
    ultimately show ?thesis unfolding items
      by (intro exI [of _ nums']) (simp only: add.assoc length_append list.size of_nat_add of_nat_1 add.commute [of 1], simp)
  qed
qed

section \<open>The new sizes\<close>

lemma upto_slice_Suc: "Suc j < length nums \<Longrightarrow> upto_slice nums (Suc j) = upto_slice nums j + nums ! Suc j"
  by (simp add: upto_slice_def take_Suc_conv_app_nth)

text \<open>The first counter that leaves its slice stops the loop, at the latest in the last slice.\<close>

lemma computesizes_loop_ok:
  assumes "length nums = 27" "i \<le> 26" "\<forall>j < 27. 0 \<le> nums ! j" "upto_slice nums 26 = narray"
    "a = sum_list (take i nums)" "n = 0 \<and> na = 0 \<or> (\<exists>j < i. n = 2 ^ j \<and> na = upto_slice nums j)"
  shows "\<exists>n' na'. computesizes_loop nums narray i (2 ^ i) a na n = Some (n', na') \<and>
    (n' = 0 \<and> na' = 0 \<or> (\<exists>j \<le> 26. n' = 2 ^ j \<and> na' = upto_slice nums j))"
  using assms
proof (induction "26 - i" arbitrary: i a n na)
  case 0
  then have i: "i = 26" by simp
  have "take (Suc 26) nums = take 26 nums @ [nums ! 26]" using 0(2) by (intro take_Suc_conv_app_nth) simp
  then have "narray = a + nums ! 26" using 0(5,6) i unfolding upto_slice_def by simp
  moreover have "0 \<le> nums ! 26" using 0(4) by simp
  ultimately have a1: "(if nums ! 26 > 0 then a + nums ! 26 else a) = narray" by simp
  have "na = upto_slice nums j \<Longrightarrow> j < i \<Longrightarrow> j \<le> 26" for j using i by simp
  then show ?case
    using 0(2,5,7) i a1 by (subst computesizes_loop.simps) (auto simp: Let_def)
next
  case (Suc d)
  have i: "i < 26" using Suc.hyps(2) by simp
  let ?a1 = "if nums ! i > 0 then a + nums ! i else a"
  have nn: "0 \<le> nums ! i" using Suc.prems(3) i by simp
  have a1: "?a1 = sum_list (take (Suc i) nums)"
    using nn Suc.prems(1,5) i by (auto simp: take_Suc_conv_app_nth)
  obtain n1 na1 where n1: "(if nums ! i > 0 \<and> ?a1 > 2 ^ i div 2 then (2 ^ i, ?a1) else (n, na)) = (n1, na1)" by fastforce
  have n1': "n1 = 0 \<and> na1 = 0 \<or> (\<exists>j < Suc i. n1 = 2 ^ j \<and> na1 = upto_slice nums j)"
  proof (cases "nums ! i > 0 \<and> ?a1 > 2 ^ i div 2")
    case True
    then have "n1 = 2 ^ i" "na1 = upto_slice nums i" using n1 a1 by (auto simp: upto_slice_def split: if_splits)
    then show ?thesis by blast
  next
    case False
    then have "n1 = n" "na1 = na" using n1 by (auto split: if_splits)
    then show ?thesis using Suc.prems(6) less_Suc_eq by metis
  qed
  have p2: "c_int (2 ^ i * 2) = 2 ^ Suc i" using i by (simp add: c_int_double)
  have step: "computesizes_loop nums narray i (2 ^ i) a na n =
      (if 2 ^ i div 2 < narray then if ?a1 = narray then Some (n1, na1) else computesizes_loop nums narray (Suc i) (2 ^ Suc i) ?a1 na1 n1
       else Some (n, na))"
    using i Suc.prems(1) n1 p2 by (subst computesizes_loop.simps) (simp add: Let_def)
  have "\<exists>n' na'. computesizes_loop nums narray (Suc i) (2 ^ Suc i) ?a1 na1 n1 = Some (n', na') \<and>
    (n' = 0 \<and> na' = 0 \<or> (\<exists>j \<le> 26. n' = 2 ^ j \<and> na' = upto_slice nums j))"
    using Suc.hyps(2) i Suc.prems a1 n1' by (intro Suc.hyps(1)) auto
  moreover have "n1 = 0 \<and> na1 = 0 \<or> (\<exists>j \<le> 26. n1 = 2 ^ j \<and> na1 = upto_slice nums j)"
    using n1' i by (metis less_Suc_eq_le less_imp_le_nat order_trans)
  moreover have "n = 0 \<and> na = 0 \<or> (\<exists>j \<le> 26. n = 2 ^ j \<and> na = upto_slice nums j)"
    using Suc.prems(6) i by (metis less_imp_le_nat order_trans)
  ultimately show ?case unfolding step by auto
qed

lemma computesizes_ok:
  assumes "counts nums f" "\<forall>j < 27. 0 \<le> nums ! j" "f (2 ^ 26) = narray"
  shows "\<exists>n na. computesizes nums narray = Some (n, na) \<and> (n = 0 \<and> na = 0 \<or> (\<exists>j \<le> 26. n = 2 ^ j \<and> na = f (2 ^ j)))"
proof -
  have "\<exists>n' na'. computesizes_loop nums narray 0 (2 ^ 0) 0 0 0 = Some (n', na') \<and>
    (n' = 0 \<and> na' = 0 \<or> (\<exists>j \<le> 26. n' = 2 ^ j \<and> na' = upto_slice nums j))"
    by (rule computesizes_loop_ok) (use assms in \<open>auto simp: counts_def\<close>)
  then show ?thesis using assms(1) unfolding computesizes_def counts_def by auto
qed

text \<open>Partial sums that never fall come from counters that are not negative.\<close>

lemma counts_nonneg:
  assumes "counts nums f" "\<And>m n. m \<le> n \<Longrightarrow> f m \<le> f n" "0 \<le> f 1"
  shows "\<forall>j < 27. 0 \<le> nums ! j"
proof (intro allI impI)
  fix j :: nat assume j: "j < 27"
  have l: "length nums = 27" using assms(1) by (simp add: counts_def)
  show "0 \<le> nums ! j"
  proof (cases j)
    case 0
    have "upto_slice nums 0 = f (2 ^ 0)" using assms(1) unfolding counts_def by blast
    moreover have "take (Suc 0) nums = [] @ [nums ! 0]" using take_Suc_conv_app_nth [of 0 nums] l by simp
    then have "upto_slice nums 0 = nums ! 0" unfolding upto_slice_def by simp
    ultimately show ?thesis using assms(3) 0 by simp
  next
    case (Suc i)
    have "upto_slice nums (Suc i) = upto_slice nums i + nums ! Suc i" using Suc j l by (intro upto_slice_Suc) simp
    moreover have "upto_slice nums (Suc i) = f (2 ^ Suc i)" "upto_slice nums i = f (2 ^ i)"
      using assms(1) Suc j unfolding counts_def by auto
    moreover have "f (2 ^ i) \<le> f (2 ^ Suc i)" by (rule assms(2)) simp
    ultimately show ?thesis using Suc by simp
  qed
qed

section \<open>The best size\<close>

text \<open>More than half of the first \<open>2 ^ j\<close> indices are in use.\<close>

definition half_used :: "int list \<Rightarrow> nat \<Rightarrow> bool" where
  "half_used nums j \<longleftrightarrow> 2 ^ j < 2 * upto_slice nums j"

lemma upto_slice_mono:
  assumes "length nums = 27" "\<forall>j < 27. 0 \<le> nums ! j" "i \<le> j" "j \<le> 26"
  shows "upto_slice nums i \<le> upto_slice nums j"
  using assms(3,4)
proof (induction j)
  case (Suc j)
  have "0 \<le> nums ! Suc j" using assms(2) Suc.prems(2) by simp
  then show ?case
    using Suc assms(1) upto_slice_Suc [of j nums] by (cases "i = Suc j") (auto simp: le_Suc_eq)
qed simp

lemma half_slice: "a > 2 ^ i div 2 \<longleftrightarrow> 2 ^ i < 2 * a" for a :: int
  by (cases i) auto

lemma computesizes_loop_best:
  assumes "length nums = 27" "i \<le> 26" "\<forall>j < 27. 0 \<le> nums ! j" "upto_slice nums 26 = narray"
    "\<forall>j \<le> 26. upto_slice nums j \<le> 2 ^ j" "a = sum_list (take i nums)"
    "n = 0 \<or> (\<exists>j \<le> 26. n = 2 ^ j \<and> half_used nums j)" "\<forall>j < i. half_used nums j \<longrightarrow> 2 ^ j \<le> n"
    "computesizes_loop nums narray i (2 ^ i) a na n = Some (n', na')"
  shows "(n' = 0 \<or> (\<exists>j \<le> 26. n' = 2 ^ j \<and> half_used nums j)) \<and> (\<forall>j \<le> 26. half_used nums j \<longrightarrow> 2 ^ j \<le> n')"
  using assms(2,6-9)
proof (induction "26 - i" arbitrary: i a n na rule: less_induct)
  case less
  have i: "i \<le> 26" by (rule less.prems(1))
  let ?a1 = "if nums ! i > 0 then a + nums ! i else a"
  have nn: "0 \<le> nums ! i" using assms(3) i by simp
  have tk: "take (Suc i) nums = take i nums @ [nums ! i]" using assms(1) i by (intro take_Suc_conv_app_nth) simp
  have a1: "?a1 = upto_slice nums i" using nn tk less.prems(2) by (auto simp: upto_slice_def)
  have p2: "c_int (2 ^ i * 2) = 2 ^ Suc i" using i by (rule c_int_double)
  have later: "half_used nums j \<Longrightarrow> upto_slice nums j \<le> 2 ^ i div 2 \<Longrightarrow> i \<le> j \<Longrightarrow> False" for j
  proof -
    assume h: "half_used nums j" "upto_slice nums j \<le> 2 ^ i div 2" "i \<le> j"
    have "(2::int) ^ i \<le> 2 ^ j" using h(3) by (intro power_increasing) simp_all
    moreover have "2 * (2 ^ i div 2) \<le> (2::int) ^ i" by simp
    ultimately show False using h(1,2) unfolding half_used_def by linarith
  qed
  show ?case
  proof (cases "2 ^ i div 2 < narray")
    case False
    then have "n' = n" using less.prems(5) by (subst (asm) computesizes_loop.simps) simp
    moreover have "2 ^ j \<le> n" if "j \<le> 26" "half_used nums j" for j
    proof (cases "j < i")
      case False
      have "upto_slice nums j \<le> 2 ^ i div 2"
        using upto_slice_mono [OF assms(1,3) that(1) order_refl] assms(4) \<open>\<not> 2 ^ i div 2 < narray\<close> by linarith
      then show ?thesis using later [OF that(2)] False by simp
    qed (use that less.prems(4) in blast)
    ultimately show ?thesis using less.prems(3) by blast
  next
    case True
    obtain n1 na1 where n1: "(if nums ! i > 0 \<and> ?a1 > 2 ^ i div 2 then (2 ^ i, ?a1) else (n, na)) = (n1, na1)" by fastforce
    have step: "(if ?a1 = narray then Some (n1, na1) else computesizes_loop nums narray (Suc i) (2 ^ Suc i) ?a1 na1 n1) = Some (n', na')"
      using less.prems(5) True i assms(1) n1 p2 by (subst (asm) computesizes_loop.simps) (auto simp: Let_def split: if_splits)
    have here: "n1 = 2 ^ i" if "half_used nums i"
    proof -
      have gt: "?a1 > 2 ^ i div 2" using that half_slice a1 unfolding half_used_def by simp
      have "nums ! i > 0"
      proof (rule ccontr)
        assume "\<not> nums ! i > 0"
        then have z: "nums ! i = 0" using nn by simp
        show False
        proof (cases i)
          case 0
          then show False using gt a1 z tk by (simp add: upto_slice_def)
        next
          case (Suc m)
          have "upto_slice nums i = upto_slice nums m" using upto_slice_Suc [of m nums] assms(1) i Suc z by simp
          moreover have "upto_slice nums m \<le> 2 ^ m" using assms(5) i Suc by simp
          ultimately show False using gt a1 Suc by simp
        qed
      qed
      then show ?thesis using gt n1 by (simp split: if_splits)
    qed
    have ncase: "n1 = n \<or> n1 = 2 ^ i \<and> half_used nums i"
      using n1 a1 half_slice unfolding half_used_def by (auto split: if_splits)
    have grow: "2 ^ j \<le> n1" if "j < Suc i" "half_used nums j" for j
    proof (cases "j = i")
      case False
      have "(2::int) ^ j \<le> 2 ^ i" using that(1) by (intro power_increasing) simp_all
      then show ?thesis using ncase that False less.prems(4) by auto
    qed (use here that in simp)
    have form: "n1 = 0 \<or> (\<exists>j \<le> 26. n1 = 2 ^ j \<and> half_used nums j)" using ncase less.prems(3) i by blast
    show ?thesis
    proof (cases "?a1 = narray")
      case True
      then have "n' = n1" using step by simp
      moreover have "2 ^ j \<le> n1" if j: "j \<le> 26" "half_used nums j" for j
      proof (cases "j < Suc i")
        case False
        have "upto_slice nums j = upto_slice nums i"
          using upto_slice_mono [OF assms(1,3), of i j] upto_slice_mono [OF assms(1,3) j(1) order_refl] False j(1) assms(4) True a1 by simp
        also have "\<dots> \<le> 2 ^ Suc i div 2" using assms(5) i by simp
        finally have "upto_slice nums j \<le> 2 ^ Suc i div 2" .
        moreover have "(2::int) ^ Suc i \<le> 2 ^ j" using False by (intro power_increasing) simp_all
        ultimately show ?thesis using j(2) unfolding half_used_def by simp
      qed (use grow j in blast)
      ultimately show ?thesis using form by blast
    next
      case False
      have "i < 26"
      proof (rule ccontr)
        assume "\<not> i < 26"
        then have "i = 26" using i by simp
        then show False using False a1 assms(4) by simp
      qed
      then show ?thesis
        using less.hyps [of "Suc i" ?a1 n1 na1] False step grow form a1 by (simp add: upto_slice_def)
    qed
  qed
qed

text \<open>
  C13: The array part gets the best size: zero, or the largest power of two of whose indices more than
  half are in use, together with the number of keys that go there. No counter outside the array of
  counts is read. The comment at the head of \<^verbatim>\<open>ltable.c\<close> says "at least half"; the code asks for more than half, so a
  size of which exactly half is in use is not chosen.
\<close>

theorem computesizes_best:
  assumes "length nums = 27" "\<forall>j < 27. 0 \<le> nums ! j" "\<forall>j \<le> 26. upto_slice nums j \<le> 2 ^ j"
  shows "\<exists>n na. computesizes nums (upto_slice nums 26) = Some (n, na) \<and>
    (n = 0 \<and> na = 0 \<or> (\<exists>j \<le> 26. n = 2 ^ j \<and> na = upto_slice nums j \<and> half_used nums j)) \<and>
    (\<forall>j \<le> 26. half_used nums j \<longrightarrow> 2 ^ j \<le> n)"
proof -
  have l: "computesizes nums (upto_slice nums 26) = computesizes_loop nums (upto_slice nums 26) 0 (2 ^ 0) 0 0 0"
    by (simp add: computesizes_def)
  obtain n na where n: "computesizes nums (upto_slice nums 26) = Some (n, na)"
    "n = 0 \<and> na = 0 \<or> (\<exists>j \<le> 26. n = 2 ^ j \<and> na = upto_slice nums j)"
    using computesizes_loop_ok [OF assms(1) _ assms(2) refl, of 0 0 0 0] unfolding l by auto
  have b: "(n = 0 \<or> (\<exists>j \<le> 26. n = 2 ^ j \<and> half_used nums j)) \<and> (\<forall>j \<le> 26. half_used nums j \<longrightarrow> 2 ^ j \<le> n)"
    by (rule computesizes_loop_best [OF assms(1) _ assms(2) refl assms(3), of 0 0 0 0 n na]) (use n(1) l in simp_all)
  have "n = 0 \<and> na = 0 \<or> (\<exists>j \<le> 26. n = 2 ^ j \<and> na = upto_slice nums j \<and> half_used nums j)"
    using n(2) b by auto
  then show ?thesis using n(1) b by blast
qed

theorem computesizes_best_witness:
  "\<exists>n na. computesizes (1 # 1 # replicate 25 0) (upto_slice (1 # 1 # replicate 25 0) 26) = Some (n, na) \<and>
    (n = 0 \<and> na = 0 \<or> (\<exists>j \<le> 26. n = 2 ^ j \<and> na = upto_slice (1 # 1 # replicate 25 0) j \<and> half_used (1 # 1 # replicate 25 0) j)) \<and>
    (\<forall>j \<le> 26. half_used (1 # 1 # replicate 25 0) j \<longrightarrow> 2 ^ j \<le> n)"
proof (rule computesizes_best)
  show "\<forall>j < 27. 0 \<le> (1 # 1 # replicate 25 (0 :: int)) ! j" by (auto simp: nth_Cons split: nat.splits)
  show "\<forall>j \<le> 26. upto_slice (1 # 1 # replicate 25 0) j \<le> 2 ^ j"
  proof (intro allI impI)
    fix j :: nat
    show "upto_slice (1 # 1 # replicate 25 0) j \<le> 2 ^ j"
    proof (cases j)
      case (Suc i)
      have "(2::int) ^ 1 \<le> 2 ^ Suc i" by (intro power_increasing) simp_all
      then show ?thesis using Suc by (simp add: upto_slice_def take_Cons' sum_list_replicate)
    qed (simp add: upto_slice_def)
  qed
qed simp

end
