(* ===== verification/LuaTableSet.thy ===== *)
theory LuaTableSet
  imports LuaTableCount
begin

text \<open>
  The rehash makes room for one more key, so setting a key always ends: it gives the place of the
  key, or the error that the table or the memory is exhausted, and a table with the same entries.
\<close>

section \<open>Rehash\<close>

lemma used_mono: "a \<le> b \<Longrightarrow> used arr a \<le> used arr b"
  by (simp add: used_split)

lemma small_items_mono: "m \<le> n \<Longrightarrow> small_items N ps m \<le> small_items N ps n"
  by (induction ps) auto

lemma small_items_rev: "small_items N (rev ps) m = small_items N ps m"
  by (simp add: small_items_def rev_filter [symmetric])

lemma node_items_rev: "node_items (rev xs) = rev (node_items xs)"
  by (simp add: node_items_def rev_map rev_filter)

lemma small_items_compl:
  "length (filter (\<lambda>p. \<not> small_key N (fst p) m) ps) + small_items N ps m = length ps"
  by (induction ps) auto

lemma array_items_bound:
  assumes N: "num_ok N" and s: "sizearray t \<le> MAXASIZE" and na: "0 \<le> na"
  shows "length (filter (\<lambda>p. \<not> small_key N (fst p) na) (array_items N (array t) [nat na..<nat (sizearray t)])) =
    length (filter (\<lambda>i. array t ! i \<noteq> Nil_value) [nat na..<nat (sizearray t)])"
proof -
  have "\<not> small_key N (fst p) na" if "p \<in> set (array_items N (array t) [nat na..<nat (sizearray t)])" for p
  proof -
    from that obtain i where i: "p = (Number (cast_num N (int i + 1)), array t ! i)" "nat na \<le> i" "i < nat (sizearray t)"
      by (auto simp: array_items_def)
    have "is_int (int i + 1)" using i(3) s by (simp add: is_int_def MAXASIZE_def)
    from arrayindex_cast [OF N this] show ?thesis using i na by (simp del: arrayindex.simps)
  qed
  then have "filter (\<lambda>p. \<not> small_key N (fst p) na) (array_items N (array t) [nat na..<nat (sizearray t)]) =
      array_items N (array t) [nat na..<nat (sizearray t)]" by (intro filter_True) blast
  then show ?thesis by (simp add: array_items_def)
qed

text \<open>The keys that the counts leave for the hash part.\<close>

lemma hash_bound_count:
  assumes N: "num_ok N" and ok: "core_ok N t" and na: "0 \<le> na"
  shows "int (hash_bound N t na) =
    int (used (array t) (nat (sizearray t))) - int (used (array t) (min (nat na) (nat (sizearray t)))) +
    int (length (node_items (nodes_of t))) - int (small_items N (node_items (nodes_of t)) na)"
proof -
  have s: "sizearray t \<le> MAXASIZE" using core_okD(2) [OF ok] by (simp add: array_shape_def)
  have "used (array t) (nat (sizearray t)) = used (array t) (min (nat na) (nat (sizearray t))) +
      length (filter (\<lambda>i. array t ! i \<noteq> Nil_value) [nat na..<nat (sizearray t)])"
  proof (cases "nat na \<le> nat (sizearray t)")
    case True
    then show ?thesis using used_split [OF True, of "array t"] by (simp add: min_absorb1)
  qed simp
  moreover have "length (filter (\<lambda>p. \<not> small_key N (fst p) na) (node_items (rev (nodes_of t)))) + small_items N (node_items (nodes_of t)) na
      = length (node_items (nodes_of t))"
    using small_items_compl [of N na "node_items (rev (nodes_of t))"] by (simp add: node_items_rev small_items_rev)
  ultimately show ?thesis
    using array_items_bound [OF N s na] by (simp add: hash_bound_def items_of_def)
qed

lemma full_slot: "num_ok N \<Longrightarrow> core_ok N t \<Longrightarrow> valid_key N k \<Longrightarrow> full t \<Longrightarrow> slot_ok N t k r \<Longrightarrow>
    \<forall>k' w. (k', w) \<in> entries N t \<longrightarrow> \<not> same N k' k \<Longrightarrow> \<not> in_array N t k \<Longrightarrow> r = nilobject"
proof (cases r)
  case (In_node i)
  assume a: "num_ok N" "core_ok N t" "valid_key N k" "full t" "slot_ok N t k r"
    "\<forall>k' w. (k', w) \<in> entries N t \<longrightarrow> \<not> same N k' k" "\<not> in_array N t k"
  obtain b where b: "i < length (nodes_of t)" "kv (nodes_of t ! i) = (Key b, i_val (nodes_of t ! i))" "same N b k"
    using a(5) In_node by (auto simp: slot_ok_def rawequal_key_iff kv_def)
  then have m: "(Key b, i_val (nodes_of t ! i)) \<in># kvs t" unfolding kvs_mem by metis
  have "b \<noteq> Nil_value" using same_valid [OF a(1) same_sym [OF a(1) b(3)] a(3)] by auto
  then have "(b, i_val (nodes_of t ! i)) \<in> entries N t" using a(4) m by (auto simp: full_def entries_def hash_entries_def)
  then show ?thesis using a(6) b(3) by blast
qed (auto simp: slot_ok_def)

lemma card_entries:
  assumes N: "num_ok N" and ok: "core_ok N t"
  shows "card (entries N t) = used (array t) (nat (sizearray t)) + length (node_items (nodes_of t))"
proof -
  have "staying N t 0 = {}"
    using array_entry(1) [OF N core_okD(2) [OF ok]] by (force simp: staying_def in_array_def)
  then have e: "set (items_of N t 0) = entries N t" using items_entries [OF N ok, of 0] by simp
  have "distinct ps" if "distinct_keys N ps" "\<forall>p \<in> set ps. valid_key N (fst p)" for ps :: "('a TValue \<times> 'a TValue) list"
    using that
  proof (induction ps)
    case (Cons p ps)
    then show ?case using same_refl [of N "fst p"] by auto
  qed simp
  moreover have "valid_key N (fst p)" if "p \<in> set (items_of N t 0)" for p
    using entry_valid(1) [OF N ok, of "fst p" "snd p"] that e by simp
  ultimately have "distinct (items_of N t 0)" using items_distinct [OF N ok] by blast
  from distinct_card [OF this] show ?thesis
    unfolding e by (simp add: items_of_def array_items_def used_def node_items_rev)
qed

text \<open>A new key fits after a rehash that counted it.\<close>

lemma rehash_ok:
  assumes N: "num_ok N" and ok: "table_ok N t" and k: "valid_key N ek"
  shows "returns_if (all_granted gr \<and> card (entries N t) < 2 ^ 26) (rehash_with (newkey N gr) N gr t ek) (\<lambda>t'. table_ok N t' \<and> full t' \<and> entries N t' = entries N t \<and>
    (in_array N t' ek \<or> room N t' ek))"
proof -
  have core: "core_ok N t" and sz: "sizearray t = int (length (array t))" using ok by (simp_all add: table_ok_def)
  let ?s = "length (array t)" and ?P = "node_items (nodes_of t)"
  have sle: "?s \<le> 2 ^ 26" using core_okD(2) [OF core] sz by (simp add: array_shape_def MAXASIZE_def)
  obtain nums1 where n1: "numusearray t (replicate (nat MAXBITS + 1) 0) = Some (nums1, int (used (array t) ?s))"
    "counts nums1 (\<lambda>m. int (used (array t) (min (nat m) ?s)))" using numusearray_ok [OF sz _ sle] by blast
  have "\<forall>n \<in> set (nodes_of t). i_val n \<noteq> Nil_value \<longrightarrow> (\<exists>k. i_key n = Key k)" using valued_nodes [OF core] by blast
  from numusehash_loop_ok [OF this order_refl n1(2), of N 0 0] obtain nums2 where
    n2: "numusehash_loop N t (length (nodes_of t)) nums1 0 0 = Some (nums2, int (small_items N ?P MAXASIZE), int (length ?P))"
      "counts nums2 (\<lambda>m. int (used (array t) (min (nat m) ?s)) + int (small_items N ?P m))" by auto
  have sn: "nat (sizenode t) = length (nodes_of t)"
    using length_nodes [OF core_okD(1) [OF core]] by (simp add: sizenode_def twoto_def nat_power_eq)
  let ?f = "\<lambda>m. int (used (array t) (min (nat m) ?s)) + int (small_items N ?P m) + (if small_key N ek m then 1 else 0)"
  obtain nums3 where n3: "countint N ek nums2 = Some (nums3, if small_key N ek MAXASIZE then 1 else 0)" "counts nums3 ?f"
    using countint_ok [OF n2(2)] by blast
  have mono: "?f m \<le> ?f n" if "m \<le> n" for m n
    using that used_mono [of "min (nat m) ?s" "min (nat n) ?s" "array t"] small_items_mono [OF that, of N ?P]
    by (auto simp: nat_mono min.coboundedI1 intro!: add_mono)
  have "0 \<le> ?f 1" by simp
  from counts_nonneg [OF n3(2) mono this] have nn: "\<forall>j < 27. 0 \<le> nums3 ! j" .
  let ?nasize = "int (used (array t) ?s) + int (small_items N ?P MAXASIZE) + (if small_key N ek MAXASIZE then 1 else 0)"
  have "?f (2 ^ 26) = ?nasize" using sle by (simp add: MAXASIZE_def min_absorb2)
  from computesizes_ok [OF n3(2) nn this] obtain n na where
    c: "computesizes nums3 ?nasize = Some (n, na)" "n = 0 \<and> na = 0 \<or> (\<exists>j \<le> 26. n = 2 ^ j \<and> na = ?f (2 ^ j))" by blast
  have n: "0 \<le> n" "n \<le> MAXASIZE"
  proof -
    have "(2::int) ^ j \<le> 2 ^ 26" if "j \<le> 26" for j using that by (intro power_increasing) simp_all
    then show "0 \<le> n" "n \<le> MAXASIZE" using c(2) by (auto simp: MAXASIZE_def)
  qed
  have f0: "?f 0 = 0" by (simp add: used_def small_items_def)
  have na: "na = ?f n" using c(2) f0 by auto
  let ?nh = "int (used (array t) ?s) + int (length ?P) + 1 - na"
  have hb: "?nh = int (hash_bound N t n) + (if small_key N ek n then 0 else 1)"
    using hash_bound_count [OF N core n(1)] na sz by auto
  have small: "?nh \<le> INT_MAX"
  proof -
    have "length ?P \<le> length (nodes_of t)" by (simp add: node_items_def)
    also have "\<dots> \<le> 2 ^ 26"
      using core_okD(1) [OF core] length_nodes [OF core_okD(1) [OF core]] power_increasing [of "lsizenode t" 26 "2::nat"]
      by (auto simp: nodes_shape_def split: nodes.splits)
    finally have "int (length ?P) \<le> 67108864" by simp
    moreover have "int (used (array t) ?s) \<le> 67108864" using used_le [of "array t" ?s] sle by simp
    moreover have "0 \<le> na" using na by simp
    ultimately show ?thesis by linarith
  qed
  have "rehash_with (newkey N gr) N gr t ek = resize N gr t n ?nh"
    using n1(1) n2(1) n3(1) c(1) sn by (simp add: rehash_with_def numusehash_def resize_def)
  moreover have rz: "returns_if (all_granted gr \<and> ?nh \<le> MAXASIZE) (resize N gr t n ?nh) (\<lambda>t'. resized N t n t' \<and> nat ?nh \<le> capacity t')"
    by (rule resize_ok [OF N ok n]) (use hb small in \<open>auto split: if_splits\<close>)
  moreover have "table_ok N t' \<and> full t' \<and> entries N t' = entries N t \<and> (in_array N t' ek \<or> room N t' ek)"
    if "resized N t n t' \<and> nat ?nh \<le> capacity t'" for t'
  proof -
    have "room N t' ek" if "\<not> in_array N t' ek"
    proof (rule nkeys_room)
      have "\<not> small_key N ek n" using that \<open>resized N t n t' \<and> nat ?nh \<le> capacity t'\<close> by (simp add: in_array_def resized_def)
      then have "?nh = int (hash_bound N t n) + 1" using hb by simp
      then show "nkeys (kvs t') < capacity t'" using \<open>resized N t n t' \<and> nat ?nh \<le> capacity t'\<close> unfolding resized_def by linarith
    qed
    then show ?thesis using that unfolding resized_def by blast
  qed
  moreover have "?nh \<le> MAXASIZE" if "card (entries N t) < 2 ^ 26"
    using that card_entries [OF N core] sz na by (simp add: MAXASIZE_def)
  ultimately show ?thesis using returns_if_mono [OF rz] by simp
qed

section \<open>Insertion\<close>

lemma core_lastfree:
  assumes "core_ok N t" "\<forall>xs. node t = Nodes xs \<longrightarrow> l \<le> lastfree t \<and> (\<forall>n \<in> set xs. \<not> nokey n)"
    "node t = dummynode \<longrightarrow> l \<le> 0"
  shows "core_ok N (t\<lparr>lastfree := l\<rparr>)" "entries N (t\<lparr>lastfree := l\<rparr>) = entries N t"
    "slot_ok N (t\<lparr>lastfree := l\<rparr>) k r = slot_ok N t k r" "kvs (t\<lparr>lastfree := l\<rparr>) = kvs t"
proof -
  let ?t = "t\<lparr>lastfree := l\<rparr>"
  have "nodes_shape ?t" using core_okD(1) [OF assms(1)] assms(2,3) by (cases "node t") (auto simp: nodes_shape_def)
  moreover have "mainposition N ?t = mainposition N t" by (rule mainposition_cong) simp
  moreover show kv: "kvs ?t = kvs t" by (simp add: kvs_def)
  moreover have "keys_ok N ?t = keys_ok N t" by (rule keys_ok_cong) simp
  ultimately show "core_ok N ?t" using assms(1) by (simp add: core_ok_def array_shape_def)
  show "entries N ?t = entries N t" by (simp add: entries_def array_entries_def kv)
  show "slot_ok N ?t k r = slot_ok N t k r" by (cases r) (simp_all add: slot_ok_def in_array_def)
qed

text \<open>What setting a key gives: its place in a table with the same entries.\<close>

definition slot_given :: "'n num_ops \<Rightarrow> 'n Table \<Rightarrow> 'n TValue \<Rightarrow> 'n Table \<times> tvref \<Rightarrow> bool" where
  "slot_given N t k p \<longleftrightarrow> (case p of (t', r) \<Rightarrow>
     table_ok N t' \<and> entries N t' = entries N t \<and> slot_ok N t' k r \<and> r \<noteq> nilobject)"

lemma placed_given:
  assumes "num_ok N" "table_ok N t" "valid_key N k" "slot_ok N t k nilobject" "placed N t t' k i"
  shows "slot_given N t k (t', In_node i)"
proof -
  have "core_ok N t" using assms(2) by (simp add: table_ok_def)
  note p = placed_ok [OF assms(1) this assms(3-5)]
  then show ?thesis using assms(2,5) unfolding slot_given_def table_ok_def placed_def by simp
qed

lemma newkey_ok:
  assumes N: "num_ok N" and ok: "table_ok N t" and k: "valid_key N k" and s: "slot_ok N t k nilobject"
  shows "returns_if (all_granted gr \<and> card (entries N t) < 2 ^ 26) (newkey N gr t k) (slot_given N t k)"
proof (cases "room N t k")
  case True
  have core: "core_ok N t" using ok by (simp add: table_ok_def)
  obtain t' i where "newkey N gr t k = rreturn (t', In_node i)" "placed N t t' k i"
    using newkey_room [OF core k True, of gr] by blast
  then show ?thesis using placed_given [OF N ok k s] by simp
next
  case False
  have core: "core_ok N t" using ok by (simp add: table_ok_def)
  have kk: "k \<noteq> Nil_value" "k \<noteq> Null_string" using k by auto
  obtain m where m: "mainposition N t k = Some m" "m < length (nodes_of t)"
    using mainposition_less [OF core_okD(1) [OF core] kk] by blast
  have g: "gnode t m = Some (nodes_of t ! m)" using m(2) by (simp add: gnode_nth)
  have none: "\<exists>l. getfreepos t = Some (t\<lparr>lastfree := l\<rparr>, None) \<and>
      (\<forall>xs. node t = Nodes xs \<longrightarrow> l \<le> lastfree t \<and> (\<forall>n \<in> set xs. \<not> nokey n)) \<and> (node t = dummynode \<longrightarrow> l \<le> 0)"
  proof (cases "node t")
    case dummynode
    then have "lastfree t \<le> 0" using core_okD(1) [OF core] by (simp add: nodes_shape_def)
    then show ?thesis using dummynode by (subst getfreepos.simps) (auto simp: Let_def)
  next
    case (Nodes xs)
    have xs: "nodes_of t = xs" using Nodes by (simp add: node_list_def)
    have nk: "\<not> nokey (xs ! i)" if "i < length xs" for i using False that Nodes xs by (auto simp: room_def)
    have "lastfree t \<le> int (length xs)" using core_okD(1) [OF core] Nodes by (simp add: nodes_shape_def)
    from getfreepos_ok [OF Nodes this] obtain l r where r: "getfreepos t = Some (t\<lparr>lastfree := l\<rparr>, r)"
      "case r of
         None \<Rightarrow> l \<le> lastfree t \<and> (\<forall>i. int i < lastfree t \<longrightarrow> \<not> nokey (xs ! i))
       | Some n \<Rightarrow> n < length xs \<and> nokey (xs ! n) \<and> l = int n \<and> l < lastfree t \<and>
           (\<forall>i. n < i \<longrightarrow> int i < lastfree t \<longrightarrow> \<not> nokey (xs ! i))" by blast
    then have "r = None" using nk by (cases r) auto
    then show ?thesis using r Nodes nk by (intro exI [of _ l]) (auto simp: in_set_conv_nth)
  qed
  then obtain l where l: "getfreepos t = Some (t\<lparr>lastfree := l\<rparr>, None)"
    "\<forall>xs. node t = Nodes xs \<longrightarrow> l \<le> lastfree t \<and> (\<forall>n \<in> set xs. \<not> nokey n)" "node t = dummynode \<longrightarrow> l \<le> 0" by blast
  let ?t = "t\<lparr>lastfree := l\<rparr>"
  note lf = core_lastfree [OF core l(2,3)]
  have "i_val (nodes_of t ! m) \<noteq> Nil_value \<or> node t = dummynode" using False m by (auto simp: room_def)
  then have e: "newkey N gr t k = rbind (rehash_with (newkey N gr) N gr ?t k) (\<lambda>t2. set_with (newkey N gr) N t2 k)"
    using m(1) g l(1) by (subst newkey.simps) simp
  have new: "\<not> same N k' k" if "(k', w) \<in> entries N t" for k' w
    using slot_value [OF N core k s] that entry_valid(2) [OF N core that] by auto
  have set: "returns_if (all_granted gr \<and> card (entries N t) < 2 ^ 26) (set_with (newkey N gr) N t2 k) (slot_given N t k)"
    if t2: "table_ok N t2 \<and> full t2 \<and> entries N t2 = entries N t \<and> (in_array N t2 k \<or> room N t2 k)" for t2
  proof -
    have e2: "entries N t2 = entries N t" and t2ok: "table_ok N t2" using t2 by blast+
    have c2: "core_ok N t2" using t2ok by (simp add: table_ok_def)
    let ?t2 = "t2\<lparr>flags := 0\<rparr>"
    have ok2: "table_ok N ?t2" using t2ok flags_frame(1) [OF c2] by (simp add: table_ok_def)
    obtain p where p: "luaH_get N t2 k = Some p" "slot_ok N t2 k p" using luaH_get_slot [OF N c2 k] by blast
    have st: "set_with (newkey N gr) N t2 k = (if p \<noteq> nilobject then rreturn (?t2, p) else newkey N gr ?t2 k)"
      using k p(1) by (cases k) (auto simp: set_with_def numisnan_def)
    show ?thesis
    proof (cases "p = nilobject")
      case False
      then show ?thesis unfolding st using ok2 p(2) e2 by (simp add: slot_given_def flags_frame)
    next
      case True
      then have s2: "slot_ok N ?t2 k nilobject" using p(2) by (simp add: flags_frame)
      have "\<not> in_array N t2 k" using True p(2) by (simp add: slot_ok_def)
      then have "room N ?t2 k" using t2 by (simp add: room_flags)
      from newkey_room [OF flags_frame(1) [OF c2] k this, of gr]
      obtain t' i where "newkey N gr ?t2 k = rreturn (t', In_node i)" "placed N ?t2 t' k i" by blast
      then show ?thesis
        using True placed_given [OF N ok2 k s2] e2 unfolding st by (simp add: slot_given_def flags_frame)
    qed
  qed
  have "table_ok N ?t" using ok lf(1) by (simp add: table_ok_def)
  from rehash_ok [OF N this k, of gr, unfolded lf(2)]
  show ?thesis unfolding e by (rule returns_if_bind) (rule set)
qed

lemma set_given:
  assumes N: "num_ok N" and ok: "table_ok N t" and k: "valid_key N k" and p: "slot_ok N t k p"
  shows "returns_if (all_granted gr \<and> card (entries N t) < 2 ^ 26) (if p \<noteq> nilobject then rreturn (t, p) else newkey N gr t k) (slot_given N t k)"
  using assms newkey_ok [OF N ok k] by (auto simp: slot_given_def)

lemma luaH_set_given:
  assumes N: "num_ok N" and ok: "table_ok N t" and k: "valid_key N k"
  shows "returns_if (all_granted gr \<and> card (entries N t) < 2 ^ 26) (luaH_set N gr t k) (slot_given N t k)"
proof -
  have core: "core_ok N t" using ok by (simp add: table_ok_def)
  let ?t = "t\<lparr>flags := 0\<rparr>"
  have ok2: "table_ok N ?t" using ok flags_frame(1) [OF core] by (simp add: table_ok_def)
  obtain p where p: "luaH_get N t k = Some p" "slot_ok N t k p" using luaH_get_slot [OF N core k] by blast
  have "luaH_set N gr t k = (if p \<noteq> nilobject then rreturn (?t, p) else newkey N gr ?t k)"
    using k p(1) by (cases k) (auto simp: luaH_set_def set_with_def numisnan_def)
  moreover have "slot_ok N ?t k p" using p(2) by (simp add: flags_frame)
  ultimately show ?thesis using set_given [OF N ok2 k, of p gr] by (auto simp: slot_given_def flags_frame elim!: returns_if_mono)
qed

lemma luaH_setnum_given:
  assumes N: "num_ok N" and ok: "table_ok N t" and k: "is_int k"
  shows "returns_if (all_granted gr \<and> card (entries N t) < 2 ^ 26) (luaH_setnum N gr t k) (slot_given N t (Number (cast_num N k)))"
proof -
  have core: "core_ok N t" using ok by (simp add: table_ok_def)
  obtain p where p: "luaH_getnum N t k = Some p" "slot_ok N t (Number (cast_num N k)) p"
    using luaH_getnum_slot [OF N core k] by blast
  then show ?thesis
    using set_given [OF N ok valid_cast [OF N k] p(2), of gr] by (simp add: luaH_setnum_def setnum_with_def)
qed

lemma luaH_setstr_given:
  assumes N: "num_ok N" and ok: "table_ok N t"
  shows "returns_if (all_granted gr \<and> card (entries N t) < 2 ^ 26) (luaH_setstr N gr t s) (slot_given N t (String s))"
proof -
  have core: "core_ok N t" and v: "valid_key N (String s)" using ok by (simp_all add: table_ok_def)
  obtain p where p: "luaH_get N t (String s) = Some p" "slot_ok N t (String s) p"
    using luaH_get_slot [OF N core v] by blast
  then have "luaH_getstr t s = Some p" by (simp add: luaH_get_def)
  then show ?thesis
    using set_given [OF N ok v p(2), of gr] by (simp add: luaH_setstr_def setstr_with_def)
qed

text \<open>Growing the array part keeps the entries: those of the hash part fit in one of the same size.\<close>

lemma luaH_resizearray_ok:
  assumes N: "num_ok N" and ok: "table_ok N t" and na: "sizearray t \<le> na" "na \<le> MAXASIZE"
  shows "returns_if (all_granted gr) (luaH_resizearray N gr t na) (\<lambda>t'. table_ok N t' \<and> entries N t' = entries N t \<and> sizearray t' = na)"
proof -
  have core: "core_ok N t" using ok by (simp add: table_ok_def)
  have s0: "0 \<le> sizearray t" using core_okD(2) [OF core] by (simp add: array_shape_def)
  let ?nh = "if node t = dummynode then 0 else sizenode t"
  have cap: "int (capacity t) = ?nh"
    using length_nodes [OF core_okD(1) [OF core]] by (simp add: capacity_def sizenode_def twoto_def)
  have "hash_bound N t na \<le> length (node_items (rev (nodes_of t)))"
    using na(1) s0 by (simp add: hash_bound_def items_of_def nat_mono length_filter_le)
  also have "\<dots> \<le> capacity t"
  proof (cases "node t = dummynode")
    case True
    then show ?thesis by (simp add: node_list_def empty_node_def)
  next
    case False
    then show ?thesis
      using length_filter_le [of "\<lambda>n. i_val n \<noteq> Nil_value" "rev (nodes_of t)"] by (simp add: node_items_def capacity_def)
  qed
  finally have hb: "hash_bound N t na \<le> nat ?nh" using cap by linarith
  have "capacity t \<le> 2 ^ 26"
    using core_okD(1) [OF core] length_nodes [OF core_okD(1) [OF core]] power_increasing [of "lsizenode t" 26 "2::nat"]
    by (auto simp: nodes_shape_def capacity_def split: nodes.splits)
  then have "capacity t \<le> 67108864" by simp
  then have nhs: "?nh \<le> MAXASIZE" using cap by (simp add: MAXASIZE_def)
  have "0 \<le> ?nh" "?nh \<le> INT_MAX" using cap \<open>capacity t \<le> 67108864\<close> by linarith+
  then have "0 \<le> ?nh \<and> ?nh \<le> INT_MAX" by blast
  from resize_ok [OF N ok _ na(2) hb conjunct1 [OF this] conjunct2 [OF this], of gr] s0 na(1)
  have "returns_if (all_granted gr \<and> ?nh \<le> MAXASIZE) (resize N gr t na ?nh) (\<lambda>t'. resized N t na t' \<and> nat ?nh \<le> capacity t')" by simp
  then show ?thesis unfolding luaH_resizearray_def by (rule returns_if_mono) (use nhs in \<open>simp_all add: resized_def\<close>)
qed

lemma table_ok_write:
  assumes N: "num_ok N" and k: "valid_key N k" and g: "slot_given N t k (t', r)" and ok: "core_ok N t"
  shows "\<exists>t''. write_ref t' r v = Some t'' \<and> table_ok N t'' \<and> lookup N t'' k = Some v \<and>
    (\<forall>k'. valid_key N k' \<longrightarrow> \<not> same N k' k \<longrightarrow> lookup N t'' k' = lookup N t k')"
proof -
  have g': "table_ok N t'" "core_ok N t'" "entries N t' = entries N t" "slot_ok N t' k r" "r \<noteq> nilobject"
    using g by (auto simp: slot_given_def table_ok_def)
  obtain t'' where w: "write_ref t' r v = Some t''" "core_ok N t''" "same_frame t' t''" "same N (stored_key t' r k) k"
    "\<forall>k' w. (k', w) \<in> entries N t'' \<longleftrightarrow>
      (if same N k' k then v \<noteq> Nil_value \<and> k' = stored_key t' r k \<and> w = v else (k', w) \<in> entries N t')"
    using write_slot [OF N g'(2) k g'(4,5), of v] by blast
  have "table_ok N t''" using w(2,3) g'(1) by (simp add: table_ok_def same_frame_def)
  moreover obtain u where "lookup N t'' k = Some u" "u \<noteq> Nil_value \<longrightarrow> (\<exists>k'. (k', u) \<in> entries N t'' \<and> same N k' k)"
    "\<forall>k' w. (k', w) \<in> entries N t'' \<longrightarrow> same N k' k \<longrightarrow> w = u"
    using lookup_entries [OF N w(2) k] by blast
  then have "lookup N t'' k = Some v" using w(4,5) by metis
  moreover have "lookup N t'' k' = lookup N t k'" if k': "valid_key N k'" "\<not> same N k' k" for k'
  proof (rule lookup_eq [OF N w(2) ok k'(1)])
    fix a b assume "same N a k'"
    then have "\<not> same N a k" using k'(2) same_trans [OF N same_sym [OF N], of a k' k] by blast
    then show "(a, b) \<in> entries N t'' \<longleftrightarrow> (a, b) \<in> entries N t" using w(5) g'(3) by simp
  qed
  ultimately show ?thesis using w(1) by blast
qed

section \<open>Setting a key\<close>

text \<open>
  C6: A table is a map from keys to values: on a well-formed table \<^verbatim>\<open>luaH_set\<close> ends, through any
  rehash, with the place of the key, or with an error when memory is refused or the table has 2^26 entries,
  and the value stored at the place is
  then the value of that key and of no other; the table stays well-formed.
\<close>

theorem luaH_set_updates:
  assumes "num_ok N" "table_ok N t" "valid_key N k"
  shows "\<exists>res. luaH_set N gr t k = Some res \<and>
    (all_granted gr \<and> card (entries N t) < 2 ^ 26 \<longrightarrow> \<not> isl res) \<and>
    (\<forall>t' r. res = Inr (t', r) \<longrightarrow> (\<exists>t''. write_ref t' r v = Some t'' \<and> table_ok N t'' \<and> lookup N t'' k = Some v \<and>
      (\<forall>k'. valid_key N k' \<longrightarrow> \<not> same N k' k \<longrightarrow> lookup N t'' k' = lookup N t k')))"
proof -
  have core: "core_ok N t" using assms(2) by (simp add: table_ok_def)
  obtain res where res: "luaH_set N gr t k = Some res" "\<forall>x. res = Inr x \<longrightarrow> slot_given N t k x"
      "all_granted gr \<and> card (entries N t) < 2 ^ 26 \<longrightarrow> \<not> isl res"
    using luaH_set_given [OF assms(1-3), of gr] unfolding returns_if_def by blast
  then show ?thesis using table_ok_write [OF assms(1,3) _ core] by blast
qed

lemma get_NaN:
  assumes N: "num_ok N" and ok: "core_ok N t" and x: "\<not> numeq N x x"
  shows "luaH_get N t (Number x) = Some nilobject"
proof -
  have no: "\<not> numeq N y x" for y using num_okD(1,2) [OF N] x by blast
  have "\<not> rawequal_key N (Number x) nk" for nk using no by (cases nk) auto
  moreover have "hashnum N t x < length (nodes_of t)"
    using hashnum_less [OF core_okD(1) [OF ok]] length_nodes [OF core_okD(1) [OF ok]] by simp
  ultimately have "chain_find (\<lambda>n. rawequal_key N (Number x) (i_key n)) t (hashnum N t x) = Some None"
    using chain_find_ok [OF core_okD(3) [OF ok], of "hashnum N t x" "\<lambda>n. rawequal_key N (Number x) (i_key n)"]
    by (auto split: option.splits)
  then show ?thesis using no by (simp add: luaH_get_def get_default_def node_ref_def Let_def)
qed

text \<open>
  Nil and \<^verbatim>\<open>NaN\<close> are refused as keys with the error that names them, on every well-formed table,
  and looking them up gives nil.
\<close>

theorem luaH_set_bad_key:
  assumes "num_ok N" "table_ok N t" "\<not> numeq N x x"
  shows "luaH_set N gr t Nil_value = luaL_error ''table index is nil'' \<and>
    luaH_set N gr t (Number x) = luaL_error ''table index is NaN'' \<and>
    lookup N t Nil_value = Some Nil_value \<and> lookup N t (Number x) = Some Nil_value"
proof -
  have core: "core_ok N t" using assms(2) by (simp add: table_ok_def)
  note g = get_NaN [OF assms(1) core assms(3)]
  then show ?thesis using assms(3)
    by (simp add: luaH_set_def set_with_def lookup_def luaH_get_def [of N t Nil_value] numisnan_def)
qed

text \<open>
  A new table is well-formed and empty, with the array part that was asked for and room for the
  keys that were asked for in the hash part.
\<close>

theorem luaH_new_empty:
  assumes "num_ok N" "0 \<le> narray" "narray \<le> MAXASIZE" "0 \<le> nhash" "nhash \<le> INT_MAX"
  shows "\<exists>res. luaH_new gr narray nhash = Some res \<and> (all_granted gr \<and> nhash \<le> MAXASIZE \<longrightarrow> \<not> isl res) \<and>
    (\<forall>t. res = Inr t \<longrightarrow> table_ok N t \<and> sizearray t = narray \<and> nat nhash \<le> capacity t \<and>
      (\<forall>k. valid_key N k \<longrightarrow> lookup N t k = Some Nil_value))"
proof -
  let ?t0 = "\<lparr>flags = 255, lsizenode = 0, metatable = None, array = [], node = dummynode, lastfree = 0, sizearray = 0\<rparr> :: 'a Table"
  let ?t1 = "?t0\<lparr>array := replicate (nat narray) Nil_value, sizearray := narray\<rparr>"
  have sh: "array_shape ?t1" "array_entries N ?t1 = {}" using assms(2,3) by (auto simp: array_shape_def array_entries_def)
  have "returns_if (all_granted gr \<and> nhash \<le> MAXASIZE) (setnodevector gr ?t1 nhash) (\<lambda>t. table_ok N t \<and> sizearray t = narray \<and> nat nhash \<le> capacity t \<and>
      (\<forall>k. valid_key N k \<longrightarrow> lookup N t k = Some Nil_value))"
  proof (rule returns_if_mono [OF setnodevector_ok [OF assms(4,5)]])
    fix t assume t: "blank ?t1 t \<and> nat nhash \<le> capacity t \<and> (nhash = 0 \<longrightarrow> node t = dummynode) \<and> flags t = flags ?t1"
    then have b: "blank ?t1 t" by blast
    have "table_ok N t" using blank_ok(1) [OF b sh(1)] b assms(2) by (simp add: table_ok_def blank_def)
    moreover have "entries N t = {}" using blank_ok(4) [OF b sh(1)] sh(2) by simp
    then have "lookup N t k = Some Nil_value" if "valid_key N k" for k
      using lookup_entries [OF assms(1) blank_ok(1) [OF b sh(1)] that] by auto
    ultimately show "table_ok N t \<and> sizearray t = narray \<and> nat nhash \<le> capacity t \<and>
        (\<forall>k. valid_key N k \<longrightarrow> lookup N t k = Some Nil_value)" using t b by (simp add: blank_def)
  qed
  then have "returns_if (all_granted gr \<and> nhash \<le> MAXASIZE) (luaH_new gr narray nhash) (\<lambda>t. table_ok N t \<and> sizearray t = narray \<and> nat nhash \<le> capacity t \<and>
      (\<forall>k. valid_key N k \<longrightarrow> lookup N t k = Some Nil_value))"
    using assms(2,3) alloc_granted [of gr 1 sizeof_Table] alloc_granted [of gr narray sizeof_TValue]
    by (auto simp: luaH_new_def setarrayvector_def rbind_assoc MAXASIZE_def intro!: returns_if_bind)
  then show ?thesis unfolding returns_if_def by blast
qed

end
