(* ===== verification/LuaTableWalk.thy ===== *)
theory LuaTableWalk
  imports LuaTableSet
begin

text \<open>The length of a table is a boundary of its entries, and a traversal meets every entry once, in order.\<close>

section \<open>Boundaries\<close>

definition at_index :: "'n num_ops \<Rightarrow> 'n Table \<Rightarrow> int \<Rightarrow> 'n TValue option" where
  "at_index N t k = lookup N t (Number (cast_num N k))"

definition boundary :: "'n num_ops \<Rightarrow> 'n Table \<Rightarrow> int \<Rightarrow> bool" where
  "boundary N t n \<longleftrightarrow> 0 \<le> n \<and> (n = 0 \<or> at_index N t n \<noteq> Some Nil_value) \<and> at_index N t (n + 1) = Some Nil_value"

lemma lookup_number:
  assumes "num_ok N" "is_int k"
  shows "at_index N t k = luaH_getnum N t k \<bind> read_ref t"
proof -
  have "number2int N (cast_num N k) = k" "numeq N (cast_num N k) (cast_num N k)"
    using num_okD(4,5) [OF assms(1)] assms(2) by auto
  then show ?thesis by (simp add: at_index_def lookup_def luaH_get_def Let_def)
qed

lemma at_index_total:
  assumes "num_ok N" "core_ok N t" "is_int k"
  shows "\<exists>v. at_index N t k = Some v"
  using lookup_entries [OF assms(1,2) valid_cast [OF assms(1,3)]] unfolding at_index_def by blast

lemma nil_at_index:
  assumes "num_ok N" "core_ok N t" "is_int k"
  shows "nil_at N t k = Some (at_index N t k = Some Nil_value)"
proof -
  obtain v where v: "at_index N t k = Some v" using at_index_total [OF assms] by blast
  then obtain r where "luaH_getnum N t k = Some r" "read_ref t r = Some v"
    unfolding lookup_number [OF assms(1,3)] by auto
  then show ?thesis using v by (simp add: nil_at_def)
qed

lemma array_nil_index:
  assumes "num_ok N" "table_ok N t" "0 < k" "k \<le> sizearray t"
  shows "array_nil t k = Some (at_index N t k = Some Nil_value)"
proof -
  have core: "core_ok N t" and sz: "sizearray t = int (length (array t))" using assms(2) by (simp_all add: table_ok_def)
  have i: "is_int k" using assms(3,4) MAXASIZE_bounds [OF core_okD(2) [OF core]] by (simp add: is_int_def)
  have "nat (k - 1) < length (array t)" using assms(3,4) sz by linarith
  moreover have "luaH_getnum N t k = Some (In_array (nat (k - 1)))"
    using assms(3,4) by (simp add: luaH_getnum_def getnum_test [OF i core_okD(2) [OF core]])
  ultimately show ?thesis using assms(3) lookup_number [OF assms(1) i, of t] by (simp add: array_nil_def)
qed

lemma binary_search_ok:
  assumes "0 \<le> i" "i < j" "j \<le> INT_MAX" "\<And>m. i < m \<Longrightarrow> m < j \<Longrightarrow> isnil m \<noteq> None" "isnil j = Some True"
  shows "\<exists>n. binary_search isnil i j = Some n \<and> i \<le> n \<and> n < j \<and> (n = i \<or> isnil n = Some False) \<and> isnil (n + 1) = Some True"
  using assms
proof (induction "nat (j - i)" arbitrary: i j rule: less_induct)
  case less
  have u: "c_uint (j - i) = j - i" "c_uint (i + j) = i + j" using less.prems by (simp_all add: c_uint_def)
  show ?case
  proof (cases "j - i > 1")
    case False
    then have "j = i + 1" using less.prems by simp
    then show ?thesis using less.prems(5) u by (subst binary_search.simps) simp
  next
    case True
    let ?m = "(i + j) div 2"
    have m: "i < ?m" "?m < j" using True by auto
    obtain b where b: "isnil ?m = Some b" using less.prems(4) [OF m] by blast
    have e: "binary_search isnil i j = (if b then binary_search isnil i ?m else binary_search isnil ?m j)"
      using True u b by (subst binary_search.simps) (simp add: Let_def)
    show ?thesis
    proof (cases b)
      case True
      have "\<exists>n. binary_search isnil i ?m = Some n \<and> i \<le> n \<and> n < ?m \<and> (n = i \<or> isnil n = Some False) \<and> isnil (n + 1) = Some True"
        by (rule less.hyps) (use m less.prems b True in auto)
      then show ?thesis using e True m by auto
    next
      case False
      have "\<exists>n. binary_search isnil ?m j = Some n \<and> ?m \<le> n \<and> n < j \<and> (n = ?m \<or> isnil n = Some False) \<and> isnil (n + 1) = Some True"
        by (rule less.hyps) (use m less.prems b in auto)
      then show ?thesis using e False m b by auto
    qed
  qed
qed

text \<open>A table has fewer integer keys than the largest index, so the linear search ends.\<close>

lemma few_entries:
  assumes N: "num_ok N" and ok: "table_ok N t"
  shows "\<exists>k. 1 \<le> k \<and> k \<le> 2 ^ 28 \<and> at_index N t k = Some Nil_value"
proof (rule ccontr)
  assume no: "\<not> ?thesis"
  have core: "core_ok N t" and sz: "sizearray t = int (length (array t))" using ok by (simp_all add: table_ok_def)
  have int: "is_int k" if "k \<in> {1..2 ^ 28}" for k using that by (auto simp: is_int_def)
  have "\<exists>e \<in> entries N t. same N (fst e) (Number (cast_num N k))" if k: "k \<in> {1..2 ^ 28}" for k
  proof -
    obtain v where "at_index N t k = Some v" "v \<noteq> Nil_value \<longrightarrow> (\<exists>k'. (k', v) \<in> entries N t \<and> same N k' (Number (cast_num N k)))"
      using lookup_entries [OF N core valid_cast [OF N int [OF k]]] unfolding at_index_def by blast
    moreover have "at_index N t k \<noteq> Some Nil_value" using no k by auto
    ultimately show ?thesis by force
  qed
  then obtain f where f: "\<And>k. k \<in> {1..2 ^ 28} \<Longrightarrow> f k \<in> entries N t \<and> same N (fst (f k)) (Number (cast_num N k))" by metis
  have inj: "inj_on f {1..2 ^ 28}"
  proof (rule inj_onI)
    fix j k :: int assume j: "j \<in> {1..2 ^ 28}" "k \<in> {1..2 ^ 28}" "f j = f k"
    then have "same N (Number (cast_num N j)) (Number (cast_num N k))"
      using f [OF j(1)] f [OF j(2)] same_trans [OF N same_sym [OF N]] by metis
    then show "j = k" using num_okD(4) [OF N int [OF j(1)] int [OF j(2)]] by simp
  qed
  have "staying N t 0 = {}"
    using array_entry(1) [OF N core_okD(2) [OF core]] by (force simp: staying_def in_array_def)
  then have e: "entries N t = set (items_of N t 0)" using items_entries [OF N core, of 0] by simp
  have "card (set (items_of N t 0)) \<le> length (items_of N t 0)" by (rule card_length)
  also have "\<dots> \<le> length (array t) + length (nodes_of t)"
    unfolding items_of_def array_items_def node_items_def using sz by (auto intro!: add_mono length_filter_le [THEN order_trans])
  also have "\<dots> \<le> 2 ^ 26 + 2 ^ 26"
  proof (rule add_mono)
    show "length (array t) \<le> 2 ^ 26" using MAXASIZE_bounds [OF core_okD(2) [OF core]] sz by simp
    show "length (nodes_of t) \<le> 2 ^ 26"
      using core_okD(1) [OF core] length_nodes [OF core_okD(1) [OF core]] power_increasing [of "lsizenode t" 26 "2::nat"]
      by (auto simp: nodes_shape_def split: nodes.splits)
  qed
  finally have few: "card (entries N t) \<le> 2 ^ 26 + 2 ^ 26" unfolding e .
  have "f ` {1..2 ^ 28} \<subseteq> entries N t" using f by blast
  moreover have "finite (entries N t)" unfolding e by simp
  ultimately have "card {1..(2::int) ^ 28} \<le> card (entries N t)" by (rule card_inj_on_le [OF inj])
  then have "card {1..(2::int) ^ 28} \<le> 2 ^ 26 + 2 ^ 26" using few by (rule order_trans)
  then show False by simp
qed

lemma linear_search_ok:
  assumes N: "num_ok N" and core: "core_ok N t" and k: "1 \<le> i" "i \<le> k" "k \<le> 2 ^ 28" "at_index N t k = Some Nil_value"
    and i: "i = 1 \<or> at_index N t (i - 1) \<noteq> Some Nil_value"
  shows "\<exists>n. linear_search N t i = Some n \<and> boundary N t n"
  using k i
proof (induction "nat (k - i)" arbitrary: i)
  case 0
  then have "i = k" by simp
  moreover have "is_int k" using 0 by (simp add: is_int_def)
  ultimately show ?case
    using 0 nil_at_index [OF N core, of k] by (subst linear_search.simps) (auto simp: boundary_def)
next
  case (Suc d)
  have ii: "is_int i" using Suc.prems by (simp add: is_int_def)
  have c: "c_uint (i + 1) = i + 1" using Suc.prems by (simp add: c_uint_def)
  show ?case
  proof (cases "at_index N t i = Some Nil_value")
    case True
    then show ?thesis
      using Suc.prems ii nil_at_index [OF N core ii] by (subst linear_search.simps) (auto simp: boundary_def)
  next
    case False
    have "linear_search N t i = linear_search N t (i + 1)"
      using False ii c nil_at_index [OF N core ii] by (subst linear_search.simps) simp
    moreover have "\<exists>n. linear_search N t (i + 1) = Some n \<and> boundary N t n"
      by (rule Suc.hyps(1)) (use Suc.hyps(2) Suc.prems False in auto)
    ultimately show ?thesis by simp
  qed
qed

lemma unbound_loop_ok:
  assumes N: "num_ok N" and ok: "table_ok N t" and j: "0 \<le> i" "i < j" "j \<le> MAX_INT"
    and i: "i = 0 \<or> at_index N t i \<noteq> Some Nil_value"
  shows "\<exists>n. unbound_loop N t i j = Some n \<and> boundary N t n"
  using j i
proof (induction "nat (MAX_INT - j)" arbitrary: i j rule: less_induct)
  case less
  have core: "core_ok N t" using ok by (simp add: table_ok_def)
  have ji: "is_int j" using less.prems by (simp add: is_int_def MAX_INT_def)
  have c: "c_uint (j * 2) = j * 2" using less.prems by (simp add: c_uint_def MAX_INT_def)
  have nil: "nil_at N t (c_int m) = Some (at_index N t m = Some Nil_value)" if "0 \<le> m" "m \<le> j" for m
  proof -
    have "is_int m" using that less.prems by (simp add: is_int_def MAX_INT_def)
    then show ?thesis using nil_at_index [OF N core] by simp
  qed
  show ?case
  proof (cases "at_index N t j = Some Nil_value")
    case True
    have "\<exists>n. binary_search (\<lambda>m. nil_at N t (c_int m)) i j = Some n \<and> i \<le> n \<and> n < j \<and>
        (n = i \<or> nil_at N t (c_int n) = Some False) \<and> nil_at N t (c_int (n + 1)) = Some True"
      by (rule binary_search_ok) (use less.prems nil True in \<open>auto simp: MAX_INT_def\<close>)
    then obtain n where n: "binary_search (\<lambda>m. nil_at N t (c_int m)) i j = Some n" "i \<le> n" "n < j"
        "n = i \<or> nil_at N t (c_int n) = Some False" "nil_at N t (c_int (n + 1)) = Some True" by blast
    have "boundary N t n" using n(2-5) nil [of n] nil [of "n + 1"] less.prems(1,4) by (auto simp: boundary_def)
    moreover have "unbound_loop N t i j = Some n"
      using True n(1) nil [of j] less.prems by (subst unbound_loop.simps) simp
    ultimately show ?thesis by blast
  next
    case False
    then have nj: "nil_at N t (c_int j) = Some False" using nil [of j] less.prems by simp
    show ?thesis
    proof (cases "j * 2 > MAX_INT")
      case True
      obtain k where "1 \<le> k" "k \<le> 2 ^ 28" "at_index N t k = Some Nil_value" using few_entries [OF N ok] by blast
      then have "\<exists>n. linear_search N t 1 = Some n \<and> boundary N t n" by (intro linear_search_ok [OF N core, of 1 k]) auto
      then show ?thesis using True nj c by (subst unbound_loop.simps) simp
    next
      case small: False
      have "unbound_loop N t i j = unbound_loop N t j (j * 2)"
        using small nj c by (subst unbound_loop.simps) simp
      moreover have "\<exists>n. unbound_loop N t j (j * 2) = Some n \<and> boundary N t n"
        by (rule less.hyps) (use less.prems small False in auto)
      ultimately show ?thesis by simp
    qed
  qed
qed

lemma luaH_getn_ok:
  assumes "num_ok N" "table_ok N t"
  shows "\<exists>n. luaH_getn N t = Some n \<and> boundary N t n"
proof -
  have core: "core_ok N t" and sz: "sizearray t = int (length (array t))" using assms(2) by (simp_all add: table_ok_def)
  let ?j = "sizearray t"
  have j: "0 \<le> ?j" "?j \<le> 67108864" using MAXASIZE_bounds [OF core_okD(2) [OF core]] by auto
  have nil: "array_nil t m = Some (at_index N t m = Some Nil_value)" if "0 < m" "m \<le> ?j" for m
    by (rule array_nil_index [OF assms that])
  have hash: "\<exists>n. (if node t = dummynode then Some ?j else unbound_search N t ?j) = Some n \<and> boundary N t n"
    if "?j = 0 \<or> at_index N t ?j \<noteq> Some Nil_value"
  proof (cases "node t = dummynode")
    case True
    let ?k = "Number (cast_num N (?j + 1))"
    have ji: "is_int (?j + 1)" using j by (simp add: is_int_def)
    have "\<not> in_array N t ?k" using arrayindex_cast [OF assms(1) ji] by (simp add: in_array_def del: arrayindex.simps)
    moreover have "hash_entries (kvs t) = {}" using True by (simp add: hash_entries_def kvs_def node_list_def kv_def empty_node_def)
    ultimately have "\<not> same N k' ?k" if "(k', v) \<in> entries N t" for k' v
      using that entry_key_hash [OF assms(1) core, of k' ?k v] unfolding entries_def by blast
    then have "at_index N t (?j + 1) = Some Nil_value"
      using lookup_entries [OF assms(1) core valid_cast [OF assms(1) ji]] unfolding at_index_def by blast
    then show ?thesis using True that j by (simp add: boundary_def)
  next
    case False
    have "c_uint (?j + 1) = ?j + 1" using j by (simp add: c_uint_def)
    moreover have "\<exists>n. unbound_loop N t ?j (?j + 1) = Some n \<and> boundary N t n"
      by (rule unbound_loop_ok [OF assms]) (use j that in \<open>auto simp: MAX_INT_def\<close>)
    ultimately show ?thesis using False by (simp add: unbound_search_def)
  qed
  show ?thesis
  proof (cases "0 < ?j \<and> at_index N t ?j = Some Nil_value")
    case True
    then have last: "array_nil t ?j = Some True" using nil [of ?j] by simp
    have "\<exists>n. binary_search (array_nil t) 0 ?j = Some n \<and> 0 \<le> n \<and> n < ?j \<and> (n = 0 \<or> array_nil t n = Some False) \<and>
        array_nil t (n + 1) = Some True"
      by (rule binary_search_ok) (use True j nil last in auto)
    then obtain n where n: "binary_search (array_nil t) 0 ?j = Some n" "0 \<le> n" "n < ?j" "n = 0 \<or> array_nil t n = Some False"
        "array_nil t (n + 1) = Some True" by blast
    have "boundary N t n" using n(2-5) nil [of n] nil [of "n + 1"] by (auto simp: boundary_def)
    then show ?thesis using True last n(1) by (simp add: luaH_getn_def Let_def)
  next
    case False
    then have "?j = 0 \<or> at_index N t ?j \<noteq> Some Nil_value" using j by auto
    moreover from this have "luaH_getn N t = (if node t = dummynode then Some ?j else unbound_search N t ?j)"
      using nil [of ?j] False by (auto simp: luaH_getn_def Let_def)
    ultimately show ?thesis using hash by simp
  qed
qed

text \<open>
  C12: The length of a table, \<^verbatim>\<open>luaH_getn\<close>, is always a boundary: zero or an index with a value,
  followed by an index without one. Its searches end, also the linear one, on every well-formed table.
\<close>

theorem luaH_getn_boundary:
  assumes "num_ok N" "table_ok N t"
  shows "\<exists>n. luaH_getn N t = Some n \<and> boundary N t n"
  by (rule luaH_getn_ok [OF assms])

section \<open>Traversal\<close>

text \<open>The cells of a table in the order of a traversal, and the entries among them.\<close>

definition cells :: "'n num_ops \<Rightarrow> 'n Table \<Rightarrow> ('n TValue \<times> 'n TValue) list" where
  "cells N t = map (\<lambda>i. (Number (cast_num N (int i + 1)), array t ! i)) [0..<length (array t)]
     @ map (\<lambda>n. (kval (i_key n), i_val n)) (nodes_of t)"

abbreviation has_value :: "'n TValue \<times> 'n TValue \<Rightarrow> bool" where
  "has_value p \<equiv> snd p \<noteq> Nil_value"

definition traversal :: "'n num_ops \<Rightarrow> 'n Table \<Rightarrow> ('n TValue \<times> 'n TValue) list" where
  "traversal N t = filter has_value (cells N t)"

definition no_dead_keys :: "'n Table \<Rightarrow> bool" where
  "no_dead_keys t \<longleftrightarrow> (\<forall>n \<in> set (nodes_of t). \<exists>k. i_key n = Key k)"

lemma next_array_ok:
  assumes "sizearray t = int (length (array t))"
  shows "next_array t i = Some (case filter (\<lambda>j. array t ! j \<noteq> Nil_value) [i..<length (array t)] of [] \<Rightarrow> None | j # _ \<Rightarrow> Some j)"
proof (induction "length (array t) - i" arbitrary: i)
  case 0
  then show ?case using assms by (subst next_array.simps) simp
next
  case (Suc d)
  then have i: "i < length (array t)" by simp
  have "next_array t (Suc i) = Some (case filter (\<lambda>j. array t ! j \<noteq> Nil_value) [Suc i..<length (array t)] of [] \<Rightarrow> None | j # _ \<Rightarrow> Some j)"
    using Suc by (intro Suc.hyps(1)) simp
  then show ?case using i assms by (subst next_array.simps) (simp add: upt_conv_Cons)
qed

lemma next_node_ok:
  assumes "sizenode t = int (length (nodes_of t))"
  shows "next_node t i = Some (case filter (\<lambda>j. i_val (nodes_of t ! j) \<noteq> Nil_value) [i..<length (nodes_of t)] of [] \<Rightarrow> None | j # _ \<Rightarrow> Some j)"
proof (induction "length (nodes_of t) - i" arbitrary: i)
  case 0
  then show ?case using assms by (subst next_node.simps) simp
next
  case (Suc d)
  then have i: "i < length (nodes_of t)" by simp
  have "next_node t (Suc i) = Some (case filter (\<lambda>j. i_val (nodes_of t ! j) \<noteq> Nil_value) [Suc i..<length (nodes_of t)] of [] \<Rightarrow> None | j # _ \<Rightarrow> Some j)"
    using Suc by (intro Suc.hyps(1)) simp
  then show ?case using i assms by (subst next_node.simps) (simp add: upt_conv_Cons gnode_nth)
qed

lemma filter_drop_map:
  "i \<le> n \<Longrightarrow> filter P (drop i (map f [0..<n])) = map f (filter (\<lambda>j. P (f j)) [i..<n])"
  by (simp add: drop_map filter_map comp_def)

lemma cells_parts:
  assumes "c \<le> length (array t)"
  shows "filter has_value (drop c (cells N t)) =
    map (\<lambda>i. (Number (cast_num N (int i + 1)), array t ! i)) (filter (\<lambda>j. array t ! j \<noteq> Nil_value) [c..<length (array t)]) @
    filter has_value (map (\<lambda>n. (kval (i_key n), i_val n)) (nodes_of t))"
  using assms by (simp add: cells_def filter_drop_map)

lemma cells_nodes:
  assumes "length (array t) \<le> c"
  shows "filter has_value (drop c (cells N t)) =
    map (\<lambda>j. (kval (i_key (nodes_of t ! j)), i_val (nodes_of t ! j)))
      (filter (\<lambda>j. i_val (nodes_of t ! j) \<noteq> Nil_value) [c - length (array t)..<length (nodes_of t)])"
proof -
  have m: "map f (nodes_of t) = map (\<lambda>j. f (nodes_of t ! j)) [0..<length (nodes_of t)]" for f :: "'a Node \<Rightarrow> 'b"
    by (rule nth_equalityI) simp_all
  show ?thesis
  proof (cases "c - length (array t) \<le> length (nodes_of t)")
    case True
    have "filter has_value (drop c (cells N t)) =
        filter has_value (drop (c - length (array t)) (map (\<lambda>j. (kval (i_key (nodes_of t ! j)), i_val (nodes_of t ! j))) [0..<length (nodes_of t)]))"
      using assms m [of "\<lambda>n. (kval (i_key n), i_val n)"] by (simp add: cells_def)
    then show ?thesis by (simp only: filter_drop_map [OF True] snd_conv)
  qed (use assms in \<open>simp add: cells_def\<close>)
qed

text \<open>From the index that \<^verbatim>\<open>findindex\<close> gives, the step goes to the next cell with a value.\<close>

lemma luaH_next_cells:
  assumes ok: "table_ok N t" and f: "findindex N t key = rreturn (int c - 1)"
  shows "luaH_next N t key = rreturn (case filter has_value (drop c (cells N t)) of [] \<Rightarrow> None | p # _ \<Rightarrow> Some p)"
proof -
  have core: "core_ok N t" and sz: "sizearray t = int (length (array t))" using ok by (simp_all add: table_ok_def)
  have sn: "sizenode t = int (length (nodes_of t))"
    using length_nodes [OF core_okD(1) [OF core]] by (simp add: sizenode_def twoto_def)
  have mx: "nat (max (int c) (int (length (array t))) - int (length (array t))) = c - length (array t)" by auto
  let ?A = "filter (\<lambda>j. array t ! j \<noteq> Nil_value) [c..<length (array t)]"
  let ?B = "filter (\<lambda>j. i_val (nodes_of t ! j) \<noteq> Nil_value) [c - length (array t)..<length (nodes_of t)]"
  show ?thesis
  proof (cases ?A)
    case (Cons j js)
    have "c \<le> length (array t)"
    proof (rule ccontr)
      assume "\<not> c \<le> length (array t)"
      then have "?A = []" by simp
      then show False using Cons by simp
    qed
    then show ?thesis
      using Cons f next_array_ok [OF sz, of c] cells_parts [of c t N] by (simp add: luaH_next_def)
  next
    case Nil
    have cn: "filter has_value (drop c (cells N t)) = map (\<lambda>j. (kval (i_key (nodes_of t ! j)), i_val (nodes_of t ! j))) ?B"
    proof (cases "length (array t) \<le> c")
      case False
      then have "filter has_value (drop c (cells N t)) = filter has_value (drop (length (array t)) (cells N t))"
        using cells_parts [of c t N] cells_parts [of "length (array t)" t N] Nil by simp
      then show ?thesis using cells_nodes [of t "length (array t)" N] False by simp
    qed (rule cells_nodes)
    have na: "next_array t c = Some None" using next_array_ok [OF sz, of c] Nil by simp
    show ?thesis
    proof (cases ?B)
      case Nil
      then show ?thesis using f na next_node_ok [OF sn, of "c - length (array t)"] cn sz mx by (simp add: luaH_next_def)
    next
      case (Cons j js)
      then have "j \<in> set ?B" by simp
      then have j: "j < length (nodes_of t)" "i_val (nodes_of t ! j) \<noteq> Nil_value" by auto
      then obtain k where k: "i_key (nodes_of t ! j) = Key k" using valued_nodes [OF core nth_mem [OF j(1)]] by blast
      then show ?thesis
        using f na next_node_ok [OF sn, of "c - length (array t)"] cn sz mx Cons j by (simp add: luaH_next_def gnode_nth)
    qed
  qed
qed

lemma filter_unique:
  assumes "length (filter P xs) \<le> 1" "i < length xs" "j < length xs" "P (xs ! i)" "P (xs ! j)"
  shows "i = j"
proof (rule ccontr)
  assume "i \<noteq> j"
  then have "card {i, j} = 2" by simp
  moreover have "card {i, j} \<le> card {i. i < length xs \<and> P (xs ! i)}" using assms by (intro card_mono) auto
  ultimately show False using assms(1) by (simp add: length_filter_conv_card)
qed

lemma findindex_array:
  assumes N: "num_ok N" and ok: "table_ok N t" and i: "i < length (array t)"
  shows "findindex N t (Number (cast_num N (int i + 1))) = rreturn (int i)"
proof -
  have core: "core_ok N t" and sz: "sizearray t = int (length (array t))" using ok by (simp_all add: table_ok_def)
  have "is_int (int i + 1)" using i sz MAXASIZE_bounds [OF core_okD(2) [OF core]] by (simp add: is_int_def)
  from arrayindex_cast [OF N this] show ?thesis using i sz by (simp add: findindex_def del: arrayindex.simps)
qed

lemma findindex_node:
  assumes N: "num_ok N" and ok: "table_ok N t" and nd: "no_dead_keys t" and j: "j < length (nodes_of t)"
    and v: "i_val (nodes_of t ! j) \<noteq> Nil_value"
  shows "findindex N t (kval (i_key (nodes_of t ! j))) = rreturn (int j + int (length (array t)))"
proof -
  have core: "core_ok N t" and sz: "sizearray t = int (length (array t))" using ok by (simp_all add: table_ok_def)
  obtain k where k: "i_key (nodes_of t ! j) = Key k" "valid_key N k" "\<not> in_array N t k"
    using valued_nodes [OF core nth_mem [OF j] v] by blast
  note c = core_okD(3) [OF core]
  let ?P = "\<lambda>n. rawequal_key N k (i_key n) \<or> same_dead_key k (i_key n)"
  have "\<not> nokey (nodes_of t ! j)" using k by (auto simp: nokey_def)
  from chains_okD(4) [OF c j this] obtain m where m: "mainposition N t k = Some m"
    "(m, j) \<in> (links (nodes_of t))\<^sup>*" "m < length (nodes_of t)" using k(1) by (auto simp: at_home_def)
  have P: "?P (nodes_of t ! i) \<longleftrightarrow> rawequal_key N k (i_key (nodes_of t ! i))" if "i < length (nodes_of t)" for i
    using nd nth_mem [OF that] by (fastforce simp: no_dead_keys_def)
  obtain r where r: "chain_find ?P t m = Some r"
    "case r of None \<Rightarrow> \<forall>i. (m, i) \<in> (links (nodes_of t))\<^sup>* \<longrightarrow> \<not> ?P (nodes_of t ! i)
     | Some i \<Rightarrow> (m, i) \<in> (links (nodes_of t))\<^sup>* \<and> ?P (nodes_of t ! i)"
    using chain_find_ok [OF c m(3)] by blast
  have pj: "?P (nodes_of t ! j)" using k same_refl [OF k(2)] by simp
  then obtain i where i: "r = Some i" using r(2) m(2) by (cases r) auto
  have il: "i < length (nodes_of t)" using links_in [OF _ c m(3)] r(2) i by auto
  have one: "length (filter (\<lambda>n. rawequal_key N k (i_key n)) (nodes_of t)) \<le> 1"
  proof -
    have "size (filter_mset (holds_key N k) (mset (map kv (nodes_of t)))) = length (filter (\<lambda>n. rawequal_key N k (i_key n)) (nodes_of t))"
      by (simp only: mset_filter [symmetric] size_mset filter_map length_map) (simp add: comp_def holds_key_def kv_def)
    then show ?thesis using keys_okD(2) [OF core_okD(4) [OF core] k(2)] by (simp add: kvs_def)
  qed
  have "i = j" by (rule filter_unique [OF one il j]) (use P il j r(2) i pj in auto)
  moreover have "k \<noteq> Nil_value" using k(2) by auto
  ultimately show ?thesis
    using k(1,3) r(1) i m(1) sz by (auto simp: findindex_def in_array_def Let_def)
qed

lemma findindex_cell:
  assumes N: "num_ok N" and ok: "table_ok N t" and nd: "no_dead_keys t"
    and j: "j < length (cells N t)" "has_value (cells N t ! j)"
  shows "findindex N t (fst (cells N t ! j)) = rreturn (int j)"
proof (cases "j < length (array t)")
  case True
  then show ?thesis using findindex_array [OF N ok True] by (simp add: cells_def nth_append)
next
  case False
  let ?i = "j - length (array t)"
  have i: "?i < length (nodes_of t)" using j(1) False by (simp add: cells_def)
  have c: "cells N t ! j = (kval (i_key (nodes_of t ! ?i)), i_val (nodes_of t ! ?i))"
    using False i by (simp add: cells_def nth_append)
  then show ?thesis using findindex_node [OF N ok nd i] j(2) False by simp
qed

lemma filter_nth_drop:
  "i < length (filter P xs) \<Longrightarrow> \<exists>j < length xs. xs ! j = filter P xs ! i \<and> P (xs ! j) \<and> filter P (drop (Suc j) xs) = drop (Suc i) (filter P xs)"
proof (induction xs arbitrary: i)
  case (Cons x xs)
  show ?case
  proof (cases "P x \<and> i = 0")
    case True
    then show ?thesis by (intro exI [of _ 0]) simp
  next
    case False
    let ?i = "if P x then i - 1 else i"
    have "?i < length (filter P xs)" using Cons.prems False by (auto split: if_splits)
    from Cons.IH [OF this] obtain j where "j < length xs" "xs ! j = filter P xs ! ?i" "P (xs ! j)"
      "filter P (drop (Suc j) xs) = drop (Suc ?i) (filter P xs)" by blast
    then show ?thesis using False by (intro exI [of _ "Suc j"]) (cases i; auto)
  qed
qed simp

lemma luaH_next_order:
  assumes "num_ok N" "table_ok N t" "no_dead_keys t"
  shows "set (traversal N t) = entries N t \<and> distinct_keys N (traversal N t) \<and>
    (\<forall>i \<le> length (traversal N t).
      luaH_next N t (if i = 0 then Nil_value else fst (traversal N t ! (i - 1))) =
      rreturn (if i < length (traversal N t) then Some (traversal N t ! i) else None))"
proof (intro conjI allI impI)
  have core: "core_ok N t" and sz: "sizearray t = int (length (array t))" using assms(2) by (simp_all add: table_ok_def)
  have nat: "nat (sizearray t) = length (array t)" using sz by simp
  have tr: "traversal N t = array_items N (array t) [nat 0..<nat (sizearray t)] @ node_items (nodes_of t)"
    using cells_parts [of 0 t N] nat by (simp add: traversal_def array_items_def node_items_def filter_map comp_def)
  have "staying N t 0 = {}"
    using array_entry(1) [OF assms(1) core_okD(2) [OF core]] by (force simp: staying_def in_array_def)
  then show "set (traversal N t) = entries N t"
    using items_entries [OF assms(1) core, of 0] unfolding tr items_of_def by (simp add: node_items_rev)
  have "distinct_keys N (items_of N t 0)" by (rule items_distinct [OF assms(1) core])
  moreover have "distinct_keys N (node_items (nodes_of t))"
    using keys_okD(2) [OF core_okD(4) [OF core]] valued_nodes [OF core] assms(1)
    by (intro node_items_distinct) (auto simp: kvs_def)
  ultimately show "distinct_keys N (traversal N t)"
    unfolding tr items_of_def by (auto simp: sorted_wrt_append node_items_rev)
  fix i assume i: "i \<le> length (traversal N t)"
  show "luaH_next N t (if i = 0 then Nil_value else fst (traversal N t ! (i - 1))) =
      rreturn (if i < length (traversal N t) then Some (traversal N t ! i) else None)"
  proof (cases i)
    case 0
    have "findindex N t Nil_value = rreturn (int 0 - 1)" by (simp add: findindex_def)
    from luaH_next_cells [OF assms(2) this] show ?thesis
      using 0 by (cases "traversal N t") (simp_all add: traversal_def)
  next
    case (Suc m)
    then have "m < length (filter has_value (cells N t))" using i by (simp add: traversal_def)
    from filter_nth_drop [OF this] obtain j where j: "j < length (cells N t)" "cells N t ! j = traversal N t ! m"
      "has_value (cells N t ! j)" "filter has_value (drop (Suc j) (cells N t)) = drop i (traversal N t)"
      unfolding traversal_def Suc by blast
    have "findindex N t (fst (traversal N t ! m)) = rreturn (int (Suc j) - 1)"
      using findindex_cell [OF assms j(1,3)] j(2) by simp
    from luaH_next_cells [OF assms(2) this] j(4) show ?thesis
      using Suc i by (cases "drop i (traversal N t)") (auto simp: Cons_nth_drop_Suc [symmetric] dest: arg_cong [of _ _ length])
  qed
qed

text \<open>
  C10: A traversal with \<^verbatim>\<open>luaH_next\<close>, from nil and then from the key it gave last, meets the entries of the
  table in their order, each exactly once, and then ends; no error occurs. The collector has left no dead key.
\<close>

theorem luaH_next_traverses:
  assumes "num_ok N" "table_ok N t" "no_dead_keys t"
  shows "set (traversal N t) = entries N t \<and> distinct_keys N (traversal N t) \<and>
    (\<forall>i \<le> length (traversal N t).
      luaH_next N t (if i = 0 then Nil_value else fst (traversal N t ! (i - 1))) =
      rreturn (if i < length (traversal N t) then Some (traversal N t ! i) else None))"
  by (rule luaH_next_order [OF assms])

end
