(* ===== verification/LuaTableExample.thy ===== *)
theory LuaTableExample
  imports LuaTableWalk
begin

text \<open>
  A concrete table, with numbers that are the integers and one \<^verbatim>\<open>NaN\<close>: two elements in the array
  part, of which one is nil, and a hash part of two nodes, both in use and in one chain.  Any new key
  forces a rehash.
\<close>

definition int_ops :: "int option num_ops" where
  "int_ops = \<lparr>numeq = (\<lambda>x y. x \<noteq> None \<and> x = y), cast_num = Some,
     number2int = (\<lambda>x. case x of None \<Rightarrow> 0 | Some k \<Rightarrow> c_int k),
     num_words = (\<lambda>x. case x of None \<Rightarrow> [0, 0] | Some k \<Rightarrow> [word_of_int k, 0])\<rparr>"

definition sample_nodes :: "int option Node list" where
  "sample_nodes = [\<lparr>i_val = Boolean 2, i_key = Key (LightUserdata 5), i_next = Some 1\<rparr>,
     \<lparr>i_val = Boolean 3, i_key = Key (LightUserdata 6), i_next = None\<rparr>]"

definition sample_table :: "int option Table" where
  "sample_table = \<lparr>flags = 0, lsizenode = 1, metatable = None, array = [Boolean 1, Nil_value],
     node = Nodes sample_nodes, lastfree = 1, sizearray = 2\<rparr>"

lemma int_ops_ok: "num_ok int_ops"
  unfolding num_ok_def int_ops_def numints_def by (auto simp: c_int_range split: option.splits)

lemma sample_nodes_nth:
  "length sample_nodes = 2" "i < 2 \<Longrightarrow> sample_nodes ! i = (if i = 0 then sample_nodes ! 0 else sample_nodes ! 1)"
  "sample_nodes ! 0 = \<lparr>i_val = Boolean 2, i_key = Key (LightUserdata 5), i_next = Some 1\<rparr>"
  "sample_nodes ! 1 = \<lparr>i_val = Boolean 3, i_key = Key (LightUserdata 6), i_next = None\<rparr>"
  by (auto simp: sample_nodes_def less_2_cases_iff)

lemma node_list_Nodes [simp]: "node_list (Nodes xs) = xs"
  by (simp add: node_list_def)

lemma sample_parts [simp]:
  "nodes_of sample_table = sample_nodes" "array sample_table = [Boolean 1, Nil_value]" "sizearray sample_table = 2"
  "lsizenode sample_table = 1" "node sample_table = Nodes sample_nodes" "lastfree sample_table = 1"
  by (simp_all add: sample_table_def node_list_def)

lemma sample_links: "links sample_nodes = {(0, 1)}"
  by (auto simp: links_def sample_nodes_def less_2_cases_iff numeral_2_eq_2 nth_Cons' split: if_splits)

lemma sample_main: "mainposition int_ops sample_table (LightUserdata p) = Some 0"
  by (simp add: hashmod_def sizenode_def twoto_def)

lemma sample_chains: "chains_ok (mainposition int_ops sample_table) sample_nodes"
proof -
  have home: "at_home (mainposition int_ops sample_table) sample_nodes 0"
    by (simp add: at_home_def sample_nodes_nth(1,3) sample_main del: mainposition.simps)
  have n: "i = 0 \<or> i = 1" if "i < length sample_nodes" for i
    using that sample_nodes_nth(1) by (auto simp: less_2_cases_iff)
  have nk: "\<not> nokey (sample_nodes ! i) \<and> (\<exists>p. i_key (sample_nodes ! i) = Key (LightUserdata p))" if "i < length sample_nodes" for i
    using n [OF that] sample_nodes_nth(3,4) by (auto simp: nokey_def)
  show ?thesis unfolding chains_ok_def sample_links
  proof (intro conjI allI impI)
    show "\<exists>rank :: nat \<Rightarrow> nat. \<forall>i j. (i, j) \<in> {(0, 1)} \<longrightarrow> rank j < rank i" by (intro exI [of _ "\<lambda>i. 1 - i"]) simp
    fix i j :: nat assume "(i, j) \<in> {(0, 1)}"
    then show "j < length sample_nodes" "\<not> nokey (sample_nodes ! j)" using nk [of 1] by (auto simp: sample_nodes_nth(1))
  next
    fix i i' j :: nat assume "(i, j) \<in> {(0, 1)}" "(i', j) \<in> {(0, 1)}"
    then show "i = i'" by simp
  next
    fix i assume "i < length sample_nodes" "nokey (sample_nodes ! i)"
    then show "i_next (sample_nodes ! i) = None" "i_val (sample_nodes ! i) = Nil_value" using nk by blast+
  next
    fix i assume i: "i < length sample_nodes"
    obtain p where p: "i_key (sample_nodes ! i) = Key (LightUserdata p)" using nk [OF i] by blast
    have "mainposition int_ops sample_table (kval (i_key (sample_nodes ! i))) = Some 0"
      unfolding p kval.simps by (rule sample_main)
    moreover have "(0, i) \<in> {(0, 1)}\<^sup>*" using n [OF i] by auto
    ultimately show "\<exists>m. mainposition int_ops sample_table (kval (i_key (sample_nodes ! i))) = Some m \<and> (m, i) \<in> {(0, 1)}\<^sup>* \<and>
        at_home (mainposition int_ops sample_table) sample_nodes m" using home by blast
    show "\<exists>k. i_key (sample_nodes ! i) = Key k" using p by blast
  qed simp
qed

lemma sample_kvs: "kvs sample_table = {#(Key (LightUserdata 5), Boolean 2), (Key (LightUserdata 6), Boolean 3)#}"
  unfolding kvs_def sample_parts sample_nodes_def node_list_Nodes by (simp add: kv_def)

lemma sample_table_ok: "table_ok int_ops sample_table"
proof -
  have "nodes_shape sample_table"
    by (auto simp: nodes_shape_def sample_nodes_def nokey_def less_2_cases_iff)
  moreover have "array_shape sample_table" by (simp add: array_shape_def MAXASIZE_def)
  moreover have "keys_ok int_ops sample_table (kvs sample_table)"
    unfolding sample_kvs keys_ok_def by (auto simp: in_array_def holds_key_def same_cases split: TValue.splits)
  ultimately show ?thesis using sample_chains by (simp add: table_ok_def core_ok_def)
qed

section \<open>The properties at the sample\<close>

lemma all_granted_True [simp]: "all_granted (\<lambda>_. True)"
  by (simp add: all_granted_def)

lemma sample_card: "card (entries int_ops sample_table) < 2 ^ 26"
  using card_entries [OF int_ops_ok, of sample_table] sample_table_ok
  by (simp add: table_ok_def used_def node_items_def sample_nodes_def upt_rec)

theorem luaH_set_updates_witness:
  "\<exists>t' r t''. luaH_set int_ops (\<lambda>_. True) sample_table (LightUserdata 7) = rreturn (t', r) \<and>
    write_ref t' r (Boolean 9) = Some t'' \<and> lookup int_ops t'' (LightUserdata 7) = Some (Boolean 9) \<and>
    lookup int_ops t'' (LightUserdata 5) = lookup int_ops sample_table (LightUserdata 5)"
proof -
  have "valid_key int_ops (LightUserdata 7)" by simp
  from luaH_set_updates [OF int_ops_ok sample_table_ok this, of "\<lambda>_. True" "Boolean 9"] obtain res where
    res: "luaH_set int_ops (\<lambda>_. True) sample_table (LightUserdata 7) = Some res" "\<not> isl res"
    "\<forall>t' r. res = Inr (t', r) \<longrightarrow> (\<exists>t''. write_ref t' r (Boolean 9) = Some t'' \<and> table_ok int_ops t'' \<and>
      lookup int_ops t'' (LightUserdata 7) = Some (Boolean 9) \<and>
      (\<forall>k'. valid_key int_ops k' \<longrightarrow> \<not> same int_ops k' (LightUserdata 7) \<longrightarrow> lookup int_ops t'' k' = lookup int_ops sample_table k'))"
    using sample_card by auto
  from res(2) obtain t' r where r: "res = Inr (t', r)" by (cases res) auto
  have "valid_key int_ops (LightUserdata 5)" "\<not> same int_ops (LightUserdata 5) (LightUserdata 7)" by (simp_all add: same_cases)
  then show ?thesis using res(1,3) r unfolding rreturn_def by blast
qed

theorem luaH_set_bad_key_witness:
  "luaH_set int_ops (\<lambda>_. True) sample_table Nil_value = luaL_error ''table index is nil'' \<and>
    luaH_set int_ops (\<lambda>_. True) sample_table (Number None) = luaL_error ''table index is NaN'' \<and>
    lookup int_ops sample_table Nil_value = Some Nil_value \<and> lookup int_ops sample_table (Number None) = Some Nil_value"
  by (rule luaH_set_bad_key [OF int_ops_ok sample_table_ok]) (simp add: int_ops_def)

theorem luaH_new_empty_witness:
  "\<exists>t. luaH_new (\<lambda>_. True) 4 3 = rreturn t \<and> table_ok int_ops t \<and> sizearray t = 4 \<and> 3 \<le> capacity t \<and>
    lookup int_ops t (LightUserdata 5) = Some Nil_value"
proof -
  have n: "(0::int) \<le> 4" "4 \<le> MAXASIZE" "(0::int) \<le> 3" "(3::int) \<le> INT_MAX" "3 \<le> MAXASIZE" by (simp_all add: MAXASIZE_def)
  from luaH_new_empty [OF int_ops_ok n(1-4), of "\<lambda>_. True"] obtain res where
    res: "luaH_new (\<lambda>_. True) 4 3 = Some res" "\<not> isl res"
    "\<forall>t. res = Inr t \<longrightarrow> table_ok int_ops t \<and> sizearray t = 4 \<and> nat 3 \<le> capacity t \<and>
      (\<forall>k. valid_key int_ops k \<longrightarrow> lookup int_ops t k = Some Nil_value)"
    using n(5) by auto
  from res(2) obtain t where t: "res = Inr t" by (cases res) auto
  have "valid_key int_ops (LightUserdata 5)" by simp
  then show ?thesis using res(1,3) t unfolding rreturn_def by auto
qed

theorem luaH_getn_boundary_witness: "\<exists>n. luaH_getn int_ops sample_table = Some n \<and> boundary int_ops sample_table n"
  by (rule luaH_getn_boundary [OF int_ops_ok sample_table_ok])

lemma sample_traversal:
  "traversal int_ops sample_table =
    [(Number (Some 1), Boolean 1), (LightUserdata 5, Boolean 2), (LightUserdata 6, Boolean 3)]"
  by (simp add: traversal_def cells_def sample_nodes_def int_ops_def upt_rec)

theorem luaH_next_traverses_witness:
  "entries int_ops sample_table = {(Number (Some 1), Boolean 1), (LightUserdata 5, Boolean 2), (LightUserdata 6, Boolean 3)} \<and>
    luaH_next int_ops sample_table Nil_value = rreturn (Some (Number (Some 1), Boolean 1)) \<and>
    luaH_next int_ops sample_table (Number (Some 1)) = rreturn (Some (LightUserdata 5, Boolean 2)) \<and>
    luaH_next int_ops sample_table (LightUserdata 5) = rreturn (Some (LightUserdata 6, Boolean 3)) \<and>
    luaH_next int_ops sample_table (LightUserdata 6) = rreturn None"
proof -
  have "no_dead_keys sample_table" by (simp add: no_dead_keys_def sample_nodes_def)
  note tr = luaH_next_traverses [OF int_ops_ok sample_table_ok this, unfolded sample_traversal]
  have "luaH_next int_ops sample_table (if i = 0 then Nil_value else fst (ps ! (i - 1))) = rreturn (if i < length ps then Some (ps ! i) else None)"
    if "ps = [(Number (Some 1), Boolean 1), (LightUserdata 5, Boolean 2), (LightUserdata 6, Boolean 3)]" "i \<le> 3" for ps i
    using tr that by (simp only: list.size)
  from this [OF refl, of 0] this [OF refl, of 1] this [OF refl, of 2] this [OF refl, of 3] show ?thesis using tr by auto
qed

end
