(* ===== verification/LuaTablib.thy ===== *)
theory LuaTablib
  imports LuaTableWalk LuaStrlib
begin

text \<open>
  The table library (\<^verbatim>\<open>lualib/ltablib.c\<close>).  The stack that its functions share with their callers is
  left out: a function takes its arguments checked and converted, and gives its results.  What it
  does with a table goes through the raw accesses of the API (\<^verbatim>\<open>lua_rawgeti\<close>, \<^verbatim>\<open>lua_rawseti\<close>, \<^verbatim>\<open>lua_next\<close>),
  which are the operations of \<open>LuaTable\<close>.  A function of the script that is called may change
  everything, tables included, so the sorting routine works on a world \<open>'w\<close> through the accesses it is given.
\<close>

section \<open>Raw access\<close>

definition lua_rawgeti :: "'n num_ops \<Rightarrow> 'n Table \<Rightarrow> int \<Rightarrow> 'n TValue option" where
  "lua_rawgeti N t n = luaH_getnum N t n \<bind> read_ref t"

definition lua_rawseti :: "'n num_ops \<Rightarrow> (int \<Rightarrow> bool) \<Rightarrow> 'n Table \<Rightarrow> int \<Rightarrow> 'n TValue \<Rightarrow> 'n Table res" where
  "lua_rawseti N gr t n v = rbind (luaH_setnum N gr t n) (\<lambda>(t1, r). write_ref t1 r v \<bind> rreturn)"

definition getn :: "'n num_ops \<Rightarrow> 'n Table \<Rightarrow> int option" where
  "getn N t = luaH_getn N t"

definition setn :: "'w \<Rightarrow> 'w res" where
  "setn w = luaL_error (LUA_QL ''setn'' @ '' is obsolete'')"

section \<open>Insertion and removal\<close>

text \<open>The elements from the position on move up.\<close>

function move_up :: "'n num_ops \<Rightarrow> (int \<Rightarrow> bool) \<Rightarrow> int \<Rightarrow> 'n Table \<Rightarrow> int \<Rightarrow> 'n Table res" where
  "move_up N gr pos t i =
     (if i > pos
      then lua_rawgeti N t (i - 1) \<bind> (\<lambda>v. rbind (lua_rawseti N gr t i v) (\<lambda>t1. move_up N gr pos t1 (i - 1)))
      else rreturn t)"
  by pat_completeness auto
termination by (relation "measure (\<lambda>(N, gr, pos, t, i). nat (i - pos))") auto

declare move_up.simps [simp del]

text \<open>The arguments after the table: a value, or a position and a value; any other number is an error.\<close>

datatype 'n insert_args = Insert_end "'n TValue" | Insert_at int "'n TValue" | Insert_other

definition tinsert :: "'n num_ops \<Rightarrow> (int \<Rightarrow> bool) \<Rightarrow> 'n Table \<Rightarrow> 'n insert_args \<Rightarrow> 'n Table res" where
  "tinsert N gr t args = getn N t \<bind> (\<lambda>n.
     let e = n + 1
     in case args of
          Insert_end v \<Rightarrow> lua_rawseti N gr t e v
        | Insert_at pos v \<Rightarrow>
            (let e = (if pos > e then pos else e)
             in rbind (move_up N gr pos t e) (\<lambda>t1. lua_rawseti N gr t1 pos v))
        | Insert_other \<Rightarrow> luaL_error (''wrong number of arguments to '' @ LUA_QL ''insert''))"

function move_down :: "'n num_ops \<Rightarrow> (int \<Rightarrow> bool) \<Rightarrow> int \<Rightarrow> 'n Table \<Rightarrow> int \<Rightarrow> 'n Table res" where
  "move_down N gr e t pos =
     (if pos < e
      then lua_rawgeti N t (pos + 1) \<bind> (\<lambda>v. rbind (lua_rawseti N gr t pos v) (\<lambda>t1. move_down N gr e t1 (pos + 1)))
      else rreturn t)"
  by pat_completeness auto
termination by (relation "measure (\<lambda>(N, gr, e, t, pos). nat (e - pos))") auto

declare move_down.simps [simp del]

text \<open>The value removed, if there is one, and the table; the position may be left out.\<close>

definition tremove :: "'n num_ops \<Rightarrow> (int \<Rightarrow> bool) \<Rightarrow> 'n Table \<Rightarrow> int option \<Rightarrow> ('n Table \<times> 'n TValue option) res" where
  "tremove N gr t arg = getn N t \<bind> (\<lambda>e.
     let pos = (case arg of None \<Rightarrow> e | Some p \<Rightarrow> p)
     in if \<not> (1 \<le> pos \<and> pos \<le> e) then rreturn (t, None)
        else lua_rawgeti N t pos \<bind> (\<lambda>v.
               rbind (move_down N gr e t pos) (\<lambda>t1.
               rbind (lua_rawseti N gr t1 e Nil_value) (\<lambda>t2. rreturn (t2, Some v)))))"

section \<open>Concatenation\<close>

text \<open>The text of a string or a number; how a number is printed is a parameter.\<close>

fun lua_tolstring :: "('n \<Rightarrow> char list) \<Rightarrow> 'n TValue \<Rightarrow> char list option" where
  "lua_tolstring fmt (String s) = Some s"
| "lua_tolstring fmt (Number n) = Some (fmt n)"
| "lua_tolstring fmt v = None"

definition addfield :: "'n num_ops \<Rightarrow> ('n \<Rightarrow> char list) \<Rightarrow> 'n Table \<Rightarrow> char list \<Rightarrow> int \<Rightarrow> char list res" where
  "addfield N fmt t b i = lua_rawgeti N t i \<bind> (\<lambda>v.
     case lua_tolstring fmt v of
       None \<Rightarrow> luaL_error (''invalid value ('' @ luaL_typename v @ '') at index '' @ int_text i @ '' in table for '' @ LUA_QL ''concat'')
     | Some s \<Rightarrow> rreturn (b @ s))"

function concat_loop :: "'n num_ops \<Rightarrow> ('n \<Rightarrow> char list) \<Rightarrow> 'n Table \<Rightarrow> char list \<Rightarrow> int \<Rightarrow> int \<Rightarrow> char list \<Rightarrow> char list res" where
  "concat_loop N fmt t sep lim i b =
     (if i < lim then rbind (addfield N fmt t b i) (\<lambda>b1. concat_loop N fmt t sep lim (i + 1) (b1 @ sep))
      else if i = lim then addfield N fmt t b i else rreturn b)"
  by pat_completeness auto
termination by (relation "measure (\<lambda>(N, fmt, t, sep, lim, i, b). nat (lim - i))") auto

declare concat_loop.simps [simp del]

definition tconcat :: "'n num_ops \<Rightarrow> ('n \<Rightarrow> char list) \<Rightarrow> 'n Table \<Rightarrow> char list option \<Rightarrow> int option \<Rightarrow> int option \<Rightarrow> char list res" where
  "tconcat N fmt t sep i lim =
     (case lim of Some l \<Rightarrow> Some l | None \<Rightarrow> getn N t) \<bind> (\<lambda>l.
       concat_loop N fmt t (case sep of None \<Rightarrow> [] | Some s \<Rightarrow> s) l (case i of None \<Rightarrow> 1 | Some k \<Rightarrow> k) [])"

section \<open>Traversal\<close>

text \<open>A function that is called changes a state \<open>'s\<close> and gives its first result.\<close>

function foreachi_loop ::
  "'n num_ops \<Rightarrow> ('n Table \<times> 's \<Rightarrow> 'n TValue list \<Rightarrow> (('n Table \<times> 's) \<times> 'n TValue) res) \<Rightarrow> int \<Rightarrow> 'n Table \<times> 's \<Rightarrow> int
     \<Rightarrow> (('n Table \<times> 's) \<times> 'n TValue option) res" where
  "foreachi_loop N call n w i =
     (if i \<le> n
      then lua_rawgeti N (fst w) i \<bind> (\<lambda>v.
             rbind (call w [Number (cast_num N i), v]) (\<lambda>(w1, r).
               if r \<noteq> Nil_value then rreturn (w1, Some r) else foreachi_loop N call n w1 (i + 1)))
      else rreturn (w, None))"
  by pat_completeness auto
termination by (relation "measure (\<lambda>(N, call, n, w, i). nat (n + 1 - i))") auto

declare foreachi_loop.simps [simp del]

definition foreachi ::
  "'n num_ops \<Rightarrow> ('n Table \<times> 's \<Rightarrow> 'n TValue list \<Rightarrow> (('n Table \<times> 's) \<times> 'n TValue) res) \<Rightarrow> 'n Table \<times> 's
     \<Rightarrow> (('n Table \<times> 's) \<times> 'n TValue option) res" where
  "foreachi N call w = getn N (fst w) \<bind> (\<lambda>n. foreachi_loop N call n w 1)"

partial_function (option) foreach_loop ::
  "'n num_ops \<Rightarrow> ('n Table \<times> 's \<Rightarrow> 'n TValue list \<Rightarrow> (('n Table \<times> 's) \<times> 'n TValue) res) \<Rightarrow> 'n Table \<times> 's \<Rightarrow> 'n TValue
     \<Rightarrow> (('n Table \<times> 's) \<times> 'n TValue option) res" where
  "foreach_loop N call w key = rbind (luaH_next N (fst w) key) (\<lambda>p. case p of
       None \<Rightarrow> rreturn (w, None)
     | Some (k, v) \<Rightarrow> rbind (call w [k, v]) (\<lambda>(w1, r).
         if r \<noteq> Nil_value then rreturn (w1, Some r) else foreach_loop N call w1 k))"

definition foreach ::
  "'n num_ops \<Rightarrow> ('n Table \<times> 's \<Rightarrow> 'n TValue list \<Rightarrow> (('n Table \<times> 's) \<times> 'n TValue) res) \<Rightarrow> 'n Table \<times> 's
     \<Rightarrow> (('n Table \<times> 's) \<times> 'n TValue option) res" where
  "foreach N call w = foreach_loop N call w Nil_value"

definition max_key :: "('n \<Rightarrow> 'n \<Rightarrow> bool) \<Rightarrow> 'n TValue \<Rightarrow> 'n \<Rightarrow> 'n" where
  "max_key numlt k m = (case k of Number v \<Rightarrow> if numlt m v then v else m | _ \<Rightarrow> m)"

partial_function (option) maxn_loop :: "'n num_ops \<Rightarrow> ('n \<Rightarrow> 'n \<Rightarrow> bool) \<Rightarrow> 'n Table \<Rightarrow> 'n TValue \<Rightarrow> 'n \<Rightarrow> 'n res" where
  "maxn_loop N numlt t key m = rbind (luaH_next N t key) (\<lambda>p. case p of
       None \<Rightarrow> rreturn m
     | Some (k, v) \<Rightarrow> maxn_loop N numlt t k (max_key numlt k m))"

definition maxn :: "'n num_ops \<Rightarrow> ('n \<Rightarrow> 'n \<Rightarrow> bool) \<Rightarrow> 'n Table \<Rightarrow> 'n res" where
  "maxn N numlt t = maxn_loop N numlt t Nil_value (cast_num N 0)"

section \<open>Quicksort\<close>

text \<open>
  The world is read by \<open>get\<close> and written by \<open>put\<close> at an index of the array that is sorted; \<open>cmp\<close> is
  the comparison.  The two values that \<^verbatim>\<open>set2\<close> stores lie
  on the stack, the last one on top.
\<close>

text \<open>
  The comparison: the function of the script if there is one, called with the two values, and
  otherwise \<^verbatim>\<open>lua_lessthan\<close>.  How a function is called and how values compare are parameters.
\<close>

definition sort_comp ::
  "('w \<Rightarrow> nat \<Rightarrow> 'n TValue list \<Rightarrow> ('w \<times> 'n TValue) res) \<Rightarrow> ('w \<Rightarrow> 'n TValue \<Rightarrow> 'n TValue \<Rightarrow> ('w \<times> bool) res) \<Rightarrow> nat option
     \<Rightarrow> 'w \<Rightarrow> 'n TValue \<Rightarrow> 'n TValue \<Rightarrow> ('w \<times> bool) res" where
  "sort_comp lua_call lua_lessthan func w a b =
     (case func of
        Some f \<Rightarrow> rbind (lua_call w f [a, b]) (\<lambda>(w1, r). rreturn (w1, \<not> l_isfalse r))
      | None \<Rightarrow> lua_lessthan w a b)"

definition set2 :: "('w \<Rightarrow> int \<Rightarrow> 'v \<Rightarrow> 'w res) \<Rightarrow> 'w \<Rightarrow> int \<Rightarrow> int \<Rightarrow> 'v \<Rightarrow> 'v \<Rightarrow> 'w res" where
  "set2 put w i j y x = rbind (put w i x) (\<lambda>w1. put w1 j y)"

text \<open>The first and the last element, swapped if they are out of order.\<close>

definition sort_ends where
  "sort_ends get put cmp l u w =
     get w l \<bind> (\<lambda>x. get w u \<bind> (\<lambda>y.
       rbind (cmp w y x) (\<lambda>(w1, b). if b then set2 put w1 l u x y else rreturn w1)))"

text \<open>The middle element, put in order with the first and the last one.\<close>

definition sort_middle where
  "sort_middle get put cmp l i u w =
     get w i \<bind> (\<lambda>x. get w l \<bind> (\<lambda>y.
       rbind (cmp w x y) (\<lambda>(w1, b).
         if b then set2 put w1 i l x y
         else get w1 u \<bind> (\<lambda>z.
                rbind (cmp w1 z x) (\<lambda>(w2, b). if b then set2 put w2 i u x z else rreturn w2)))))"

text \<open>The two inner loops: from \<open>i\<close> up to an element not less than the pivot, from \<open>j\<close> down to one not greater.\<close>

partial_function (option) up_loop ::
  "('w \<Rightarrow> int \<Rightarrow> 'v option) \<Rightarrow> ('w \<Rightarrow> 'v \<Rightarrow> 'v \<Rightarrow> ('w \<times> bool) res) \<Rightarrow> int \<Rightarrow> 'v \<Rightarrow> 'w \<Rightarrow> int \<Rightarrow> ('w \<times> int \<times> 'v) res" where
  "up_loop get cmp u P w i =
     get w (i + 1) \<bind> (\<lambda>x. rbind (cmp w x P) (\<lambda>(w1, b).
       if b then if i + 1 > u then luaL_error ''invalid order function for sorting'' else up_loop get cmp u P w1 (i + 1)
       else rreturn (w1, i + 1, x)))"

partial_function (option) down_loop ::
  "('w \<Rightarrow> int \<Rightarrow> 'v option) \<Rightarrow> ('w \<Rightarrow> 'v \<Rightarrow> 'v \<Rightarrow> ('w \<times> bool) res) \<Rightarrow> int \<Rightarrow> 'v \<Rightarrow> 'w \<Rightarrow> int \<Rightarrow> ('w \<times> int \<times> 'v) res" where
  "down_loop get cmp l P w j =
     get w (j - 1) \<bind> (\<lambda>x. rbind (cmp w P x) (\<lambda>(w1, b).
       if b then if j - 1 < l then luaL_error ''invalid order function for sorting'' else down_loop get cmp l P w1 (j - 1)
       else rreturn (w1, j - 1, x)))"

partial_function (option) partition_loop ::
  "('w \<Rightarrow> int \<Rightarrow> 'v option) \<Rightarrow> ('w \<Rightarrow> int \<Rightarrow> 'v \<Rightarrow> 'w res) \<Rightarrow> ('w \<Rightarrow> 'v \<Rightarrow> 'v \<Rightarrow> ('w \<times> bool) res) \<Rightarrow> int \<Rightarrow> int \<Rightarrow> 'v
     \<Rightarrow> 'w \<Rightarrow> int \<Rightarrow> int \<Rightarrow> ('w \<times> int) res" where
  "partition_loop get put cmp l u P w i j =
     rbind (up_loop get cmp u P w i) (\<lambda>(w1, i1, x).
     rbind (down_loop get cmp l P w1 j) (\<lambda>(w2, j1, y).
       if j1 < i1 then rreturn (w2, i1)
       else rbind (set2 put w2 i1 j1 x y) (\<lambda>w3. partition_loop get put cmp l u P w3 i1 j1)))"

text \<open>Everything around the loop: the pivot goes next to the end before it and to its place after it.\<close>

definition sort_partition where
  "sort_partition get put cmp l i u w =
     get w i \<bind> (\<lambda>P. get w (u - 1) \<bind> (\<lambda>y.
       rbind (set2 put w i (u - 1) P y) (\<lambda>w1.
       rbind (partition_loop get put cmp l u P w1 l (u - 1)) (\<lambda>(w2, i1).
         get w2 (u - 1) \<bind> (\<lambda>a. get w2 i1 \<bind> (\<lambda>b.
           rbind (set2 put w2 (u - 1) i1 a b) (\<lambda>w3. rreturn (w3, i1))))))))"

text \<open>The division of C, which rounds to zero.\<close>

definition half :: "int \<Rightarrow> int" where
  "half s = (if s < 0 then - ((- s) div 2) else s div 2)"

text \<open>The smaller part is sorted by a recursive call, the larger one by going on.\<close>

partial_function (option) auxsort ::
  "('w \<Rightarrow> int \<Rightarrow> 'v option) \<Rightarrow> ('w \<Rightarrow> int \<Rightarrow> 'v \<Rightarrow> 'w res) \<Rightarrow> ('w \<Rightarrow> 'v \<Rightarrow> 'v \<Rightarrow> ('w \<times> bool) res) \<Rightarrow> int \<Rightarrow> int \<Rightarrow> 'w \<Rightarrow> 'w res" where
  "auxsort get put cmp l u w =
     (if l < u
      then rbind (sort_ends get put cmp l u w) (\<lambda>w1.
        if u - l = 1 then rreturn w1
        else let i = half (c_int (l + u))
             in rbind (sort_middle get put cmp l i u w1) (\<lambda>w2.
               if u - l = 2 then rreturn w2
               else rbind (sort_partition get put cmp l i u w2) (\<lambda>(w3, i).
                 let (j, i, l, u) = (if i - l < u - i then (l, i - 1, i + 1, u) else (i + 1, u, l, i - 1))
                 in rbind (auxsort get put cmp j i w3) (\<lambda>w4. auxsort get put cmp l u w4))))
      else rreturn w)"

text \<open>The sorting of a table; a comparison may change the table and the state \<open>'s\<close> of the script.\<close>

definition sort_table ::
  "'n num_ops \<Rightarrow> (int \<Rightarrow> bool) \<Rightarrow> ('n Table \<times> 's \<Rightarrow> nat \<Rightarrow> 'n TValue list \<Rightarrow> (('n Table \<times> 's) \<times> 'n TValue) res)
     \<Rightarrow> ('n Table \<times> 's \<Rightarrow> 'n TValue \<Rightarrow> 'n TValue \<Rightarrow> (('n Table \<times> 's) \<times> bool) res) \<Rightarrow> nat option
     \<Rightarrow> 'n Table \<times> 's \<Rightarrow> ('n Table \<times> 's) res" where
  "sort_table N gr lua_call lua_lessthan func w = getn N (fst w) \<bind> (\<lambda>n.
     auxsort (\<lambda>w. lua_rawgeti N (fst w)) (\<lambda>w i v. rbind (lua_rawseti N gr (fst w) i v) (\<lambda>t. rreturn (t, snd w)))
       (sort_comp lua_call lua_lessthan func) 1 n w)"

section \<open>Raw access to well-formed tables\<close>

text \<open>The table after a key is set: every other key keeps its value.\<close>

definition updated :: "'n num_ops \<Rightarrow> 'n Table \<Rightarrow> 'n TValue \<Rightarrow> 'n TValue \<Rightarrow> 'n Table \<Rightarrow> bool" where
  "updated N t k v t' \<longleftrightarrow> table_ok N t' \<and> lookup N t' k = Some v \<and>
     (\<forall>k'. valid_key N k' \<longrightarrow> \<not> same N k' k \<longrightarrow> lookup N t' k' = lookup N t k')"

abbreviation ikey :: "'n num_ops \<Rightarrow> int \<Rightarrow> 'n TValue" where
  "ikey N i \<equiv> Number (cast_num N i)"

lemma lua_rawgeti_index: "num_ok N \<Longrightarrow> is_int i \<Longrightarrow> lua_rawgeti N t i = at_index N t i"
  by (simp add: lua_rawgeti_def lookup_number)

lemma rawgeti_total:
  assumes "num_ok N" "table_ok N t" "is_int i"
  obtains v where "lua_rawgeti N t i = Some v" "at_index N t i = Some v"
  using at_index_total [of N t i] assms lua_rawgeti_index [OF assms(1,3)] by (auto simp: table_ok_def)

lemma rawseti_ok:
  assumes N: "num_ok N" and ok: "table_ok N t" and i: "is_int i"
  shows "returns_if (all_granted gr \<and> card (entries N t) < 2 ^ 26 \<or> at_index N t i \<noteq> Some Nil_value) (lua_rawseti N gr t i v) (updated N t (ikey N i) v)"
proof -
  have core: "core_ok N t" using ok by (simp add: table_ok_def)
  have w: "\<exists>t''. write_ref t' r v = Some t'' \<and> updated N t (ikey N i) v t''" if "slot_given N t (ikey N i) (t', r)" for t' r
    using table_ok_write [OF N valid_cast [OF N i] that core, of v] unfolding updated_def by blast
  show ?thesis
  proof (cases "at_index N t i = Some Nil_value")
    case True
    have "returns_if (all_granted gr \<and> card (entries N t) < 2 ^ 26) (lua_rawseti N gr t i v) (updated N t (ikey N i) v)"
      unfolding lua_rawseti_def
    proof (rule returns_if_bind [OF luaH_setnum_given [OF N ok i]])
      fix x assume "slot_given N t (ikey N i) x"
      then show "returns_if (all_granted gr \<and> card (entries N t) < 2 ^ 26) (case x of (t1, r) \<Rightarrow> write_ref t1 r v \<bind> rreturn) (updated N t (ikey N i) v)"
        using w by (cases x) fastforce
    qed
    then show ?thesis using True by simp
  next
    case False
    obtain p where p: "luaH_getnum N t i = Some p" "slot_ok N t (ikey N i) p" using luaH_getnum_slot [OF N core i] by blast
    have "p \<noteq> nilobject" using False lookup_number [OF N i, of t] p(1) by auto
    moreover from this have "slot_given N t (ikey N i) (t, p)" using ok p(2) by (simp add: slot_given_def)
    ultimately show ?thesis using w p(1) by (fastforce simp: lua_rawseti_def luaH_setnum_def setnum_with_def)
  qed
qed

lemma same_ikey: "num_ok N \<Longrightarrow> is_int i \<Longrightarrow> is_int j \<Longrightarrow> same N (ikey N i) (ikey N j) \<longleftrightarrow> i = j"
  by (simp add: num_okD(4))

lemma updated_index:
  assumes "num_ok N" "updated N t (ikey N i) v t'" "is_int i" "is_int j"
  shows "at_index N t' j = (if j = i then Some v else at_index N t j)"
  using assms same_ikey [OF assms(1,4,3)] valid_cast [OF assms(1,4)] by (auto simp: updated_def at_index_def)

lemma is_int_between [intro]: "is_int a \<Longrightarrow> is_int b \<Longrightarrow> a \<le> i \<Longrightarrow> i \<le> b \<Longrightarrow> is_int i"
  by (simp add: is_int_def)

end
