(* ===== verification/LuaSort.thy ===== *)
theory LuaSort
  imports LuaTablib
begin

text \<open>
  The quicksort of the table library.  What it relies on is an interface: an array that can be read and
  written, and a comparison that is a strict weak order on its elements and changes nothing that
  is read.  Then it ends without an error, never leaves the range it was given, and sorts it.
\<close>

section \<open>Rearrangements of a range\<close>

definition rearranged :: "int \<Rightarrow> int \<Rightarrow> (int \<Rightarrow> 'v) \<Rightarrow> (int \<Rightarrow> 'v) \<Rightarrow> bool" where
  "rearranged l u f g \<longleftrightarrow> (\<forall>k. k < l \<or> u < k \<longrightarrow> g k = f k) \<and>
     image_mset g (mset_set {l..u}) = image_mset f (mset_set {l..u})"

lemma rearranged_refl [simp]: "rearranged l u f f"
  by (simp add: rearranged_def)

lemma rearranged_trans: "rearranged l u f g \<Longrightarrow> rearranged l u g h \<Longrightarrow> rearranged l u f h"
  by (simp add: rearranged_def)

lemma rearranged_outside: "rearranged l u f g \<Longrightarrow> k < l \<or> u < k \<Longrightarrow> g k = f k"
  by (auto simp: rearranged_def)

lemma rearranged_swap:
  assumes "l \<le> i" "i \<le> u" "l \<le> j" "j \<le> u"
  shows "rearranged l u f (f(i := f j, j := f i))"
proof (cases "i = j")
  case False
  let ?g = "f(i := f j, j := f i)"
  obtain R where r: "{l..u} = insert i (insert j R)" "i \<notin> R" "j \<notin> R" "finite R"
    using assms by (intro that [of "{l..u} - {i} - {j}"]) auto
  have R: "image_mset ?g (mset_set R) = image_mset f (mset_set R)" by (rule image_mset_cong) (use r in auto)
  have s: "image_mset h (mset_set {l..u}) = add_mset (h i) (add_mset (h j) (image_mset h (mset_set R)))" for h :: "int \<Rightarrow> 'a"
    unfolding r(1) using False r by simp
  have "?g i = f j" "?g j = f i" using False by auto
  then show ?thesis unfolding rearranged_def s R using assms by auto
qed simp

lemma rearranged_wider:
  assumes "rearranged l u f g" "L \<le> l" "u \<le> U"
  shows "rearranged L U f g"
proof -
  have s: "{L..U} = {l..u} \<union> ({L..U} - {l..u})" "{l..u} \<inter> ({L..U} - {l..u}) = {}" using assms(2,3) by auto
  have m: "image_mset h (mset_set {L..U}) = image_mset h (mset_set {l..u}) + image_mset h (mset_set ({L..U} - {l..u}))"
    for h :: "int \<Rightarrow> 'a"
    by (subst s(1), subst mset_set_Union [OF _ _ s(2)]) simp_all
  have "image_mset g (mset_set ({L..U} - {l..u})) = image_mset f (mset_set ({L..U} - {l..u}))"
    by (rule image_mset_cong) (use rearranged_outside [OF assms(1)] in auto)
  then show ?thesis using assms m by (auto simp: rearranged_def)
qed

lemma rearranged_from:
  assumes "rearranged l u f g" "l \<le> k" "k \<le> u"
  shows "\<exists>m. l \<le> m \<and> m \<le> u \<and> g k = f m"
proof -
  have "g k \<in># image_mset g (mset_set {l..u})" using assms(2,3) by simp
  then have "g k \<in># image_mset f (mset_set {l..u})" using assms(1) unfolding rearranged_def by metis
  then show ?thesis by auto
qed

section \<open>Results\<close>

definition gives :: "'a res \<Rightarrow> ('a \<Rightarrow> bool) \<Rightarrow> bool" where
  "gives m Q \<longleftrightarrow> (\<exists>x. m = rreturn x \<and> Q x)"

lemma gives_return [simp]: "gives (rreturn x) Q \<longleftrightarrow> Q x"
  by (auto simp: gives_def rreturn_def)

lemma gives_bind: "gives m P \<Longrightarrow> (\<And>x. P x \<Longrightarrow> gives (f x) Q) \<Longrightarrow> gives (rbind m f) Q"
  by (auto simp: gives_def)

lemma gives_bind2: "gives m (\<lambda>(a, b). P a b) \<Longrightarrow> (\<And>a b. P a b \<Longrightarrow> gives (f a b) Q) \<Longrightarrow> gives (rbind m (\<lambda>(a, b). f a b)) Q"
  by (auto simp: gives_def)

lemma gives_bind3:
  "gives m (\<lambda>(a, b, c). P a b c) \<Longrightarrow> (\<And>a b c. P a b c \<Longrightarrow> gives (f a b c) Q) \<Longrightarrow> gives (rbind m (\<lambda>(a, b, c). f a b c)) Q"
  by (auto simp: gives_def)

lemma gives_mono: "gives m P \<Longrightarrow> (\<And>x. P x \<Longrightarrow> Q x) \<Longrightarrow> gives m Q"
  by (auto simp: gives_def)

section \<open>The interface\<close>

definition strict_weak :: "'v set \<Rightarrow> ('v \<Rightarrow> 'v \<Rightarrow> bool) \<Rightarrow> bool" where
  "strict_weak D lt \<longleftrightarrow> (\<forall>a \<in> D. \<forall>b \<in> D. lt a b \<longrightarrow> \<not> lt b a) \<and>
     (\<forall>a \<in> D. \<forall>b \<in> D. \<forall>c \<in> D. lt a b \<longrightarrow> lt a c \<or> lt c b)"

definition sorted_range :: "('v \<Rightarrow> 'v \<Rightarrow> bool) \<Rightarrow> int \<Rightarrow> int \<Rightarrow> (int \<Rightarrow> 'v) \<Rightarrow> bool" where
  "sorted_range lt l u f \<longleftrightarrow> (\<forall>i j. l \<le> i \<and> i < j \<and> j \<le> u \<longrightarrow> \<not> lt (f j) (f i))"

text \<open>The invariant of the partition: what is below \<open>i\<close> is not above the pivot, what is above \<open>j\<close> not below it.\<close>

definition parted :: "('v \<Rightarrow> 'v \<Rightarrow> bool) \<Rightarrow> int \<Rightarrow> int \<Rightarrow> 'v \<Rightarrow> (int \<Rightarrow> 'v) \<Rightarrow> int \<Rightarrow> int \<Rightarrow> bool" where
  "parted lt l u P f i j \<longleftrightarrow> f (u - 1) = P \<and> (\<forall>k. l \<le> k \<and> k \<le> i \<longrightarrow> \<not> lt P (f k)) \<and> (\<forall>k. j \<le> k \<and> k \<le> u \<longrightarrow> \<not> lt (f k) P)"

locale sortable =
  fixes ok :: "'w \<Rightarrow> bool" and elem :: "'w \<Rightarrow> int \<Rightarrow> 'v" and n :: int and D :: "'v set"
    and get :: "'w \<Rightarrow> int \<Rightarrow> 'v option" and put :: "'w \<Rightarrow> int \<Rightarrow> 'v \<Rightarrow> 'w res"
    and cmp :: "'w \<Rightarrow> 'v \<Rightarrow> 'v \<Rightarrow> ('w \<times> bool) res" and lt :: "'v \<Rightarrow> 'v \<Rightarrow> bool"
  assumes get_elem: "ok w \<Longrightarrow> 1 \<le> i \<Longrightarrow> i \<le> n \<Longrightarrow> get w i = Some (elem w i) \<and> elem w i \<in> D"
    and put_elem: "ok w \<Longrightarrow> 1 \<le> i \<Longrightarrow> i \<le> n \<Longrightarrow> v \<in> D \<Longrightarrow> gives (put w i v) (\<lambda>w'. ok w' \<and> elem w' = (elem w)(i := v))"
    and cmp_elem: "ok w \<Longrightarrow> a \<in> D \<Longrightarrow> b \<in> D \<Longrightarrow> gives (cmp w a b) (\<lambda>(w', r). ok w' \<and> elem w' = elem w \<and> (r \<longleftrightarrow> lt a b))"
    and order: "ok w \<Longrightarrow> strict_weak D lt"
begin

lemma set2_swaps:
  assumes "ok w" "1 \<le> i" "i \<le> n" "1 \<le> j" "j \<le> n" "x = elem w i" "y = elem w j"
  shows "gives (set2 put w i j x y) (\<lambda>w'. ok w' \<and> elem w' = (elem w)(i := elem w j, j := elem w i))"
  unfolding set2_def
proof (rule gives_bind [OF put_elem])
  fix w1 assume "ok w1 \<and> elem w1 = (elem w)(i := y)"
  then show "gives (put w1 j x) (\<lambda>w'. ok w' \<and> elem w' = (elem w)(i := elem w j, j := elem w i))"
    using assms get_elem [of w i] by (intro gives_mono [OF put_elem]) auto
qed (use assms get_elem [of w j] in auto)

lemma up_loop_ok:
  assumes "ok w" "P \<in> D" "0 \<le> i" "i < s" "s \<le> u" "s \<le> n" "\<not> lt (elem w s) P"
  shows "gives (up_loop get cmp u P w i) (\<lambda>(w', i1, x). ok w' \<and> elem w' = elem w \<and> i < i1 \<and> i1 \<le> s \<and> x = elem w i1 \<and>
    \<not> lt (elem w i1) P \<and> (\<forall>k. i < k \<and> k < i1 \<longrightarrow> lt (elem w k) P))"
  using assms
proof (induction "nat (s - i)" arbitrary: i w rule: less_induct)
  case less
  have g: "get w (i + 1) = Some (elem w (i + 1))" "elem w (i + 1) \<in> D" using less.prems get_elem [of w "i + 1"] by auto
  have step: "up_loop get cmp u P w i = rbind (cmp w (elem w (i + 1)) P) (\<lambda>(w1, b).
      if b then if i + 1 > u then luaL_error ''invalid order function for sorting'' else up_loop get cmp u P w1 (i + 1)
      else rreturn (w1, i + 1, elem w (i + 1)))" by (subst up_loop.simps) (simp add: g)
  show ?case unfolding step
  proof (rule gives_bind2 [OF cmp_elem [OF less.prems(1) g(2) less.prems(2)]])
    fix w1 b assume "ok w1 \<and> elem w1 = elem w \<and> (b \<longleftrightarrow> lt (elem w (i + 1)) P)"
    then have w1: "ok w1" "elem w1 = elem w" "b \<longleftrightarrow> lt (elem w (i + 1)) P" by blast+
    show "gives (if b then if i + 1 > u then luaL_error ''invalid order function for sorting'' else up_loop get cmp u P w1 (i + 1)
        else rreturn (w1, i + 1, elem w (i + 1))) (\<lambda>(w', i1, x). ok w' \<and> elem w' = elem w \<and> i < i1 \<and> i1 \<le> s \<and> x = elem w i1 \<and>
        \<not> lt (elem w i1) P \<and> (\<forall>k. i < k \<and> k < i1 \<longrightarrow> lt (elem w k) P))"
    proof (cases b)
      case True
      then have s: "i + 1 < s" using w1(3) less.prems(4,7) by (cases "i + 1 = s") auto
      have "gives (up_loop get cmp u P w1 (i + 1)) (\<lambda>(w', i1, x). ok w' \<and> elem w' = elem w1 \<and> i + 1 < i1 \<and> i1 \<le> s \<and> x = elem w1 i1 \<and>
          \<not> lt (elem w1 i1) P \<and> (\<forall>k. i + 1 < k \<and> k < i1 \<longrightarrow> lt (elem w1 k) P))"
        by (rule less.hyps) (use s w1 less.prems in auto)
      then show ?thesis using True s less.prems(5) w1(2,3)
        by (simp, elim gives_mono) (clarsimp, metis add1_zle_eq order_less_le)
    qed (use w1 less.prems in auto)
  qed
qed

lemma down_loop_ok:
  assumes "ok w" "P \<in> D" "j \<le> n + 1" "s < j" "l \<le> s" "1 \<le> s" "\<not> lt P (elem w s)"
  shows "gives (down_loop get cmp l P w j) (\<lambda>(w', j1, x). ok w' \<and> elem w' = elem w \<and> s \<le> j1 \<and> j1 < j \<and> x = elem w j1 \<and>
    \<not> lt P (elem w j1) \<and> (\<forall>k. j1 < k \<and> k < j \<longrightarrow> lt P (elem w k)))"
  using assms
proof (induction "nat (j - s)" arbitrary: j w rule: less_induct)
  case less
  have g: "get w (j - 1) = Some (elem w (j - 1))" "elem w (j - 1) \<in> D" using less.prems get_elem [of w "j - 1"] by auto
  have step: "down_loop get cmp l P w j = rbind (cmp w P (elem w (j - 1))) (\<lambda>(w1, b).
      if b then if j - 1 < l then luaL_error ''invalid order function for sorting'' else down_loop get cmp l P w1 (j - 1)
      else rreturn (w1, j - 1, elem w (j - 1)))" by (subst down_loop.simps) (simp add: g)
  show ?case unfolding step
  proof (rule gives_bind2 [OF cmp_elem [OF less.prems(1,2) g(2)]])
    fix w1 b assume "ok w1 \<and> elem w1 = elem w \<and> (b \<longleftrightarrow> lt P (elem w (j - 1)))"
    then have w1: "ok w1" "elem w1 = elem w" "b \<longleftrightarrow> lt P (elem w (j - 1))" by blast+
    show "gives (if b then if j - 1 < l then luaL_error ''invalid order function for sorting'' else down_loop get cmp l P w1 (j - 1)
        else rreturn (w1, j - 1, elem w (j - 1))) (\<lambda>(w', j1, x). ok w' \<and> elem w' = elem w \<and> s \<le> j1 \<and> j1 < j \<and> x = elem w j1 \<and>
        \<not> lt P (elem w j1) \<and> (\<forall>k. j1 < k \<and> k < j \<longrightarrow> lt P (elem w k)))"
    proof (cases b)
      case True
      then have s: "s < j - 1" using w1(3) less.prems(4,7) by (cases "j - 1 = s") auto
      have "gives (down_loop get cmp l P w1 (j - 1)) (\<lambda>(w', j1, x). ok w' \<and> elem w' = elem w1 \<and> s \<le> j1 \<and> j1 < j - 1 \<and> x = elem w1 j1 \<and>
          \<not> lt P (elem w1 j1) \<and> (\<forall>k. j1 < k \<and> k < j - 1 \<longrightarrow> lt P (elem w1 k)))"
        by (rule less.hyps) (use s w1 less.prems in auto)
      then show ?thesis using True s less.prems(5) w1(2,3)
        by (simp, elim gives_mono) (clarsimp, metis zle_diff1_eq order_less_le)
    qed (use w1 less.prems in auto)
  qed
qed

lemma elem_D: "ok w \<Longrightarrow> 1 \<le> i \<Longrightarrow> i \<le> n \<Longrightarrow> elem w i \<in> D"
  using get_elem by blast

lemma lt_asym: "ok w \<Longrightarrow> a \<in> D \<Longrightarrow> b \<in> D \<Longrightarrow> lt a b \<Longrightarrow> \<not> lt b a"
  using order unfolding strict_weak_def by blast

lemma lt_between: "ok w \<Longrightarrow> a \<in> D \<Longrightarrow> b \<in> D \<Longrightarrow> c \<in> D \<Longrightarrow> \<not> lt c a \<Longrightarrow> \<not> lt b c \<Longrightarrow> \<not> lt b a"
  using order unfolding strict_weak_def by blast

lemma lt_irrefl: "ok w \<Longrightarrow> a \<in> D \<Longrightarrow> \<not> lt a a"
  using lt_asym by blast

lemma parted_stops:
  assumes "parted lt l u P f i j" "l \<le> i" "i < u - 1" "l < j" "j \<le> u - 1" "i \<le> j"
  shows "\<not> lt (f (max (i + 1) j)) P" "\<not> lt P (f (min (j - 1) i))"
  using assms by (auto simp: parted_def)

lemma partition_loop_ok:
  assumes "ok w" "P \<in> D" "1 \<le> l" "u \<le> n" "l \<le> i" "i < u - 1" "l < j" "j \<le> u - 1" "i \<le> j" "parted lt l u P (elem w) i j"
  shows "gives (partition_loop get put cmp l u P w i j) (\<lambda>(w', i1). ok w' \<and> rearranged l u (elem w) (elem w') \<and> l < i1 \<and> i1 \<le> u - 1 \<and>
    parted lt l u P (elem w') (i1 - 1) i1)"
  using assms
proof (induction "nat (j - i + 1)" arbitrary: i j w rule: less_induct)
  case less
  note p = less.prems(10)
  note stops = parted_stops [OF p less.prems(5-9)]
  let ?su = "max (i + 1) j" and ?sd = "min (j - 1) i"
  let ?Q = "\<lambda>(w', i1). ok w' \<and> rearranged l u (elem w) (elem w') \<and> l < i1 \<and> i1 \<le> u - 1 \<and> parted lt l u P (elem w') (i1 - 1) i1"
  have up: "gives (up_loop get cmp u P w i) (\<lambda>(w', i1, x). ok w' \<and> elem w' = elem w \<and> i < i1 \<and> i1 \<le> ?su \<and> x = elem w i1 \<and>
      \<not> lt (elem w i1) P \<and> (\<forall>k. i < k \<and> k < i1 \<longrightarrow> lt (elem w k) P))"
    by (rule up_loop_ok) (use less.prems stops in auto)
  show ?case
    unfolding partition_loop.simps [of get put cmp l u P w i j]
  proof (rule gives_bind3 [OF up])
    fix w1 i1 x assume "ok w1 \<and> elem w1 = elem w \<and> i < i1 \<and> i1 \<le> ?su \<and> x = elem w i1 \<and>
      \<not> lt (elem w i1) P \<and> (\<forall>k. i < k \<and> k < i1 \<longrightarrow> lt (elem w k) P)"
    then have w1: "ok w1" "elem w1 = elem w" "i < i1" "i1 \<le> ?su" "x = elem w i1" "\<not> lt (elem w i1) P"
      "\<And>k. i < k \<Longrightarrow> k < i1 \<Longrightarrow> lt (elem w k) P" by blast+
    have down: "gives (down_loop get cmp l P w1 j) (\<lambda>(w', j1, y). ok w' \<and> elem w' = elem w1 \<and> ?sd \<le> j1 \<and> j1 < j \<and> y = elem w1 j1 \<and>
        \<not> lt P (elem w1 j1) \<and> (\<forall>k. j1 < k \<and> k < j \<longrightarrow> lt P (elem w1 k)))"
      by (rule down_loop_ok) (use less.prems stops w1 in auto)
    show "gives (rbind (down_loop get cmp l P w1 j) (\<lambda>(w2, j1, y). if j1 < i1 then rreturn (w2, i1)
        else rbind (set2 put w2 i1 j1 x y) (\<lambda>w3. partition_loop get put cmp l u P w3 i1 j1))) ?Q"
    proof (rule gives_bind3 [OF down])
      fix w2 j1 y assume "ok w2 \<and> elem w2 = elem w1 \<and> ?sd \<le> j1 \<and> j1 < j \<and> y = elem w1 j1 \<and>
        \<not> lt P (elem w1 j1) \<and> (\<forall>k. j1 < k \<and> k < j \<longrightarrow> lt P (elem w1 k))"
      then have w2: "ok w2" "elem w2 = elem w" "?sd \<le> j1" "j1 < j" "y = elem w j1" "\<not> lt P (elem w j1)"
        "\<And>k. j1 < k \<Longrightarrow> k < j \<Longrightarrow> lt P (elem w k)" using w1(2) by auto
      have D: "elem w k \<in> D" if "l \<le> k" "k \<le> u" for k using elem_D [OF less.prems(1), of k] that less.prems(3,4) by simp
      have low: "\<not> lt P (elem w k)" if "l \<le> k" "k < i1" for k
        using p w1(7) [of k] lt_asym [OF less.prems(1) D less.prems(2), of k] that w1(4) less.prems
        by (cases "k \<le> i") (auto simp: parted_def)
      have high: "\<not> lt (elem w k) P" if "j1 < k" "k \<le> u" for k
        using p w2(7) [of k] lt_asym [OF less.prems(1,2) D, of k] that w2(3) less.prems
        by (cases "j \<le> k") (auto simp: parted_def)
      show "gives (if j1 < i1 then rreturn (w2, i1)
        else rbind (set2 put w2 i1 j1 x y) (\<lambda>w3. partition_loop get put cmp l u P w3 i1 j1)) ?Q"
      proof (cases "j1 < i1")
        case True
        have "parted lt l u P (elem w2) (i1 - 1) i1"
          using p low high True w1(6) unfolding parted_def w2(2) by (metis order_less_le_trans zle_diff1_eq)
        then show ?thesis using True w1 w2 less.prems by auto
      next
        case False
        have b: "l < i1" "i1 \<le> j1" "j1 < u - 1" using False w1(3) w2(4) less.prems by auto
        have sw: "gives (set2 put w2 i1 j1 x y) (\<lambda>w'. ok w' \<and> elem w' = (elem w)(i1 := elem w j1, j1 := elem w i1))"
          using set2_swaps [of w2 i1 j1 x y] w1 w2 b less.prems by auto
        show ?thesis unfolding if_not_P [OF False]
        proof (rule gives_bind [OF sw])
          fix w3 assume w3: "ok w3 \<and> elem w3 = (elem w)(i1 := elem w j1, j1 := elem w i1)"
          have "parted lt l u P (elem w3) i1 j1"
            using p low high w1(6) w2(6) w3 b unfolding parted_def by auto
          then have "gives (partition_loop get put cmp l u P w3 i1 j1) (\<lambda>(w', i2). ok w' \<and> rearranged l u (elem w3) (elem w') \<and>
              l < i2 \<and> i2 \<le> u - 1 \<and> parted lt l u P (elem w') (i2 - 1) i2)"
            by (intro less.hyps) (use w1(3) w2(4) w3 b less.prems in auto)
          moreover have "rearranged l u (elem w) (elem w3)" using w3 rearranged_swap [of l i1 u j1 "elem w"] b by simp
          ultimately show "gives (partition_loop get put cmp l u P w3 i1 j1) ?Q"
            by (elim gives_mono) (auto intro: rearranged_trans)
        qed
      qed
    qed
  qed
qed

lemma sort_ends_ok:
  assumes "ok w" "1 \<le> l" "l < u" "u \<le> n"
  shows "gives (sort_ends get put cmp l u w) (\<lambda>w'. ok w' \<and> rearranged l u (elem w) (elem w') \<and> \<not> lt (elem w' u) (elem w' l))"
proof -
  have g: "get w l = Some (elem w l)" "get w u = Some (elem w u)" and D: "elem w l \<in> D" "elem w u \<in> D"
    using assms get_elem [of w l] get_elem [of w u] by auto
  have step: "sort_ends get put cmp l u w = rbind (cmp w (elem w u) (elem w l)) (\<lambda>(w1, b).
      if b then set2 put w1 l u (elem w l) (elem w u) else rreturn w1)" by (simp add: sort_ends_def g)
  show ?thesis unfolding step
  proof (rule gives_bind2 [OF cmp_elem [OF assms(1) D(2,1)]])
    fix w1 b assume w1: "ok w1 \<and> elem w1 = elem w \<and> (b \<longleftrightarrow> lt (elem w u) (elem w l))"
    show "gives (if b then set2 put w1 l u (elem w l) (elem w u) else rreturn w1)
      (\<lambda>w'. ok w' \<and> rearranged l u (elem w) (elem w') \<and> \<not> lt (elem w' u) (elem w' l))"
    proof (cases b)
      case True
      have "gives (set2 put w1 l u (elem w l) (elem w u)) (\<lambda>w'. ok w' \<and> elem w' = (elem w1)(l := elem w1 u, u := elem w1 l))"
        by (rule set2_swaps) (use w1 assms in auto)
      moreover have "\<not> lt (elem w l) (elem w u)" using True w1 lt_asym [OF assms(1) D(2,1)] by simp
      moreover have "rearranged l u (elem w) ((elem w)(l := elem w u, u := elem w l))" by (rule rearranged_swap) (use assms in auto)
      ultimately show ?thesis using True w1 assms(3) by (auto elim!: gives_mono)
    qed (use w1 in auto)
  qed
qed

lemma sort_middle_ok:
  assumes "ok w" "1 \<le> l" "l < i" "i < u" "u \<le> n" "\<not> lt (elem w u) (elem w l)"
  shows "gives (sort_middle get put cmp l i u w) (\<lambda>w'. ok w' \<and> rearranged l u (elem w) (elem w') \<and>
    \<not> lt (elem w' i) (elem w' l) \<and> \<not> lt (elem w' u) (elem w' i))"
proof -
  let ?Q = "\<lambda>w'. ok w' \<and> rearranged l u (elem w) (elem w') \<and> \<not> lt (elem w' i) (elem w' l) \<and> \<not> lt (elem w' u) (elem w' i)"
  have g: "get w' k = Some (elem w' k)" "elem w' k \<in> D" if "ok w'" "l \<le> k" "k \<le> u" for w' k
    using that assms get_elem [of w' k] by auto
  have D: "elem w l \<in> D" "elem w i \<in> D" "elem w u \<in> D" using g(2) [OF assms(1)] assms by auto
  have step: "sort_middle get put cmp l i u w = rbind (cmp w (elem w i) (elem w l)) (\<lambda>(w1, b).
      if b then set2 put w1 i l (elem w i) (elem w l)
      else get w1 u \<bind> (\<lambda>z. rbind (cmp w1 z (elem w i)) (\<lambda>(w2, b). if b then set2 put w2 i u (elem w i) z else rreturn w2)))"
    using assms by (simp add: sort_middle_def g)
  show ?thesis unfolding step
  proof (rule gives_bind2 [OF cmp_elem [OF assms(1) D(2,1)]])
    fix w1 b assume w1: "ok w1 \<and> elem w1 = elem w \<and> (b \<longleftrightarrow> lt (elem w i) (elem w l))"
    show "gives (if b then set2 put w1 i l (elem w i) (elem w l)
      else get w1 u \<bind> (\<lambda>z. rbind (cmp w1 z (elem w i)) (\<lambda>(w2, b). if b then set2 put w2 i u (elem w i) z else rreturn w2))) ?Q"
    proof (cases b)
      case True
      have "gives (set2 put w1 i l (elem w i) (elem w l)) (\<lambda>w'. ok w' \<and> elem w' = (elem w1)(i := elem w1 l, l := elem w1 i))"
        by (rule set2_swaps) (use w1 assms in auto)
      moreover have "\<not> lt (elem w l) (elem w i)" using True w1 lt_asym [OF assms(1) D(2,1)] by simp
      moreover have "rearranged l u (elem w) ((elem w)(i := elem w l, l := elem w i))" by (rule rearranged_swap) (use assms in auto)
      ultimately show ?thesis using True w1 assms by (auto elim!: gives_mono)
    next
      case False
      have gu: "get w1 u = Some (elem w u)" using g(1) [of w1 u] w1 assms by auto
      have "gives (rbind (cmp w1 (elem w u) (elem w i)) (\<lambda>(w2, b). if b then set2 put w2 i u (elem w i) (elem w u) else rreturn w2)) ?Q"
      proof (rule gives_bind2 [OF cmp_elem])
        fix w2 c assume w2: "ok w2 \<and> elem w2 = elem w1 \<and> (c \<longleftrightarrow> lt (elem w u) (elem w i))"
        show "gives (if c then set2 put w2 i u (elem w i) (elem w u) else rreturn w2) ?Q"
        proof (cases c)
          case True
          have "gives (set2 put w2 i u (elem w i) (elem w u)) (\<lambda>w'. ok w' \<and> elem w' = (elem w2)(i := elem w2 u, u := elem w2 i))"
            by (rule set2_swaps) (use w1 w2 assms in auto)
          moreover have "\<not> lt (elem w i) (elem w u)" using True w2 lt_asym [OF assms(1) D(3,2)] by simp
          moreover have "rearranged l u (elem w) ((elem w)(i := elem w u, u := elem w i))" by (rule rearranged_swap) (use assms in auto)
          ultimately show ?thesis using True w1 w2 assms by (auto elim!: gives_mono)
        qed (use w1 w2 False in auto)
      qed (use w1 D in auto)
      then show ?thesis using False gu by simp
    qed
  qed
qed

lemma sort_partition_ok:
  assumes "ok w" "1 \<le> l" "l < i" "i < u - 1" "u \<le> n" "\<not> lt (elem w i) (elem w l)" "\<not> lt (elem w u) (elem w i)"
  shows "gives (sort_partition get put cmp l i u w) (\<lambda>(w', p). ok w' \<and> rearranged l u (elem w) (elem w') \<and> l < p \<and> p \<le> u - 1 \<and>
    (\<forall>k. l \<le> k \<and> k < p \<longrightarrow> \<not> lt (elem w' p) (elem w' k)) \<and> (\<forall>k. p < k \<and> k \<le> u \<longrightarrow> \<not> lt (elem w' k) (elem w' p)))"
proof -
  let ?Q = "\<lambda>(w', p). ok w' \<and> rearranged l u (elem w) (elem w') \<and> l < p \<and> p \<le> u - 1 \<and>
    (\<forall>k. l \<le> k \<and> k < p \<longrightarrow> \<not> lt (elem w' p) (elem w' k)) \<and> (\<forall>k. p < k \<and> k \<le> u \<longrightarrow> \<not> lt (elem w' k) (elem w' p))"
  have g: "get w' k = Some (elem w' k)" "elem w' k \<in> D" if "ok w'" "l \<le> k" "k \<le> u" for w' k
    using that assms get_elem [of w' k] by auto
  let ?P = "elem w i"
  have P: "?P \<in> D" using g(2) [OF assms(1), of i] assms by simp
  let ?f = "(elem w)(i := elem w (u - 1), u - 1 := ?P)"
  have sw: "gives (set2 put w i (u - 1) ?P (elem w (u - 1))) (\<lambda>w'. ok w' \<and> elem w' = ?f)"
    by (rule set2_swaps) (use assms in auto)
  have "gives (rbind (set2 put w i (u - 1) ?P (elem w (u - 1))) (\<lambda>w1. rbind (partition_loop get put cmp l u ?P w1 l (u - 1)) (\<lambda>(w2, i1).
         get w2 (u - 1) \<bind> (\<lambda>a. get w2 i1 \<bind> (\<lambda>b. rbind (set2 put w2 (u - 1) i1 a b) (\<lambda>w3. rreturn (w3, i1))))))) ?Q"
  proof (rule gives_bind [OF sw])
    fix w1 assume w1: "ok w1 \<and> elem w1 = ?f"
    have "\<not> lt ?P ?P" by (rule lt_irrefl [OF assms(1) P])
    then have "parted lt l u ?P (elem w1) l (u - 1)"
      using w1 assms unfolding parted_def by (auto simp: order.order_iff_strict dest: zless_imp_add1_zle)
    then have pl: "gives (partition_loop get put cmp l u ?P w1 l (u - 1)) (\<lambda>(w', i1). ok w' \<and> rearranged l u (elem w1) (elem w') \<and>
        l < i1 \<and> i1 \<le> u - 1 \<and> parted lt l u ?P (elem w') (i1 - 1) i1)"
      by (intro partition_loop_ok) (use w1 P assms in auto)
    have r1: "rearranged l u (elem w) (elem w1)" using w1 rearranged_swap [of l i u "u - 1" "elem w"] assms by simp
    show "gives (rbind (partition_loop get put cmp l u ?P w1 l (u - 1)) (\<lambda>(w2, i1).
         get w2 (u - 1) \<bind> (\<lambda>a. get w2 i1 \<bind> (\<lambda>b. rbind (set2 put w2 (u - 1) i1 a b) (\<lambda>w3. rreturn (w3, i1)))))) ?Q"
    proof (rule gives_bind2 [OF pl])
      fix w2 i1 assume "ok w2 \<and> rearranged l u (elem w1) (elem w2) \<and> l < i1 \<and> i1 \<le> u - 1 \<and> parted lt l u ?P (elem w2) (i1 - 1) i1"
      then have w2: "ok w2" "rearranged l u (elem w1) (elem w2)" "l < i1" "i1 \<le> u - 1" "elem w2 (u - 1) = ?P"
        "\<And>k. l \<le> k \<Longrightarrow> k < i1 \<Longrightarrow> \<not> lt ?P (elem w2 k)" "\<And>k. i1 \<le> k \<Longrightarrow> k \<le> u \<Longrightarrow> \<not> lt (elem w2 k) ?P"
        by (auto simp: parted_def)
      let ?h = "(elem w2)(u - 1 := elem w2 i1, i1 := elem w2 (u - 1))"
      have sw2: "gives (set2 put w2 (u - 1) i1 (elem w2 (u - 1)) (elem w2 i1)) (\<lambda>w'. ok w' \<and> elem w' = ?h)"
        by (rule set2_swaps) (use w2 assms in auto)
      have r2: "rearranged l u (elem w2) ?h" by (rule rearranged_swap) (use w2 assms in auto)
      have "rearranged l u (elem w) ?h" by (rule rearranged_trans [OF r1 rearranged_trans [OF w2(2) r2]])
      moreover have "?h i1 = ?P" using w2(5) by auto
      moreover have "\<not> lt ?P (?h k)" if "l \<le> k" "k < i1" for k using that w2(4,6) by auto
      moreover have "\<not> lt (?h k) ?P" if "i1 < k" "k \<le> u" for k using that w2(4,7) by auto
      ultimately have Q: "?Q (w3, i1)" if "ok w3 \<and> elem w3 = ?h" for w3 using that w2(3,4) by (simp only: prod.case) metis
      have "gives (rbind (set2 put w2 (u - 1) i1 (elem w2 (u - 1)) (elem w2 i1)) (\<lambda>w3. rreturn (w3, i1))) ?Q"
        by (rule gives_bind [OF sw2]) (use Q in \<open>simp only: gives_return\<close>)
      then show "gives (get w2 (u - 1) \<bind> (\<lambda>a. get w2 i1 \<bind> (\<lambda>b. rbind (set2 put w2 (u - 1) i1 a b) (\<lambda>w3. rreturn (w3, i1))))) ?Q"
        using g(1) [OF w2(1)] w2(3,4) assms by simp
    qed
  qed
  then show ?thesis using g(1) [OF assms(1)] assms by (simp add: sort_partition_def)
qed

lemma sorted_parts:
  assumes ok: "ok w" and lu: "1 \<le> l" "u \<le> n" "l \<le> p" "p \<le> u"
    and s: "sorted_range lt l (p - 1) (elem w)" "sorted_range lt (p + 1) u (elem w)"
    and b: "\<And>k. l \<le> k \<Longrightarrow> k < p \<Longrightarrow> \<not> lt (elem w p) (elem w k)" "\<And>k. p < k \<Longrightarrow> k \<le> u \<Longrightarrow> \<not> lt (elem w k) (elem w p)"
  shows "sorted_range lt l u (elem w)"
  unfolding sorted_range_def
proof (intro allI impI, elim conjE)
  fix i j assume ij: "l \<le> i" "i < j" "j \<le> u"
  have D: "elem w k \<in> D" if "l \<le> k" "k \<le> u" for k using elem_D [OF ok, of k] that lu by simp
  consider "j < p" | "j = p" | "i < p" "p < j" | "i = p" | "p < i" using ij by linarith
  then show "\<not> lt (elem w j) (elem w i)"
  proof cases
    case 3
    then show ?thesis
      using lt_between [OF ok D [of i] D [of j] D [of p]] b(1) [of i] b(2) [of j] ij lu by simp
  qed (use ij b s in \<open>auto simp: sorted_range_def\<close>)
qed

text \<open>What is known of a range is known of its rearrangements.\<close>

lemma rearranged_all:
  "rearranged l u f g \<Longrightarrow> \<forall>k. l \<le> k \<and> k \<le> u \<longrightarrow> Q (f k) \<Longrightarrow> l \<le> k \<Longrightarrow> k \<le> u \<Longrightarrow> Q (g k)"
  using rearranged_from by metis

lemma sort_two:
  assumes ok: "ok w" and lu: "1 \<le> l" "u \<le> n" "l < p" "p \<le> u - 1"
    and b: "\<And>k. l \<le> k \<Longrightarrow> k < p \<Longrightarrow> \<not> lt (elem w p) (elem w k)" "\<And>k. p < k \<Longrightarrow> k \<le> u \<Longrightarrow> \<not> lt (elem w k) (elem w p)"
    and r: "a = l \<and> b = p - 1 \<and> c = p + 1 \<and> d = u \<or> a = p + 1 \<and> b = u \<and> c = l \<and> d = p - 1"
    and sub: "\<And>v. ok v \<Longrightarrow> gives (f v) (\<lambda>v'. ok v' \<and> rearranged a b (elem v) (elem v') \<and> sorted_range lt a b (elem v'))"
      "\<And>v. ok v \<Longrightarrow> gives (g v) (\<lambda>v'. ok v' \<and> rearranged c d (elem v) (elem v') \<and> sorted_range lt c d (elem v'))"
  shows "gives (rbind (f w) g) (\<lambda>w'. ok w' \<and> rearranged l u (elem w) (elem w') \<and> sorted_range lt l u (elem w'))"
proof (rule gives_bind [OF sub(1) [OF ok]])
  fix w1 assume w1: "ok w1 \<and> rearranged a b (elem w) (elem w1) \<and> sorted_range lt a b (elem w1)"
  show "gives (g w1) (\<lambda>w'. ok w' \<and> rearranged l u (elem w) (elem w') \<and> sorted_range lt l u (elem w'))"
  proof (rule gives_mono [OF sub(2)])
    fix w2 assume w2: "ok w2 \<and> rearranged c d (elem w1) (elem w2) \<and> sorted_range lt c d (elem w2)"
    have ab: "elem w2 k = elem w1 k" if "a \<le> k" "k \<le> b" for k
      using rearranged_outside [of c d "elem w1" "elem w2" k] w2 r that by auto
    have cd: "elem w1 k = elem w k" if "c \<le> k" "k \<le> d" for k
      using rearranged_outside [of a b "elem w" "elem w1" k] w1 r that by auto
    have p: "elem w2 p = elem w p"
      using rearranged_outside [of c d "elem w1" "elem w2" p] rearranged_outside [of a b "elem w" "elem w1" p] w1 w2 r by auto
    have from1: "\<exists>m. a \<le> m \<and> m \<le> b \<and> elem w2 k = elem w m" if "a \<le> k" "k \<le> b" for k
      using rearranged_from [of a b "elem w" "elem w1" k] w1 that ab by simp
    have from2: "\<exists>m. c \<le> m \<and> m \<le> d \<and> elem w2 k = elem w m" if "c \<le> k" "k \<le> d" for k
      using rearranged_from [of c d "elem w1" "elem w2" k] w2 that cd by metis
    have "\<exists>m. l \<le> m \<and> m < p \<and> elem w2 k = elem w m" if "l \<le> k" "k < p" for k
      using r
    proof
      assume "a = l \<and> b = p - 1 \<and> c = p + 1 \<and> d = u"
      then show ?thesis using from1 [of k] that by (auto simp: add1_zle_eq)
    next
      assume "a = p + 1 \<and> b = u \<and> c = l \<and> d = p - 1"
      then show ?thesis using from2 [of k] that by (auto simp: add1_zle_eq)
    qed
    then have low: "\<not> lt (elem w2 p) (elem w2 k)" if "l \<le> k" "k < p" for k using that b(1) p by metis
    have "\<exists>m. p < m \<and> m \<le> u \<and> elem w2 k = elem w m" if "p < k" "k \<le> u" for k
      using r
    proof
      assume "a = l \<and> b = p - 1 \<and> c = p + 1 \<and> d = u"
      then show ?thesis using from2 [of k] that by (auto simp: add1_zle_eq)
    next
      assume "a = p + 1 \<and> b = u \<and> c = l \<and> d = p - 1"
      then show ?thesis using from1 [of k] that by (auto simp: add1_zle_eq)
    qed
    then have high: "\<not> lt (elem w2 k) (elem w2 p)" if "p < k" "k \<le> u" for k using that b(2) p by metis
    have "sorted_range lt a b (elem w2)" using w1 ab unfolding sorted_range_def by (metis order_less_imp_le order_trans)
    then have "sorted_range lt l u (elem w2)"
      using w2 r lu low high by (intro sorted_parts [of w2 l u p]) auto
    moreover have "rearranged l u (elem w) (elem w2)"
    proof (rule rearranged_trans)
      show "rearranged l u (elem w) (elem w1)" by (rule rearranged_wider [of a b]) (use w1 r lu in auto)
      show "rearranged l u (elem w1) (elem w2)" by (rule rearranged_wider [of c d]) (use w2 r lu in auto)
    qed
    ultimately show "ok w2 \<and> rearranged l u (elem w) (elem w2) \<and> sorted_range lt l u (elem w2)" using w2 by blast
  qed (use w1 in blast)
qed

lemma auxsort_ok:
  assumes "ok w" "1 \<le> l" "u \<le> n" "n \<le> 2 ^ 30"
  shows "gives (auxsort get put cmp l u w) (\<lambda>w'. ok w' \<and> rearranged l u (elem w) (elem w') \<and> sorted_range lt l u (elem w'))"
  using assms(1-3)
proof (induction "nat (u + 1 - l)" arbitrary: l u w rule: less_induct)
  case less
  let ?Q = "\<lambda>w'. ok w' \<and> rearranged l u (elem w) (elem w') \<and> sorted_range lt l u (elem w')"
  show ?case
  proof (cases "l < u")
    case False
    then show ?thesis using less.prems(1) by (auto simp: auxsort.simps [of get put cmp l u w] sorted_range_def)
  next
    case lu: True
    have half: "half (c_int (l + u)) = (l + u) div 2"
    proof -
      have "c_int (l + u) = l + u" using less.prems lu assms(4) by (intro c_int_eq) simp_all
      then show ?thesis using less.prems lu by (simp add: half_def)
    qed
    let ?m = "(l + u) div 2"
    show ?thesis
      unfolding auxsort.simps [of get put cmp l u w] half Let_def if_P [OF lu]
    proof (rule gives_bind [OF sort_ends_ok [OF less.prems(1,2) lu less.prems(3)]])
      fix w1 assume w1: "ok w1 \<and> rearranged l u (elem w) (elem w1) \<and> \<not> lt (elem w1 u) (elem w1 l)"
      show "gives (if u - l = 1 then rreturn w1 else rbind (sort_middle get put cmp l ?m u w1) (\<lambda>w2.
          if u - l = 2 then rreturn w2
          else rbind (sort_partition get put cmp l ?m u w2) (\<lambda>(w3, i).
            case if i - l < u - i then (l, i - 1, i + 1, u) else (i + 1, u, l, i - 1) of
              (j, i, l, u) \<Rightarrow> rbind (auxsort get put cmp j i w3) (auxsort get put cmp l u)))) ?Q"
      proof (cases "u - l = 1")
        case True
        then have "i = l \<and> j = u" if "l \<le> i" "i < j" "j \<le> u" for i j using that by linarith
        then have "sorted_range lt l u (elem w1)" using w1 unfolding sorted_range_def by blast
        then show ?thesis using True w1 by simp
      next
        case False
        then have m: "l < ?m" "?m < u" using lu by linarith+
        have mid: "gives (sort_middle get put cmp l ?m u w1) (\<lambda>w'. ok w' \<and> rearranged l u (elem w1) (elem w') \<and>
            \<not> lt (elem w' ?m) (elem w' l) \<and> \<not> lt (elem w' u) (elem w' ?m))"
          by (rule sort_middle_ok) (use w1 less.prems m in auto)
        show ?thesis unfolding if_not_P [OF False]
        proof (rule gives_bind [OF mid])
          fix w2 assume w2: "ok w2 \<and> rearranged l u (elem w1) (elem w2) \<and> \<not> lt (elem w2 ?m) (elem w2 l) \<and> \<not> lt (elem w2 u) (elem w2 ?m)"
          have r2: "rearranged l u (elem w) (elem w2)" using w1 w2 rearranged_trans by blast
          show "gives (if u - l = 2 then rreturn w2
            else rbind (sort_partition get put cmp l ?m u w2) (\<lambda>(w3, i).
              case if i - l < u - i then (l, i - 1, i + 1, u) else (i + 1, u, l, i - 1) of
                (j, i, l, u) \<Rightarrow> rbind (auxsort get put cmp j i w3) (auxsort get put cmp l u))) ?Q"
          proof (cases "u - l = 2")
            case True
            then have "?m = l + 1" "u = l + 2" by presburger+
            then have "sorted_range lt l u (elem w2)"
              using w2 less.prems by (intro sorted_parts [of w2 l u "l + 1"]) (auto simp: sorted_range_def dest!: order_le_imp_less_or_eq)
            then show ?thesis using True w2 r2 by simp
          next
            case big: False
            have "gives (sort_partition get put cmp l ?m u w2) (\<lambda>(w', p). ok w' \<and> rearranged l u (elem w2) (elem w') \<and> l < p \<and> p \<le> u - 1 \<and>
              (\<forall>k. l \<le> k \<and> k < p \<longrightarrow> \<not> lt (elem w' p) (elem w' k)) \<and> (\<forall>k. p < k \<and> k \<le> u \<longrightarrow> \<not> lt (elem w' k) (elem w' p)))"
              by (rule sort_partition_ok) (use w2 less.prems m big False lu in auto)
            note part = this
            show ?thesis unfolding if_not_P [OF big]
            proof (rule gives_bind2 [OF part])
              fix w3 p assume "ok w3 \<and> rearranged l u (elem w2) (elem w3) \<and> l < p \<and> p \<le> u - 1 \<and>
                (\<forall>k. l \<le> k \<and> k < p \<longrightarrow> \<not> lt (elem w3 p) (elem w3 k)) \<and> (\<forall>k. p < k \<and> k \<le> u \<longrightarrow> \<not> lt (elem w3 k) (elem w3 p))"
              then have w3: "ok w3" "rearranged l u (elem w2) (elem w3)" "l < p" "p \<le> u - 1"
                "\<And>k. l \<le> k \<Longrightarrow> k < p \<Longrightarrow> \<not> lt (elem w3 p) (elem w3 k)" "\<And>k. p < k \<Longrightarrow> k \<le> u \<Longrightarrow> \<not> lt (elem w3 k) (elem w3 p)"
                by blast+
              have sub: "gives (auxsort get put cmp a b v) (\<lambda>v'. ok v' \<and> rearranged a b (elem v) (elem v') \<and> sorted_range lt a b (elem v'))"
                if "ok v" "a = l \<and> b = p - 1 \<or> a = p + 1 \<and> b = u" for a b v
                by (rule less.hyps) (use that w3 less.prems in auto)
              have "gives (rbind (auxsort get put cmp a b w3) (auxsort get put cmp c d)) (\<lambda>w'. ok w' \<and> rearranged l u (elem w3) (elem w') \<and>
                  sorted_range lt l u (elem w'))"
                if "a = l \<and> b = p - 1 \<and> c = p + 1 \<and> d = u \<or> a = p + 1 \<and> b = u \<and> c = l \<and> d = p - 1" for a b c d
                by (rule sort_two [OF w3(1) less.prems(2,3) w3(3-6) that]) (use that sub in auto)
              moreover have "rearranged l u (elem w) (elem w3)" by (rule rearranged_trans [OF r2 w3(2)])
              ultimately have two: "gives (rbind (auxsort get put cmp a b w3) (auxsort get put cmp c d)) ?Q"
                if "a = l \<and> b = p - 1 \<and> c = p + 1 \<and> d = u \<or> a = p + 1 \<and> b = u \<and> c = l \<and> d = p - 1" for a b c d
                using that by (blast intro: gives_mono rearranged_trans)
              show "gives (case if p - l < u - p then (l, p - 1, p + 1, u) else (p + 1, u, l, p - 1) of
                  (j, i, l, u) \<Rightarrow> rbind (auxsort get put cmp j i w3) (auxsort get put cmp l u)) ?Q"
                using two [of l "p - 1" "p + 1" u] two [of "p + 1" u l "p - 1"] by simp
            qed
          qed
        qed
      qed
    qed
  qed
qed

end

section \<open>Tables of Lua\<close>

text \<open>The comparison answers as the order says and leaves the table as it is.\<close>

definition compares :: "('t \<times> 's \<Rightarrow> 'v \<Rightarrow> 'v \<Rightarrow> (('t \<times> 's) \<times> bool) res) \<Rightarrow> 'v set \<Rightarrow> ('v \<Rightarrow> 'v \<Rightarrow> bool) \<Rightarrow> bool" where
  "compares cmp D lt \<longleftrightarrow> (\<forall>t s. \<forall>a \<in> D. \<forall>b \<in> D. \<exists>s'. cmp (t, s) a b = rreturn ((t, s'), lt a b))"

definition sort_elem :: "'n num_ops \<Rightarrow> int \<Rightarrow> 'n Table \<times> 's \<Rightarrow> int \<Rightarrow> 'n TValue" where
  "sort_elem N n w i = (if 1 \<le> i \<and> i \<le> n then the (at_index N (fst w) i) else Nil_value)"

text \<open>A table with the elements 1 to \<open>n\<close> in \<open>D\<close> and everything else as in \<open>t0\<close>.\<close>

definition sort_world where
  "sort_world N n D lt cmp t0 w \<longleftrightarrow> num_ok N \<and> is_int n \<and> strict_weak D lt \<and> Nil_value \<notin> D \<and> compares cmp D lt \<and> table_ok N (fst w) \<and>
     (\<forall>i. 1 \<le> i \<and> i \<le> n \<longrightarrow> (\<exists>v \<in> D. at_index N (fst w) i = Some v)) \<and>
     (\<forall>k. valid_key N k \<and> (\<forall>i. 1 \<le> i \<and> i \<le> n \<longrightarrow> \<not> same N k (ikey N i)) \<longrightarrow> lookup N (fst w) k = lookup N t0 k)"

lemma sort_world_put:
  assumes w: "sort_world N n D lt cmp t0 w" and i: "1 \<le> i" "i \<le> n" and v: "v \<in> D"
  shows "gives (rbind (lua_rawseti N gr (fst w) i v) (\<lambda>t. rreturn (t, snd w)))
    (\<lambda>w'. sort_world N n D lt cmp t0 w' \<and> sort_elem N n w' = (sort_elem N n w)(i := v))"
proof -
  have N: "num_ok N" and ok: "table_ok N (fst w)" and n: "is_int n" using w by (auto simp: sort_world_def)
  have int: "is_int j" if "1 \<le> j" "j \<le> n" for j using that n by (simp add: is_int_def)
  obtain u where "u \<in> D" "at_index N (fst w) i = Some u" using w i unfolding sort_world_def by blast
  then have "at_index N (fst w) i \<noteq> Some Nil_value" using w by (auto simp: sort_world_def)
  with rawseti_ok [OF N ok int [OF i], of gr v] obtain t where
    t: "lua_rawseti N gr (fst w) i v = rreturn t" "updated N (fst w) (ikey N i) v t"
    unfolding returns_if_def rreturn_def by (metis isl_def sum.exhaust)
  have at: "at_index N t j = (if j = i then Some v else at_index N (fst w) j)" if "1 \<le> j" "j \<le> n" for j
    by (rule updated_index [OF N t(2) int [OF i] int [OF that]])
  have "sort_world N n D lt cmp t0 (t, snd w)"
    using w t(2) i v at unfolding sort_world_def updated_def by auto
  moreover have "sort_elem N n (t, snd w) = (sort_elem N n w)(i := v)" using at i by (auto simp: sort_elem_def)
  ultimately show ?thesis using t(1) by simp
qed

interpretation table_sort: sortable "sort_world N n D lt cmp t0" "sort_elem N n" n D "\<lambda>w. lua_rawgeti N (fst w)"
  "\<lambda>w i v. rbind (lua_rawseti N gr (fst w) i v) (\<lambda>t. rreturn (t, snd w))" cmp lt
  for N :: "'n num_ops" and n D lt and cmp :: "'n Table \<times> 's \<Rightarrow> 'n TValue \<Rightarrow> 'n TValue \<Rightarrow> (('n Table \<times> 's) \<times> bool) res" and t0 gr
proof unfold_locales
  fix w :: "'n Table \<times> 's" and i assume w: "sort_world N n D lt cmp t0 w" and i: "1 \<le> i" "i \<le> n"
  then have int: "is_int i" and N: "num_ok N" by (simp_all add: sort_world_def is_int_def)
  obtain v where "v \<in> D" "at_index N (fst w) i = Some v" using w i unfolding sort_world_def by blast
  then show "lua_rawgeti N (fst w) i = Some (sort_elem N n w i) \<and> sort_elem N n w i \<in> D"
    using i lua_rawgeti_index [OF N int, of "fst w"] by (simp add: sort_elem_def)
next
  fix w :: "'n Table \<times> 's" and a b assume w: "sort_world N n D lt cmp t0 w" "a \<in> D" "b \<in> D"
  then have "compares cmp D lt" by (simp add: sort_world_def)
  then obtain s' where "cmp w a b = rreturn ((fst w, s'), lt a b)" using w(2,3) unfolding compares_def by (metis prod.collapse)
  moreover have "sort_elem N n (fst w, s') = sort_elem N n w" by (simp add: fun_eq_iff sort_elem_def)
  ultimately show "gives (cmp w a b) (\<lambda>(w', r). sort_world N n D lt cmp t0 w' \<and> sort_elem N n w' = sort_elem N n w \<and> (r \<longleftrightarrow> lt a b))"
    using w(1) by (simp add: sort_world_def)
qed (rule sort_world_put, assumption+, simp add: sort_world_def)

text \<open>
  C9: \<^verbatim>\<open>table.sort\<close> sorts: on a table without holes up to its length, with a comparison that is a strict
  weak order on the elements and leaves the table alone, it ends without an error; the elements
  are the same ones, in order, and every other key keeps its value.
\<close>

theorem sort_sorts:
  fixes less :: "'n Table \<times> 's \<Rightarrow> 'n TValue \<Rightarrow> 'n TValue \<Rightarrow> (('n Table \<times> 's) \<times> bool) res"
  assumes "num_ok N" "table_ok N t" "luaH_getn N t = Some n" "\<forall>i. 1 \<le> i \<and> i \<le> n \<longrightarrow> (\<exists>v \<in> D. at_index N t i = Some v)"
    "Nil_value \<notin> D" "strict_weak D lt" "compares (sort_comp call less func) D lt"
  shows "\<exists>t' s'. sort_table N gr call less func (t, s) = rreturn (t', s') \<and> table_ok N t' \<and>
    (\<forall>i j. 1 \<le> i \<and> i < j \<and> j \<le> n \<longrightarrow> \<not> lt (the (at_index N t' j)) (the (at_index N t' i))) \<and>
    image_mset (at_index N t') (mset_set {1..n}) = image_mset (at_index N t) (mset_set {1..n}) \<and>
    (\<forall>k. valid_key N k \<and> (\<forall>i. 1 \<le> i \<and> i \<le> n \<longrightarrow> \<not> same N k (ikey N i)) \<longrightarrow> lookup N t' k = lookup N t k)"
proof -
  have n: "n < 2 ^ 28"
  proof -
    obtain k where "1 \<le> k" "k \<le> 2 ^ 28" "at_index N t k = Some Nil_value" using few_entries [OF assms(1,2)] by blast
    then show ?thesis using assms(4,5) by (metis linorder_not_less option.inject order_trans)
  qed
  have "0 \<le> n" using luaH_getn_ok [OF assms(1,2)] assms(3) by (auto simp: boundary_def)
  then have w: "sort_world N n D lt (sort_comp call less func) t (t, s)" using assms n by (simp add: sort_world_def is_int_def)
  have "gives (sort_table N gr call less func (t, s)) (\<lambda>w'. sort_world N n D lt (sort_comp call less func) t w' \<and> rearranged 1 n (sort_elem N n (t, s)) (sort_elem N n w') \<and>
      sorted_range lt 1 n (sort_elem N n w'))"
    using table_sort.auxsort_ok [OF w order_refl order_refl, of gr] n assms(3) by (simp add: sort_table_def getn_def)
  then obtain t' s' where res: "sort_table N gr call less func (t, s) = rreturn (t', s')" "sort_world N n D lt (sort_comp call less func) t (t', s')"
      "rearranged 1 n (sort_elem N n (t, s)) (sort_elem N n (t', s'))" "sorted_range lt 1 n (sort_elem N n (t', s'))"
    unfolding gives_def by auto
  have at: "at_index N u i = Some (sort_elem N n (u, v) i)" if "sort_world N n D lt (sort_comp call less func) t (u, v)" "1 \<le> i" "i \<le> n" for u and v :: 's and i
    using that by (force simp: sort_world_def sort_elem_def)
  have "image_mset (at_index N u) (mset_set {1..n}) = image_mset Some (image_mset (sort_elem N n (u, v)) (mset_set {1..n}))"
    if "sort_world N n D lt (sort_comp call less func) t (u, v)" for u and v :: 's
    unfolding image_mset.compositionality comp_def by (rule image_mset_cong) (use at [OF that] in simp)
  from this [OF w] this [OF res(2)] have "image_mset (at_index N t') (mset_set {1..n}) = image_mset (at_index N t) (mset_set {1..n})"
    using res(3) by (simp add: rearranged_def)
  moreover have "\<not> lt (the (at_index N t' j)) (the (at_index N t' i))" if "1 \<le> i \<and> i < j \<and> j \<le> n" for i j
    using res(4) that at [OF res(2), of i] at [OF res(2), of j] by (simp add: sorted_range_def)
  ultimately show ?thesis using res(1,2) by (auto simp: sort_world_def)
qed

end
