(* ===== verification/LuaTablibOk.thy ===== *)
theory LuaTablibOk
  imports LuaSort
begin

text \<open>
  What the functions of the table library that move and join elements do, on a table whose elements
  have no holes up to its length.
\<close>

section \<open>Tables without holes\<close>

text \<open>The length is \<open>n\<close> and no element up to it is nil.\<close>

definition list_of_length :: "'n num_ops \<Rightarrow> 'n Table \<Rightarrow> int \<Rightarrow> bool" where
  "list_of_length N t n \<longleftrightarrow> luaH_getn N t = Some n \<and> (\<forall>i. 1 \<le> i \<and> i \<le> n \<longrightarrow> at_index N t i \<noteq> Some Nil_value)"

lemma list_of_length_bounds:
  assumes "num_ok N" "table_ok N t" "list_of_length N t n"
  shows "0 \<le> n" "n < 2 ^ 28"
proof -
  show "0 \<le> n" using luaH_getn_ok [OF assms(1,2)] assms(3) by (auto simp: boundary_def list_of_length_def)
  obtain k where "1 \<le> k" "k \<le> 2 ^ 28" "at_index N t k = Some Nil_value" using few_entries [OF assms(1,2)] by blast
  then show "n < 2 ^ 28" using assms(3) unfolding list_of_length_def by (metis linorder_not_less order_trans)
qed

text \<open>The keys outside a range of indices keep their values.\<close>

definition outside_kept :: "'n num_ops \<Rightarrow> int \<Rightarrow> int \<Rightarrow> 'n Table \<Rightarrow> 'n Table \<Rightarrow> bool" where
  "outside_kept N a b t t' \<longleftrightarrow>
     (\<forall>k. valid_key N k \<and> (\<forall>i. a \<le> i \<and> i \<le> b \<longrightarrow> \<not> same N k (ikey N i)) \<longrightarrow> lookup N t' k = lookup N t k)"

lemma outside_kept_refl [simp]: "outside_kept N a b t t"
  by (simp add: outside_kept_def)

lemma outside_kept_trans:
  "outside_kept N a b t u \<Longrightarrow> outside_kept N c d u v \<Longrightarrow> l \<le> a \<Longrightarrow> l \<le> c \<Longrightarrow> b \<le> h \<Longrightarrow> d \<le> h \<Longrightarrow> outside_kept N l h t v"
  unfolding outside_kept_def
proof (intro allI impI)
  fix k
  assume u: "\<forall>k. valid_key N k \<and> (\<forall>i. a \<le> i \<and> i \<le> b \<longrightarrow> \<not> same N k (ikey N i)) \<longrightarrow> lookup N u k = lookup N t k"
    and v: "\<forall>k. valid_key N k \<and> (\<forall>i. c \<le> i \<and> i \<le> d \<longrightarrow> \<not> same N k (ikey N i)) \<longrightarrow> lookup N v k = lookup N u k"
    and r: "l \<le> a" "l \<le> c" "b \<le> h" "d \<le> h" and k: "valid_key N k \<and> (\<forall>i. l \<le> i \<and> i \<le> h \<longrightarrow> \<not> same N k (ikey N i))"
  have "\<not> same N k (ikey N i)" if "a \<le> i \<and> i \<le> b \<or> c \<le> i \<and> i \<le> d" for i
    using k r that by (meson order_trans)
  then show "lookup N v k = lookup N t k" using u v k by metis
qed

lemma updated_outside: "updated N t (ikey N i) v t' \<Longrightarrow> outside_kept N i i t t'"
  by (simp add: updated_def outside_kept_def)

lemma outside_index:
  assumes "num_ok N" "outside_kept N a b t t'" "is_int a" "is_int b" "is_int j" "j < a \<or> b < j"
  shows "at_index N t' j = at_index N t j"
proof -
  have "\<not> same N (ikey N j) (ikey N i)" if "a \<le> i" "i \<le> b" for i
    using that assms same_ikey [OF assms(1,5), of i] is_int_between [OF assms(3,4) that] by auto
  then show ?thesis using assms(2) valid_cast [OF assms(1,5)] by (simp add: outside_kept_def at_index_def)
qed

lemma rawseti_present:
  assumes "num_ok N" "table_ok N t" "is_int i" "at_index N t i \<noteq> Some Nil_value"
  shows "\<exists>t'. lua_rawseti N gr t i v = rreturn t' \<and> updated N t (ikey N i) v t'"
  using rawseti_ok [OF assms(1-3), of gr v] assms(4) unfolding returns_if_def rreturn_def by (metis isl_def sum.exhaust)

section \<open>Moving elements\<close>

text \<open>From an element with a value down to \<open>pos\<close>: each takes the value of the one below it.\<close>

lemma move_up_ok:
  assumes "num_ok N" "table_ok N t" "is_int pos" "is_int e" "pos \<le> e" "\<forall>i. pos < i \<and> i \<le> e \<longrightarrow> at_index N t i \<noteq> Some Nil_value"
  shows "\<exists>t'. move_up N gr pos t e = rreturn t' \<and> table_ok N t' \<and> outside_kept N (pos + 1) e t t' \<and>
    (\<forall>i. pos < i \<and> i \<le> e \<longrightarrow> at_index N t' i = at_index N t (i - 1))"
  using assms(2,4-6)
proof (induction "nat (e - pos)" arbitrary: e t rule: less_induct)
  case less
  show ?case
  proof (cases "pos < e")
    case False
    then have "move_up N gr pos t e = rreturn t" by (simp add: move_up.simps)
    then show ?thesis using False less.prems(1) by (intro exI [of _ t]) auto
  next
    case True
    have int: "is_int (e - 1)" "is_int i" if "pos \<le> i" "i \<le> e" for i
      using True that less.prems(2) assms(3) by (simp_all add: is_int_def)
    obtain v where v: "lua_rawgeti N t (e - 1) = Some v" "at_index N t (e - 1) = Some v"
      using rawgeti_total [OF assms(1) less.prems(1) int(1)] True by (metis order_less_imp_le order_refl)
    obtain t1 where t1: "lua_rawseti N gr t e v = rreturn t1" "updated N t (ikey N e) v t1"
      using rawseti_present [OF assms(1) less.prems(1,2)] less.prems(4) True by blast
    have at: "at_index N t1 i = (if i = e then Some v else at_index N t i)" if "pos \<le> i" "i \<le> e" for i
      by (rule updated_index [OF assms(1) t1(2) less.prems(2) int(2) [OF that]])
    obtain t' where t': "move_up N gr pos t1 (e - 1) = rreturn t'" "table_ok N t'" "outside_kept N (pos + 1) (e - 1) t1 t'"
        "\<forall>i. pos < i \<and> i \<le> e - 1 \<longrightarrow> at_index N t' i = at_index N t1 (i - 1)"
      using less.hyps [of "e - 1" t1] True int(1) [of pos] less.prems at t1(2) by (auto simp: updated_def)
    have "at_index N t' e = at_index N t1 e"
      by (rule outside_index [OF assms(1) t'(3)]) (use True int(1) [of pos] int(2) [of "pos + 1"] less.prems(2) in auto)
    then have "at_index N t' i = at_index N t (i - 1)" if "pos < i" "i \<le> e" for i
      using that t'(4) at [of e] at [of "i - 1"] v(2) True by (cases "i = e") auto
    moreover have "outside_kept N (pos + 1) e t t'"
      by (rule outside_kept_trans [OF updated_outside [OF t1(2)] t'(3)]) (use True in auto)
    moreover have "move_up N gr pos t e = rreturn t'" using True v(1) t1(1) t'(1) by (subst move_up.simps) simp
    ultimately show ?thesis using t'(2) by blast
  qed
qed

lemma move_down_ok:
  assumes "num_ok N" "table_ok N t" "is_int pos" "is_int e" "pos \<le> e" "\<forall>i. pos \<le> i \<and> i \<le> e \<longrightarrow> at_index N t i \<noteq> Some Nil_value"
  shows "\<exists>t'. move_down N gr e t pos = rreturn t' \<and> table_ok N t' \<and> outside_kept N pos (e - 1) t t' \<and>
    (\<forall>i. pos \<le> i \<and> i < e \<longrightarrow> at_index N t' i = at_index N t (i + 1))"
  using assms(2,3,5,6)
proof (induction "nat (e - pos)" arbitrary: pos t rule: less_induct)
  case less
  show ?case
  proof (cases "pos < e")
    case False
    then have "move_down N gr e t pos = rreturn t" by (simp add: move_down.simps)
    then show ?thesis using False less.prems(1) by (intro exI [of _ t]) auto
  next
    case True
    have int: "is_int (pos + 1)" "is_int i" if "pos \<le> i" "i \<le> e" for i
      using True that less.prems(2) assms(4) by (simp_all add: is_int_def)
    obtain v where v: "lua_rawgeti N t (pos + 1) = Some v" "at_index N t (pos + 1) = Some v"
      using rawgeti_total [OF assms(1) less.prems(1) int(1)] True by (metis order_less_imp_le order_refl)
    obtain t1 where t1: "lua_rawseti N gr t pos v = rreturn t1" "updated N t (ikey N pos) v t1"
      using rawseti_present [OF assms(1) less.prems(1,2)] less.prems(4) True by (metis order_less_imp_le order_refl)
    have at: "at_index N t1 i = (if i = pos then Some v else at_index N t i)" if "pos \<le> i" "i \<le> e" for i
      by (rule updated_index [OF assms(1) t1(2) less.prems(2) int(2) [OF that]])
    obtain t' where t': "move_down N gr e t1 (pos + 1) = rreturn t'" "table_ok N t'" "outside_kept N (pos + 1) (e - 1) t1 t'"
        "\<forall>i. pos + 1 \<le> i \<and> i < e \<longrightarrow> at_index N t' i = at_index N t1 (i + 1)"
      using less.hyps [of "pos + 1" t1] True int(1) [of pos] less.prems at t1(2) by (auto simp: updated_def)
    have "at_index N t' pos = at_index N t1 pos"
      by (rule outside_index [OF assms(1) t'(3)]) (use True int(2) [of "e - 1"] int(2) [of "pos + 1"] less.prems(2) in auto)
    then have "at_index N t' i = at_index N t (i + 1)" if "pos \<le> i" "i < e" for i
      using that t'(4) at [of pos] at [of "i + 1"] v(2) True by (cases "i = pos") auto
    moreover have "outside_kept N pos (e - 1) t t'"
      by (rule outside_kept_trans [OF updated_outside [OF t1(2)] t'(3)]) (use True in auto)
    moreover have "move_down N gr e t pos = rreturn t'" using True v(1) t1(1) t'(1) by (subst move_down.simps) simp
    ultimately show ?thesis using t'(2) by blast
  qed
qed

text \<open>The same for an insertion: the element after the last one is nil and is the only one that can fail.\<close>

abbreviation room_for_one :: "'n num_ops \<Rightarrow> (int \<Rightarrow> bool) \<Rightarrow> 'n Table \<Rightarrow> bool" where
  "room_for_one N gr t \<equiv> all_granted gr \<and> card (entries N t) < 2 ^ 26"

lemma move_up_insert:
  assumes N: "num_ok N" and ok: "table_ok N t" and n: "list_of_length N t n" and pos: "1 \<le> pos" "pos \<le> n"
  shows "returns_if (room_for_one N gr t) (move_up N gr pos t (n + 1)) (\<lambda>t'. table_ok N t' \<and> outside_kept N (pos + 1) (n + 1) t t' \<and>
    (\<forall>i. pos < i \<and> i \<le> n + 1 \<longrightarrow> at_index N t' i = at_index N t (i - 1)))"
proof -
  have int: "is_int i" if "1 \<le> i" "i \<le> n + 1" for i using list_of_length_bounds [OF N ok n] that by (simp add: is_int_def)
  obtain v where v: "lua_rawgeti N t n = Some v" "at_index N t n = Some v"
    using rawgeti_total [OF N ok int [of n]] pos by auto
  have step: "move_up N gr pos t (n + 1) = rbind (lua_rawseti N gr t (n + 1) v) (\<lambda>t1. move_up N gr pos t1 n)"
    using v(1) pos by (subst move_up.simps) simp
  show ?thesis unfolding step
  proof (rule returns_if_bind)
    show "returns_if (room_for_one N gr t) (lua_rawseti N gr t (n + 1) v) (updated N t (ikey N (n + 1)) v)"
      by (rule returns_if_mono [OF rawseti_ok [OF N ok int]]) (use pos in auto)
    fix t1 assume t1: "updated N t (ikey N (n + 1)) v t1"
    have at: "at_index N t1 i = (if i = n + 1 then Some v else at_index N t i)" if "1 \<le> i" "i \<le> n + 1" for i
      by (rule updated_index [OF N t1 int int [OF that]]) (use pos in auto)
    obtain t' where t': "move_up N gr pos t1 n = rreturn t'" "table_ok N t'" "outside_kept N (pos + 1) n t1 t'"
        "\<forall>i. pos < i \<and> i \<le> n \<longrightarrow> at_index N t' i = at_index N t1 (i - 1)"
      using move_up_ok [OF N _ int [of pos] int [of n], of t1 gr] t1 at n pos by (auto simp: updated_def list_of_length_def)
    have "at_index N t' (n + 1) = at_index N t1 (n + 1)"
      by (rule outside_index [OF N t'(3)]) (use pos int in auto)
    then have "at_index N t' i = at_index N t (i - 1)" if "pos < i" "i \<le> n + 1" for i
      using that t'(4) at [of "n + 1"] at [of "i - 1"] v(2) pos by (cases "i = n + 1") auto
    moreover have "outside_kept N (pos + 1) (n + 1) t t'"
      by (rule outside_kept_trans [OF updated_outside [OF t1] t'(3)]) (use pos in auto)
    ultimately show "returns_if (room_for_one N gr t) (move_up N gr pos t1 n) (\<lambda>t'. table_ok N t' \<and> outside_kept N (pos + 1) (n + 1) t t' \<and>
        (\<forall>i. pos < i \<and> i \<le> n + 1 \<longrightarrow> at_index N t' i = at_index N t (i - 1)))"
      using t'(1,2) by simp
  qed
qed

text \<open>What an insertion does: the new element is at its place and the ones behind it are one further.\<close>

definition inserted_at :: "'n num_ops \<Rightarrow> int \<Rightarrow> int \<Rightarrow> 'n TValue \<Rightarrow> 'n Table \<Rightarrow> 'n Table \<Rightarrow> bool" where
  "inserted_at N n pos v t t' \<longleftrightarrow> table_ok N t' \<and> at_index N t' pos = Some v \<and>
     (\<forall>i. pos < i \<and> i \<le> n + 1 \<longrightarrow> at_index N t' i = at_index N t (i - 1)) \<and> outside_kept N pos (n + 1) t t'"

lemma insert_at_ok:
  assumes N: "num_ok N" and ok: "table_ok N t" and n: "list_of_length N t n" and pos: "1 \<le> pos" "pos \<le> n + 1"
  shows "returns_if (room_for_one N gr t) (rbind (move_up N gr pos t (n + 1)) (\<lambda>t1. lua_rawseti N gr t1 pos v)) (inserted_at N n pos v t)"
proof (cases "pos = n + 1")
  case True
  have int: "is_int pos" using list_of_length_bounds [OF N ok n] pos by (simp add: is_int_def)
  have "move_up N gr pos t (n + 1) = rreturn t" using True by (simp add: move_up.simps)
  moreover have "returns_if (room_for_one N gr t) (lua_rawseti N gr t pos v) (inserted_at N n pos v t)"
  proof (rule returns_if_mono [OF rawseti_ok [OF N ok int]])
    fix t' assume "updated N t (ikey N pos) v t'"
    then show "inserted_at N n pos v t t'"
      using True updated_outside [of N t pos v t'] by (auto simp: inserted_at_def updated_def at_index_def)
  qed blast
  ultimately show ?thesis by simp
next
  case False
  then have p: "pos \<le> n" using pos by simp
  have int: "is_int i" if "1 \<le> i" "i \<le> n + 1" for i using list_of_length_bounds [OF N ok n] that by (simp add: is_int_def)
  show ?thesis
  proof (rule returns_if_bind [OF move_up_insert [OF N ok n pos(1) p]])
    fix t1
    assume t1: "table_ok N t1 \<and> outside_kept N (pos + 1) (n + 1) t t1 \<and> (\<forall>i. pos < i \<and> i \<le> n + 1 \<longrightarrow> at_index N t1 i = at_index N t (i - 1))"
    have "at_index N t1 pos = at_index N t pos"
      by (rule outside_index [OF N, of "pos + 1" "n + 1"]) (use t1 p pos int in auto)
    then have "at_index N t1 pos \<noteq> Some Nil_value" using n p pos by (simp add: list_of_length_def)
    then obtain t' where t': "lua_rawseti N gr t1 pos v = rreturn t'" "updated N t1 (ikey N pos) v t'"
      using rawseti_present [OF N _ int [OF pos]] t1 by blast
    have "at_index N t' i = (if i = pos then Some v else at_index N t1 i)" if "1 \<le> i" "i \<le> n + 1" for i
      by (rule updated_index [OF N t'(2) int int [OF that]]) (use pos in auto)
    moreover have "outside_kept N pos (n + 1) t t'"
      by (rule outside_kept_trans [of N "pos + 1" "n + 1" t t1 pos pos t']) (use t1 t'(2) pos updated_outside in auto)
    ultimately have "inserted_at N n pos v t t'" using t1 t'(2) pos by (auto simp: inserted_at_def updated_def)
    then show "returns_if (room_for_one N gr t) (lua_rawseti N gr t1 pos v) (inserted_at N n pos v t)" using t'(1) by simp
  qed
qed

section \<open>Insertion and removal\<close>

text \<open>
  C35: For a table whose elements have no holes up to its length \<open>n\<close>, and a place from 1 on:
  \<^verbatim>\<open>table.insert\<close> puts the value at the place; if the place is at most \<open>n + 1\<close> the elements from there on move
  one further, and at a place beyond that the value overwrites whatever stood there and nothing is
  moved; every other key keeps its value.  It fails only for want of memory or of room for one
  more key.  A wrong number of arguments is an error.  Tables with holes and places below 1 are not covered.
\<close>

theorem tinsert_inserts:
  assumes "num_ok N" "table_ok N t" "list_of_length N t n" "1 \<le> pos" "is_int pos"
    "args = Insert_at pos v \<or> args = Insert_end v \<and> pos = n + 1"
  shows "(\<exists>res. tinsert N gr t args = Some res \<and> (all_granted gr \<and> card (entries N t) < 2 ^ 26 \<longrightarrow> \<not> isl res) \<and>
      (\<forall>t'. res = Inr t' \<longrightarrow> table_ok N t' \<and> at_index N t' pos = Some v \<and>
        (\<forall>i. pos < i \<and> i \<le> n + 1 \<longrightarrow> at_index N t' i = at_index N t (i - 1)) \<and> outside_kept N pos (max pos (n + 1)) t t')) \<and>
    tinsert N gr t Insert_other = luaL_error (''wrong number of arguments to '' @ LUA_QL ''insert'')"
proof -
  have g: "getn N t = Some n" using assms(3) by (simp add: getn_def list_of_length_def)
  have "returns_if (room_for_one N gr t) (tinsert N gr t args) (\<lambda>t'. table_ok N t' \<and> at_index N t' pos = Some v \<and>
        (\<forall>i. pos < i \<and> i \<le> n + 1 \<longrightarrow> at_index N t' i = at_index N t (i - 1)) \<and> outside_kept N pos (max pos (n + 1)) t t')"
  proof (cases "pos \<le> n + 1")
    case True
    have "tinsert N gr t args = rbind (move_up N gr pos t (n + 1)) (\<lambda>t1. lua_rawseti N gr t1 pos v)"
      using assms(6) True by (auto simp: tinsert_def g Let_def move_up.simps [of N gr "n + 1" t "n + 1"])
    then show ?thesis using insert_at_ok [OF assms(1-4) True, of gr v] True
      by (auto simp: inserted_at_def max_def elim!: returns_if_mono)
  next
    case False
    have "tinsert N gr t args = lua_rawseti N gr t pos v"
      using assms(6) False by (auto simp: tinsert_def g Let_def move_up.simps [of N gr pos t pos])
    moreover have "returns_if (room_for_one N gr t) (lua_rawseti N gr t pos v) (\<lambda>t'. table_ok N t' \<and> at_index N t' pos = Some v \<and>
        (\<forall>i. pos < i \<and> i \<le> n + 1 \<longrightarrow> at_index N t' i = at_index N t (i - 1)) \<and> outside_kept N pos (max pos (n + 1)) t t')"
    proof (rule returns_if_mono [OF rawseti_ok [OF assms(1,2,5)]])
      fix t' assume u: "updated N t (ikey N pos) v t'"
      show "table_ok N t' \<and> at_index N t' pos = Some v \<and>
        (\<forall>i. pos < i \<and> i \<le> n + 1 \<longrightarrow> at_index N t' i = at_index N t (i - 1)) \<and> outside_kept N pos (max pos (n + 1)) t t'"
        using False u updated_outside [OF u] by (auto simp: updated_def at_index_def max_def)
    qed blast
    ultimately show ?thesis by simp
  qed
  then show ?thesis unfolding returns_if_def by (auto simp: tinsert_def g)
qed

text \<open>
  C36: For a table whose elements have no holes up to its length \<open>n\<close>: \<^verbatim>\<open>table.remove\<close> returns the element at
  its place, by default the last one; the elements behind it move one down, the last index becomes nil, every
  other key keeps its value, and it does not fail, since it writes only to keys that are in the table.  A
  place outside the list changes nothing.  On a table with holes nothing is claimed: a write to a key that
  is absent can grow the table and run out of memory.
\<close>

theorem tremove_removes:
  assumes "num_ok N" "table_ok N t" "list_of_length N t n" "pos = (case arg of None \<Rightarrow> n | Some p \<Rightarrow> p)"
  shows "if 1 \<le> pos \<and> pos \<le> n
    then \<exists>t'. tremove N gr t arg = rreturn (t', at_index N t pos) \<and> table_ok N t' \<and>
      (\<forall>i. pos \<le> i \<and> i < n \<longrightarrow> at_index N t' i = at_index N t (i + 1)) \<and> at_index N t' n = Some Nil_value \<and>
      outside_kept N pos n t t'
    else tremove N gr t arg = rreturn (t, None)"
proof (cases "1 \<le> pos \<and> pos \<le> n")
  case False
  then show ?thesis using assms(3,4) by (auto simp: tremove_def getn_def list_of_length_def Let_def)
next
  case pos: True
  have g: "getn N t = Some n" using assms(3) by (simp add: getn_def list_of_length_def)
  have int: "is_int i" if "1 \<le> i" "i \<le> n" for i using list_of_length_bounds [OF assms(1-3)] that by (simp add: is_int_def)
  obtain v where v: "lua_rawgeti N t pos = Some v" "at_index N t pos = Some v"
    using rawgeti_total [OF assms(1,2) int [of pos]] pos by blast
  obtain t1 where t1: "move_down N gr n t pos = rreturn t1" "table_ok N t1" "outside_kept N pos (n - 1) t t1"
      "\<forall>i. pos \<le> i \<and> i < n \<longrightarrow> at_index N t1 i = at_index N t (i + 1)"
    using move_down_ok [OF assms(1,2) int [of pos] int [of n], of gr] pos assms(3) by (auto simp: list_of_length_def)
  have "at_index N t1 n = at_index N t n"
  proof (rule outside_index [OF assms(1) t1(3)])
    show "is_int (n - 1)" using int [of n] pos by (simp add: is_int_def)
  qed (use pos int in auto)
  then have "at_index N t1 n \<noteq> Some Nil_value" using assms(3) pos by (simp add: list_of_length_def)
  then obtain t2 where t2: "lua_rawseti N gr t1 n Nil_value = rreturn t2" "updated N t1 (ikey N n) Nil_value t2"
    using rawseti_present [OF assms(1) t1(2) int [of n]] pos by fastforce
  have "at_index N t2 i = (if i = n then Some Nil_value else at_index N t1 i)" if "1 \<le> i" "i \<le> n" for i
    by (rule updated_index [OF assms(1) t2(2) int int [OF that]]) (use pos in auto)
  moreover have "outside_kept N pos n t t2"
    by (rule outside_kept_trans [OF t1(3) updated_outside [OF t2(2)]]) (use pos in auto)
  moreover have "tremove N gr t arg = rreturn (t2, Some v)"
    using pos v(1) t1(1) t2(1) by (simp add: tremove_def g Let_def assms(4) [symmetric])
  ultimately show ?thesis using pos v(2) t1(4) t2(2) by (auto simp: updated_def)
qed

section \<open>Traversal\<close>

text \<open>Both loops meet the entries of the table that are behind the key.\<close>

abbreviation key_before :: "'n num_ops \<Rightarrow> 'n Table \<Rightarrow> nat \<Rightarrow> 'n TValue" where
  "key_before N t i \<equiv> (if i = 0 then Nil_value else fst (traversal N t ! (i - 1)))"

lemma next_at:
  assumes "num_ok N" "table_ok N t" "no_dead_keys t" "i \<le> length (traversal N t)"
  shows "luaH_next N t (key_before N t i) = rreturn (if i < length (traversal N t) then Some (traversal N t ! i) else None)"
  using luaH_next_order [OF assms(1-3)] assms(4) by blast

text \<open>
  The function of the script called on one entry after the other: it stops at an error and at an answer that is not nil.
\<close>

fun visit :: "('p \<Rightarrow> 's \<Rightarrow> lua_throw + 's \<times> 'n TValue) \<Rightarrow> 'p list \<Rightarrow> 's \<Rightarrow> lua_throw + 's \<times> 'n TValue option" where
  "visit f [] s = Inr (s, None)"
| "visit f (p # ps) s =
     (case f p s of
        Inl err \<Rightarrow> Inl err
      | Inr (s1, r) \<Rightarrow> if r = Nil_value then visit f ps s1 else Inr (s1, Some r))"

text \<open>A function that leaves the table alone and works on the rest of the state.\<close>

definition leaves_table ::
  "'n Table \<Rightarrow> ('n Table \<times> 's \<Rightarrow> 'n TValue list \<Rightarrow> (('n Table \<times> 's) \<times> 'n TValue) res)
     \<Rightarrow> ('n TValue \<times> 'n TValue \<Rightarrow> 's \<Rightarrow> lua_throw + 's \<times> 'n TValue) \<Rightarrow> bool" where
  "leaves_table t call f \<longleftrightarrow> (\<forall>s k v. call (t, s) [k, v] = Some (map_sum id (\<lambda>(s1, r). ((t, s1), r)) (f (k, v) s)))"

lemma foreach_loop_ok:
  assumes t: "num_ok N" "table_ok N t" "no_dead_keys t" and c: "leaves_table t call f"
    and i: "i \<le> length (traversal N t)"
  shows "foreach_loop N call (t, s) (key_before N t i) =
    Some (map_sum id (\<lambda>(s1, r). ((t, s1), r)) (visit f (drop i (traversal N t)) s))"
  using i
proof (induction "length (traversal N t) - i" arbitrary: i s rule: less_induct)
  case less
  show ?case
  proof (cases "i < length (traversal N t)")
    case True
    obtain k v where kv: "traversal N t ! i = (k, v)" by (cases "traversal N t ! i")
    have d: "drop i (traversal N t) = (k, v) # drop (Suc i) (traversal N t)" using Cons_nth_drop_Suc [OF True] kv by simp
    have rest: "foreach_loop N call (t, s1) k = Some (map_sum id (\<lambda>(s1, r). ((t, s1), r)) (visit f (drop (Suc i) (traversal N t)) s1))" for s1
      using less.hyps [of "Suc i" s1] True kv by simp
    show ?thesis
      using next_at [OF t less.prems] True kv c rest
      by (subst foreach_loop.simps) (auto simp: leaves_table_def d rreturn_def split: sum.splits)
  next
    case False
    then show ?thesis using next_at [OF t less.prems] less.prems by (subst foreach_loop.simps) (simp add: rreturn_def)
  qed
qed

text \<open>The numbers among the keys, and zero, from which \<^verbatim>\<open>maxn\<close> starts.\<close>

definition number_keys :: "('n TValue \<times> 'n TValue) set \<Rightarrow> 'n set" where
  "number_keys E = {x. \<exists>v. (Number x, v) \<in> E}"

lemma max_key_greatest:
  assumes "strict_weak D numlt" "m \<in> D" "number_keys (set ps) \<subseteq> D"
  defines "r \<equiv> fold (\<lambda>p. max_key numlt (fst p)) ps m"
  shows "r \<in> insert m (number_keys (set ps)) \<and> \<not> numlt r m \<and> (\<forall>x \<in> number_keys (set ps). \<not> numlt r x)"
  using assms(2,3) unfolding r_def
proof (induction ps arbitrary: m)
  case Nil
  have "\<not> numlt m m" using assms(1) Nil.prems(1) unfolding strict_weak_def by blast
  then show ?case by (simp add: number_keys_def)
next
  case (Cons p ps)
  have asym: "\<And>a b. a \<in> D \<Longrightarrow> b \<in> D \<Longrightarrow> numlt a b \<Longrightarrow> \<not> numlt b a"
    and between: "\<And>a b c. a \<in> D \<Longrightarrow> b \<in> D \<Longrightarrow> c \<in> D \<Longrightarrow> numlt a b \<Longrightarrow> numlt a c \<or> numlt c b"
    using assms(1) unfolding strict_weak_def by blast+
  have sub: "number_keys (set ps) \<subseteq> D" using Cons.prems(2) by (auto simp: number_keys_def)
  show ?case
  proof (cases "\<exists>x v. p = (Number x, v)")
    case False
    then have "max_key numlt (fst p) m = m" "number_keys (set (p # ps)) = number_keys (set ps)"
      by (cases p; cases "fst p"; auto simp: max_key_def number_keys_def)+
    then show ?thesis using Cons.IH [OF Cons.prems(1) sub] by simp
  next
    case True
    then obtain x v where p: "p = (Number x, v)" by blast
    have x: "x \<in> D" and nk: "number_keys (set (p # ps)) = insert x (number_keys (set ps))"
      using Cons.prems(2) by (auto simp: number_keys_def p)
    define m' where "m' = max_key numlt (Number x) m"
    have m': "m' \<in> D" "m' = m \<or> m' = x" "\<not> numlt m' m" "\<not> numlt m' x"
      using Cons.prems(1) x asym by (auto simp: m'_def max_key_def)
    let ?r = "fold (\<lambda>p. max_key numlt (fst p)) ps m'"
    have IH: "?r \<in> insert m' (number_keys (set ps))" "\<not> numlt ?r m'" "\<forall>x \<in> number_keys (set ps). \<not> numlt ?r x"
      using Cons.IH [OF m'(1) sub] by auto
    then have r: "?r \<in> D" using m'(1) sub by auto
    have "\<not> numlt ?r m" "\<not> numlt ?r x"
      using between [OF r Cons.prems(1) m'(1)] between [OF r x m'(1)] IH(2) m'(3,4) by blast+
    then show ?thesis unfolding nk using IH m'(2) by (auto simp: p m'_def)
  qed
qed

lemma maxn_loop_ok:
  assumes t: "num_ok N" "table_ok N t" "no_dead_keys t" and i: "i \<le> length (traversal N t)"
  shows "maxn_loop N numlt t (key_before N t i) m = rreturn (fold (\<lambda>p. max_key numlt (fst p)) (drop i (traversal N t)) m)"
  using i
proof (induction "length (traversal N t) - i" arbitrary: i m rule: less_induct)
  case less
  show ?case
  proof (cases "i < length (traversal N t)")
    case True
    obtain k v where kv: "traversal N t ! i = (k, v)" by (cases "traversal N t ! i")
    have "maxn_loop N numlt t (key_before N t i) m = maxn_loop N numlt t (key_before N t (Suc i)) (max_key numlt k m)"
      using next_at [OF t less.prems] True kv by (subst maxn_loop.simps) simp
    also have "\<dots> = rreturn (fold (\<lambda>p. max_key numlt (fst p)) (drop (Suc i) (traversal N t)) (max_key numlt k m))"
      by (rule less.hyps) (use True in auto)
    finally show ?thesis using kv by (simp add: Cons_nth_drop_Suc [OF True, symmetric])
  next
    case False
    then show ?thesis using next_at [OF t less.prems] less.prems by (subst maxn_loop.simps) simp
  qed
qed

text \<open>
  C38: On a table without removed keys, \<^verbatim>\<open>table.foreach\<close> calls a function that leaves the table alone for the entries in the order of
  the traversal, each once, as long as it answers nil: at the first other answer it stops and returns it, and an
  error of the function is its own.  \<^verbatim>\<open>table.maxn\<close> returns the greatest number among the keys if one is above
  zero and zero otherwise, for every comparison that is a strict weak order on them.
\<close>

theorem foreach_visits:
  assumes "num_ok N" "table_ok N t" "no_dead_keys t" "leaves_table t call f"
    "strict_weak (insert (cast_num N 0) (number_keys (entries N t))) numlt"
  shows "foreach N call (t, s) = Some (map_sum id (\<lambda>(s1, r). ((t, s1), r)) (visit f (traversal N t) s)) \<and>
    set (traversal N t) = entries N t \<and> distinct_keys N (traversal N t) \<and>
    (\<exists>m. maxn N numlt t = rreturn m \<and> m \<in> insert (cast_num N 0) (number_keys (entries N t)) \<and>
      \<not> numlt m (cast_num N 0) \<and> (\<forall>x \<in> number_keys (entries N t). \<not> numlt m x))"
proof -
  have tr: "set (traversal N t) = entries N t" "distinct_keys N (traversal N t)" using luaH_next_order [OF assms(1-3)] by simp_all
  have "maxn N numlt t = rreturn (fold (\<lambda>p. max_key numlt (fst p)) (traversal N t) (cast_num N 0))"
    using maxn_loop_ok [OF assms(1-3), of 0 numlt "cast_num N 0"] by (simp add: maxn_def)
  moreover have "foreach N call (t, s) = Some (map_sum id (\<lambda>(s1, r). ((t, s1), r)) (visit f (traversal N t) s))"
    using foreach_loop_ok [OF assms(1-4), of 0 s] by (simp add: foreach_def)
  ultimately show ?thesis using max_key_greatest [OF assms(5), of "cast_num N 0" "traversal N t"] tr by auto
qed

section \<open>Concatenation\<close>

text \<open>The texts of the fields from \<open>i\<close> to \<open>lim\<close>, with the separator between them.\<close>

definition field_text :: "'n num_ops \<Rightarrow> ('n \<Rightarrow> char list) \<Rightarrow> 'n Table \<Rightarrow> int \<Rightarrow> char list option" where
  "field_text N fmt t i = at_index N t i \<bind> lua_tolstring fmt"

fun joined :: "char list \<Rightarrow> char list list \<Rightarrow> char list" where
  "joined sep [] = []"
| "joined sep [x] = x"
| "joined sep (x # y # xs) = x @ sep @ joined sep (y # xs)"

lemma joined_Cons: "xs \<noteq> [] \<Longrightarrow> joined sep (x # xs) = x @ sep @ joined sep xs"
  by (cases xs) simp_all

definition invalid_field :: "'n num_ops \<Rightarrow> 'n Table \<Rightarrow> int \<Rightarrow> char list" where
  "invalid_field N t i =
     ''invalid value ('' @ luaL_typename (the (at_index N t i)) @ '') at index '' @ int_text i @ '' in table for '' @ LUA_QL ''concat''"

lemma addfield_ok:
  assumes "num_ok N" "table_ok N t" "is_int i"
  shows "addfield N fmt t b i = (case field_text N fmt t i of Some s \<Rightarrow> rreturn (b @ s)
    | None \<Rightarrow> luaL_error (invalid_field N t i))"
  using rawgeti_total [OF assms] by (force simp: addfield_def field_text_def invalid_field_def split: option.splits)

lemma concat_loop_ok:
  assumes N: "num_ok N" and ok: "table_ok N t" and i: "is_int i" "is_int lim"
  shows "concat_loop N fmt t sep lim i b =
    (case filter (\<lambda>k. field_text N fmt t k = None) [i..lim] of
       [] \<Rightarrow> rreturn (b @ joined sep (map (\<lambda>k. the (field_text N fmt t k)) [i..lim]))
     | k # _ \<Rightarrow> luaL_error (invalid_field N t k))"
  using i(1)
proof (induction "nat (lim - i)" arbitrary: i b rule: less_induct)
  case less
  consider "i < lim" | "i = lim" | "lim < i" by linarith
  then show ?case
  proof cases
    case 1
    have r: "[i..lim] = i # [i + 1..lim]" using 1 by (simp add: upto.simps)
    have ne: "[i + 1..lim] \<noteq> []" using 1 by (simp add: upto.simps)
    have "is_int (i + 1)" using 1 less.prems i(2) by (simp add: is_int_def)
    note IH = less.hyps [OF _ this]
    show ?thesis
      using 1 IH ne by (subst concat_loop.simps)
        (auto simp: addfield_ok [OF N ok less.prems] r joined_Cons split: option.splits list.splits)
  next
    case 2
    then show ?thesis by (subst concat_loop.simps) (auto simp: addfield_ok [OF N ok i(2)] split: option.splits)
  next
    case 3
    then show ?thesis by (subst concat_loop.simps) simp
  qed
qed

text \<open>
  C37: \<^verbatim>\<open>table.concat\<close> gives the texts of the fields from the first to the last index, with the separator
  between them, or the error that names the first field that is neither a string nor a number.
\<close>

theorem tconcat_joins:
  assumes "num_ok N" "table_ok N t" "is_int i" "is_int lim"
  shows "tconcat N fmt t (Some sep) (Some i) (Some lim) =
    (case filter (\<lambda>k. field_text N fmt t k = None) [i..lim] of
       [] \<Rightarrow> rreturn (joined sep (map (\<lambda>k. the (field_text N fmt t k)) [i..lim]))
     | k # _ \<Rightarrow> luaL_error (invalid_field N t k)) \<and>
    tconcat N fmt t None None None = luaH_getn N t \<bind> (\<lambda>n. tconcat N fmt t (Some []) (Some 1) (Some n))"
  using concat_loop_ok [OF assms, of fmt sep "[]"] by (simp add: tconcat_def getn_def split: list.splits)

end
