(* ===== verification/LuaTablibExample.thy ===== *)
theory LuaTablibExample
  imports LuaTableExample LuaSort LuaTablibOk
begin

text \<open>A list of four numbers on which the functions of the table library are run.\<close>

definition sample_list :: "int option Table" where
  "sample_list = \<lparr>flags = 0, lsizenode = 0, metatable = None,
     array = [Number (Some 3), Number (Some 1), Number (Some 4), Number (Some 2)],
     node = dummynode, lastfree = 0, sizearray = 4\<rparr>"

lemma sample_list_ok: "table_ok int_ops sample_list"
proof -
  have sh: "array_shape sample_list" by (simp add: array_shape_def sample_list_def MAXASIZE_def)
  have "blank sample_list sample_list" by (simp add: blank_def sample_list_def nodes_shape_def node_list_def)
  from blank_ok(1) [OF this sh] show ?thesis by (simp add: table_ok_def sample_list_def)
qed

lemma sample_index:
  assumes "1 \<le> i" "i \<le> 4"
  shows "at_index int_ops sample_list i = Some ([Number (Some 3), Number (Some 1), Number (Some 4), Number (Some 2)] ! nat (i - 1))"
proof -
  have "is_int i" using assms by (simp add: is_int_def)
  then show ?thesis
    unfolding lookup_number [OF int_ops_ok \<open>is_int i\<close>] using assms by (simp add: luaH_getnum_def sample_list_def c_uint_def)
qed

lemma sample_range: "1 \<le> i \<Longrightarrow> i \<le> 4 \<Longrightarrow> i = 1 \<or> i = 2 \<or> i = 3 \<or> i = (4::int)"
  by presburger

lemma sample_elems:
  "at_index int_ops sample_list 1 = Some (Number (Some 3))" "at_index int_ops sample_list 2 = Some (Number (Some 1))"
  "at_index int_ops sample_list 3 = Some (Number (Some 4))" "at_index int_ops sample_list 4 = Some (Number (Some 2))"
  using sample_index [of 1] sample_index [of 2] sample_index [of 3] sample_index [of 4] by simp_all

lemma sample_getn: "luaH_getn int_ops sample_list = Some 4"
  by (simp add: luaH_getn_def sample_list_def array_nil_def)

lemma sample_is_list: "list_of_length int_ops sample_list 4"
  using sample_getn sample_elems by (auto simp: list_of_length_def dest!: sample_range)

definition num_less :: "int option TValue \<Rightarrow> int option TValue \<Rightarrow> bool" where
  "num_less a b = (case (a, b) of (Number (Some x), Number (Some y)) \<Rightarrow> x < y | _ \<Rightarrow> False)"

text \<open>The one function that is called here compares two numbers.\<close>

definition sample_call :: "int option Table \<times> unit \<Rightarrow> nat \<Rightarrow> int option TValue list \<Rightarrow> ((int option Table \<times> unit) \<times> int option TValue) res" where
  "sample_call w f args = rreturn (w, Boolean (if num_less (args ! 0) (args ! 1) then 1 else 0))"

definition sample_lessthan :: "int option Table \<times> unit \<Rightarrow> int option TValue \<Rightarrow> int option TValue \<Rightarrow> ((int option Table \<times> unit) \<times> bool) res" where
  "sample_lessthan w a b = rreturn (w, num_less a b)"

theorem sort_sorts_witness:
  "\<exists>t'. sort_table int_ops (\<lambda>_. True) sample_call sample_lessthan (Some 1) (sample_list, ()) = rreturn (t', ()) \<and> table_ok int_ops t' \<and>
    \<not> num_less (the (at_index int_ops t' 2)) (the (at_index int_ops t' 1)) \<and>
    \<not> num_less (the (at_index int_ops t' 3)) (the (at_index int_ops t' 2)) \<and>
    \<not> num_less (the (at_index int_ops t' 4)) (the (at_index int_ops t' 3)) \<and>
    image_mset (at_index int_ops t') (mset_set {1..4}) =
      {#Some (Number (Some 1)), Some (Number (Some 2)), Some (Number (Some 3)), Some (Number (Some 4))#}"
proof -
  let ?D = "range (\<lambda>k. Number (Some k)) :: int option TValue set"
  have "\<forall>i. 1 \<le> i \<and> i \<le> 4 \<longrightarrow> (\<exists>v \<in> ?D. at_index int_ops sample_list i = Some v)"
    using sample_elems by (auto dest!: sample_range)
  moreover have "strict_weak ?D num_less" by (auto simp: strict_weak_def num_less_def)
  moreover have "compares (sort_comp sample_call sample_lessthan (Some 1)) ?D num_less"
    by (auto simp: compares_def sort_comp_def sample_call_def)
  ultimately obtain t' s' where
    t': "sort_table int_ops (\<lambda>_. True) sample_call sample_lessthan (Some 1) (sample_list, ()) = rreturn (t', s')" "table_ok int_ops t'"
      "\<forall>i j. 1 \<le> i \<and> i < j \<and> j \<le> 4 \<longrightarrow> \<not> num_less (the (at_index int_ops t' j)) (the (at_index int_ops t' i))"
      "image_mset (at_index int_ops t') (mset_set {1..4}) = image_mset (at_index int_ops sample_list) (mset_set {1..4})"
    using sort_sorts [OF int_ops_ok sample_list_ok sample_getn, of ?D num_less sample_call sample_lessthan "Some 1" "\<lambda>_. True" "()"] by auto
  have "{1..4} = {1, 2, 3, 4 :: int}" by auto
  then have "image_mset (at_index int_ops t') (mset_set {1..4}) =
      {#Some (Number (Some 1)), Some (Number (Some 2)), Some (Number (Some 3)), Some (Number (Some 4))#}"
    unfolding t'(4) using sample_elems by (simp add: add_mset_commute)
  then show ?thesis using t'(1-3) by (intro exI [of _ t']) simp
qed

theorem tinsert_inserts_witness:
  "\<exists>t'. tinsert int_ops (\<lambda>_. True) sample_list (Insert_at 2 (Boolean 1)) = rreturn t' \<and> table_ok int_ops t' \<and>
    at_index int_ops t' 1 = Some (Number (Some 3)) \<and> at_index int_ops t' 2 = Some (Boolean 1) \<and>
    at_index int_ops t' 3 = Some (Number (Some 1)) \<and> at_index int_ops t' 5 = Some (Number (Some 2))"
proof -
  have "Insert_at 2 (Boolean 1) = Insert_at 2 (Boolean 1) \<or> Insert_at 2 (Boolean 1) = Insert_end (Boolean 1) \<and> (2::int) = 4 + 1" by simp
  from tinsert_inserts [OF int_ops_ok sample_list_ok sample_is_list _ _ this, of "\<lambda>_. True"] obtain res where
    res: "tinsert int_ops (\<lambda>_. True) sample_list (Insert_at 2 (Boolean 1)) = Some res"
      "all_granted (\<lambda>_. True) \<and> card (entries int_ops sample_list) < 2 ^ 26 \<longrightarrow> \<not> isl res"
      "\<forall>t'. res = Inr t' \<longrightarrow> table_ok int_ops t' \<and> at_index int_ops t' 2 = Some (Boolean 1) \<and>
        (\<forall>i. 2 < i \<and> i \<le> 4 + 1 \<longrightarrow> at_index int_ops t' i = at_index int_ops sample_list (i - 1)) \<and>
        outside_kept int_ops 2 (4 + 1) sample_list t'" by (auto simp: is_int_def)
  have "core_ok int_ops sample_list" using sample_list_ok by (simp add: table_ok_def)
  then have "card (entries int_ops sample_list) < 2 ^ 26"
    using card_entries [OF int_ops_ok, of sample_list] used_le [of "array sample_list" 4]
    by (simp add: sample_list_def node_items_def node_list_def empty_node_def)
  then obtain t' where t': "res = Inr t'" using res(2) by (cases res) auto
  have "at_index int_ops t' 1 = at_index int_ops sample_list 1"
    by (rule outside_index [OF int_ops_ok, of 2 "4 + 1"]) (use res(3) t' in \<open>auto simp: is_int_def\<close>)
  moreover have "at_index int_ops t' 3 = at_index int_ops sample_list (3 - 1)" "at_index int_ops t' 5 = at_index int_ops sample_list (5 - 1)"
    using res(3) t' by auto
  ultimately show ?thesis using res(1,3) t' sample_elems by (simp add: rreturn_def)
qed

theorem tremove_removes_witness:
  "\<exists>t'. tremove int_ops (\<lambda>_. True) sample_list (Some 2) = rreturn (t', Some (Number (Some 1))) \<and>
    at_index int_ops t' 2 = Some (Number (Some 4)) \<and> at_index int_ops t' 4 = Some Nil_value"
  using tremove_removes [OF int_ops_ok sample_list_ok sample_is_list, of 2 "Some 2" "\<lambda>_. True"] sample_elems by auto

text \<open>The function counts its arguments and stops at the second entry.\<close>

definition counting_call :: "int option Table \<times> int \<Rightarrow> int option TValue list \<Rightarrow> ((int option Table \<times> int) \<times> int option TValue) res" where
  "counting_call w args = rreturn ((fst w, snd w + int (length args)), if snd w = 0 then Nil_value else Boolean 7)"

theorem foreach_visits_witness:
  "foreach int_ops counting_call (sample_table, 0) = rreturn ((sample_table, 4), Some (Boolean 7)) \<and>
    maxn int_ops (\<lambda>x y. the x < the y) sample_table = rreturn (Some 1)"
proof -
  have dead: "no_dead_keys sample_table" by (simp add: no_dead_keys_def sample_nodes_def)
  have keys: "number_keys (entries int_ops sample_table) = {Some 1}"
    unfolding conjunct1 [OF luaH_next_order [OF int_ops_ok sample_table_ok dead], unfolded sample_traversal, symmetric]
    by (auto simp: number_keys_def)
  let ?f = "\<lambda>p s. Inr (s + 2, if s = 0 then Nil_value else Boolean 7)"
  have call: "leaves_table sample_table counting_call ?f" by (simp add: leaves_table_def counting_call_def rreturn_def)
  have order: "strict_weak (insert (cast_num int_ops 0) (number_keys (entries int_ops sample_table))) (\<lambda>x y. the x < the y)"
    unfolding keys by (auto simp: strict_weak_def int_ops_def)
  note v = foreach_visits [OF int_ops_ok sample_table_ok dead call order, of 0, unfolded sample_traversal keys]
  from v obtain m where "maxn int_ops (\<lambda>x y. the x < the y) sample_table = rreturn m" "m \<in> insert (cast_num int_ops 0) {Some 1}"
    "\<not> the m < the (Some 1)" by blast
  then have "maxn int_ops (\<lambda>x y. the x < the y) sample_table = rreturn (Some 1)" by (auto simp: int_ops_def)
  then show ?thesis using conjunct1 [OF v] by (simp add: rreturn_def)
qed

theorem tconcat_joins_witness:
  "tconcat int_ops (\<lambda>n. ''7'') sample_list (Some '', '') (Some 1) (Some 3) = rreturn ''7, 7, 7'' \<and>
    tconcat int_ops (\<lambda>n. ''7'') sample_list None None None = rreturn ''7777''"
proof -
  have "is_int 1" "is_int 3" "is_int 4" by (simp_all add: is_int_def)
  note c = tconcat_joins [OF int_ops_ok sample_list_ok this(1)]
  have f: "field_text int_ops (\<lambda>n. ''7'') sample_list i = Some ''7''" if "1 \<le> i" "i \<le> 4" for i
    using sample_range [OF that] sample_elems by (auto simp: field_text_def)
  have u: "[1..3] = [1, 2, 3]" "[1..4] = [1, 2, 3, 4]" by (simp_all add: upto.simps)
  show ?thesis
    using c [of 3 "\<lambda>n. ''7''" "'', ''"] c [of 4 "\<lambda>n. ''7''" "[]"] f sample_getn u by (simp add: is_int_def)
qed

end
