(* ===== verification/LuaFunc.thy ===== *)
theory LuaFunc
  imports LuaTableResize LuaCheck
begin

text \<open>
  Closures and their upvalues (\<^verbatim>\<open>lualib/lfunc.c\<close>).  While the variable of an upvalue is on the stack the
  upvalue is open: it points to the slot, and is in two lists, the chain of its thread in the order
  of the slots and a ring of all open upvalues, with a head.  An upvalue that is closed owns its value, in the
  place of the links of the ring.  Addresses are numbers; \<open>None\<close> is a pointer followed to no
  upvalue, a member of the union read that is not there, or a comparison of a slot with something else.
\<close>

section \<open>Upvalues\<close>

datatype uvref = Uvhead | Upv nat

datatype uv_place = On_stack nat | Own_value

datatype 'v uv_union = U_value 'v | U_links uvref uvref

record 'n UpVal =
  uv_next :: "nat option"
  uv_dead :: bool
  uv_v :: uv_place
  uv_u :: "'n TValue uv_union"

record 'n uv_state =
  stack :: "'n TValue list"
  upvals :: "nat \<Rightarrow> 'n UpVal option"
  openupval :: "nat option"
  head_prev :: uvref
  head_next :: uvref

fun slot_of :: "uv_place \<Rightarrow> nat option" where
  "slot_of (On_stack l) = Some l"
| "slot_of Own_value = None"

text \<open>The value that a closure sees.\<close>

definition uv_value :: "'n uv_state \<Rightarrow> nat \<Rightarrow> 'n TValue option" where
  "uv_value S a = do {
     uv \<leftarrow> upvals S a;
     case uv_v uv of
       On_stack l \<Rightarrow> if l < length (stack S) then Some (stack S ! l) else None
     | Own_value \<Rightarrow> (case uv_u uv of U_value v \<Rightarrow> Some v | U_links p n \<Rightarrow> None)
   }"

section \<open>The ring\<close>

fun ring_prev :: "'n uv_state \<Rightarrow> uvref \<Rightarrow> uvref option" where
  "ring_prev S Uvhead = Some (head_prev S)"
| "ring_prev S (Upv a) = upvals S a \<bind> (\<lambda>uv. case uv_u uv of U_links p n \<Rightarrow> Some p | U_value v \<Rightarrow> None)"

fun ring_next :: "'n uv_state \<Rightarrow> uvref \<Rightarrow> uvref option" where
  "ring_next S Uvhead = Some (head_next S)"
| "ring_next S (Upv a) = upvals S a \<bind> (\<lambda>uv. case uv_u uv of U_links p n \<Rightarrow> Some n | U_value v \<Rightarrow> None)"

definition set_upval :: "'n uv_state \<Rightarrow> nat \<Rightarrow> ('n UpVal \<Rightarrow> 'n UpVal) \<Rightarrow> 'n uv_state option" where
  "set_upval S a f = upvals S a \<bind> (\<lambda>uv. Some (S\<lparr>upvals := (upvals S)(a \<mapsto> f uv)\<rparr>))"

fun set_prev :: "'n uv_state \<Rightarrow> uvref \<Rightarrow> uvref \<Rightarrow> 'n uv_state option" where
  "set_prev S Uvhead x = Some (S\<lparr>head_prev := x\<rparr>)"
| "set_prev S (Upv a) x = ring_next S (Upv a) \<bind> (\<lambda>n. set_upval S a (\<lambda>uv. uv\<lparr>uv_u := U_links x n\<rparr>))"

fun set_next :: "'n uv_state \<Rightarrow> uvref \<Rightarrow> uvref \<Rightarrow> 'n uv_state option" where
  "set_next S Uvhead x = Some (S\<lparr>head_next := x\<rparr>)"
| "set_next S (Upv a) x = ring_prev S (Upv a) \<bind> (\<lambda>p. set_upval S a (\<lambda>uv. uv\<lparr>uv_u := U_links p x\<rparr>))"

definition unlinkupval :: "'n uv_state \<Rightarrow> nat \<Rightarrow> 'n uv_state option" where
  "unlinkupval S a = do {
     n \<leftarrow> ring_next S (Upv a);
     p \<leftarrow> ring_prev S (Upv a);
     S1 \<leftarrow> set_prev S n p;
     p \<leftarrow> ring_prev S1 (Upv a);
     n \<leftarrow> ring_next S1 (Upv a);
     set_next S1 p n
   }"

section \<open>Operations\<close>

definition luaF_newupval :: "bool \<Rightarrow> 'n uv_state \<Rightarrow> nat \<Rightarrow> ('n uv_state \<times> nat) res" where
  "luaF_newupval granted S addr =
     (if \<not> granted then Some (Inl LUA_ERRMEM)
      else rreturn (S\<lparr>upvals := (upvals S)(addr \<mapsto>
             \<lparr>uv_next = None, uv_dead = False, uv_v = Own_value, uv_u = U_value Nil_value\<rparr>)\<rparr>, addr))"

text \<open>The walk down the chain: an upvalue of the slot, or the pointer to change and what it points to.\<close>

partial_function (option) find_open ::
  "'n uv_state \<Rightarrow> nat \<Rightarrow> nat option \<Rightarrow> nat option \<Rightarrow> (nat + nat option \<times> nat option) option" where
  "find_open S lev prv cur = (case cur of
      None \<Rightarrow> Some (Inr (prv, None))
    | Some a \<Rightarrow> do {
        uv \<leftarrow> upvals S a;
        l \<leftarrow> slot_of (uv_v uv);
        if l < lev then Some (Inr (prv, cur))
        else if l = lev then Some (Inl a)
        else find_open S lev (Some a) (uv_next uv)
      })"

definition set_link :: "'n uv_state \<Rightarrow> nat option \<Rightarrow> nat \<Rightarrow> 'n uv_state option" where
  "set_link S prv a = (case prv of None \<Rightarrow> Some (S\<lparr>openupval := Some a\<rparr>) | Some b \<Rightarrow> set_upval S b (\<lambda>uv. uv\<lparr>uv_next := Some a\<rparr>))"

definition luaF_findupval :: "bool \<Rightarrow> 'n uv_state \<Rightarrow> nat \<Rightarrow> nat \<Rightarrow> ('n uv_state \<times> nat) res" where
  "luaF_findupval granted S lev addr = find_open S lev None (openupval S) \<bind> (\<lambda>r. case r of
      Inl a \<Rightarrow> set_upval S a (\<lambda>uv. uv\<lparr>uv_dead := False\<rparr>) \<bind> (\<lambda>S1. rreturn (S1, a))
    | Inr (prv, cur) \<Rightarrow>
        (if \<not> granted then Some (Inl LUA_ERRMEM)
         else let S1 = S\<lparr>upvals := (upvals S)(addr \<mapsto>
                    \<lparr>uv_next = cur, uv_dead = False, uv_v = On_stack lev, uv_u = U_links Uvhead (head_next S)\<rparr>)\<rparr>
              in set_link S1 prv addr \<bind> (\<lambda>S2. set_prev S2 (head_next S2) (Upv addr) \<bind> (\<lambda>S3.
                   rreturn (S3\<lparr>head_next := Upv addr\<rparr>, addr)))))"

definition luaF_freeupval :: "'n uv_state \<Rightarrow> nat \<Rightarrow> 'n uv_state option" where
  "luaF_freeupval S a = do {
     uv \<leftarrow> upvals S a;
     S1 \<leftarrow> (if uv_v uv \<noteq> Own_value then unlinkupval S a else Some S);
     Some (S1\<lparr>upvals := (upvals S1)(a := None)\<rparr>)
   }"

partial_function (option) luaF_close :: "'n uv_state \<Rightarrow> nat \<Rightarrow> 'n uv_state option" where
  "luaF_close S lev = (case openupval S of
      None \<Rightarrow> Some S
    | Some a \<Rightarrow> do {
        uv \<leftarrow> upvals S a;
        l \<leftarrow> slot_of (uv_v uv);
        if l < lev then Some S
        else let S1 = S\<lparr>openupval := uv_next uv\<rparr>
             in if uv_dead uv then luaF_freeupval S1 a \<bind> (\<lambda>S2. luaF_close S2 lev)
                else do {
                  S2 \<leftarrow> unlinkupval S1 a;
                  v \<leftarrow> uv_value S2 a;
                  S3 \<leftarrow> set_upval S2 a (\<lambda>uv. uv\<lparr>uv_u := U_value v, uv_v := Own_value\<rparr>);
                  luaF_close S3 lev
                }
      })"

section \<open>Closures and prototypes\<close>

text \<open>A closure and the bytes that are asked for and given back for it.\<close>

datatype Closure =
    CClosure (c_env: "nat option") (c_nupvalues: nat)
  | LClosure (l_env: "nat option") (l_nupvalues: nat) (l_upvals: "nat option list")

definition sizeCclosure :: "int \<Rightarrow> int" where "sizeCclosure n = 24 + 16 * n"
definition sizeLclosure :: "int \<Rightarrow> int" where "sizeLclosure n = 20 + 4 * n"

definition luaF_newCclosure :: "(int \<Rightarrow> bool) \<Rightarrow> nat \<Rightarrow> nat option \<Rightarrow> Closure res" where
  "luaF_newCclosure gr nelems e =
     (if \<not> gr (sizeCclosure (int nelems)) then Some (Inl LUA_ERRMEM) else rreturn (CClosure e (nelems mod 256)))"

definition luaF_newLclosure :: "(int \<Rightarrow> bool) \<Rightarrow> nat \<Rightarrow> nat option \<Rightarrow> Closure res" where
  "luaF_newLclosure gr nelems e =
     (if \<not> gr (sizeLclosure (int nelems)) then Some (Inl LUA_ERRMEM)
      else rreturn (LClosure e (nelems mod 256) (replicate nelems None)))"

definition luaF_freeclosure :: "32 word \<Rightarrow> Closure \<Rightarrow> 32 word" where
  "luaF_freeclosure totalbytes c = totalbytes - word_of_int (case c of
      CClosure e n \<Rightarrow> sizeCclosure (int n)
    | LClosure e n us \<Rightarrow> sizeLclosure (int n))"

text \<open>A new prototype, and the bytes given back for one.\<close>

definition luaF_newproto :: "bool \<Rightarrow> 'n Proto res" where
  "luaF_newproto granted = (if \<not> granted then Some (Inl LUA_ERRMEM) else rreturn (Proto [] [] [] [] [] [] None 0 0 0 0 0 0))"

definition luaF_freeproto :: "32 word \<Rightarrow> 'n Proto \<Rightarrow> 32 word" where
  "luaF_freeproto totalbytes f = totalbytes - word_of_int (int (length (code f)) * 4) - word_of_int (int (length (pp f)) * 4)
     - word_of_int (int (length (pk f)) * sizeof_TValue) - word_of_int (int (length (lineinfo f)) * 4)
     - word_of_int (int (length (locvars f)) * 12) - word_of_int (int (length (upvalues f)) * 4) - 76"

section \<open>The ring is linked\<close>

definition linked :: "'n uv_state \<Rightarrow> uvref list \<Rightarrow> bool" where
  "linked S = successively (\<lambda>x y. ring_next S x = Some y \<and> ring_prev S y = Some x)"

definition ring_ok :: "'n uv_state \<Rightarrow> nat list \<Rightarrow> bool" where
  "ring_ok S rs \<longleftrightarrow> distinct rs \<and> linked S (Uvhead # map Upv rs @ [Uvhead])"

lemma successively_ends:
  "successively P xs \<Longrightarrow> successively (\<lambda>x y. P x y \<and> x \<in> set (butlast xs) \<and> y \<in> set (tl xs)) xs"
proof (induction xs)
  case (Cons x xs)
  show ?case
  proof (cases xs)
    case (Cons y zs)
    then have "successively (\<lambda>u v. P u v \<and> u \<in> set (butlast xs) \<and> v \<in> set (tl xs)) xs" using Cons.IH Cons.prems by simp
    then have "successively (\<lambda>u v. P u v \<and> u \<in> set (butlast (x # xs)) \<and> v \<in> set xs) xs"
      by (rule successively_mono) (use Cons in \<open>auto dest: list.set_sel(2)\<close>)
    then show ?thesis using Cons Cons.prems by (simp add: successively_Cons)
  qed simp
qed simp

lemma linked_cong:
  assumes "linked S xs" "\<And>x. x \<in> set (butlast xs) \<Longrightarrow> ring_next S' x = ring_next S x"
    "\<And>y. y \<in> set (tl xs) \<Longrightarrow> ring_prev S' y = ring_prev S y"
  shows "linked S' xs"
  using successively_ends [OF assms(1) [unfolded linked_def]] unfolding linked_def
  by (rule successively_mono) (auto simp: assms(2,3))

lemma linked_append:
  "xs \<noteq> [] \<Longrightarrow> ys \<noteq> [] \<Longrightarrow>
    linked S (xs @ ys) \<longleftrightarrow> linked S xs \<and> linked S ys \<and> ring_next S (last xs) = Some (hd ys) \<and> ring_prev S (hd ys) = Some (last xs)"
  by (auto simp: linked_def successively_append_iff)

lemma ring_Upv:
  "ring_next S (Upv a) = Some n \<longleftrightarrow> (\<exists>uv p. upvals S a = Some uv \<and> uv_u uv = U_links p n)"
  "ring_prev S (Upv a) = Some p \<longleftrightarrow> (\<exists>uv n. upvals S a = Some uv \<and> uv_u uv = U_links p n)"
  by (cases "upvals S a"; auto split: uv_union.splits)+

lemma set_prev_Upv:
  "set_prev S (Upv a) x = Some S' \<longleftrightarrow> (\<exists>uv p n. upvals S a = Some uv \<and> uv_u uv = U_links p n \<and>
     S' = S\<lparr>upvals := (upvals S)(a \<mapsto> uv\<lparr>uv_u := U_links x n\<rparr>)\<rparr>)"
  by (auto simp: set_upval_def bind_eq_Some_conv ring_Upv simp del: ring_next.simps)

lemma set_next_Upv:
  "set_next S (Upv a) x = Some S' \<longleftrightarrow> (\<exists>uv p n. upvals S a = Some uv \<and> uv_u uv = U_links p n \<and>
     S' = S\<lparr>upvals := (upvals S)(a \<mapsto> uv\<lparr>uv_u := U_links p x\<rparr>)\<rparr>)"
  by (auto simp: set_upval_def bind_eq_Some_conv ring_Upv simp del: ring_prev.simps)

text \<open>All that an upvalue is apart from where it is in the ring.\<close>

definition core :: "'n UpVal \<Rightarrow> 'n UpVal" where
  "core uv = uv\<lparr>uv_u := case uv_u uv of U_value v \<Rightarrow> U_value v | U_links p n \<Rightarrow> U_links Uvhead Uvhead\<rparr>"

definition same_core :: "'n uv_state \<Rightarrow> 'n uv_state \<Rightarrow> bool" where
  "same_core S S' \<longleftrightarrow> stack S' = stack S \<and> openupval S' = openupval S \<and>
     (\<forall>a. map_option core (upvals S' a) = map_option core (upvals S a))"

lemma same_core_refl [simp]: "same_core S S"
  by (simp add: same_core_def)

lemma same_core_trans: "same_core S T \<Longrightarrow> same_core T U \<Longrightarrow> same_core S U"
  by (simp add: same_core_def)

lemma linked_single [simp]: "linked S [x]"
  by (simp add: linked_def)

lemma ring_set_prev:
  assumes "set_prev S x y = Some S'"
  shows "ring_next S' z = ring_next S z" "ring_prev S' z = (if z = x then Some y else ring_prev S z)" "same_core S S'"
proof -
  show "ring_next S' z = ring_next S z" "ring_prev S' z = (if z = x then Some y else ring_prev S z)"
    using assms by (cases x; cases z; auto simp: set_prev_Upv simp del: set_prev.simps(2))+
  show "same_core S S'" using assms
    by (cases x) (auto simp: set_prev_Upv same_core_def core_def simp del: set_prev.simps(2))
qed

lemma ring_set_next:
  assumes "set_next S x y = Some S'"
  shows "ring_prev S' z = ring_prev S z" "ring_next S' z = (if z = x then Some y else ring_next S z)" "same_core S S'"
proof -
  show "ring_prev S' z = ring_prev S z" "ring_next S' z = (if z = x then Some y else ring_next S z)"
    using assms by (cases x; cases z; auto simp: set_next_Upv simp del: set_next.simps(2))+
  show "same_core S S'" using assms
    by (cases x) (auto simp: set_next_Upv same_core_def core_def simp del: set_next.simps(2))
qed

lemma set_prev_defined: "ring_prev S x = Some z \<Longrightarrow> \<exists>S'. set_prev S x y = Some S'"
  by (cases x) (auto simp: set_prev_Upv ring_Upv simp del: set_prev.simps(2) ring_prev.simps(2))

lemma set_next_defined: "ring_next S x = Some z \<Longrightarrow> \<exists>S'. set_next S x y = Some S'"
  by (cases x) (auto simp: set_next_Upv ring_Upv simp del: set_next.simps(2) ring_next.simps(2))

lemma unlink_ok:
  assumes "ring_ok S (us @ a # vs)"
  shows "\<exists>S'. unlinkupval S a = Some S' \<and> ring_ok S' (us @ vs) \<and> same_core S S' \<and> ring_next S' (Upv a) \<noteq> None"
proof -
  let ?F = "Uvhead # map Upv us" and ?B = "map Upv vs @ [Uvhead]"
  let ?p = "last ?F" and ?n = "hd ?B"
  have d: "distinct (us @ a # vs)" and "linked S (?F @ Upv a # ?B)" using assms by (simp_all add: ring_ok_def)
  then have l: "linked S ?F" "linked S ?B" "ring_next S ?p = Some (Upv a)" "ring_prev S (Upv a) = Some ?p"
      "ring_next S (Upv a) = Some ?n" "ring_prev S ?n = Some (Upv a)"
    using linked_append [of ?F "Upv a # ?B" S] linked_append [of "[Upv a]" ?B S] by auto
  have p: "?p \<in> insert Uvhead (Upv ` set us)" by (cases us rule: rev_cases) auto
  have n: "?n \<in> insert Uvhead (Upv ` set vs)" by (cases vs) auto
  have ne: "?p \<noteq> Upv a" "?n \<noteq> Upv a" using p n d by auto
  obtain S1 where S1: "set_prev S ?n ?p = Some S1" using set_prev_defined [OF l(6)] by blast
  note r1 = ring_set_prev [OF S1]
  have "ring_next S1 ?p = Some (Upv a)" using l(3) r1(1) by simp
  from set_next_defined [OF this] obtain S2 where S2: "set_next S1 ?p ?n = Some S2" by blast
  note r2 = ring_set_next [OF S2]
  have bF: "set (butlast ?F) \<subseteq> insert Uvhead (Upv ` set us) - {?p}" using d
    by (cases us rule: rev_cases) (auto dest: in_set_butlastD)
  have tB: "set (tl ?B) \<subseteq> insert Uvhead (Upv ` set vs) - {?n}" using d by (cases vs) auto
  have "linked S2 ?F" using bF n d by (intro linked_cong [OF l(1)]) (auto simp: r1 r2)
  moreover have "linked S2 ?B" using tB p d by (intro linked_cong [OF l(2)]) (auto simp: r1 r2)
  ultimately have "linked S2 (?F @ ?B)" using r1 r2 by (subst linked_append) auto
  then have "ring_ok S2 (us @ vs)" using d by (simp add: ring_ok_def)
  moreover have "unlinkupval S a = Some S2" using l S1 S2 ne r1 by (simp add: unlinkupval_def del: ring_next.simps ring_prev.simps)
  moreover have "ring_next S2 (Upv a) \<noteq> None" using l(5) ne by (simp add: r1 r2 del: ring_next.simps)
  ultimately show ?thesis using same_core_trans [OF r1(3) r2(3)] by blast
qed

lemma ring_off:
  assumes "ring_ok S rs" "a \<notin> set rs" "\<And>b. b \<noteq> a \<Longrightarrow> upvals S' b = upvals S b" "head_prev S' = head_prev S" "head_next S' = head_next S"
  shows "ring_ok S' rs"
proof -
  have e: "ring_next S' x = ring_next S x \<and> ring_prev S' x = ring_prev S x" if "x \<in> insert Uvhead (Upv ` set rs)" for x
  proof -
    have "upvals S' b = upvals S b" if "b \<in> set rs" for b using that assms(2,3) by metis
    then show ?thesis using that assms(4,5) by (cases x) auto
  qed
  have "set (butlast (Uvhead # map Upv rs @ [Uvhead])) \<subseteq> insert Uvhead (Upv ` set rs)" by (auto simp: butlast_append)
  then show ?thesis using assms(1,2) unfolding ring_ok_def by (auto intro!: linked_cong [of S] simp: e simp del: ring_next.simps ring_prev.simps)
qed

lemma ring_member:
  assumes "ring_ok S rs" "a \<in> set rs"
  shows "upvals S a \<noteq> None"
proof -
  obtain us vs where "rs = us @ a # vs" using split_list [OF assms(2)] by blast
  then have "linked S ((Uvhead # map Upv us) @ Upv a # map Upv vs @ [Uvhead])" using assms(1) by (simp add: ring_ok_def)
  then show ?thesis by (subst (asm) linked_append) (auto simp: ring_Upv)
qed

lemma ring_insert:
  assumes "ring_ok S rs" "a \<notin> set rs" "upvals S a = Some uv" "uv_u uv = U_links Uvhead (head_next S)"
  shows "\<exists>S'. set_prev S (head_next S) (Upv a) = Some S' \<and> ring_ok (S'\<lparr>head_next := Upv a\<rparr>) (a # rs) \<and> same_core S S'"
proof -
  let ?R = "map Upv rs @ [Uvhead]"
  have "linked S ([Uvhead] @ ?R)" using assms(1) by (simp add: ring_ok_def)
  then have l: "linked S ?R" "head_next S = hd ?R" "ring_prev S (hd ?R) = Some Uvhead"
    using linked_append [of "[Uvhead]" ?R S] by auto
  obtain S' where S': "set_prev S (hd ?R) (Upv a) = Some S'" using set_prev_defined [OF l(3)] by blast
  note r = ring_set_prev [OF S']
  let ?S = "S'\<lparr>head_next := Upv a\<rparr>"
  have n: "ring_next ?S x = (if x = Uvhead then Some (Upv a) else ring_next S x)" for x
    using r(1) [of x] by (cases x) auto
  have p: "ring_prev ?S x = (if x = hd ?R then Some (Upv a) else ring_prev S x)" for x
    using r(2) [of x] by (cases x) auto
  have d: "distinct rs" using assms(1) by (simp add: ring_ok_def)
  have "set (tl ?R) \<subseteq> insert Uvhead (Upv ` set rs) - {hd ?R}" using d by (cases rs) auto
  then have "linked ?S ?R" by (intro linked_cong [OF l(1)]) (auto simp: n p butlast_append)
  moreover have "hd ?R \<noteq> Upv a" using assms(2) by (cases rs) auto
  moreover have "ring_next ?S (Upv a) = Some (hd ?R)" "ring_prev S (Upv a) = Some Uvhead"
    using assms(3,4) l(2) by (simp_all add: n ring_Upv del: ring_next.simps ring_prev.simps)
  ultimately have "linked ?S ([Uvhead] @ [Upv a] @ ?R)" 
    using n [of Uvhead] linked_append [of "[Uvhead]" "[Upv a] @ ?R" ?S] linked_append [of "[Upv a]" ?R ?S]
    by (simp add: p del: ring_next.simps ring_prev.simps)
  then have "ring_ok ?S (a # rs)" using d assms(2) by (simp add: ring_ok_def)
  then show ?thesis using S' r(3) l(2) by auto
qed

section \<open>The chain is sorted\<close>

definition open_slot :: "'n uv_state \<Rightarrow> nat \<Rightarrow> nat option" where
  "open_slot S a = upvals S a \<bind> (\<lambda>uv. slot_of (uv_v uv))"

fun chain :: "'n uv_state \<Rightarrow> nat option \<Rightarrow> nat list \<Rightarrow> bool" where
  "chain S p [] = (p = None)"
| "chain S p (a # cs) = (p = Some a \<and> (\<exists>uv. upvals S a = Some uv \<and> chain S (uv_next uv) cs))"

definition slots_ok :: "'n uv_state \<Rightarrow> nat list \<Rightarrow> bool" where
  "slots_ok S cs \<longleftrightarrow> (\<forall>a \<in> set cs. \<exists>l < length (stack S). open_slot S a = Some l) \<and>
     sorted_wrt (\<lambda>a b. the (open_slot S b) < the (open_slot S a)) cs"

text \<open>
  The invariant: the upvalues \<open>cs\<close> of the thread are chained from the highest slot down, one for a slot, and are
  among the upvalues \<open>rs\<close> of the ring.
\<close>

definition uv_inv :: "'n uv_state \<Rightarrow> nat list \<Rightarrow> nat list \<Rightarrow> bool" where
  "uv_inv S cs rs \<longleftrightarrow> chain S (openupval S) cs \<and> slots_ok S cs \<and> ring_ok S rs \<and> set cs \<subseteq> set rs"

lemma uv_chain_cong:
  "(\<And>a. a \<in> set cs \<Longrightarrow> map_option uv_next (upvals S' a) = map_option uv_next (upvals S a)) \<Longrightarrow> chain S' p cs = chain S p cs"
proof (induction cs arbitrary: p)
  case (Cons a cs)
  then show ?case by (cases "upvals S a") (auto, force+)
qed simp

lemma slots_ok_cong:
  assumes "stack S' = stack S" "\<And>a. a \<in> set cs \<Longrightarrow> open_slot S' a = open_slot S a"
  shows "slots_ok S' cs = slots_ok S cs"
proof -
  have "sorted_wrt (\<lambda>a b. the (open_slot S' b) < the (open_slot S' a)) cs = sorted_wrt (\<lambda>a b. the (open_slot S b) < the (open_slot S a)) cs"
    using assms(2) by (intro iffI) (auto elim!: sorted_wrt_mono_rel [rotated])
  then show ?thesis using assms by (simp add: slots_ok_def)
qed

lemma slots_ok_distinct: "slots_ok S cs \<Longrightarrow> distinct cs"
  unfolding slots_ok_def by (induction cs) auto

lemma slots_ok_unique:
  assumes "slots_ok S cs" "a \<in> set cs" "b \<in> set cs" "open_slot S a = Some l" "open_slot S b = Some l"
  shows "a = b"
  using assms unfolding slots_ok_def by (induction cs) auto

lemma core_eq:
  assumes "map_option core (upvals S' a) = map_option core (upvals S a)"
  shows "map_option uv_next (upvals S' a) = map_option uv_next (upvals S a)" "open_slot S' a = open_slot S a"
    "map_option uv_dead (upvals S' a) = map_option uv_dead (upvals S a)" "stack S' = stack S \<Longrightarrow> uv_value S' a = uv_value S a"
  using assms
  by (cases "upvals S a"; cases "upvals S' a";
      auto simp: core_def open_slot_def uv_value_def UpVal.splits dest: UpVal.ext_inject [THEN iffD1]
        split: uv_union.splits uv_place.splits)+

section \<open>Searching and inserting\<close>

definition first_of :: "'a list \<Rightarrow> 'a option" where
  "first_of cs = (case cs of [] \<Rightarrow> None | c # _ \<Rightarrow> Some c)"

lemma chain_first: "chain S p cs \<Longrightarrow> p = first_of cs"
  by (cases cs) (auto simp: first_of_def)

lemma find_open_ok:
  assumes "chain S p cs" "slots_ok S cs"
  shows "(\<exists>a \<in> set cs. open_slot S a = Some lev \<and> find_open S lev prv p = Some (Inl a)) \<or>
    (\<exists>us vs. cs = us @ vs \<and> (\<forall>a \<in> set us. lev < the (open_slot S a)) \<and> (\<forall>a \<in> set vs. the (open_slot S a) < lev) \<and>
      find_open S lev prv p = Some (Inr (if us = [] then prv else Some (last us), first_of vs)))"
  using assms
proof (induction cs arbitrary: p prv)
  case Nil
  then show ?case by (auto simp: find_open.simps first_of_def)
next
  case (Cons a cs)
  then obtain uv l where uv: "p = Some a" "upvals S a = Some uv" "chain S (uv_next uv) cs" "open_slot S a = Some l"
      "slot_of (uv_v uv) = Some l"
    by (auto simp: slots_ok_def open_slot_def)
  have s: "slots_ok S cs" "\<forall>b \<in> set cs. the (open_slot S b) < l" using Cons.prems(2) uv(4) by (auto simp: slots_ok_def)
  consider "l < lev" | "l = lev" | "lev < l" by linarith
  then show ?case
  proof cases
    case 1
    then have "find_open S lev prv p = Some (Inr (prv, first_of (a # cs)))" using uv by (simp add: find_open.simps [of _ _ _ "Some _"] first_of_def)
    moreover have "\<forall>b \<in> set (a # cs). the (open_slot S b) < lev" using 1 s(2) uv(4) by fastforce
    ultimately show ?thesis by (intro disjI2 exI [of _ "[]"] exI [of _ "a # cs"]) simp
  next
    case 2
    then show ?thesis using uv by (simp add: find_open.simps [of _ _ _ "Some _"])
  next
    case 3
    then have f: "find_open S lev prv p = find_open S lev (Some a) (uv_next uv)" using uv by (simp add: find_open.simps [of _ _ _ "Some _"])
    from Cons.IH [OF uv(3) s(1), of "Some a"] show ?thesis
    proof (elim disjE exE conjE)
      fix us vs
      assume "cs = us @ vs" "\<forall>a \<in> set us. lev < the (open_slot S a)" "\<forall>a \<in> set vs. the (open_slot S a) < lev"
        "find_open S lev (Some a) (uv_next uv) = Some (Inr (if us = [] then Some a else Some (last us), first_of vs))"
      then show ?thesis using 3 uv(4) f by (intro disjI2 exI [of _ "a # us"] exI [of _ vs]) simp
    qed (use f in auto)
  qed
qed

text \<open>A new member of the chain, after \<open>us\<close>.\<close>

lemma chain_insert:
  assumes "chain S p (us @ vs)" "distinct (us @ vs)" "a \<notin> set (us @ vs)" "upvals S' a = Some uv" "uv_next uv = first_of vs"
    "us \<noteq> [] \<Longrightarrow> map_option uv_next (upvals S' (last us)) = Some (Some a)"
    "\<And>b. b \<in> set (us @ vs) \<Longrightarrow> us = [] \<or> b \<noteq> last us \<Longrightarrow> map_option uv_next (upvals S' b) = map_option uv_next (upvals S b)"
  shows "chain S' (if us = [] then Some a else p) (us @ a # vs)"
  using assms
proof (induction us arbitrary: p)
  case Nil
  then have "chain S' p vs" using uv_chain_cong [of vs S' S] by simp
  then show ?case using Nil chain_first by (auto simp: first_of_def)
next
  case (Cons u us)
  then obtain v where v: "p = Some u" "upvals S u = Some v" "chain S (uv_next v) (us @ vs)" by auto
  have "chain S' (if us = [] then Some a else uv_next v) (us @ a # vs)"
    by (rule Cons.IH [OF v(3)]) (use Cons.prems in \<open>auto split: if_splits\<close>)
  moreover obtain v' where v': "upvals S' u = Some v'" "uv_next v' = (if us = [] then Some a else uv_next v)"
  proof (cases "us = []")
    case True
    then show ?thesis using Cons.prems(6) that by auto
  next
    case False
    then have "u \<noteq> last (u # us)" using Cons.prems(2) by auto
    then have "map_option uv_next (upvals S' u) = Some (uv_next v)" using Cons.prems(7) [of u] v(2) by simp
    then show ?thesis using False that by auto
  qed
  ultimately show ?case using v(1) by simp
qed

lemma sorted_wrt_insert:
  "sorted_wrt P (us @ vs) \<Longrightarrow> \<forall>u \<in> set us. P u a \<Longrightarrow> \<forall>v \<in> set vs. P a v \<Longrightarrow> sorted_wrt P (us @ a # vs)"
  by (auto simp: sorted_wrt_append)

lemma findupval_new:
  assumes "uv_inv S (us @ vs) rs" "lev < length (stack S)" "upvals S addr = None"
    "\<forall>a \<in> set us. lev < the (open_slot S a)" "\<forall>a \<in> set vs. the (open_slot S a) < lev"
    "find_open S lev None (openupval S) = Some (Inr (if us = [] then None else Some (last us), first_of vs))"
  shows "\<exists>S'. luaF_findupval True S lev addr = rreturn (S', addr) \<and> uv_inv S' (us @ addr # vs) (addr # rs) \<and>
    open_slot S' addr = Some lev \<and> stack S' = stack S \<and> map_option uv_dead (upvals S' addr) = Some False \<and>
    (\<forall>b. b \<noteq> addr \<longrightarrow> uv_value S' b = uv_value S b \<and> open_slot S' b = open_slot S b)"
proof -
  let ?prv = "if us = [] then None else Some (last us)" and ?cs = "us @ vs"
  let ?uv = "\<lparr>uv_next = first_of vs, uv_dead = False, uv_v = On_stack lev, uv_u = U_links Uvhead (head_next S)\<rparr>"
  let ?S1 = "S\<lparr>upvals := (upvals S)(addr \<mapsto> ?uv)\<rparr>"
  have i: "chain S (openupval S) ?cs" "slots_ok S ?cs" "ring_ok S rs" "set ?cs \<subseteq> set rs" using assms(1) by (simp_all add: uv_inv_def)
  have fresh: "addr \<notin> set rs" using ring_member [OF i(3)] assms(3) by blast
  have old: "upvals S b \<noteq> None" if "b \<in> set rs" for b using ring_member [OF i(3) that] .
  let ?f = "\<lambda>b uv. if us \<noteq> [] \<and> b = last us then uv\<lparr>uv_next := Some addr\<rparr> else uv"
  obtain S2 where S2: "set_link ?S1 ?prv addr = Some S2" "head_prev S2 = head_prev S" "head_next S2 = head_next S"
      "stack S2 = stack S" "openupval S2 = (if us = [] then Some addr else openupval S)"
      "\<And>b. upvals S2 b = (if b = addr then Some ?uv else map_option (?f b) (upvals S b))"
  proof (cases "us = []")
    case True
    then show ?thesis using that by (simp add: set_link_def option.map_ident)
  next
    case False
    then have "last us \<in> set rs" using i(4) by auto
    then obtain w where "upvals S (last us) = Some w" "last us \<noteq> addr" using old fresh by blast
    then show ?thesis using False
      by (intro that [of "?S1\<lparr>upvals := (upvals ?S1)(last us \<mapsto> w\<lparr>uv_next := Some addr\<rparr>)\<rparr>"])
        (auto simp: set_link_def set_upval_def option.map_ident)
  qed
  have r2: "ring_ok S2 rs"
  proof -
    have "ring_next S2 x = ring_next S x \<and> ring_prev S2 x = ring_prev S x" if "x \<in> insert Uvhead (Upv ` set rs)" for x
      using that fresh S2(2,3,6) by (cases x) (auto simp: bind_map_option comp_def intro!: Option.bind_cong)
    moreover have "set (butlast (Uvhead # map Upv rs @ [Uvhead])) \<subseteq> insert Uvhead (Upv ` set rs)" by (auto simp: butlast_append)
    ultimately show ?thesis using i(3) unfolding ring_ok_def
      by (auto intro!: linked_cong [of S] simp del: ring_next.simps ring_prev.simps)
  qed
  have "upvals S2 addr = Some ?uv" "uv_u ?uv = U_links Uvhead (head_next S2)" using S2(3,6) by simp_all
  from ring_insert [OF r2 fresh this] obtain S3 where
    S3: "set_prev S2 (head_next S2) (Upv addr) = Some S3" "ring_ok (S3\<lparr>head_next := Upv addr\<rparr>) (addr # rs)" "same_core S2 S3" by blast
  let ?S = "S3\<lparr>head_next := Upv addr\<rparr>"
  have c: "map_option core (upvals ?S b) = map_option core (upvals S2 b)" for b using S3(3) by (simp add: same_core_def)
  have st: "stack ?S = stack S2" "openupval ?S = openupval S2" using S3(3) by (simp_all add: same_core_def)
  have "luaF_findupval True S lev addr = rreturn (?S, addr)"
    using assms(6) S2(1) S3(1) by (simp add: luaF_findupval_def Let_def)
  moreover have slot: "open_slot ?S b = (if b = addr then Some lev else open_slot S b)" for b
    unfolding core_eq(2) [OF c] by (auto simp: open_slot_def S2(6) bind_map_option comp_def intro!: Option.bind_cong)
  moreover have val: "uv_value ?S b = uv_value S b" if "b \<noteq> addr" for b
    unfolding core_eq(4) [OF c st(1)] using that
    by (auto simp: uv_value_def S2(4,6) bind_map_option comp_def intro!: Option.bind_cong split: uv_place.splits uv_union.splits)
  moreover have "uv_inv ?S (us @ addr # vs) (addr # rs)"
  proof -
    have nx: "map_option uv_next (upvals ?S b) = map_option uv_next (upvals S2 b)" for b by (rule core_eq(1) [OF c])
    obtain w where w: "upvals ?S addr = Some w" "uv_next w = first_of vs" using nx [of addr] S2(6) by auto
    have "chain ?S (if us = [] then Some addr else openupval S) (us @ addr # vs)"
    proof (rule chain_insert [OF i(1) slots_ok_distinct [OF i(2)] _ w])
      show "map_option uv_next (upvals ?S (last us)) = Some (Some addr)" if "us \<noteq> []"
      proof -
        have "last us \<in> set rs" using that i(4) by auto
        then show ?thesis unfolding nx using that fresh old [of "last us"] by (auto simp: S2(6))
      qed
      show "map_option uv_next (upvals ?S b) = map_option uv_next (upvals S b)" if "b \<in> set ?cs" "us = [] \<or> b \<noteq> last us" for b
        unfolding nx using that fresh i(4) by (auto simp: S2(6) option.map_ident)
    qed (use fresh i(4) in auto)
    moreover have "slots_ok ?S (us @ addr # vs)"
    proof -
      have "slots_ok ?S ?cs" using i(2) fresh i(4) st(1) S2(4) slot by (subst slots_ok_cong [of ?S S]) auto
      moreover have "\<forall>a \<in> set us. lev < the (open_slot ?S a)" "\<forall>a \<in> set vs. the (open_slot ?S a) < lev"
        using assms(4,5) fresh i(4) by (auto simp: slot)
      moreover have "open_slot ?S addr = Some lev" by (simp add: slot)
      ultimately show ?thesis using assms(2) st(1) S2(4) unfolding slots_ok_def by (auto intro!: sorted_wrt_insert)
    qed
    ultimately show ?thesis using S3(2) i(4) st(2) S2(5) by (auto simp: uv_inv_def)
  qed
  moreover have "map_option uv_dead (upvals ?S addr) = Some False" unfolding core_eq(3) [OF c] by (simp add: S2(6))
  ultimately show ?thesis using st(1) S2(4) by auto
qed

lemma find_open_found:
  assumes "uv_inv S cs rs" "a \<in> set cs" "open_slot S a = Some lev"
  shows "find_open S lev prv (openupval S) = Some (Inl a)"
proof -
  have i: "chain S (openupval S) cs" "slots_ok S cs" using assms(1) by (simp_all add: uv_inv_def)
  from find_open_ok [OF i, of lev prv] show ?thesis
  proof (elim disjE bexE exE conjE)
    fix b
    assume "b \<in> set cs" "open_slot S b = Some lev" "find_open S lev prv (openupval S) = Some (Inl b)"
    then show ?thesis using slots_ok_unique [OF i(2) _ assms(2) _ assms(3)] by blast
  next
    fix us vs
    assume "cs = us @ vs" "\<forall>a \<in> set us. lev < the (open_slot S a)" "\<forall>a \<in> set vs. the (open_slot S a) < lev"
    then show ?thesis using assms(2,3) by fastforce
  qed
qed

lemma findupval_found:
  assumes "uv_inv S cs rs" "a \<in> set cs" "open_slot S a = Some lev"
  shows "\<exists>S'. luaF_findupval granted S lev addr = rreturn (S', a) \<and> uv_inv S' cs rs \<and> stack S' = stack S \<and>
    map_option uv_dead (upvals S' a) = Some False \<and> (\<forall>b. uv_value S' b = uv_value S b \<and> open_slot S' b = open_slot S b) \<and>
    (map_option uv_dead (upvals S a) = Some False \<longrightarrow> S' = S)"
proof -
  have i: "chain S (openupval S) cs" "slots_ok S cs" "ring_ok S rs" "set cs \<subseteq> set rs" using assms(1) by (simp_all add: uv_inv_def)
  obtain uv where uv: "upvals S a = Some uv" using assms(3) by (auto simp: open_slot_def bind_eq_Some_conv)
  let ?S = "S\<lparr>upvals := (upvals S)(a \<mapsto> uv\<lparr>uv_dead := False\<rparr>)\<rparr>"
  have e: "ring_next ?S x = ring_next S x" "ring_prev ?S x = ring_prev S x" for x using uv by (cases x; auto)+
  have "ring_ok ?S rs" using i(3) unfolding ring_ok_def by (auto intro: linked_cong [of S] simp: e simp del: ring_next.simps ring_prev.simps)
  moreover have slot: "open_slot ?S b = open_slot S b" for b using uv by (simp add: open_slot_def)
  moreover have "chain ?S (openupval S) cs" using i(1) uv_chain_cong [of cs ?S S] uv by simp
  moreover have "slots_ok ?S cs" using i(2) slots_ok_cong [of ?S S cs] slot by simp
  moreover have "uv_value ?S b = uv_value S b" for b using uv
    by (auto simp: uv_value_def intro!: Option.bind_cong split: uv_place.splits uv_union.splits)
  moreover have "?S = S" if "map_option uv_dead (upvals S a) = Some False"
  proof -
    have "uv\<lparr>uv_dead := False\<rparr> = uv" using that uv by simp
    then show ?thesis using uv by (simp add: fun_upd_idem)
  qed
  moreover have "luaF_findupval granted S lev addr = rreturn (?S, a)"
    using find_open_found [OF assms] uv by (simp add: luaF_findupval_def set_upval_def)
  ultimately show ?thesis using i(4) by (auto simp: uv_inv_def)
qed

text \<open>
  C7: Closures that capture the same variable share one upvalue.  The search for the upvalue of a slot
  of the stack gives the one that is in the chain, alive, or makes a new one; chain and ring stay in order, no other
  upvalue changes its value, and a second search gives the same upvalue and changes nothing.
\<close>

theorem luaF_findupval_shares:
  fixes S :: "'a uv_state"
  assumes "uv_inv S cs rs" "lev < length (stack S)" "upvals S addr = None"
  shows "if granted \<or> (\<exists>a \<in> set cs. open_slot S a = Some lev)
    then \<exists>S' a cs' rs'. luaF_findupval granted S lev addr = Some (Inr (S', a)) \<and> uv_inv S' cs' rs' \<and>
      (if \<exists>b \<in> set cs. open_slot S b = Some lev then a \<in> set cs \<and> open_slot S a = Some lev \<and> cs' = cs
       else a = addr \<and> set cs' = insert addr (set cs)) \<and>
      open_slot S' a = Some lev \<and> uv_value S' a = Some (stack S ! lev) \<and>
      (\<forall>b. b \<noteq> a \<longrightarrow> uv_value S' b = uv_value S b) \<and>
      (\<forall>granted' addr'. luaF_findupval granted' S' lev addr' = Some (Inr (S', a)))
    else luaF_findupval granted S lev addr = Some (Inl LUA_ERRMEM)"
proof -
  have i: "chain S (openupval S) cs" "slots_ok S cs" using assms(1) by (simp_all add: uv_inv_def)
  have val: "uv_value S' a = Some (stack S ! lev)" if "open_slot S' a = Some lev" "stack S' = stack S" for S' :: "'a uv_state" and a
    using that assms(2) by (auto simp: open_slot_def uv_value_def bind_eq_Some_conv split: uv_place.splits elim: slot_of.elims)
  have again: "luaF_findupval g S' lev addr' = Some (Inr (S', a))"
    if "uv_inv S' cs' rs'" "a \<in> set cs'" "open_slot S' a = Some lev" "map_option uv_dead (upvals S' a) = Some False" for g and S' :: "'a uv_state" and cs' rs' a addr'
    using findupval_found [OF that(1-3), of g addr'] that(4) by (auto simp: rreturn_def)
  show ?thesis
  proof (cases "\<exists>a \<in> set cs. open_slot S a = Some lev")
    case True
    then obtain a where a: "a \<in> set cs" "open_slot S a = Some lev" by blast
    from findupval_found [OF assms(1) a, of granted addr] obtain S' where
      S': "luaF_findupval granted S lev addr = rreturn (S', a)" "uv_inv S' cs rs" "stack S' = stack S"
        "map_option uv_dead (upvals S' a) = Some False" "\<forall>b. uv_value S' b = uv_value S b \<and> open_slot S' b = open_slot S b" by blast
    have s: "open_slot S' a = Some lev" using S'(5) a(2) by simp
    show ?thesis using True a S' val [OF s S'(3)] again [OF S'(2) a(1) s S'(4)] s
      by (auto simp: rreturn_def intro!: exI [of _ S'] exI [of _ a] exI [of _ cs] exI [of _ rs])
  next
    case False
    from find_open_ok [OF i, of lev None] False obtain us vs where
      u: "cs = us @ vs" "\<forall>a \<in> set us. lev < the (open_slot S a)" "\<forall>a \<in> set vs. the (open_slot S a) < lev"
        "find_open S lev None (openupval S) = Some (Inr (if us = [] then None else Some (last us), first_of vs))" by blast
    show ?thesis
    proof (cases granted)
      case True
      from findupval_new [OF assms(1) [unfolded u(1)] assms(2,3) u(2,3,4)] obtain S' where
        S': "luaF_findupval True S lev addr = rreturn (S', addr)" "uv_inv S' (us @ addr # vs) (addr # rs)"
          "open_slot S' addr = Some lev" "stack S' = stack S" "map_option uv_dead (upvals S' addr) = Some False"
          "\<forall>b. b \<noteq> addr \<longrightarrow> uv_value S' b = uv_value S b \<and> open_slot S' b = open_slot S b" by blast
      have m: "addr \<in> set (us @ addr # vs)" by simp
      show ?thesis
        by (subst if_P, use True in simp, rule exI [of _ S'], rule exI [of _ addr], rule exI [of _ "us @ addr # vs"],
            rule exI [of _ "addr # rs"], use True False S' u(1) val [OF S'(3,4)] again [OF S'(2) m S'(3,5)] in \<open>auto simp: rreturn_def\<close>)
    next
      assume "\<not> granted"
      then show ?thesis using False u(4) by (simp add: luaF_findupval_def)
    qed
  qed
qed

section \<open>Closing\<close>

text \<open>What the loop leaves of the upvalue \<open>a\<close> that it takes from the chain.\<close>

definition closed_from :: "'n uv_state \<Rightarrow> nat \<Rightarrow> 'n UpVal \<Rightarrow> 'n uv_state \<Rightarrow> bool" where
  "closed_from S a uv S' \<longleftrightarrow>
     (if uv_dead uv then upvals S' a = None
      else \<exists>w v. upvals S' a = Some w \<and> uv_v w = Own_value \<and> uv_u w = U_value v \<and> uv_value S a = Some v)"

lemma close_one:
  assumes "uv_inv S (a # cs) rs" "upvals S a = Some uv" "open_slot S a = Some l" "lev \<le> l"
  shows "\<exists>S'. luaF_close S lev = luaF_close S' lev \<and> uv_inv S' cs (remove1 a rs) \<and> stack S' = stack S \<and> closed_from S a uv S' \<and>
    (\<forall>b. b \<noteq> a \<longrightarrow> map_option core (upvals S' b) = map_option core (upvals S b))"
proof -
  have i: "openupval S = Some a" "chain S (uv_next uv) cs" "slots_ok S (a # cs)" "ring_ok S rs" "a \<in> set rs" "set cs \<subseteq> set rs"
    using assms(1,2) by (auto simp: uv_inv_def)
  have l: "uv_v uv = On_stack l" "l < length (stack S)"
    using i(3) assms(2,3) by (auto simp: slots_ok_def open_slot_def elim: slot_of.elims)
  let ?S1 = "S\<lparr>openupval := uv_next uv\<rparr>"
  obtain us vs where rs: "rs = us @ a # vs" "a \<notin> set us" using split_list_first [OF i(5)] by blast
  have d: "distinct rs" using i(4) by (simp add: ring_ok_def)
  have rs': "remove1 a rs = us @ vs" "a \<notin> set (us @ vs)" using rs d by (simp_all add: remove1_append)
  have "ring_next ?S1 x = ring_next S x" "ring_prev ?S1 x = ring_prev S x" for x by (cases x; simp)+
  then have "ring_ok ?S1 (us @ a # vs)" using i(4) rs(1) unfolding ring_ok_def
    by (auto intro: linked_cong [of S] simp del: ring_next.simps ring_prev.simps)
  from unlink_ok [OF this] obtain S2 where S2: "unlinkupval ?S1 a = Some S2" "ring_ok S2 (us @ vs)" "same_core ?S1 S2" by blast
  have c: "map_option core (upvals S2 b) = map_option core (upvals S b)" for b using S2(3) by (simp add: same_core_def)
  have st: "stack S2 = stack S" "openupval S2 = uv_next uv" using S2(3) by (simp_all add: same_core_def)
  have a: "a \<notin> set cs" using slots_ok_distinct [OF i(3)] by simp
  have inv: "uv_inv S' cs (us @ vs)"
    if "\<And>b. b \<noteq> a \<Longrightarrow> upvals S' b = upvals S2 b" "head_prev S' = head_prev S2" "head_next S' = head_next S2"
      "stack S' = stack S2" "openupval S' = openupval S2" for S'
  proof -
    have "ring_ok S' (us @ vs)" using ring_off [OF S2(2) rs'(2) that(1-3)] by simp
    moreover have "chain S' (openupval S') cs"
      using i(2) st(2) that(5) uv_chain_cong [of cs S' S "uv_next uv"] core_eq(1) [OF c] that(1) a by (metis (no_types, lifting))
    moreover have "open_slot S' b = open_slot S b" if "b \<in> set cs" for b
    proof -
      have "upvals S' b = upvals S2 b" using \<open>\<And>b. b \<noteq> a \<Longrightarrow> upvals S' b = upvals S2 b\<close> that a by metis
      then show ?thesis using core_eq(2) [OF c, of b] by (simp add: open_slot_def)
    qed
    then have "slots_ok S' cs" using i(3) slots_ok_cong [of S' S cs] that(4) st(1) by (auto simp: slots_ok_def)
    ultimately show ?thesis using i(6) rs(1) a by (auto simp: uv_inv_def)
  qed
  have step: "luaF_close S lev = (if uv_dead uv then luaF_freeupval ?S1 a \<bind> (\<lambda>S2. luaF_close S2 lev)
      else do { S2 \<leftarrow> unlinkupval ?S1 a; v \<leftarrow> uv_value S2 a;
        S3 \<leftarrow> set_upval S2 a (\<lambda>uv. uv\<lparr>uv_u := U_value v, uv_v := Own_value\<rparr>); luaF_close S3 lev })"
    using i(1) assms(2,4) l(1) by (subst luaF_close.simps) (simp add: Let_def)
  show ?thesis
  proof (cases "uv_dead uv")
    case True
    let ?S3 = "S2\<lparr>upvals := (upvals S2)(a := None)\<rparr>"
    have "luaF_close S lev = luaF_close ?S3 lev" using step True S2(1) assms(2) l(1) by (simp add: luaF_freeupval_def)
    moreover have "uv_inv ?S3 cs (us @ vs)" by (rule inv) simp_all
    ultimately show ?thesis using True st(1) c rs'(1) by (intro exI [of _ ?S3]) (simp add: closed_from_def)
  next
    case False
    have v: "uv_value S a = Some (stack S ! l)" using assms(2) l by (simp add: uv_value_def)
    then have v2: "uv_value S2 a = Some (stack S ! l)" using core_eq(4) [OF c st(1)] by simp
    then obtain w where w: "upvals S2 a = Some w" by (auto simp: uv_value_def bind_eq_Some_conv)
    let ?S3 = "S2\<lparr>upvals := (upvals S2)(a \<mapsto> w\<lparr>uv_u := U_value (stack S ! l), uv_v := Own_value\<rparr>)\<rparr>"
    have "luaF_close S lev = luaF_close ?S3 lev" using step False S2(1) v2 w by (simp add: set_upval_def)
    moreover have "uv_inv ?S3 cs (us @ vs)" by (rule inv) simp_all
    ultimately show ?thesis using False v st(1) c rs'(1) by (intro exI [of _ ?S3]) (simp add: closed_from_def)
  qed
qed

lemma closed_value:
  assumes "upvals S' a = Some z" "core z = core w" "uv_v w = Own_value" "uv_u w = U_value v"
  shows "uv_value (S'\<lparr>stack := st\<rparr>) a = Some v"
  using assms by (cases z; cases w) (auto simp: uv_value_def core_def split: uv_union.splits)

lemma luaF_close_stops:
  assumes "openupval S = None \<or> (\<exists>a l. openupval S = Some a \<and> open_slot S a = Some l \<and> l < lev)"
  shows "luaF_close S lev = Some S"
  using assms by (subst luaF_close.simps) (auto simp: open_slot_def bind_eq_Some_conv)

text \<open>
  C8: When a scope ends, the upvalues of its slots are closed: of the chain exactly those of the
  slots from \<open>lev\<close> on are taken out, the dead ones are freed, and each of the others keeps the value of its variable, whatever
  becomes of the stack.  Chain and ring stay in order, and nothing else changes.
\<close>

theorem luaF_close_keeps_values:
  assumes "uv_inv S cs rs"
  shows "\<exists>S' rs'. luaF_close S lev = Some S' \<and> uv_inv S' (filter (\<lambda>a. the (open_slot S a) < lev) cs) rs' \<and>
    set rs' = set rs - {a \<in> set cs. lev \<le> the (open_slot S a)} \<and>
    (\<forall>a \<in> set cs. lev \<le> the (open_slot S a) \<longrightarrow>
      (if map_option uv_dead (upvals S a) = Some True then upvals S' a = None
       else uv_value S a \<noteq> None \<and> (\<forall>st. uv_value (S'\<lparr>stack := st\<rparr>) a = uv_value S a))) \<and>
    (\<forall>a. a \<notin> set cs \<or> the (open_slot S a) < lev \<longrightarrow> map_option core (upvals S' a) = map_option core (upvals S a)) \<and>
    stack S' = stack S"
  using assms
proof (induction cs arbitrary: S rs)
  case Nil
  then have "openupval S = None" by (simp add: uv_inv_def)
  then show ?case using Nil luaF_close_stops [of S lev] by auto
next
  case (Cons a cs)
  have i: "openupval S = Some a" "slots_ok S (a # cs)" "ring_ok S rs" using Cons.prems by (auto simp: uv_inv_def)
  obtain uv l where uv: "upvals S a = Some uv" "open_slot S a = Some l" using i(2) by (auto simp: slots_ok_def open_slot_def bind_eq_Some_conv)
  have below: "the (open_slot S b) < l" if "b \<in> set cs" for b using i(2) uv(2) that by (auto simp: slots_ok_def)
  show ?case
  proof (cases "l < lev")
    case True
    have all: "\<forall>b \<in> set (a # cs). the (open_slot S b) < lev" using True below uv(2) by fastforce
    then have "filter (\<lambda>a. the (open_slot S a) < lev) (a # cs) = a # cs" "{b \<in> set (a # cs). lev \<le> the (open_slot S b)} = {}"
      by (auto simp del: filter.simps intro: filter_True)
    then show ?thesis using luaF_close_stops [of S lev] i(1) uv(2) True Cons.prems all
      by (intro exI [of _ S] exI [of _ rs]) auto
  next
    case False
    then obtain S1 where S1: "luaF_close S lev = luaF_close S1 lev" "uv_inv S1 cs (remove1 a rs)" "stack S1 = stack S" "closed_from S a uv S1"
        "\<And>b. b \<noteq> a \<Longrightarrow> map_option core (upvals S1 b) = map_option core (upvals S b)"
      using close_one [OF Cons.prems uv, of lev] by auto
    have a: "a \<notin> set cs" using slots_ok_distinct [OF i(2)] by simp
    have same: "open_slot S1 b = open_slot S b" "uv_value S1 b = uv_value S b" "map_option uv_dead (upvals S1 b) = map_option uv_dead (upvals S b)"
      if "b \<in> set cs" for b
      using core_eq [OF S1(5) [of b]] S1(3) that a by auto
    have f: "filter (\<lambda>a. the (open_slot S1 a) < lev) cs = filter (\<lambda>a. the (open_slot S a) < lev) (a # cs)"
      using same(1) False uv(2) by (auto intro: filter_cong)
    have r: "set (remove1 a rs) = set rs - {a}" using i(3) by (simp add: ring_ok_def)
    from Cons.IH [OF S1(2)] obtain S' rs' where
      S': "luaF_close S1 lev = Some S'" "uv_inv S' (filter (\<lambda>a. the (open_slot S1 a) < lev) cs) rs'"
        "set rs' = set (remove1 a rs) - {a \<in> set cs. lev \<le> the (open_slot S1 a)}"
        "\<forall>a \<in> set cs. lev \<le> the (open_slot S1 a) \<longrightarrow>
          (if map_option uv_dead (upvals S1 a) = Some True then upvals S' a = None
           else uv_value S1 a \<noteq> None \<and> (\<forall>st. uv_value (S'\<lparr>stack := st\<rparr>) a = uv_value S1 a))"
        "\<forall>a. a \<notin> set cs \<or> the (open_slot S1 a) < lev \<longrightarrow> map_option core (upvals S' a) = map_option core (upvals S1 a)"
        "stack S' = stack S1" by blast
    have "set rs' = set rs - {b \<in> set (a # cs). lev \<le> the (open_slot S b)}" using S'(3) same(1) r False uv(2) by auto
    moreover have "if map_option uv_dead (upvals S b) = Some True then upvals S' b = None
        else uv_value S b \<noteq> None \<and> (\<forall>st. uv_value (S'\<lparr>stack := st\<rparr>) b = uv_value S b)"
      if "b \<in> set (a # cs)" "lev \<le> the (open_slot S b)" for b
    proof (cases "b = a")
      case True
      have "map_option core (upvals S' a) = map_option core (upvals S1 a)" using S'(5) a by blast
      then show ?thesis using True S1(4) uv(1) by (auto simp: closed_from_def) (metis closed_value)
    next
      case False
      then have b: "b \<in> set cs" using that(1) by simp
      show ?thesis using bspec [OF S'(4) b] same [OF b] that(2) by (auto split: if_splits)
    qed
    moreover have "map_option core (upvals S' b) = map_option core (upvals S b)" if "b \<notin> set (a # cs) \<or> the (open_slot S b) < lev" for b
    proof -
      have "b \<noteq> a" using that False uv(2) by auto
      then show ?thesis using S'(5) S1(5) [of b] same(1) [of b] that by auto
    qed
    ultimately show ?thesis using S1(1,3) S'(1,2,6) f by (intro exI [of _ S'] exI [of _ rs']) auto
  qed
qed

section \<open>Examples\<close>

definition two_upvals :: "nat uv_state" where
  "two_upvals = \<lparr>stack = [Boolean 0, Boolean 1],
     upvals = [3 \<mapsto> \<lparr>uv_next = None, uv_dead = False, uv_v = On_stack 0, uv_u = U_links (Upv 4) Uvhead\<rparr>,
               4 \<mapsto> \<lparr>uv_next = Some 3, uv_dead = False, uv_v = On_stack 1, uv_u = U_links Uvhead (Upv 3)\<rparr>],
     openupval = Some 4, head_prev = Upv 3, head_next = Upv 4\<rparr>"

lemma two_upvals_inv: "uv_inv two_upvals [4, 3] [4, 3]"
  by (simp add: uv_inv_def two_upvals_def slots_ok_def open_slot_def ring_ok_def linked_def)

theorem luaF_findupval_shares_witness:
  "\<exists>S1 S2 S3. luaF_findupval False two_upvals 0 9 = Some (Inr (S1, 3)) \<and>
    luaF_findupval True (two_upvals\<lparr>stack := [Boolean 0, Boolean 1, Nil_value]\<rparr>) 2 9 = Some (Inr (S2, 9)) \<and>
    uv_value S2 4 = Some (Boolean 1) \<and> uv_value S2 9 = Some Nil_value \<and>
    luaF_findupval False S2 2 10 = Some (Inr (S2, 9))"
proof -
  have "\<exists>S1. luaF_findupval False two_upvals 0 9 = Some (Inr (S1, 3))"
    using luaF_findupval_shares [OF two_upvals_inv, of 0 9 False] by (auto simp: two_upvals_def open_slot_def)
  moreover
  let ?S = "two_upvals\<lparr>stack := [Boolean 0, Boolean 1, Nil_value]\<rparr>"
  have i: "uv_inv ?S [4, 3] [4, 3]"
    by (simp add: uv_inv_def two_upvals_def slots_ok_def open_slot_def ring_ok_def linked_def)
  have s: "stack ?S ! 2 = Nil_value" "2 < length (stack ?S)" "upvals ?S 9 = None" "uv_value ?S 4 = Some (Boolean 1)"
    "\<not> (\<exists>a \<in> set [4, 3]. open_slot ?S a = Some 2)"
    by (simp_all add: two_upvals_def uv_value_def open_slot_def)
  have "\<exists>S2. luaF_findupval True ?S 2 9 = Some (Inr (S2, 9)) \<and> uv_value S2 4 = Some (Boolean 1) \<and> uv_value S2 9 = Some Nil_value \<and>
      luaF_findupval False S2 2 10 = Some (Inr (S2, 9))"
    using luaF_findupval_shares [OF i s(2,3), of True] unfolding s(1) by (simp only: s(5) if_False if_True disj_not1 simp_thms) (force simp: s(4))
  ultimately show ?thesis by blast
qed

theorem luaF_close_keeps_values_witness:
  "\<exists>S'. luaF_close two_upvals 1 = Some S' \<and> (\<forall>st. uv_value (S'\<lparr>stack := st\<rparr>) 4 = Some (Boolean 1)) \<and> openupval S' = Some 3"
proof -
  have s: "the (open_slot two_upvals 4) = 1" "the (open_slot two_upvals 3) = 0" "\<not> (\<exists>z. upvals two_upvals 4 = Some z \<and> uv_dead z)"
    "uv_value two_upvals 4 = Some (Boolean 1)"
    by (simp_all add: two_upvals_def open_slot_def uv_value_def)
  show ?thesis using luaF_close_keeps_values [OF two_upvals_inv, of 1] by (auto simp: s uv_inv_def split: if_splits)
qed

text \<open>A closure gives back the bytes that were asked for it, for as many upvalues as fit in a byte.\<close>

lemma luaF_freeclosure_account:
  assumes "n < 256" "all_granted gr"
  shows "\<exists>c. luaF_newCclosure gr n e = rreturn c \<and> luaF_freeclosure (b + word_of_int (sizeCclosure (int n))) c = b"
    "\<exists>c. luaF_newLclosure gr n e = rreturn c \<and> luaF_freeclosure (b + word_of_int (sizeLclosure (int n))) c = b"
  using assms by (simp_all add: luaF_newCclosure_def luaF_newLclosure_def luaF_freeclosure_def all_granted_def rreturn_def)

end
