(* ===== verification/Spec2Isabelle.thy ===== *)
theory Spec2Isabelle
  imports JsonSafe JsonFile LuaChunk LuaQuote LuaTablibExample LuaFunc
begin

text \<open>
  DreamDota is a client for a Windows game.  Its C code is the JSON library under \<^verbatim>\<open>src/json-c\<close>, which
  the launcher uses for the profiles it sends and receives, and the Lua 5.1.4 interpreter under
  \<^verbatim>\<open>src/lualib\<close>, which runs the scripts of its plugins.  This development models that C code as it is built:
  32-bit, with wrapping integers, and with every access to memory checked.

  \<^bold>\<open>Conventions.\<close>  A function of the program is a function here that takes the state and returns the new
  one.  The value \<open>None\<close> stands for what C leaves undefined: an access outside a block, a null pointer
  followed, or a loop that does not end.  Raised errors are the left part of a sum.  So a theorem that a
  function never gives \<open>None\<close> says that it is safe and that it ends.  Memory that is refused, the numbers of the C
  library, a writer, a reader or a script that is called back are parameters.

  \<^bold>\<open>json-c.\<close>
  \<^item> \<open>CPrelude\<close>: the integers of the build, blocks of memory, decimal texts.
  \<^item> \<open>PrintBuf\<close> (\<^verbatim>\<open>printbuf.c\<close>): the growing text buffer; what is printed is appended, in bounds.
  \<^item> \<open>ArrayList\<close> (\<^verbatim>\<open>arraylist.c\<close>): the growing array, its specification as a list, and the store that leaves it.
  \<^item> \<open>LinkHash\<close> (\<^verbatim>\<open>linkhash.c\<close>): the hash table with open addressing and an insertion-ordered list; it refines an
    association list, through resizes, and a lookup can run forever once no slot is empty.
  \<^item> \<open>JsonObject\<close>, \<open>JsonPrint\<close>, \<open>JsonHeap\<close> (\<^verbatim>\<open>json_object.c\<close>): the objects on a heap with reference counts, their
    text, and the ownership of what an object holds.
  \<^item> \<open>JsonTokener\<close> (\<^verbatim>\<open>json_tokener.c\<close>): the parser, a state machine that is fed one character at a time;
    \<open>JsonSim\<close>, \<open>JsonStep\<close> and \<open>JsonSafe\<close> show that its run is a run of single steps, each of which keeps the
    invariant, so that parsing ends and stays in bounds.
  \<^item> \<open>JsonFile\<close> (\<^verbatim>\<open>json_util.c\<close>): files read into a print buffer and parsed, and texts written in the pieces that
    the system takes.

  \<^bold>\<open>lualib.\<close>
  \<^item> \<open>LuaOpcodes\<close> (\<^verbatim>\<open>lopcodes.c\<close>, \<^verbatim>\<open>lopcodes.h\<close>): instructions as words, their fields and modes.
  \<^item> \<open>LuaObject\<close> (\<^verbatim>\<open>lobject.c\<close>, \<^verbatim>\<open>lobject.h\<close>): values, prototypes, floating bytes, chunk names, conversions.
  \<^item> \<open>LuaZio\<close> (\<^verbatim>\<open>lmem.c\<close>, \<^verbatim>\<open>lzio.c\<close>): growing vectors and buffered input.
  \<^item> \<open>LuaCheck\<close> (the code checker of \<^verbatim>\<open>ldebug.c\<close>): symbolic execution stays in bounds and ends, and what it accepts is
    safe instruction by instruction, except for boolean loads whose C is above one, which it does not look at.
  \<^item> \<open>LuaDump\<close>, \<open>LuaChunk\<close> (\<^verbatim>\<open>ldump.c\<close>, \<^verbatim>\<open>lundump.c\<close>): precompiled chunks, written and read back; loading any bytes is
    safe and gives only checked code.
  \<^item> \<open>LuaPattern\<close>, \<open>LuaMatch\<close> (\<^verbatim>\<open>lstrlib.c\<close>, matching): the backtracking matcher, and the relation \<open>matches\<close> that it
    decides.
  \<^item> \<open>LuaStrlib\<close> (the rest of \<^verbatim>\<open>lstrlib.c\<close>): substrings, searching, substitution, formats; \<open>LuaStrSub\<close>,
    \<open>LuaStrFind\<close> and \<open>LuaStrFormat\<close> hold their properties.
  \<^item> \<open>LuaLex\<close> (\<^verbatim>\<open>llex.c\<close>): the lexical analyser; \<open>LuaLexSafe\<close> has its invariant, \<open>LuaQuote\<close> its exact
    runs on quoted strings and on words.
  \<^item> \<open>LuaString\<close> (\<^verbatim>\<open>lstring.c\<close>): the table of interned strings, one object for every text, and user data.
  \<^item> \<open>LuaTable\<close> (\<^verbatim>\<open>ltable.c\<close>): the tables, an array part and a hash part whose nodes are chained by their indices.
    \<open>LuaTableChain\<close> shows that chains end, \<open>LuaTableOk\<close> has the invariant and the entries of a table and shows that
    a search finds them, \<open>LuaTableInsert\<close> is the insertion where there is room, \<open>LuaTableResize\<close> moves all entries to
    a table of another size, \<open>LuaTableCount\<close> is the choice of that size, and \<open>LuaTableSet\<close> puts them together: a table
    is a map.  \<open>LuaTableWalk\<close> has the traversal and the length, \<open>LuaTableExample\<close> a table on which all of it is run.
  \<^item> \<open>LuaTablib\<close> (\<^verbatim>\<open>ltablib.c\<close>): the table library; \<open>LuaSort\<close> proves the quicksort over an interface of an array and
    a comparison, and applies it to the tables, \<open>LuaTablibOk\<close> has insertion, removal, traversal and concatenation,
    \<open>LuaTablibExample\<close> a list on which they are run.
  \<^item> \<open>LuaFunc\<close> (\<^verbatim>\<open>lfunc.c\<close>): closures and upvalues; an open upvalue is in the chain of its thread, by slot, and in the
    ring of all open ones, one upvalue stands for a slot, and closing keeps the value of the variable.

  \<^bold>\<open>How the parts meet.\<close>  The tokener builds objects with the functions of \<open>JsonHeap\<close>, which keep their fields in
  the table of \<open>LinkHash\<close> and their items in \<open>ArrayList\<close>, and prints them with \<open>PrintBuf\<close>.  The loader of chunks
  and the lexer read through \<open>LuaZio\<close>; the loader calls the checker on every function.  The lexer reads back
  what the string library quotes.  The keys of a table that are strings are placed by the hash of \<open>LuaString\<close>, and are
  compared by their texts, as its theorem allows: equal texts have one object.
  The table library reads and writes the tables with the raw accesses of the API, which are lookups and updates of
  the map that a table is.

  \<^bold>\<open>Bounds.\<close>  Loops end by a measure that the source gives them: bytes left, levels left, positions left.
  The probe loop of the hash table, the symbolic execution, the loader and the matcher's continuations are
  partial functions or recursions on the pattern, and that they end is a theorem.  The insertion into a Lua
  table and its rehash call each other; they end because a rehash leaves room for every key that is moved and
  for the new one, so that no insertion inside it rehashes again.  The loops of the quicksort end because the
  pivot stops them, for a comparison that is an order; for one that is not, the code itself promises nothing.
  The walks down the chain of upvalues end because the chain is sorted and so has no cycle.  A table has at
  most 2^26 array entries and as many nodes.  Fuel occurs only in two reference loops, one over
  \<^verbatim>\<open>string.gmatch\<close> and one over the tokens of a chunk, with theorems that enough of it exists.

  \<^bold>\<open>What the theorems leave out.\<close>  The JSON parser is safe on C strings of at most 2^27 bytes, when memory is granted and
  \<^verbatim>\<open>isspace\<close> is defined on their bytes; it calls it with negative numbers for bytes above 127, and it does not look at
  whether it got a tokener.  A table of \<open>LinkHash\<close> that cannot grow ends the process, so its runs are those in which
  memory was granted, and its sizes are far below the range of an \<^verbatim>\<open>int\<close>.  The ownership theorems are about JSON objects
  from which no member was deleted.  Insertion into and removal from a list are described for tables without holes up to
  the length, the traversal for tables without removed keys.  The depth of the C stack is not modelled.

  \<^bold>\<open>Not modelled.\<close>  The parser, the virtual machine, the collector, the API of Lua,
  the libraries that call the operating system, and the C++ programs around the two libraries, which are Windows
  dialogs, threads, pipes, HTTP and memory patches against the addresses of one version of the game.
\<close>

end
